(* ===== verification/Prelude.thy ===== *)
theory Prelude
  imports Main "HOL-Library.Char_ord" "HOL-Library.List_Lexorder" "HOL-Library.Sublist" "HOL-Library.AList"
begin

text \<open>
  What every component of the model shares: the result type of fallible Go functions, Go's
  fixed-width signed arithmetic, instants and durations, the part of package
  \<open>strings\<close> the framework calls, and generic lemmas on lists and maps.

  \<^item> A Go \<open>string\<close> is a \<open>char list\<close>, one \<open>char\<close> per byte, so
    \<open>length\<close> is Go's \<open>len\<close>.
  \<^item> \<open>strings.TrimSpace\<close>, \<open>ToLower\<close> and \<open>EqualFold\<close> are modelled byte-wise, which is
    what Go does on ASCII strings; bytes above 127 are left alone by the model, whereas
    Go decodes them as UTF-8.
  \<^item> An \<open>int\<close>, \<open>int64\<close> or \<open>time.Duration\<close> is an \<open>int\<close>, and every operation that can
    leave the 64-bit range is wrapped by \<open>i64\<close>.
  \<^item> A \<open>time.Time\<close> is the \<open>int\<close> number of nanoseconds since Go's zero time, so
    \<open>IsZero\<close> is equality with 0.
\<close>

section \<open>Names and hint collections\<close>

named_theorems state_simps \<open>rewrite rules that unfold one step of a stateful component\<close>
named_theorems inv_intros \<open>introduction rules for the invariants of components\<close>
named_theorems str_simps \<open>computation rules for the string library\<close>

type_synonym time = int
type_synonym duration = int
type_synonym bytes = string

text \<open>\<open>(T, error)\<close> results: \<open>Inl\<close> is the error, \<open>Inr\<close> the value.\<close>

type_synonym ('e, 'a) result = "'e + 'a"

section \<open>Signed 64-bit arithmetic\<close>

definition max_i64 :: int where "max_i64 = 9223372036854775807"
definition min_i64 :: int where "min_i64 = - 9223372036854775808"

definition i64 :: "int \<Rightarrow> int" where
  "i64 x = (x + 9223372036854775808) mod 18446744073709551616 - 9223372036854775808"

definition fits_i64 :: "int \<Rightarrow> bool" where
  "fits_i64 x \<longleftrightarrow> min_i64 \<le> x \<and> x \<le> max_i64"

lemmas i64_bounds_defs = max_i64_def min_i64_def fits_i64_def

lemma i64_id: "fits_i64 x \<Longrightarrow> i64 x = x"
  by (simp add: i64_def i64_bounds_defs)

lemma i64_fits: "fits_i64 (i64 x)"
  by (simp add: i64_def i64_bounds_defs)

lemma fits_i64_small: "0 \<le> x \<Longrightarrow> x \<le> 9223372036854775807 \<Longrightarrow> fits_i64 x"
  by (simp add: i64_bounds_defs)

text \<open>Go's integer division truncates towards zero.\<close>

definition go_div :: "int \<Rightarrow> int \<Rightarrow> int" where
  "go_div a b = sgn a * sgn b * (\<bar>a\<bar> div \<bar>b\<bar>)"

lemma go_div_pos: "0 \<le> a \<Longrightarrow> 0 < b \<Longrightarrow> go_div a b = a div b"
  by (cases "a = 0") (simp_all add: go_div_def)

lemma go_div_pos_iff: "0 \<le> a \<Longrightarrow> 0 < b \<Longrightarrow> (0 < go_div a b) = (b \<le> a)"
  by (simp add: go_div_pos pos_imp_zdiv_pos_iff)

lemma int_div_less_iff: "0 < b \<Longrightarrow> a div b < x \<longleftrightarrow> a < x * b" for a b x :: int
proof -
  assume b: "0 < b"
  then have "(a + (- x) * b) div b = - x + a div b" by (intro div_mult_self1) simp
  moreover have "(a + (- x) * b) div b < 0 \<longleftrightarrow> a + (- x) * b < 0" using b by (rule pos_imp_zdiv_neg_iff)
  ultimately show ?thesis by auto
qed

text \<open>\<open>Time.Sub\<close> saturates instead of overflowing.\<close>

definition time_sub :: "time \<Rightarrow> time \<Rightarrow> duration" where
  "time_sub t u = max min_i64 (min max_i64 (t - u))"

lemma time_sub_fits: "fits_i64 (t - u) \<Longrightarrow> time_sub t u = t - u"
  by (simp add: time_sub_def fits_i64_def)

section \<open>Package strings\<close>

definition char_code :: "char \<Rightarrow> nat" where
  "char_code c = of_char c"

definition is_space :: "char \<Rightarrow> bool" where
  "is_space c \<longleftrightarrow> c \<in> {CHR '' '', CHR 0x09, CHR 0x0A, CHR 0x0B, CHR 0x0C, CHR 0x0D}"

definition ascii_lower :: "char \<Rightarrow> char" where
  "ascii_lower c = (if 65 \<le> char_code c \<and> char_code c \<le> 90 then char_of (char_code c + 32) else c)"

definition to_lower :: "string \<Rightarrow> string" where
  "to_lower s = map ascii_lower s"

definition equal_fold :: "string \<Rightarrow> string \<Rightarrow> bool" where
  "equal_fold a b \<longleftrightarrow> to_lower a = to_lower b"

definition has_prefix :: "string \<Rightarrow> string \<Rightarrow> bool" where
  "has_prefix s p \<longleftrightarrow> take (length p) s = p"

definition has_suffix :: "string \<Rightarrow> string \<Rightarrow> bool" where
  "has_suffix s p \<longleftrightarrow> length p \<le> length s \<and> drop (length s - length p) s = p"

definition trim_prefix :: "string \<Rightarrow> string \<Rightarrow> string" where
  "trim_prefix s p = (if has_prefix s p then drop (length p) s else s)"

definition trim_suffix :: "string \<Rightarrow> string \<Rightarrow> string" where
  "trim_suffix s p = (if has_suffix s p then take (length s - length p) s else s)"

definition trim_left :: "(char \<Rightarrow> bool) \<Rightarrow> string \<Rightarrow> string" where
  "trim_left P s = dropWhile P s"

definition trim_space :: "string \<Rightarrow> string" where
  "trim_space s = rev (dropWhile is_space (rev (dropWhile is_space s)))"

fun split_on :: "char \<Rightarrow> string \<Rightarrow> string list" where
  "split_on c [] = [[]]"
| "split_on c (x # xs) =
     (if x = c then [] # split_on c xs
      else (case split_on c xs of [] \<Rightarrow> [[x]] | s # ss \<Rightarrow> (x # s) # ss))"

fun join_with :: "string \<Rightarrow> string list \<Rightarrow> string" where
  "join_with sep [] = []"
| "join_with sep [s] = s"
| "join_with sep (s # t # ss) = s @ sep @ join_with sep (t # ss)"

text \<open>\<open>strings.Cut\<close> at a one-byte separator: what is before it, what is after it, and
  whether it was found.\<close>

fun cut_at :: "char \<Rightarrow> string \<Rightarrow> string \<times> string \<times> bool" where
  "cut_at c [] = ([], [], False)"
| "cut_at c (x # xs) =
     (if x = c then ([], xs, True)
      else (case cut_at c xs of (a, b, ok) \<Rightarrow> (x # a, b, ok)))"

definition index_byte :: "string \<Rightarrow> char \<Rightarrow> nat option" where
  "index_byte s c = (if c \<in> set s then Some (length (takeWhile (\<lambda>x. x \<noteq> c) s)) else None)"

text \<open>\<open>strings.Index\<close>: the position of the first occurrence.\<close>

fun index_of :: "string \<Rightarrow> string \<Rightarrow> nat option" where
  "index_of [] p = (if p = [] then Some 0 else None)"
| "index_of (x # xs) p =
     (if has_prefix (x # xs) p then Some 0 else map_option Suc (index_of xs p))"

definition contains_str :: "string \<Rightarrow> string \<Rightarrow> bool" where
  "contains_str s p \<longleftrightarrow> index_of s p \<noteq> None"

definition contains_any :: "string \<Rightarrow> string \<Rightarrow> bool" where
  "contains_any s cs \<longleftrightarrow> (\<exists>c \<in> set s. c \<in> set cs)"

text \<open>\<open>http.CanonicalHeaderKey\<close>: a key of token characters has the first letter and every letter after a
  hyphen in upper case and the others in lower case; any other key is left alone.\<close>

definition ascii_upper :: "char \<Rightarrow> char" where
  "ascii_upper c = (if 97 \<le> char_code c \<and> char_code c \<le> 122 then char_of (char_code c - 32) else c)"

definition is_token_char :: "char \<Rightarrow> bool" where
  "is_token_char c \<longleftrightarrow> (48 \<le> char_code c \<and> char_code c \<le> 57) \<or> (65 \<le> char_code c \<and> char_code c \<le> 90) \<or>
     (97 \<le> char_code c \<and> char_code c \<le> 122) \<or> c \<in> set ''!#$%&*+-.^_|~'' \<or> c = CHR 0x27 \<or> c = CHR 0x60"

fun title_case :: "bool \<Rightarrow> string \<Rightarrow> string" where
  "title_case up [] = []"
| "title_case up (c # cs) = (if up then ascii_upper c else ascii_lower c) # title_case (c = CHR ''-'') cs"

definition canonical_key :: "string \<Rightarrow> string" where
  "canonical_key k = (if list_all is_token_char k then title_case True k else k)"

subsection \<open>Facts about the string functions\<close>

lemma has_prefix_append [simp]: "has_prefix (p @ s) p"
  by (simp add: has_prefix_def)

lemma has_prefix_iff: "has_prefix s p \<longleftrightarrow> (\<exists>t. s = p @ t)"
  by (metis append_eq_conv_conj append_take_drop_id has_prefix_def)

lemma has_suffix_iff: "has_suffix s p \<longleftrightarrow> (\<exists>t. s = t @ p)"
proof
  assume "has_suffix s p"
  then show "\<exists>t. s = t @ p"
    by (metis append_take_drop_id has_suffix_def)
qed (auto simp: has_suffix_def)

lemma split_on_not_Nil [simp]: "split_on c s \<noteq> []"
  by (cases s) (auto split: list.splits)

lemma split_on_no_sep: "s' \<in> set (split_on c s) \<Longrightarrow> c \<notin> set s'"
  by (induction s arbitrary: s') (auto split: if_splits list.splits)

lemma join_split_on: "join_with [c] (split_on c s) = s"
proof (induction s)
  case (Cons x xs)
  obtain t ts where t: "split_on c xs = t # ts"
    by (cases "split_on c xs") auto
  with Cons show ?case
    by (cases ts) auto
qed simp

lemma split_on_append_sep: "c \<notin> set a \<Longrightarrow> split_on c (a @ c # b) = a # split_on c b"
  by (induction a) auto

lemma split_on_no_occ: "c \<notin> set a \<Longrightarrow> split_on c a = [a]"
  by (induction a) auto

lemma split_join_on:
  "ss \<noteq> [] \<Longrightarrow> \<forall>s \<in> set ss. c \<notin> set s \<Longrightarrow> split_on c (join_with [c] ss) = ss"
proof (induction ss)
  case (Cons a ss)
  then show ?case
    by (cases ss) (auto simp: split_on_append_sep split_on_no_occ)
qed simp

lemma cut_at_found: "cut_at c s = (a, b, True) \<Longrightarrow> s = a @ c # b \<and> c \<notin> set a"
  by (induction s arbitrary: a b) (auto split: if_splits prod.splits)

lemma cut_at_not_found: "cut_at c s = (a, b, False) \<Longrightarrow> a = s \<and> b = [] \<and> c \<notin> set s"
  by (induction s arbitrary: a b) (auto split: if_splits prod.splits)

lemma cut_at_append: "c \<notin> set a \<Longrightarrow> cut_at c (a @ c # b) = (a, b, True)"
  by (induction a) auto

lemma cut_at_none: "c \<notin> set a \<Longrightarrow> cut_at c a = (a, [], False)"
  by (induction a) auto

lemma cut_at_length: "cut_at c s = (a, b, True) \<Longrightarrow> length b < length s"
  by (auto dest: cut_at_found)

lemma split_on_cut: "split_on c s = (case cut_at c s of (a, b, ok) \<Rightarrow> if ok then a # split_on c b else [a])"
proof (cases "cut_at c s")
  case (fields a b ok)
  then show ?thesis
    by (cases ok) (auto dest!: cut_at_found cut_at_not_found
        simp: split_on_append_sep split_on_no_occ)
qed

lemma index_byte_some: "index_byte s c = Some i \<Longrightarrow> i < length s \<and> s ! i = c \<and> c \<notin> set (take i s)"
proof (induction s arbitrary: i)
  case (Cons x xs)
  show ?case
  proof (cases "x = c")
    case False
    with Cons.prems obtain j where "i = Suc j" "index_byte xs c = Some j"
      by (auto simp: index_byte_def split: if_splits)
    with Cons.IH [of j] False show ?thesis by auto
  qed (use Cons.prems in \<open>auto simp: index_byte_def\<close>)
qed (simp add: index_byte_def)

lemma trim_no_space: "\<forall>c \<in> set s. \<not> is_space c \<Longrightarrow> trim_space s = s"
proof -
  have d: "\<forall>c \<in> set t. \<not> is_space c \<Longrightarrow> dropWhile is_space t = t" for t
    by (cases t) simp_all
  assume "\<forall>c \<in> set s. \<not> is_space c"
  then show ?thesis using d [of s] d [of "rev s"] by (simp add: trim_space_def)
qed

lemma trim_ends:
  "xs \<noteq> [] \<Longrightarrow> \<not> is_space (hd xs) \<Longrightarrow> \<not> is_space (last xs) \<Longrightarrow> trim_space xs = xs"
proof -
  assume a: "xs \<noteq> []" "\<not> is_space (hd xs)" "\<not> is_space (last xs)"
  then have "dropWhile is_space xs = xs" by (cases xs) simp_all
  moreover have "dropWhile is_space (rev xs) = rev xs" using a by (cases xs rule: rev_cases) simp_all
  ultimately show ?thesis by (simp add: trim_space_def)
qed

section \<open>Decimal numbers\<close>

text \<open>\<open>strconv.FormatUint\<close> and \<open>strconv.ParseUint\<close> in base 10 with 64 bits.\<close>

definition digit_char :: "nat \<Rightarrow> char" where
  "digit_char d = char_of (48 + d)"

fun dec_nat :: "nat \<Rightarrow> string" where
  "dec_nat n = (if n < 10 then [digit_char n] else dec_nat (n div 10) @ [digit_char (n mod 10)])"

declare dec_nat.simps [simp del]

text \<open>\<open>strconv.Itoa\<close>.\<close>

definition dec_int :: "int \<Rightarrow> string" where
  "dec_int i = (if i < 0 then CHR ''-'' # dec_nat (nat (- i)) else dec_nat (nat i))"

definition is_dec_digit :: "char \<Rightarrow> bool" where
  "is_dec_digit c \<longleftrightarrow> 48 \<le> char_code c \<and> char_code c \<le> 57"

definition dec_value :: "string \<Rightarrow> nat" where
  "dec_value s = foldl (\<lambda>n c. 10 * n + (char_code c - 48)) 0 s"

definition parse_uint :: "string \<Rightarrow> nat option" where
  "parse_uint s =
     (if s = [] \<or> \<not> list_all is_dec_digit s \<or> dec_value s \<ge> 2 ^ 64 then None else Some (dec_value s))"

text \<open>\<open>strconv.Atoi\<close>: an optional sign, at least one digit, a value that fits.\<close>

definition atoi :: "string \<Rightarrow> int option" where
  "atoi s =
     (let neg = (s \<noteq> [] \<and> hd s = CHR ''-'');
          ds = (if s \<noteq> [] \<and> (hd s = CHR ''-'' \<or> hd s = CHR ''+'') then tl s else s);
          n = (if neg then - int (dec_value ds) else int (dec_value ds))
      in if ds = [] \<or> \<not> list_all is_dec_digit ds \<or> \<not> fits_i64 n then None else Some n)"

lemma digit_char_code: "d < 10 \<Longrightarrow> char_code (digit_char d) = 48 + d"
  by (simp add: digit_char_def char_code_def)

lemma dec_nat_value: "dec_value (dec_nat n) = n"
proof (induction n rule: dec_nat.induct)
  case (1 n)
  show ?case
  proof (cases "n < 10")
    case True
    then show ?thesis by (subst dec_nat.simps) (simp add: dec_value_def digit_char_code)
  next
    case False
    with 1 have "dec_value (dec_nat (n div 10)) = n div 10" by simp
    with False show ?thesis by (subst dec_nat.simps) (simp add: dec_value_def digit_char_code)
  qed
qed

lemma dec_nat_digits: "list_all is_dec_digit (dec_nat n)"
proof (induction n rule: dec_nat.induct)
  case (1 n)
  have d: "is_dec_digit (digit_char d)" if "d < 10" for d
    using that by (simp add: is_dec_digit_def digit_char_code)
  show ?case
  proof (cases "n < 10")
    case True
    then show ?thesis by (subst dec_nat.simps) (simp add: d)
  next
    case False
    with 1 show ?thesis by (subst dec_nat.simps) (simp add: d)
  qed
qed

lemma dec_nat_not_Nil [simp]: "dec_nat n \<noteq> []"
  by (subst dec_nat.simps) simp

lemma parse_uint_dec_nat: "n < 2 ^ 64 \<Longrightarrow> parse_uint (dec_nat n) = Some n"
  by (simp add: parse_uint_def dec_nat_value dec_nat_digits)

section \<open>Generic lemmas\<close>

lemma map_upd_dom_finite [simp]: "finite (dom m) \<Longrightarrow> finite (dom (m(k \<mapsto> v)))"
  by simp

lemma foldl_invariant:
  assumes "P s" and "\<And>s x. P s \<Longrightarrow> x \<in> set xs \<Longrightarrow> P (f s x)"
  shows "P (foldl f s xs)"
  using assms by (induction xs arbitrary: s) auto

lemma find_append: "find P (xs @ ys) = (case find P xs of Some x \<Rightarrow> Some x | None \<Rightarrow> find P ys)"
  by (induction xs) auto

lemma filter_length_le_fold: "length (filter P xs) \<le> length xs"
  by simp

end
