(* ===== verification/Router.thy ===== *)
theory Router
  imports Prelude
begin

text \<open>
  The router (\<open>router.go\<close>): a segment trie per HTTP method. The first half is the code:
  \<open>node\<close> with its static children (a list of labels, a list of children and, for wide
  nodes, an index), \<open>parsePattern\<close>, \<open>insert\<close>, \<open>find\<close>, \<open>lookup\<close>, \<open>match\<close>, \<open>descend\<close> and
  \<open>allowed\<close>. The Go index maps a label to the same pointer as the child list; here it
  maps the label to the position of the child in that list. The second half is the
  specification: a trie denotes a map from route shapes to routes (\<open>shape_map\<close>),
  insertion updates that map at one shape, and matching returns the route whose shape
  is the least one that matches, in the order static, parameter, wildcard per segment.
  Appending to the \<open>values\<close> buffer is modelled as list append: a failed branch may leave
  data behind in the spare capacity of the Go slice, which the next append overwrites.
\<close>

section \<open>Data\<close>

record route =
  rt_method :: string
  rt_path :: string
  rt_handler :: nat
  rt_params :: "string list"

datatype node = Node
  (labels: "string list")
  (kids: "node list")
  (index: "(string \<Rightarrow> nat option) option")
  (param: "node option")
  (wildcard: "node option")
  (node_route: "route option")

definition empty_node :: node where
  "empty_node = Node [] [] None None None None"

definition max_linear_children :: nat where "max_linear_children = 8"

record router =
  trees :: "(string \<times> node) list"
  max_params :: nat

definition new_router :: router where
  "new_router = \<lparr>trees = [], max_params = 0\<rparr>"

section \<open>Static children\<close>

fun scan_labels :: "string \<Rightarrow> string list \<Rightarrow> nat option" where
  "scan_labels seg [] = None"
| "scan_labels seg (l # ls) =
     (if length l = length seg \<and> (length l = 0 \<or> hd l = hd seg) \<and> l = seg then Some 0
      else map_option Suc (scan_labels seg ls))"

definition static_slot :: "node \<Rightarrow> string \<Rightarrow> nat option" where
  "static_slot n seg = (case index n of Some ix \<Rightarrow> ix seg | None \<Rightarrow> scan_labels seg (labels n))"

definition static_child :: "node \<Rightarrow> string \<Rightarrow> node option" where
  "static_child n seg =
     (case static_slot n seg of
        Some i \<Rightarrow> (if i < length (kids n) then Some (kids n ! i) else None)
      | None \<Rightarrow> None)"

definition build_index :: "string list \<Rightarrow> string \<Rightarrow> nat option" where
  "build_index ls = foldl (\<lambda>ix (i, l). ix(l \<mapsto> i)) Map.empty (zip [0..<length ls] ls)"

text \<open>\<open>addStatic\<close> returns the position of the (possibly new) child and the node.\<close>

definition add_static :: "node \<Rightarrow> string \<Rightarrow> nat \<times> node" where
  "add_static n seg =
     (case static_slot n seg of
        Some i \<Rightarrow> (i, n)
      | None \<Rightarrow>
          (let ls = labels n @ [seg];
               ix = (if length ls > max_linear_children
                     then Some ((case index n of None \<Rightarrow> build_index ls | Some m \<Rightarrow> m)
                                  (seg \<mapsto> length (kids n)))
                     else index n)
           in (length (kids n),
               Node ls (kids n @ [empty_node]) ix (param n) (wildcard n) (node_route n))))"

section \<open>Patterns\<close>

datatype pattern_error =
    MissingSlash
  | EmptySegment
  | UnnamedParameter
  | WildcardNotLast string
  | InvalidParameter string
  | RepeatedParameter string
  | MixedSegment string

text \<open>The loop of \<open>parsePattern\<close>; the map \<open>seen\<close> holds exactly the names collected so far.\<close>

fun parse_segments :: "string list \<Rightarrow> string list \<Rightarrow> (pattern_error, string list) result" where
  "parse_segments names [] = Inr names"
| "parse_segments names (seg # rest) =
     (if seg = [] then (if rest \<noteq> [] then Inl EmptySegment else parse_segments names rest)
      else if hd seg = CHR '':'' \<or> hd seg = CHR ''*'' then
        (if hd seg = CHR '':'' \<and> tl seg = [] then Inl UnnamedParameter
         else if hd seg = CHR ''*'' \<and> rest \<noteq> [] then Inl (WildcardNotLast seg)
         else if contains_any (tl seg) '':*'' then Inl (InvalidParameter seg)
         else
           (let name = (if tl seg = [] then ''*'' else tl seg)
            in if name \<in> set names then Inl (RepeatedParameter name)
               else parse_segments (names @ [name]) rest))
      else if contains_any seg '':*'' then Inl (MixedSegment seg)
      else parse_segments names rest)"

definition parse_pattern :: "string \<Rightarrow> (pattern_error, string list) result" where
  "parse_pattern p =
     (if p = [] \<or> hd p \<noteq> CHR ''/'' then Inl MissingSlash
      else if p = ''/'' then Inr []
      else parse_segments [] (split_on (CHR ''/'') (tl p)))"

section \<open>Insertion\<close>

definition set_route :: "node \<Rightarrow> route \<Rightarrow> node" where
  "set_route n r = Node (labels n) (kids n) (index n) (param n) (wildcard n) (Some r)"

definition set_param :: "node \<Rightarrow> node \<Rightarrow> node" where
  "set_param n c = Node (labels n) (kids n) (index n) (Some c) (wildcard n) (node_route n)"

definition set_wildcard :: "node \<Rightarrow> node \<Rightarrow> node" where
  "set_wildcard n c = Node (labels n) (kids n) (index n) (param n) (Some c) (node_route n)"

definition set_kid :: "node \<Rightarrow> nat \<Rightarrow> node \<Rightarrow> node" where
  "set_kid n i c = Node (labels n) ((kids n)[i := c]) (index n) (param n) (wildcard n) (node_route n)"

definition or_empty :: "node option \<Rightarrow> node" where
  "or_empty o' = (case o' of None \<Rightarrow> empty_node | Some c \<Rightarrow> c)"

text \<open>The walk of \<open>insert\<close> from a node: the updated node and the route already there, if any.\<close>

fun insert_at :: "route \<Rightarrow> string list \<Rightarrow> node \<Rightarrow> node \<times> route option" where
  "insert_at r [] n =
     (case node_route n of Some e \<Rightarrow> (n, Some e) | None \<Rightarrow> (set_route n r, None))"
| "insert_at r (seg # segs) n =
     (if seg \<noteq> [] \<and> hd seg = CHR '':'' then
        (case insert_at r segs (or_empty (param n)) of (c, e) \<Rightarrow> (set_param n c, e))
      else if seg \<noteq> [] \<and> hd seg = CHR ''*'' then
        (case insert_at r segs (or_empty (wildcard n)) of (c, e) \<Rightarrow> (set_wildcard n c, e))
      else
        (case add_static n seg of (i, n1) \<Rightarrow>
          (case insert_at r segs (kids n1 ! i) of (c, e) \<Rightarrow> (set_kid n1 i c, e))))"

definition path_segments :: "string \<Rightarrow> string list" where
  "path_segments p = (if p = ''/'' then [] else split_on (CHR ''/'') (tl p))"

datatype insert_result = Inserted | Conflict route | BadPattern pattern_error

definition router_insert :: "router \<Rightarrow> route \<Rightarrow> router \<times> insert_result" where
  "router_insert rt r =
     (case parse_pattern (rt_path r) of
        Inl e \<Rightarrow> (rt, BadPattern e)
      | Inr names \<Rightarrow>
          (let r' = r\<lparr>rt_params := names\<rparr>;
               root = or_empty (map_of (trees rt) (rt_method r))
           in case insert_at r' (path_segments (rt_path r)) root of
                (root', e) \<Rightarrow>
                  (rt\<lparr>trees := AList.update (rt_method r) root' (trees rt),
                      max_params := max (max_params rt) (length names)\<rparr>,
                   (case e of None \<Rightarrow> Inserted | Some x \<Rightarrow> Conflict x))))"

section \<open>Matching\<close>

lemma static_child_smaller [termination_simp]: "static_child n seg = Some c \<Longrightarrow> size c < size n"
proof -
  assume "static_child n seg = Some c"
  then obtain i where "i < length (kids n)" "c = kids n ! i"
    by (auto simp: static_child_def split: option.splits if_splits)
  then have "c \<in> set (kids n)" by simp
  then have "size c < Suc (size_list size (kids n))"
    by (simp add: size_list_estimation' less_Suc_eq_le)
  then show ?thesis by (cases n) auto
qed

lemma param_smaller [termination_simp]: "param n = Some c \<Longrightarrow> size c < size n"
  by (cases n) auto

function match_rem :: "node \<Rightarrow> string \<Rightarrow> string list \<Rightarrow> route option \<times> string list"
  and descend :: "node \<Rightarrow> string \<Rightarrow> bool \<Rightarrow> string list \<Rightarrow> route option \<times> string list" where
  "match_rem n rem vals =
     (case cut_at (CHR ''/'') rem of (seg, nxt, hasNext) \<Rightarrow>
       (case (case static_child n seg of
                Some c \<Rightarrow> descend c nxt hasNext vals | None \<Rightarrow> (None, vals)) of
          (Some r, v) \<Rightarrow> (Some r, v)
        | (None, _) \<Rightarrow>
            (case (case param n of
                     Some p \<Rightarrow> (if seg \<noteq> [] then descend p nxt hasNext (vals @ [seg]) else (None, vals))
                   | None \<Rightarrow> (None, vals)) of
               (Some r, v) \<Rightarrow> (Some r, v)
             | (None, _) \<Rightarrow>
                 (case wildcard n of
                    Some w \<Rightarrow> (case node_route w of
                                Some r \<Rightarrow> (Some r, vals @ [rem]) | None \<Rightarrow> (None, vals))
                  | None \<Rightarrow> (None, vals)))))"
| "descend n nxt hasNext vals = (if \<not> hasNext then (node_route n, vals) else match_rem n nxt vals)"
  by pat_completeness auto
termination
  by (relation "measure (\<lambda>x. case x of Inl (n, _, _) \<Rightarrow> 2 * size n | Inr (n, _, _, _) \<Rightarrow> 2 * size n + 1)")
     (auto dest!: static_child_smaller param_smaller)

declare match_rem.simps [simp del] descend.simps [simp del]

definition lookup :: "node \<Rightarrow> string \<Rightarrow> string list \<Rightarrow> route option \<times> string list" where
  "lookup n path vals =
     (if path = [] \<or> path = ''/'' then
        (case node_route n of
           Some r \<Rightarrow> (Some r, vals)
         | None \<Rightarrow>
             (case wildcard n of
                Some w \<Rightarrow> (case node_route w of
                            Some r \<Rightarrow> (Some r, vals @ [[]]) | None \<Rightarrow> (None, vals))
              | None \<Rightarrow> (None, vals)))
      else if hd path \<noteq> CHR ''/'' then (None, vals)
      else match_rem n (tl path) vals)"

definition router_find :: "router \<Rightarrow> string \<Rightarrow> string \<Rightarrow> string list \<Rightarrow> route option \<times> string list" where
  "router_find rt m path vals =
     (case map_of (trees rt) m of None \<Rightarrow> (None, vals) | Some root \<Rightarrow> lookup root path vals)"

definition allowed :: "router \<Rightarrow> string \<Rightarrow> string list" where
  "allowed rt path =
     (let methods = map fst (filter (\<lambda>(m, root). fst (lookup root path []) \<noteq> None) (trees rt))
      in if methods = [] then []
         else
           (let with_head = (if ''GET'' \<in> set methods \<and> ''HEAD'' \<notin> set methods
                             then methods @ [''HEAD''] else methods);
                with_options = (if ''OPTIONS'' \<notin> set with_head
                                then with_head @ [''OPTIONS''] else with_head)
            in sort with_options))"

section \<open>Well-formed nodes\<close>

text \<open>Exactly the wide nodes have an index, and it agrees with the linear scan.\<close>

definition index_ok :: "string list \<Rightarrow> (string \<Rightarrow> nat option) option \<Rightarrow> bool" where
  "index_ok ls ix \<longleftrightarrow> (ix \<noteq> None \<longleftrightarrow> length ls > max_linear_children) \<and>
     (\<forall>m. ix = Some m \<longrightarrow> m = (\<lambda>seg. scan_labels seg ls))"

inductive wf_node :: "node \<Rightarrow> bool" where
  wf_nodeI: "length (labels n) = length (kids n) \<Longrightarrow> distinct (labels n) \<Longrightarrow>
    index_ok (labels n) (index n) \<Longrightarrow> (\<And>c. c \<in> set (kids n) \<Longrightarrow> wf_node c) \<Longrightarrow>
    (\<And>c. param n = Some c \<Longrightarrow> wf_node c) \<Longrightarrow>
    (\<And>c. wildcard n = Some c \<Longrightarrow> wf_node c) \<Longrightarrow> wf_node n"

inductive_cases wf_nodeE: "wf_node n"

lemma wf_nodeD:
  assumes "wf_node n"
  shows "length (labels n) = length (kids n)" "distinct (labels n)" "index_ok (labels n) (index n)"
    "c \<in> set (kids n) \<Longrightarrow> wf_node c" "param n = Some c \<Longrightarrow> wf_node c"
    "wildcard n = Some c \<Longrightarrow> wf_node c"
  using assms by (auto elim: wf_nodeE)

lemma scan_labels_some: "scan_labels seg ls = Some i \<Longrightarrow> i < length ls \<and> ls ! i = seg"
  by (induction ls arbitrary: i) (auto split: if_splits)

lemma scan_labels_none: "scan_labels seg ls = None \<longleftrightarrow> seg \<notin> set ls"
  by (induction ls) auto

lemma scan_labels_append:
  "scan_labels x (ls @ [seg]) =
     (case scan_labels x ls of Some i \<Rightarrow> Some i | None \<Rightarrow> if x = seg then Some (length ls) else None)"
  by (induction ls) (auto split: option.splits)

lemma static_slot_wf: "wf_node n \<Longrightarrow> static_slot n seg = scan_labels seg (labels n)"
  using wf_nodeD(3) [of n] by (auto simp: static_slot_def index_ok_def split: option.splits)

lemma build_index_snoc:
  "build_index (ls @ [l]) = (build_index ls)(l \<mapsto> length ls)"
  by (simp add: build_index_def)

lemma build_index_scan: "distinct ls \<Longrightarrow> build_index ls seg = scan_labels seg ls"
proof (induction ls rule: rev_induct)
  case (snoc l ls)
  then have "scan_labels l ls = None" by (simp add: scan_labels_none)
  with snoc show ?case
    by (auto simp: build_index_snoc scan_labels_append split: option.splits)
qed (simp add: build_index_def)

lemma empty_node_wf [simp, intro]: "wf_node empty_node"
  by (rule wf_nodeI) (simp_all add: empty_node_def index_ok_def)

lemma or_empty_wf: "(\<And>c. m = Some c \<Longrightarrow> wf_node c) \<Longrightarrow> wf_node (or_empty m)"
  by (cases m) (auto simp: or_empty_def)

lemma add_static_old: "static_slot n seg = Some i \<Longrightarrow> add_static n seg = (i, n)"
  by (simp add: add_static_def)

lemma grown_index:
  assumes "distinct ls" and "seg \<notin> set ls" and "index_ok ls old"
  shows "index_ok (ls @ [seg])
    (if length (ls @ [seg]) > max_linear_children
     then Some ((case old of None \<Rightarrow> build_index (ls @ [seg]) | Some m \<Rightarrow> m)(seg \<mapsto> length ls))
     else old)"
proof -
  have fresh: "scan_labels seg ls = None" using assms(2) by (simp add: scan_labels_none)
  have built: "(build_index (ls @ [seg]))(seg \<mapsto> length ls) = (\<lambda>x. scan_labels x (ls @ [seg]))"
    using assms(1,2) by (simp add: build_index_scan build_index_snoc scan_labels_append fresh fun_eq_iff
        split: option.splits)
  have kept: "(\<lambda>x. scan_labels x ls)(seg \<mapsto> length ls) = (\<lambda>x. scan_labels x (ls @ [seg]))"
    by (auto simp: scan_labels_append fresh fun_eq_iff split: option.splits)
  show ?thesis
  proof (cases old)
    case None
    with assms(3) show ?thesis by (simp add: index_ok_def built)
  next
    case (Some m)
    with assms(3) have "m = (\<lambda>x. scan_labels x ls)" "length ls > max_linear_children"
      by (simp_all add: index_ok_def)
    with Some show ?thesis by (simp add: index_ok_def kept)
  qed
qed

lemma add_static_new:
  assumes "wf_node n" and "static_slot n seg = None"
  shows "\<exists>ix. add_static n seg = (length (kids n),
     Node (labels n @ [seg]) (kids n @ [empty_node]) ix (param n) (wildcard n) (node_route n)) \<and>
     index_ok (labels n @ [seg]) ix"
proof -
  have "seg \<notin> set (labels n)"
    using assms by (simp add: static_slot_wf scan_labels_none)
  from grown_index [OF wf_nodeD(2) [OF assms(1)] this wf_nodeD(3) [OF assms(1)]] assms(2)
  show ?thesis
    by (simp add: add_static_def Let_def wf_nodeD(1) [OF assms(1), symmetric] split: if_splits)
qed

lemma add_static_wf:
  assumes "wf_node n" and "add_static n seg = (i, n')"
  shows "wf_node n' \<and> i < length (kids n') \<and> labels n' ! i = seg \<and>
    param n' = param n \<and> wildcard n' = wildcard n \<and> node_route n' = node_route n"
proof (cases "static_slot n seg")
  case None
  from add_static_new [OF assms(1) None] obtain ix where
    n': "n' = Node (labels n @ [seg]) (kids n @ [empty_node]) ix (param n) (wildcard n) (node_route n)"
    and i: "i = length (kids n)" and ix: "index_ok (labels n @ [seg]) ix"
    using assms(2) by auto
  have "seg \<notin> set (labels n)"
    using None assms(1) by (simp add: static_slot_wf scan_labels_none)
  have "wf_node n'"
  proof (rule wf_nodeI)
    show "length (labels n') = length (kids n')"
      using wf_nodeD(1) [OF assms(1)] by (simp add: n')
    show "distinct (labels n')"
      using wf_nodeD(2) [OF assms(1)] \<open>seg \<notin> set (labels n)\<close> by (simp add: n')
    show "index_ok (labels n') (index n')"
      using ix by (simp add: n')
    show "wf_node c" if "c \<in> set (kids n')" for c
      using that wf_nodeD(4) [OF assms(1)] by (auto simp: n')
    show "wf_node c" if "param n' = Some c" for c
      using that wf_nodeD(5) [OF assms(1)] by (simp add: n')
    show "wf_node c" if "wildcard n' = Some c" for c
      using that wf_nodeD(6) [OF assms(1)] by (simp add: n')
  qed
  with n' i wf_nodeD(1) [OF assms(1)] show ?thesis by (simp add: nth_append)
next
  case (Some j)
  then have "j < length (labels n) \<and> labels n ! j = seg"
    using assms(1) by (simp add: static_slot_wf scan_labels_some)
  moreover have "i = j" "n' = n"
    using Some assms(2) by (simp_all add: add_static_old)
  ultimately show ?thesis
    using assms(1) wf_nodeD(1) [OF assms(1)] by metis
qed

lemma set_kid_wf:
  assumes "wf_node n" "wf_node c"
  shows "wf_node (set_kid n i c)"
proof (rule wf_nodeI)
  fix d assume "d \<in> set (kids (set_kid n i c))"
  then have "d = c \<or> d \<in> set (kids n)"
    using set_update_subset_insert [of "kids n" i c] by (auto simp: set_kid_def)
  then show "wf_node d" using assms by (auto intro: wf_nodeD(4))
qed (use assms in \<open>auto simp: set_kid_def intro: wf_nodeD\<close>)

lemma set_param_wf: "wf_node n \<Longrightarrow> wf_node c \<Longrightarrow> wf_node (set_param n c)"
  by (rule wf_nodeI) (auto simp: set_param_def intro: wf_nodeD)

lemma set_wildcard_wf: "wf_node n \<Longrightarrow> wf_node c \<Longrightarrow> wf_node (set_wildcard n c)"
  by (rule wf_nodeI) (auto simp: set_wildcard_def intro: wf_nodeD)

lemma set_route_wf: "wf_node n \<Longrightarrow> wf_node (set_route n r)"
  by (rule wf_nodeI) (auto simp: set_route_def intro: wf_nodeD)

lemma add_static_kid_wf:
  assumes "wf_node n"
  shows "wf_node (snd (add_static n seg))"
    and "wf_node (kids (snd (add_static n seg)) ! fst (add_static n seg))"
  using add_static_wf [OF assms, of seg "fst (add_static n seg)" "snd (add_static n seg)"]
  by (auto intro: wf_nodeD(4))

lemma insert_at_Cons:
  "insert_at r (seg # segs) n =
     (if seg \<noteq> [] \<and> hd seg = CHR '':'' then
        apfst (set_param n) (insert_at r segs (or_empty (param n)))
      else if seg \<noteq> [] \<and> hd seg = CHR ''*'' then
        apfst (set_wildcard n) (insert_at r segs (or_empty (wildcard n)))
      else
        apfst (set_kid (snd (add_static n seg)) (fst (add_static n seg)))
          (insert_at r segs (kids (snd (add_static n seg)) ! fst (add_static n seg))))"
  by (simp add: apfst_def map_prod_def case_prod_beta)

declare insert_at.simps(2) [simp del]

lemma insert_at_wf: "wf_node n \<Longrightarrow> wf_node (fst (insert_at r segs n))"
proof (induction segs arbitrary: n)
  case Nil
  then show ?case by (auto simp: set_route_wf split: option.splits)
next
  case (Cons seg segs)
  have "wf_node (fst (insert_at r segs (or_empty (param n))))"
    by (rule Cons.IH) (rule or_empty_wf, rule wf_nodeD(5) [OF Cons.prems])
  moreover have "wf_node (fst (insert_at r segs (or_empty (wildcard n))))"
    by (rule Cons.IH) (rule or_empty_wf, rule wf_nodeD(6) [OF Cons.prems])
  ultimately show ?case
    using Cons.prems
    by (simp add: insert_at_Cons set_param_wf set_wildcard_wf set_kid_wf Cons.IH add_static_kid_wf)
qed

section \<open>What a trie means\<close>

text \<open>A route shape is the pattern without its parameter names.\<close>

datatype pat = Lit string | Par | Wild

definition pat_of :: "string \<Rightarrow> pat" where
  "pat_of seg =
     (if seg \<noteq> [] \<and> hd seg = CHR '':'' then Par
      else if seg \<noteq> [] \<and> hd seg = CHR ''*'' then Wild
      else Lit seg)"

definition shape :: "string \<Rightarrow> pat list" where
  "shape p = map pat_of (path_segments p)"

fun shape_map :: "node \<Rightarrow> pat list \<Rightarrow> route option" where
  "shape_map n [] = node_route n"
| "shape_map n (Lit s # ps) = (case static_child n s of Some c \<Rightarrow> shape_map c ps | None \<Rightarrow> None)"
| "shape_map n (Par # ps) = (case param n of Some c \<Rightarrow> shape_map c ps | None \<Rightarrow> None)"
| "shape_map n (Wild # ps) = (case wildcard n of Some c \<Rightarrow> shape_map c ps | None \<Rightarrow> None)"

text \<open>What a shape captures from the segments of a path.\<close>

fun captures :: "pat list \<Rightarrow> string list \<Rightarrow> string list option" where
  "captures [] [] = Some []"
| "captures (Lit s # ps) (x # xs) = (if s = x then captures ps xs else None)"
| "captures (Par # ps) (x # xs) = (if x \<noteq> [] then map_option ((#) x) (captures ps xs) else None)"
| "captures [Wild] (x # xs) = Some [join_with ''/'' (x # xs)]"
| "captures _ _ = None"

definition path_captures :: "pat list \<Rightarrow> string \<Rightarrow> string list option" where
  "path_captures sh path =
     (if path = [] \<or> path = ''/'' then
        (if sh = [] then Some [] else if sh = [Wild] then Some [[]] else None)
      else if hd path \<noteq> CHR ''/'' then None
      else captures sh (split_on (CHR ''/'') (tl path)))"

text \<open>The preference between shapes: static before parameter before wildcard, decided at
  the first segment where they differ.\<close>

fun rank :: "pat \<Rightarrow> nat" where
  "rank (Lit _) = 0"
| "rank Par = 1"
| "rank Wild = 2"

definition preferred :: "pat list \<Rightarrow> pat list \<Rightarrow> bool" where
  "preferred a b \<longleftrightarrow> a = b \<or> map rank a < map rank b"

definition best_in :: "(pat list \<Rightarrow> route option) \<Rightarrow> (pat list \<Rightarrow> string list option) \<Rightarrow>
    route option \<times> string list \<Rightarrow> string list \<Rightarrow> bool" where
  "best_in M cap res vals \<longleftrightarrow>
     (case res of
        (None, _) \<Rightarrow> (\<forall>sh. M sh \<noteq> None \<longrightarrow> cap sh = None)
      | (Some r, v) \<Rightarrow>
          (\<exists>sh w. M sh = Some r \<and> cap sh = Some w \<and> v = vals @ w \<and>
             (\<forall>sh'. M sh' \<noteq> None \<and> cap sh' \<noteq> None \<longrightarrow> preferred sh sh')))"

section \<open>Matching finds the preferred route\<close>

lemma captures_Cons:
  "captures sh (x # xs) = Some w \<longleftrightarrow>
     (\<exists>ps. sh = Lit x # ps \<and> captures ps xs = Some w) \<or>
     (\<exists>ps w'. sh = Par # ps \<and> x \<noteq> [] \<and> captures ps xs = Some w' \<and> w = x # w') \<or>
     (sh = [Wild] \<and> w = [join_with ''/'' (x # xs)])"
  by (cases "(sh, x # xs)" rule: captures.cases) auto

lemma preferred_Cons [simp]:
  "preferred (Lit x # a) (Lit x # b) = preferred a b"
  "preferred (Par # a) (Par # b) = preferred a b"
  "preferred (Lit x # a) (Par # b)" "preferred (Lit x # a) (Wild # b)"
  "preferred (Par # a) (Wild # b)" "preferred a a"
  by (auto simp: preferred_def)

lemma best_in_none: "best_in M cap (None, v) vals \<longleftrightarrow> (\<forall>sh. M sh \<noteq> None \<longrightarrow> cap sh = None)"
  by (simp add: best_in_def)

lemma best_in_some:
  "best_in M cap (Some r, v) vals \<longleftrightarrow>
     (\<exists>sh w. M sh = Some r \<and> cap sh = Some w \<and> v = vals @ w \<and>
        (\<forall>sh'. M sh' \<noteq> None \<and> cap sh' \<noteq> None \<longrightarrow> preferred sh sh'))"
  by (simp add: best_in_def)

text \<open>The three attempts of \<open>match\<close> in their order, each preferred to the next.\<close>

lemma best_static:
  assumes "static_child n x = Some c"
    and "best_in (shape_map c) (\<lambda>sh. captures sh xs) (Some r, v) vals"
  shows "best_in (shape_map n) (\<lambda>sh. captures sh (x # xs)) (Some r, v) vals"
proof -
  from assms(2) obtain sh w where b: "shape_map c sh = Some r" "captures sh xs = Some w" "v = vals @ w"
    "\<And>sh'. shape_map c sh' \<noteq> None \<Longrightarrow> captures sh' xs \<noteq> None \<Longrightarrow> preferred sh sh'"
    by (auto simp: best_in_some)
  have "preferred (Lit x # sh) sh'" if "shape_map n sh' \<noteq> None" "captures sh' (x # xs) \<noteq> None" for sh'
    using that assms(1) b(4) by (auto simp: captures_Cons)
  with b assms(1) show ?thesis
    unfolding best_in_some by (intro exI [of _ "Lit x # sh"] exI [of _ w]) simp
qed

lemma best_param:
  assumes st: "\<And>c sh q. static_child n x = Some c \<Longrightarrow> shape_map c sh = Some q \<Longrightarrow> captures sh xs = None"
    and "param n = Some c" and "x \<noteq> []"
    and "best_in (shape_map c) (\<lambda>sh. captures sh xs) (Some r, v) (vals @ [x])"
  shows "best_in (shape_map n) (\<lambda>sh. captures sh (x # xs)) (Some r, v) vals"
proof -
  from assms(4) obtain sh w where b: "shape_map c sh = Some r" "captures sh xs = Some w"
    "v = vals @ x # w"
    "\<And>sh'. shape_map c sh' \<noteq> None \<Longrightarrow> captures sh' xs \<noteq> None \<Longrightarrow> preferred sh sh'"
    by (auto simp: best_in_some)
  have "preferred (Par # sh) sh'" if "shape_map n sh' \<noteq> None" "captures sh' (x # xs) \<noteq> None" for sh'
    using that assms(2) b(4) st by (fastforce simp: captures_Cons split: option.splits)
  with b assms(2,3) show ?thesis
    unfolding best_in_some by (intro exI [of _ "Par # sh"] exI [of _ "x # w"]) simp
qed

lemma best_wild_or_none:
  assumes st: "\<And>c sh q. static_child n x = Some c \<Longrightarrow> shape_map c sh = Some q \<Longrightarrow> captures sh xs = None"
    and pa: "\<And>c sh q. param n = Some c \<Longrightarrow> x \<noteq> [] \<Longrightarrow> shape_map c sh = Some q \<Longrightarrow> captures sh xs = None"
  shows "best_in (shape_map n) (\<lambda>sh. captures sh (x # xs))
    (case wildcard n of
       Some w \<Rightarrow> (case node_route w of
                   Some r \<Rightarrow> (Some r, vals @ [join_with ''/'' (x # xs)]) | None \<Rightarrow> (None, vals))
     | None \<Rightarrow> (None, vals)) vals"
proof -
  have only: "sh = [Wild]" if "shape_map n sh \<noteq> None" and "captures sh (x # xs) \<noteq> None" for sh
  proof -
    obtain w r where w: "captures sh (x # xs) = Some w" and r: "shape_map n sh = Some r"
      using \<open>shape_map n sh \<noteq> None\<close> \<open>captures sh (x # xs) \<noteq> None\<close> by auto
    from w show "sh = [Wild]"
      unfolding captures_Cons using r st pa by (force split: option.splits)
  qed
  show ?thesis
  proof (cases "shape_map n [Wild]")
    case None
    then have "captures sh (x # xs) = None" if "shape_map n sh \<noteq> None" for sh
      using only that by fastforce
    then show ?thesis using None by (auto simp: best_in_none split: option.splits)
  next
    case (Some r)
    have "preferred [Wild] sh" if "shape_map n sh \<noteq> None" "captures sh (x # xs) \<noteq> None" for sh
      using only [OF that] by simp
    then have "best_in (shape_map n) (\<lambda>sh. captures sh (x # xs))
        (Some r, vals @ [join_with ''/'' (x # xs)]) vals"
      using Some unfolding best_in_some by (intro exI [of _ "[Wild]"]) simp
    with Some show ?thesis by (auto split: option.splits)
  qed
qed

lemma match_rem_best:
  "best_in (shape_map n) (\<lambda>sh. captures sh (split_on (CHR ''/'') rem)) (match_rem n rem vals) vals"
  "best_in (shape_map n') (\<lambda>sh. captures sh (if hn then split_on (CHR ''/'') nxt else []))
     (descend n' nxt hn vals') vals'"
proof (induction n rem vals and n' nxt hn vals' rule: match_rem_descend.induct)
  case (1 n rem vals)
  obtain seg nxt hn where cut: "cut_at (CHR ''/'') rem = (seg, nxt, hn)"
    by (metis prod_cases3)
  define xs where "xs = (if hn then split_on (CHR ''/'') nxt else [])"
  have segs: "split_on (CHR ''/'') rem = seg # xs"
    by (simp add: split_on_cut [of _ rem] cut xs_def)
  then have rem: "join_with ''/'' (seg # xs) = rem"
    using join_split_on [of "CHR ''/''" rem] by simp
  let ?S = "case static_child n seg of Some c \<Rightarrow> descend c nxt hn vals | None \<Rightarrow> (None, vals)"
  let ?P = "case param n of
      Some p \<Rightarrow> (if seg \<noteq> [] then descend p nxt hn (vals @ [seg]) else (None, vals))
    | None \<Rightarrow> (None, vals)"
  have bs: "best_in (shape_map c) (\<lambda>sh. captures sh xs) (descend c nxt hn vals) vals"
    if "static_child n seg = Some c" for c
    using 1(1) [OF cut [symmetric] refl that] by (simp add: xs_def)
  have bp: "best_in (shape_map c) (\<lambda>sh. captures sh xs) (descend c nxt hn (vals @ [seg])) (vals @ [seg])"
    if "fst ?S = None" "param n = Some c" "seg \<noteq> []" for c
  proof -
    from that(1) have "(None, snd ?S) = ?S" by (metis prod.collapse)
    from 1(2) [OF cut [symmetric] refl this refl that(2,3)] show ?thesis by (simp add: xs_def)
  qed
  have eq: "match_rem n rem vals =
    (case ?S of (Some r, v) \<Rightarrow> (Some r, v) | (None, _) \<Rightarrow>
      (case ?P of (Some r, v) \<Rightarrow> (Some r, v) | (None, _) \<Rightarrow>
        (case wildcard n of
           Some w \<Rightarrow> (case node_route w of
                       Some r \<Rightarrow> (Some r, vals @ [join_with ''/'' (seg # xs)]) | None \<Rightarrow> (None, vals))
         | None \<Rightarrow> (None, vals))))"
    by (simp only: match_rem.simps [of n rem] cut rem prod.case)
  show ?case
  proof (cases "fst ?S")
    case (Some r)
    then obtain c v where c: "static_child n seg = Some c" "descend c nxt hn vals = (Some r, v)"
      by (auto split: option.splits simp: prod_eq_iff)
    from best_static [OF c(1)] bs [OF c(1)] c(2) have
      "best_in (shape_map n) (\<lambda>sh. captures sh (seg # xs)) (Some r, v) vals" by simp
    moreover have "match_rem n rem vals = (Some r, v)"
      unfolding eq by (simp add: c)
    ultimately show ?thesis by (simp add: segs)
  next
    case nost: None
    have st: "captures sh xs = None" if "static_child n seg = Some c" "shape_map c sh = Some q" for c sh q
      using bs [OF that(1)] nost that by (cases "descend c nxt hn vals") (auto simp: best_in_def)
    show ?thesis
    proof (cases "fst ?P")
      case (Some r)
      then obtain c v where c: "param n = Some c" "seg \<noteq> []" "descend c nxt hn (vals @ [seg]) = (Some r, v)"
        by (auto split: option.splits if_splits simp: prod_eq_iff)
      have "match_rem n rem vals = (Some r, v)"
        unfolding eq using c nost by (cases ?S) simp
      moreover have "best_in (shape_map c) (\<lambda>sh. captures sh xs) (Some r, v) (vals @ [seg])"
        using bp [OF nost c(1,2)] c(3) by simp
      ultimately show ?thesis
        using best_param [OF st c(1,2)] by (simp add: segs)
    next
      case nopa: None
      have pa: "captures sh xs = None"
        if "param n = Some c" "seg \<noteq> []" "shape_map c sh = Some q" for c sh q
        using bp [OF nost that(1,2)] nopa that
        by (cases "descend c nxt hn (vals @ [seg])") (auto simp: best_in_def)
      have "match_rem n rem vals = (case wildcard n of
           Some w \<Rightarrow> (case node_route w of
                       Some r \<Rightarrow> (Some r, vals @ [join_with ''/'' (seg # xs)]) | None \<Rightarrow> (None, vals))
         | None \<Rightarrow> (None, vals))"
        unfolding eq using nost nopa by (cases ?S; cases ?P) simp
      with best_wild_or_none [OF st pa] show ?thesis by (simp add: segs)
    qed
  qed
next
  case (2 n nxt hn vals)
  show ?case
  proof (cases hn)
    case True
    with 2 show ?thesis by (simp add: descend.simps)
  next
    case False
    have "captures sh [] = (if sh = [] then Some [] else None)" for sh
      by (cases "(sh, [] :: string list)" rule: captures.cases) auto
    with False show ?thesis
      by (cases "node_route n") (auto simp: descend.simps best_in_def intro!: exI [of _ "[]"])
  qed
qed

lemma lookup_best:
  "best_in (shape_map n) (\<lambda>sh. path_captures sh path) (lookup n path vals) vals"
proof (cases "path = [] \<or> path = ''/''")
  case True
  then have cap: "path_captures sh path = (if sh = [] then Some [] else if sh = [Wild] then Some [[]] else None)" for sh
    by (auto simp: path_captures_def)
  have "preferred [] [Wild]" by (simp add: preferred_def)
  show ?thesis
  proof (cases "node_route n")
    case (Some r)
    with True have "lookup n path vals = (Some r, vals)" by (simp add: lookup_def)
    with Some \<open>preferred [] [Wild]\<close> show ?thesis
      by (auto simp: best_in_some cap intro!: exI [of _ "[]"])
  next
    case None
    with True show ?thesis
      by (auto simp: lookup_def best_in_def cap split: option.splits intro!: exI [of _ "[Wild]"])
  qed
next
  case False
  then show ?thesis
    using match_rem_best(1) [of n "tl path" vals]
    by (auto simp: lookup_def path_captures_def best_in_none)
qed

section \<open>Insertion updates the shape map at one shape\<close>

lemma static_child_wf:
  "wf_node n \<Longrightarrow> static_child n s =
    (case scan_labels s (labels n) of Some i \<Rightarrow> Some (kids n ! i) | None \<Rightarrow> None)"
  using wf_nodeD(1) [of n] by (auto simp: static_child_def static_slot_wf split: option.splits dest: scan_labels_some)

lemma scan_labels_nth: "distinct ls \<Longrightarrow> i < length ls \<Longrightarrow> scan_labels (ls ! i) ls = Some i"
  by (metis nth_eq_iff_index_eq nth_mem option.exhaust scan_labels_none scan_labels_some)

lemma static_child_cong:
  "labels n = labels m \<Longrightarrow> kids n = kids m \<Longrightarrow> index n = index m \<Longrightarrow>
    static_child n s = static_child m s"
  by (cases n; cases m) (auto simp: static_child_def static_slot_def split: option.split)

lemma static_child_frame [simp]:
  "static_child empty_node s = None"
  "static_child (set_route n r) s = static_child n s"
  "static_child (set_param n c) s = static_child n s"
  "static_child (set_wildcard n c) s = static_child n s"
  by (simp add: static_child_def static_slot_def empty_node_def)
     (rule static_child_cong; simp add: set_route_def set_param_def set_wildcard_def)+

lemma shape_map_empty [simp]: "shape_map empty_node sh = None"
  by (cases "(empty_node, sh)" rule: shape_map.cases) (auto simp: empty_node_def [THEN arg_cong [of _ _ param]]
      empty_node_def [THEN arg_cong [of _ _ wildcard]] empty_node_def [THEN arg_cong [of _ _ node_route]])

lemma shape_map_or_empty:
  "shape_map (or_empty (param n)) ps = shape_map n (Par # ps)"
  "shape_map (or_empty (wildcard n)) ps = shape_map n (Wild # ps)"
  by (simp_all add: or_empty_def split: option.splits)

lemma shape_map_set_route: "shape_map (set_route n r) = (shape_map n)([] \<mapsto> r)"
proof
  fix sh
  show "shape_map (set_route n r) sh = ((shape_map n)([] \<mapsto> r)) sh"
    by (cases "(n, sh)" rule: shape_map.cases)
       (auto, auto simp: set_route_def)
qed

lemma shape_map_set_param:
  "shape_map (set_param n c) sh = (case sh of Par # ps \<Rightarrow> shape_map c ps | _ \<Rightarrow> shape_map n sh)"
  by (cases "(n, sh)" rule: shape_map.cases)
     (auto, auto simp: set_param_def)

lemma shape_map_set_wildcard:
  "shape_map (set_wildcard n c) sh = (case sh of Wild # ps \<Rightarrow> shape_map c ps | _ \<Rightarrow> shape_map n sh)"
  by (cases "(n, sh)" rule: shape_map.cases)
     (auto, auto simp: set_wildcard_def)

lemma static_child_set_kid:
  assumes "wf_node n" "wf_node c" "i < length (kids n)"
  shows "static_child (set_kid n i c) s = (if s = labels n ! i then Some c else static_child n s)"
proof -
  note l = wf_nodeD(1,2) [OF assms(1)]
  have wf: "wf_node (set_kid n i c)" using assms by (simp add: set_kid_wf)
  have "labels (set_kid n i c) = labels n" "kids (set_kid n i c) = (kids n)[i := c]"
    by (simp_all add: set_kid_def)
  with assms l show ?thesis
    by (auto simp: static_child_wf [OF wf] static_child_wf [OF assms(1)] scan_labels_nth nth_list_update
        split: option.splits dest: scan_labels_some)
qed

lemma shape_map_set_kid:
  assumes "wf_node n" "wf_node c" "i < length (kids n)" "labels n ! i = seg"
  shows "shape_map (set_kid n i c) sh =
    (case sh of Lit s # ps \<Rightarrow> if s = seg then shape_map c ps else shape_map n sh | _ \<Rightarrow> shape_map n sh)"
  using assms
  by (cases "(n, sh)" rule: shape_map.cases)
     (auto simp: static_child_set_kid, auto simp: set_kid_def)

lemma static_child_add_static:
  assumes "wf_node n"
  shows "static_child (snd (add_static n seg)) s =
    (if s = seg \<and> static_child n seg = None then Some empty_node else static_child n s)"
proof (cases "static_slot n seg")
  case None
  from add_static_new [OF assms None] obtain ix where
    eq: "snd (add_static n seg) =
      Node (labels n @ [seg]) (kids n @ [empty_node]) ix (param n) (wildcard n) (node_route n)"
    by auto
  have wf: "wf_node (snd (add_static n seg))"
    using assms by (rule add_static_kid_wf)
  note wf' = wf [unfolded eq]
  have "scan_labels seg (labels n) = None" using None assms by (simp add: static_slot_wf)
  then show ?thesis
    using wf_nodeD(1) [OF assms]
    by (auto simp: static_child_wf [OF wf'] static_child_wf [OF assms] eq scan_labels_append nth_append
        split: option.splits dest: scan_labels_some)
next
  case (Some i)
  then have "static_child n seg \<noteq> None"
    using assms by (simp add: static_child_wf static_slot_wf)
  with Some show ?thesis by (auto simp: add_static_old)
qed

lemma shape_map_add_static:
  assumes "wf_node n"
  shows "shape_map (snd (add_static n seg)) = shape_map n"
proof
  fix sh
  have "param (snd (add_static n seg)) = param n \<and> wildcard (snd (add_static n seg)) = wildcard n \<and>
      node_route (snd (add_static n seg)) = node_route n"
    using add_static_wf [OF assms, of seg "fst (add_static n seg)" "snd (add_static n seg)"] by simp
  then show "shape_map (snd (add_static n seg)) sh = shape_map n sh"
    by (cases "(n, sh)" rule: shape_map.cases)
       (auto simp: static_child_add_static [OF assms])
qed

lemma shape_map_kid:
  assumes "wf_node n"
  shows "shape_map (kids (snd (add_static n seg)) ! fst (add_static n seg)) ps = shape_map n (Lit seg # ps)"
proof -
  let ?n = "snd (add_static n seg)" and ?i = "fst (add_static n seg)"
  have a: "wf_node ?n" "?i < length (kids ?n)" "labels ?n ! ?i = seg"
    using add_static_wf [OF assms, of seg ?i ?n] by simp_all
  then have "static_child ?n seg = Some (kids ?n ! ?i)"
    using scan_labels_nth [of "labels ?n" ?i] wf_nodeD(1,2) [OF a(1)] by (simp add: static_child_wf)
  then have "shape_map ?n (Lit seg # ps) = shape_map (kids ?n ! ?i) ps" by simp
  then show ?thesis by (simp add: shape_map_add_static [OF assms])
qed

text \<open>An update below one first segment is an update of the whole map.\<close>

lemma update_below:
  assumes "\<And>ps. m' (a # ps) = g ps" and "\<And>sh. (\<And>ps. sh \<noteq> a # ps) \<Longrightarrow> m' sh = m sh"
    and "h = (\<lambda>ps. m (a # ps))" and "g = (if h q = None then h(q \<mapsto> r) else h)"
  shows "m' = (if m (a # q) = None then m(a # q \<mapsto> r) else m)"
proof
  fix sh
  show "m' sh = (if m (a # q) = None then m(a # q \<mapsto> r) else m) sh"
    using assms by (cases "\<exists>ps. sh = a # ps") (auto split: if_splits)
qed

lemma insert_at_below:
  assumes n: "wf_node n"
    and IH: "\<And>c. wf_node c \<Longrightarrow> shape_map (fst (insert_at r segs c)) =
      (if shape_map c q = None then (shape_map c)(q \<mapsto> r) else shape_map c)"
  shows "shape_map (fst (insert_at r (seg # segs) n)) =
    (if shape_map n (pat_of seg # q) = None then (shape_map n)(pat_of seg # q \<mapsto> r) else shape_map n)"
proof -
  consider (par) "seg \<noteq> []" "hd seg = CHR '':''" | (wild) "seg \<noteq> []" "hd seg = CHR ''*''"
    | (lit) "\<not> (seg \<noteq> [] \<and> hd seg = CHR '':'')" "\<not> (seg \<noteq> [] \<and> hd seg = CHR ''*'')"
    by blast
  then show ?thesis
  proof cases
    case par
    have eq: "insert_at r (seg # segs) n = apfst (set_param n) (insert_at r segs (or_empty (param n)))"
      using par by (simp add: insert_at_Cons)
    have "wf_node (or_empty (param n))"
      using wf_nodeD(5) [OF n] by (rule or_empty_wf)
    from IH [OF this] have
      "shape_map (fst (insert_at r (seg # segs) n)) =
        (if shape_map n (Par # q) = None then (shape_map n)(Par # q \<mapsto> r) else shape_map n)"
      by (intro update_below [where h = "shape_map (or_empty (param n))"])
         (auto simp: eq shape_map_set_param fun_eq_iff shape_map_or_empty simp del: shape_map.simps
            split: list.splits pat.splits)
    with par show ?thesis by (simp add: pat_of_def)
  next
    case wild
    have eq: "insert_at r (seg # segs) n =
        apfst (set_wildcard n) (insert_at r segs (or_empty (wildcard n)))"
      using wild by (simp add: insert_at_Cons)
    have "wf_node (or_empty (wildcard n))"
      using wf_nodeD(6) [OF n] by (rule or_empty_wf)
    from IH [OF this] have
      "shape_map (fst (insert_at r (seg # segs) n)) =
        (if shape_map n (Wild # q) = None then (shape_map n)(Wild # q \<mapsto> r) else shape_map n)"
      by (intro update_below [where h = "shape_map (or_empty (wildcard n))"])
         (auto simp: eq shape_map_set_wildcard fun_eq_iff shape_map_or_empty simp del: shape_map.simps
            split: list.splits pat.splits)
    with wild show ?thesis by (simp add: pat_of_def)
  next
    case lit
    define n1 where "n1 = snd (add_static n seg)"
    define i where "i = fst (add_static n seg)"
    have n1: "wf_node n1" "wf_node (kids n1 ! i)" "i < length (kids n1)" "labels n1 ! i = seg"
      using add_static_kid_wf [OF n, of seg] add_static_wf [OF n, of seg i n1] by (simp_all add: n1_def i_def)
    have eq: "insert_at r (seg # segs) n = apfst (set_kid n1 i) (insert_at r segs (kids n1 ! i))"
      using lit unfolding insert_at_Cons n1_def i_def by (simp only: if_False)
    have m1: "shape_map n1 = shape_map n"
      by (simp add: n1_def shape_map_add_static [OF n])
    have kid: "shape_map (kids n1 ! i) = (\<lambda>ps. shape_map n (Lit seg # ps))"
      unfolding n1_def i_def by (rule ext) (rule shape_map_kid [OF n])
    have "shape_map (fst (insert_at r (seg # segs) n)) sh =
       (case sh of Lit s # ps \<Rightarrow> if s = seg then shape_map (fst (insert_at r segs (kids n1 ! i))) ps
          else shape_map n sh | _ \<Rightarrow> shape_map n sh)" for sh
      unfolding eq fst_apfst shape_map_set_kid [OF n1(1) insert_at_wf [OF n1(2)] n1(3,4)] m1 ..
    then have "shape_map (fst (insert_at r (seg # segs) n)) =
        (if shape_map n (Lit seg # q) = None then (shape_map n)(Lit seg # q \<mapsto> r) else shape_map n)"
      by (intro update_below [OF _ _ kid IH [OF n1(2)]])
         (auto simp del: shape_map.simps split: list.splits pat.splits)
    with lit show ?thesis by (auto simp: pat_of_def)
  qed
qed

lemma insert_at_shape:
  assumes "wf_node n"
  shows "snd (insert_at r segs n) = shape_map n (map pat_of segs)"
    and "shape_map (fst (insert_at r segs n)) =
      (if shape_map n (map pat_of segs) = None then (shape_map n)(map pat_of segs \<mapsto> r) else shape_map n)"
  using assms
proof (induction segs arbitrary: n)
  case Nil
  {
    case 1
    then show ?case by (simp split: option.splits)
  next
    case 2
    then show ?case by (simp add: shape_map_set_route split: option.splits)
  }
next
  case (Cons seg segs)
  {
    case 1
    have "wf_node (or_empty (param n))" "wf_node (or_empty (wildcard n))"
      using wf_nodeD(5,6) [OF 1] by (auto intro!: or_empty_wf)
    with Cons.IH(1) add_static_kid_wf [OF 1] show ?case
      by (simp add: insert_at_Cons pat_of_def shape_map_or_empty shape_map_kid [OF 1] del: shape_map.simps)
  next
    case 2
    from insert_at_below [OF 2 Cons.IH(2)] show ?case by simp
  }
qed

section \<open>The router as a map from method and shape to route\<close>

definition routes_of :: "router \<Rightarrow> string \<Rightarrow> pat list \<Rightarrow> route option" where
  "routes_of rt m sh = (case map_of (trees rt) m of None \<Rightarrow> None | Some root \<Rightarrow> shape_map root sh)"

definition wf_router :: "router \<Rightarrow> bool" where
  "wf_router rt \<longleftrightarrow> distinct (map fst (trees rt)) \<and> (\<forall>root \<in> snd ` set (trees rt). wf_node root)"

lemma wf_new_router: "wf_router new_router"
  by (simp add: wf_router_def new_router_def)

lemma wf_router_root: "wf_router rt \<Longrightarrow> wf_node (or_empty (map_of (trees rt) m))"
  by (rule or_empty_wf) (force simp: wf_router_def dest: map_of_SomeD)

lemma shape_map_root: "shape_map (or_empty (map_of (trees rt) m)) = routes_of rt m"
  by (auto simp: routes_of_def or_empty_def fun_eq_iff split: option.splits)

lemma set_AList_update: "set (AList.update k v xs) \<subseteq> insert (k, v) (set xs)"
  by (induction xs) auto

lemma router_insert_ok:
  fixes rt :: router and r :: route
  assumes "parse_pattern (rt_path r) = Inr names"
  defines "r' \<equiv> r\<lparr>rt_params := names\<rparr>"
  defines "res \<equiv> insert_at r' (path_segments (rt_path r)) (or_empty (map_of (trees rt) (rt_method r)))"
  shows "router_insert rt r =
    (rt\<lparr>trees := AList.update (rt_method r) (fst res) (trees rt),
        max_params := max (max_params rt) (length names)\<rparr>,
     case snd res of None \<Rightarrow> Inserted | Some x \<Rightarrow> Conflict x)"
  using assms by (simp add: router_insert_def Let_def case_prod_beta)

lemma router_insert_wf:
  assumes "wf_router rt"
  shows "wf_router (fst (router_insert rt r))"
proof (cases "parse_pattern (rt_path r)")
  case (Inl e)
  then show ?thesis using assms by (simp add: router_insert_def)
next
  case (Inr names)
  have "wf_node (fst (insert_at (r\<lparr>rt_params := names\<rparr>) (path_segments (rt_path r))
      (or_empty (map_of (trees rt) (rt_method r)))))"
    by (rule insert_at_wf) (rule wf_router_root [OF assms])
  then show ?thesis
    using assms set_AList_update by (fastforce simp: router_insert_ok [OF Inr] wf_router_def distinct_update)
qed

lemma routes_of_insert:
  assumes "wf_router rt" and "parse_pattern (rt_path r) = Inr names"
  shows "routes_of (fst (router_insert rt r)) m sh =
     (if m = rt_method r \<and> sh = shape (rt_path r) \<and> routes_of rt m sh = None
      then Some (r\<lparr>rt_params := names\<rparr>) else routes_of rt m sh)"
  using insert_at_shape(2) [OF wf_router_root [OF assms(1), of "rt_method r"],
      of "r\<lparr>rt_params := names\<rparr>" "path_segments (rt_path r)"]
  by (auto simp: router_insert_ok [OF assms(2)] routes_of_def update_conv shape_def [symmetric]
      shape_map_root [of rt "rt_method r", unfolded routes_of_def])

text \<open>The first accepted registration of a method and shape, with its parameter names.\<close>

definition accepts :: "string \<Rightarrow> pat list \<Rightarrow> route \<Rightarrow> bool" where
  "accepts m sh r \<longleftrightarrow> rt_method r = m \<and> shape (rt_path r) = sh \<and> \<not> isl (parse_pattern (rt_path r))"

definition registered :: "route list \<Rightarrow> string \<Rightarrow> pat list \<Rightarrow> route option" where
  "registered rs m sh =
     map_option (\<lambda>r. r\<lparr>rt_params := projr (parse_pattern (rt_path r))\<rparr>) (find (accepts m sh) rs)"

definition build_router :: "route list \<Rightarrow> router" where
  "build_router rs = foldl (\<lambda>rt r. fst (router_insert rt r)) new_router rs"

lemma build_router_wf: "wf_router (build_router rs)"
  unfolding build_router_def by (rule foldl_invariant) (auto simp: wf_new_router router_insert_wf)

lemma build_router_snoc: "build_router (rs @ [r]) = fst (router_insert (build_router rs) r)"
  by (simp add: build_router_def)

lemma routes_of_build: "routes_of (build_router rs) m sh = registered rs m sh"
proof (induction rs rule: rev_induct)
  case Nil
  then show ?case by (simp add: build_router_def new_router_def routes_of_def registered_def)
next
  case (snoc r rs)
  show ?case
  proof (cases "parse_pattern (rt_path r)")
    case (Inl e)
    then have "router_insert (build_router rs) r = (build_router rs, BadPattern e)"
      by (simp add: router_insert_def)
    with snoc Inl show ?thesis
      by (simp add: build_router_snoc registered_def find_append accepts_def split: option.splits)
  next
    case (Inr names)
    have "accepts m sh r \<longleftrightarrow> m = rt_method r \<and> sh = shape (rt_path r)"
      using Inr by (auto simp: accepts_def)
    with snoc Inr show ?thesis
      by (auto simp: build_router_snoc routes_of_insert [OF build_router_wf Inr] registered_def find_append
          split: option.splits)
  qed
qed

section \<open>Patterns and their parameters\<close>

definition is_var :: "pat \<Rightarrow> bool" where
  "is_var q \<longleftrightarrow> (case q of Lit _ \<Rightarrow> False | _ \<Rightarrow> True)"

text \<open>The name a pattern segment binds, if it binds one.\<close>

definition seg_name :: "string \<Rightarrow> string option" where
  "seg_name seg =
     (if is_var (pat_of seg) then Some (if tl seg = [] then ''*'' else tl seg) else None)"

lemma parse_segments_names:
  "parse_segments acc segs = Inr names \<Longrightarrow>
     names = acc @ List.map_filter seg_name segs \<and> (distinct acc \<longrightarrow> distinct names)"
proof (induction acc segs rule: parse_segments.induct)
  case (2 acc seg rest)
  then show ?case
    by (auto simp: seg_name_def pat_of_def is_var_def map_filter_simps Let_def split: if_splits)
qed (simp add: map_filter_simps)

text \<open>Every segment but the last is non-empty and no wildcard.\<close>

lemma pat_of_Wild: "pat_of seg = Wild \<longleftrightarrow> seg \<noteq> [] \<and> hd seg = CHR ''*''"
  by (auto simp: pat_of_def)

lemma parse_segments_step:
  "parse_segments acc (seg # rest) = Inr names \<Longrightarrow>
     (\<exists>acc'. parse_segments acc' rest = Inr names) \<and> (rest \<noteq> [] \<longrightarrow> seg \<noteq> [] \<and> pat_of seg \<noteq> Wild)"
  by (auto simp: pat_of_Wild Let_def split: if_splits)

lemma parse_segments_shape:
  "parse_segments acc segs = Inr names \<Longrightarrow> i + 1 < length segs \<Longrightarrow>
     segs ! i \<noteq> [] \<and> pat_of (segs ! i) \<noteq> Wild"
proof (induction segs arbitrary: acc i)
  case (Cons seg rest)
  from parse_segments_step [OF Cons.prems(1)] Cons.IH Cons.prems(2) show ?case
    by (cases i) auto
qed simp

lemma length_map_filter_seg_name: "length (List.map_filter seg_name segs) = length (filter is_var (map pat_of segs))"
  by (induction segs) (auto simp: map_filter_simps seg_name_def)

lemma parse_pattern_segments:
  "parse_pattern p = Inr names \<Longrightarrow> parse_segments [] (path_segments p) = Inr names"
  by (auto simp: parse_pattern_def path_segments_def split: if_splits)

lemma captures_length: "captures sh xs = Some w \<Longrightarrow> length w = length (filter is_var sh)"
  by (induction sh xs arbitrary: w rule: captures.induct) (auto simp: is_var_def split: if_splits)

lemma path_captures_length: "path_captures sh path = Some w \<Longrightarrow> length w = length (filter is_var sh)"
  by (auto simp: path_captures_def is_var_def captures_length split: if_splits)

definition good_segment :: "string \<Rightarrow> bool" where
  "good_segment seg =
     (case pat_of seg of
        Lit s \<Rightarrow> \<not> contains_any s '':*''
      | Par \<Rightarrow> tl seg \<noteq> [] \<and> \<not> contains_any (tl seg) '':*''
      | Wild \<Rightarrow> \<not> contains_any (tl seg) '':*'')"

lemma parse_segments_Cons:
  "parse_segments acc (seg # rest) = Inr names \<longleftrightarrow>
     good_segment seg \<and> (rest \<noteq> [] \<longrightarrow> seg \<noteq> [] \<and> pat_of seg \<noteq> Wild) \<and>
     (case seg_name seg of
        None \<Rightarrow> parse_segments acc rest = Inr names
      | Some nm \<Rightarrow> nm \<notin> set acc \<and> parse_segments (acc @ [nm]) rest = Inr names)"
proof -
  consider "seg = []" | "seg \<noteq> []" "hd seg = CHR '':''" | "seg \<noteq> []" "hd seg = CHR ''*''"
    | "seg \<noteq> []" "hd seg \<noteq> CHR '':''" "hd seg \<noteq> CHR ''*''"
    by blast
  then show ?thesis
    by cases (simp_all add: good_segment_def seg_name_def pat_of_def is_var_def Let_def contains_any_def)
qed

lemma parse_segments_iff:
  assumes "distinct acc"
  shows "parse_segments acc segs = Inr names \<longleftrightarrow>
     (\<forall>seg \<in> set segs. good_segment seg) \<and>
     (\<forall>seg \<in> set (butlast segs). seg \<noteq> [] \<and> pat_of seg \<noteq> Wild) \<and>
     names = acc @ List.map_filter seg_name segs \<and> distinct names"
  using assms
proof (induction segs arbitrary: acc)
  case (Cons seg rest)
  show ?case
  proof (cases "seg_name seg")
    case None
    with Cons.IH [OF Cons.prems] show ?thesis
      unfolding parse_segments_Cons by (auto simp: map_filter_simps)
  next
    case (Some nm)
    then show ?thesis
      unfolding parse_segments_Cons using Cons.IH [of "acc @ [nm]"] Cons.prems
      by (auto simp: map_filter_simps)
  qed
qed (auto simp: map_filter_simps)

section \<open>Properties of the router\<close>

lemma find_best:
  "best_in (registered rs m) (\<lambda>sh. path_captures sh path) (router_find (build_router rs) m path vals) vals"
proof -
  have M: "registered rs m = routes_of (build_router rs) m"
    by (simp add: routes_of_build fun_eq_iff)
  show ?thesis
  proof (cases "map_of (trees (build_router rs)) m")
    case None
    then show ?thesis by (simp add: M router_find_def routes_of_def best_in_none)
  next
    case (Some root)
    then have "routes_of (build_router rs) m = shape_map root" by (simp add: routes_of_def fun_eq_iff)
    with Some show ?thesis by (simp add: M router_find_def lookup_best)
  qed
qed

text \<open>C1: For any sequence of registrations, looking up a method and path returns the
  preferred route among all registered ones whose shape matches the path (static before
  parameter before wildcard at the first difference), together with exactly the values that
  shape captures appended to the caller's buffer; it returns no route exactly when no
  registered shape matches. Backtracking in the trie loses nothing.\<close>

theorem router_find_best:
  "best_in (registered rs m) (\<lambda>sh. path_captures sh path) (router_find (build_router rs) m path vals) vals"
  by (rule find_best)

text \<open>C2: Registering a route after any sequence of registrations reports a bad pattern when the
  pattern does not parse, the conflicting route when one with the same method and shape
  was accepted before, and otherwise succeeds.\<close>

theorem router_insert_outcome:
  "snd (router_insert (build_router rs) r) =
     (case parse_pattern (rt_path r) of
        Inl e \<Rightarrow> BadPattern e
      | Inr _ \<Rightarrow> (case registered rs (rt_method r) (shape (rt_path r)) of
                   None \<Rightarrow> Inserted | Some q \<Rightarrow> Conflict q))"
proof (cases "parse_pattern (rt_path r)")
  case (Inl e)
  then show ?thesis by (simp add: router_insert_def)
next
  case (Inr names)
  let ?rt = "build_router rs"
  have "snd (insert_at (r\<lparr>rt_params := names\<rparr>) (path_segments (rt_path r))
      (or_empty (map_of (trees ?rt) (rt_method r)))) = registered rs (rt_method r) (shape (rt_path r))"
    by (simp add: insert_at_shape(1) [OF wf_router_root [OF build_router_wf]] shape_map_root
        routes_of_build shape_def)
  with Inr show ?thesis by (simp add: router_insert_ok)
qed

lemma parse_pattern_accepts:
  "parse_pattern p = Inr names \<longleftrightarrow>
     has_prefix p ''/'' \<and> (\<forall>seg \<in> set (path_segments p). good_segment seg) \<and>
     (\<forall>seg \<in> set (butlast (path_segments p)). seg \<noteq> [] \<and> pat_of seg \<noteq> Wild) \<and>
     names = List.map_filter seg_name (path_segments p) \<and> distinct names"
proof (cases "p = [] \<or> hd p \<noteq> CHR ''/''")
  case True
  then have "\<not> has_prefix p ''/''" by (cases p) (auto simp: has_prefix_def)
  with True show ?thesis by (simp add: parse_pattern_def)
next
  case False
  then have "has_prefix p ''/''" by (cases p) (auto simp: has_prefix_def)
  moreover from False have "parse_pattern p = parse_segments [] (path_segments p)"
    by (simp add: parse_pattern_def path_segments_def)
  ultimately show ?thesis
    using parse_segments_iff [of "[]" "path_segments p" names] by simp
qed

text \<open>The pattern parser accepts exactly the patterns that begin with a slash, whose segments are
  literal text without colon and star or a whole parameter or wildcard with a valid name,
  with no empty segment and no wildcard before the last one, and with distinct names; the
  names it returns are those of the segments in order.\<close>

lemma parse_pattern_iff:
  "parse_pattern p = Inr names \<longleftrightarrow>
     has_prefix p ''/'' \<and> (\<forall>seg \<in> set (path_segments p). good_segment seg) \<and>
     (\<forall>seg \<in> set (butlast (path_segments p)). seg \<noteq> [] \<and> pat_of seg \<noteq> Wild) \<and>
     names = List.map_filter seg_name (path_segments p) \<and> distinct names"
  by (rule parse_pattern_accepts)

lemma parse_pattern_iff_witness:
  "parse_pattern ''/users/:id/*'' = Inr [''id'', ''*'']"
  using parse_pattern_iff [of "''/users/:id/*''" "[''id'', ''*'']"]
  by (simp add: path_segments_def good_segment_def pat_of_def contains_any_def has_prefix_def
      seg_name_def is_var_def map_filter_simps)

lemma registered_params:
  assumes "registered rs m sh = Some r"
  shows "length (rt_params r) = length (filter is_var sh) \<and> distinct (rt_params r) \<and>
    length (rt_params r) \<le> max_params (build_router rs)"
  using assms
proof (induction rs arbitrary: r rule: rev_induct)
  case Nil
  then show ?case by (simp add: registered_def)
next
  case (snoc x rs)
  have grow: "max_params (build_router rs) \<le> max_params (build_router (rs @ [x]))"
    by (cases "parse_pattern (rt_path x)")
       (simp add: router_insert_def build_router_snoc, simp add: build_router_snoc router_insert_ok)
  show ?case
  proof (cases "registered rs m sh")
    case (Some q)
    with snoc.prems have "r = q" by (auto simp: registered_def find_append split: option.splits)
    with snoc.IH [OF Some] grow show ?thesis by simp
  next
    case None
    with snoc.prems have "accepts m sh x" and r: "r = x\<lparr>rt_params := projr (parse_pattern (rt_path x))\<rparr>"
      by (auto simp: registered_def find_append split: option.splits if_splits)
    then obtain names where n: "parse_pattern (rt_path x) = Inr names" "shape (rt_path x) = sh"
      by (auto simp: accepts_def split: sum.splits) (metis sum.collapse(2))
    then have "names = List.map_filter seg_name (path_segments (rt_path x))" "distinct names"
      using parse_segments_iff [of "[]"] parse_pattern_segments by force+
    with n r show ?thesis
      by (simp add: build_router_snoc router_insert_ok [OF n(1)] length_map_filter_seg_name shape_def)
  qed
qed

text \<open>A successful lookup yields one value per declared parameter of the route it returns; the names
  are distinct, and the values fit the buffer sized by \<open>maxParams\<close>.\<close>

lemma find_value_count:
  assumes "router_find (build_router rs) m path [] = (Some r, v)"
  shows "length v = length (rt_params r) \<and> distinct (rt_params r) \<and> length v \<le> max_params (build_router rs)"
proof -
  from find_best [of rs m path "[]"] assms obtain sh where
    "registered rs m sh = Some r" "path_captures sh path = Some v"
    by (auto simp: best_in_some)
  with registered_params path_captures_length show ?thesis by metis
qed

definition sample_routes :: "route list" where
  "sample_routes =
     [\<lparr>rt_method = ''GET'', rt_path = ''/users/:id'', rt_handler = 1, rt_params = []\<rparr>,
      \<lparr>rt_method = ''GET'', rt_path = ''/users/me'', rt_handler = 2, rt_params = []\<rparr>,
      \<lparr>rt_method = ''PUT'', rt_path = ''/files/*path'', rt_handler = 3, rt_params = []\<rparr>]"

lemma find_value_count_witness:
  "router_find (build_router sample_routes) ''GET'' ''/users/7'' [] =
     (Some \<lparr>rt_method = ''GET'', rt_path = ''/users/:id'', rt_handler = 1, rt_params = [''id'']\<rparr>, [''7'']) \<and>
   (1::nat) \<le> max_params (build_router sample_routes)"
proof -
  have e: "router_find (build_router sample_routes) ''GET'' ''/users/7'' [] =
     (Some \<lparr>rt_method = ''GET'', rt_path = ''/users/:id'', rt_handler = 1, rt_params = [''id'']\<rparr>, [''7''])"
    by code_simp
  with find_value_count [OF e] show ?thesis by simp
qed

lemma allowed_methods:
  fixes rt :: router and path :: string
  assumes "wf_router rt"
  defines "ms \<equiv> map fst (filter (\<lambda>(m, root). fst (lookup root path []) \<noteq> None) (trees rt))"
  shows "set ms = {m. fst (router_find rt m path []) \<noteq> None}" and "distinct ms"
proof -
  have d: "distinct (map fst (trees rt))" using assms by (simp add: wf_router_def)
  then show "distinct ms" unfolding ms_def by (rule distinct_map_filter)
  show "set ms = {m. fst (router_find rt m path []) \<noteq> None}"
  proof (rule set_eqI)
    fix m
    have "m \<in> set ms \<longleftrightarrow> (\<exists>root. map_of (trees rt) m = Some root \<and> fst (lookup root path []) \<noteq> None)"
      unfolding ms_def map_of_eq_Some_iff [OF d] by force
    then show "m \<in> set ms \<longleftrightarrow> m \<in> {m. fst (router_find rt m path []) \<noteq> None}"
      by (simp add: router_find_def split: option.splits)
  qed
qed

lemma allowed_characterised:
  "sorted (allowed (build_router rs) path) \<and> distinct (allowed (build_router rs) path) \<and>
   set (allowed (build_router rs) path) =
     (let ms = {m. fst (router_find (build_router rs) m path []) \<noteq> None}
      in if ms = {} then {}
         else ms \<union> (if ''GET'' \<in> ms then {''HEAD''} else {}) \<union> {''OPTIONS''})"
proof -
  define ms where "ms = map fst (filter (\<lambda>(m, root). fst (lookup root path []) \<noteq> None)
    (trees (build_router rs)))"
  note am = allowed_methods [OF build_router_wf [of rs], of path, folded ms_def]
  have a: "allowed (build_router rs) path = (if ms = [] then [] else
      (let h = (if ''GET'' \<in> set ms \<and> ''HEAD'' \<notin> set ms then ms @ [''HEAD''] else ms);
           p = (if ''OPTIONS'' \<notin> set h then h @ [''OPTIONS''] else h) in sort p))"
    unfolding allowed_def ms_def Let_def ..
  show ?thesis
    unfolding a am(1) [symmetric] using am(2) by (auto simp: Let_def)
qed

text \<open>The methods offered for a path (the \<open>Allow\<close> header of a 405 and of an automatic OPTIONS) are
  sorted and without duplicates, empty exactly when no method matches, and otherwise the
  methods that match plus OPTIONS, plus HEAD when GET matches.\<close>

lemma allowed_spec:
  "sorted (allowed (build_router rs) path) \<and> distinct (allowed (build_router rs) path) \<and>
   set (allowed (build_router rs) path) =
     (let ms = {m. fst (router_find (build_router rs) m path []) \<noteq> None}
      in if ms = {} then {}
         else ms \<union> (if ''GET'' \<in> ms then {''HEAD''} else {}) \<union> {''OPTIONS''})"
  by (rule allowed_characterised)

section \<open>The index of a wide node\<close>

definition add_labels :: "string list \<Rightarrow> node" where
  "add_labels segs = foldl (\<lambda>n s. snd (add_static n s)) empty_node segs"

lemma add_labels_wf: "wf_node (add_labels segs)"
  unfolding add_labels_def
  by (rule foldl_invariant) (auto simp: add_static_kid_wf)

lemma labels_add_static:
  "wf_node n \<Longrightarrow> set (labels (snd (add_static n seg))) = insert seg (set (labels n))"
proof (cases "static_slot n seg")
  case None
  assume "wf_node n"
  from add_static_new [OF this None] show ?thesis by auto
next
  case (Some i)
  assume "wf_node n"
  with Some show ?thesis by (auto simp: add_static_old static_slot_wf dest: scan_labels_some)
qed

text \<open>However many static children are added to a node, looking a segment up through its index
  gives what the linear scan over the labels gives; the labels are the distinct segments
  added, and the node has an index exactly when they are more than eight.\<close>

lemma index_equals_scan:
  "static_slot (add_labels segs) x = scan_labels x (labels (add_labels segs)) \<and>
   distinct (labels (add_labels segs)) \<and> set (labels (add_labels segs)) = set segs \<and>
   (index (add_labels segs) \<noteq> None \<longleftrightarrow> card (set segs) > max_linear_children)"
proof -
  have s: "set (labels (add_labels segs)) = set segs"
  proof (induction segs rule: rev_induct)
    case (snoc x xs)
    have "add_labels (xs @ [x]) = snd (add_static (add_labels xs) x)" by (simp add: add_labels_def)
    with snoc labels_add_static [OF add_labels_wf] show ?case by simp
  qed (simp add: add_labels_def empty_node_def)
  note wf = wf_nodeD(2,3) [OF add_labels_wf, of segs]
  have "length (labels (add_labels segs)) = card (set segs)"
    using wf(1) s by (metis distinct_card)
  with s wf show ?thesis
    by (simp add: static_slot_wf [OF add_labels_wf] index_ok_def)
qed

end
