(* ===== verification/Url.thy ===== *)
theory Url
  imports Router
begin

text \<open>
  Paths and URLs built from routes: \<open>joinPaths\<close> of \<open>group.go\<close> and \<open>route.buildURL\<close> of
  \<open>route.go\<close>, with \<open>url.PathEscape\<close> and its inverse from Go's standard library. The
  round trip of the section at the end says that a URL built for a route is matched by
  that route's shape with the values it was built from.
\<close>

section \<open>Joining group prefixes\<close>

definition join_paths :: "string \<Rightarrow> string \<Rightarrow> string" where
  "join_paths pfx path =
     (let pre = trim_suffix pfx ''/''
      in if path = [] \<or> path = ''/'' then (if pre = [] then ''/'' else pre)
         else pre @ (if hd path \<noteq> CHR ''/'' then CHR ''/'' # path else path))"

definition rooted :: "string \<Rightarrow> string" where
  "rooted p = (if p = [] \<or> hd p \<noteq> CHR ''/'' then CHR ''/'' # p else p)"

lemma join_paths_eq:
  "join_paths p r = (if r = [] \<or> r = ''/'' then (if trim_suffix p ''/'' = [] then ''/'' else trim_suffix p ''/'')
     else trim_suffix p ''/'' @ rooted r)"
  by (simp add: join_paths_def Let_def rooted_def)

lemma trim_slash:
  "trim_suffix s ''/'' = (if s \<noteq> [] \<and> last s = CHR ''/'' then butlast s else s)"
proof (cases s rule: rev_cases)
  case (snoc xs x)
  then show ?thesis by (auto simp: trim_suffix_def has_suffix_def)
qed (simp add: trim_suffix_def has_suffix_def)

definition double_slash :: "string \<Rightarrow> bool" where
  "double_slash s \<longleftrightarrow> has_suffix s ''//''"

lemma double_slash_iff: "double_slash s \<longleftrightarrow> (\<exists>t. s = t @ ''//'')"
  by (simp add: double_slash_def has_suffix_iff)

lemma trim_trim:
  assumes "\<not> double_slash p"
  shows "trim_suffix (trim_suffix p ''/'') ''/'' = trim_suffix p ''/''"
proof (cases "p \<noteq> [] \<and> last p = CHR ''/''")
  case True
  then have p: "p = butlast p @ [CHR ''/'']" by (metis append_butlast_last_id)
  have "last (butlast p) \<noteq> CHR ''/''" if "butlast p \<noteq> []"
  proof
    assume "last (butlast p) = CHR ''/''"
    with that have "butlast p = butlast (butlast p) @ [CHR ''/'']" by (metis append_butlast_last_id)
    with p have "p = butlast (butlast p) @ ''//''" by (metis append.assoc append_Cons append_Nil)
    with assms show False by (metis double_slash_iff)
  qed
  with True show ?thesis by (auto simp: trim_slash)
qed (auto simp: trim_slash)

lemma trim_append: "b \<noteq> [] \<Longrightarrow> trim_suffix (a @ b) ''/'' = a @ trim_suffix b ''/''"
  by (simp add: trim_slash butlast_append)

lemma trim_rooted:
  "q \<noteq> [] \<Longrightarrow> q \<noteq> ''/'' \<Longrightarrow> trim_suffix (rooted q) ''/'' = rooted (trim_suffix q ''/'')"
  by (cases q) (auto simp: trim_slash rooted_def)

lemma trim_not_slash: "\<not> double_slash q \<Longrightarrow> trim_suffix q ''/'' \<noteq> ''/''"
  using trim_trim [of q] by (auto simp: trim_slash)

lemma trim_Nil: "trim_suffix q ''/'' = [] \<longleftrightarrow> q = [] \<or> q = ''/''"
  by (cases q) (auto simp: trim_slash)

lemma rooted_simps [simp]:
  "rooted q \<noteq> []" "q \<noteq> [] \<Longrightarrow> rooted (q @ r) = rooted q @ r" "rooted (rooted q) = rooted q"
  "rooted q = ''/'' \<longleftrightarrow> q = [] \<or> q = ''/''"
  by (auto simp: rooted_def hd_append)

text \<open>Nesting groups is associative: a route registered as \<open>r\<close> in the group \<open>q\<close> of the
  group \<open>p\<close> has the path it would have as the joined path of \<open>q\<close> and \<open>r\<close> in \<open>p\<close>, as long
  as no prefix ends in two slashes.\<close>

lemma join_paths_assoc:
  assumes "\<not> double_slash p" and "\<not> double_slash q"
  shows "join_paths (join_paths p q) r = join_paths p (join_paths q r)"
proof (cases "q = [] \<or> q = ''/''")
  case True
  have slash: "trim_suffix ''/'' ''/'' = []" "trim_suffix [] ''/'' = []" by (simp_all add: trim_slash)
  with True have "join_paths p q = (if trim_suffix p ''/'' = [] then ''/'' else trim_suffix p ''/'')"
    "trim_suffix q ''/'' = []" by (auto simp: join_paths_eq)
  then show ?thesis
    using trim_trim [OF assms(1)] slash by (auto simp: join_paths_eq)
next
  case False
  then have t: "trim_suffix q ''/'' \<noteq> []" "trim_suffix q ''/'' \<noteq> ''/''"
    using trim_not_slash [OF assms(2)] by (simp_all add: trim_Nil)
  define P Q where "P = trim_suffix p ''/''" and "Q = trim_suffix q ''/''"
  have pq: "join_paths p q = P @ rooted q" using False by (simp add: join_paths_eq P_def)
  have "trim_suffix (P @ rooted q) ''/'' = P @ rooted Q"
    using False by (simp add: trim_append trim_rooted Q_def)
  then have "join_paths (join_paths p q) r = (if r = [] \<or> r = ''/'' then P @ rooted Q else (P @ rooted Q) @ rooted r)"
    unfolding pq join_paths_eq [of "P @ rooted q"] by simp
  moreover have "join_paths q r = (if r = [] \<or> r = ''/'' then Q else Q @ rooted r)"
    using t by (simp add: join_paths_eq Q_def)
  moreover have "join_paths p z = P @ rooted z" if "z \<noteq> []" "z \<noteq> ''/''" for z
    using that by (simp add: join_paths_eq P_def)
  ultimately show ?thesis
    using t by (auto simp: Q_def [symmetric] append_eq_Cons_conv)
qed

lemma join_paths_assoc_witness:
  "join_paths (join_paths ''/api/'' ''v1'') ''/users'' = join_paths ''/api/'' (join_paths ''v1'' ''/users'')"
  by (rule join_paths_assoc) (simp_all add: double_slash_def has_suffix_def)

section \<open>Percent encoding\<close>

definition hex_digit :: "nat \<Rightarrow> char" where
  "hex_digit n = (if n < 10 then char_of (48 + n) else char_of (55 + n))"

definition hex_value :: "char \<Rightarrow> nat option" where
  "hex_value c =
     (let n = char_code c
      in if 48 \<le> n \<and> n \<le> 57 then Some (n - 48)
         else if 65 \<le> n \<and> n \<le> 70 then Some (n - 55)
         else if 97 \<le> n \<and> n \<le> 102 then Some (n - 87) else None)"

text \<open>The bytes \<open>url.PathEscape\<close> leaves alone.\<close>

definition path_safe :: "char \<Rightarrow> bool" where
  "path_safe c \<longleftrightarrow>
     (let n = char_code c
      in (97 \<le> n \<and> n \<le> 122) \<or> (65 \<le> n \<and> n \<le> 90) \<or> (48 \<le> n \<and> n \<le> 57) \<or> c \<in> set ''-_.~$&+:=@'')"

definition path_escape :: "string \<Rightarrow> string" where
  "path_escape s = concat (map (\<lambda>c. if path_safe c then [c]
     else [CHR ''%'', hex_digit (char_code c div 16), hex_digit (char_code c mod 16)]) s)"

fun path_unescape :: "string \<Rightarrow> string option" where
  "path_unescape [] = Some []"
| "path_unescape (c # cs) =
     (if c = CHR ''%'' then
        (case cs of
           a # b # r \<Rightarrow>
             (case (hex_value a, hex_value b) of
                (Some x, Some y) \<Rightarrow> map_option ((#) (char_of (16 * x + y))) (path_unescape r)
              | _ \<Rightarrow> None)
         | _ \<Rightarrow> None)
      else map_option ((#) c) (path_unescape cs))"

lemma hex_value_digit: "n < 16 \<Longrightarrow> hex_value (hex_digit n) = Some n"
  by (auto simp: hex_value_def hex_digit_def char_code_def Let_def)

lemma char_code_bound: "char_code c < 256"
  by (simp add: char_code_def)

lemma char_code_percent: "char_code (CHR ''%'') = 37"
  by (simp add: char_code_def)

lemma percent_not_safe: "\<not> path_safe (CHR ''%'')"
  by (simp add: path_safe_def Let_def char_code_percent)

lemma unescape_escape_append:
  "path_unescape t = Some u \<Longrightarrow> path_unescape (path_escape s @ t) = Some (s @ u)"
proof (induction s)
  case (Cons c s)
  have e: "path_escape (c # s) = (if path_safe c then [c]
     else [CHR ''%'', hex_digit (char_code c div 16), hex_digit (char_code c mod 16)]) @ path_escape s"
    by (simp add: path_escape_def)
  have h: "hex_value (hex_digit (char_code c div 16)) = Some (char_code c div 16)"
    "hex_value (hex_digit (char_code c mod 16)) = Some (char_code c mod 16)"
    using char_code_bound [of c] by (simp_all add: hex_value_digit less_mult_imp_div_less)
  have c: "char_of (16 * (char_code c div 16) + char_code c mod 16) = c"
    by (simp only: mult_div_mod_eq) (simp add: char_code_def)
  show ?case
  proof (cases "path_safe c")
    case True
    with percent_not_safe have "c \<noteq> CHR ''%''" by auto
    with True Cons show ?thesis by (simp add: e)
  next
    case False
    with Cons h c show ?thesis by (simp add: e)
  qed
qed (simp add: path_escape_def)

lemma unescape_plain_append:
  "CHR ''%'' \<notin> set s \<Longrightarrow> path_unescape t = Some u \<Longrightarrow> path_unescape (s @ t) = Some (s @ u)"
  by (induction s) auto

section \<open>Building a URL\<close>

datatype url_error = OddPairs | MissingParam string

fun pair_up :: "string list \<Rightarrow> (string \<times> string) list" where
  "pair_up (n # v # ps) = (n, v) # pair_up ps"
| "pair_up _ = []"

text \<open>The map \<open>values\<close>: a later pair overwrites an earlier one.\<close>

definition url_values :: "string list \<Rightarrow> string \<Rightarrow> string option" where
  "url_values pairs = map_of (rev (pair_up pairs))"

fun subst_segments :: "(string \<Rightarrow> string option) \<Rightarrow> string list \<Rightarrow> (url_error, string list) result" where
  "subst_segments vs [] = Inr []"
| "subst_segments vs (seg # segs) =
     (if seg = [] \<or> (hd seg \<noteq> CHR '':'' \<and> hd seg \<noteq> CHR ''*'')
      then map_sum id ((#) seg) (subst_segments vs segs)
      else
        (let name = (if tl seg = [] then ''*'' else tl seg)
         in case vs name of
              None \<Rightarrow> Inl (MissingParam name)
            | Some v \<Rightarrow>
                map_sum id ((#) (if hd seg = CHR ''*''
                                 then join_with ''/'' (map path_escape (split_on (CHR ''/'') v))
                                 else path_escape v)) (subst_segments vs segs)))"

definition build_url :: "string \<Rightarrow> string list \<Rightarrow> (url_error, string) result" where
  "build_url path pairs =
     (if odd (length pairs) then Inl OddPairs
      else if path = ''/'' then Inr ''/''
      else map_sum id (\<lambda>segs. CHR ''/'' # join_with ''/'' segs)
             (subst_segments (url_values pairs) (split_on (CHR ''/'') (tl path))))"

section \<open>The URL of a route is routed back to it\<close>

definition encodes :: "string \<Rightarrow> string \<Rightarrow> bool" where
  "encodes e v \<longleftrightarrow> (\<forall>t u. path_unescape t = Some u \<longrightarrow> path_unescape (e @ t) = Some (v @ u))"

lemma encodes_escape: "encodes (path_escape v) v"
  by (simp add: encodes_def unescape_escape_append)

lemma encodes_plain: "CHR ''%'' \<notin> set s \<Longrightarrow> encodes s s"
  by (simp add: encodes_def unescape_plain_append)

lemma encodes_append: "encodes a a' \<Longrightarrow> encodes b b' \<Longrightarrow> encodes (a @ b) (a' @ b')"
  by (simp add: encodes_def)

lemma encodes_unescape: "encodes e v \<Longrightarrow> path_unescape e = Some v"
  unfolding encodes_def by (metis append_Nil2 path_unescape.simps(1))

lemma join_Cons: "join_with sep (s # ss) = (if ss = [] then s else s @ sep @ join_with sep ss)"
  by (cases ss) simp_all

lemma encodes_join:
  "list_all2 encodes es vs \<Longrightarrow> encodes (join_with ''/'' es) (join_with ''/'' vs)"
proof (induction rule: list_all2_induct)
  case (Cons e es v vs)
  have "encodes ''/'' ''/''" by (rule encodes_plain) simp
  with Cons show ?case
    by (auto simp: join_Cons intro!: encodes_append [of e v] encodes_append [of "''/''" "''/''", simplified])
qed (simp add: encodes_plain)

lemma encodes_wildcard: "encodes (join_with ''/'' (map path_escape (split_on (CHR ''/'') v))) v"
proof -
  have "list_all2 encodes (map path_escape ss) ss" for ss
    by (induction ss) (simp_all add: encodes_escape)
  from encodes_join [OF this, of "split_on (CHR ''/'') v"] join_split_on [of "CHR ''/''" v]
  show ?thesis by simp
qed

definition seg_value :: "(string \<Rightarrow> string option) \<Rightarrow> string \<Rightarrow> string" where
  "seg_value vs seg = (case seg_name seg of None \<Rightarrow> seg | Some nm \<Rightarrow> the (vs nm))"

lemma subst_segments_encodes:
  "subst_segments vs segs = Inr es \<Longrightarrow> \<forall>seg \<in> set segs. CHR ''%'' \<notin> set seg \<Longrightarrow>
     list_all2 encodes es (map (seg_value vs) segs)"
proof (induction segs arbitrary: es)
  case (Cons seg segs)
  show ?case
  proof (cases "seg = [] \<or> (hd seg \<noteq> CHR '':'' \<and> hd seg \<noteq> CHR ''*'')")
    case True
    then have "seg_name seg = None" by (auto simp: seg_name_def pat_of_def is_var_def)
    moreover from True Cons.prems obtain es' where "es = seg # es'" "subst_segments vs segs = Inr es'"
      by (cases "subst_segments vs segs") auto
    ultimately show ?thesis
      using Cons by (simp add: seg_value_def encodes_plain)
  next
    case False
    define nm where "nm = (if tl seg = [] then ''*'' else tl seg)"
    have nm': "seg_name seg = Some nm"
      using False by (auto simp: seg_name_def pat_of_def is_var_def nm_def)
    from False Cons.prems(1) obtain v es' where v: "vs nm = Some v" "subst_segments vs segs = Inr es'"
      "es = (if hd seg = CHR ''*'' then join_with ''/'' (map path_escape (split_on (CHR ''/'') v))
              else path_escape v) # es'"
      by (cases "vs nm"; cases "subst_segments vs segs") (auto simp: Let_def nm_def [symmetric])
    with Cons nm' show ?thesis
      by (simp add: seg_value_def encodes_wildcard encodes_escape)
  qed
qed simp

lemma captures_values:
  assumes "segs \<noteq> []" and "\<forall>seg \<in> set segs. CHR ''/'' \<notin> set seg"
    and "\<forall>seg \<in> set (butlast segs). pat_of seg \<noteq> Wild"
    and "\<forall>seg \<in> set segs. pat_of seg = Par \<longrightarrow> seg_value vs seg \<noteq> [] \<and> CHR ''/'' \<notin> set (seg_value vs seg)"
  shows "captures (map pat_of segs) (split_on (CHR ''/'') (join_with ''/'' (map (seg_value vs) segs))) =
    Some (map (\<lambda>nm. the (vs nm)) (List.map_filter seg_name segs))"
  using assms
proof (induction segs)
  case (Cons seg segs)
  have lit: "pat_of seg = Lit s \<Longrightarrow> s = seg \<and> seg_name seg = None \<and> seg_value vs seg = seg" for s
    by (auto simp: pat_of_def seg_name_def is_var_def seg_value_def split: if_splits)
  have var: "pat_of seg \<noteq> Lit s \<Longrightarrow> seg_name seg = None \<Longrightarrow> pat_of seg \<noteq> Par \<and> pat_of seg \<noteq> Wild" for s
    by (auto simp: seg_name_def is_var_def split: if_splits)
  have val: "seg_name seg = Some nm \<Longrightarrow> the (vs nm) = seg_value vs seg" for nm
    by (simp add: seg_value_def)
  have par: "pat_of seg = Par \<or> pat_of seg = Wild \<Longrightarrow> \<exists>nm. seg_name seg = Some nm"
    by (auto simp: seg_name_def is_var_def)
  show ?case
  proof (cases "segs = []")
    case True
    show ?thesis
    proof (cases "pat_of seg")
      case (Lit s)
      with lit Cons.prems True show ?thesis by (simp add: split_on_no_occ map_filter_simps)
    next
      case Par
      with par val Cons.prems True show ?thesis by (auto simp: split_on_no_occ map_filter_simps)
    next
      case Wild
      obtain x xs where x: "split_on (CHR ''/'') (seg_value vs seg) = x # xs"
        by (cases "split_on (CHR ''/'') (seg_value vs seg)") auto
      with join_split_on have "join_with ''/'' (x # xs) = seg_value vs seg" by metis
      with Wild par val True x show ?thesis by (auto simp: map_filter_simps)
    qed
  next
    case False
    then have np: "pat_of seg \<noteq> Wild" using Cons.prems(3) by auto
    have ns: "CHR ''/'' \<notin> set (seg_value vs seg)"
      using Cons.prems(2,4) lit np by (cases "pat_of seg") auto
    have IH: "captures (map pat_of segs) (split_on (CHR ''/'') (join_with ''/'' (map (seg_value vs) segs))) =
      Some (map (\<lambda>nm. the (vs nm)) (List.map_filter seg_name segs))"
      using Cons False by (auto intro!: Cons.IH)
    have "split_on (CHR ''/'') (join_with ''/'' (map (seg_value vs) (seg # segs))) =
      seg_value vs seg # split_on (CHR ''/'') (join_with ''/'' (map (seg_value vs) segs))"
      using False by (simp add: join_Cons split_on_append_sep [OF ns])
    with IH np lit par val Cons.prems(4) show ?thesis
      by (cases "pat_of seg") (auto simp: map_filter_simps)
  qed
qed simp

lemma path_segments_set:
  "seg \<in> set (path_segments p) \<Longrightarrow> CHR ''/'' \<notin> set seg \<and> set seg \<subseteq> set p"
proof -
  assume "seg \<in> set (path_segments p)"
  then have s: "seg \<in> set (split_on (CHR ''/'') (tl p))" by (auto simp: path_segments_def split: if_splits)
  have sub: "seg \<in> set (split_on c xs) \<Longrightarrow> set seg \<subseteq> set xs" for c and xs :: string
  proof (induction xs arbitrary: seg)
    case (Cons x xs)
    obtain t ts where "split_on c xs = t # ts" by (cases "split_on c xs") auto
    with Cons show ?case by (fastforce split: if_splits)
  qed simp
  with s split_on_no_sep have "set seg \<subseteq> set (tl p)" "CHR ''/'' \<notin> set seg" by auto
  then show ?thesis by (cases p) auto
qed

text \<open>C3: A URL built for an accepted pattern without percent signs, from values that are non-empty
  and without slashes for its parameters (any value for a wildcard), decodes to a path that the
  route's shape matches, capturing exactly those values in pattern order.\<close>

theorem build_url_roundtrip:
  assumes "parse_pattern path = Inr names" and "CHR ''%'' \<notin> set path"
    and "build_url path pairs = Inr u"
    and "\<forall>seg \<in> set (path_segments path). pat_of seg = Par \<longrightarrow>
      seg_value (url_values pairs) seg \<noteq> [] \<and> CHR ''/'' \<notin> set (seg_value (url_values pairs) seg)"
  shows "\<exists>p. path_unescape u = Some p \<and>
    path_captures (shape path) p = Some (map (\<lambda>nm. the (url_values pairs nm)) names)"
proof (cases "path = ''/''")
  case True
  with assms(1,3) have "names = []" "u = ''/''"
    by (simp_all add: build_url_def parse_pattern_def split: if_splits)
  with True show ?thesis
    by (simp add: path_captures_def shape_def path_segments_def)
next
  case False
  define vs where "vs = url_values pairs"
  define segs where "segs = path_segments path"
  have sp: "segs = split_on (CHR ''/'') (tl path)" using False by (simp add: segs_def path_segments_def)
  from assms(1) have good: "has_prefix path ''/''" "\<forall>seg \<in> set (butlast segs). pat_of seg \<noteq> Wild"
    "names = List.map_filter seg_name segs"
    using parse_pattern_accepts [of path names] by (simp_all add: segs_def)
  from assms(3) False obtain es where es: "subst_segments vs segs = Inr es" "u = CHR ''/'' # join_with ''/'' es"
    by (cases "subst_segments vs segs") (auto simp: build_url_def vs_def sp split: if_splits)
  have "\<forall>seg \<in> set segs. CHR ''%'' \<notin> set seg"
    using path_segments_set assms(2) unfolding segs_def by blast
  with es(1) have "list_all2 encodes es (map (seg_value vs) segs)" by (rule subst_segments_encodes)
  from encodes_unescape [OF encodes_join [OF this]]
  have u: "path_unescape u = Some (CHR ''/'' # join_with ''/'' (map (seg_value vs) segs))"
    by (simp add: es(2))
  have ne: "segs \<noteq> []" by (simp add: sp)
  have ns: "\<forall>seg \<in> set segs. CHR ''/'' \<notin> set seg"
    using path_segments_set unfolding segs_def by blast
  have cap: "captures (map pat_of segs) (split_on (CHR ''/'') (join_with ''/'' (map (seg_value vs) segs))) =
    Some (map (\<lambda>nm. the (vs nm)) names)"
    unfolding good(3) by (rule captures_values [OF ne ns good(2)]) (use assms(4) in \<open>simp add: segs_def vs_def\<close>)
  have "path_captures (shape path) (CHR ''/'' # join_with ''/'' (map (seg_value vs) segs)) =
    Some (map (\<lambda>nm. the (vs nm)) names)"
  proof (cases "join_with ''/'' (map (seg_value vs) segs) = []")
    case False
    with cap show ?thesis by (simp add: path_captures_def shape_def segs_def)
  next
    case True
    then obtain seg where seg: "segs = [seg]" "seg_value vs seg = []"
      using ne by (cases segs) (auto simp: join_Cons split: if_splits)
    with assms(4) have "pat_of seg \<noteq> Par" by (auto simp: segs_def vs_def)
    moreover have "seg \<noteq> []"
      using seg(1) sp False good(1) join_split_on [of "CHR ''/''" "tl path"]
      by (auto simp: has_prefix_iff)
    then have "pat_of seg \<noteq> Lit s" for s
      using seg(2) by (auto simp: pat_of_def seg_value_def seg_name_def is_var_def split: if_splits)
    ultimately have "pat_of seg = Wild" by (cases "pat_of seg") auto
    with seg cap True show ?thesis
      by (simp add: path_captures_def shape_def segs_def [symmetric])
  qed
  with u show ?thesis by (auto simp: vs_def)
qed

theorem build_url_roundtrip_witness:
  "build_url ''/users/:id/*'' [''id'', ''a b'', ''*'', ''x/y''] = Inr ''/users/a%20b/x/y'' \<and>
   (\<exists>p. path_unescape ''/users/a%20b/x/y'' = Some p \<and>
     path_captures (shape ''/users/:id/*'') p = Some [''a b'', ''x/y''])"
proof -
  have e: "build_url ''/users/:id/*'' [''id'', ''a b'', ''*'', ''x/y''] = Inr ''/users/a%20b/x/y''"
    by code_simp
  have n: "parse_pattern ''/users/:id/*'' = Inr [''id'', ''*'']" by code_simp
  have "\<exists>p. path_unescape ''/users/a%20b/x/y'' = Some p \<and>
    path_captures (shape ''/users/:id/*'') p =
      Some (map (\<lambda>nm. the (url_values [''id'', ''a b'', ''*'', ''x/y''] nm)) [''id'', ''*''])"
    by (rule build_url_roundtrip [OF n _ e]) (simp, code_simp)
  with e show ?thesis by (simp add: url_values_def)
qed

text \<open>The converse fails for a parameter value that contains a slash: the path the server
  sees is decoded before it is routed.\<close>

lemma slash_value_not_routed:
  "build_url ''/users/:id'' [''id'', ''a/b''] = Inr ''/users/a%2Fb'' \<and>
   path_unescape ''/users/a%2Fb'' = Some ''/users/a/b'' \<and>
   path_captures (shape ''/users/:id'') ''/users/a/b'' = None"
  by code_simp

end
