(* ===== verification/Ratelimit.thy ===== *)
theory Ratelimit
  imports Prelude
begin

text \<open>
  Rate limiting: \<open>ratelimit/ratelimit.go\<close> (\<open>Rate\<close>, \<open>GCRA\<close>, the sharded \<open>Memory\<close> limiter and
  the middleware) and \<open>contrib/redis/limiter.go\<close> (the same algorithm as a Lua script).

  \<^item> \<open>maphash.String\<close> is the parameter \<open>h\<close>; the clock is the argument \<open>now\<close>.
  \<^item> \<open>math.Floor(float64(a)/float64(b))\<close> and \<open>math.Ceil(d.Seconds())\<close> are integer
    divisions here. They agree as long as the durations are below \<open>2 ^ 53\<close> nanoseconds
    (over 100 days) and the interval is not 0, which \<open>rate_ok\<close> demands.
  \<^item> The Redis server is not code of the repository: the script is a function of the time
    and of the reply of \<open>GET\<close>, and it returns its reply and the \<open>SET\<close> it performs.
\<close>

section \<open>Rates and the algorithm\<close>

record rate =
  rate_limit :: int
  rate_period :: duration
  rate_burst :: int

definition per_second :: "int \<Rightarrow> rate" where
  "per_second n = \<lparr>rate_limit = n, rate_period = 1000000000, rate_burst = 0\<rparr>"

definition per_minute :: "int \<Rightarrow> rate" where
  "per_minute n = \<lparr>rate_limit = n, rate_period = 60000000000, rate_burst = 0\<rparr>"

definition per_hour :: "int \<Rightarrow> rate" where
  "per_hour n = \<lparr>rate_limit = n, rate_period = 3600000000000, rate_burst = 0\<rparr>"

definition with_burst :: "rate \<Rightarrow> int \<Rightarrow> rate" where
  "with_burst r n = r\<lparr>rate_burst := n\<rparr>"

definition rate_interval :: "rate \<Rightarrow> duration" where
  "rate_interval r = go_div (rate_period r) (rate_limit r)"

definition capacity :: "rate \<Rightarrow> int" where
  "capacity r = (if rate_burst r > 0 then rate_burst r else rate_limit r)"

record limit_result =
  lr_allowed :: bool
  lr_limit :: int
  lr_remaining :: int
  lr_reset_after :: duration
  lr_retry_after :: duration

definition gcra :: "rate \<Rightarrow> time \<Rightarrow> time \<Rightarrow> limit_result \<times> time" where
  "gcra r now tat0 =
     (let interval = rate_interval r;
          cap = capacity r;
          burst = i64 (interval * cap);
          tat = (if tat0 < now then now else tat0);
          new_tat = tat + interval;
          allow_at = new_tat + i64 (- burst)
      in if now < allow_at then
           (\<lparr>lr_allowed = False, lr_limit = cap, lr_remaining = 0,
             lr_reset_after = time_sub tat now, lr_retry_after = time_sub allow_at now\<rparr>, tat)
         else
           (\<lparr>lr_allowed = True, lr_limit = cap,
             lr_remaining = min (time_sub now allow_at div interval) (cap - 1),
             lr_reset_after = time_sub new_tat now, lr_retry_after = 0\<rparr>, new_tat))"

section \<open>The in-memory limiter\<close>

record shard =
  tats :: "string \<Rightarrow> time option"
  calls :: nat

record memory =
  mem_rate :: rate
  shards :: "shard list"

definition new_memory :: "rate \<Rightarrow> memory option" where
  "new_memory r =
     (if rate_limit r \<le> 0 \<or> rate_period r \<le> 0 then None
      else Some \<lparr>mem_rate = r, shards = replicate 32 \<lparr>tats = Map.empty, calls = 0\<rparr>\<rparr>)"

definition sweep_shard :: "time \<Rightarrow> shard \<Rightarrow> shard" where
  "sweep_shard now s =
     s\<lparr>tats := (\<lambda>k. case tats s k of Some t \<Rightarrow> if t < now then None else Some t | None \<Rightarrow> None)\<rparr>"

definition tat_of :: "shard \<Rightarrow> string \<Rightarrow> time" where
  "tat_of s key = (case tats s key of Some t \<Rightarrow> t | None \<Rightarrow> 0)"

definition shard_allow :: "rate \<Rightarrow> time \<Rightarrow> string \<Rightarrow> shard \<Rightarrow> limit_result \<times> shard" where
  "shard_allow r now key s =
     (case gcra r now (tat_of s key) of (res, tat) \<Rightarrow>
       (let s1 = s\<lparr>tats := (tats s)(key \<mapsto> tat), calls := calls s + 1\<rparr>
        in (res, if calls s1 mod 1024 = 0 then sweep_shard now s1 else s1)))"

definition memory_allow :: "(string \<Rightarrow> nat) \<Rightarrow> time \<Rightarrow> string \<Rightarrow> memory \<Rightarrow> limit_result \<times> memory" where
  "memory_allow h now key m =
     (let i = h key mod length (shards m)
      in case shard_allow (mem_rate m) now key (shards m ! i) of
           (res, s) \<Rightarrow> (res, m\<lparr>shards := (shards m)[i := s]\<rparr>))"

section \<open>The Redis script\<close>

record script_reply =
  sr_allowed :: int
  sr_a :: int
  sr_b :: int

text \<open>The reply and, for an allowed request, the value stored with its expiry in milliseconds.\<close>

definition gcra_script :: "int \<Rightarrow> int \<Rightarrow> int \<Rightarrow> int option \<Rightarrow> script_reply \<times> (int \<times> int) option" where
  "gcra_script now interval burst stored =
     (let tat0 = (case stored of Some t \<Rightarrow> t | None \<Rightarrow> now);
          tat = (if tat0 < now then now else tat0);
          new_tat = tat + interval;
          allow_at = new_tat - burst
      in if now < allow_at then
           (\<lparr>sr_allowed = 0, sr_a = allow_at - now, sr_b = tat - now\<rparr>, None)
         else
           (\<lparr>sr_allowed = 1, sr_a = now - allow_at, sr_b = new_tat - now\<rparr>,
            Some (new_tat, - ((now - new_tat) div 1000))))"

definition micros :: "duration \<Rightarrow> int" where
  "micros d = go_div d 1000"

definition redis_allow :: "rate \<Rightarrow> int \<Rightarrow> int option \<Rightarrow> limit_result \<times> (int \<times> int) option" where
  "redis_allow r now stored =
     (let interval = micros (rate_interval r);
          cap = capacity r
      in case gcra_script now interval (i64 (interval * cap)) stored of (rep, st) \<Rightarrow>
           if sr_allowed rep = 0 then
             (\<lparr>lr_allowed = False, lr_limit = cap, lr_remaining = 0,
               lr_reset_after = i64 (sr_b rep * 1000), lr_retry_after = i64 (sr_a rep * 1000)\<rparr>, st)
           else
             (\<lparr>lr_allowed = True, lr_limit = cap,
               lr_remaining = min (sr_a rep div interval) (cap - 1),
               lr_reset_after = i64 (sr_b rep * 1000), lr_retry_after = 0\<rparr>, st))"

section \<open>The middleware\<close>

definition ceil_seconds :: "duration \<Rightarrow> int" where
  "ceil_seconds d = - ((- d) div 1000000000)"

record limit_headers =
  h_limit :: int
  h_remaining :: int
  h_reset :: int

datatype limit_outcome =
    Proceed "limit_headers option"
  | TooMany limit_headers int
  | LimiterUnavailable

definition limit_middleware ::
  "bool \<Rightarrow> bool \<Rightarrow> ('e, limit_result) result \<Rightarrow> limit_outcome" where
  "limit_middleware fail_closed skip res =
     (if skip then Proceed None
      else case res of
        Inl _ \<Rightarrow> (if fail_closed then LimiterUnavailable else Proceed None)
      | Inr r \<Rightarrow>
          (let h = \<lparr>h_limit = lr_limit r, h_remaining = lr_remaining r,
                    h_reset = ceil_seconds (lr_reset_after r)\<rparr>
           in if \<not> lr_allowed r then TooMany h (max (ceil_seconds (lr_retry_after r)) 1)
              else Proceed (Some h)))"

section \<open>Facts about one decision\<close>

definition rate_ok :: "rate \<Rightarrow> bool" where
  "rate_ok r \<longleftrightarrow> 0 < rate_limit r \<and> 0 < rate_period r \<and> 0 < rate_interval r \<and>
     fits_i64 (rate_interval r * capacity r)"

abbreviation burst_of :: "rate \<Rightarrow> int" where
  "burst_of r \<equiv> rate_interval r * capacity r"

lemma capacity_pos: "rate_ok r \<Longrightarrow> 0 < capacity r"
  by (auto simp: rate_ok_def capacity_def)

lemma burst_bounds:
  assumes "rate_ok r"
  shows "rate_interval r \<le> burst_of r" "burst_of r \<le> max_i64" "i64 (burst_of r) = burst_of r"
    "i64 (- burst_of r) = - burst_of r" "0 < rate_interval r"
proof -
  have p: "0 < rate_interval r" "1 \<le> capacity r" "fits_i64 (burst_of r)"
    using assms capacity_pos [OF assms] by (auto simp: rate_ok_def)
  then show "0 < rate_interval r" "rate_interval r \<le> burst_of r" "i64 (burst_of r) = burst_of r"
    by (simp_all add: i64_id mult_le_cancel_left1)
  then have "0 \<le> burst_of r" using p(1) by linarith
  with p(3) show "burst_of r \<le> max_i64" "i64 (- burst_of r) = - burst_of r"
    by (auto simp: i64_bounds_defs intro!: i64_id)
qed

text \<open>The decision, without the wrap-around that \<open>rate_ok\<close> excludes.\<close>

lemma gcra_eq:
  fixes tat now :: time
  assumes "rate_ok r"
  defines "t \<equiv> max tat now"
  shows "gcra r now tat =
    (if now < t + rate_interval r - burst_of r then
       (\<lparr>lr_allowed = False, lr_limit = capacity r, lr_remaining = 0,
         lr_reset_after = time_sub t now,
         lr_retry_after = time_sub (t + rate_interval r - burst_of r) now\<rparr>, t)
     else
       (\<lparr>lr_allowed = True, lr_limit = capacity r,
         lr_remaining = min (time_sub now (t + rate_interval r - burst_of r) div rate_interval r) (capacity r - 1),
         lr_reset_after = time_sub (t + rate_interval r) now, lr_retry_after = 0\<rparr>, t + rate_interval r))"
proof -
  have t: "(if tat < now then now else tat) = t" by (simp add: t_def)
  have b: "x + i64 (- i64 (rate_interval r * capacity r)) = x - burst_of r" for x
    using burst_bounds(3,4) [OF assms(1)] by simp
  show ?thesis unfolding gcra_def Let_def t b ..
qed

lemma gcra_allowed:
  "rate_ok r \<Longrightarrow> lr_allowed (fst (gcra r now tat)) \<longleftrightarrow> max tat now + rate_interval r - burst_of r \<le> now"
  by (simp add: gcra_eq)

lemma gcra_tat:
  "rate_ok r \<Longrightarrow> snd (gcra r now tat) =
     (if max tat now + rate_interval r - burst_of r \<le> now then max tat now + rate_interval r else max tat now)"
  by (simp add: gcra_eq)

lemma gcra_past: "tat < now \<Longrightarrow> tat' < now \<Longrightarrow> gcra r now tat = gcra r now tat'"
  by (simp add: gcra_def)

lemma gcra_past_le: "tat \<le> now \<Longrightarrow> tat' \<le> now \<Longrightarrow> gcra r now tat = gcra r now tat'"
  by (simp add: gcra_def)

section \<open>Runs of requests for one key\<close>

fun gcra_run :: "rate \<Rightarrow> time \<Rightarrow> time list \<Rightarrow> limit_result list \<times> time" where
  "gcra_run r tat [] = ([], tat)"
| "gcra_run r tat (now # ts) =
     (let d = gcra r now tat; rest = gcra_run r (snd d) ts
      in (fst d # fst rest, snd rest))"

definition admitted :: "limit_result list \<Rightarrow> nat" where
  "admitted rs = length (filter lr_allowed rs)"

lemma gcra_run_Cons:
  "fst (gcra_run r tat (now # ts)) = fst (gcra r now tat) # fst (gcra_run r (snd (gcra r now tat)) ts)"
  by (simp add: Let_def)

declare gcra_run.simps(2) [simp del]

lemma admitted_Cons [simp]: "admitted (d # ds) = (if lr_allowed d then 1 else 0) + admitted ds"
  by (simp add: admitted_def)

lemma admitted_Nil [simp]: "admitted [] = 0"
  by (simp add: admitted_def)

lemma gcra_run_bound:
  assumes "rate_ok r" and "sorted ts" and "lo \<le> tat" and "0 < admitted (fst (gcra_run r tat ts))"
  shows "lo + int (admitted (fst (gcra_run r tat ts))) * rate_interval r \<le> last ts + burst_of r"
  using assms(2-)
proof (induction ts arbitrary: lo tat)
  case (Cons now ts)
  let ?I = "rate_interval r" and ?d = "gcra r now tat"
  let ?rest = "fst (gcra_run r (snd ?d) ts)"
  have last: "now \<le> last (now # ts)" using Cons.prems(1) by simp
  note pos = burst_bounds(5) [OF assms(1)]
  show ?case
  proof (cases "lr_allowed (fst ?d)")
    case True
    then have a: "max tat now + ?I - burst_of r \<le> now" and t: "snd ?d = max tat now + ?I"
      using gcra_allowed [OF assms(1)] gcra_tat [OF assms(1)] by simp_all
    show ?thesis
    proof (cases "admitted ?rest = 0")
      case True
      with \<open>lr_allowed (fst ?d)\<close> a last Cons.prems(2) show ?thesis
        by (simp add: gcra_run_Cons)
    next
      case False
      have "lo + ?I + int (admitted ?rest) * ?I \<le> last ts + burst_of r"
        by (rule Cons.IH) (use Cons.prems False t in auto)
      moreover have "ts \<noteq> []" using False by auto
      ultimately show ?thesis
        using \<open>lr_allowed (fst ?d)\<close> by (simp add: gcra_run_Cons algebra_simps)
    qed
  next
    case False
    then have t: "snd ?d = max tat now"
      using gcra_allowed [OF assms(1)] gcra_tat [OF assms(1)] by simp
    have k: "0 < admitted ?rest" using Cons.prems(3) False by (simp add: gcra_run_Cons)
    then have "ts \<noteq> []" by auto
    moreover have "lo + int (admitted ?rest) * ?I \<le> last ts + burst_of r"
      by (rule Cons.IH) (use Cons.prems k t in auto)
    ultimately show ?thesis using False by (simp add: gcra_run_Cons)
  qed
qed simp

text \<open>C4: In any run of requests for one key, whatever state it starts from, at most the burst
  capacity plus one request per interval elapsed between its first and its last request is
  admitted. Every window of a longer run is such a run.\<close>

theorem gcra_window_bound:
  assumes "rate_ok r" and "sorted ts" and "ts \<noteq> []"
  shows "int (admitted (fst (gcra_run r tat ts))) \<le> capacity r + (last ts - hd ts) div rate_interval r"
proof (cases "admitted (fst (gcra_run r tat ts)) = 0")
  case True
  have "hd ts \<le> last ts" using assms(2,3) by (cases ts) auto
  then have "0 \<le> (last ts - hd ts) div rate_interval r"
    using burst_bounds(5) [OF assms(1)] by (simp add: pos_imp_zdiv_nonneg_iff)
  with True capacity_pos [OF assms(1)] show ?thesis by simp
next
  case False
  let ?I = "rate_interval r" and ?k = "int (admitted (fst (gcra_run r tat ts)))"
  obtain t us where ts: "ts = t # us" using assms(3) by (cases ts) auto
  have "gcra_run r tat ts = gcra_run r (max tat t) ts"
    using gcra_past_le [of tat t t r] by (simp add: ts gcra_run.simps max_def)
  with gcra_run_bound [OF assms(1,2), of t "max tat t"] False
  have "t + ?k * ?I \<le> last ts + burst_of r" by simp
  then have "?k * ?I \<le> (last ts - t) + capacity r * ?I" by (simp add: algebra_simps)
  then have "(?k * ?I) div ?I \<le> ((last ts - t) + capacity r * ?I) div ?I"
    by (rule zdiv_mono1) (rule burst_bounds(5) [OF assms(1)])
  with burst_bounds(5) [OF assms(1)] ts show ?thesis by simp
qed

definition sample_rate :: rate where
  "sample_rate = with_burst (per_second 10) 3"

lemma sample_rate_ok: "rate_ok sample_rate"
  by (simp add: rate_ok_def sample_rate_def with_burst_def per_second_def rate_interval_def
      capacity_def go_div_def i64_bounds_defs)

theorem gcra_window_bound_witness:
  "int (admitted (fst (gcra_run sample_rate 0 [5, 5, 5, 6, 6, 6, 7, 100000009]))) \<le> 4"
proof -
  have "rate_interval sample_rate = 100000000" "capacity sample_rate = 3"
    by (simp_all add: sample_rate_def with_burst_def per_second_def rate_interval_def capacity_def go_div_def)
  with gcra_window_bound [OF sample_rate_ok, of "[5, 5, 5, 6, 6, 6, 7, 100000009]" 0] show ?thesis by simp
qed

lemma retry_after_denied:
  assumes "rate_ok r" and "tat \<le> now + burst_of r" and "\<not> lr_allowed (fst (gcra r now tat))"
    and "now \<le> later"
  shows "lr_allowed (fst (gcra r later (snd (gcra r now tat)))) \<longleftrightarrow>
    now + lr_retry_after (fst (gcra r now tat)) \<le> later"
proof -
  let ?I = "rate_interval r" and ?B = "burst_of r"
  note bb = burst_bounds [OF assms(1)]
  have d: "now < max tat now + ?I - ?B" and t: "snd (gcra r now tat) = max tat now"
    using assms(3) gcra_allowed [OF assms(1)] gcra_tat [OF assms(1)] by auto
  have "max tat now \<le> now + ?B" using assms(2) bb(1,5) by linarith
  then have "max tat now + ?I - ?B - now \<le> max_i64" using bb(1,2) by linarith
  then have "fits_i64 (max tat now + ?I - ?B - now)"
    using d by (simp add: i64_bounds_defs)
  then have "lr_retry_after (fst (gcra r now tat)) = max tat now + ?I - ?B - now"
    using d by (simp add: gcra_eq [OF assms(1)] time_sub_fits)
  moreover have "lr_allowed (fst (gcra r later (max tat now))) \<longleftrightarrow> max tat now + ?I - ?B \<le> later"
    unfolding gcra_allowed [OF assms(1)] using bb(1) by linarith
  ultimately show ?thesis by (auto simp: t)
qed

text \<open>A denied request is told exactly how long to wait: a request for the key any time before
  \<open>RetryAfter\<close> has passed is denied too, and one at or after that time is allowed, provided the
  stored time is one the limiter can have stored by then (at most a burst ahead).\<close>

lemma retry_after_exact:
  assumes "rate_ok r" and "tat \<le> now + burst_of r" and "\<not> lr_allowed (fst (gcra r now tat))"
    and "now \<le> later"
  shows "lr_allowed (fst (gcra r later (snd (gcra r now tat)))) \<longleftrightarrow>
    now + lr_retry_after (fst (gcra r now tat)) \<le> later"
  using assms by (rule retry_after_denied)

lemma retry_after_exact_witness:
  "lr_allowed (fst (gcra sample_rate 99999990 300000000)) = False \<and>
   lr_retry_after (fst (gcra sample_rate 99999990 300000000)) = 10 \<and>
   lr_allowed (fst (gcra sample_rate 100000001 (snd (gcra sample_rate 99999990 300000000))))"
proof -
  have e: "\<not> lr_allowed (fst (gcra sample_rate 99999990 300000000))"
    "lr_retry_after (fst (gcra sample_rate 99999990 300000000)) = 10"
    by code_simp+
  have "300000000 \<le> 99999990 + burst_of sample_rate"
    by (simp add: sample_rate_def with_burst_def per_second_def rate_interval_def capacity_def go_div_def)
  with retry_after_exact [OF sample_rate_ok _ e(1), of 100000001] e show ?thesis by simp
qed

lemma gcra_run_same_instant:
  assumes "rate_ok r" and "now \<le> tat"
  shows "admitted (fst (gcra_run r tat (replicate n now))) =
    min n (nat ((burst_of r - (tat - now)) div rate_interval r))"
  using assms(2)
proof (induction n arbitrary: tat)
  case (Suc n)
  let ?I = "rate_interval r" and ?B = "burst_of r"
  note bb = burst_bounds [OF assms(1)]
  have m: "max tat now = tat" using Suc.prems by simp
  show ?case
  proof (cases "lr_allowed (fst (gcra r now tat))")
    case True
    then have a: "tat + ?I - ?B \<le> now" and t: "snd (gcra r now tat) = tat + ?I"
      using gcra_allowed [OF assms(1), of now tat] gcra_tat [OF assms(1), of now tat] m by simp_all
    have step: "(?B - (tat - now)) div ?I = (?B - (tat + ?I - now)) div ?I + 1"
      using bb(5) div_add_self2 [of ?I "?B - (tat + ?I - now)"] by (simp add: algebra_simps)
    have "0 \<le> (?B - (tat + ?I - now)) div ?I"
      using a bb(5) by (simp add: pos_imp_zdiv_nonneg_iff)
    with Suc.IH [of "tat + ?I"] Suc.prems True t step bb(5) show ?thesis
      by (simp add: gcra_run_Cons nat_add_distrib)
  next
    case False
    then have a: "now < tat + ?I - ?B" and t: "snd (gcra r now tat) = tat"
      using gcra_allowed [OF assms(1), of now tat] gcra_tat [OF assms(1), of now tat] m by simp_all
    then have "(?B - (tat - now)) div ?I < 1"
      using bb(5) a by (cases "0 \<le> ?B - (tat - now)") (simp_all add: div_pos_pos_trivial div_neg_pos_less0 less_trans [of _ 0 1])
    with Suc.IH [OF Suc.prems] False t show ?thesis by (simp add: gcra_run_Cons)
  qed
qed simp

text \<open>\<open>Remaining\<close> is exact: after an allowed request, of any number of further requests at the
  same instant exactly the first \<open>Remaining\<close> are allowed.\<close>

lemma remaining_exact:
  assumes "rate_ok r" and "lr_allowed (fst (gcra r now tat))"
  shows "admitted (fst (gcra_run r (snd (gcra r now tat)) (replicate n now))) =
    min n (nat (lr_remaining (fst (gcra r now tat))))"
proof -
  let ?I = "rate_interval r" and ?B = "burst_of r"
  note bb = burst_bounds [OF assms(1)]
  have a: "max tat now + ?I - ?B \<le> now" and t: "snd (gcra r now tat) = max tat now + ?I"
    using assms(2) gcra_allowed [OF assms(1)] gcra_tat [OF assms(1)] by auto
  let ?q = "(?B - (max tat now + ?I - now)) div ?I"
  have "fits_i64 (now - (max tat now + ?I - ?B))"
    using a bb by (auto simp: i64_bounds_defs)
  then have "lr_remaining (fst (gcra r now tat)) = min ?q (capacity r - 1)"
    using a by (simp add: gcra_eq [OF assms(1)] time_sub_fits algebra_simps)
  moreover have "?q \<le> (?B - ?I) div ?I"
    using bb(5) by (intro zdiv_mono1) auto
  then have "?q \<le> capacity r - 1"
    using bb(5) div_diff [of ?I ?B ?I] by simp
  ultimately have "lr_remaining (fst (gcra r now tat)) = ?q" by simp
  moreover have "now \<le> max tat now + ?I" using bb(5) by linarith
  ultimately show ?thesis
    using gcra_run_same_instant [OF assms(1), of now "max tat now + ?I" n] t by (simp add: algebra_simps)
qed

lemma remaining_exact_witness:
  "admitted (fst (gcra_run sample_rate (snd (gcra sample_rate 5 0)) (replicate 7 5))) = 2"
proof -
  have e: "lr_allowed (fst (gcra sample_rate 5 0))" "lr_remaining (fst (gcra sample_rate 5 0)) = 2"
    by code_simp+
  from remaining_exact [OF sample_rate_ok e(1), of 7] e(2) show ?thesis by simp
qed

section \<open>The memory limiter against one timestamp per key\<close>

text \<open>The specification keeps one timestamp per key, forever, in no shards.\<close>

fun spec_run :: "rate \<Rightarrow> (string \<Rightarrow> time) \<Rightarrow> (string \<times> time) list \<Rightarrow> limit_result list" where
  "spec_run r st [] = []"
| "spec_run r st ((key, now) # reqs) =
     (let d = gcra r now (st key) in fst d # spec_run r (st(key := snd d)) reqs)"

fun memory_run :: "(string \<Rightarrow> nat) \<Rightarrow> memory \<Rightarrow> (string \<times> time) list \<Rightarrow> limit_result list" where
  "memory_run h m [] = []"
| "memory_run h m ((key, now) # reqs) =
     (let d = memory_allow h now key m in fst d # memory_run h (snd d) reqs)"

text \<open>What a swept timestamp may be: anything in the past.\<close>

definition same_tat :: "time \<Rightarrow> time \<Rightarrow> time \<Rightarrow> bool" where
  "same_tat now a b \<longleftrightarrow> a = b \<or> (a \<le> now \<and> b \<le> now)"

definition shard_of :: "(string \<Rightarrow> nat) \<Rightarrow> memory \<Rightarrow> string \<Rightarrow> shard" where
  "shard_of h m key = shards m ! (h key mod length (shards m))"

definition memory_rel :: "(string \<Rightarrow> nat) \<Rightarrow> time \<Rightarrow> memory \<Rightarrow> (string \<Rightarrow> time) \<Rightarrow> bool" where
  "memory_rel h now m st \<longleftrightarrow> shards m \<noteq> [] \<and> (\<forall>key. same_tat now (tat_of (shard_of h m key) key) (st key))"

lemma gcra_same_tat: "same_tat now a b \<Longrightarrow> gcra r now a = gcra r now b"
  unfolding same_tat_def using gcra_past_le by blast

lemma same_tat_later: "same_tat now a b \<Longrightarrow> now \<le> later \<Longrightarrow> same_tat later a b"
  by (auto simp: same_tat_def)

lemma tat_of_sweep: "0 \<le> now \<Longrightarrow> same_tat now (tat_of (sweep_shard now s) k) (tat_of s k)"
  by (cases "tats s k") (auto simp: tat_of_def sweep_shard_def same_tat_def)

lemma tat_of_shard_allow:
  assumes "0 \<le> now"
  shows "same_tat now (tat_of (snd (shard_allow r now key s)) k)
    (if k = key then snd (gcra r now (tat_of s key)) else tat_of s k)"
proof -
  define s1 where "s1 = s\<lparr>tats := (tats s)(key \<mapsto> snd (gcra r now (tat_of s key))), calls := calls s + 1\<rparr>"
  have "tat_of s1 k = (if k = key then snd (gcra r now (tat_of s key)) else tat_of s k)"
    by (simp add: s1_def tat_of_def)
  moreover have "snd (shard_allow r now key s) = (if calls s1 mod 1024 = 0 then sweep_shard now s1 else s1)"
    by (simp add: shard_allow_def Let_def case_prod_beta s1_def)
  moreover have "same_tat now (tat_of (if calls s1 mod 1024 = 0 then sweep_shard now s1 else s1) k) (tat_of s1 k)"
    using tat_of_sweep [OF assms, of s1 k] by (cases "calls s1 mod 1024 = 0") (simp_all add: same_tat_def)
  ultimately show ?thesis by (simp only:)
qed

lemma fst_shard_allow: "fst (shard_allow r now key s) = fst (gcra r now (tat_of s key))"
  by (simp add: shard_allow_def Let_def case_prod_beta)

lemma memory_allow_step:
  assumes rel: "memory_rel h now m st" and "0 \<le> now"
  shows "fst (memory_allow h now key m) = fst (gcra (mem_rate m) now (st key))"
    and "memory_rel h now (snd (memory_allow h now key m)) (st(key := snd (gcra (mem_rate m) now (st key))))"
    and "mem_rate (snd (memory_allow h now key m)) = mem_rate m"
proof -
  let ?i = "\<lambda>k. h k mod length (shards m)" and ?r = "mem_rate m"
  define s' where "s' = snd (shard_allow ?r now key (shard_of h m key))"
  have lt: "?i k < length (shards m)" for k using rel by (simp add: memory_rel_def)
  have g: "gcra ?r now (tat_of (shard_of h m key) key) = gcra ?r now (st key)"
    using rel by (intro gcra_same_tat) (simp add: memory_rel_def)
  have m': "snd (memory_allow h now key m) = m\<lparr>shards := (shards m)[?i key := s']\<rparr>"
    by (simp add: memory_allow_def Let_def case_prod_beta s'_def shard_of_def)
  show "fst (memory_allow h now key m) = fst (gcra ?r now (st key))"
    by (simp add: memory_allow_def Let_def case_prod_beta fst_shard_allow g [symmetric] shard_of_def)
  show "mem_rate (snd (memory_allow h now key m)) = ?r" by (simp add: m')
  have "same_tat now (tat_of (shard_of h (snd (memory_allow h now key m)) k) k)
      ((st(key := snd (gcra ?r now (st key)))) k)" for k
  proof (cases "?i k = ?i key")
    case True
    then have sh: "shard_of h (snd (memory_allow h now key m)) k = s'" "shard_of h m k = shard_of h m key"
      using lt by (simp_all add: m' shard_of_def)
    have "same_tat now (tat_of s' k) (if k = key then snd (gcra ?r now (tat_of (shard_of h m key) key))
        else tat_of (shard_of h m key) k)"
      unfolding s'_def by (rule tat_of_shard_allow [OF assms(2)])
    moreover have "same_tat now (tat_of (shard_of h m key) k) (st k)"
      using rel sh(2) by (metis memory_rel_def)
    ultimately show ?thesis
      using g by (auto simp: sh(1) same_tat_def)
  next
    case False
    then have "shard_of h (snd (memory_allow h now key m)) k = shard_of h m k" "k \<noteq> key"
      by (auto simp: m' shard_of_def)
    with rel show ?thesis by (simp add: memory_rel_def)
  qed
  then show "memory_rel h now (snd (memory_allow h now key m)) (st(key := snd (gcra ?r now (st key))))"
    using rel by (simp add: memory_rel_def m')
qed

lemma memory_run_spec:
  "memory_rel h t m st \<Longrightarrow> 0 \<le> t \<Longrightarrow> sorted (t # map snd reqs) \<Longrightarrow>
     memory_run h m reqs = spec_run (mem_rate m) st reqs"
proof (induction reqs arbitrary: t m st)
  case (Cons req reqs)
  obtain key now where req: "req = (key, now)" by fastforce
  from Cons.prems have t: "t \<le> now" "0 \<le> now" "sorted (now # map snd reqs)" by (auto simp: req)
  have "memory_rel h now m st"
    using Cons.prems(1) t(1) by (auto simp: memory_rel_def intro: same_tat_later)
  note step = memory_allow_step [OF this t(2), of key]
  from Cons.IH [OF step(2) t(2,3)] step(1,3) show ?case by (simp add: req Let_def fun_upd_def)
qed simp

lemma spec_run_key:
  "map snd (filter (\<lambda>p. fst (fst p) = key) (zip reqs (spec_run r st reqs))) =
     fst (gcra_run r (st key) (map snd (filter (\<lambda>q. fst q = key) reqs)))"
proof (induction reqs arbitrary: st)
  case (Cons req reqs)
  obtain k now where req: "req = (k, now)" by fastforce
  show ?case
    using Cons [of "st(k := snd (gcra r now (st k)))"] by (auto simp: req Let_def gcra_run_Cons fun_upd_def)
qed simp

text \<open>C5: Sharding, hashing and the periodic sweep of idle keys are invisible: over any sequence of
  requests at non-decreasing times the in-memory limiter gives each key exactly the decisions
  of one fresh GCRA timestamp that sees only that key's requests.\<close>

theorem memory_limiter_refines:
  assumes "new_memory r = Some m" and "sorted (0 # map snd reqs)"
  shows "map snd (filter (\<lambda>p. fst (fst p) = key) (zip reqs (memory_run h m reqs))) =
    fst (gcra_run r 0 (map snd (filter (\<lambda>q. fst q = key) reqs)))"
proof -
  have m: "mem_rate m = r" "shards m = replicate 32 \<lparr>tats = Map.empty, calls = 0\<rparr>"
    using assms(1) by (auto simp: new_memory_def split: if_splits)
  have "memory_rel h 0 m (\<lambda>_. 0)"
    by (simp add: memory_rel_def m shard_of_def tat_of_def same_tat_def)
  from memory_run_spec [OF this _ assms(2)] spec_run_key [of key reqs r "\<lambda>_. 0"] m(1)
  show ?thesis by simp
qed

definition sample_requests :: "(string \<times> time) list" where
  "sample_requests = [(''a'', 1), (''b'', 1), (''a'', 2), (''a'', 3), (''a'', 4)]"

theorem memory_limiter_refines_witness:
  "map lr_allowed (map snd (filter (\<lambda>p. fst (fst p) = ''a'')
     (zip sample_requests (memory_run length (the (new_memory sample_rate)) sample_requests))))
   = [True, True, True, False]"
proof -
  have m: "new_memory sample_rate = Some (the (new_memory sample_rate))"
    by (simp add: new_memory_def sample_rate_def with_burst_def per_second_def)
  have s: "sorted (0 # map snd sample_requests)"
    "map snd (filter (\<lambda>q. fst q = ''a'') sample_requests) = [1, 2, 3, 4]"
    by (simp_all add: sample_requests_def)
  have "map lr_allowed (fst (gcra_run sample_rate 0 [1, 2, 3, 4])) = [True, True, True, False]"
    by code_simp
  then show ?thesis
    unfolding memory_limiter_refines [OF m s(1), of "''a''" length] s(2) .
qed

section \<open>The two implementations and the headers\<close>

lemma ceil_seconds_ge: "d \<le> ceil_seconds d * 1000000000"
proof -
  have "- d = (- d) div 1000000000 * 1000000000 + (- d) mod 1000000000" by (rule div_mult_mod_eq [symmetric])
  moreover have "0 \<le> (- d) mod 1000000000" by (rule pos_mod_sign) simp
  ultimately show ?thesis unfolding ceil_seconds_def by linarith
qed

text \<open>A client that waits the whole seconds of the \<open>Retry-After\<close> header of a 429 and then
  retries is admitted, if nobody else used the key meanwhile.\<close>

lemma retry_header_suffices:
  assumes "rate_ok r" and "tat \<le> now + burst_of r"
    and "limit_middleware fc False (Inr (fst (gcra r now tat))) = TooMany h secs"
    and "now + secs * 1000000000 \<le> later"
  shows "limit_middleware fc' False (Inr (fst (gcra r later (snd (gcra r now tat))))) \<noteq> TooMany h' secs'"
proof -
  from assms(3) have denied: "\<not> lr_allowed (fst (gcra r now tat))"
    and secs: "secs = max (ceil_seconds (lr_retry_after (fst (gcra r now tat)))) 1"
    by (auto simp: limit_middleware_def Let_def split: if_splits)
  from ceil_seconds_ge have "lr_retry_after (fst (gcra r now tat)) \<le> secs * 1000000000"
    unfolding secs by (rule order_trans) (simp add: max_def)
  then have "now \<le> later" "now + lr_retry_after (fst (gcra r now tat)) \<le> later"
    using assms(4) secs by auto
  with retry_after_denied [OF assms(1,2) denied] have "lr_allowed (fst (gcra r later (snd (gcra r now tat))))"
    by simp
  then show ?thesis by (simp add: limit_middleware_def Let_def)
qed

lemma retry_header_suffices_witness:
  "limit_middleware True False (Inr (fst (gcra sample_rate 99999990 300000000)) :: (unit, limit_result) result) =
     TooMany \<lparr>h_limit = 3, h_remaining = 0, h_reset = 1\<rparr> 1 \<and>
   limit_middleware True False
       (Inr (fst (gcra sample_rate 1099999990 (snd (gcra sample_rate 99999990 300000000)))) :: (unit, limit_result) result)
     \<noteq> TooMany \<lparr>h_limit = 3, h_remaining = 0, h_reset = 1\<rparr> 1"
proof (rule conjI)
  have b: "300000000 \<le> 99999990 + burst_of sample_rate"
    by (simp add: sample_rate_def with_burst_def per_second_def rate_interval_def capacity_def go_div_def)
  show e: "limit_middleware True False
      (Inr (fst (gcra sample_rate 99999990 300000000)) :: (unit, limit_result) result) =
    TooMany \<lparr>h_limit = 3, h_remaining = 0, h_reset = 1\<rparr> 1"
    by code_simp
  show "limit_middleware True False
       (Inr (fst (gcra sample_rate 1099999990 (snd (gcra sample_rate 99999990 300000000)))) :: (unit, limit_result) result)
     \<noteq> TooMany \<lparr>h_limit = 3, h_remaining = 0, h_reset = 1\<rparr> 1"
    by (rule retry_header_suffices [OF sample_rate_ok b e]) simp
qed

lemma fits_scaled:
  assumes "\<bar>d\<bar> \<le> k" and "k * 1000 \<le> max_i64"
  shows "fits_i64 (d * 1000)"
proof -
  have "d \<le> k" "- k \<le> d" using assms(1) by arith+
  with assms(2) show ?thesis by (simp add: i64_bounds_defs)
qed

lemma time_sub_scaled:
  assumes "\<bar>x - y\<bar> \<le> k" and "k * 1000 \<le> max_i64"
  shows "time_sub (x * 1000) (y * 1000) = (x - y) * 1000" and "i64 ((x - y) * 1000) = (x - y) * 1000"
  using fits_scaled [OF assms] by (simp_all add: i64_id time_sub_def fits_i64_def left_diff_distrib)

text \<open>When the interval is a whole number of microseconds, the Redis limiter (the Lua script and
  the conversion of its reply) decides exactly as the in-process algorithm does on the same
  clock: the same verdict, limit, remaining count, reset time and retry time; the value it
  stores is the same arrival time, and its expiry in milliseconds never drops the value
  before it lies in the past.\<close>

lemma redis_limiter_equals_gcra:
  assumes "rate_ok r" and "rate_interval r mod 1000 = 0"
    and "tat \<le> now + micros (rate_interval r) * capacity r"
  shows "fst (redis_allow r now (Some tat)) = fst (gcra r (now * 1000) (tat * 1000)) \<and>
    (case snd (redis_allow r now (Some tat)) of
       None \<Rightarrow> snd (gcra r (now * 1000) (tat * 1000)) = max tat now * 1000
     | Some (v, px) \<Rightarrow> snd (gcra r (now * 1000) (tat * 1000)) = v * 1000 \<and> v \<le> now + px * 1000)"
proof -
  let ?c = "capacity r"
  define i where "i = micros (rate_interval r)"
  define m where "m = max tat now"
  note bb = burst_bounds [OF assms(1)]
  have I: "rate_interval r = i * 1000"
    using assms(2) bb(5) div_mult_mod_eq [of "rate_interval r" 1000] by (simp add: micros_def go_div_pos i_def)
  have i0: "0 < i" "1 \<le> ?c" using bb(5) I capacity_pos [OF assms(1)] by simp_all
  define k where "k = i * ?c"
  have k: "i \<le> k" "k * 1000 \<le> max_i64" "burst_of r = k * 1000"
    using bb(2) i0 by (simp_all add: k_def I mult_le_cancel_left1)
  then have "fits_i64 k" using i0(1) by (simp add: i64_bounds_defs)
  then have fit: "i64 k = k" by (rule i64_id)
  have mx: "max (tat * 1000) (now * 1000) = m * 1000" "(if tat < now then now else tat) = m"
    by (auto simp: m_def)
  have mb: "now \<le> m" "m \<le> now + k" using assms(3) k(1) i0(1) by (auto simp: m_def k_def i_def)
  define a where "a = m + i - k"
  have e: "(m + i) * 1000 - i * 1000 * ?c = a * 1000" "m * 1000 + i * 1000 = (m + i) * 1000"
    by (simp_all add: a_def k_def algebra_simps)
  have gc: "gcra r (now * 1000) (tat * 1000) =
    (if now < a then
       (\<lparr>lr_allowed = False, lr_limit = ?c, lr_remaining = 0, lr_reset_after = time_sub (m * 1000) (now * 1000),
         lr_retry_after = time_sub (a * 1000) (now * 1000)\<rparr>, m * 1000)
     else
       (\<lparr>lr_allowed = True, lr_limit = ?c,
         lr_remaining = min (time_sub (now * 1000) (a * 1000) div (i * 1000)) (?c - 1),
         lr_reset_after = time_sub ((m + i) * 1000) (now * 1000), lr_retry_after = 0\<rparr>, (m + i) * 1000))"
    unfolding gcra_eq [OF assms(1)] mx I e by simp
  have rd: "redis_allow r now (Some tat) =
    (if now < a then
       (\<lparr>lr_allowed = False, lr_limit = ?c, lr_remaining = 0, lr_reset_after = i64 ((m - now) * 1000),
         lr_retry_after = i64 ((a - now) * 1000)\<rparr>, None)
     else
       (\<lparr>lr_allowed = True, lr_limit = ?c, lr_remaining = min ((now - a) div i) (?c - 1),
         lr_reset_after = i64 ((m + i - now) * 1000), lr_retry_after = 0\<rparr>,
        Some (m + i, - ((now - (m + i)) div 1000))))"
    by (simp add: redis_allow_def gcra_script_def Let_def i_def [symmetric] k_def [symmetric] fit mx a_def)
  show ?thesis
  proof (cases "now < a")
    case True
    have b: "\<bar>m - now\<bar> \<le> k" "\<bar>a - now\<bar> \<le> k" using True mb k(1) by (auto simp: a_def)
    show ?thesis
      unfolding gc rd time_sub_scaled [OF b(1) k(2)] time_sub_scaled [OF b(2) k(2)]
      using True by (simp add: m_def)
  next
    case False
    have b: "\<bar>m + i - now\<bar> \<le> k" "\<bar>now - a\<bar> \<le> k" using False mb i0(1) by (auto simp: a_def)
    have "now - (m + i) = (now - (m + i)) div 1000 * 1000 + (now - (m + i)) mod 1000"
      by (rule div_mult_mod_eq [symmetric])
    moreover have "0 \<le> (now - (m + i)) mod 1000" by (rule pos_mod_sign) simp
    ultimately have "m + i \<le> now + - ((now - (m + i)) div 1000) * 1000" by linarith
    moreover have q: "(now - a) * 1000 div (i * 1000) = (now - a) div i" by (rule div_mult_mult2) simp
    ultimately show ?thesis
      unfolding gc rd time_sub_scaled [OF b(1) k(2)] time_sub_scaled [OF b(2) k(2)] q
      using False by simp
  qed
qed

lemma redis_limiter_equals_gcra_witness:
  "rate_interval sample_rate mod 1000 = 0 \<and>
   fst (redis_allow sample_rate 5 (Some 200004)) = fst (gcra sample_rate 5000 200004000)"
proof -
  have s: "rate_interval sample_rate = 100000000" "capacity sample_rate = 3"
    by (simp_all add: sample_rate_def with_burst_def per_second_def rate_interval_def capacity_def go_div_def)
  have "200004 \<le> 5 + micros (rate_interval sample_rate) * capacity sample_rate"
    unfolding s by (simp add: micros_def go_div_def)
  with redis_limiter_equals_gcra [OF sample_rate_ok, of 200004 5] s show ?thesis by simp
qed

end
