(* ===== verification/Cache.thy ===== *)
theory Cache
  imports Prelude
begin

text \<open>
  The key-value store contract of \<open>cache/cache.go\<close>. A Go value of interface type \<open>Store\<close> is
  a record of its methods over a state \<open>'s\<close>; the clock is an argument of the methods that
  read it. \<open>Adder\<close> is an optional interface, so \<open>st_add\<close> is an option.

  The locale \<open>lossy_store\<close> states what the features built on a store may rely on: a store may
  lose entries (eviction) but never returns a value that was not the last one written under
  the key, deleted, or past its time to live. It is interpreted for the in-memory store in
  theory CacheMemory; a namespace of a store satisfies the contract again.
\<close>

section \<open>Stores\<close>

datatype store_error = ErrNotFound | ErrUnsupported | StoreFailure string

record 's store =
  st_get :: "time \<Rightarrow> string \<Rightarrow> 's \<Rightarrow> (store_error, bytes) result \<times> 's"
  st_set :: "time \<Rightarrow> string \<Rightarrow> bytes \<Rightarrow> duration \<Rightarrow> 's \<Rightarrow> (store_error, unit) result \<times> 's"
  st_delete :: "string list \<Rightarrow> 's \<Rightarrow> (store_error, unit) result \<times> 's"
  st_delete_prefix :: "string \<Rightarrow> 's \<Rightarrow> (store_error, unit) result \<times> 's"
  st_add :: "(time \<Rightarrow> string \<Rightarrow> bytes \<Rightarrow> duration \<Rightarrow> 's \<Rightarrow> (store_error, bool) result \<times> 's) option"
  st_local :: bool

definition is_local :: "'s store \<Rightarrow> bool" where
  "is_local st \<longleftrightarrow> st_local st"

definition cache_add ::
  "'s store \<Rightarrow> time \<Rightarrow> string \<Rightarrow> bytes \<Rightarrow> duration \<Rightarrow> 's \<Rightarrow> (store_error, bool) result \<times> 's" where
  "cache_add st now key v ttl s =
     (case st_add st of None \<Rightarrow> (Inl ErrUnsupported, s) | Some add \<Rightarrow> add now key v ttl s)"

section \<open>Namespaces\<close>

text \<open>The methods of \<open>namespaced\<close>; it always has an \<open>Add\<close>, which fails when the store has none.\<close>

definition namespaced :: "'s store \<Rightarrow> string \<Rightarrow> 's store" where
  "namespaced st pfx =
     \<lparr>st_get = (\<lambda>now key. st_get st now (pfx @ key)),
      st_set = (\<lambda>now key. st_set st now (pfx @ key)),
      st_delete = (\<lambda>keys. st_delete st (map (\<lambda>k. pfx @ k) keys)),
      st_delete_prefix = (\<lambda>p. st_delete_prefix st (pfx @ p)),
      st_add = Some (\<lambda>now key. cache_add st now (pfx @ key)),
      st_local = is_local st\<rparr>"

text \<open>\<open>Namespace\<close> looks whether its argument is a \<open>*namespaced\<close> already.\<close>

datatype 's any_store = Plain "'s store" | Namespaced "'s store" string

definition namespace_of :: "'s any_store \<Rightarrow> string \<Rightarrow> 's any_store" where
  "namespace_of a pfx =
     (case a of Plain st \<Rightarrow> Namespaced st pfx | Namespaced st q \<Rightarrow> Namespaced st (q @ pfx))"

definition methods :: "'s any_store \<Rightarrow> 's store" where
  "methods a = (case a of Plain st \<Rightarrow> st | Namespaced st q \<Rightarrow> namespaced st q)"

definition unwrap :: "'s any_store \<Rightarrow> 's store" where
  "unwrap a = (case a of Plain st \<Rightarrow> st | Namespaced st _ \<Rightarrow> st)"

lemma cache_add_namespaced: "cache_add (namespaced st q) now k = cache_add st now (q @ k)"
  by (rule ext)+ (simp add: cache_add_def namespaced_def)

lemma namespaced_twice: "namespaced (namespaced st q) pfx = namespaced st (q @ pfx)"
  unfolding namespaced_def [of "namespaced st q" pfx] cache_add_namespaced
  by (simp add: namespaced_def is_local_def comp_def)

lemma namespace_of_methods: "methods (namespace_of a pfx) = namespaced (methods a) pfx"
  by (cases a) (simp_all add: methods_def namespace_of_def namespaced_twice)

section \<open>The contract\<close>

definition fresh_until :: "time \<Rightarrow> duration \<Rightarrow> time \<Rightarrow> bool" where
  "fresh_until now ttl later \<longleftrightarrow> ttl \<le> 0 \<or> later < now + ttl"

text \<open>\<open>view s now k\<close> is the value a reader would see; \<open>now\<close> only grows.\<close>

locale lossy_store =
  fixes st :: "'s store" and inv :: "'s \<Rightarrow> bool" and view :: "'s \<Rightarrow> time \<Rightarrow> string \<Rightarrow> bytes option"
  assumes get_result: "inv s \<Longrightarrow> fst (st_get st now k s) = (case view s now k of Some v \<Rightarrow> Inr v | None \<Rightarrow> Inl ErrNotFound)"
    and get_inv: "inv s \<Longrightarrow> inv (snd (st_get st now k s))"
    and get_view: "inv s \<Longrightarrow> now \<le> later \<Longrightarrow> view (snd (st_get st now k s)) later k' = view s later k'"
    and set_result: "inv s \<Longrightarrow> fst (st_set st now k v ttl s) = Inr ()"
    and set_inv: "inv s \<Longrightarrow> inv (snd (st_set st now k v ttl s))"
    and set_view: "inv s \<Longrightarrow> 0 \<le> now \<Longrightarrow> view (snd (st_set st now k v ttl s)) later k =
          (if fresh_until now ttl later then Some v else None)"
    and set_frame: "inv s \<Longrightarrow> k' \<noteq> k \<Longrightarrow> view (snd (st_set st now k v ttl s)) later k' = Some w \<Longrightarrow>
          view s later k' = Some w"
    and add_eq: "inv s \<Longrightarrow> cache_add st now k v ttl s =
          (if view s now k = None then (Inr True, snd (st_set st now k v ttl s)) else (Inr False, s))"
    and delete_result: "inv s \<Longrightarrow> fst (st_delete st ks s) = Inr ()"
    and delete_inv: "inv s \<Longrightarrow> inv (snd (st_delete st ks s))"
    and delete_view: "inv s \<Longrightarrow> view (snd (st_delete st ks s)) later k' =
          (if k' \<in> set ks then None else view s later k')"
    and delete_prefix_result: "inv s \<Longrightarrow> fst (st_delete_prefix st p s) = Inr ()"
    and delete_prefix_inv: "inv s \<Longrightarrow> inv (snd (st_delete_prefix st p s))"
    and delete_prefix_view: "inv s \<Longrightarrow> view (snd (st_delete_prefix st p s)) later k' =
          (if has_prefix k' p then None else view s later k')"
begin

lemma add_inv: "inv s \<Longrightarrow> inv (snd (cache_add st now k v ttl s))"
  by (simp add: add_eq set_inv)

lemma add_once:
  assumes "inv s" "0 \<le> now" "fst (cache_add st now k v ttl s) = Inr True" "fresh_until now ttl later"
  shows "fst (cache_add st later k w ttl' (snd (cache_add st now k v ttl s))) = Inr False"
proof -
  from assms(1,3) have "snd (cache_add st now k v ttl s) = snd (st_set st now k v ttl s)"
    by (auto simp: add_eq split: if_splits)
  moreover have "view (snd (st_set st now k v ttl s)) later k = Some v"
    using assms by (simp add: set_view)
  ultimately show ?thesis using assms(1) by (simp add: add_eq set_inv)
qed

lemma get_after_set:
  "inv s \<Longrightarrow> 0 \<le> now \<Longrightarrow> fst (st_get st later k (snd (st_set st now k v ttl s))) =
     (if fresh_until now ttl later then Inr v else Inl ErrNotFound)"
  by (simp add: get_result set_inv set_view)

lemma get_after_delete:
  "inv s \<Longrightarrow> k \<in> set ks \<Longrightarrow> fst (st_get st later k (snd (st_delete st ks s))) = Inl ErrNotFound"
  by (simp add: get_result delete_inv delete_view)

end

section \<open>A namespace is a store again\<close>

locale namespaced_store = lossy_store st inv view
  for st :: "'s store" and inv :: "'s \<Rightarrow> bool" and view :: "'s \<Rightarrow> time \<Rightarrow> string \<Rightarrow> bytes option" +
  fixes pfx :: string
begin

lemma namespaced_simps [simp]:
  "st_get (namespaced st pfx) now k = st_get st now (pfx @ k)"
  "st_set (namespaced st pfx) now k = st_set st now (pfx @ k)"
  "st_delete (namespaced st pfx) ks = st_delete st (map (\<lambda>k. pfx @ k) ks)"
  "st_delete_prefix (namespaced st pfx) p = st_delete_prefix st (pfx @ p)"
  "cache_add (namespaced st pfx) now k = cache_add st now (pfx @ k)"
  by (simp_all add: cache_add_namespaced) (simp_all add: namespaced_def)

lemma has_prefix_same [simp]: "has_prefix (a @ x) (a @ y) = has_prefix x y"
  by (auto simp: has_prefix_def)

end

sublocale namespaced_store \<subseteq> ns: lossy_store "namespaced st pfx" inv "\<lambda>s now k. view s now (pfx @ k)"
  by unfold_locales
    (auto simp: get_result get_inv get_view set_result set_inv set_view add_eq delete_result delete_inv
      delete_view delete_prefix_result delete_prefix_inv delete_prefix_view intro: set_frame)

context lossy_store begin

lemma prefix_clash: "p @ k = q @ k' \<Longrightarrow> has_prefix p q \<or> has_prefix q p"
  by (auto simp: append_eq_append_conv2 has_prefix_iff)

lemma namespace_set:
  assumes "inv s" "\<not> has_prefix p q" "\<not> has_prefix q p"
  shows "view (snd (st_set (namespaced st p) now k v ttl s)) later (q @ k') = Some w \<longrightarrow> view s later (q @ k') = Some w"
proof -
  have "q @ k' \<noteq> p @ k" using prefix_clash [of q k' p k] assms(2,3) by blast
  from set_frame [OF assms(1) this] show ?thesis by (simp add: namespaced_def)
qed

lemma namespace_delete:
  assumes "inv s" "\<not> has_prefix p q" "\<not> has_prefix q p"
  shows "view (snd (st_delete (namespaced st p) ks s)) later (q @ k') = view s later (q @ k')"
  using delete_view [OF assms(1), of "map (\<lambda>k. p @ k) ks"] prefix_clash [of q k' p] assms(2,3)
  by (auto simp: namespaced_def)

lemma namespace_clear:
  assumes "inv s" "\<not> has_prefix p q" "\<not> has_prefix q p"
  shows "view (snd (st_delete_prefix (namespaced st p) [] s)) later (q @ k') = view s later (q @ k')"
  using delete_prefix_view [OF assms(1), of p] prefix_clash [of q k' p] assms(2,3)
  by (auto simp: namespaced_def has_prefix_iff)

lemma namespace_cleared:
  "inv s \<Longrightarrow> view (snd (st_delete_prefix (namespaced st p) [] s)) later (p @ k') = None"
  by (simp add: namespaced_def delete_prefix_view)

end

end
