(* ===== verification/CacheMemory.thy ===== *)
theory CacheMemory
  imports Cache
begin

text \<open>
  The in-memory LRU store of \<open>cache/memory.go\<close>. The doubly linked list \<open>ll\<close> is the list
  \<open>mc_ll\<close> of elements, front first; an element is identified by a number, which stands for
  its address, and \<open>mc_items\<close> maps a key to the element that holds it, as the Go map does.
  The clock \<open>m.now\<close> is an argument. The janitor goroutine is the operation \<open>mem_sweep\<close>, which may run
  at any time; iteration over the Go map visits the elements in some order, and the order
  of the removals does not matter.

  The store is shown to implement a list of entries without pointers (\<open>lru_get\<close>, \<open>lru_set\<close>,
  ...), and to satisfy the contract \<open>lossy_store\<close>.
\<close>

section \<open>State and operations\<close>

record entry =
  e_key :: string
  e_value :: bytes
  e_expires :: time

record mem_cache =
  mc_max :: nat
  mc_next :: nat
  mc_ll :: "(nat \<times> entry) list"
  mc_items :: "string \<Rightarrow> nat option"

definition new_mem_cache :: "int \<Rightarrow> mem_cache" where
  "new_mem_cache max_entries =
     \<lparr>mc_max = (if max_entries \<le> 0 then 10000 else nat max_entries), mc_next = 0, mc_ll = [],
      mc_items = Map.empty\<rparr>"

definition expired :: "time \<Rightarrow> entry \<Rightarrow> bool" where
  "expired now e \<longleftrightarrow> e_expires e \<noteq> 0 \<and> \<not> now < e_expires e"

definition remove_element :: "nat \<Rightarrow> mem_cache \<Rightarrow> mem_cache" where
  "remove_element i m =
     (case map_of (mc_ll m) i of
        None \<Rightarrow> m
      | Some e \<Rightarrow> m\<lparr>mc_ll := filter (\<lambda>p. fst p \<noteq> i) (mc_ll m), mc_items := (mc_items m)(e_key e := None)\<rparr>)"

definition to_front :: "nat \<Rightarrow> entry \<Rightarrow> mem_cache \<Rightarrow> mem_cache" where
  "to_front i e m = m\<lparr>mc_ll := (i, e) # filter (\<lambda>p. fst p \<noteq> i) (mc_ll m)\<rparr>"

definition mem_get :: "time \<Rightarrow> string \<Rightarrow> mem_cache \<Rightarrow> (store_error, bytes) result \<times> mem_cache" where
  "mem_get now key m =
     (case mc_items m key of
        None \<Rightarrow> (Inl ErrNotFound, m)
      | Some i \<Rightarrow>
          (case map_of (mc_ll m) i of
             None \<Rightarrow> (Inl ErrNotFound, m)
           | Some e \<Rightarrow>
               if expired now e then (Inl ErrNotFound, remove_element i m)
               else (Inr (e_value e), to_front i e m)))"

text \<open>The loop at the end of \<open>set\<close>.\<close>

function evict :: "mem_cache \<Rightarrow> mem_cache" where
  "evict m = (if mc_max m < length (mc_ll m) then evict (remove_element (fst (last (mc_ll m))) m) else m)"
  by pat_completeness auto
termination
proof (relation "measure (\<lambda>m. length (mc_ll m))")
  fix m :: mem_cache
  assume a: "mc_max m < length (mc_ll m)"
  then have l: "last (mc_ll m) \<in> set (mc_ll m)" by (intro last_in_set) auto
  then have "map_of (mc_ll m) (fst (last (mc_ll m))) \<noteq> None" by (simp add: map_of_eq_None_iff)
  then obtain e where "map_of (mc_ll m) (fst (last (mc_ll m))) = Some e" by auto
  with l have "length (mc_ll (remove_element (fst (last (mc_ll m))) m)) < length (mc_ll m)"
    by (auto simp: remove_element_def intro: length_filter_less)
  then show "(remove_element (fst (last (mc_ll m))) m, m) \<in> measure (\<lambda>m. length (mc_ll m))" by simp
qed simp

declare evict.simps [simp del]

definition expiry :: "time \<Rightarrow> duration \<Rightarrow> time" where
  "expiry now ttl = (if ttl > 0 then now + ttl else 0)"

definition set_entry :: "time \<Rightarrow> string \<Rightarrow> bytes \<Rightarrow> duration \<Rightarrow> mem_cache \<Rightarrow> mem_cache" where
  "set_entry now key value ttl m =
     (let e = \<lparr>e_key = key, e_value = value, e_expires = expiry now ttl\<rparr>
      in case mc_items m key of
           Some i \<Rightarrow> to_front i e m
         | None \<Rightarrow>
             evict (m\<lparr>mc_ll := (mc_next m, e) # mc_ll m, mc_items := (mc_items m)(key \<mapsto> mc_next m),
                      mc_next := mc_next m + 1\<rparr>))"

definition mem_set :: "time \<Rightarrow> string \<Rightarrow> bytes \<Rightarrow> duration \<Rightarrow> mem_cache \<Rightarrow> (store_error, unit) result \<times> mem_cache" where
  "mem_set now key value ttl m = (Inr (), set_entry now key value ttl m)"

definition mem_add :: "time \<Rightarrow> string \<Rightarrow> bytes \<Rightarrow> duration \<Rightarrow> mem_cache \<Rightarrow> (store_error, bool) result \<times> mem_cache" where
  "mem_add now key value ttl m =
     (if (case mc_items m key of
            None \<Rightarrow> False
          | Some i \<Rightarrow> (case map_of (mc_ll m) i of None \<Rightarrow> False | Some e \<Rightarrow> \<not> expired now e))
      then (Inr False, m) else (Inr True, set_entry now key value ttl m))"

definition delete_key :: "string \<Rightarrow> mem_cache \<Rightarrow> mem_cache" where
  "delete_key k m = (case mc_items m k of None \<Rightarrow> m | Some i \<Rightarrow> remove_element i m)"

definition mem_delete :: "string list \<Rightarrow> mem_cache \<Rightarrow> (store_error, unit) result \<times> mem_cache" where
  "mem_delete keys m = (Inr (), foldl (\<lambda>m k. delete_key k m) m keys)"

definition mem_delete_prefix :: "string \<Rightarrow> mem_cache \<Rightarrow> (store_error, unit) result \<times> mem_cache" where
  "mem_delete_prefix pfx m =
     (Inr (), foldl (\<lambda>m (i, e). if has_prefix (e_key e) pfx then remove_element i m else m) m (mc_ll m))"

definition mem_sweep :: "time \<Rightarrow> mem_cache \<Rightarrow> mem_cache" where
  "mem_sweep now m = foldl (\<lambda>m (i, e). if expired now e then remove_element i m else m) m (mc_ll m)"

definition mem_len :: "mem_cache \<Rightarrow> nat" where
  "mem_len m = length (mc_ll m)"

definition memory_store :: "mem_cache store" where
  "memory_store =
     \<lparr>st_get = mem_get, st_set = mem_set, st_delete = mem_delete,
      st_delete_prefix = mem_delete_prefix, st_add = Some mem_add, st_local = True\<rparr>"

section \<open>The list of entries the store implements\<close>

definition drop_key :: "string \<Rightarrow> entry list \<Rightarrow> entry list" where
  "drop_key k es = filter (\<lambda>e. e_key e \<noteq> k) es"

definition find_entry :: "string \<Rightarrow> entry list \<Rightarrow> entry option" where
  "find_entry k es = find (\<lambda>e. e_key e = k) es"

definition lru_get :: "time \<Rightarrow> string \<Rightarrow> entry list \<Rightarrow> (store_error, bytes) result \<times> entry list" where
  "lru_get now k es =
     (case find_entry k es of
        None \<Rightarrow> (Inl ErrNotFound, es)
      | Some e \<Rightarrow> if expired now e then (Inl ErrNotFound, drop_key k es) else (Inr (e_value e), e # drop_key k es))"

definition lru_set :: "nat \<Rightarrow> time \<Rightarrow> string \<Rightarrow> bytes \<Rightarrow> duration \<Rightarrow> entry list \<Rightarrow> entry list" where
  "lru_set n now k v ttl es =
     take n (\<lparr>e_key = k, e_value = v, e_expires = expiry now ttl\<rparr> # drop_key k es)"

definition entries :: "mem_cache \<Rightarrow> entry list" where
  "entries m = map snd (mc_ll m)"

text \<open>The list and the map agree, keys and elements are unique, and the bound holds.\<close>

definition core_inv :: "mem_cache \<Rightarrow> bool" where
  "core_inv m \<longleftrightarrow> distinct (map fst (mc_ll m)) \<and> distinct (map e_key (entries m)) \<and>
     (\<forall>k i. mc_items m k = Some i \<longleftrightarrow> (\<exists>e. (i, e) \<in> set (mc_ll m) \<and> e_key e = k)) \<and>
     (\<forall>i \<in> fst ` set (mc_ll m). i < mc_next m) \<and> 0 < mc_max m"

definition cache_inv :: "mem_cache \<Rightarrow> bool" where
  "cache_inv m \<longleftrightarrow> core_inv m \<and> length (mc_ll m) \<le> mc_max m"

lemma drop_key_fresh: "k \<notin> e_key ` set es \<Longrightarrow> drop_key k es = es"
  by (auto simp: drop_key_def intro: filter_True)

lemma items_iff: "core_inv m \<Longrightarrow> mc_items m k = Some i \<longleftrightarrow> (\<exists>e. (i, e) \<in> set (mc_ll m) \<and> e_key e = k)"
  unfolding core_inv_def by blast

lemma items_none: "core_inv m \<Longrightarrow> mc_items m k = None \<longleftrightarrow> k \<notin> e_key ` set (entries m)"
proof -
  assume c: "core_inv m"
  have "mc_items m k = None \<longleftrightarrow> (\<forall>i. mc_items m k \<noteq> Some i)" by auto
  also have "\<dots> \<longleftrightarrow> k \<notin> e_key ` set (entries m)"
    unfolding items_iff [OF c] by (force simp: entries_def)
  finally show ?thesis .
qed

lemma element_iff: "core_inv m \<Longrightarrow> map_of (mc_ll m) i = Some e \<longleftrightarrow> (i, e) \<in> set (mc_ll m)"
  by (simp add: core_inv_def map_of_eq_Some_iff)

lemma find_entry_iff:
  "distinct (map e_key es) \<Longrightarrow> find_entry k es = Some e \<longleftrightarrow> e \<in> set es \<and> e_key e = k"
  by (induction es) (auto simp: find_entry_def)

lemma find_entry_none: "find_entry k es = None \<longleftrightarrow> k \<notin> e_key ` set es"
  by (auto simp: find_entry_def find_None_iff)

text \<open>One lookup of an element, for the case analysis of every operation.\<close>

lemma lookup_cases:
  assumes "core_inv m"
  obtains (absent) "mc_items m k = None" "find_entry k (entries m) = None" "k \<notin> e_key ` set (entries m)"
  | (present) i e where "mc_items m k = Some i" "map_of (mc_ll m) i = Some e" "e_key e = k"
      "(i, e) \<in> set (mc_ll m)" "find_entry k (entries m) = Some e"
proof (cases "mc_items m k")
  case None
  with that(1) assms show ?thesis by (simp add: items_none find_entry_none)
next
  case (Some i)
  with items_iff [OF assms] obtain e where e: "(i, e) \<in> set (mc_ll m)" "e_key e = k" by auto
  moreover have "find_entry k (entries m) = Some e"
    using assms e by (subst find_entry_iff) (force simp: core_inv_def entries_def)+
  ultimately show ?thesis using that(2) Some assms by (simp add: element_iff)
qed

lemma filter_element:
  assumes "core_inv m" and "(i, e) \<in> set (mc_ll m)"
  shows "map snd (filter (\<lambda>p. fst p \<noteq> i) (mc_ll m)) = drop_key (e_key e) (entries m)"
proof -
  have "fst p \<noteq> i \<longleftrightarrow> e_key (snd p) \<noteq> e_key e" if "p \<in> set (mc_ll m)" for p
  proof -
    have "mc_items m (e_key e) = Some i" using items_iff [OF assms(1)] assms(2) by blast
    moreover have "mc_items m (e_key (snd p)) = Some (fst p)"
      using items_iff [OF assms(1)] that by (metis prod.collapse)
    moreover have "fst p = i \<Longrightarrow> snd p = e"
      using element_iff [OF assms(1)] assms(2) that by (metis option.inject prod.collapse)
    ultimately show ?thesis by auto
  qed
  then have "filter (\<lambda>p. fst p \<noteq> i) (mc_ll m) = filter (\<lambda>p. e_key (snd p) \<noteq> e_key e) (mc_ll m)"
    by (rule filter_cong [OF refl])
  then show ?thesis by (simp add: drop_key_def entries_def filter_map comp_def)
qed

section \<open>Every operation implements its list version\<close>

lemma core_remove:
  assumes "core_inv m" and "(i, e) \<in> set (mc_ll m)"
  shows "core_inv (remove_element i m)" and "entries (remove_element i m) = drop_key (e_key e) (entries m)"
    and "mc_max (remove_element i m) = mc_max m"
    and "mc_ll (remove_element i m) = filter (\<lambda>p. fst p \<noteq> i) (mc_ll m)"
proof -
  have r: "remove_element i m =
      m\<lparr>mc_ll := filter (\<lambda>p. fst p \<noteq> i) (mc_ll m), mc_items := (mc_items m)(e_key e := None)\<rparr>"
    using assms by (simp add: remove_element_def element_iff [THEN iffD2])
  then show "entries (remove_element i m) = drop_key (e_key e) (entries m)"
    "mc_max (remove_element i m) = mc_max m"
    "mc_ll (remove_element i m) = filter (\<lambda>p. fst p \<noteq> i) (mc_ll m)"
    using filter_element [OF assms] by (simp_all add: entries_def)
  have "mc_items (remove_element i m) k = Some j \<longleftrightarrow>
      (\<exists>e'. (j, e') \<in> set (filter (\<lambda>p. fst p \<noteq> i) (mc_ll m)) \<and> e_key e' = k)" for j k
  proof -
    have i: "mc_items m (e_key e) = Some i" using items_iff [OF assms(1)] assms(2) by blast
    have "j \<noteq> i" if "(j, e') \<in> set (mc_ll m)" "e_key e' \<noteq> e_key e" for e'
      using that assms element_iff [OF assms(1)] by (metis option.inject)
    moreover have "e_key e' \<noteq> e_key e" if "(j, e') \<in> set (mc_ll m)" "j \<noteq> i" for e'
      using that i items_iff [OF assms(1)] by (metis option.inject)
    ultimately show ?thesis
      unfolding r by (auto simp: items_iff [OF assms(1)])
  qed
  then show "core_inv (remove_element i m)"
    using assms(1) filter_element [OF assms]
    by (auto simp: core_inv_def r entries_def drop_key_def distinct_map_filter)
qed

lemma core_to_front:
  assumes "core_inv m" and "(i, e) \<in> set (mc_ll m)" and "e_key e' = e_key e"
  shows "core_inv (to_front i e' m)" and "entries (to_front i e' m) = e' # drop_key (e_key e) (entries m)"
    and "mc_max (to_front i e' m) = mc_max m" and "length (mc_ll (to_front i e' m)) \<le> length (mc_ll m)"
proof -
  show en: "entries (to_front i e' m) = e' # drop_key (e_key e) (entries m)"
    using filter_element [OF assms(1,2)] by (simp add: to_front_def entries_def)
  show "mc_max (to_front i e' m) = mc_max m" by (simp add: to_front_def)
  have "length (filter (\<lambda>p. fst p \<noteq> i) (mc_ll m)) < length (mc_ll m)"
    using assms(2) by (force intro: length_filter_less)
  then show "length (mc_ll (to_front i e' m)) \<le> length (mc_ll m)" by (simp add: to_front_def)
  have i: "mc_items m (e_key e) = Some i" using items_iff [OF assms(1)] assms(2) by blast
  have "(\<exists>e0. (j, e0) \<in> set (mc_ll (to_front i e' m)) \<and> e_key e0 = k) \<longleftrightarrow> mc_items m k = Some j" for j k
  proof (cases "j = i")
    case True
    have "mc_items m k = Some i \<longleftrightarrow> k = e_key e"
      using i items_iff [OF assms(1)] element_iff [OF assms(1)] assms(2) by (metis option.inject)
    with True assms(3) show ?thesis by (auto simp: to_front_def)
  next
    case False
    then show ?thesis by (auto simp: to_front_def items_iff [OF assms(1)])
  qed
  then have "\<forall>k j. mc_items (to_front i e' m) k = Some j \<longleftrightarrow>
      (\<exists>e0. (j, e0) \<in> set (mc_ll (to_front i e' m)) \<and> e_key e0 = k)"
    by (simp add: to_front_def)
  moreover have "distinct (map e_key (entries (to_front i e' m)))"
    unfolding en using assms(1,3) by (auto simp: core_inv_def drop_key_def distinct_map_filter)
  moreover have "distinct (map fst (mc_ll (to_front i e' m)))" "\<forall>j \<in> fst ` set (mc_ll (to_front i e' m)). j < mc_next m"
    using assms(1,2) by (auto simp: to_front_def core_inv_def distinct_map_filter)
  ultimately show "core_inv (to_front i e' m)"
    using assms(1) unfolding core_inv_def by (simp add: to_front_def)
qed

lemma drop_key_last:
  "es \<noteq> [] \<Longrightarrow> distinct (map e_key es) \<Longrightarrow> drop_key (e_key (last es)) es = butlast es"
proof (induction es rule: rev_induct)
  case (snoc x xs)
  then have "e_key x \<notin> e_key ` set xs" by auto
  then show ?case by (simp add: drop_key_def) (metis (mono_tags, lifting) filter_True imageI)
qed simp

lemma core_evict:
  "core_inv m \<Longrightarrow> core_inv (evict m) \<and> entries (evict m) = take (mc_max m) (entries m) \<and> mc_max (evict m) = mc_max m"
proof (induction m rule: evict.induct)
  case (1 m)
  show ?case
  proof (cases "mc_max m < length (mc_ll m)")
    case True
    obtain i e where l: "last (mc_ll m) = (i, e)" by fastforce
    have ne: "mc_ll m \<noteq> []" using True by auto
    then have ie: "(i, e) \<in> set (mc_ll m)" using l by (metis last_in_set)
    note r = core_remove [OF 1(2) ie]
    have "e = last (entries m)" using l ne by (simp add: entries_def last_map)
    moreover have "entries m \<noteq> []" "distinct (map e_key (entries m))"
      using ne 1(2) by (simp_all add: entries_def core_inv_def)
    ultimately have "drop_key (e_key e) (entries m) = butlast (entries m)"
      by (simp add: drop_key_last)
    moreover have "take (mc_max m) (butlast (entries m)) = take (mc_max m) (entries m)"
      using True by (simp add: take_butlast entries_def)
    ultimately show ?thesis
      using 1(1) [OF True] r True by (subst (1 2 3) evict.simps) (simp add: l)
  next
    case False
    then have "evict m = m" "take (mc_max m) (entries m) = entries m"
      by (simp_all add: evict.simps entries_def)
    with 1(2) show ?thesis by simp
  qed
qed

lemma remove_all:
  fixes P :: "entry \<Rightarrow> bool"
  assumes "core_inv m" and "distinct (map fst L)" and "set L \<subseteq> set (mc_ll m)"
  defines "m' \<equiv> foldl (\<lambda>m (i, e). if P e then remove_element i m else m) m L"
  shows "core_inv m' \<and> entries m' = filter (\<lambda>e. \<not> (P e \<and> e_key e \<in> e_key ` snd ` set L)) (entries m) \<and>
    mc_max m' = mc_max m"
  using assms(1-3) unfolding m'_def
proof (induction L arbitrary: m)
  case (Cons p L)
  obtain i e where p: "p = (i, e)" by fastforce
  have uniq: "e' = e" if "e_key e' = e_key e" "e' \<in> set (entries m)" for e'
    using that Cons.prems p find_entry_iff [of "entries m" "e_key e"]
    by (force simp: core_inv_def entries_def distinct_map inj_on_def)
  show ?case
  proof (cases "P e")
    case False
    with Cons p uniq show ?thesis by (auto intro!: filter_cong)
  next
    case True
    have ie: "(i, e) \<in> set (mc_ll m)" using Cons.prems p by simp
    note r = core_remove [OF Cons.prems(1) ie]
    have "set L \<subseteq> set (mc_ll (remove_element i m))"
      using Cons.prems(2,3) p by (force simp: r(4))
    from Cons.IH [OF r(1) _ this] Cons.prems(2) r(2,3) True p show ?thesis
      using uniq by (simp add: drop_key_def conj_commute) (auto intro!: filter_cong)
  qed
qed simp

lemma element_mem: "core_inv m \<Longrightarrow> (i, e) \<in> set (mc_ll m) \<Longrightarrow> map_of (mc_ll m) i = Some e"
  by (simp add: element_iff)

lemma get_refines:
  assumes "core_inv m"
  shows "core_inv (snd (mem_get now k m)) \<and> mc_max (snd (mem_get now k m)) = mc_max m \<and>
    fst (mem_get now k m) = fst (lru_get now k (entries m)) \<and>
    entries (snd (mem_get now k m)) = snd (lru_get now k (entries m)) \<and>
    length (mc_ll (snd (mem_get now k m))) \<le> length (mc_ll m)"
  using assms
proof (cases rule: lookup_cases [of m k])
  case absent
  with assms show ?thesis by (simp add: mem_get_def lru_get_def)
next
  case (present i e)
  note r = core_remove [OF assms present(4)] and t = core_to_front [OF assms present(4) refl]
  from present r t show ?thesis by (auto simp: mem_get_def lru_get_def)
qed

lemma set_refines:
  assumes "cache_inv m"
  shows "cache_inv (set_entry now k v ttl m) \<and> mc_max (set_entry now k v ttl m) = mc_max m \<and>
    entries (set_entry now k v ttl m) = lru_set (mc_max m) now k v ttl (entries m)"
proof -
  have c: "core_inv m" and len: "length (entries m) \<le> mc_max m" "0 < mc_max m"
    using assms by (simp_all add: cache_inv_def entries_def core_inv_def)
  define e where "e = \<lparr>e_key = k, e_value = v, e_expires = expiry now ttl\<rparr>"
  from c show ?thesis
  proof (cases rule: lookup_cases [of m k])
    case absent
    let ?m = "m\<lparr>mc_ll := (mc_next m, e) # mc_ll m, mc_items := (mc_items m)(k \<mapsto> mc_next m), mc_next := mc_next m + 1\<rparr>"
    have s: "set_entry now k v ttl m = evict ?m"
      using absent(1) by (simp add: set_entry_def e_def)
    have fresh: "mc_next m \<notin> fst ` set (mc_ll m)" "k \<notin> e_key ` snd ` set (mc_ll m)"
      using c absent(3) by (auto simp: core_inv_def entries_def)
    have "(if k' = k then Some (mc_next m) else mc_items m k') = Some j \<longleftrightarrow>
      (k = k' \<and> j = mc_next m) \<or> (\<exists>e'. (j, e') \<in> set (mc_ll m) \<and> e_key e' = k')" for k' j
      using items_iff [OF c] fresh(2) by force
    moreover have "\<forall>i \<in> fst ` set (mc_ll m). i < mc_next m + 1"
      using c by (auto simp: core_inv_def)
    ultimately have "core_inv ?m"
      using c fresh absent(3) by (auto simp: core_inv_def entries_def e_def)
    from core_evict [OF this] have "core_inv (evict ?m)" "mc_max (evict ?m) = mc_max m"
      "entries (evict ?m) = take (mc_max m) (e # entries m)"
      by (simp_all add: entries_def)
    moreover have "drop_key k (entries m) = entries m" using absent(3) by (rule drop_key_fresh)
    moreover have "length (mc_ll (evict ?m)) = length (entries (evict ?m))" by (simp add: entries_def)
    ultimately show ?thesis
      by (simp add: s lru_set_def cache_inv_def e_def)
  next
    case (present i e0)
    note t = core_to_front [OF c present(4), of e]
    have "set_entry now k v ttl m = to_front i e m"
      using present(1) by (simp add: set_entry_def e_def)
    moreover have "length (drop_key k (entries m)) < length (entries m)"
      unfolding drop_key_def using present(3,4) by (intro length_filter_less [of e0]) (force simp: entries_def)+
    ultimately show ?thesis
      using t present(3) len assms by (auto simp: lru_set_def cache_inv_def e_def take_Cons')
  qed
qed

definition mem_view :: "mem_cache \<Rightarrow> time \<Rightarrow> string \<Rightarrow> bytes option" where
  "mem_view m now k =
     (case find_entry k (entries m) of
        None \<Rightarrow> None | Some e \<Rightarrow> if expired now e then None else Some (e_value e))"

lemma add_refines:
  assumes "cache_inv m"
  shows "mem_add now k v ttl m =
    (if mem_view m now k = None then (Inr True, set_entry now k v ttl m) else (Inr False, m))"
proof -
  have "core_inv m" using assms by (simp add: cache_inv_def)
  then show ?thesis
    by (cases rule: lookup_cases [of m k]) (auto simp: mem_add_def mem_view_def)
qed

lemma delete_key_refines:
  assumes "core_inv m"
  shows "core_inv (delete_key k m) \<and> mc_max (delete_key k m) = mc_max m \<and>
    entries (delete_key k m) = drop_key k (entries m)"
  using assms
proof (cases rule: lookup_cases [of m k])
  case absent
  with assms show ?thesis by (simp add: delete_key_def drop_key_fresh)
next
  case (present i e)
  with core_remove [OF assms present(4)] show ?thesis by (simp add: delete_key_def)
qed

lemma cache_inv_shrink:
  "core_inv m' \<Longrightarrow> mc_max m' = mc_max m \<Longrightarrow> length (entries m') \<le> length (entries m) \<Longrightarrow> cache_inv m \<Longrightarrow>
    cache_inv m'"
  by (simp add: cache_inv_def entries_def)

lemma delete_refines:
  assumes "cache_inv m"
  shows "cache_inv (snd (mem_delete ks m)) \<and> mc_max (snd (mem_delete ks m)) = mc_max m \<and>
    entries (snd (mem_delete ks m)) = filter (\<lambda>e. e_key e \<notin> set ks) (entries m)"
proof -
  have "core_inv m \<Longrightarrow> core_inv (foldl (\<lambda>m k. delete_key k m) m ks) \<and>
      mc_max (foldl (\<lambda>m k. delete_key k m) m ks) = mc_max m \<and>
      entries (foldl (\<lambda>m k. delete_key k m) m ks) = filter (\<lambda>e. e_key e \<notin> set ks) (entries m)" for m
  proof (induction ks arbitrary: m)
    case (Cons k ks)
    from Cons.IH [of "delete_key k m"] delete_key_refines [OF Cons.prems, of k] show ?case
      by (simp add: drop_key_def conj_commute)
  qed simp
  from this [of m] assms show ?thesis
    by (auto simp: mem_delete_def cache_inv_def entries_def intro: le_trans [OF length_filter_le])
       (metis le_trans length_filter_le length_map)
qed

lemma filter_all_refines:
  fixes P :: "entry \<Rightarrow> bool"
  assumes "cache_inv m"
  defines "m' \<equiv> foldl (\<lambda>m (i, e). if P e then remove_element i m else m) m (mc_ll m)"
  shows "cache_inv m' \<and> mc_max m' = mc_max m \<and> entries m' = filter (\<lambda>e. \<not> P e) (entries m)"
proof -
  have c: "core_inv m" "distinct (map fst (mc_ll m))" using assms(1) by (simp_all add: cache_inv_def core_inv_def)
  have r: "core_inv m' \<and> entries m' = filter (\<lambda>e. \<not> (P e \<and> e_key e \<in> e_key ` snd ` set (mc_ll m))) (entries m) \<and>
      mc_max m' = mc_max m"
    using remove_all [OF c(1,2) subset_refl, of P] unfolding m'_def by simp
  moreover have "filter (\<lambda>e. \<not> (P e \<and> e_key e \<in> e_key ` snd ` set (mc_ll m))) (entries m) =
      filter (\<lambda>e. \<not> P e) (entries m)"
    by (rule filter_cong) (auto simp: entries_def)
  ultimately show ?thesis
    using cache_inv_shrink [of m' m] assms(1) by (simp add: length_filter_le)
qed

lemma delete_prefix_refines:
  "cache_inv m \<Longrightarrow> cache_inv (snd (mem_delete_prefix p m)) \<and> mc_max (snd (mem_delete_prefix p m)) = mc_max m \<and>
    entries (snd (mem_delete_prefix p m)) = filter (\<lambda>e. \<not> has_prefix (e_key e) p) (entries m)"
  using filter_all_refines [of m "\<lambda>e. has_prefix (e_key e) p"] by (simp add: mem_delete_prefix_def)

lemma sweep_refines:
  "cache_inv m \<Longrightarrow> cache_inv (mem_sweep now m) \<and> mc_max (mem_sweep now m) = mc_max m \<and>
    entries (mem_sweep now m) = filter (\<lambda>e. \<not> expired now e) (entries m)"
  using filter_all_refines [of m "expired now"] by (simp add: mem_sweep_def)

section \<open>The store contract holds\<close>

lemma find_filter:
  "(\<And>e. e_key e = k \<Longrightarrow> P e) \<Longrightarrow> find_entry k (filter P es) = find_entry k es"
  by (induction es) (auto simp: find_entry_def)

lemma find_filter_none: "(\<And>e. e_key e = k \<Longrightarrow> \<not> P e) \<Longrightarrow> find_entry k (filter P es) = None"
  by (auto simp: find_entry_def find_None_iff)

lemma find_take: "find_entry k (take n es) = Some e \<Longrightarrow> find_entry k es = Some e"
proof (induction es arbitrary: n)
  case (Cons x xs)
  then show ?case by (cases n) (auto simp: find_entry_def split: if_splits)
qed simp

lemma find_Cons: "find_entry k (e # es) = (if e_key e = k then Some e else find_entry k es)"
  by (simp add: find_entry_def)

lemma expired_mono: "expired now e \<Longrightarrow> now \<le> later \<Longrightarrow> expired later e"
  by (auto simp: expired_def)

lemma expired_expiry:
  "0 \<le> now \<Longrightarrow> expired later \<lparr>e_key = k, e_value = v, e_expires = expiry now ttl\<rparr> \<longleftrightarrow> \<not> fresh_until now ttl later"
  by (auto simp: expired_def expiry_def fresh_until_def)

lemma memory_store_simps [simp]:
  "st_get memory_store = mem_get" "st_set memory_store = mem_set" "st_delete memory_store = mem_delete"
  "st_delete_prefix memory_store = mem_delete_prefix" "cache_add memory_store now k v ttl m = mem_add now k v ttl m"
  by (simp_all add: memory_store_def cache_add_def)

lemma find_key: "find_entry k es = Some e \<Longrightarrow> e_key e = k"
  by (induction es) (auto simp: find_entry_def split: if_splits)

lemma mem_get_inv: "cache_inv m \<Longrightarrow> cache_inv (snd (mem_get now k m))"
  using get_refines [of m now k] by (auto simp: cache_inv_def)

lemma mem_get_view:
  assumes "cache_inv m" and "now \<le> later"
  shows "mem_view (snd (mem_get now k m)) later k' = mem_view m later k'"
proof -
  have e: "entries (snd (mem_get now k m)) = snd (lru_get now k (entries m))"
    using get_refines [of m now k] assms(1) by (simp add: cache_inv_def)
  show ?thesis
  proof (cases "k' = k")
    case True
    then show ?thesis
      using expired_mono [OF _ assms(2)] find_filter_none [of k "\<lambda>e. e_key e \<noteq> k"]
      by (auto simp: mem_view_def e lru_get_def drop_key_def find_Cons dest: find_key split: option.splits)
  next
    case False
    then have "find_entry k' (drop_key k (entries m)) = find_entry k' (entries m)"
      unfolding drop_key_def by (intro find_filter) auto
    with False show ?thesis
      by (auto simp: mem_view_def e lru_get_def find_Cons dest: find_key split: option.splits)
  qed
qed

lemma mem_set_frame:
  assumes "cache_inv m" and "k' \<noteq> k" and "mem_view (set_entry now k v ttl m) later k' = Some w"
  shows "mem_view m later k' = Some w"
proof -
  have d: "find_entry k' (drop_key k (entries m)) = find_entry k' (entries m)"
    unfolding drop_key_def by (intro find_filter) (use assms(2) in auto)
  from assms(3) obtain e where e: "find_entry k' (lru_set (mc_max m) now k v ttl (entries m)) = Some e"
    "\<not> expired later e" "w = e_value e"
    using set_refines [OF assms(1)] by (auto simp: mem_view_def split: option.splits if_splits)
  from find_take [OF e(1) [unfolded lru_set_def]] assms(2) d have "find_entry k' (entries m) = Some e"
    by (simp add: find_Cons split: if_splits)
  with e show ?thesis by (simp add: mem_view_def)
qed

lemma mem_set_view:
  assumes "cache_inv m" and "0 \<le> now"
  shows "mem_view (set_entry now k v ttl m) later k = (if fresh_until now ttl later then Some v else None)"
proof -
  have "0 < mc_max m" using assms(1) by (simp add: cache_inv_def core_inv_def)
  then have "find_entry k (lru_set (mc_max m) now k v ttl (entries m)) =
      Some \<lparr>e_key = k, e_value = v, e_expires = expiry now ttl\<rparr>"
    by (cases "mc_max m") (simp_all add: lru_set_def find_Cons)
  then show ?thesis
    using set_refines [OF assms(1)] expired_expiry [OF assms(2)] by (simp add: mem_view_def)
qed

interpretation mem: lossy_store memory_store cache_inv mem_view
proof (unfold_locales, unfold memory_store_simps)
  fix m :: mem_cache and now later k k' v ttl w ks p
  assume inv: "cache_inv m"
  then have core: "core_inv m" by (simp add: cache_inv_def)
  show "fst (mem_get now k m) = (case mem_view m now k of None \<Rightarrow> Inl ErrNotFound | Some v \<Rightarrow> Inr v)"
    using get_refines [OF core] by (auto simp: mem_view_def lru_get_def split: option.splits)
  show "cache_inv (snd (mem_get now k m))" using inv by (rule mem_get_inv)
  show "now \<le> later \<Longrightarrow> mem_view (snd (mem_get now k m)) later k' = mem_view m later k'"
    using inv by (rule mem_get_view)
  show "fst (mem_set now k v ttl m) = Inr ()" by (simp add: mem_set_def)
  show "cache_inv (snd (mem_set now k v ttl m))" using set_refines [OF inv] by (simp add: mem_set_def)
  show "0 \<le> now \<Longrightarrow> mem_view (snd (mem_set now k v ttl m)) later k = (if fresh_until now ttl later then Some v else None)"
    using inv by (simp add: mem_set_def mem_set_view)
  show "k' \<noteq> k \<Longrightarrow> mem_view (snd (mem_set now k v ttl m)) later k' = Some w \<Longrightarrow> mem_view m later k' = Some w"
    using inv by (simp add: mem_set_def mem_set_frame)
  show "mem_add now k v ttl m = (if mem_view m now k = None then (Inr True, snd (mem_set now k v ttl m)) else (Inr False, m))"
    using add_refines [OF inv] by (simp add: mem_set_def)
  show "fst (mem_delete ks m) = Inr ()" by (simp add: mem_delete_def)
  show "cache_inv (snd (mem_delete ks m))" using delete_refines [OF inv] by blast
  show "mem_view (snd (mem_delete ks m)) later k' = (if k' \<in> set ks then None else mem_view m later k')"
    using delete_refines [OF inv, of ks] find_filter [of k' "\<lambda>e. e_key e \<notin> set ks"]
      find_filter_none [of k' "\<lambda>e. e_key e \<notin> set ks"] by (auto simp: mem_view_def)
  show "fst (mem_delete_prefix p m) = Inr ()" by (simp add: mem_delete_prefix_def)
  show "cache_inv (snd (mem_delete_prefix p m))" using delete_prefix_refines [OF inv] by blast
  show "mem_view (snd (mem_delete_prefix p m)) later k' = (if has_prefix k' p then None else mem_view m later k')"
    using delete_prefix_refines [OF inv, of p] find_filter [of k' "\<lambda>e. \<not> has_prefix (e_key e) p"]
      find_filter_none [of k' "\<lambda>e. \<not> has_prefix (e_key e) p"] by (auto simp: mem_view_def)
qed

section \<open>Runs of operations\<close>

datatype cache_op =
    OpGet string
  | OpSet string bytes duration
  | OpAdd string bytes duration
  | OpDelete "string list"
  | OpDeletePrefix string
  | OpSweep

fun cache_step :: "time \<Rightarrow> cache_op \<Rightarrow> mem_cache \<Rightarrow> mem_cache" where
  "cache_step now (OpGet k) m = snd (mem_get now k m)"
| "cache_step now (OpSet k v ttl) m = snd (mem_set now k v ttl m)"
| "cache_step now (OpAdd k v ttl) m = snd (mem_add now k v ttl m)"
| "cache_step now (OpDelete ks) m = snd (mem_delete ks m)"
| "cache_step now (OpDeletePrefix p) m = snd (mem_delete_prefix p m)"
| "cache_step now OpSweep m = mem_sweep now m"

definition cache_run :: "(time \<times> cache_op) list \<Rightarrow> mem_cache \<Rightarrow> mem_cache" where
  "cache_run ops m = foldl (\<lambda>m (now, op). cache_step now op m) m ops"

lemma new_cache_inv: "cache_inv (new_mem_cache n)"
  by (auto simp: cache_inv_def core_inv_def new_mem_cache_def entries_def)

lemma new_cache_max: "mc_max (new_mem_cache n) = (if n \<le> 0 then 10000 else nat n)"
  by (simp add: new_mem_cache_def)

lemma cache_step_inv:
  assumes "cache_inv m"
  shows "cache_inv (cache_step now op m) \<and> mc_max (cache_step now op m) = mc_max m"
proof -
  have "core_inv m" using assms by (simp add: cache_inv_def)
  from get_refines [OF this] set_refines [OF assms] add_refines [OF assms] delete_refines [OF assms]
    delete_prefix_refines [OF assms] sweep_refines [OF assms] mem_get_inv [OF assms] assms
  show ?thesis by (cases op) (simp_all add: mem_set_def)
qed

lemma cache_run_inv: "cache_inv m \<Longrightarrow> cache_inv (cache_run ops m) \<and> mc_max (cache_run ops m) = mc_max m"
  unfolding cache_run_def
  by (rule foldl_invariant) (auto simp: cache_step_inv)

text \<open>C6: However the store is used, its list and its map describe the same entries (each key on
  exactly one element, each element under its own key) and it never holds more than its
  configured number of entries (10000 when none is configured).\<close>

theorem cache_bounded_and_consistent:
  "mem_len (cache_run ops (new_mem_cache n)) \<le> (if n \<le> 0 then 10000 else nat n) \<and>
   distinct (map e_key (entries (cache_run ops (new_mem_cache n)))) \<and>
   (mc_items (cache_run ops (new_mem_cache n)) k = Some i \<longleftrightarrow>
     (\<exists>e. (i, e) \<in> set (mc_ll (cache_run ops (new_mem_cache n))) \<and> e_key e = k))"
  using cache_run_inv [OF new_cache_inv, of ops n]
  by (simp add: cache_inv_def core_inv_def mem_len_def new_cache_max)

text \<open>The ideal store: unbounded, and keeping expired entries. An \<open>Add\<close> writes when the
  real one reported that it did.\<close>

definition ideal_step :: "time \<Rightarrow> cache_op \<Rightarrow> mem_cache \<Rightarrow> (string \<Rightarrow> (bytes \<times> time) option) \<Rightarrow>
    (string \<Rightarrow> (bytes \<times> time) option)" where
  "ideal_step now op m st =
     (case op of
        OpGet _ \<Rightarrow> st
      | OpSet k v ttl \<Rightarrow> st(k \<mapsto> (v, expiry now ttl))
      | OpAdd k v ttl \<Rightarrow> (if fst (mem_add now k v ttl m) = Inr True then st(k \<mapsto> (v, expiry now ttl)) else st)
      | OpDelete ks \<Rightarrow> (\<lambda>k. if k \<in> set ks then None else st k)
      | OpDeletePrefix p \<Rightarrow> (\<lambda>k. if has_prefix k p then None else st k)
      | OpSweep \<Rightarrow> st)"

fun ideal_run :: "(time \<times> cache_op) list \<Rightarrow> mem_cache \<Rightarrow> (string \<Rightarrow> (bytes \<times> time) option) \<Rightarrow>
    (string \<Rightarrow> (bytes \<times> time) option)" where
  "ideal_run [] m st = st"
| "ideal_run ((now, op) # ops) m st = ideal_run ops (cache_step now op m) (ideal_step now op m st)"

definition held_in :: "mem_cache \<Rightarrow> (string \<Rightarrow> (bytes \<times> time) option) \<Rightarrow> bool" where
  "held_in m st \<longleftrightarrow> (\<forall>e \<in> set (entries m). st (e_key e) = Some (e_value e, e_expires e))"

lemma entries_step:
  assumes "cache_inv m"
  shows "entries (cache_step now op m) =
    (case op of
       OpGet k \<Rightarrow> snd (lru_get now k (entries m))
     | OpSet k v ttl \<Rightarrow> lru_set (mc_max m) now k v ttl (entries m)
     | OpAdd k v ttl \<Rightarrow> (if mem_view m now k = None then lru_set (mc_max m) now k v ttl (entries m) else entries m)
     | OpDelete ks \<Rightarrow> filter (\<lambda>e. e_key e \<notin> set ks) (entries m)
     | OpDeletePrefix p \<Rightarrow> filter (\<lambda>e. \<not> has_prefix (e_key e) p) (entries m)
     | OpSweep \<Rightarrow> filter (\<lambda>e. \<not> expired now e) (entries m))"
  using assms get_refines [of m now] set_refines [OF assms] add_refines [OF assms] delete_refines [OF assms]
    delete_prefix_refines [OF assms] sweep_refines [OF assms]
  by (cases op) (simp_all add: mem_set_def cache_inv_def)

lemma find_entry_mem: "find_entry k es = Some e \<Longrightarrow> e \<in> set es"
  by (induction es) (auto simp: find_entry_def split: if_splits)

lemma lru_get_subset: "set (snd (lru_get now k es)) \<subseteq> set es"
  by (auto simp: lru_get_def drop_key_def split: option.splits dest: find_entry_mem)

lemma lru_set_subset:
  "set (lru_set n now k v ttl es) \<subseteq> insert \<lparr>e_key = k, e_value = v, e_expires = expiry now ttl\<rparr> {e \<in> set es. e_key e \<noteq> k}"
  by (auto simp: lru_set_def drop_key_def dest: in_set_takeD)

lemma held_in_step:
  assumes "cache_inv m" and "held_in m st"
  shows "held_in (cache_step now op m) (ideal_step now op m st)"
proof (cases op)
  case (OpGet k)
  with assms(2) show ?thesis
    by (auto simp: held_in_def entries_step [OF assms(1)] ideal_step_def simp del: cache_step.simps
        dest: subsetD [OF lru_get_subset])
next
  case (OpSet k v ttl)
  with assms(2) show ?thesis
    by (auto simp: held_in_def entries_step [OF assms(1)] ideal_step_def simp del: cache_step.simps
        dest!: subsetD [OF lru_set_subset])
next
  case (OpAdd k v ttl)
  with assms(2) show ?thesis
    by (auto simp: held_in_def entries_step [OF assms(1)] ideal_step_def add_refines [OF assms(1)]
        simp del: cache_step.simps dest!: subsetD [OF lru_set_subset])
qed (use assms(2) in \<open>auto simp: held_in_def entries_step [OF assms(1)] ideal_step_def simp del: cache_step.simps\<close>)

lemma held_in_run:
  "cache_inv m \<Longrightarrow> held_in m st \<Longrightarrow> held_in (cache_run ops m) (ideal_run ops m st)"
  unfolding cache_run_def
proof (induction ops arbitrary: m st)
  case (Cons p ops)
  obtain now op where "p = (now, op)" by fastforce
  with Cons held_in_step [of m st now op] cache_step_inv [of m now op] show ?case by simp
qed simp

text \<open>C7: Whatever was done before, in whatever order and at whatever times, a \<open>Get\<close> that returns a
  value returns the one written by the last successful \<open>Set\<close> or \<open>Add\<close> of that key, not
  deleted since, and not past its time to live.\<close>

theorem cache_never_stale:
  assumes "fst (mem_get later k (cache_run ops (new_mem_cache n))) = Inr v"
  shows "\<exists>x. ideal_run ops (new_mem_cache n) Map.empty k = Some (v, x) \<and> (x = 0 \<or> later < x)"
proof -
  let ?m = "cache_run ops (new_mem_cache n)"
  have inv: "cache_inv ?m" using cache_run_inv [OF new_cache_inv] by blast
  have "mem_view ?m later k = Some v"
    using assms mem.get_result [OF inv, of later k] by (simp split: option.splits)
  then obtain e where e: "find_entry k (entries ?m) = Some e" "\<not> expired later e" "v = e_value e"
    by (auto simp: mem_view_def split: option.splits if_splits)
  have "held_in ?m (ideal_run ops (new_mem_cache n) Map.empty)"
    by (rule held_in_run [OF new_cache_inv]) (simp add: held_in_def new_mem_cache_def entries_def)
  moreover have "e \<in> set (entries ?m)" using e(1) by (rule find_entry_mem)
  ultimately show ?thesis
    using e find_key [OF e(1)] by (auto simp: held_in_def expired_def)
qed

definition sample_ops :: "(time \<times> cache_op) list" where
  "sample_ops = [(1, OpSet ''a'' ''x'' 10), (2, OpSet ''b'' ''y'' 0), (3, OpGet ''a''), (4, OpSet ''c'' ''z'' 5)]"

theorem cache_never_stale_witness:
  "fst (mem_get 6 ''a'' (cache_run sample_ops (new_mem_cache 2))) = Inr ''x'' \<and>
   (\<exists>x. ideal_run sample_ops (new_mem_cache 2) Map.empty ''a'' = Some (''x'', x) \<and> (x = 0 \<or> 6 < x))"
proof -
  have "fst (mem_get 6 ''a'' (cache_run sample_ops (new_mem_cache 2))) = Inr ''x''" by code_simp
  with cache_never_stale [of 6 "''a''" sample_ops 2 "''x''"] show ?thesis by simp
qed

lemma take_filter_take:
  "distinct ys \<Longrightarrow> take d (filter (\<lambda>y. y \<noteq> k) (take (Suc d) ys)) = take d (filter (\<lambda>y. y \<noteq> k) ys)"
proof (induction ys arbitrary: d)
  case (Cons y ys)
  show ?case
  proof (cases "y = k")
    case True
    with Cons.prems have "filter (\<lambda>y. y \<noteq> k) ys = ys" "filter (\<lambda>y. y \<noteq> k) (take d ys) = take d ys"
      by (auto intro!: filter_True dest: in_set_takeD)
    with True show ?thesis by simp
  next
    case False
    with Cons show ?thesis by (cases d) simp_all
  qed
qed simp

lemma take_Cons_filter_take:
  "distinct ys \<Longrightarrow> take c (k # filter (\<lambda>y. y \<noteq> k) (take c ys)) = take c (k # filter (\<lambda>y. y \<noteq> k) ys)"
  by (cases c) (simp_all add: take_filter_take)

lemma remdups_snoc: "remdups (ks @ [k]) = filter (\<lambda>k'. k' \<noteq> k) (remdups ks) @ [k]"
  by (induction ks) auto

text \<open>Eviction is least-recently-used: after any sequence of \<open>Set\<close>s the store holds exactly
  the most recently set distinct keys, as many as fit, most recent first.\<close>

lemma cache_keeps_most_recent:
  "map e_key (entries (cache_run (map (\<lambda>(now, k, v, ttl). (now, OpSet k v ttl)) sets) (new_mem_cache n))) =
     take (if n \<le> 0 then 10000 else nat n) (rev (remdups (map (\<lambda>s. fst (snd s)) sets)))"
proof (induction sets rule: rev_induct)
  case Nil
  then show ?case by (simp add: cache_run_def new_mem_cache_def entries_def)
next
  case (snoc x sets)
  obtain now k v ttl where x: "x = (now, k, v, ttl)" by (cases x) auto
  let ?c = "if n \<le> 0 then 10000 else nat n"
  let ?m = "cache_run (map (\<lambda>(now, k, v, ttl). (now, OpSet k v ttl)) sets) (new_mem_cache n)"
  let ?ks = "map (\<lambda>s. fst (snd s)) sets"
  have inv: "cache_inv ?m" and mx: "mc_max ?m = ?c"
    using cache_run_inv [OF new_cache_inv] by (simp_all add: new_cache_max)
  have "map e_key (entries (cache_step now (OpSet k v ttl) ?m)) =
      take ?c (k # filter (\<lambda>k'. k' \<noteq> k) (map e_key (entries ?m)))"
    by (simp add: entries_step [OF inv] lru_set_def mx take_map [symmetric] drop_key_def filter_map comp_def del: cache_step.simps)
  also have "\<dots> = take ?c (k # filter (\<lambda>k'. k' \<noteq> k) (rev (remdups ?ks)))"
    by (simp only: snoc take_Cons_filter_take distinct_rev distinct_remdups)
  also have "k # filter (\<lambda>k'. k' \<noteq> k) (rev (remdups ?ks)) = rev (remdups (?ks @ [k]))"
    by (simp add: remdups_snoc rev_filter)
  finally show ?case by (simp add: x cache_run_def)
qed

section \<open>Nothing is lost below the capacity\<close>

fun op_keys :: "cache_op \<Rightarrow> string set" where
  "op_keys (OpSet k _ _) = {k}"
| "op_keys (OpAdd k _ _) = {k}"
| "op_keys _ = {}"

definition retained :: "time \<Rightarrow> mem_cache \<Rightarrow> (string \<Rightarrow> (bytes \<times> time) option) \<Rightarrow> bool" where
  "retained now m st \<longleftrightarrow> (\<forall>k v x. st k = Some (v, x) \<longrightarrow>
     (x \<noteq> 0 \<and> x \<le> now) \<or> \<lparr>e_key = k, e_value = v, e_expires = x\<rparr> \<in> set (entries m))"

lemma entry_eq: "(e = \<lparr>e_key = k, e_value = v, e_expires = x\<rparr>) \<longleftrightarrow> e_key e = k \<and> e_value e = v \<and> e_expires e = x"
  for e :: entry
  by (cases e) simp

lemma lru_set_no_evict:
  assumes "distinct (map e_key es)" and "insert k (e_key ` set es) \<subseteq> K" and "card K \<le> n" and "finite K"
  shows "lru_set n now k v ttl es = \<lparr>e_key = k, e_value = v, e_expires = expiry now ttl\<rparr> # drop_key k es"
proof -
  let ?es = "\<lparr>e_key = k, e_value = v, e_expires = expiry now ttl\<rparr> # drop_key k es"
  have "distinct (map e_key ?es)" using assms(1) by (auto simp: drop_key_def distinct_map_filter)
  then have "length ?es = card (e_key ` set ?es)" by (metis distinct_card length_map set_map)
  also have "\<dots> \<le> card K" by (rule card_mono [OF assms(4)]) (use assms(2) in \<open>auto simp: drop_key_def\<close>)
  finally show ?thesis using assms(3) by (simp add: lru_set_def)
qed

lemma retained_step:
  assumes "cache_inv m" "held_in m st" "retained t m st" "t \<le> now"
    and "e_key ` set (entries m) \<union> op_keys op \<subseteq> K" "card K \<le> mc_max m" "finite K"
  shows "retained now (cache_step now op m) (ideal_step now op m st)"
    and "e_key ` set (entries (cache_step now op m)) \<subseteq> K"
proof -
  have d: "distinct (map e_key (entries m))" using assms(1) by (simp add: cache_inv_def core_inv_def)
  have r: "retained now m st" using assms(3,4) unfolding retained_def by fastforce
  note es = entries_step [OF assms(1)]
  have set_ret: "retained now m' (st(k \<mapsto> (v, expiry now ttl)))"
    if "entries m' = lru_set (mc_max m) now k v ttl (entries m)" "k \<in> K" for m' k v ttl
  proof -
    have "lru_set (mc_max m) now k v ttl (entries m) =
        \<lparr>e_key = k, e_value = v, e_expires = expiry now ttl\<rparr> # drop_key k (entries m)"
      by (rule lru_set_no_evict [OF d _ assms(6,7)]) (use assms(5) that(2) in auto)
    with that(1) r show ?thesis by (auto simp: retained_def drop_key_def)
  qed
  show "retained now (cache_step now op m) (ideal_step now op m st)"
  proof (cases op)
    case (OpGet k)
    have "e \<in> set (snd (lru_get now k (entries m))) \<or> expired now e" if "e \<in> set (entries m)" for e
    proof (cases "e_key e = k")
      case True
      then have "find_entry k (entries m) = Some e" using that find_entry_iff [OF d] by blast
      then show ?thesis by (simp add: lru_get_def)
    next
      case False
      with that show ?thesis by (auto simp: lru_get_def drop_key_def split: option.splits)
    qed
    with r OpGet show ?thesis
      unfolding retained_def es by (fastforce simp: ideal_step_def expired_def)
  next
    case (OpSet k v ttl)
    with assms(5) show ?thesis
      by (auto simp: ideal_step_def es simp del: cache_step.simps intro!: set_ret)
  next
    case (OpAdd k v ttl)
    show ?thesis
    proof (cases "mem_view m now k")
      case None
      with OpAdd assms(5) show ?thesis
        by (auto simp: ideal_step_def es add_refines [OF assms(1)] simp del: cache_step.simps intro!: set_ret)
    next
      case (Some w)
      with OpAdd r show ?thesis
        by (simp add: ideal_step_def add_refines [OF assms(1)])
    qed
  next
    case (OpDelete ks)
    with r show ?thesis by (auto simp: retained_def es ideal_step_def simp del: cache_step.simps)
  next
    case (OpDeletePrefix p)
    with r show ?thesis by (auto simp: retained_def es ideal_step_def simp del: cache_step.simps)
  next
    case OpSweep
    with r show ?thesis
      by (fastforce simp: retained_def es ideal_step_def expired_def simp del: cache_step.simps)
  qed
  show "e_key ` set (entries (cache_step now op m)) \<subseteq> K"
    using assms(5)
    by (cases op) (auto simp: es simp del: cache_step.simps
        dest!: subsetD [OF lru_get_subset] subsetD [OF lru_set_subset] split: if_splits)
qed

lemma retained_run:
  "cache_inv m \<Longrightarrow> held_in m st \<Longrightarrow> retained t m st \<Longrightarrow> sorted (t # map fst ops) \<Longrightarrow>
    e_key ` set (entries m) \<subseteq> K \<Longrightarrow> (\<Union>p \<in> set ops. op_keys (snd p)) \<subseteq> K \<Longrightarrow> card K \<le> mc_max m \<Longrightarrow> finite K \<Longrightarrow>
    retained (last (t # map fst ops)) (cache_run ops m) (ideal_run ops m st)"
  unfolding cache_run_def
proof (induction ops arbitrary: m st t)
  case (Cons p ops)
  obtain now op where p: "p = (now, op)" by fastforce
  have t: "t \<le> now" "sorted (now # map fst ops)" using Cons.prems(4) p by auto
  have K: "e_key ` set (entries m) \<union> op_keys op \<subseteq> K" using Cons.prems(5,6) p by auto
  note st = retained_step [OF Cons.prems(1-3) t(1) K Cons.prems(7,8)]
  show ?case
    using Cons.IH [OF conjunct1 [OF cache_step_inv] held_in_step st(1) t(2) st(2) _ _ Cons.prems(8)]
      Cons.prems cache_step_inv [OF Cons.prems(1), of now op] p by simp
qed simp

text \<open>As long as no more distinct keys are written than the store has room for, and time does not
  go back, nothing is lost: a \<open>Get\<close> returns a key's last successful write until it is deleted
  or its time to live is over, and not found otherwise.\<close>

lemma cache_exact_below_capacity:
  assumes "sorted (0 # map fst ops @ [later])"
    and "card (\<Union>p \<in> set ops. op_keys (snd p)) \<le> mc_max (new_mem_cache n)"
  shows "fst (mem_get later k (cache_run ops (new_mem_cache n))) =
    (case ideal_run ops (new_mem_cache n) Map.empty k of
       Some (v, x) \<Rightarrow> (if x = 0 \<or> later < x then Inr v else Inl ErrNotFound)
     | None \<Rightarrow> Inl ErrNotFound)"
proof -
  let ?m = "cache_run ops (new_mem_cache n)" and ?st = "ideal_run ops (new_mem_cache n) Map.empty"
  let ?K = "\<Union>p \<in> set ops. op_keys (snd p)"
  have inv: "cache_inv ?m" using cache_run_inv [OF new_cache_inv] by blast
  then have d: "distinct (map e_key (entries ?m))" by (simp add: cache_inv_def core_inv_def)
  have em: "entries (new_mem_cache n) = []" by (simp add: new_mem_cache_def entries_def)
  have held: "held_in ?m ?st" by (rule held_in_run [OF new_cache_inv]) (simp add: held_in_def em)
  have fin: "finite (op_keys op)" for op by (cases op) auto
  have "retained (last (0 # map fst ops)) ?m ?st"
    by (rule retained_run [OF new_cache_inv _ _ _ _ subset_refl assms(2)])
       (use assms(1) fin in \<open>auto simp: held_in_def retained_def em sorted_append\<close>)
  moreover have "last (0 # map fst ops) \<le> later"
    using assms(1) by (cases ops rule: rev_cases) (auto simp: sorted_append)
  ultimately have ret: "retained later ?m ?st" unfolding retained_def by fastforce
  have "fst (mem_get later k ?m) = (case mem_view ?m later k of Some v \<Rightarrow> Inr v | None \<Rightarrow> Inl ErrNotFound)"
    using mem.get_result [OF inv, of later k] by simp
  also have "mem_view ?m later k = (case ?st k of Some (v, x) \<Rightarrow> (if x = 0 \<or> later < x then Some v else None) | None \<Rightarrow> None)"
  proof (cases "find_entry k (entries ?m)")
    case (Some e)
    then have "e \<in> set (entries ?m)" "e_key e = k" by (auto dest: find_entry_mem find_key)
    with held have "?st k = Some (e_value e, e_expires e)" by (auto simp: held_in_def)
    with Some show ?thesis by (auto simp: mem_view_def expired_def)
  next
    case None
    then have "k \<notin> e_key ` set (entries ?m)" by (simp add: find_entry_none)
    then have "x \<noteq> 0 \<and> x \<le> later" if "?st k = Some (v, x)" for v x
      using ret that unfolding retained_def by force
    with None show ?thesis by (auto simp: mem_view_def split: option.splits)
  qed
  finally show ?thesis by (auto split: option.splits)
qed

lemma cache_exact_below_capacity_witness:
  "fst (mem_get 6 ''c'' (cache_run sample_ops (new_mem_cache 3))) = Inr ''z'' \<and>
   fst (mem_get 9 ''c'' (cache_run sample_ops (new_mem_cache 3))) = Inl ErrNotFound"
proof -
  have c: "card (\<Union>p \<in> set sample_ops. op_keys (snd p)) \<le> mc_max (new_mem_cache 3)"
    by (simp add: sample_ops_def new_mem_cache_def card_insert_if)
  have i: "ideal_run sample_ops (new_mem_cache 3) Map.empty ''c'' = Some (''z'', 9)"
    by (simp add: sample_ops_def ideal_step_def expiry_def)
  have "sorted (0 # map fst sample_ops @ [6])" "sorted (0 # map fst sample_ops @ [9])"
    by (simp_all add: sample_ops_def)
  from cache_exact_below_capacity [OF this(1) c, of "''c''"] cache_exact_below_capacity [OF this(2) c, of "''c''"] i
  show ?thesis by simp
qed

section \<open>Namespaces of the in-memory store\<close>

interpretation mem_ns: namespaced_store memory_store cache_inv mem_view pfx for pfx
  by unfold_locales

text \<open>Two namespaces of one in-memory store of which neither prefix begins with the other do not
  see each other: writing, adding, deleting or clearing in one never makes a value appear or
  change in the other; deletions and clearing leave every value of the other readable.\<close>

lemma namespaces_isolated:
  assumes "cache_inv m" and "\<not> has_prefix p q" and "\<not> has_prefix q p"
  shows "(mem_view (snd (st_set (namespaced memory_store p) now k v ttl m)) later (q @ k') = Some w \<longrightarrow>
       mem_view m later (q @ k') = Some w) \<and>
     mem_view (snd (st_delete (namespaced memory_store p) ks m)) later (q @ k') = mem_view m later (q @ k') \<and>
     mem_view (snd (st_delete_prefix (namespaced memory_store p) [] m)) later (q @ k') = mem_view m later (q @ k') \<and>
     mem_view (snd (st_delete_prefix (namespaced memory_store p) [] m)) later (p @ k') = None"
  using mem.namespace_set [OF assms] mem.namespace_delete [OF assms] mem.namespace_clear [OF assms]
    mem.namespace_cleared [OF assms(1)] by blast

lemma namespaces_isolated_witness:
  "mem_view (snd (st_delete_prefix (namespaced memory_store ''s:'') []
     (set_entry 1 ''i:a'' ''x'' 0 (new_mem_cache 5)))) 2 ''i:a'' = Some ''x''"
proof -
  have "cache_inv (set_entry 1 ''i:a'' ''x'' 0 (new_mem_cache 5))"
    using set_refines [OF new_cache_inv] by blast
  from namespaces_isolated [OF this, of "''s:''" "''i:''"]
  have "mem_view (snd (st_delete_prefix (namespaced memory_store ''s:'') []
       (set_entry 1 ''i:a'' ''x'' 0 (new_mem_cache 5)))) 2 (''i:'' @ ''a'') =
     mem_view (set_entry 1 ''i:a'' ''x'' 0 (new_mem_cache 5)) 2 (''i:'' @ ''a'')"
    by (simp add: has_prefix_def)
  moreover have "mem_view (set_entry 1 ''i:a'' ''x'' 0 (new_mem_cache 5)) 2 ''i:a'' = Some ''x''"
    using mem_set_view [OF new_cache_inv, of 1 "''i:a''" "''x''" 0 5 2] by (simp add: fresh_until_def)
  ultimately show ?thesis by simp
qed

end
