(* ===== verification/Capture.thy ===== *)
theory Capture
  imports Prelude
begin

text \<open>
  \<open>internal/capture/capture.go\<close>: a recorder that tees a response into a bounded buffer, so
  that middleware can store it and replay it. \<open>writer\<close> is what the recorder needs of Go's
  \<open>http.ResponseWriter\<close>: a header map, the first final status written, the bytes written, and
  the headers as they were when the status was committed (what the client receives).
\<close>

section \<open>Response writers\<close>

type_synonym headers = "string \<Rightarrow> string list option"

record writer =
  w_header :: headers
  w_status :: nat
  w_sent :: headers
  w_body :: bytes

definition new_writer :: writer where
  "new_writer = \<lparr>w_header = Map.empty, w_status = 0, w_sent = Map.empty, w_body = []\<rparr>"

definition final_code :: "nat \<Rightarrow> bool" where
  "final_code code \<longleftrightarrow> code < 100 \<or> code \<ge> 200"

text \<open>The other informational codes leave the response open; 101, switching protocols, commits it.\<close>

definition commits :: "nat \<Rightarrow> bool" where
  "commits code \<longleftrightarrow> final_code code \<or> code = 101"

definition w_write_header :: "nat \<Rightarrow> writer \<Rightarrow> writer" where
  "w_write_header code w =
     (if w_status w = 0 \<and> commits code then w\<lparr>w_status := code, w_sent := w_header w\<rparr> else w)"

definition w_write :: "bytes \<Rightarrow> writer \<Rightarrow> writer" where
  "w_write b w = (let w1 = w_write_header 200 w in w1\<lparr>w_body := w_body w1 @ b\<rparr>)"

section \<open>Responses and the recorder\<close>

record response =
  resp_status :: nat
  resp_header :: "(string \<times> string list) list"
  resp_body :: bytes

definition replayed_headers :: "string list" where
  "replayed_headers =
     [''Content-Type'', ''Content-Encoding'', ''Content-Language'', ''Content-Disposition'',
      ''Cache-Control'', ''ETag'', ''Last-Modified'', ''Location'', ''Vary'']"

text \<open>The headers of \<open>src\<close> worth keeping, in the order of the list above.\<close>

definition replayable :: "headers \<Rightarrow> (string \<times> string list) list" where
  "replayable src = List.map_filter (\<lambda>k. map_option (\<lambda>v. (k, v)) (src k)) replayed_headers"

definition write_to :: "response \<Rightarrow> (string \<times> string) list \<Rightarrow> writer \<Rightarrow> writer" where
  "write_to r extra w =
     (let h1 = foldl (\<lambda>h (k, v). h(k \<mapsto> v)) (w_header w) (resp_header r);
          h2 = foldl (\<lambda>h (k, v). h(k \<mapsto> [v])) h1 extra
      in w_write (resp_body r) (w_write_header (resp_status r) (w\<lparr>w_header := h2\<rparr>)))"

record recorder =
  rec_writer :: writer
  rec_limit :: nat
  rec_status :: nat
  rec_header :: "(string \<times> string list) list"
  rec_buf :: bytes
  rec_overflow :: bool

definition new_recorder :: "writer \<Rightarrow> nat \<Rightarrow> recorder" where
  "new_recorder w limit =
     \<lparr>rec_writer = w, rec_limit = limit, rec_status = 0, rec_header = [], rec_buf = [],
      rec_overflow = False\<rparr>"

definition rec_write_header :: "nat \<Rightarrow> recorder \<Rightarrow> recorder" where
  "rec_write_header code r =
     (let src = w_header (rec_writer r);
          r1 = (if rec_status r = 0 \<and> final_code code
                then r\<lparr>rec_status := code,
                       rec_header := replayable src,
                       rec_overflow := (rec_overflow r \<or> src ''Set-Cookie'' \<noteq> None)\<rparr>
                else r)
      in r1\<lparr>rec_writer := w_write_header code (rec_writer r1)\<rparr>)"

definition rec_write :: "bytes \<Rightarrow> recorder \<Rightarrow> recorder" where
  "rec_write b r =
     (let r1 = (if rec_status r = 0 then rec_write_header 200 r else r);
          r2 = (if \<not> rec_overflow r1 then
                  (if length (rec_buf r1) + length b > rec_limit r1
                   then r1\<lparr>rec_overflow := True, rec_buf := []\<rparr>
                   else r1\<lparr>rec_buf := rec_buf r1 @ b\<rparr>)
                else r1)
      in r2\<lparr>rec_writer := w_write b (rec_writer r2)\<rparr>)"

definition rec_result :: "recorder \<Rightarrow> response option" where
  "rec_result r =
     (if rec_status r = 0 \<or> rec_overflow r then None
      else Some \<lparr>resp_status = rec_status r, resp_header = rec_header r, resp_body = rec_buf r\<rparr>)"

section \<open>What a handler does with it\<close>

datatype write_op = SetHeader string "string list" | WriteHeader nat | Write bytes

fun rec_step :: "write_op \<Rightarrow> recorder \<Rightarrow> recorder" where
  "rec_step (SetHeader k vs) r =
     r\<lparr>rec_writer := (rec_writer r)\<lparr>w_header := (w_header (rec_writer r))(k \<mapsto> vs)\<rparr>\<rparr>"
| "rec_step (WriteHeader code) r = rec_write_header code r"
| "rec_step (Write b) r = rec_write b r"

fun writer_step :: "write_op \<Rightarrow> writer \<Rightarrow> writer" where
  "writer_step (SetHeader k vs) w = w\<lparr>w_header := (w_header w)(k \<mapsto> vs)\<rparr>"
| "writer_step (WriteHeader code) w = w_write_header code w"
| "writer_step (Write b) w = w_write b w"

definition rec_run :: "write_op list \<Rightarrow> recorder \<Rightarrow> recorder" where
  "rec_run ops r = foldl (\<lambda>r op. rec_step op r) r ops"

definition writer_run :: "write_op list \<Rightarrow> writer \<Rightarrow> writer" where
  "writer_run ops w = foldl (\<lambda>w op. writer_step op w) w ops"

definition rec_inv :: "recorder \<Rightarrow> bool" where
  "rec_inv r \<longleftrightarrow> rec_status r = w_status (rec_writer r) \<and> length (rec_buf r) \<le> rec_limit r \<and>
     (rec_status r = 0 \<longrightarrow> w_body (rec_writer r) = [] \<and> rec_buf r = [] \<and> \<not> rec_overflow r) \<and>
     (rec_status r \<noteq> 0 \<and> \<not> rec_overflow r \<longrightarrow>
        rec_buf r = w_body (rec_writer r) \<and>
        w_sent (rec_writer r) ''Set-Cookie'' = None \<and>
        rec_header r = replayable (w_sent (rec_writer r)))"

lemma final_200 [simp]: "final_code 200"
  by (simp add: final_code_def)

lemma commits_200 [simp]: "commits 200"
  by (simp add: commits_def)

text \<open>\<open>net/http\<close> panics on a status below 100, so a handler writes none. A handler that switches protocols takes the
  connection over and writes no response; \<open>switching_misrecorded\<close> shows what the recorder makes of one that does.\<close>

definition valid_op :: "write_op \<Rightarrow> bool" where
  "valid_op op \<longleftrightarrow> (case op of WriteHeader code \<Rightarrow> 100 \<le> code \<and> code \<noteq> 101 | _ \<Rightarrow> True)"

lemma rec_write_header_inv: "rec_inv r \<Longrightarrow> 100 \<le> code \<Longrightarrow> code \<noteq> 101 \<Longrightarrow> rec_inv (rec_write_header code r)"
  by (auto simp: rec_inv_def rec_write_header_def w_write_header_def commits_def Let_def)

lemma rec_write_inv:
  assumes "rec_inv r"
  shows "rec_inv (rec_write b r)"
proof -
  define r1 where "r1 = (if rec_status r = 0 then rec_write_header 200 r else r)"
  have r1: "rec_inv r1" using assms rec_write_header_inv [of r 200] by (simp add: r1_def)
  have s: "rec_status r1 \<noteq> 0" by (simp add: r1_def rec_write_header_def Let_def)
  have w: "rec_write b r = (let r2 = (if \<not> rec_overflow r1 then
                  (if length (rec_buf r1) + length b > rec_limit r1
                   then r1\<lparr>rec_overflow := True, rec_buf := []\<rparr>
                   else r1\<lparr>rec_buf := rec_buf r1 @ b\<rparr>)
                else r1)
      in r2\<lparr>rec_writer := w_write b (rec_writer r2)\<rparr>)"
    by (simp add: rec_write_def r1_def Let_def)
  show ?thesis
    using r1 s unfolding w by (auto simp: rec_inv_def Let_def w_write_def w_write_header_def)
qed

lemma rec_step_inv: "rec_inv r \<Longrightarrow> valid_op op \<Longrightarrow> rec_inv (rec_step op r)"
proof (cases op)
  case (SetHeader k vs)
  then show "rec_inv r \<Longrightarrow> valid_op op \<Longrightarrow> rec_inv (rec_step op r)"
    by (auto simp: rec_inv_def fun_eq_iff)
qed (simp_all add: rec_write_header_inv rec_write_inv valid_op_def)

lemma rec_step_limit: "rec_limit (rec_step op r) = rec_limit r"
  by (cases op) (simp_all add: rec_write_def rec_write_header_def Let_def)

lemma rec_step_writer: "rec_inv r \<Longrightarrow> rec_writer (rec_step op r) = writer_step op (rec_writer r)"
  by (cases op) (auto simp: rec_inv_def rec_write_def rec_write_header_def w_write_def w_write_header_def Let_def)

lemma rec_run_inv:
  "rec_inv r \<Longrightarrow> \<forall>op \<in> set ops. valid_op op \<Longrightarrow>
     rec_inv (rec_run ops r) \<and> rec_limit (rec_run ops r) = rec_limit r \<and>
     rec_writer (rec_run ops r) = writer_run ops (rec_writer r)"
  unfolding rec_run_def writer_run_def
  by (induction ops arbitrary: r) (simp_all add: rec_step_inv rec_step_limit rec_step_writer)

lemma new_recorder_inv: "rec_inv (new_recorder new_writer limit)"
  by (simp add: rec_inv_def new_recorder_def new_writer_def)

text \<open>The recorder takes 101 for an informational code, but the writer below commits on it: the response that is recorded, and
  replayed, has the status 200 that the client never saw.\<close>

lemma switching_misrecorded:
  "rec_result (rec_run [WriteHeader 101, Write ''ab''] (new_recorder new_writer 9)) =
     Some \<lparr>resp_status = 200, resp_header = [], resp_body = ''ab''\<rparr> \<and>
   w_status (writer_run [WriteHeader 101, Write ''ab''] new_writer) = 101"
  by (simp add: rec_run_def rec_write_def rec_write_header_def w_write_def w_write_header_def new_writer_def new_recorder_def
      final_code_def commits_def rec_result_def writer_run_def replayable_def replayed_headers_def List.map_filter_def Let_def)



lemma write_to_fresh:
  assumes "100 \<le> resp_status r" and "final_code (resp_status r)"
  shows "w_status (write_to r extra new_writer) = resp_status r \<and>
    w_body (write_to r extra new_writer) = resp_body r"
  using assms by (simp add: write_to_def w_write_def w_write_header_def commits_def new_writer_def Let_def)

end
