(* ===== verification/Codec.thy ===== *)
theory Codec
  imports Prelude
begin

text \<open>
  A concrete self-delimiting encoding of lists, strings, numbers and options into bytes. The
  code stores its records as JSON; in the model the encoder and decoder are parameters with
  the assumption that decoding inverts encoding. The encoding here shows that this
  assumption can be met, and instantiates the parameter wherever a concrete one is needed.
\<close>

type_synonym 'a encoder = "'a \<Rightarrow> bytes"
type_synonym 'a decoder = "bytes \<Rightarrow> 'a \<times> bytes"

definition inverts :: "'a encoder \<Rightarrow> 'a decoder \<Rightarrow> bool" where
  "inverts e d \<longleftrightarrow> (\<forall>x r. d (e x @ r) = (x, r))"

definition e_nat :: "nat encoder" where
  "e_nat n = replicate n CHR ''1'' @ ''0''"

definition d_nat :: "nat decoder" where
  "d_nat b = (length (takeWhile (\<lambda>c. c = CHR ''1'') b), drop 1 (dropWhile (\<lambda>c. c = CHR ''1'') b))"

lemma inverts_nat: "inverts e_nat d_nat"
proof -
  have "takeWhile (\<lambda>c. c = CHR ''1'') (replicate n CHR ''1'' @ CHR ''0'' # r) = replicate n CHR ''1'' \<and>
      dropWhile (\<lambda>c. c = CHR ''1'') (replicate n CHR ''1'' @ CHR ''0'' # r) = CHR ''0'' # r" for n r
    by (induction n) auto
  then show ?thesis by (simp add: inverts_def e_nat_def d_nat_def)
qed

fun d_items :: "'a decoder \<Rightarrow> nat \<Rightarrow> 'a list decoder" where
  "d_items d 0 b = ([], b)"
| "d_items d (Suc n) b = (case d b of (x, r) \<Rightarrow> (case d_items d n r of (xs, r') \<Rightarrow> (x # xs, r')))"

definition e_list :: "'a encoder \<Rightarrow> 'a list encoder" where
  "e_list e xs = e_nat (length xs) @ concat (map e xs)"

definition d_list :: "'a decoder \<Rightarrow> 'a list decoder" where
  "d_list d b = (case d_nat b of (n, r) \<Rightarrow> d_items d n r)"

lemma inverts_list: "inverts e d \<Longrightarrow> inverts (e_list e) (d_list d)"
proof -
  assume i: "inverts e d"
  have "d_items d (length xs) (concat (map e xs) @ r) = (xs, r)" for xs r
    using i by (induction xs) (simp_all add: inverts_def)
  with inverts_nat show ?thesis by (simp add: inverts_def e_list_def d_list_def)
qed

definition e_char :: "char encoder" where "e_char c = [c]"
definition d_char :: "char decoder" where "d_char b = (hd b, tl b)"

lemma inverts_char: "inverts e_char d_char"
  by (simp add: inverts_def e_char_def d_char_def)

definition e_pair :: "'a encoder \<Rightarrow> 'b encoder \<Rightarrow> ('a \<times> 'b) encoder" where
  "e_pair e f p = e (fst p) @ f (snd p)"

definition d_pair :: "'a decoder \<Rightarrow> 'b decoder \<Rightarrow> ('a \<times> 'b) decoder" where
  "d_pair d g b = (case d b of (x, r) \<Rightarrow> (case g r of (y, r') \<Rightarrow> ((x, y), r')))"

lemma inverts_pair: "inverts e d \<Longrightarrow> inverts f g \<Longrightarrow> inverts (e_pair e f) (d_pair d g)"
  by (simp add: inverts_def e_pair_def d_pair_def)

definition e_int :: "int encoder" where
  "e_int x = (if 0 \<le> x then CHR ''p'' # e_nat (nat x) else CHR ''m'' # e_nat (nat (- x)))"

definition d_int :: "int decoder" where
  "d_int b = (case d_nat (tl b) of (n, r) \<Rightarrow> ((if hd b = CHR ''p'' then int n else - int n), r))"

lemma inverts_int: "inverts e_int d_int"
  using inverts_nat by (simp add: inverts_def e_int_def d_int_def)

definition e_option :: "'a encoder \<Rightarrow> 'a option encoder" where
  "e_option e x = (case x of None \<Rightarrow> ''n'' | Some y \<Rightarrow> CHR ''s'' # e y)"

definition d_option :: "'a decoder \<Rightarrow> 'a option decoder" where
  "d_option d b = (if hd b = CHR ''n'' then (None, tl b) else (case d (tl b) of (y, r) \<Rightarrow> (Some y, r)))"

lemma inverts_option: "inverts e d \<Longrightarrow> inverts (e_option e) (d_option d)"
  by (auto simp: inverts_def e_option_def d_option_def split: option.splits)

definition e_bool :: "bool encoder" where "e_bool x = (if x then ''t'' else ''f'')"
definition d_bool :: "bool decoder" where "d_bool b = (hd b = CHR ''t'', tl b)"

lemma inverts_bool: "inverts e_bool d_bool"
  by (simp add: inverts_def e_bool_def d_bool_def)

lemma invertsD: "inverts e d \<Longrightarrow> fst (d (e x)) = x"
  unfolding inverts_def by (metis append_Nil2 fst_conv)

abbreviation "e_string \<equiv> e_list e_char"
abbreviation "d_string \<equiv> d_list d_char"

lemmas inverts_intros = inverts_nat inverts_list inverts_char inverts_pair inverts_int inverts_option inverts_bool

end
