(* ===== verification/Idempotency.thy ===== *)
theory Idempotency
  imports CacheMemory Capture Codec
begin

text \<open>
  \<open>idempotency/idempotency.go\<close>: the record store over a cache store (\<open>Reserve\<close>, \<open>Complete\<close>,
  \<open>Release\<close>) and the middleware, cut where the handler runs: \<open>idem_begin\<close> is everything before
  \<open>next(c)\<close>, \<open>idem_finish\<close> everything after it, so that concurrent requests are interleavings
  of these two steps over one store.

  Parameters: \<open>enc\<close> and \<open>dec\<close> (\<open>encoding/json\<close>), \<open>hash\<close> (hex SHA-256), the clock. \<open>clk i\<close> is
  the time of the \<open>i\<close>-th store call of a step. A \<open>dec (enc r) = Some r\<close> is the only
  assumption on the codec.
\<close>

section \<open>Records and their store\<close>

record idem_record =
  ir_fingerprint :: string
  ir_done :: bool
  ir_response :: "response option"
  ir_created :: time

record codec =
  enc :: "idem_record \<Rightarrow> bytes"
  dec :: "bytes \<Rightarrow> idem_record option"

datatype reserve_error = StoreError store_error | CorruptRecord | CouldNotReserve

definition idem_store :: "'s store \<Rightarrow> 's store" where
  "idem_store st = namespaced st ''torge:idempotency:''"

text \<open>The two rounds of the loop of \<open>Reserve\<close>; the clock advances by two calls per round.\<close>

fun reserve_loop ::
  "nat \<Rightarrow> codec \<Rightarrow> 's store \<Rightarrow> (nat \<Rightarrow> time) \<Rightarrow> string \<Rightarrow> bytes \<Rightarrow> duration \<Rightarrow> 's \<Rightarrow>
     (reserve_error, idem_record option) result \<times> 's" where
  "reserve_loop 0 cd st clk key data ttl s = (Inl CouldNotReserve, s)"
| "reserve_loop (Suc n) cd st clk key data ttl s =
     (case cache_add st (clk 0) key data ttl s of
        (Inl e, s1) \<Rightarrow> (Inl (StoreError e), s1)
      | (Inr True, s1) \<Rightarrow> (Inr None, s1)
      | (Inr False, s1) \<Rightarrow>
          (case st_get st (clk 1) key s1 of
             (Inl ErrNotFound, s2) \<Rightarrow> reserve_loop n cd st (\<lambda>i. clk (i + 2)) key data ttl s2
           | (Inl e, s2) \<Rightarrow> (Inl (StoreError e), s2)
           | (Inr raw, s2) \<Rightarrow>
               (case dec cd raw of None \<Rightarrow> (Inl CorruptRecord, s2) | Some r \<Rightarrow> (Inr (Some r), s2))))"

definition reserve ::
  "codec \<Rightarrow> 's store \<Rightarrow> (nat \<Rightarrow> time) \<Rightarrow> string \<Rightarrow> idem_record \<Rightarrow> duration \<Rightarrow> 's \<Rightarrow>
     (reserve_error, idem_record option) result \<times> 's" where
  "reserve cd st clk key rec ttl s = reserve_loop 2 cd (idem_store st) clk key (enc cd rec) ttl s"

definition complete ::
  "codec \<Rightarrow> 's store \<Rightarrow> time \<Rightarrow> string \<Rightarrow> idem_record \<Rightarrow> duration \<Rightarrow> 's \<Rightarrow> (store_error, unit) result \<times> 's" where
  "complete cd st now key rec ttl s = st_set (idem_store st) now key (enc cd rec) ttl s"

definition release :: "'s store \<Rightarrow> string \<Rightarrow> 's \<Rightarrow> (store_error, unit) result \<times> 's" where
  "release st key s = st_delete (idem_store st) [key] s"

section \<open>The middleware\<close>

record idem_config =
  ic_methods :: "string list option"
  ic_required :: bool
  ic_ttl :: duration
  ic_lock_ttl :: duration
  ic_max_body :: int
  ic_max_response :: int

definition idem_defaults :: "idem_config \<Rightarrow> idem_config" where
  "idem_defaults c =
     c\<lparr>ic_methods := (case ic_methods c of None \<Rightarrow> Some [''POST'', ''PATCH''] | Some ms \<Rightarrow> Some ms),
       ic_ttl := (if ic_ttl c \<le> 0 then 86400000000000 else ic_ttl c),
       ic_lock_ttl := (if ic_lock_ttl c \<le> 0 then 60000000000 else ic_lock_ttl c),
       ic_max_body := (if ic_max_body c \<le> 0 then 1048576 else ic_max_body c),
       ic_max_response := (if ic_max_response c \<le> 0 then 1048576 else ic_max_response c)\<rparr>"

datatype body_error = BodyReadError | BodyTooLarge int

text \<open>The body of a request: absent, or what reading it to the end yields. The read stops one byte after the limit, a 64-bit sum: with
  the largest limit nothing is read.\<close>

definition read_body :: "int \<Rightarrow> (unit, bytes) result option \<Rightarrow> (body_error, bytes) result" where
  "read_body limit body =
     (case body of
        None \<Rightarrow> Inr []
      | Some r \<Rightarrow>
          if i64 (limit + 1) \<le> 0 then Inr []
          else case r of Inl _ \<Rightarrow> Inl BodyReadError
               | Inr b \<Rightarrow> if int (length b) > limit then Inl (BodyTooLarge limit) else Inr b)"

definition fingerprint :: "(bytes \<Rightarrow> string) \<Rightarrow> string \<Rightarrow> string \<Rightarrow> bytes \<Rightarrow> string" where
  "fingerprint hash meth path body = hash (meth @ CHR 0x00 # path @ CHR 0x00 # body)"

record idem_request =
  rq_method :: string
  rq_path :: string
  rq_key :: string
  rq_scope :: string
  rq_body :: "(unit, bytes) result option"

definition default_scope :: "string option \<Rightarrow> string" where
  "default_scope user = (case user of Some u \<Rightarrow> ''user:'' @ u | None \<Rightarrow> ''anonymous'')"

datatype idem_outcome =
    Bypass
  | KeyRequired
  | KeyInvalid
  | BodyRefused body_error
  | Unavailable reserve_error
  | KeyReused
  | InProgress
  | Replay response
  | Execute string string

definition full_key :: "idem_request \<Rightarrow> string" where
  "full_key rq = rq_scope rq @ '':'' @ rq_key rq"

definition idem_begin ::
  "idem_config \<Rightarrow> codec \<Rightarrow> (bytes \<Rightarrow> string) \<Rightarrow> 's store \<Rightarrow> (nat \<Rightarrow> time) \<Rightarrow> idem_request \<Rightarrow> 's \<Rightarrow> idem_outcome \<times> 's" where
  "idem_begin cfg cd hash st clk rq s =
     (let cfg = idem_defaults cfg
      in if rq_method rq \<notin> set (the (ic_methods cfg)) then (Bypass, s)
         else if rq_key rq = [] then ((if ic_required cfg then KeyRequired else Bypass), s)
         else if length (rq_key rq) > 255 then (KeyInvalid, s)
         else case read_body (ic_max_body cfg) (rq_body rq) of
           Inl e \<Rightarrow> (BodyRefused e, s)
         | Inr body \<Rightarrow>
             (let fp = fingerprint hash (rq_method rq) (rq_path rq) body;
                  rec = \<lparr>ir_fingerprint = fp, ir_done = False, ir_response = None, ir_created = clk 0\<rparr>
              in case reserve cd st clk (full_key rq) rec (ic_lock_ttl cfg) s of
                   (Inl e, s1) \<Rightarrow> (Unavailable e, s1)
                 | (Inr None, s1) \<Rightarrow> (Execute (full_key rq) fp, s1)
                 | (Inr (Some ex), s1) \<Rightarrow>
                     (if ir_fingerprint ex \<noteq> fp then (KeyReused, s1)
                      else if \<not> ir_done ex then (InProgress, s1)
                      else case ir_response ex of
                             None \<Rightarrow> (InProgress, s1) | Some resp \<Rightarrow> (Replay resp, s1))))"

text \<open>After the handler: \<open>failed\<close> tells whether it returned an error, \<open>captured\<close> is the result of
  the recorder.\<close>

definition idem_finish ::
  "idem_config \<Rightarrow> codec \<Rightarrow> 's store \<Rightarrow> time \<Rightarrow> string \<Rightarrow> string \<Rightarrow> bool \<Rightarrow> response option \<Rightarrow> 's \<Rightarrow> 's" where
  "idem_finish cfg cd st now key fp failed captured s =
     (let cfg = idem_defaults cfg
      in case captured of
           None \<Rightarrow> snd (release st key s)
         | Some resp \<Rightarrow>
             if failed \<or> resp_status resp \<ge> 500 then snd (release st key s)
             else snd (complete cd st now key
                        \<lparr>ir_fingerprint = fp, ir_done = True, ir_response = Some resp, ir_created = now\<rparr>
                        (ic_ttl cfg) s))"

section \<open>What the steps do under the store contract\<close>

definition codec_ok :: "codec \<Rightarrow> bool" where
  "codec_ok cd \<longleftrightarrow> (\<forall>r. dec cd (enc cd r) = Some r)"

definition idem_pfx :: string where
  "idem_pfx = ''torge:idempotency:''"

text \<open>The state of a key, as the outcome of the next request with fingerprint \<open>fp\<close> depends on it.\<close>

definition judge :: "codec \<Rightarrow> string \<Rightarrow> string \<Rightarrow> bytes option \<Rightarrow> idem_outcome" where
  "judge cd key fp v =
     (case v of
        None \<Rightarrow> Execute key fp
      | Some raw \<Rightarrow>
          (case dec cd raw of
             None \<Rightarrow> Unavailable CorruptRecord
           | Some ex \<Rightarrow>
               if ir_fingerprint ex \<noteq> fp then KeyReused
               else if \<not> ir_done ex then InProgress
               else case ir_response ex of None \<Rightarrow> InProgress | Some resp \<Rightarrow> Replay resp))"

text \<open>A request that reaches the store.\<close>

definition keyed :: "idem_config \<Rightarrow> idem_request \<Rightarrow> bytes \<Rightarrow> bool" where
  "keyed cfg rq body \<longleftrightarrow>
     rq_method rq \<in> set (the (ic_methods (idem_defaults cfg))) \<and> rq_key rq \<noteq> [] \<and> length (rq_key rq) \<le> 255 \<and>
     read_body (ic_max_body (idem_defaults cfg)) (rq_body rq) = Inr body"

text \<open>A success is one that is stored.\<close>

definition stored :: "bool \<Rightarrow> response option \<Rightarrow> response option" where
  "stored failed captured =
     (case captured of None \<Rightarrow> None | Some resp \<Rightarrow> if failed \<or> resp_status resp \<ge> 500 then None else Some resp)"

section \<open>Runs of requests for one key\<close>

datatype idem_event = Arrive time idem_request | Finish time string bool "response option"

fun idem_run ::
  "idem_config \<Rightarrow> codec \<Rightarrow> (bytes \<Rightarrow> string) \<Rightarrow> 's store \<Rightarrow> string \<Rightarrow> idem_event list \<Rightarrow> 's \<Rightarrow> idem_outcome list \<times> 's" where
  "idem_run cfg cd hash st key [] s = ([], s)"
| "idem_run cfg cd hash st key (Arrive t rq # evs) s =
     (let b = idem_begin cfg cd hash st (\<lambda>_. t) rq s; rest = idem_run cfg cd hash st key evs (snd b)
      in (fst b # fst rest, snd rest))"
| "idem_run cfg cd hash st key (Finish t fp failed captured # evs) s =
     idem_run cfg cd hash st key evs (idem_finish cfg cd st t key fp failed captured s)"

fun event_time :: "idem_event \<Rightarrow> time" where
  "event_time (Arrive t _) = t"
| "event_time (Finish t _ _ _) = t"

definition arrival_ok :: "idem_config \<Rightarrow> string \<Rightarrow> idem_event \<Rightarrow> bool" where
  "arrival_ok cfg key ev \<longleftrightarrow>
     (case ev of Arrive _ rq \<Rightarrow> full_key rq = key \<and> (\<exists>body. keyed cfg rq body) | Finish _ _ _ _ \<Rightarrow> True)"

definition executions :: "idem_outcome list \<Rightarrow> nat" where
  "executions os = length (filter (\<lambda>ou. case ou of Execute _ _ \<Rightarrow> True | _ \<Rightarrow> False) os)"

definition failures :: "idem_event list \<Rightarrow> nat" where
  "failures evs = length (filter (\<lambda>ev. case ev of
     Finish _ _ failed captured \<Rightarrow> stored failed captured = None | Arrive _ _ \<Rightarrow> False) evs)"

lemma executions_simps [simp]:
  "executions [] = 0"
  "executions (ou # os) = (case ou of Execute _ _ \<Rightarrow> 1 | _ \<Rightarrow> 0) + executions os"
  by (auto simp: executions_def split: idem_outcome.splits)

lemma failures_simps [simp]:
  "failures [] = 0"
  "failures (Arrive t rq # evs) = failures evs"
  "failures (Finish t fp failed captured # evs) =
     (if stored failed captured = None then 1 else 0) + failures evs"
  by (auto simp: failures_def)

context lossy_store begin

abbreviation iview :: "'s \<Rightarrow> time \<Rightarrow> string \<Rightarrow> bytes option" where
  "iview s now k \<equiv> view s now (idem_pfx @ k)"

lemma idem_ops:
  "cache_add (idem_store st) now key = cache_add st now (idem_pfx @ key)"
  "st_get (idem_store st) now key = st_get st now (idem_pfx @ key)"
  "st_set (idem_store st) now key = st_set st now (idem_pfx @ key)"
  "st_delete (idem_store st) [key] = st_delete st [idem_pfx @ key]"
  by (simp_all add: idem_store_def cache_add_namespaced idem_pfx_def) (simp_all add: namespaced_def)

text \<open>When the store calls of one \<open>Reserve\<close> happen within an instant, one round decides.\<close>

lemma reserve_instant:
  assumes "inv s"
  shows "reserve cd st (\<lambda>_. now) key rec ttl s =
    (case iview s now key of
       None \<Rightarrow> (Inr None, snd (st_set st now (idem_pfx @ key) (enc cd rec) ttl s))
     | Some raw \<Rightarrow>
         ((case dec cd raw of None \<Rightarrow> Inl CorruptRecord | Some r \<Rightarrow> Inr (Some r)),
          snd (st_get st now (idem_pfx @ key) s)))"
proof (cases "iview s now key")
  case None
  then show ?thesis by (simp add: reserve_def numeral_2_eq_2 idem_ops add_eq [OF assms])
next
  case (Some raw)
  then obtain s2 where g: "st_get st now (idem_pfx @ key) s = (Inr raw, s2)"
    using get_result [OF assms, of now "idem_pfx @ key"] by (cases "st_get st now (idem_pfx @ key) s") auto
  with Some show ?thesis
    by (simp add: reserve_def numeral_2_eq_2 idem_ops add_eq [OF assms] split: option.splits)
qed

lemma begin_outcome:
  assumes "inv s" and "keyed cfg rq body"
  shows "fst (idem_begin cfg cd hash st (\<lambda>_. now) rq s) =
      judge cd (full_key rq) (fingerprint hash (rq_method rq) (rq_path rq) body) (iview s now (full_key rq))"
    and "inv (snd (idem_begin cfg cd hash st (\<lambda>_. now) rq s))"
  using assms(2) get_inv [OF assms(1)] set_inv [OF assms(1)]
  by (auto simp: idem_begin_def keyed_def reserve_instant [OF assms(1)] judge_def Let_def split: option.splits)

lemma begin_view:
  assumes "inv s" and "keyed cfg rq body" and "0 \<le> now" and "now \<le> later"
  shows "iview (snd (idem_begin cfg cd hash st (\<lambda>_. now) rq s)) later (full_key rq) =
    (if iview s now (full_key rq) = None
     then (if later < now + ic_lock_ttl (idem_defaults cfg)
           then Some (enc cd \<lparr>ir_fingerprint = fingerprint hash (rq_method rq) (rq_path rq) body,
                             ir_done = False, ir_response = None, ir_created = now\<rparr>)
           else None)
     else iview s later (full_key rq))"
proof -
  have "0 < ic_lock_ttl (idem_defaults cfg)" by (simp add: idem_defaults_def)
  then show ?thesis
    using assms(2) get_view [OF assms(1,4)] set_view [OF assms(1,3)]
    by (auto simp: idem_begin_def keyed_def reserve_instant [OF assms(1)] Let_def fresh_until_def split: option.splits)
qed

lemma begin_executes:
  assumes "inv s" and "keyed cfg rq body" and "iview s now (full_key rq) = None"
  shows "\<exists>fp. fst (idem_begin cfg cd hash st (\<lambda>_. now) rq s) = Execute (full_key rq) fp"
  using begin_outcome(1) [OF assms(1,2)] assms(3) by (simp add: judge_def)

text \<open>The reservation lasts for the lock time and no longer: a handler that is still running then is joined by a second one.\<close>

lemma lock_expiry_runs_twice:
  assumes "inv s" and "keyed cfg rq body" and "full_key rq = key" and "iview s t key = None"
    and "0 \<le> t" and "t + ic_lock_ttl (idem_defaults cfg) \<le> t'"
  shows "executions (fst (idem_run cfg cd hash st key [Arrive t rq, Arrive t' rq] s)) = 2"
proof -
  let ?s1 = "snd (idem_begin cfg cd hash st (\<lambda>_. t) rq s)"
  have "0 < ic_lock_ttl (idem_defaults cfg)" by (simp add: idem_defaults_def)
  then have "iview ?s1 t' key = None" using begin_view [OF assms(1,2,5), of t'] assms(3,4,6) by simp
  then have "\<exists>fp. fst (idem_begin cfg cd hash st (\<lambda>_. t') rq ?s1) = Execute key fp"
    using begin_executes [OF begin_outcome(2) [OF assms(1,2)] assms(2)] assms(3) by simp
  moreover have "\<exists>fp. fst (idem_begin cfg cd hash st (\<lambda>_. t) rq s) = Execute key fp"
    using begin_executes [OF assms(1,2)] assms(3,4) by simp
  ultimately show ?thesis by auto
qed

lemma finish_inv: "inv s \<Longrightarrow> inv (idem_finish cfg cd st now key fp failed captured s)"
  by (auto simp: idem_finish_def release_def complete_def idem_ops delete_inv set_inv Let_def split: option.splits)

lemma finish_view:
  assumes "inv s" and "0 \<le> now"
  shows "iview (idem_finish cfg cd st now key fp failed captured s) later key =
    (case stored failed captured of
       None \<Rightarrow> None
     | Some resp \<Rightarrow>
         if later < now + ic_ttl (idem_defaults cfg)
         then Some (enc cd \<lparr>ir_fingerprint = fp, ir_done = True, ir_response = Some resp, ir_created = now\<rparr>)
         else None)"
proof -
  have "0 < ic_ttl (idem_defaults cfg)" by (simp add: idem_defaults_def)
  then show ?thesis
    using delete_view [OF assms(1)] set_view [OF assms]
    by (auto simp: idem_finish_def stored_def release_def complete_def idem_ops Let_def fresh_until_def split: option.splits)
qed

lemma at_most_once:
  assumes "inv s" and "codec_ok cd" and "sorted (map event_time evs)" and "\<forall>ev \<in> set evs. arrival_ok cfg key ev"
    and "\<forall>ev \<in> set evs. 0 \<le> event_time ev \<and> lo \<le> event_time ev \<and> event_time ev < hi"
    and "hi \<le> lo + ic_lock_ttl (idem_defaults cfg)" and "hi \<le> lo + ic_ttl (idem_defaults cfg)"
    and "\<forall>later. now \<le> later \<and> later < hi \<longrightarrow> (iview s later key \<noteq> None) = held"
    and "\<forall>ev \<in> set evs. now \<le> event_time ev"
  shows "executions (fst (idem_run cfg cd hash st key evs s)) \<le> (if held then 0 else 1) + failures evs"
  using assms(1,3-)
proof (induction evs arbitrary: s now held)
  case (Cons ev evs)
  have prems: "sorted (map event_time evs)" "\<forall>ev \<in> set evs. arrival_ok cfg key ev"
    "\<forall>ev \<in> set evs. 0 \<le> event_time ev \<and> lo \<le> event_time ev \<and> event_time ev < hi"
    "\<forall>ev' \<in> set evs. event_time ev \<le> event_time ev'"
    using Cons.prems by simp_all
  show ?case
  proof (cases ev)
    case (Arrive t rq)
    obtain body where rq: "full_key rq = key" "keyed cfg rq body"
      using Cons.prems(3) Arrive by (auto simp: arrival_ok_def)
    have t: "0 \<le> t" "lo \<le> t" "t < hi" "now \<le> t" using Cons.prems(4,8) Arrive by auto
    let ?b = "idem_begin cfg cd hash st (\<lambda>_. t) rq s"
    have ou: "fst ?b = judge cd key (fingerprint hash (rq_method rq) (rq_path rq) body) (iview s t key)"
      using begin_outcome(1) [OF Cons.prems(1) rq(2)] rq(1) by simp
    have held: "(iview s t key \<noteq> None) = held" using Cons.prems(7) t by simp
    have "iview (snd ?b) later key \<noteq> None" if "t \<le> later" "later < hi" for later
      using begin_view [OF Cons.prems(1) rq(2) t(1) that(1)] rq(1) Cons.prems(5,7) t held that by auto
    then have "executions (fst (idem_run cfg cd hash st key evs (snd ?b))) \<le> (if True then 0 else 1) + failures evs"
      using prems(4) Arrive
      by (intro Cons.IH [where now = t and held = True, OF begin_outcome(2) [OF Cons.prems(1) rq(2)] prems(1-3) Cons.prems(5,6)])
         simp_all
    moreover have "(case fst ?b of Execute _ _ \<Rightarrow> (1::nat) | _ \<Rightarrow> 0) \<le> (if held then 0 else 1)"
      using held unfolding ou by (auto simp: judge_def split: option.splits)
    ultimately show ?thesis by (simp add: Arrive Let_def)
  next
    case (Finish t fp failed captured)
    have t: "0 \<le> t" "lo \<le> t" "t < hi" using Cons.prems(4) Finish by auto
    let ?s = "idem_finish cfg cd st t key fp failed captured s"
    have "(iview ?s later key \<noteq> None) = (stored failed captured \<noteq> None)" if "later < hi" for later
      using finish_view [OF Cons.prems(1) t(1)] that Cons.prems(6) t by (auto split: option.splits)
    then have "executions (fst (idem_run cfg cd hash st key evs ?s)) \<le>
        (if stored failed captured \<noteq> None then 0 else 1) + failures evs"
      using prems(4) Finish
      by (intro Cons.IH [where now = t, OF finish_inv [OF Cons.prems(1)] prems(1-3) Cons.prems(5,6)]) simp_all
    then show ?thesis by (auto simp: Finish split: if_splits)
  qed
qed simp

lemma replays:
  assumes "inv s" and "codec_ok cd" and "0 \<le> t" and "stored failed captured = Some resp"
    and "sorted (t # map event_time evs)" and "\<forall>ev \<in> set evs. event_time ev < t + ic_ttl (idem_defaults cfg)"
    and "\<forall>ev \<in> set evs. \<exists>t' rq body. ev = Arrive t' rq \<and> full_key rq = key \<and> keyed cfg rq body"
  shows "list_all2 (\<lambda>ev ou. \<forall>t' rq body. ev = Arrive t' rq \<longrightarrow> keyed cfg rq body \<longrightarrow>
      ou = (if fingerprint hash (rq_method rq) (rq_path rq) body = fp then Replay resp else KeyReused))
    evs (fst (idem_run cfg cd hash st key evs (idem_finish cfg cd st t key fp failed captured s)))"
proof -
  define hi where "hi = t + ic_ttl (idem_defaults cfg)"
  define rec where "rec = \<lparr>ir_fingerprint = fp, ir_done = True, ir_response = Some resp, ir_created = t\<rparr>"
  have view: "iview (idem_finish cfg cd st t key fp failed captured s) later key = Some (enc cd rec)"
    if "later < hi" for later
    using finish_view [OF assms(1,3)] assms(4) that by (simp add: hi_def rec_def)
  have step: "list_all2 (\<lambda>ev ou. \<forall>t' rq body. ev = Arrive t' rq \<longrightarrow> keyed cfg rq body \<longrightarrow>
      ou = (if fingerprint hash (rq_method rq) (rq_path rq) body = fp then Replay resp else KeyReused))
    evs (fst (idem_run cfg cd hash st key evs s'))"
    if "inv s'" "\<forall>later. now \<le> later \<and> later < hi \<longrightarrow> iview s' later key = Some (enc cd rec)" "0 \<le> now"
      "sorted (now # map event_time evs)" "\<forall>ev \<in> set evs. event_time ev < hi"
      "\<forall>ev \<in> set evs. \<exists>t' rq body. ev = Arrive t' rq \<and> full_key rq = key \<and> keyed cfg rq body"
    for s' now evs
    using that
  proof (induction evs arbitrary: s' now)
    case (Cons ev evs)
    then obtain t' rq body where ev: "ev = Arrive t' rq" "full_key rq = key" "keyed cfg rq body" by auto
    have t': "now \<le> t'" "0 \<le> t'" "t' < hi" using Cons.prems ev by auto
    let ?b = "idem_begin cfg cd hash st (\<lambda>_. t') rq s'"
    have v: "iview s' t' key = Some (enc cd rec)" using Cons.prems(2) t' by simp
    have ou: "fst ?b = (if fingerprint hash (rq_method rq) (rq_path rq) body' = fp then Replay resp else KeyReused)"
      if "keyed cfg rq body'" for body'
      using begin_outcome(1) [OF Cons.prems(1) that, of cd hash t'] assms(2) v ev(2)
      by (simp add: judge_def codec_ok_def rec_def)
    have "\<forall>later. t' \<le> later \<and> later < hi \<longrightarrow> iview (snd ?b) later key = Some (enc cd rec)"
      using begin_view [OF Cons.prems(1) ev(3) t'(2)] ev(2) v Cons.prems(2) t'(1) by simp
    from Cons.IH [OF begin_outcome(2) [OF Cons.prems(1) ev(3)] this t'(2)] Cons.prems ev(1)
    show ?case by (auto simp: ev(1) Let_def ou)
  qed simp
  show ?thesis
    by (rule step [OF finish_inv [OF assms(1)] _ assms(3) assms(5) _ assms(7)])
       (use view assms(6) in \<open>auto simp: hi_def\<close>)
qed

lemma retry_after_failure:
  assumes "inv s" and "0 \<le> t" and "stored failed captured = None" and "keyed cfg rq body" and "full_key rq = key"
  shows "fst (idem_begin cfg cd hash st (\<lambda>_. later) rq (idem_finish cfg cd st t key fp failed captured s)) =
    Execute key (fingerprint hash (rq_method rq) (rq_path rq) body)"
  using begin_outcome(1) [OF finish_inv [OF assms(1)] assms(4)] finish_view [OF assms(1,2)] assms(3,5)
  by (simp add: judge_def)

end

section \<open>A codec\<close>

definition e_record :: "idem_record encoder" where
  "e_record r = e_pair e_string (e_pair e_bool (e_pair
     (e_option (e_pair e_nat (e_pair (e_list (e_pair e_string (e_list e_string))) e_string))) e_int))
     (ir_fingerprint r, ir_done r,
      map_option (\<lambda>p. (resp_status p, resp_header p, resp_body p)) (ir_response r), ir_created r)"

definition d_record :: "bytes \<Rightarrow> idem_record option" where
  "d_record b = (case fst (d_pair d_string (d_pair d_bool (d_pair
     (d_option (d_pair d_nat (d_pair (d_list (d_pair d_string (d_list d_string))) d_string))) d_int)) b) of
     (f, dn, p, c) \<Rightarrow> Some \<lparr>ir_fingerprint = f, ir_done = dn,
       ir_response = map_option (\<lambda>(st, h, b). \<lparr>resp_status = st, resp_header = h, resp_body = b\<rparr>) p, ir_created = c\<rparr>)"

definition sample_codec :: codec where
  "sample_codec = \<lparr>enc = e_record, dec = d_record\<rparr>"

lemma sample_codec_ok: "codec_ok sample_codec"
proof -
  have "inverts (e_pair e_string (e_pair e_bool (e_pair
     (e_option (e_pair e_nat (e_pair (e_list (e_pair e_string (e_list e_string))) e_string))) e_int)))
    (d_pair d_string (d_pair d_bool (d_pair
     (d_option (d_pair d_nat (d_pair (d_list (d_pair d_string (d_list d_string))) d_string))) d_int)))"
    by (intro inverts_intros)
  note i = invertsD [OF this]
  have "d_record (e_record r) = Some r" for r
    unfolding d_record_def e_record_def i by (cases "ir_response r") simp_all
  then show ?thesis by (simp add: codec_ok_def sample_codec_def)
qed

section \<open>Properties, on the in-memory store\<close>

lemma idem_pfx_Nil: "idem_pfx = ''torge:idempotency:''"
  by (rule idem_pfx_def)

text \<open>C8: At most once within the lock time. Take the requests of one key that has no record at the start, and any interleaving of
  their arrivals and completions whose instants all lie in a window shorter than \<open>LockTTL\<close> and \<open>TTL\<close>. The first
  request runs the handler, and the handler runs at most once plus once for every execution that failed (returned an
  error, answered 500 or more, or produced a response that cannot be stored); all the other requests are answered
  without running it. Beyond the window nothing is claimed: a handler that outlives \<open>LockTTL\<close> is joined by a second
  one (\<open>lock_expiry_runs_twice\<close>).\<close>

theorem idempotency_at_most_once:
  assumes "codec_ok cd" and "cache_inv m" and "\<forall>later. mem_view m later (idem_pfx @ key) = None"
    and "\<forall>ev \<in> set evs. arrival_ok cfg key ev" and "sorted (map event_time evs)"
    and "\<forall>ev \<in> set evs. 0 \<le> event_time ev \<and> lo \<le> event_time ev \<and>
      event_time ev < lo + min (ic_lock_ttl (idem_defaults cfg)) (ic_ttl (idem_defaults cfg))"
  shows "executions (fst (idem_run cfg cd hash memory_store key evs m)) \<le> 1 + failures evs \<and>
    (\<forall>t rq evs'. evs = Arrive t rq # evs' \<longrightarrow>
       (\<exists>fp. hd (fst (idem_run cfg cd hash memory_store key evs m)) = Execute key fp))"
proof (cases evs)
  case (Cons ev evs')
  then have "\<forall>e \<in> set evs. event_time ev \<le> event_time e" using assms(5) by auto
  then have "executions (fst (idem_run cfg cd hash memory_store key evs m)) \<le> 1 + failures evs"
    using mem.at_most_once [OF assms(2,1,5,4,6), of "event_time ev" False hash] assms(3) by simp
  moreover have "\<exists>fp. hd (fst (idem_run cfg cd hash memory_store key evs m)) = Execute key fp"
    if e: "evs = Arrive t rq # rest" for t rq rest
  proof -
    obtain body where rq: "full_key rq = key" "keyed cfg rq body" using assms(4) e by (auto simp: arrival_ok_def)
    have "\<exists>fp. fst (idem_begin cfg cd hash memory_store (\<lambda>_. t) rq m) = Execute (full_key rq) fp"
      by (rule mem.begin_executes [OF assms(2) rq(2)]) (use assms(3) rq(1) in simp)
    then show ?thesis using e rq(1) by (simp add: Let_def)
  qed
  ultimately show ?thesis by blast
qed simp

text \<open>Replay: once an execution has succeeded with a response, every later request with the key
  within the replay time gets exactly that response if it is the same request (method, path and
  body), and is refused as a reused key if its fingerprint differs; none runs the handler.\<close>

lemma idempotency_replays:
  assumes "codec_ok cd" and "cache_inv m" and "0 \<le> t" and "stored failed captured = Some resp"
    and "sorted (t # map event_time evs)" and "\<forall>ev \<in> set evs. event_time ev < t + ic_ttl (idem_defaults cfg)"
    and "\<forall>ev \<in> set evs. \<exists>t' rq body. ev = Arrive t' rq \<and> full_key rq = key \<and> keyed cfg rq body"
  shows "list_all2 (\<lambda>ev ou. \<forall>t' rq body. ev = Arrive t' rq \<longrightarrow> keyed cfg rq body \<longrightarrow>
      ou = (if fingerprint hash (rq_method rq) (rq_path rq) body = fp then Replay resp else KeyReused))
    evs (fst (idem_run cfg cd hash memory_store key evs (idem_finish cfg cd memory_store t key fp failed captured m)))"
  using mem.replays [OF assms(2,1,3-7)] .

text \<open>Failures release the key: after an execution that returned an error, answered with a
  status of 500 or more, or whose response could not be captured, the next request with the key runs
  the handler again.\<close>

lemma idempotency_failure_releases:
  assumes "cache_inv m" and "0 \<le> t" and "stored failed captured = None"
    and "keyed cfg rq body" and "full_key rq = key"
  shows "fst (idem_begin cfg cd hash memory_store (\<lambda>_. later) rq
      (idem_finish cfg cd memory_store t key fp failed captured m)) =
    Execute key (fingerprint hash (rq_method rq) (rq_path rq) body)"
  using assms by (rule mem.retry_after_failure)

definition sample_idem_config :: idem_config where
  "sample_idem_config = \<lparr>ic_methods = None, ic_required = False, ic_ttl = 0, ic_lock_ttl = 0,
     ic_max_body = 0, ic_max_response = 0\<rparr>"

definition sample_request :: idem_request where
  "sample_request = \<lparr>rq_method = ''POST'', rq_path = ''/pay'', rq_key = ''k1'', rq_scope = ''user:7'',
     rq_body = Some (Inr ''{}'')\<rparr>"

lemma sample_request_keyed: "keyed sample_idem_config sample_request ''{}''"
  by (simp add: keyed_def sample_idem_config_def sample_request_def idem_defaults_def read_body_def i64_def)

lemma sample_request_key: "full_key sample_request = ''user:7:k1''"
  by (simp add: full_key_def sample_request_def)

lemma new_cache_view: "mem_view (new_mem_cache n) later k = None"
  by (simp add: mem_view_def new_mem_cache_def entries_def find_entry_def)

theorem idempotency_at_most_once_witness:
  "executions (fst (idem_run sample_idem_config sample_codec id memory_store ''user:7:k1''
     [Arrive 1 sample_request, Arrive 2 sample_request, Finish 3 ''f'' True None, Arrive 4 sample_request]
     (new_mem_cache 5))) \<le> 2"
proof -
  let ?evs = "[Arrive 1 sample_request, Arrive 2 sample_request, Finish 3 ''f'' True None, Arrive 4 sample_request]"
  have "\<forall>ev \<in> set ?evs. arrival_ok sample_idem_config ''user:7:k1'' ev"
    using sample_request_keyed by (auto simp: arrival_ok_def sample_request_key)
  moreover have "\<forall>ev \<in> set ?evs. 0 \<le> event_time ev \<and> 1 \<le> event_time ev \<and> event_time ev < 1 +
      min (ic_lock_ttl (idem_defaults sample_idem_config)) (ic_ttl (idem_defaults sample_idem_config))"
    by (simp add: sample_idem_config_def idem_defaults_def)
  moreover have "failures ?evs = 1" by (simp add: stored_def)
  ultimately show ?thesis
    using idempotency_at_most_once [OF sample_codec_ok new_cache_inv, of 5 "''user:7:k1''" ?evs sample_idem_config 1 id]
    by (simp add: new_cache_view)
qed

definition sample_response :: response where
  "sample_response = \<lparr>resp_status = 201, resp_header = [], resp_body = ''ok''\<rparr>"

lemma idempotency_replays_witness:
  "fst (idem_run sample_idem_config sample_codec id memory_store ''user:7:k1'' [Arrive 9 sample_request]
     (idem_finish sample_idem_config sample_codec memory_store 3 ''user:7:k1''
       (fingerprint id ''POST'' ''/pay'' ''{}'') False (Some sample_response) (new_mem_cache 5))) = [Replay sample_response]"
proof -
  have s: "stored False (Some sample_response) = Some sample_response"
    by (simp add: stored_def sample_response_def)
  have "\<forall>ev \<in> set [Arrive 9 sample_request]. event_time ev < 3 + ic_ttl (idem_defaults sample_idem_config)"
    by (simp add: sample_idem_config_def idem_defaults_def)
  from idempotency_replays [OF sample_codec_ok new_cache_inv _ s _ this, of "''user:7:k1''" id "fingerprint id ''POST'' ''/pay'' ''{}''" 5]
  obtain z where z: "fst (idem_run sample_idem_config sample_codec id memory_store ''user:7:k1'' [Arrive 9 sample_request]
     (idem_finish sample_idem_config sample_codec memory_store 3 ''user:7:k1''
       (fingerprint id ''POST'' ''/pay'' ''{}'') False (Some sample_response) (new_mem_cache 5))) = [z]"
    "\<forall>t' rq body. Arrive 9 sample_request = Arrive t' rq \<longrightarrow> keyed sample_idem_config rq body \<longrightarrow>
      z = (if fingerprint id (rq_method rq) (rq_path rq) body = fingerprint id ''POST'' ''/pay'' ''{}''
           then Replay sample_response else KeyReused)"
    using sample_request_keyed sample_request_key unfolding list_all2_Cons1 by auto
  have "z = Replay sample_response"
    using z(2) sample_request_keyed by (auto simp: sample_request_def)
  with z(1) show ?thesis by simp
qed

lemma idempotency_failure_releases_witness:
  "fst (idem_begin sample_idem_config sample_codec id memory_store (\<lambda>_. 4) sample_request
      (idem_finish sample_idem_config sample_codec memory_store 3 ''user:7:k1'' ''f'' True None (new_mem_cache 5))) =
    Execute ''user:7:k1'' (fingerprint id ''POST'' ''/pay'' ''{}'')"
  using idempotency_failure_releases [OF new_cache_inv, of 3 True None sample_idem_config sample_request "''{}''"
      "''user:7:k1''" sample_codec id 4 "''f''" 5] sample_request_keyed sample_request_key
  by (simp add: stored_def sample_request_def)

end
