(* ===== verification/Jobs.thy ===== *)
theory Jobs
  imports Prelude "HOL-Library.Multiset"
begin

text \<open>
  Background jobs: \<open>jobs/jobs.go\<close> (the manager: registration, dispatch, the decision after an
  attempt, backoff) and \<open>jobs/memory.go\<close> (the in-process queue).

  \<^item> A queue backend is a record of its methods (\<open>queue_ops\<close>), as the Go interfaces \<open>Queue\<close>
    and \<open>Delivery\<close> are; the manager's definitions take it as an argument. The locale
    \<open>job_queue\<close> states what the manager needs of a backend, theory-independent of how it
    stores jobs, and is interpreted for the in-process queue.
  \<^item> The channel of the in-process queue is the list \<open>mq_ready\<close> with capacity \<open>mq_cap\<close>; the
    goroutines blocked in a send are \<open>mq_senders\<close>, with who they are, served first come first served when a
    receive makes room; pending timers are \<open>mq_timers\<close>.
  \<^item> Handlers are arguments: what running one on a job returns, or that it panicked.
    Identifiers, the clock and \<open>rand.Int64N\<close> are arguments too.
\<close>

section \<open>Jobs and handlers\<close>

record job =
  jb_id :: string
  jb_name :: string
  jb_payload :: bytes
  jb_attempt :: int
  jb_max :: int
  jb_enqueued :: time
  jb_meta :: "(string \<times> string) list"

datatype job_error = JobError string | PermanentError string

datatype handler_run = Returned "job_error option" | Panicked string

type_synonym handler = "job \<Rightarrow> handler_run"

definition permanent :: "job_error option \<Rightarrow> job_error option" where
  "permanent e = (case e of None \<Rightarrow> None | Some (JobError m) \<Rightarrow> Some (PermanentError m) | Some p \<Rightarrow> Some p)"

definition is_permanent :: "job_error \<Rightarrow> bool" where
  "is_permanent e = (case e of PermanentError _ \<Rightarrow> True | JobError _ \<Rightarrow> False)"

text \<open>\<open>Typed\<close>: \<open>decode\<close> is JSON decoding into the payload type, \<open>zero\<close> its zero value.\<close>

definition typed_handler :: "'p \<Rightarrow> (bytes \<Rightarrow> (string, 'p) result) \<Rightarrow> ('p \<Rightarrow> handler_run) \<Rightarrow> handler" where
  "typed_handler zero decode fn j =
     (if jb_payload j = [] then fn zero
      else case decode (jb_payload j) of
             Inl m \<Rightarrow> Returned (permanent (Some (JobError m)))
           | Inr p \<Rightarrow> fn p)"

definition safe_handle :: "handler \<Rightarrow> job \<Rightarrow> job_error option" where
  "safe_handle h j = (case h j of Returned e \<Rightarrow> e | Panicked m \<Rightarrow> Some (JobError m))"

definition wrap_handler :: "(handler \<Rightarrow> handler) list \<Rightarrow> handler \<Rightarrow> handler" where
  "wrap_handler mws h = foldr (\<lambda>m acc. m acc) mws h"

section \<open>The manager\<close>

record registration =
  rg_handler :: handler
  rg_max :: int
  rg_timeout :: duration

record manager_options =
  mo_workers :: int
  mo_max_attempts :: int
  mo_timeout :: duration
  mo_middleware :: "(handler \<Rightarrow> handler) list"

definition manager_defaults :: "int \<Rightarrow> manager_options \<Rightarrow> manager_options" where
  "manager_defaults procs opts =
     opts\<lparr>mo_workers := (if mo_workers opts = 0 then procs else mo_workers opts),
          mo_max_attempts := (if mo_max_attempts opts \<le> 0 then 3 else mo_max_attempts opts),
          mo_timeout := (if mo_timeout opts \<le> 0 then 300000000000 else mo_timeout opts)\<rparr>"

record manager =
  mg_opts :: manager_options
  mg_handlers :: "string \<Rightarrow> registration option"
  mg_running :: bool

datatype register_error = MissingNameOrHandler | WhileRunning | AlreadyRegistered

text \<open>\<open>Register\<close> with the options \<open>MaxAttempts\<close> and \<open>Timeout\<close>, each given or not.\<close>

definition register ::
  "string \<Rightarrow> handler option \<Rightarrow> int option \<Rightarrow> duration option \<Rightarrow> manager \<Rightarrow> (register_error, manager) result" where
  "register name h max_opt timeout_opt m =
     (case h of
        None \<Rightarrow> Inl MissingNameOrHandler
      | Some fn \<Rightarrow>
          if name = [] then Inl MissingNameOrHandler
          else if mg_running m then Inl WhileRunning
          else if mg_handlers m name \<noteq> None then Inl AlreadyRegistered
          else Inr (m\<lparr>mg_handlers := (mg_handlers m)(name \<mapsto>
            \<lparr>rg_handler = fn,
             rg_max = (case max_opt of Some n \<Rightarrow> n | None \<Rightarrow> mo_max_attempts (mg_opts m)),
             rg_timeout = (case timeout_opt of Some t \<Rightarrow> t | None \<Rightarrow> mo_timeout (mg_opts m))\<rparr>)\<rparr>))"

section \<open>Backoff\<close>

text \<open>The loop doubles at most \<open>attempt - 1\<close> times, while below the maximum.\<close>

primrec backoff_double :: "nat \<Rightarrow> duration \<Rightarrow> duration \<Rightarrow> duration" where
  "backoff_double 0 mx d = d"
| "backoff_double (Suc n) mx d = (if d < mx then backoff_double n mx (i64 (d * 2)) else d)"

text \<open>\<open>rand.Int64N\<close> panics unless its argument is positive.\<close>

definition exponential_backoff :: "(int \<Rightarrow> int) \<Rightarrow> duration \<Rightarrow> duration \<Rightarrow> int \<Rightarrow> duration option" where
  "exponential_backoff rand base mx attempt =
     (let d = min (backoff_double (nat (attempt - 1)) mx base) mx;
          n = i64 (go_div d 5 + 1)
      in if n \<le> 0 then None else Some (i64 (d + rand n)))"

section \<open>Queue backends\<close>

text \<open>What became of an \<open>Enqueue\<close>: stored, refused since the queue is closed or the caller's context is done, or still blocked.\<close>

datatype enqueue_result = Enqueued | QueueClosed | Cancelled | Blocked

definition refused :: "enqueue_result \<Rightarrow> bool" where
  "refused res \<longleftrightarrow> res = QueueClosed \<or> res = Cancelled"

text \<open>The flag of \<open>qo_enqueue\<close>: the caller's context is done and the call, where it would wait for the channel, gives up.\<close>

record 'q queue_ops =
  qo_enqueue :: "bool \<Rightarrow> time \<Rightarrow> job \<Rightarrow> duration \<Rightarrow> 'q \<Rightarrow> enqueue_result \<times> 'q"
  qo_receive :: "'q \<Rightarrow> (job \<times> 'q) option"
  qo_retry :: "time \<Rightarrow> job \<Rightarrow> duration \<Rightarrow> 'q \<Rightarrow> enqueue_result \<times> 'q"
  qo_reject :: "job \<Rightarrow> 'q \<Rightarrow> 'q"

section \<open>Dispatch and processing\<close>

datatype dispatch_result = Dispatched enqueue_result | UnknownJob | PayloadError

record dispatch_opts =
  do_id :: "string option"
  do_delay :: duration

definition add_meta :: "string \<Rightarrow> string \<Rightarrow> job \<Rightarrow> job" where
  "add_meta k v j = j\<lparr>jb_meta := AList.update k v (jb_meta j)\<rparr>"

definition dispatch_job ::
  "manager \<Rightarrow> time \<Rightarrow> string \<Rightarrow> string \<Rightarrow> string \<Rightarrow> string \<Rightarrow> bytes \<Rightarrow> dispatch_opts \<Rightarrow> job" where
  "dispatch_job m now new_id request_id trace_id name raw d =
     (let j0 = \<lparr>jb_id = new_id, jb_name = name, jb_payload = raw, jb_attempt = 1,
               jb_max = (case mg_handlers m name of Some r \<Rightarrow> rg_max r | None \<Rightarrow> 0),
               jb_enqueued = now, jb_meta = []\<rparr>;
          j1 = (if request_id \<noteq> [] then add_meta ''request_id'' request_id j0 else j0);
          j2 = (if trace_id \<noteq> [] then add_meta ''trace_id'' trace_id j1 else j1)
      in (case do_id d of Some i \<Rightarrow> j2\<lparr>jb_id := i\<rparr> | None \<Rightarrow> j2))"

text \<open>\<open>payload\<close> is the encoded payload, or \<open>None\<close> when encoding it failed; \<open>strict\<close> tells
  whether any handler is registered.\<close>

definition dispatch ::
  "'q queue_ops \<Rightarrow> bool \<Rightarrow> bool \<Rightarrow> manager \<Rightarrow> time \<Rightarrow> string \<Rightarrow> string \<Rightarrow> string \<Rightarrow> string \<Rightarrow> bytes option \<Rightarrow> dispatch_opts \<Rightarrow> 'q \<Rightarrow>
     dispatch_result \<times> 'q" where
  "dispatch ops strict gone m now new_id request_id trace_id name payload d q =
     (if strict \<and> mg_handlers m name = None then (UnknownJob, q)
      else case payload of
        None \<Rightarrow> (PayloadError, q)
      | Some raw \<Rightarrow>
          (case qo_enqueue ops gone now (dispatch_job m now new_id request_id trace_id name raw d) (do_delay d) q of
             (res, q') \<Rightarrow> (Dispatched res, q')))"

text \<open>What is done with a delivery: acknowledged, retried after a delay, or rejected; and whether
  the \<open>OnFailure\<close> hook is called.\<close>

datatype verdict = Ack | Retry duration | Reject bool

definition decide :: "(int \<Rightarrow> duration) \<Rightarrow> manager \<Rightarrow> job \<Rightarrow> verdict" where
  "decide backoff m j =
     (case mg_handlers m (jb_name j) of
        None \<Rightarrow> Reject False
      | Some r \<Rightarrow>
          (case safe_handle (wrap_handler (mo_middleware (mg_opts m)) (rg_handler r)) j of
             None \<Rightarrow> Ack
           | Some e \<Rightarrow>
               (let max_attempts = (if jb_max j \<le> 0 then rg_max r else jb_max j)
                in if \<not> is_permanent e \<and> jb_attempt j < max_attempts then Retry (backoff (jb_attempt j))
                   else Reject True)))"

definition process ::
  "'q queue_ops \<Rightarrow> (int \<Rightarrow> duration) \<Rightarrow> manager \<Rightarrow> time \<Rightarrow> job \<Rightarrow> 'q \<Rightarrow> verdict \<times> 'q" where
  "process ops backoff m now j q =
     (let v = decide backoff m j
      in (v, case v of
               Ack \<Rightarrow> q
             | Retry d \<Rightarrow> snd (qo_retry ops now j d q)
             | Reject _ \<Rightarrow> qo_reject ops j q))"

section \<open>The in-process queue\<close>

text \<open>Who sends: a caller of \<open>Enqueue\<close>, the function of a timer, or a worker that retries (whose context is never done).\<close>

datatype sender = Caller | TimerFunc | Worker

record memory_queue =
  mq_cap :: nat
  mq_ready :: "job list"
  mq_senders :: "(sender \<times> job) list"
  mq_timers :: "(time \<times> job) list"
  mq_closed :: bool
  mq_failed :: "job list"

definition new_memory_queue :: "int \<Rightarrow> memory_queue" where
  "new_memory_queue cap =
     \<lparr>mq_cap = (if cap \<le> 0 then 1024 else nat cap), mq_ready = [], mq_senders = [], mq_timers = [],
      mq_closed = False, mq_failed = []\<rparr>"

text \<open>Sending to the channel: into the buffer, or blocked.\<close>

definition mq_send :: "sender \<Rightarrow> job \<Rightarrow> memory_queue \<Rightarrow> enqueue_result \<times> memory_queue" where
  "mq_send w j q =
     (if length (mq_ready q) < mq_cap q then (Enqueued, q\<lparr>mq_ready := mq_ready q @ [j]\<rparr>)
      else (Blocked, q\<lparr>mq_senders := mq_senders q @ [(w, j)]\<rparr>))"

text \<open>\<open>gone\<close>: the \<open>select\<close> takes the branch of the context, which it may as soon as the context is done.\<close>

definition mq_enqueue :: "sender \<Rightarrow> bool \<Rightarrow> time \<Rightarrow> job \<Rightarrow> duration \<Rightarrow> memory_queue \<Rightarrow> enqueue_result \<times> memory_queue" where
  "mq_enqueue w gone now j delay q =
     (if mq_closed q then (QueueClosed, q)
      else if delay > 0 then (Enqueued, q\<lparr>mq_timers := mq_timers q @ [(now + delay, j)]\<rparr>)
      else if gone then (Cancelled, q)
      else mq_send w j q)"

text \<open>The timers that are due run their functions.\<close>

definition mq_fire :: "time \<Rightarrow> memory_queue \<Rightarrow> memory_queue" where
  "mq_fire now q =
     (if mq_closed q then q
      else foldl (\<lambda>q (t, j). snd (mq_send TimerFunc j q))
             (q\<lparr>mq_timers := filter (\<lambda>(t, j). \<not> t \<le> now) (mq_timers q)\<rparr>)
             (filter (\<lambda>(t, j). t \<le> now) (mq_timers q)))"

definition mq_receive :: "memory_queue \<Rightarrow> (job \<times> memory_queue) option" where
  "mq_receive q =
     (case mq_ready q of
        [] \<Rightarrow> None
      | j # js \<Rightarrow>
          Some (j, case mq_senders q of
                     [] \<Rightarrow> q\<lparr>mq_ready := js\<rparr>
                   | (w, s) # ss \<Rightarrow> q\<lparr>mq_ready := js @ [s], mq_senders := ss\<rparr>))"

definition mq_retry :: "time \<Rightarrow> job \<Rightarrow> duration \<Rightarrow> memory_queue \<Rightarrow> enqueue_result \<times> memory_queue" where
  "mq_retry now j delay q = mq_enqueue Worker False now (j\<lparr>jb_attempt := jb_attempt j + 1\<rparr>) delay q"

definition mq_reject :: "job \<Rightarrow> memory_queue \<Rightarrow> memory_queue" where
  "mq_reject j q = q\<lparr>mq_failed := mq_failed q @ [j]\<rparr>"

text \<open>A blocked caller whose context is done returns, and its job is not sent.\<close>

definition mq_cancel :: "job \<Rightarrow> memory_queue \<Rightarrow> memory_queue option" where
  "mq_cancel j q =
     (if (Caller, j) \<in> set (mq_senders q) then Some (q\<lparr>mq_senders := remove1 (Caller, j) (mq_senders q)\<rparr>) else None)"

text \<open>\<open>Close\<close> stops the timers, and every blocked sender returns: a caller with an error, a timer's function and a worker's
  retry without one. What is in the buffer can still be received.\<close>

definition mq_close :: "memory_queue \<Rightarrow> memory_queue" where
  "mq_close q = (if mq_closed q then q else q\<lparr>mq_closed := True, mq_timers := [], mq_senders := []\<rparr>)"

definition memory_queue_ops :: "memory_queue queue_ops" where
  "memory_queue_ops =
     \<lparr>qo_enqueue = mq_enqueue Caller, qo_receive = mq_receive, qo_retry = mq_retry, qo_reject = mq_reject\<rparr>"

section \<open>Backoff stays within its bounds\<close>

lemma backoff_double_eq:
  assumes "0 < d" and "mx \<le> 4611686018427387904"
  shows "min (backoff_double n mx d) mx = min (d * 2 ^ n) mx"
  using assms(1)
proof (induction n arbitrary: d)
  case (Suc n)
  show ?case
  proof (cases "d < mx")
    case True
    then have "i64 (d * 2) = d * 2"
      using Suc.prems assms(2) by (intro i64_id) (simp add: i64_bounds_defs)
    with True Suc show ?thesis by (simp add: mult.assoc)
  next
    case False
    have "(1::int) \<le> 2 ^ Suc n" by (rule one_le_power) simp
    then have "d * 1 \<le> d * 2 ^ Suc n" using Suc.prems by (intro mult_left_mono) simp_all
    with False show ?thesis by simp
  qed
qed simp

text \<open>The delay before retry number \<open>attempt\<close> exists (nothing panics or overflows) and lies between
  the capped doubling \<open>min (base * 2 ^ (attempt - 1)) max\<close> and a fifth more, for any base and
  maximum below about 146 years and whatever the random source returns.\<close>

lemma backoff_bounds:
  assumes "0 < base" and "0 < mx" and "mx \<le> 4611686018427387904" and "1 \<le> attempt"
    and "\<forall>n. 0 < n \<longrightarrow> 0 \<le> rand n \<and> rand n < n"
  shows "\<exists>d. exponential_backoff rand base mx attempt = Some d \<and>
    min (base * 2 ^ nat (attempt - 1)) mx \<le> d \<and>
    d \<le> min (base * 2 ^ nat (attempt - 1)) mx + min (base * 2 ^ nat (attempt - 1)) mx div 5"
proof -
  define d where "d = min (base * 2 ^ nat (attempt - 1)) mx"
  have d: "0 < d" "d \<le> 4611686018427387904" using assms(1-3) by (simp_all add: d_def)
  have eq: "min (backoff_double (nat (attempt - 1)) mx base) mx = d"
    unfolding d_def using assms(1,3) by (rule backoff_double_eq)
  have q: "0 \<le> d div 5" "d div 5 \<le> d" using d int_div_less_self [of d 5] by simp_all
  have n: "i64 (go_div d 5 + 1) = d div 5 + 1"
    using d q by (simp add: go_div_pos i64_id i64_bounds_defs)
  have r: "0 \<le> rand (d div 5 + 1)" "rand (d div 5 + 1) \<le> d div 5"
    using assms(5) q(1) by (metis add.commute add_strict_increasing zero_less_one zle_add1_eq_le)+
  have "i64 (d + rand (d div 5 + 1)) = d + rand (d div 5 + 1)"
    using d q r by (intro i64_id) (simp add: i64_bounds_defs)
  with n r q(1) show ?thesis
    by (simp add: exponential_backoff_def Let_def eq d_def [symmetric])
qed

lemma backoff_bounds_witness:
  "exponential_backoff (\<lambda>n. n - 1) 1000000000 300000000000 4 = Some 9600000000 \<and>
   (\<exists>d. exponential_backoff (\<lambda>n. n - 1) 1000000000 300000000000 4 = Some d \<and> 8000000000 \<le> d \<and> d \<le> 9600000000)"
proof -
  have "exponential_backoff (\<lambda>n. n - 1) 1000000000 300000000000 4 = Some 9600000000"
    by code_simp
  moreover have "nat (4 - 1) = (3::nat)" by simp
  ultimately show ?thesis
    using backoff_bounds [of 1000000000 300000000000 4 "\<lambda>n. n - 1"] by simp
qed

section \<open>The contract of a queue and the jobs of a running system\<close>

text \<open>
  What happens to a queue beside the calls of the manager: time passes, the context of a blocked caller is done, the queue is
  closed; the jobs of blocked callers; and those that closing drops without an error for anybody.
\<close>

record 'q queue_env =
  qe_tick :: "time \<Rightarrow> 'q \<Rightarrow> 'q"
  qe_cancel :: "job \<Rightarrow> 'q \<Rightarrow> 'q option"
  qe_close :: "'q \<Rightarrow> 'q"
  qe_callers :: "'q \<Rightarrow> job multiset"
  qe_dropped :: "'q \<Rightarrow> job multiset"

text \<open>\<open>pending\<close> are the jobs a queue will still deliver, \<open>dead\<close> the ones it was told are failed.\<close>

locale job_queue =
  fixes ops :: "'q queue_ops" and env :: "'q queue_env"
    and inv :: "'q \<Rightarrow> bool" and closed :: "'q \<Rightarrow> bool" and pending :: "'q \<Rightarrow> job multiset" and dead :: "'q \<Rightarrow> job multiset"
  assumes enqueue_law: "inv q \<Longrightarrow> qo_enqueue ops gone now j d q = (res, q') \<Longrightarrow>
      inv q' \<and> pending q' = (if refused res then pending q else add_mset j (pending q)) \<and> dead q' = dead q \<and> closed q' = closed q"
    and receive_law: "inv q \<Longrightarrow> qo_receive ops q = Some (j, q') \<Longrightarrow>
      inv q' \<and> pending q = add_mset j (pending q') \<and> dead q' = dead q \<and> closed q' = closed q"
    and retry_law: "inv q \<Longrightarrow> qo_retry ops now j d q = (res, q') \<Longrightarrow>
      inv q' \<and> pending q' = (if refused res then pending q else add_mset (j\<lparr>jb_attempt := jb_attempt j + 1\<rparr>) (pending q)) \<and>
      dead q' = dead q \<and> closed q' = closed q \<and> (refused res \<longrightarrow> closed q)"
    and reject_law: "inv q \<Longrightarrow> inv (qo_reject ops j q) \<and> pending (qo_reject ops j q) = pending q \<and>
      dead (qo_reject ops j q) = add_mset j (dead q) \<and> closed (qo_reject ops j q) = closed q"
    and tick_law: "inv q \<Longrightarrow> inv (qe_tick env now q) \<and> pending (qe_tick env now q) = pending q \<and>
      dead (qe_tick env now q) = dead q \<and> closed (qe_tick env now q) = closed q"
    and cancel_law: "inv q \<Longrightarrow> qe_cancel env j q = Some q' \<Longrightarrow>
      inv q' \<and> pending q = add_mset j (pending q') \<and> dead q' = dead q \<and> closed q' = closed q"
    and close_law: "inv q \<Longrightarrow> inv (qe_close env q) \<and> pending q = pending (qe_close env q) + qe_callers env q + qe_dropped env q \<and>
      dead (qe_close env q) = dead q \<and> closed (qe_close env q)"

text \<open>
  A running system: the queue, the jobs in the hands of workers, those done, those whose dispatch returned an error, and those
  dropped; every job that was handed to the queue; and the attempts that ran.
\<close>

record 'q job_system =
  js_queue :: 'q
  js_inflight :: "job multiset"
  js_done :: "job multiset"
  js_refused :: "job multiset"
  js_dropped :: "job multiset"
  js_sent :: "job list"
  js_log :: "(string \<times> int) list"

definition new_system :: "'q \<Rightarrow> 'q job_system" where
  "new_system q =
     \<lparr>js_queue = q, js_inflight = {#}, js_done = {#}, js_refused = {#}, js_dropped = {#}, js_sent = [], js_log = []\<rparr>"

text \<open>The job that a retry could not store: the worker only logs the error.\<close>

definition retry_lost :: "'q queue_ops \<Rightarrow> time \<Rightarrow> verdict \<Rightarrow> job \<Rightarrow> 'q \<Rightarrow> job multiset" where
  "retry_lost ops now v j q = (case v of Retry d \<Rightarrow> if refused (fst (qo_retry ops now j d q)) then {#j#} else {#} | _ \<Rightarrow> {#})"

inductive job_step ::
  "'q queue_ops \<Rightarrow> 'q queue_env \<Rightarrow> (int \<Rightarrow> duration) \<Rightarrow> manager \<Rightarrow> 'q job_system \<Rightarrow> 'q job_system \<Rightarrow> bool"
  for ops env backoff m where
  step_dispatch: "dispatch ops strict gone m now new_id rid tid name (Some raw) d (js_queue s) = (Dispatched res, q') \<Longrightarrow>
    j = dispatch_job m now new_id rid tid name raw d \<Longrightarrow> jb_id j \<notin> jb_id ` set (js_sent s) \<Longrightarrow>
    job_step ops env backoff m s
      (s\<lparr>js_queue := q', js_sent := js_sent s @ [j], js_refused := js_refused s + (if refused res then {#j#} else {#})\<rparr>)"
| step_give_up: "qe_cancel env j (js_queue s) = Some q' \<Longrightarrow>
    job_step ops env backoff m s (s\<lparr>js_queue := q', js_refused := add_mset j (js_refused s)\<rparr>)"
| step_receive: "qo_receive ops (js_queue s) = Some (j, q') \<Longrightarrow>
    job_step ops env backoff m s (s\<lparr>js_queue := q', js_inflight := add_mset j (js_inflight s)\<rparr>)"
| step_process: "j \<in># js_inflight s \<Longrightarrow> process ops backoff m now j (js_queue s) = (v, q') \<Longrightarrow>
    job_step ops env backoff m s
      (s\<lparr>js_queue := q', js_inflight := js_inflight s - {#j#},
         js_done := (if v = Ack then add_mset j (js_done s) else js_done s),
         js_dropped := js_dropped s + retry_lost ops now v j (js_queue s),
         js_log := (if mg_handlers m (jb_name j) = None then js_log s else js_log s @ [(jb_id j, jb_attempt j)])\<rparr>)"
| step_tick: "job_step ops env backoff m s (s\<lparr>js_queue := qe_tick env now (js_queue s)\<rparr>)"
| step_close: "job_step ops env backoff m s
    (s\<lparr>js_queue := qe_close env (js_queue s), js_refused := js_refused s + qe_callers env (js_queue s),
       js_dropped := js_dropped s + qe_dropped env (js_queue s)\<rparr>)"

inductive job_reach ::
  "'q queue_ops \<Rightarrow> 'q queue_env \<Rightarrow> (int \<Rightarrow> duration) \<Rightarrow> manager \<Rightarrow> 'q \<Rightarrow> 'q job_system \<Rightarrow> bool"
  for ops env backoff m q0 where
  reach_start: "job_reach ops env backoff m q0 (new_system q0)"
| reach_step: "job_reach ops env backoff m q0 s \<Longrightarrow> job_step ops env backoff m s s' \<Longrightarrow>
    job_reach ops env backoff m q0 s'"

text \<open>How often the manager lets a job run.\<close>

definition attempt_limit :: "manager \<Rightarrow> job \<Rightarrow> int" where
  "attempt_limit m j =
     (case mg_handlers m (jb_name j) of
        None \<Rightarrow> 1 | Some r \<Rightarrow> max 1 (if jb_max j \<le> 0 then rg_max r else jb_max j))"

definition runs_of :: "(string \<times> int) list \<Rightarrow> string \<Rightarrow> int list" where
  "runs_of log i = map snd (filter (\<lambda>p. fst p = i) log)"

definition handled :: "manager \<Rightarrow> job \<Rightarrow> bool" where
  "handled m j \<longleftrightarrow> mg_handlers m (jb_name j) \<noteq> None"

lemma runs_of_snoc: "runs_of (log @ [(i, a)]) k = (if k = i then runs_of log k @ [a] else runs_of log k)"
  by (simp add: runs_of_def)

lemma dispatch_job_fields:
  "jb_attempt (dispatch_job m now i rid tid name raw d) = 1"
  by (simp add: dispatch_job_def add_meta_def Let_def split: option.splits)

definition live_ok :: "manager \<Rightarrow> (string \<times> int) list \<Rightarrow> job \<Rightarrow> bool" where
  "live_ok m log j \<longleftrightarrow> 1 \<le> jb_attempt j \<and> jb_attempt j \<le> attempt_limit m j \<and>
     runs_of log (jb_id j) = [1..jb_attempt j - 1]"

definition finished_ok :: "manager \<Rightarrow> (string \<times> int) list \<Rightarrow> job \<Rightarrow> bool" where
  "finished_ok m log j \<longleftrightarrow> 1 \<le> jb_attempt j \<and> jb_attempt j \<le> attempt_limit m j \<and>
     runs_of log (jb_id j) = [1..(if handled m j then jb_attempt j else jb_attempt j - 1)]"

lemma ok_other:
  "jb_id j \<noteq> i \<Longrightarrow> live_ok m (log @ [(i, a)]) j = live_ok m log j"
  "jb_id j \<noteq> i \<Longrightarrow> finished_ok m (log @ [(i, a)]) j = finished_ok m log j"
  by (simp_all add: live_ok_def finished_ok_def runs_of_snoc)

lemma upto_snoc: "(1::int) \<le> a \<Longrightarrow> [1..a - 1] @ [a] = [1..a]"
  by (simp add: upto_rec2)

lemma attempt_limit_upd: "attempt_limit m (j\<lparr>jb_attempt := a\<rparr>) = attempt_limit m j"
  by (cases "mg_handlers m (jb_name j)") (simp_all add: attempt_limit_def)

lemma live_ok_run:
  assumes "live_ok m log j"
  shows "handled m j \<Longrightarrow> finished_ok m (log @ [(jb_id j, jb_attempt j)]) j"
    and "\<not> handled m j \<Longrightarrow> finished_ok m log j"
    and "jb_attempt j < attempt_limit m j \<Longrightarrow>
      live_ok m (log @ [(jb_id j, jb_attempt j)]) (j\<lparr>jb_attempt := jb_attempt j + 1\<rparr>)"
  using assms by (simp_all add: live_ok_def finished_ok_def runs_of_snoc upto_snoc attempt_limit_upd)

lemma decide_cases:
  obtains (unknown) "decide backoff m j = Reject False" "\<not> handled m j"
  | (ok) "decide backoff m j = Ack" "handled m j"
  | (retry) d where "decide backoff m j = Retry d" "handled m j" "1 \<le> jb_attempt j \<longrightarrow> jb_attempt j < attempt_limit m j"
  | (fail) "decide backoff m j = Reject True" "handled m j"
proof (cases "mg_handlers m (jb_name j)")
  case None
  then show ?thesis using unknown by (simp add: decide_def handled_def)
next
  case (Some r)
  then have h: "handled m j" by (simp add: handled_def)
  show ?thesis
  proof (cases "safe_handle (wrap_handler (mo_middleware (mg_opts m)) (rg_handler r)) j")
    case None
    then show ?thesis using ok h Some by (simp add: decide_def)
  next
    case (Some e)
    with \<open>mg_handlers m (jb_name j) = Some r\<close> have
      dec: "decide backoff m j =
        (if \<not> is_permanent e \<and> jb_attempt j < (if jb_max j \<le> 0 then rg_max r else jb_max j)
         then Retry (backoff (jb_attempt j)) else Reject True)"
      by (simp add: decide_def)
    have lim: "attempt_limit m j = max 1 (if jb_max j \<le> 0 then rg_max r else jb_max j)"
      using \<open>mg_handlers m (jb_name j) = Some r\<close> by (simp add: attempt_limit_def)
    show ?thesis
    proof (cases "\<not> is_permanent e \<and> jb_attempt j < (if jb_max j \<le> 0 then rg_max r else jb_max j)")
      case True
      then have "jb_attempt j < attempt_limit m j" unfolding lim less_max_iff_disj by blast
      with retry [of "backoff (jb_attempt j)"] True h show ?thesis unfolding dec by simp
    next
      case False
      with fail h show ?thesis unfolding dec by simp
    qed
  qed
qed

context job_queue begin

definition job_inv :: "manager \<Rightarrow> 'q job_system \<Rightarrow> bool" where
  "job_inv m s \<longleftrightarrow> inv (js_queue s) \<and>
     image_mset jb_id (mset (js_sent s)) =
       image_mset jb_id (pending (js_queue s) + js_inflight s + js_done s + dead (js_queue s) + js_refused s + js_dropped s) \<and>
     (\<not> closed (js_queue s) \<longrightarrow> js_dropped s = {#}) \<and> distinct (map jb_id (js_sent s)) \<and>
     (\<forall>i. i \<notin> jb_id ` set (js_sent s) \<longrightarrow> runs_of (js_log s) i = []) \<and>
     (\<forall>j \<in># pending (js_queue s) + js_inflight s. live_ok m (js_log s) j) \<and>
     (\<forall>j \<in># js_done s + dead (js_queue s). finished_ok m (js_log s) j)"

lemma job_inv_dispatch:
  assumes "job_inv m s" and "dispatch ops strict gone m now new_id rid tid name (Some raw) d (js_queue s) = (Dispatched res, q')"
    and "j = dispatch_job m now new_id rid tid name raw d" and "jb_id j \<notin> jb_id ` set (js_sent s)"
  shows "job_inv m (s\<lparr>js_queue := q', js_sent := js_sent s @ [j], js_refused := js_refused s + (if refused res then {#j#} else {#})\<rparr>)"
proof -
  have i: "inv (js_queue s)" using assms(1) by (simp add: job_inv_def)
  have "qo_enqueue ops gone now j (do_delay d) (js_queue s) = (res, q')"
    using assms(2,3) by (auto simp: dispatch_def split: if_splits prod.splits)
  note q = enqueue_law [OF i this]
  have "live_ok m (js_log s) j"
    using assms(1,4) by (auto simp: live_ok_def job_inv_def assms(3) dispatch_job_fields attempt_limit_def split: option.splits)
  with assms(1,4) q show ?thesis by (auto simp: job_inv_def)
qed

lemma job_inv_process:
  assumes "job_inv m s" and "j \<in># js_inflight s" and "process ops backoff m now j (js_queue s) = (v, q')"
  shows "job_inv m (s\<lparr>js_queue := q', js_inflight := js_inflight s - {#j#},
         js_done := (if v = Ack then add_mset j (js_done s) else js_done s),
         js_dropped := js_dropped s + retry_lost ops now v j (js_queue s),
         js_log := (if mg_handlers m (jb_name j) = None then js_log s else js_log s @ [(jb_id j, jb_attempt j)])\<rparr>)"
proof -
  let ?q = "js_queue s"
  obtain R where R: "js_inflight s = add_mset j R" using assms(2) by (metis insert_DiffM)
  have i: "inv ?q" using assms(1) by (simp add: job_inv_def)
  have ids: "image_mset jb_id (mset (js_sent s)) =
      add_mset (jb_id j) (image_mset jb_id (pending ?q + R + js_done s + dead ?q + js_refused s + js_dropped s))"
    using assms(1) by (simp add: job_inv_def R)
  have d: "distinct (map jb_id (js_sent s))" using assms(1) by (simp add: job_inv_def)
  then have "count (image_mset jb_id (mset (js_sent s))) (jb_id j) \<le> 1"
    by (simp add: distinct_count_atmost_1 flip: mset_map)
  then have "count (image_mset jb_id (pending ?q + R + js_done s + dead ?q + js_refused s + js_dropped s)) (jb_id j) = 0"
    unfolding ids by simp
  then have "jb_id j \<notin># image_mset jb_id (pending ?q + R + js_done s + dead ?q + js_refused s + js_dropped s)"
    by (rule count_eq_zero_iff [THEN iffD1])
  then have other: "jb_id j' \<noteq> jb_id j" if "j' \<in># pending ?q + R + js_done s + dead ?q + js_refused s + js_dropped s" for j'
    using that by (metis image_eqI set_image_mset)
  have known: "jb_id j \<in> jb_id ` set (js_sent s)"
  proof -
    have "jb_id j \<in># image_mset jb_id (mset (js_sent s))" unfolding ids by simp
    then show ?thesis by simp
  qed
  have live: "live_ok m (js_log s) j" using assms(1) by (simp add: job_inv_def R)
  have runs: "runs_of (js_log s @ [(jb_id j, jb_attempt j)]) k = []" if "k \<notin> jb_id ` set (js_sent s)" for k
    using that known assms(1) by (auto simp: runs_of_snoc job_inv_def)
  have dropped: "\<not> closed ?q \<longrightarrow> js_dropped s = {#}" using assms(1) by (simp add: job_inv_def)
  define log' where "log' = (if handled m j then js_log s @ [(jb_id j, jb_attempt j)] else js_log s)"
  have log': "(if mg_handlers m (jb_name j) = None then js_log s else js_log s @ [(jb_id j, jb_attempt j)]) = log'"
    by (simp add: log'_def handled_def)
  have rest: "\<forall>j' \<in># pending ?q + R. live_ok m log' j'" "\<forall>j' \<in># js_done s + dead ?q. finished_ok m log' j'"
    "\<forall>k. k \<notin> jb_id ` set (js_sent s) \<longrightarrow> runs_of log' k = []"
    using assms(1) other runs by (auto simp: job_inv_def R log'_def ok_other)
  show ?thesis
    using decide_cases [of backoff m j]
  proof cases
    case unknown
    then have v: "v = Reject False" "q' = qo_reject ops j ?q" using assms(3) by (auto simp: process_def)
    with reject_law [OF i] rest live live_ok_run(2) [OF live] unknown ids d R dropped show ?thesis
      unfolding log' job_inv_def by (simp add: ball_Un log'_def retry_lost_def)
  next
    case ok
    then have "v = Ack" "q' = ?q" using assms(3) by (auto simp: process_def)
    with i rest live_ok_run(1) [OF live] ok ids d R dropped show ?thesis
      unfolding log' job_inv_def by (simp add: ball_Un log'_def retry_lost_def)
  next
    case (retry dl)
    then have v: "v = Retry dl" "q' = snd (qo_retry ops now j dl ?q)" using assms(3) by (auto simp: process_def)
    obtain res where res: "qo_retry ops now j dl ?q = (res, q')" using v(2) by (cases "qo_retry ops now j dl ?q") auto
    note rq = retry_law [OF i this]
    have "jb_attempt j < attempt_limit m j" using retry(3) live by (simp add: live_ok_def)
    note nl = live_ok_run(3) [OF live this]
    show ?thesis
    proof (cases "refused res")
      case True
      with rq rest v(1) retry(2) ids d R dropped show ?thesis
        unfolding log' job_inv_def by (simp add: ball_Un log'_def retry_lost_def res)
    next
      case False
      with rq nl rest v(1) retry(2) ids d R dropped show ?thesis
        unfolding log' job_inv_def by (simp add: ball_Un log'_def retry_lost_def res)
    qed
  next
    case fail
    then have "v = Reject True" "q' = qo_reject ops j ?q" using assms(3) by (auto simp: process_def)
    with reject_law [OF i] rest live_ok_run(1) [OF live] fail ids d R dropped show ?thesis
      unfolding log' job_inv_def by (simp add: ball_Un log'_def retry_lost_def)
  qed
qed

lemma job_inv_step: "job_step ops env backoff m s s' \<Longrightarrow> job_inv m s \<Longrightarrow> job_inv m s'"
proof (induction rule: job_step.induct)
  case (step_dispatch strict gone now new_id rid tid name raw d s res q' j)
  then show ?case by (intro job_inv_dispatch)
next
  case (step_give_up j s q')
  have "inv (js_queue s)" using step_give_up.prems by (simp add: job_inv_def)
  from cancel_law [OF this step_give_up.hyps] step_give_up.prems show ?case
    by (auto simp: job_inv_def)
next
  case (step_receive s j q')
  have "inv (js_queue s)" using step_receive.prems by (simp add: job_inv_def)
  from receive_law [OF this step_receive.hyps] step_receive.prems show ?case
    by (auto simp: job_inv_def)
next
  case (step_process j s now v q')
  from job_inv_process [OF step_process.prems step_process.hyps] show ?case .
next
  case (step_tick s now)
  then show ?case using tick_law by (auto simp: job_inv_def)
next
  case (step_close s)
  have i: "inv (js_queue s)" using step_close by (simp add: job_inv_def)
  from close_law [OF i] step_close show ?case
    by (auto simp: job_inv_def ac_simps)
qed

lemma job_inv_reach:
  assumes "job_reach ops env backoff m q0 s" and "inv q0" "pending q0 = {#}" "dead q0 = {#}"
  shows "job_inv m s"
  using assms(1)
proof induction
  case reach_start
  then show ?case using assms(2-) by (simp add: job_inv_def new_system_def runs_of_def)
next
  case (reach_step s s')
  then show ?case by (blast intro: job_inv_step)
qed

end

section \<open>The in-process queue satisfies the contract\<close>

definition mq_inv :: "memory_queue \<Rightarrow> bool" where
  "mq_inv q \<longleftrightarrow> 0 < mq_cap q \<and> length (mq_ready q) \<le> mq_cap q \<and>
     (mq_senders q \<noteq> [] \<longrightarrow> length (mq_ready q) = mq_cap q) \<and> (mq_closed q \<longrightarrow> mq_senders q = [] \<and> mq_timers q = [])"

definition mq_pending :: "memory_queue \<Rightarrow> job multiset" where
  "mq_pending q = mset (mq_ready q) + mset (map snd (mq_senders q)) + mset (map snd (mq_timers q))"

definition mq_dead :: "memory_queue \<Rightarrow> job multiset" where
  "mq_dead q = mset (mq_failed q)"

definition mq_callers :: "memory_queue \<Rightarrow> job multiset" where
  "mq_callers q = mset (map snd (filter (\<lambda>p. fst p = Caller) (mq_senders q)))"

definition mq_dropped :: "memory_queue \<Rightarrow> job multiset" where
  "mq_dropped q = mset (map snd (filter (\<lambda>p. fst p \<noteq> Caller) (mq_senders q))) + mset (map snd (mq_timers q))"

definition memory_queue_env :: "memory_queue queue_env" where
  "memory_queue_env =
     \<lparr>qe_tick = mq_fire, qe_cancel = mq_cancel, qe_close = mq_close, qe_callers = mq_callers, qe_dropped = mq_dropped\<rparr>"

lemma mq_send_law:
  "mq_inv q \<Longrightarrow> \<not> mq_closed q \<Longrightarrow> mq_send w j q = (res, q') \<Longrightarrow>
    mq_inv q' \<and> mq_pending q' = add_mset j (mq_pending q) \<and> mq_dead q' = mq_dead q \<and> \<not> mq_closed q' \<and> \<not> refused res"
  by (auto simp: mq_send_def mq_inv_def mq_pending_def mq_dead_def refused_def split: if_splits)

lemma mq_enqueue_law:
  "mq_inv q \<Longrightarrow> mq_enqueue w gone now j d q = (res, q') \<Longrightarrow>
    mq_inv q' \<and> mq_pending q' = (if refused res then mq_pending q else add_mset j (mq_pending q)) \<and> mq_dead q' = mq_dead q \<and>
    mq_closed q' = mq_closed q \<and> (refused res \<longrightarrow> mq_closed q \<or> gone)"
  using mq_send_law [of q w j res q']
  by (auto simp: mq_enqueue_def refused_def mq_inv_def mq_pending_def mq_dead_def split: if_splits)

lemma mq_cancel_law:
  assumes "mq_inv q" "mq_cancel j q = Some q'"
  shows "mq_inv q' \<and> mq_pending q = add_mset j (mq_pending q') \<and> mq_dead q' = mq_dead q \<and> mq_closed q' = mq_closed q"
proof -
  have c: "(Caller, j) \<in> set (mq_senders q)" "q' = q\<lparr>mq_senders := remove1 (Caller, j) (mq_senders q)\<rparr>"
    using assms(2) by (auto simp: mq_cancel_def split: if_splits)
  have "mset (mq_senders q) = add_mset (Caller, j) (mset (remove1 (Caller, j) (mq_senders q)))" using c(1) by simp
  then have "image_mset snd (mset (mq_senders q)) = add_mset j (image_mset snd (mset (remove1 (Caller, j) (mq_senders q))))"
    by (metis image_mset_add_mset snd_conv)
  then show ?thesis using assms(1) c by (auto simp: mq_inv_def mq_pending_def mq_dead_def)
qed

lemma mq_close_law:
  assumes "mq_inv q"
  shows "mq_inv (mq_close q) \<and> mq_pending q = mq_pending (mq_close q) + mq_callers q + mq_dropped q \<and>
    mq_dead (mq_close q) = mq_dead q \<and> mq_closed (mq_close q)"
proof -
  have "mset (mq_senders q) = mset (filter (\<lambda>p. fst p = Caller) (mq_senders q)) + mset (filter (\<lambda>p. fst p \<noteq> Caller) (mq_senders q))"
    using multiset_partition [of "mset (mq_senders q)" "\<lambda>p. fst p = Caller"] by simp
  then have "image_mset snd (mset (mq_senders q)) = mset (map snd (filter (\<lambda>p. fst p = Caller) (mq_senders q))) +
      mset (map snd (filter (\<lambda>p. fst p \<noteq> Caller) (mq_senders q)))"
    by (metis image_mset_union mset_map)
  then show ?thesis using assms
    by (auto simp: mq_close_def mq_inv_def mq_pending_def mq_callers_def mq_dropped_def mq_dead_def ac_simps)
qed

lemma mq_fire_law: "mq_inv q \<Longrightarrow> mq_inv (mq_fire now q) \<and> mq_pending (mq_fire now q) = mq_pending q \<and>
    mq_dead (mq_fire now q) = mq_dead q \<and> mq_closed (mq_fire now q) = mq_closed q"
proof -
  assume i: "mq_inv q"
  have sends: "mq_inv q \<Longrightarrow> \<not> mq_closed q \<Longrightarrow> mq_inv (foldl (\<lambda>q (t, j). snd (mq_send TimerFunc j q)) q L) \<and>
      mq_pending (foldl (\<lambda>q (t, j). snd (mq_send TimerFunc j q)) q L) = mq_pending q + mset (map snd L) \<and>
      mq_dead (foldl (\<lambda>q (t, j). snd (mq_send TimerFunc j q)) q L) = mq_dead q \<and>
      \<not> mq_closed (foldl (\<lambda>q (t, j). snd (mq_send TimerFunc j q)) q L)" for q L
  proof (induction L arbitrary: q)
    case (Cons p L)
    obtain t j where p: "p = (t, j)" by fastforce
    have "mq_inv (snd (mq_send TimerFunc j q)) \<and> mq_pending (snd (mq_send TimerFunc j q)) = add_mset j (mq_pending q) \<and>
        mq_dead (snd (mq_send TimerFunc j q)) = mq_dead q \<and> \<not> mq_closed (snd (mq_send TimerFunc j q))"
      using mq_send_law [OF Cons.prems, of TimerFunc j "fst (mq_send TimerFunc j q)" "snd (mq_send TimerFunc j q)"] by simp
    with Cons.IH [of "snd (mq_send TimerFunc j q)"] p show ?case by simp
  qed simp
  let ?due = "filter (\<lambda>(t, j). t \<le> now) (mq_timers q)"
  let ?q = "q\<lparr>mq_timers := filter (\<lambda>(t, j). \<not> t \<le> now) (mq_timers q)\<rparr>"
  let ?late = "filter (\<lambda>(t, j). \<not> t \<le> now) (mq_timers q)"
  have "?late = filter (\<lambda>p. \<not> (case p of (t, j) \<Rightarrow> t \<le> now)) (mq_timers q)"
    by (rule filter_cong) auto
  then have "mset ?late + mset ?due = mset (mq_timers q)"
    using multiset_partition [of "mset (mq_timers q)" "\<lambda>(t, j). t \<le> now"] by (simp add: add.commute)
  then have "image_mset snd (mset ?late + mset ?due) = image_mset snd (mset (mq_timers q))" by (rule arg_cong)
  then have "image_mset snd (mset ?late) + image_mset snd (mset ?due) = image_mset snd (mset (mq_timers q))"
    by (simp only: image_mset_union)
  moreover have "mq_inv ?q" using i by (simp add: mq_inv_def)
  ultimately show ?thesis
    using i sends [of ?q ?due] by (simp add: mq_fire_def mq_inv_def mq_pending_def mq_dead_def add.assoc)
qed

interpretation memq: job_queue memory_queue_ops memory_queue_env mq_inv mq_closed mq_pending mq_dead
proof unfold_locales
  fix q q' :: memory_queue and gone now j d res
  assume i: "mq_inv q"
  show "qo_enqueue memory_queue_ops gone now j d q = (res, q') \<Longrightarrow>
      mq_inv q' \<and> mq_pending q' = (if refused res then mq_pending q else add_mset j (mq_pending q)) \<and> mq_dead q' = mq_dead q \<and>
      mq_closed q' = mq_closed q"
    using mq_enqueue_law [OF i] by (simp add: memory_queue_ops_def)
  show "qo_receive memory_queue_ops q = Some (j, q') \<Longrightarrow>
      mq_inv q' \<and> mq_pending q = add_mset j (mq_pending q') \<and> mq_dead q' = mq_dead q \<and> mq_closed q' = mq_closed q"
    using i by (auto simp: memory_queue_ops_def mq_receive_def mq_inv_def mq_pending_def mq_dead_def split: list.splits)
  show "qo_retry memory_queue_ops now j d q = (res, q') \<Longrightarrow>
      mq_inv q' \<and> mq_pending q' = (if refused res then mq_pending q else add_mset (j\<lparr>jb_attempt := jb_attempt j + 1\<rparr>) (mq_pending q)) \<and>
      mq_dead q' = mq_dead q \<and> mq_closed q' = mq_closed q \<and> (refused res \<longrightarrow> mq_closed q)"
    using mq_enqueue_law [OF i, of Worker False now "j\<lparr>jb_attempt := jb_attempt j + 1\<rparr>" d res q']
    by (simp add: memory_queue_ops_def mq_retry_def)
  show "mq_inv (qo_reject memory_queue_ops j q) \<and> mq_pending (qo_reject memory_queue_ops j q) = mq_pending q \<and>
      mq_dead (qo_reject memory_queue_ops j q) = add_mset j (mq_dead q) \<and> mq_closed (qo_reject memory_queue_ops j q) = mq_closed q"
    using i by (simp add: memory_queue_ops_def mq_reject_def mq_inv_def mq_pending_def mq_dead_def)
  show "mq_inv (qe_tick memory_queue_env now q) \<and> mq_pending (qe_tick memory_queue_env now q) = mq_pending q \<and>
      mq_dead (qe_tick memory_queue_env now q) = mq_dead q \<and> mq_closed (qe_tick memory_queue_env now q) = mq_closed q"
    using mq_fire_law [OF i] by (simp add: memory_queue_env_def)
  show "qe_cancel memory_queue_env j q = Some q' \<Longrightarrow>
      mq_inv q' \<and> mq_pending q = add_mset j (mq_pending q') \<and> mq_dead q' = mq_dead q \<and> mq_closed q' = mq_closed q"
    using mq_cancel_law [OF i] by (simp add: memory_queue_env_def)
  show "mq_inv (qe_close memory_queue_env q) \<and>
      mq_pending q = mq_pending (qe_close memory_queue_env q) + qe_callers memory_queue_env q + qe_dropped memory_queue_env q \<and>
      mq_dead (qe_close memory_queue_env q) = mq_dead q \<and> mq_closed (qe_close memory_queue_env q)"
    using mq_close_law [OF i] by (simp add: memory_queue_env_def)
qed

section \<open>Properties of a running system on the in-process queue\<close>

lemma new_queue_ok: "mq_inv (new_memory_queue cap)" "mq_pending (new_memory_queue cap) = {#}"
    "mq_dead (new_memory_queue cap) = {#}"
  by (simp_all add: mq_inv_def mq_pending_def mq_dead_def new_memory_queue_def)

lemmas memq_reach = memq.job_inv_reach [OF _ new_queue_ok]

text \<open>C10: No job is lost or duplicated while the queue is open: in every state that callers (who may give up), workers, timers and
  a shutdown of the in-process queue can reach, every job handed to the queue is in exactly one place, once: waiting (ready, blocked
  or delayed), in the hands of a worker, done, dead-lettered, refused with an error for its caller, or dropped; and only a closed
  queue has dropped any.\<close>

theorem jobs_conserved:
  assumes "job_reach memory_queue_ops memory_queue_env backoff m (new_memory_queue cap) s"
  shows "distinct (map jb_id (js_sent s)) \<and>
    image_mset jb_id (mset (js_sent s)) =
      image_mset jb_id (mq_pending (js_queue s) + js_inflight s + js_done s + mq_dead (js_queue s) + js_refused s + js_dropped s) \<and>
    (\<not> mq_closed (js_queue s) \<longrightarrow> js_dropped s = {#})"
  using memq_reach [OF assms] by (simp add: memq.job_inv_def)

text \<open>Attempts are counted right and limited: in every reachable state, for every accepted job
  the handler has run with attempt numbers 1, 2, 3 and so on, once each, and never more often than
  the job's attempt limit (its own, or else the one registered for its name, but at least one).\<close>

lemma job_attempts_limited:
  assumes "job_reach memory_queue_ops memory_queue_env backoff m (new_memory_queue cap) s"
    and "j \<in># mq_pending (js_queue s) + js_inflight s + js_done s + mq_dead (js_queue s)"
  shows "\<exists>n. runs_of (js_log s) (jb_id j) = [1..n] \<and> n \<le> attempt_limit m j"
proof -
  have "live_ok m (js_log s) j \<or> finished_ok m (js_log s) j"
    using memq_reach [OF assms(1)] assms(2) by (auto simp: memq.job_inv_def)
  then show ?thesis
  proof
    assume "live_ok m (js_log s) j"
    then show ?thesis by (intro exI [of _ "jb_attempt j - 1"]) (simp add: live_ok_def)
  next
    assume "finished_ok m (js_log s) j"
    then show ?thesis
      by (intro exI [of _ "if handled m j then jb_attempt j else jb_attempt j - 1"]) (simp add: finished_ok_def)
  qed
qed

text \<open>One worker serving the queue at given times: the attempts it ran and the queue after it.\<close>

fun serve :: "(int \<Rightarrow> duration) \<Rightarrow> manager \<Rightarrow> time list \<Rightarrow> memory_queue \<Rightarrow> int list \<times> memory_queue" where
  "serve backoff m [] q = ([], q)"
| "serve backoff m (t # ts) q =
     (case mq_receive (mq_fire t q) of
        None \<Rightarrow> serve backoff m ts (mq_fire t q)
      | Some (j, q') \<Rightarrow>
          (let rest = serve backoff m ts (snd (process memory_queue_ops backoff m t j q'))
           in (jb_attempt j # fst rest, snd rest)))"

definition always_fails :: "manager \<Rightarrow> job \<Rightarrow> bool" where
  "always_fails m j \<longleftrightarrow> (\<exists>r. mg_handlers m (jb_name j) = Some r \<and>
     (\<forall>a. \<exists>e. safe_handle (wrap_handler (mo_middleware (mg_opts m)) (rg_handler r)) (j\<lparr>jb_attempt := a\<rparr>) = Some e \<and>
        \<not> is_permanent e))"

lemma always_fails_decide:
  assumes "always_fails m j" and "1 \<le> a"
  shows "decide backoff m (j\<lparr>jb_attempt := a\<rparr>) =
    (if a < attempt_limit m j then Retry (backoff a) else Reject True)"
proof -
  from assms(1) obtain r e where r: "mg_handlers m (jb_name j) = Some r"
    "safe_handle (wrap_handler (mo_middleware (mg_opts m)) (rg_handler r)) (j\<lparr>jb_attempt := a\<rparr>) = Some e"
    "\<not> is_permanent e"
    unfolding always_fails_def by metis
  with assms(2) show ?thesis by (auto simp: decide_def attempt_limit_def Let_def)
qed

text \<open>The queue that holds just the job \<open>j\<close>, due by \<open>t\<close>.\<close>

definition holds_only :: "int \<Rightarrow> job \<Rightarrow> time \<Rightarrow> memory_queue \<Rightarrow> bool" where
  "holds_only cap j t q \<longleftrightarrow> mq_fire t q = (new_memory_queue cap)\<lparr>mq_ready := [j]\<rparr>"

lemma serve_failing:
  assumes "always_fails m j"
  shows "holds_only cap (j\<lparr>jb_attempt := a\<rparr>) t q \<Longrightarrow> 1 \<le> a \<Longrightarrow> a \<le> attempt_limit m j \<Longrightarrow>
    length ts = nat (attempt_limit m j - a) \<Longrightarrow>
    \<forall>i < length ts. (t # ts) ! i + backoff (a + int i) \<le> ts ! i \<and> (t # ts) ! i \<le> ts ! i \<Longrightarrow>
    serve backoff m (t # ts) q =
      ([a..attempt_limit m j], (new_memory_queue cap)\<lparr>mq_failed := [j\<lparr>jb_attempt := attempt_limit m j\<rparr>]\<rparr>)"
proof (induction ts arbitrary: a t q)
  case Nil
  then have a: "a = attempt_limit m j" by simp
  with Nil.prems(1,2) always_fails_decide [OF assms Nil.prems(2)] show ?case
    by (simp add: holds_only_def mq_receive_def new_memory_queue_def process_def memory_queue_ops_def mq_reject_def Let_def)
next
  case (Cons t' ts)
  then have a: "a < attempt_limit m j" by auto
  have gap: "t + backoff a \<le> t'" "t \<le> t'" using Cons.prems(5) by (force dest: spec [of _ 0])+
  let ?n = "new_memory_queue cap" and ?j = "j\<lparr>jb_attempt := a + 1\<rparr>"
  have cap: "0 < mq_cap ?n" by (simp add: new_memory_queue_def)
  have p: "process memory_queue_ops backoff m t (j\<lparr>jb_attempt := a\<rparr>) ?n = (Retry (backoff a), snd (mq_enqueue Worker False t ?j (backoff a) ?n))"
    using always_fails_decide [OF assms Cons.prems(2)] a
    by (simp add: process_def memory_queue_ops_def mq_retry_def Let_def)
  have "holds_only cap ?j t' (snd (mq_enqueue Worker False t ?j (backoff a) ?n))"
    using gap cap by (auto simp: holds_only_def mq_enqueue_def mq_fire_def mq_send_def new_memory_queue_def)
  moreover have "\<forall>i < length ts. (t' # ts) ! i + backoff (a + 1 + int i) \<le> ts ! i \<and> (t' # ts) ! i \<le> ts ! i"
    using Cons.prems(5) by (auto simp: add.assoc dest: spec [of _ "Suc _"])
  ultimately have "serve backoff m (t' # ts) (snd (mq_enqueue Worker False t ?j (backoff a) ?n)) =
      ([a + 1..attempt_limit m j], ?n\<lparr>mq_failed := [j\<lparr>jb_attempt := attempt_limit m j\<rparr>]\<rparr>)"
    using Cons.prems(2-4) a by (intro Cons.IH) auto
  moreover have "mq_receive (mq_fire t q) = Some (j\<lparr>jb_attempt := a\<rparr>, ?n)"
    using Cons.prems(1) by (simp add: holds_only_def mq_receive_def new_memory_queue_def)
  ultimately show ?case
    unfolding serve.simps(2) [of backoff m t "t' # ts" q] using a p
    by (simp add: Let_def upto_rec1 [of a] del: serve.simps)
qed

text \<open>C11: A job whose handler always fails with an ordinary error (or panics) is run exactly as often
  as its attempt limit says, with attempts 1, 2, and so on, each at least the backoff after the
  one before, and is then dead-lettered; nothing else is left in the queue.\<close>

theorem failing_job_dead_letters:
  assumes "always_fails m j" and "jb_attempt j = 1"
    and "length ts = nat (attempt_limit m j)"
    and "\<forall>i. i + 1 < length ts \<longrightarrow> ts ! i + backoff (1 + int i) \<le> ts ! (i + 1) \<and> ts ! i \<le> ts ! (i + 1)"
  shows "serve backoff m ts ((new_memory_queue cap)\<lparr>mq_ready := [j]\<rparr>) =
    ([1..attempt_limit m j], (new_memory_queue cap)\<lparr>mq_failed := [j\<lparr>jb_attempt := attempt_limit m j\<rparr>]\<rparr>)"
proof -
  have lim: "1 \<le> attempt_limit m j" by (auto simp: attempt_limit_def split: option.splits)
  then obtain t us where ts: "ts = t # us" using assms(3) by (cases ts) auto
  have j: "j\<lparr>jb_attempt := 1\<rparr> = j" using assms(2) by (cases j) simp
  have "holds_only cap (j\<lparr>jb_attempt := 1\<rparr>) t ((new_memory_queue cap)\<lparr>mq_ready := [j]\<rparr>)"
    by (simp add: holds_only_def mq_fire_def new_memory_queue_def j)
  moreover have "\<forall>i < length us. (t # us) ! i + backoff (1 + int i) \<le> us ! i \<and> (t # us) ! i \<le> us ! i"
    using assms(4) by (auto simp: ts)
  ultimately show ?thesis
    unfolding ts using lim assms(3) by (intro serve_failing [OF assms(1)]) (auto simp: ts)
qed

definition sample_manager :: manager where
  "sample_manager =
     \<lparr>mg_opts = manager_defaults 4 \<lparr>mo_workers = 1, mo_max_attempts = 0, mo_timeout = 0, mo_middleware = []\<rparr>,
      mg_handlers = [''mail'' \<mapsto> \<lparr>rg_handler = (\<lambda>_. Returned (Some (JobError ''down''))), rg_max = 3, rg_timeout = 5\<rparr>],
      mg_running = True\<rparr>"

definition sample_job :: job where
  "sample_job = dispatch_job sample_manager 0 ''id1'' [] [] ''mail'' ''{}'' \<lparr>do_id = None, do_delay = 0\<rparr>"

theorem failing_job_dead_letters_witness:
  "serve (\<lambda>a. a * 10) sample_manager [0, 10, 30] ((new_memory_queue 5)\<lparr>mq_ready := [sample_job]\<rparr>) =
    ([1..3], (new_memory_queue 5)\<lparr>mq_failed := [sample_job\<lparr>jb_attempt := 3\<rparr>]\<rparr>)"
proof -
  have lim: "attempt_limit sample_manager sample_job = 3" by code_simp
  have "always_fails sample_manager sample_job"
    by (simp add: always_fails_def sample_manager_def sample_job_def dispatch_job_def safe_handle_def
        wrap_handler_def manager_defaults_def is_permanent_def)
  moreover have "jb_attempt sample_job = 1" by (simp add: sample_job_def dispatch_job_fields)
  moreover have "\<forall>i. i + 1 < length [0, 10, 30::int] \<longrightarrow>
      [0, 10, 30] ! i + (1 + int i) * 10 \<le> [0, 10, 30] ! (i + 1) \<and> [0, 10, 30] ! i \<le> [0, 10, 30::int] ! (i + 1)"
    by (auto simp: less_Suc_eq)
  ultimately show ?thesis
    using failing_job_dead_letters [of sample_manager sample_job "[0, 10, 30]" "\<lambda>a. a * 10" 5] lim by simp
qed

text \<open>A job waits for its retry when the queue is closed, and is dropped.\<close>

definition sample_open :: "memory_queue job_system" where
  "sample_open = (new_system (new_memory_queue 5))\<lparr>js_queue := (new_memory_queue 5)\<lparr>mq_ready := [sample_job]\<rparr>, js_sent := [sample_job]\<rparr>"

definition sample_closed :: "memory_queue job_system" where
  "sample_closed =
     \<lparr>js_queue = (new_memory_queue 5)\<lparr>mq_closed := True\<rparr>, js_inflight = {#}, js_done = {#}, js_refused = {#},
      js_dropped = {#sample_job\<lparr>jb_attempt := 2\<rparr>#}, js_sent = [sample_job], js_log = [(''id1'', 1)]\<rparr>"

lemma sample_reach: "job_reach memory_queue_ops memory_queue_env (\<lambda>a. a * 10) sample_manager (new_memory_queue 5) sample_open"
proof -
  let ?s = "new_system (new_memory_queue 5)"
  have "dispatch memory_queue_ops True False sample_manager 0 ''id1'' [] [] ''mail'' (Some ''{}'')
      \<lparr>do_id = None, do_delay = 0\<rparr> (js_queue ?s) = (Dispatched Enqueued, (new_memory_queue 5)\<lparr>mq_ready := [sample_job]\<rparr>)"
    by (simp add: dispatch_def sample_manager_def memory_queue_ops_def mq_enqueue_def mq_send_def new_memory_queue_def
        sample_job_def new_system_def)
  from job_step.step_dispatch [OF this sample_job_def, of memory_queue_env "\<lambda>a. a * 10"]
  have "job_step memory_queue_ops memory_queue_env (\<lambda>a. a * 10) sample_manager ?s sample_open"
    by (simp add: sample_open_def new_system_def refused_def)
  then show ?thesis by (rule reach_step [OF reach_start])
qed

lemma sample_closed_reach: "job_reach memory_queue_ops memory_queue_env (\<lambda>a. a * 10) sample_manager (new_memory_queue 5) sample_closed"
proof -
  let ?n = "new_memory_queue 5" and ?j = "sample_job\<lparr>jb_attempt := 2\<rparr>"
  have job: "jb_attempt sample_job = 1" "jb_name sample_job = ''mail''" "jb_id sample_job = ''id1''" "jb_max sample_job = 3"
    by (simp_all add: sample_job_def dispatch_job_def sample_manager_def)
  have "qo_receive memory_queue_ops (js_queue sample_open) = Some (sample_job, ?n)"
    by (simp add: memory_queue_ops_def mq_receive_def sample_open_def new_memory_queue_def)
  from reach_step [OF sample_reach job_step.step_receive [OF this]]
  have r: "job_reach memory_queue_ops memory_queue_env (\<lambda>a. a * 10) sample_manager ?n
      (sample_open\<lparr>js_queue := ?n, js_inflight := {#sample_job#}\<rparr>)" by (simp add: sample_open_def new_system_def)
  have d: "decide (\<lambda>a. a * 10) sample_manager sample_job = Retry 10"
    by (simp add: decide_def sample_manager_def job safe_handle_def wrap_handler_def manager_defaults_def is_permanent_def)
  let ?q = "?n\<lparr>mq_timers := [(10, ?j)]\<rparr>"
  have p: "process memory_queue_ops (\<lambda>a. a * 10) sample_manager 0 sample_job ?n = (Retry 10, ?q)"
    by (simp add: process_def d memory_queue_ops_def mq_retry_def mq_enqueue_def new_memory_queue_def job)
  have "fst (qo_retry memory_queue_ops 0 sample_job 10 ?n) = Enqueued"
    by (simp add: memory_queue_ops_def mq_retry_def mq_enqueue_def new_memory_queue_def)
  then have l: "retry_lost memory_queue_ops 0 (Retry 10) sample_job ?n = {#}" by (simp add: retry_lost_def refused_def)
  have "job_step memory_queue_ops memory_queue_env (\<lambda>a. a * 10) sample_manager (sample_open\<lparr>js_queue := ?n, js_inflight := {#sample_job#}\<rparr>)
      (sample_open\<lparr>js_queue := ?q, js_log := [(''id1'', 1)]\<rparr>)"
    using job_step.step_process [of sample_job "sample_open\<lparr>js_queue := ?n, js_inflight := {#sample_job#}\<rparr>" memory_queue_ops
        "\<lambda>a. a * 10" sample_manager 0 "Retry 10" ?q memory_queue_env] p l
    by (simp add: sample_open_def new_system_def sample_manager_def job)
  from reach_step [OF reach_step [OF r this] job_step.step_close] show ?thesis
    by (simp add: sample_closed_def sample_open_def new_system_def memory_queue_env_def mq_close_def mq_callers_def mq_dropped_def
        new_memory_queue_def)
qed

theorem jobs_conserved_witness:
  "image_mset jb_id {#sample_job#} = image_mset jb_id (js_dropped sample_closed) \<and> mq_closed (js_queue sample_closed) \<and>
   image_mset jb_id (mset (js_sent sample_closed)) = image_mset jb_id (mq_pending (js_queue sample_closed) + js_inflight sample_closed +
     js_done sample_closed + mq_dead (js_queue sample_closed) + js_refused sample_closed + js_dropped sample_closed)"
  using jobs_conserved [OF sample_closed_reach] by (simp add: sample_closed_def)

lemma job_attempts_limited_witness:
  "\<exists>n. runs_of [] (jb_id sample_job) = [1..n] \<and> n \<le> attempt_limit sample_manager sample_job"
  using job_attempts_limited [OF sample_reach, of sample_job] by (simp add: mq_pending_def sample_open_def new_system_def)

end
