(* ===== verification/Page.thy ===== *)
theory Page
  imports Prelude
begin

text \<open>
  Pagination and sorting, \<open>page.go\<close>. A Go \<open>int\<close> is a 64-bit integer; sums that can leave the
  range are wrapped. \<open>SetPageLinks\<close> is modelled up to the construction of a link from a page
  number: the result is the list of page numbers and relations it links to.
\<close>

section \<open>Offset pagination\<close>

definition default_page_size :: int where "default_page_size = 20"
definition max_page_size :: int where "max_page_size = 100"

record page_params =
  pp_page :: int
  pp_size :: int

definition page_offset :: "page_params \<Rightarrow> int" where
  "page_offset p =
     (let page = (if pp_page p < 1 then 1 else pp_page p);
          sz = (if pp_size p < 1 then default_page_size else pp_size p)
      in if page - 1 > go_div max_i64 sz then max_i64 else i64 ((page - 1) * sz))"

definition page_limit :: "page_params \<Rightarrow> int" where
  "page_limit p =
     (if pp_size p < 1 then default_page_size
      else if pp_size p > max_page_size then max_page_size else pp_size p)"

record 'a page =
  pg_items :: "'a list"
  pg_total :: int
  pg_page :: int
  pg_size :: int
  pg_pages :: int

definition page_count :: "int \<Rightarrow> int \<Rightarrow> int" where
  "page_count tot sz = (if tot > 0 then go_div (i64 (i64 (tot + sz) - 1)) sz else 0)"

definition new_page :: "'a list \<Rightarrow> int \<Rightarrow> page_params \<Rightarrow> 'a page" where
  "new_page items tot p =
     \<lparr>pg_items = items, pg_total = tot, pg_page = (if pp_page p < 1 then 1 else pp_page p),
      pg_size = page_limit p, pg_pages = page_count tot (page_limit p)\<rparr>"

definition has_next :: "'a page \<Rightarrow> bool" where
  "has_next p \<longleftrightarrow> pg_page p < pg_pages p"

definition has_prev :: "'a page \<Rightarrow> bool" where
  "has_prev p \<longleftrightarrow> pg_page p > 1"

definition page_links :: "page_params \<Rightarrow> int \<Rightarrow> (int \<times> string) list" where
  "page_links p tot =
     (let page = (if pp_page p < 1 then 1 else pp_page p);
          pages = page_count tot (page_limit p);
          last = (if pages < 1 then 1 else pages)
      in [(1, ''first''), (last, ''last'')] @
         (if page > 1 then [((if page - 1 < 1 then 1 else page - 1), ''prev'')] else []) @
         (if page < last then [(page + 1, ''next'')] else []))"

section \<open>Cursor pagination\<close>

definition cursor_limit :: "int \<Rightarrow> int" where
  "cursor_limit n = (if n < 1 then default_page_size else if n > max_page_size then max_page_size else n)"

record 'a cursor_page =
  cp_items :: "'a list"
  cp_next :: string
  cp_more :: bool

definition new_cursor_page :: "'a list \<Rightarrow> string \<Rightarrow> 'a cursor_page" where
  "new_cursor_page items next_cursor = \<lparr>cp_items = items, cp_next = next_cursor, cp_more = (next_cursor \<noteq> [])\<rparr>"

section \<open>Sorting\<close>

record sort_clause =
  so_field :: string
  so_desc :: bool

fun parse_sort_parts :: "string list \<Rightarrow> string list \<Rightarrow> (string, sort_clause list) result" where
  "parse_sort_parts allowed [] = Inr []"
| "parse_sort_parts allowed (part # parts) =
     (let f0 = trim_space part;
          desc = has_prefix f0 ''-'';
          f = (if desc then trim_space (trim_prefix f0 ''-'') else f0)
      in if f \<notin> set allowed \<or> f = [] then Inl (trim_space part)
         else map_sum id ((#) \<lparr>so_field = f, so_desc = desc\<rparr>) (parse_sort_parts allowed parts))"

definition parse_sort :: "string \<Rightarrow> string list \<Rightarrow> (string, sort_clause list) result" where
  "parse_sort param allowed =
     (if trim_space param = [] then Inr [] else parse_sort_parts allowed (split_on (CHR '','') param))"

section \<open>Properties\<close>

text \<open>\<open>Offset\<close> never overflows: it is the exact product, saturated at the largest integer.\<close>

lemma page_offset_saturates:
  "page_offset p =
     min max_i64 ((max 1 (pp_page p) - 1) * (if pp_size p < 1 then default_page_size else pp_size p))"
proof -
  define page sz where "page = max 1 (pp_page p)"
    and "sz = (if pp_size p < 1 then default_page_size else pp_size p)"
  have s: "0 < sz" "0 \<le> page - 1" by (auto simp: sz_def default_page_size_def page_def)
  have "page - 1 > max_i64 div sz \<longleftrightarrow> max_i64 < (page - 1) * sz"
    using s by (simp add: int_div_less_iff)
  moreover have "go_div max_i64 sz = max_i64 div sz" using s by (simp add: go_div_pos max_i64_def)
  moreover have "i64 ((page - 1) * sz) = (page - 1) * sz" if "(page - 1) * sz \<le> max_i64"
    using s that by (intro i64_id) (simp add: fits_i64_def min_i64_def order_trans [of _ 0])
  moreover have "page_offset p = (if page - 1 > go_div max_i64 sz then max_i64 else i64 ((page - 1) * sz))"
    by (simp add: page_offset_def Let_def page_def sz_def max_def)
  ultimately show ?thesis
    unfolding page_def [symmetric] sz_def [symmetric]
    by (cases "max_i64 < (page - 1) * sz") (simp_all add: min_absorb1 min_absorb2)
qed

lemma chunks_take:
  "concat (map (\<lambda>k. take s (drop (k * s) xs)) [0..<n]) = take (n * s) xs"
proof (induction n)
  case (Suc n)
  then show ?case by (simp add: take_add [of "n * s" s, symmetric] add.commute)
qed simp

lemma page_count_nat:
  assumes "1 \<le> sz" "sz \<le> 100" "0 < tot" "tot \<le> max_i64 - 100"
  shows "page_count tot sz = (tot + sz - 1) div sz" "tot \<le> page_count tot sz * sz"
    "(page_count tot sz - 1) * sz < tot"
proof -
  have "fits_i64 (tot + sz)" "fits_i64 (tot + sz - 1)" using assms by (auto simp: i64_bounds_defs)
  with assms show eq: "page_count tot sz = (tot + sz - 1) div sz"
    by (simp add: page_count_def i64_id go_div_pos)
  have d: "tot + sz - 1 = (tot + sz - 1) div sz * sz + (tot + sz - 1) mod sz"
    by (rule div_mult_mod_eq [symmetric])
  have m: "0 \<le> (tot + sz - 1) mod sz" "(tot + sz - 1) mod sz < sz"
    using assms(1) by simp_all
  show "tot \<le> page_count tot sz * sz" unfolding eq using d m by linarith
  show "(page_count tot sz - 1) * sz < tot" unfolding eq left_diff_distrib using d m by linarith
qed

text \<open>Paging is complete and without overlap: for any list of results and any page size a client
  may request, fetching every page from 1 to \<open>Pages\<close> with its offset and limit and putting the
  pieces together gives the list back, and no page of these is empty.\<close>

lemma pages_tile:
  assumes "1 \<le> sz" and "sz \<le> max_page_size" and "xs \<noteq> []" and "int (length xs) \<le> max_i64 - 100"
  defines "fetch \<equiv> \<lambda>k. take (nat (page_limit \<lparr>pp_page = k, pp_size = sz\<rparr>))
      (drop (nat (page_offset \<lparr>pp_page = k, pp_size = sz\<rparr>)) xs)"
  shows "concat (map fetch [1..page_count (int (length xs)) sz]) = xs \<and>
    (\<forall>k \<in> set [1..page_count (int (length xs)) sz]. fetch k \<noteq> [])"
proof -
  define tot n s where "tot = int (length xs)" and "n = page_count tot sz" and "s = nat sz"
  have t: "0 < tot" using assms(3) by (simp add: tot_def)
  have pc: "tot \<le> n * sz" "(n - 1) * sz < tot"
    using page_count_nat [of sz tot] assms(1,2,4) t by (simp_all add: n_def tot_def max_page_size_def)
  have lim: "nat (page_limit \<lparr>pp_page = k, pp_size = sz\<rparr>) = s" for k
    using assms(1,2) by (simp add: page_limit_def s_def)
  have off: "nat (page_offset \<lparr>pp_page = k, pp_size = sz\<rparr>) = nat (k - 1) * s" if "1 \<le> k" "k \<le> n" for k
  proof -
    have "(k - 1) * sz \<le> (n - 1) * sz" using that assms(1) by (intro mult_right_mono) auto
    then have "(k - 1) * sz \<le> max_i64" using pc(2) assms(4) by (simp add: tot_def)
    then show ?thesis
      using that assms(1) by (simp add: page_offset_saturates max_def s_def nat_mult_distrib)
  qed
  have "0 \<le> n" using pc(1) t assms(1) by (smt (verit) mult_nonpos_nonneg)
  then have up: "[1..n] = map (\<lambda>k. int k + 1) [0..<nat n]"
    by (simp add: list_eq_iff_nth_eq)
  have f: "fetch (int k + 1) = take s (drop (k * s) xs)" if "k < nat n" for k
    using that off [of "int k + 1"] lim by (simp add: fetch_def)
  have "map fetch [1..n] = map (\<lambda>k. take s (drop (k * s) xs)) [0..<nat n]"
    unfolding up by (simp add: f comp_def)
  moreover have "length xs \<le> nat n * s"
    using pc(1) \<open>0 \<le> n\<close> assms(1) by (simp add: tot_def s_def nat_mult_distrib [symmetric] le_nat_iff)
  ultimately have tile: "concat (map fetch [1..n]) = xs" by (simp add: chunks_take)
  have "fetch k \<noteq> []" if "1 \<le> k" "k \<le> n" for k
  proof -
    have "(k - 1) * sz \<le> (n - 1) * sz" using that assms(1) by (intro mult_right_mono) auto
    then have "(k - 1) * sz < int (length xs)" using pc(2) by (simp add: tot_def)
    then have "nat (k - 1) * s < length xs"
      using that assms(1) by (simp add: s_def nat_mult_distrib [symmetric] nat_less_iff)
    then show ?thesis using assms(1) by (simp add: fetch_def lim off [OF that] s_def)
  qed
  with tile show ?thesis by (simp add: n_def tot_def)
qed

lemma pages_tile_witness:
  "concat (map (\<lambda>k. take (nat (page_limit \<lparr>pp_page = k, pp_size = 2\<rparr>))
      (drop (nat (page_offset \<lparr>pp_page = k, pp_size = 2\<rparr>)) [1, 2, 3::nat])) [1..page_count 3 2]) = [1, 2, 3]"
  using pages_tile [of 2 "[1, 2, 3::nat]"] by (simp add: max_page_size_def max_i64_def)

lemma parse_sort_parts_sound:
  "parse_sort_parts allowed parts = Inr out \<Longrightarrow>
     length out = length parts \<and> (\<forall>c \<in> set out. so_field c \<in> set allowed \<and> so_field c \<noteq> [])"
proof (induction parts arbitrary: out)
  case (Cons part parts)
  then show ?case
    by (cases "parse_sort_parts allowed parts") (auto simp: Let_def split: if_splits)
qed simp

definition render_clause :: "sort_clause \<Rightarrow> string" where
  "render_clause c = (if so_desc c then CHR ''-'' # so_field c else so_field c)"

definition sort_field_ok :: "string list \<Rightarrow> string \<Rightarrow> bool" where
  "sort_field_ok allowed f \<longleftrightarrow> f \<in> set allowed \<and> f \<noteq> [] \<and> (\<forall>c \<in> set f. \<not> is_space c \<and> c \<noteq> CHR '','') \<and>
     hd f \<noteq> CHR ''-''"

lemma parse_sort_parts_render:
  "\<forall>c \<in> set cs. sort_field_ok allowed (so_field c) \<Longrightarrow> parse_sort_parts allowed (map render_clause cs) = Inr cs"
proof (induction cs)
  case (Cons c cs)
  then have ok: "sort_field_ok allowed (so_field c)" by simp
  have dash: "\<not> is_space (CHR ''-'')" by (simp add: is_space_def)
  have t: "trim_space (so_field c) = so_field c" "trim_space (CHR ''-'' # so_field c) = CHR ''-'' # so_field c"
    using ok dash by (simp_all add: trim_no_space sort_field_ok_def)
  have p: "\<not> has_prefix (so_field c) ''-''" using ok by (cases "so_field c") (auto simp: sort_field_ok_def has_prefix_def)
  have a: "so_field c \<in> set allowed" "so_field c \<noteq> []" using ok by (simp_all add: sort_field_ok_def)
  have r: "parse_sort_parts allowed (map render_clause cs) = Inr cs" using Cons by simp
  show ?case
  proof (cases "so_desc c")
    case True
    have "has_prefix (CHR ''-'' # so_field c) ''-''" "trim_prefix (CHR ''-'' # so_field c) ''-'' = so_field c"
      by (simp_all add: has_prefix_def trim_prefix_def)
    moreover have "render_clause c = CHR ''-'' # so_field c" "\<lparr>so_field = so_field c, so_desc = True\<rparr> = c"
      using True by (simp add: render_clause_def, cases c) simp
    ultimately show ?thesis using a r t by (simp add: Let_def)
  next
    case False
    then have "render_clause c = so_field c" "\<lparr>so_field = so_field c, so_desc = False\<rparr> = c"
      by (simp add: render_clause_def, cases c) simp
    with a r t p show ?thesis by (simp add: Let_def)
  qed
qed simp

text \<open>C0: Any list of sort clauses over allowed fields, written out as a parameter with a leading minus
  for descending, parses back to itself; and whatever parses has only allowed fields.\<close>

theorem parse_sort_roundtrip:
  assumes "\<forall>c \<in> set cs. sort_field_ok allowed (so_field c)"
  shows "parse_sort (join_with '','' (map render_clause cs)) allowed = Inr cs"
proof (cases cs)
  case Nil
  then show ?thesis by (simp add: parse_sort_def trim_space_def)
next
  case (Cons c cs')
  have "CHR '','' \<notin> set (render_clause c)" if "sort_field_ok allowed (so_field c)" for c
    using that by (cases "so_desc c") (auto simp: render_clause_def sort_field_ok_def)
  then have "\<forall>s \<in> set (map render_clause cs). CHR '','' \<notin> set s" using assms by simp
  from split_join_on [OF _ this] Cons
  have sp: "split_on (CHR '','') (join_with '','' (map render_clause cs)) = map render_clause cs" by simp
  obtain x xs where x: "render_clause c = x # xs" "\<not> is_space x"
    using assms Cons by (cases "render_clause c") (auto simp: render_clause_def sort_field_ok_def is_space_def split: if_splits)
  have "\<exists>ys. join_with '','' (map render_clause cs) = x # ys"
    using x(1) Cons by (cases cs') auto
  then have "trim_space (join_with '','' (map render_clause cs)) \<noteq> []"
    using x(2) by (auto simp: trim_space_def dropWhile_eq_Nil_conv)
  then show ?thesis
    using sp parse_sort_parts_render [OF assms] by (simp add: parse_sort_def)
qed

theorem parse_sort_roundtrip_witness:
  "parse_sort ''-created,name'' [''name'', ''created''] =
     Inr [\<lparr>so_field = ''created'', so_desc = True\<rparr>, \<lparr>so_field = ''name'', so_desc = False\<rparr>]"
  using parse_sort_roundtrip [of "[\<lparr>so_field = ''created'', so_desc = True\<rparr>, \<lparr>so_field = ''name'', so_desc = False\<rparr>]"
      "[''name'', ''created'']"]
  by (simp add: sort_field_ok_def render_clause_def is_space_def)

end
