(* ===== verification/Dotenv.thy ===== *)
theory Dotenv
  imports Prelude
begin

text \<open>
  \<open>config/dotenv.go\<close>: parsing of .env files and loading them into the environment. The scanner
  of package \<open>bufio\<close> is \<open>scan_lines\<close>: lines without their newline and an optional carriage
  return before it, and the error when a line is too long. The environment is a map; file
  contents come from the parameter \<open>fs\<close>, which answers \<open>os.Open\<close>.
\<close>

section \<open>Keys, quotes and escapes\<close>

definition is_digit :: "char \<Rightarrow> bool" where
  "is_digit c \<longleftrightarrow> 48 \<le> char_code c \<and> char_code c \<le> 57"

definition is_letter :: "char \<Rightarrow> bool" where
  "is_letter c \<longleftrightarrow> (97 \<le> char_code c \<and> char_code c \<le> 122) \<or> (65 \<le> char_code c \<and> char_code c \<le> 90)"

definition valid_key :: "string \<Rightarrow> bool" where
  "valid_key k \<longleftrightarrow> k \<noteq> [] \<and> \<not> is_digit (hd k) \<and>
     (\<forall>c \<in> set k. c = CHR ''_'' \<or> is_letter c \<or> is_digit c)"

definition backslash :: char where "backslash = CHR 0x5C"
definition dquote :: char where "dquote = CHR 0x22"
definition squote :: char where "squote = CHR 0x27"
definition dollar :: char where "dollar = CHR ''$''"
definition lbrace :: char where "lbrace = CHR 0x7B"
definition rbrace :: char where "rbrace = CHR 0x7D"

fun closing_quote :: "string \<Rightarrow> nat option" where
  "closing_quote [] = None"
| "closing_quote (c # cs) =
     (if c = backslash then (case cs of [] \<Rightarrow> None | _ # r \<Rightarrow> map_option (\<lambda>i. i + 2) (closing_quote r))
      else if c = dquote then Some 0
      else map_option Suc (closing_quote cs))"

text \<open>U+E000 in UTF-8.\<close>

definition escaped_dollar :: string where
  "escaped_dollar = [CHR 0xEE, CHR 0x80, CHR 0x80]"

fun unescape_double :: "string \<Rightarrow> (char, string) result" where
  "unescape_double [] = Inr []"
| "unescape_double (c # cs) =
     (if c \<noteq> backslash then map_sum id ((#) c) (unescape_double cs)
      else case cs of
             [] \<Rightarrow> Inr [c]
           | e # r \<Rightarrow>
               (if e = CHR ''n'' then map_sum id ((#) (CHR 0x0A)) (unescape_double r)
                else if e = CHR ''t'' then map_sum id ((#) (CHR 0x09)) (unescape_double r)
                else if e = CHR ''r'' then map_sum id ((#) (CHR 0x0D)) (unescape_double r)
                else if e = dquote \<or> e = backslash then map_sum id ((#) e) (unescape_double r)
                else if e = dollar then map_sum id ((@) escaped_dollar) (unescape_double r)
                else Inl e))"

section \<open>Expansion of references\<close>

definition var_open :: string where "var_open = [dollar, lbrace]"

lemma index_of_bound: "index_of s p = Some i \<Longrightarrow> i + length p \<le> length s"
proof (induction s arbitrary: i)
  case (Cons x xs)
  show ?case
  proof (cases "has_prefix (x # xs) p")
    case True
    then obtain t where "x # xs = p @ t" unfolding has_prefix_iff by auto
    then have "length p \<le> length (x # xs)" by (simp only: length_append)
    with True Cons.prems show ?thesis by simp
  next
    case False
    with Cons show ?thesis by auto
  qed
qed (auto split: if_splits)

function expand_loop :: "(string \<Rightarrow> string) \<Rightarrow> string \<Rightarrow> string" where
  "expand_loop resolve s =
     (case index_of s var_open of
        None \<Rightarrow> s
      | Some i \<Rightarrow>
          (case index_byte (drop i s) rbrace of
             None \<Rightarrow> take (i + 2) s @ expand_loop resolve (drop (i + 2) s)
           | Some j \<Rightarrow>
               (let name = take (j - 2) (drop (i + 2) s)
                in if \<not> valid_key name then take (i + 2) s @ expand_loop resolve (drop (i + 2) s)
                   else take i s @ resolve name @ expand_loop resolve (drop (i + j + 1) s))))"
  by pat_completeness auto
termination
  by (relation "measure (\<lambda>(r, s). length s)") (auto dest!: index_of_bound simp: var_open_def)

declare expand_loop.simps [simp del]

definition expand :: "string \<Rightarrow> (string \<Rightarrow> string) \<Rightarrow> string" where
  "expand s resolve = (if \<not> contains_str s var_open then s else expand_loop resolve s)"

function replace_all :: "string \<Rightarrow> string \<Rightarrow> string \<Rightarrow> string" where
  "replace_all s old new =
     (if old = [] then s
      else case s of
             [] \<Rightarrow> []
           | c # cs \<Rightarrow> if has_prefix s old then new @ replace_all (drop (length old) s) old new
                      else c # replace_all cs old new)"
  by pat_completeness auto
termination
  by (relation "measure (\<lambda>(s, old, new). length s)") auto

declare replace_all.simps [simp del]

section \<open>Parsing\<close>

datatype dotenv_error =
    BadLine nat
  | UnterminatedSingle nat string
  | UnterminatedDouble nat string
  | BadEscape nat string char
  | LineTooLong

type_synonym env = "string \<Rightarrow> string option"

text \<open>The inner loop of the double-quoted case: body, remaining lines, lines read.\<close>

fun collect_quoted :: "string \<Rightarrow> string list \<Rightarrow> nat \<Rightarrow> (string \<times> string list \<times> nat) option" where
  "collect_quoted body lines n =
     (if closing_quote body \<noteq> None then Some (body, lines, n)
      else case lines of
             [] \<Rightarrow> None
           | l # ls \<Rightarrow> collect_quoted (body @ CHR 0x0A # l) ls (n + 1))"

declare collect_quoted.simps [simp del]

lemma collect_quoted_shorter:
  "collect_quoted body lines n = Some (b, ls, n') \<Longrightarrow> length ls \<le> length lines"
proof (induction body lines n rule: collect_quoted.induct)
  case (1 body lines n)
  then show ?case
    by (subst (asm) collect_quoted.simps) (fastforce split: if_splits list.splits)
qed

definition resolve_var :: "env \<Rightarrow> env \<Rightarrow> string \<Rightarrow> string" where
  "resolve_var defined lookup k =
     (case defined k of Some v \<Rightarrow> v | None \<Rightarrow> (case lookup k of Some v \<Rightarrow> v | None \<Rightarrow> []))"

definition trim_left_blank :: "string \<Rightarrow> string" where
  "trim_left_blank s = dropWhile (\<lambda>c. c = CHR '' '' \<or> c = CHR 0x09) s"

text \<open>One line (with the lines after it, for a quoted value that continues): the key, its value,
  the lines left and the line number reached; \<open>None\<close> for blank lines and comments.\<close>

definition parse_value ::
  "env \<Rightarrow> env \<Rightarrow> string \<Rightarrow> string \<Rightarrow> string list \<Rightarrow> nat \<Rightarrow> (dotenv_error, string \<times> string list \<times> nat) result" where
  "parse_value defined lookup key raw0 lines n =
     (let raw = trim_left_blank raw0
      in if has_prefix raw [squote] then
           (case index_byte (tl raw) squote of
              None \<Rightarrow> Inl (UnterminatedSingle n key)
            | Some e \<Rightarrow> Inr (take e (tl raw), lines, n))
         else if has_prefix raw [dquote] then
           (case collect_quoted (tl raw) lines n of
              None \<Rightarrow> Inl (UnterminatedDouble n key)
            | Some (body, lines', n') \<Rightarrow>
                (case unescape_double (take (the (closing_quote body)) body) of
                   Inl c \<Rightarrow> Inl (BadEscape n key c)
                 | Inr v \<Rightarrow>
                     Inr (replace_all (expand v (resolve_var defined lookup)) escaped_dollar [dollar], lines', n')))
         else
           (let raw' = (case index_of raw '' #'' of Some i \<Rightarrow> take i raw | None \<Rightarrow> raw)
            in Inr (expand (trim_space raw') (resolve_var defined lookup), lines, n)))"

lemma parse_value_shorter: "parse_value d l k r lines n = Inr (v, lines', n') \<Longrightarrow> length lines' \<le> length lines"
  by (auto simp: parse_value_def Let_def split: if_splits option.splits sum.splits prod.splits dest: collect_quoted_shorter)

function parse_lines ::
  "env \<Rightarrow> env \<Rightarrow> string list \<Rightarrow> nat \<Rightarrow> (dotenv_error, (string \<times> string) list) result" where
  "parse_lines defined lookup [] n = Inr []"
| "parse_lines defined lookup (l # lines) n =
     (let line = trim_space l
      in if line = [] \<or> has_prefix line ''#'' then parse_lines defined lookup lines (n + 1)
         else
           (case cut_at (CHR ''='') (trim_prefix line ''export '') of
              (key0, raw, ok) \<Rightarrow>
                let key = trim_space key0
                in if \<not> ok \<or> \<not> valid_key key then Inl (BadLine (n + 1))
                   else
                     case parse_value defined lookup key raw lines (n + 1) of
                       Inl e \<Rightarrow> Inl e
                     | Inr (v, lines', n') \<Rightarrow>
                         map_sum id ((#) (key, v)) (parse_lines (defined(key \<mapsto> v)) lookup lines' n')))"
  by pat_completeness auto
termination
  by (relation "measure (\<lambda>(d, l, lines, n). length lines)") (auto dest: parse_value_shorter)

text \<open>The lines of a file, and whether the scanner stopped at one longer than its buffer.\<close>

definition drop_cr :: "string \<Rightarrow> string" where
  "drop_cr s = (if s \<noteq> [] \<and> last s = CHR 0x0D then butlast s else s)"

definition raw_lines :: "string \<Rightarrow> string list" where
  "raw_lines s = (let ls = split_on (CHR 0x0A) s in if last ls = [] then butlast ls else ls)"

definition scan_lines :: "string \<Rightarrow> string list \<times> bool" where
  "scan_lines s =
     (let ls = raw_lines s; ok = takeWhile (\<lambda>l. length l < 1048576) ls
      in (map drop_cr ok, length ok < length ls))"

definition parse_dotenv :: "string \<Rightarrow> env \<Rightarrow> (dotenv_error, (string \<times> string) list) result" where
  "parse_dotenv content lookup =
     (case scan_lines content of (lines, too_long) \<Rightarrow>
        (case parse_lines Map.empty lookup lines 0 of
           Inl e \<Rightarrow> Inl e
         | Inr kvs \<Rightarrow> if too_long then Inl LineTooLong else Inr kvs))"

text \<open>\<open>ParseDotEnv\<close>: the last binding of a key in the file counts.\<close>

definition parse_dotenv_map :: "string \<Rightarrow> env \<Rightarrow> (dotenv_error, env) result" where
  "parse_dotenv_map content lookup = map_sum id (\<lambda>kvs. map_of (rev kvs)) (parse_dotenv content lookup)"

section \<open>Loading\<close>

datatype open_result = Opened string | NotExist | OpenFailed

datatype load_error = OpenError string | ParseError string dotenv_error | SetError string string

text \<open>\<open>os.Setenv\<close> refuses values with a NUL byte; keys are valid here.\<close>

fun set_vars :: "string \<Rightarrow> (string \<times> string) list \<Rightarrow> env \<Rightarrow> load_error option \<times> env" where
  "set_vars name [] e = (None, e)"
| "set_vars name ((k, v) # kvs) e =
     (if e k \<noteq> None then set_vars name kvs e
      else if CHR 0x00 \<in> set v then (Some (SetError k name), e)
      else set_vars name kvs (e(k \<mapsto> v)))"

fun load_env_files :: "(string \<Rightarrow> open_result) \<Rightarrow> bool \<Rightarrow> string list \<Rightarrow> env \<Rightarrow> load_error option \<times> env" where
  "load_env_files fs must_exist [] e = (None, e)"
| "load_env_files fs must_exist (name # names) e =
     (case fs name of
        NotExist \<Rightarrow> if must_exist then (Some (OpenError name), e) else load_env_files fs must_exist names e
      | OpenFailed \<Rightarrow> (Some (OpenError name), e)
      | Opened content \<Rightarrow>
          (case parse_dotenv content e of
             Inl err \<Rightarrow> (Some (ParseError name err), e)
           | Inr kvs \<Rightarrow>
               (case set_vars name kvs e of
                  (Some err, e') \<Rightarrow> (Some err, e')
                | (None, e') \<Rightarrow> load_env_files fs must_exist names e')))"

definition explicit_paths :: "string \<Rightarrow> string list" where
  "explicit_paths s = filter (\<lambda>p. p \<noteq> []) (map trim_space (split_on (CHR '','') s))"

text \<open>\<open>exe_dir\<close>: the directory of the executable, when it can be found and is not the working
  directory.\<close>

definition default_env_files :: "string option \<Rightarrow> string list" where
  "default_env_files exe_dir =
     ''.env'' # (case exe_dir of None \<Rightarrow> [] | Some d \<Rightarrow> [d @ ''/.env''])"

definition load_dotenv ::
  "(string \<Rightarrow> open_result) \<Rightarrow> string option \<Rightarrow> string list \<Rightarrow> env \<Rightarrow> load_error option \<times> env" where
  "load_dotenv fs exe_dir files e =
     (case e ''TORGE_ENV_FILE'' of
        Some explicit \<Rightarrow>
          if explicit \<noteq> [] then load_env_files fs True (explicit_paths explicit) e
          else load_env_files fs False (if files = [] then default_env_files exe_dir else files) e
      | None \<Rightarrow> load_env_files fs False (if files = [] then default_env_files exe_dir else files) e)"

section \<open>Precedence\<close>

lemma set_vars_keeps: "e k = Some v \<Longrightarrow> snd (set_vars name kvs e) k = Some v"
proof (induction name kvs e rule: set_vars.induct)
  case (2 name k' v' kvs e)
  then show ?case by (cases "k' = k") (auto simp: fun_upd_def)
qed simp

lemma load_env_files_keeps: "e k = Some v \<Longrightarrow> snd (load_env_files fs mx names e) k = Some v"
proof (induction names arbitrary: e)
  case (Cons name names)
  show ?case
  proof (cases "fs name")
    case (Opened content)
    show ?thesis
    proof (cases "parse_dotenv content e")
      case (Inr kvs)
      obtain r e' where s: "set_vars name kvs e = (r, e')" by fastforce
      have "e' k = Some v" using set_vars_keeps [where e = e and k = k and v = v and name = name and kvs = kvs] Cons.prems s by simp
      with Cons.IH s Opened Inr show ?thesis by (cases r) simp_all
    qed (use Opened Cons.prems in simp)
  qed (use Cons in \<open>cases mx; simp\<close>)+
qed simp

text \<open>Variables already set in the environment always win: whatever files are named, found, missing
  or malformed, loading never changes or removes one.\<close>

lemma dotenv_environment_wins:
  assumes "e k = Some v"
  shows "snd (load_dotenv fs exe_dir files e) k = Some v"
  using load_env_files_keeps [where e = e and k = k and v = v] assms
  by (simp add: load_dotenv_def split: option.splits)

lemma dotenv_environment_wins_witness:
  "snd (load_dotenv (\<lambda>f. Opened ''A=1'') None [] [''A'' \<mapsto> ''0'']) ''A'' = Some ''0''"
  by (rule dotenv_environment_wins) simp

lemma set_vars_first:
  "fst (set_vars name kvs e) = None \<Longrightarrow> snd (set_vars name kvs e) = map_of kvs ++ e"
proof (induction name kvs e rule: set_vars.induct)
  case (2 name k v kvs e)
  show ?case
  proof (cases "e k")
    case None
    with 2 have ih: "CHR 0x00 \<notin> set v" "snd (set_vars name kvs (e(k \<mapsto> v))) = map_of kvs ++ e(k \<mapsto> v)"
      by (simp_all add: fun_upd_def split: if_splits)
    have "map_of kvs ++ e(k \<mapsto> v) = map_of ((k, v) # kvs) ++ e"
      using None by (auto simp: map_add_def fun_eq_iff split: option.splits)
    with ih None show ?thesis by (simp only: set_vars.simps simp_thms if_False)
  next
    case (Some w)
    with 2 have ih: "snd (set_vars name kvs e) = map_of kvs ++ e" by simp
    have "map_of kvs ++ e = map_of ((k, v) # kvs) ++ e"
      using Some by (auto simp: map_add_def fun_eq_iff split: option.splits)
    moreover have "snd (set_vars name ((k, v) # kvs) e) = snd (set_vars name kvs e)" using Some by simp
    ultimately show ?thesis using ih by (simp only:)
  qed
qed simp

text \<open>With several files the first to set a variable wins, and within a file its first line for
  it: if loading succeeds, a variable that was not set before gets the first value the first
  existing file binds to it, whatever the later files say.\<close>

theorem dotenv_first_binding_wins:
  assumes "fst (load_env_files fs mx (name # names) e) = None"
    and "fs name = Opened content" and "parse_dotenv content e = Inr kvs"
    and "e k = None" and "map_of kvs k = Some v"
  shows "snd (load_env_files fs mx (name # names) e) k = Some v"
proof -
  obtain r e' where s: "set_vars name kvs e = (r, e')" by fastforce
  with assms(1-3) have "r = None" by (cases r) auto
  with set_vars_first [of name kvs e] s have "e' k = Some v" using assms(4,5) by (simp add: map_add_def)
  with load_env_files_keeps s \<open>r = None\<close> assms(2,3) show ?thesis by simp
qed

section \<open>Quoting and parsing\<close>

definition escape_char :: "char \<Rightarrow> string" where
  "escape_char c =
     (if c = CHR 0x0A then [backslash, CHR ''n''] else if c = CHR 0x09 then [backslash, CHR ''t'']
      else if c = CHR 0x0D then [backslash, CHR ''r'']
      else if c = dquote \<or> c = backslash \<or> c = dollar then [backslash, c] else [c])"

definition escape_double :: "string \<Rightarrow> string" where
  "escape_double v = concat (map escape_char v)"

definition hide_dollars :: "string \<Rightarrow> string" where
  "hide_dollars v = concat (map (\<lambda>c. if c = dollar then escaped_dollar else [c]) v)"

lemmas char_defs = backslash_def dquote_def squote_def dollar_def lbrace_def rbrace_def

lemma escape_double_Cons: "escape_double (c # v) = escape_char c @ escape_double v"
  by (simp add: escape_double_def)

lemma closing_quote_escape: "closing_quote (escape_double v @ dquote # r) = Some (length (escape_double v))"
proof (induction v)
  case Nil
  then show ?case by (simp add: escape_double_def char_defs)
next
  case (Cons c v)
  then show ?case by (simp add: escape_double_Cons escape_char_def char_defs)
qed

lemma unescape_escape: "unescape_double (escape_double v) = Inr (hide_dollars v)"
proof (induction v)
  case Nil
  then show ?case by (simp add: escape_double_def hide_dollars_def)
next
  case (Cons c v)
  then show ?case
    by (simp add: escape_double_Cons escape_char_def hide_dollars_def char_defs)
qed

lemma index_of_subset: "index_of s p = Some i \<Longrightarrow> set p \<subseteq> set s"
proof (induction s arbitrary: i)
  case (Cons x xs)
  show ?case
  proof (cases "has_prefix (x # xs) p")
    case True
    then obtain t where "x # xs = p @ t" unfolding has_prefix_iff by auto
    then have "set (x # xs) = set p \<union> set t" by (simp only: set_append)
    then show ?thesis by auto
  next
    case False
    with Cons show ?thesis by auto
  qed
qed (auto split: if_splits)

lemma expand_no_dollar: "dollar \<notin> set s \<Longrightarrow> expand s resolve = s"
  using index_of_subset [of s var_open] by (auto simp: expand_def contains_str_def var_open_def)

lemma dollar_hidden: "dollar \<notin> set (hide_dollars v)"
  by (induction v) (auto simp: hide_dollars_def escaped_dollar_def dollar_def)

lemma restore_dollars: "CHR 0xEE \<notin> set v \<Longrightarrow> replace_all (hide_dollars v) escaped_dollar [dollar] = v"
proof (induction v)
  case Nil
  then show ?case by (simp add: hide_dollars_def replace_all.simps)
next
  case (Cons c v)
  show ?case
  proof (cases "c = dollar")
    case True
    have "hide_dollars (c # v) = escaped_dollar @ hide_dollars v" using True by (simp add: hide_dollars_def)
    moreover have "replace_all (escaped_dollar @ hide_dollars v) escaped_dollar [dollar] =
        dollar # replace_all (hide_dollars v) escaped_dollar [dollar]"
      by (subst replace_all.simps) (simp add: escaped_dollar_def has_prefix_def)
    ultimately show ?thesis using Cons True by simp
  next
    case False
    have "hide_dollars (c # v) = c # hide_dollars v" using False by (simp add: hide_dollars_def)
    moreover have "replace_all (c # hide_dollars v) escaped_dollar [dollar] =
        c # replace_all (hide_dollars v) escaped_dollar [dollar]"
      using Cons.prems by (subst replace_all.simps) (auto simp: escaped_dollar_def has_prefix_def)
    ultimately show ?thesis using Cons by simp
  qed
qed

lemma valid_key_char:
  assumes "valid_key k" and "c \<in> set k"
  shows "\<not> is_space c" and "c \<noteq> CHR ''=''" and "c \<noteq> CHR ''#''" and "c \<noteq> CHR '' ''"
    and "c \<noteq> CHR 0x0A"
proof -
  have "c = CHR ''_'' \<or> is_letter c \<or> is_digit c" using assms by (simp add: valid_key_def)
  then have l: "48 \<le> char_code c" by (auto simp: is_letter_def is_digit_def char_code_def)
  from \<open>c = CHR ''_'' \<or> is_letter c \<or> is_digit c\<close> show "c \<noteq> CHR ''=''"
    by (auto simp: is_letter_def is_digit_def char_code_def)
  from l show "\<not> is_space c" "c \<noteq> CHR ''#''" "c \<noteq> CHR '' ''" "c \<noteq> CHR 0x0A"
    by (auto simp: is_space_def char_code_def)
qed

lemma key_line:
  assumes "valid_key key" and "rest \<noteq> []" and "\<not> is_space (last rest)"
  shows "trim_space (key @ CHR ''='' # rest) = key @ CHR ''='' # rest"
    and "\<not> has_prefix (key @ CHR ''='' # rest) ''#''"
    and "trim_prefix (key @ CHR ''='' # rest) ''export '' = key @ CHR ''='' # rest"
    and "cut_at (CHR ''='') (key @ CHR ''='' # rest) = (key, rest, True)"
    and "trim_space key = key"
proof -
  obtain c k where k: "key = c # k" using assms(1) by (cases key) (auto simp: valid_key_def)
  show "trim_space (key @ CHR ''='' # rest) = key @ CHR ''='' # rest"
    using assms valid_key_char(1) [OF assms(1)] k by (intro trim_ends) auto
  show "\<not> has_prefix (key @ CHR ''='' # rest) ''#''"
    using valid_key_char(3) [OF assms(1)] k by (auto simp: has_prefix_def)
  have eq: "CHR ''='' \<notin> set key" using valid_key_char(2) [OF assms(1)] by auto
  then show "cut_at (CHR ''='') (key @ CHR ''='' # rest) = (key, rest, True)" by (rule cut_at_append)
  have "\<not> has_prefix (key @ CHR ''='' # rest) ''export ''"
  proof
    assume "has_prefix (key @ CHR ''='' # rest) ''export ''"
    then obtain t where t: "key @ CHR ''='' # rest = ''export '' @ t" unfolding has_prefix_iff by auto
    have "takeWhile (\<lambda>c. c \<noteq> CHR ''='') (key @ CHR ''='' # rest) = key"
      using eq by (subst takeWhile_append2) auto
    then have "CHR '' '' \<in> set key" unfolding t by auto
    with valid_key_char(4) [OF assms(1)] show False by blast
  qed
  then show "trim_prefix (key @ CHR ''='' # rest) ''export '' = key @ CHR ''='' # rest"
    by (simp add: trim_prefix_def)
  show "trim_space key = key" using valid_key_char(1) [OF assms(1)] by (intro trim_no_space) blast
qed

lemma parse_double_quoted:
  assumes "CHR 0xEE \<notin> set v"
  shows "parse_value d l key (dquote # escape_double v @ [dquote]) lines n = Inr (v, lines, n)"
proof -
  let ?raw = "dquote # escape_double v @ [dquote]"
  have t: "trim_left_blank ?raw = ?raw" by (simp add: trim_left_blank_def dquote_def)
  have q: "\<not> has_prefix ?raw [squote]" "has_prefix ?raw [dquote]"
    by (simp_all add: has_prefix_def char_defs)
  have c: "collect_quoted (escape_double v @ [dquote]) lines n = Some (escape_double v @ [dquote], lines, n)"
    using closing_quote_escape [of v "[]"] by (subst collect_quoted.simps) simp
  have e: "expand (hide_dollars v) (resolve_var d l) = hide_dollars v"
    by (rule expand_no_dollar [OF dollar_hidden])
  show ?thesis
    using t q c closing_quote_escape [of v "[]"]
    by (simp add: parse_value_def Let_def unescape_escape e restore_dollars [OF assms])
qed

lemma escape_no_newline: "CHR 0x0A \<notin> set (escape_double v)"
  by (induction v) (auto simp: escape_double_def escape_char_def char_defs)

lemma parse_one_line:
  assumes "CHR 0x0A \<notin> set line" and "length line < 1048576" and "line \<noteq> []" and "last line \<noteq> CHR 0x0D"
  shows "parse_dotenv (line @ [CHR 0x0A]) lookup = parse_lines Map.empty lookup [line] 0"
proof -
  have "split_on (CHR 0x0A) (line @ [CHR 0x0A]) = [line, []]"
    using split_on_append_sep [OF assms(1), of "[]"] by simp
  then have "raw_lines (line @ [CHR 0x0A]) = [line]" by (simp add: raw_lines_def)
  then have "scan_lines (line @ [CHR 0x0A]) = ([line], False)"
    using assms(2-4) by (simp add: scan_lines_def drop_cr_def)
  then show ?thesis by (simp add: parse_dotenv_def split: sum.splits)
qed

lemma quoted_value_parses:
  assumes "valid_key key" and "CHR 0xEE \<notin> set v"
    and "length (key @ CHR ''='' # dquote # escape_double v @ [dquote]) < 1048576"
  shows "parse_dotenv (key @ CHR ''='' # dquote # escape_double v @ [dquote, CHR 0x0A]) lookup = Inr [(key, v)]"
proof -
  let ?rest = "dquote # escape_double v @ [dquote]"
  let ?line = "key @ CHR ''='' # ?rest"
  have nl: "CHR 0x0A \<notin> set ?line"
    using valid_key_char(5) [OF assms(1)] escape_no_newline [of v] by (auto simp: dquote_def)
  have last: "last ?line = dquote" by simp
  have k: "trim_space ?line = ?line" "\<not> has_prefix ?line ''#''" "trim_prefix ?line ''export '' = ?line"
    "cut_at (CHR ''='') ?line = (key, ?rest, True)" "trim_space key = key"
    using key_line [OF assms(1), of ?rest] by (simp_all add: is_space_def dquote_def)
  have "parse_dotenv (?line @ [CHR 0x0A]) lookup = parse_lines Map.empty lookup [?line] 0"
    by (rule parse_one_line [OF nl assms(3)]) (simp_all add: last dquote_def)
  moreover have "parse_lines Map.empty lookup [?line] 0 = Inr [(key, v)]"
    using k assms(1) by (simp add: Let_def parse_double_quoted [OF assms(2)])
  ultimately show ?thesis by simp
qed

text \<open>Any value without U+E000, written in double quotes with its special characters escaped, is
  read back exactly, whatever it contains: quotes, backslashes, newlines, hash signs, dollar signs
  and references, which are then not expanded.\<close>

lemma dotenv_quote_roundtrip:
  assumes "valid_key key" and "CHR 0xEE \<notin> set v"
    and "length (key @ CHR ''='' # dquote # escape_double v @ [dquote]) < 1048576"
  shows "parse_dotenv (key @ CHR ''='' # dquote # escape_double v @ [dquote, CHR 0x0A]) lookup = Inr [(key, v)]"
  using assms by (rule quoted_value_parses)

lemma dotenv_quote_roundtrip_witness:
  "parse_dotenv (''K'' @ CHR ''='' # dquote # escape_double ''a # $'' @ [dquote, CHR 0x0A]) Map.empty = Inr [(''K'', ''a # $'')]"
  by (rule dotenv_quote_roundtrip)
     (simp_all add: valid_key_def is_digit_def is_letter_def char_code_def escape_double_def escape_char_def char_defs)

theorem dotenv_first_binding_wins_witness:
  "snd (load_env_files (\<lambda>f. if f = ''a'' then Opened (''K'' @ CHR ''='' # dquote # escape_double ''1'' @ [dquote, CHR 0x0A]) else NotExist)
     False [''a'', ''b''] Map.empty) ''K'' = Some ''1''"
proof -
  let ?c = "''K'' @ CHR ''='' # dquote # escape_double ''1'' @ [dquote, CHR 0x0A]"
  let ?fs = "\<lambda>f. if f = ''a'' then Opened ?c else NotExist"
  have p: "parse_dotenv ?c Map.empty = Inr [(''K'', ''1'')]"
    by (rule quoted_value_parses)
       (simp_all add: valid_key_def is_digit_def is_letter_def char_code_def escape_double_def escape_char_def char_defs)
  have o: "?fs ''a'' = Opened ?c" by simp
  have l: "fst (load_env_files ?fs False [''a'', ''b''] Map.empty) = None" using p by simp
  show ?thesis by (rule dotenv_first_binding_wins [OF l o p]) simp_all
qed

text \<open>Within one file \<open>LoadDotEnv\<close> keeps the first binding of a key and \<open>ParseDotEnv\<close> the last.\<close>

lemma duplicate_key_disagreement:
  "snd (set_vars ''.env'' [(''A'', ''1''), (''A'', ''2'')] Map.empty) ''A'' = Some ''1'' \<and>
   map_of (rev [(''A'', ''1''), (''A'', ''2'')]) ''A'' = Some ''2''"
  by simp

end
