(* ===== verification/Container.thy ===== *)
theory Container
  imports Prelude
begin

text \<open>
  \<open>container.go\<close>: registration of constructors, validation of the dependency graph, construction
  of the singletons and resolution within a request.

  A \<open>reflect.Type\<close> is a \<open>go_type\<close>; a constructor is an identity \<open>'c\<close> whose behaviour is the
  parameter \<open>call\<close> (user code: from the arguments to the value and the error it returns); a
  value is a \<open>'v\<close>, and \<open>kind\<close> says what the type switches of \<open>manage\<close> see of it. Providers are
  compared by identity in the code and by their fields here; \<open>ct_wf\<close> holds at most one
  provider per type. The field \<open>ct_calls\<close> is a history of the constructor calls and is never
  read by the operations.
\<close>

section \<open>State\<close>

datatype go_type = CtxT | ReqCtxT | LoggerT | EnvT | ErrorT | NamedT string

definition builtin_dep :: "go_type \<Rightarrow> bool" where
  "builtin_dep t \<longleftrightarrow> t \<in> {CtxT, ReqCtxT, LoggerT, EnvT}"

datatype scope = SingletonScope | RequestScope

record ('c, 'v) provider =
  p_out :: go_type
  p_ctor :: "'c option"
  p_params :: "go_type list"
  p_returns_err :: bool
  p_scope :: scope
  p_supplied :: "'v option"
  p_location :: string
  p_module :: string

datatype di_diag =
    InvalidProvider string
  | DuplicateDependency go_type
  | MissingDependency go_type go_type
  | SingletonOnContext go_type
  | SingletonOnRequest go_type go_type
  | DependencyCycle "go_type list"

record value_kind =
  vk_nil :: bool
  vk_lifecycle :: bool
  vk_closer :: bool

record 'v ct_hook =
  ch_name :: go_type
  ch_value :: 'v
  ch_starts :: bool

datatype 'v arg = ArgContext | ArgRequest | ArgLogger | ArgEnv | ArgValue 'v

record ('c, 'v) container =
  ct_providers :: "go_type \<Rightarrow> ('c, 'v) provider option"
  ct_order :: "('c, 'v) provider list"
  ct_singletons :: "go_type \<Rightarrow> 'v option"
  ct_hooks :: "'v ct_hook list"
  ct_built :: bool
  ct_calls :: "(go_type \<times> 'v arg list) list"

definition new_container :: "('c, 'v) container" where
  "new_container = \<lparr>ct_providers = Map.empty, ct_order = [], ct_singletons = Map.empty, ct_hooks = [],
     ct_built = False, ct_calls = []\<rparr>"

section \<open>Registration\<close>

record ('c, 'v) invocation =
  in_fn :: 'c
  in_params :: "go_type list"
  in_module :: string

record ('c, 'v) di_app =
  da_container :: "('c, 'v) container"
  da_diags :: "di_diag list"
  da_frozen :: bool
  da_module :: string
  da_invokes :: "('c, 'v) invocation list"

text \<open>What a registration call does besides changing the state: return, or panic.\<close>

datatype registered = Returned | LatePanic go_type | ReflectPanic | LateInvokePanic

definition add_diag :: "di_diag \<Rightarrow> ('c, 'v) di_app \<Rightarrow> ('c, 'v) di_app" where
  "add_diag d a = a\<lparr>da_diags := da_diags a @ [d]\<rparr>"

definition add_provider ::
  "('c, 'v) provider \<Rightarrow> bool \<Rightarrow> ('c, 'v) di_app \<Rightarrow> registered \<times> ('c, 'v) di_app" where
  "add_provider p0 replace a =
     (if da_frozen a \<or> ct_built (da_container a) then (LatePanic (p_out p0), a)
      else
        let p = p0\<lparr>p_module := da_module a\<rparr>; ct = da_container a
        in case ct_providers ct (p_out p) of
             None \<Rightarrow> (Returned, a\<lparr>da_container := ct\<lparr>ct_providers := (ct_providers ct)(p_out p \<mapsto> p),
                                                   ct_order := ct_order ct @ [p]\<rparr>\<rparr>)
           | Some existing \<Rightarrow>
               if \<not> replace then (Returned, add_diag (DuplicateDependency (p_out p)) a)
               else (Returned, a\<lparr>da_container := ct\<lparr>ct_providers := (ct_providers ct)(p_out p \<mapsto> p),
                                                   ct_order := remove1 existing (ct_order ct) @ [p]\<rparr>\<rparr>))"

text \<open>The constructor argument of \<open>Provide\<close>: nil, something that is no function, a nil
  function, or a function with its signature.\<close>

datatype 'c ctor_arg = NilArg | NotFunc | NilFunc | Func 'c bool "go_type list" "go_type list"

definition register_ctor ::
  "'c ctor_arg \<Rightarrow> bool \<Rightarrow> bool \<Rightarrow> string \<Rightarrow> ('c, 'v) di_app \<Rightarrow> registered \<times> ('c, 'v) di_app" where
  "register_ctor ctor request_scoped replace loc a =
     (case ctor of
        NilArg \<Rightarrow> (ReflectPanic, a)
      | NotFunc \<Rightarrow> (Returned, add_diag (InvalidProvider ''not a function'') a)
      | NilFunc \<Rightarrow> (Returned, add_diag (InvalidProvider ''not a function'') a)
      | Func f variadic ins outs \<Rightarrow>
          if variadic then
            (Returned, add_diag (InvalidProvider ''variadic constructors are not supported'') a)
          else if length outs = 0 \<or> length outs > 2 \<or> (length outs = 2 \<and> outs ! 1 \<noteq> ErrorT) then
            (Returned, add_diag (InvalidProvider ''must return T or (T, error)'') a)
          else if outs ! 0 = ErrorT \<or> builtin_dep (outs ! 0) then
            (Returned, add_diag (InvalidProvider ''cannot provide built-in type'') a)
          else
            add_provider
              \<lparr>p_out = outs ! 0, p_ctor = Some f, p_params = ins, p_returns_err = (length outs = 2),
               p_scope = (if request_scoped then RequestScope else SingletonScope), p_supplied = None,
               p_location = loc, p_module = []\<rparr> replace a)"

definition supply_value :: "go_type \<Rightarrow> 'v \<Rightarrow> string \<Rightarrow> bool \<Rightarrow> ('c, 'v) di_app \<Rightarrow> registered \<times> ('c, 'v) di_app" where
  "supply_value t v loc replace a =
     add_provider \<lparr>p_out = t, p_ctor = None, p_params = [], p_returns_err = False, p_scope = SingletonScope,
       p_supplied = Some v, p_location = loc, p_module = []\<rparr> replace a"

text \<open>\<open>Supply\<close>: the values in order, each with its dynamic type, or nil.\<close>

fun supply_values :: "(go_type \<times> 'v) option list \<Rightarrow> string \<Rightarrow> ('c, 'v) di_app \<Rightarrow> registered \<times> ('c, 'v) di_app" where
  "supply_values [] loc a = (Returned, a)"
| "supply_values (None # vs) loc a =
     supply_values vs loc (add_diag (InvalidProvider ''nil value passed to Supply'') a)"
| "supply_values (Some (t, v) # vs) loc a =
     (case supply_value t v loc False a of
        (Returned, a') \<Rightarrow> supply_values vs loc a'
      | (panic, a') \<Rightarrow> (panic, a'))"

definition add_invoke :: "'c ctor_arg \<Rightarrow> ('c, 'v) di_app \<Rightarrow> registered \<times> ('c, 'v) di_app" where
  "add_invoke fn a =
     (if da_frozen a then (LateInvokePanic, a)
      else case fn of
             Func f variadic ins outs \<Rightarrow>
               if variadic \<or> length outs > 1 \<or> (length outs = 1 \<and> outs ! 0 \<noteq> ErrorT)
               then (Returned, add_diag (InvalidProvider ''invalid Invoke function'') a)
               else (Returned, a\<lparr>da_invokes := da_invokes a @ [\<lparr>in_fn = f, in_params = ins, in_module = da_module a\<rparr>]\<rparr>)
           | _ \<Rightarrow> (Returned, add_diag (InvalidProvider ''invalid Invoke function'') a))"

section \<open>Validation\<close>

definition check_dep :: "('c, 'v) container \<Rightarrow> ('c, 'v) provider \<Rightarrow> go_type \<Rightarrow> di_diag list" where
  "check_dep ct p dep =
     (if dep = ReqCtxT then (if p_scope p = SingletonScope then [SingletonOnContext (p_out p)] else [])
      else if builtin_dep dep then []
      else case ct_providers ct dep of
             None \<Rightarrow> [MissingDependency (p_out p) dep]
           | Some q \<Rightarrow>
               if p_scope p = SingletonScope \<and> p_scope q = RequestScope
               then [SingletonOnRequest (p_out p) dep] else [])"

datatype colour = Unvisited | Visiting | Visited

text \<open>Depth-first search: a cycle, the final colours, or the fuel was not enough.\<close>

datatype ('c, 'v) dfs =
    Cycle "('c, 'v) provider list"
  | Finished "('c, 'v) provider \<Rightarrow> colour"
  | NoFuel

fun visit ::
  "('c, 'v) container \<Rightarrow> nat \<Rightarrow> ('c, 'v) provider \<Rightarrow> ('c, 'v) provider list \<Rightarrow>
     (('c, 'v) provider \<Rightarrow> colour) \<Rightarrow> ('c, 'v) dfs"
and visit_deps ::
  "('c, 'v) container \<Rightarrow> nat \<Rightarrow> go_type list \<Rightarrow> ('c, 'v) provider \<Rightarrow> ('c, 'v) provider list \<Rightarrow>
     (('c, 'v) provider \<Rightarrow> colour) \<Rightarrow> ('c, 'v) dfs" where
  "visit ct 0 p stack st = NoFuel"
| "visit ct (Suc n) p stack st = visit_deps ct n (p_params p) p (stack @ [p]) (st(p := Visiting))"
| "visit_deps ct n [] p stack st = Finished (st(p := Visited))"
| "visit_deps ct n (dep # deps) p stack st =
     (case ct_providers ct dep of
        None \<Rightarrow> visit_deps ct n deps p stack st
      | Some q \<Rightarrow>
          (case st q of
             Visiting \<Rightarrow>
               if q \<in> set stack then Cycle (dropWhile (\<lambda>s. s \<noteq> q) stack @ [q])
               else visit_deps ct n deps p stack st
           | Visited \<Rightarrow> visit_deps ct n deps p stack st
           | Unvisited \<Rightarrow>
               (case visit ct n q stack st of
                  Finished st' \<Rightarrow> visit_deps ct n deps p stack st'
                | r \<Rightarrow> r)))"

fun visit_all ::
  "('c, 'v) container \<Rightarrow> nat \<Rightarrow> ('c, 'v) provider list \<Rightarrow> (('c, 'v) provider \<Rightarrow> colour) \<Rightarrow> ('c, 'v) dfs" where
  "visit_all ct n [] st = Finished st"
| "visit_all ct n (p # ps) st =
     (if st p = Unvisited then
        (case visit ct n p [] st of
           Finished st' \<Rightarrow> visit_all ct n ps st'
         | r \<Rightarrow> r)
      else visit_all ct n ps st)"

text \<open>As much fuel as there are providers: the recursion is never deeper, since the providers on
  the stack are distinct.\<close>

definition find_cycle :: "('c, 'v) container \<Rightarrow> ('c, 'v) provider list option" where
  "find_cycle ct =
     (case visit_all ct (length (ct_order ct)) (ct_order ct) (\<lambda>_. Unvisited) of
        Cycle c \<Rightarrow> Some c
      | _ \<Rightarrow> None)"

definition validate_container :: "('c, 'v) container \<Rightarrow> di_diag list" where
  "validate_container ct =
     concat (map (\<lambda>p. concat (map (check_dep ct p) (p_params p))) (ct_order ct)) @
     (case find_cycle ct of None \<Rightarrow> [] | Some c \<Rightarrow> [DependencyCycle (map p_out c)])"

section \<open>Construction\<close>

datatype ct_error = Invalid "di_diag list" | CtorFailed go_type string | NilProvider go_type | OutOfFuel

text \<open>\<open>provider.call\<close>: the second result counts only if the constructor returns an error.\<close>

definition call_provider ::
  "('c \<Rightarrow> 'v arg list \<Rightarrow> 'v \<times> string option) \<Rightarrow> ('c, 'v) provider \<Rightarrow> 'v arg list \<Rightarrow> (string, 'v) result" where
  "call_provider call p args =
     (case call (the (p_ctor p)) args of
        (v, err) \<Rightarrow> (case err of Some e \<Rightarrow> if p_returns_err p then Inl e else Inr v | None \<Rightarrow> Inr v))"

definition manage :: "('v \<Rightarrow> value_kind) \<Rightarrow> ('c, 'v) provider \<Rightarrow> 'v \<Rightarrow> 'v ct_hook list" where
  "manage kind p v =
     (if vk_nil (kind v) then []
      else if vk_lifecycle (kind v) then [\<lparr>ch_name = p_out p, ch_value = v, ch_starts = True\<rparr>]
      else if vk_closer (kind v) then [\<lparr>ch_name = p_out p, ch_value = v, ch_starts = False\<rparr>]
      else [])"

definition log_call :: "go_type \<Rightarrow> 'v arg list \<Rightarrow> ('c, 'v) container \<Rightarrow> ('c, 'v) container" where
  "log_call t args ct = ct\<lparr>ct_calls := ct_calls ct @ [(t, args)]\<rparr>"

definition store_value :: "go_type \<Rightarrow> 'v \<Rightarrow> ('c, 'v) container \<Rightarrow> ('c, 'v) container" where
  "store_value t v ct = ct\<lparr>ct_singletons := (ct_singletons ct)(t \<mapsto> v)\<rparr>"

definition add_hooks :: "'v ct_hook list \<Rightarrow> ('c, 'v) container \<Rightarrow> ('c, 'v) container" where
  "add_hooks hs ct = ct\<lparr>ct_hooks := ct_hooks ct @ hs\<rparr>"

definition cons_arg :: "'a \<Rightarrow> ('e, 'a list) result \<times> 's \<Rightarrow> ('e, 'a list) result \<times> 's" where
  "cons_arg x r = (map_sum id ((#) x) (fst r), snd r)"

fun singleton ::
  "('c \<Rightarrow> 'v arg list \<Rightarrow> 'v \<times> string option) \<Rightarrow> ('v \<Rightarrow> value_kind) \<Rightarrow> nat \<Rightarrow> ('c, 'v) provider \<Rightarrow>
     ('c, 'v) container \<Rightarrow> (ct_error, 'v) result \<times> ('c, 'v) container"
and singleton_args ::
  "('c \<Rightarrow> 'v arg list \<Rightarrow> 'v \<times> string option) \<Rightarrow> ('v \<Rightarrow> value_kind) \<Rightarrow> nat \<Rightarrow> go_type list \<Rightarrow>
     ('c, 'v) container \<Rightarrow> (ct_error, 'v arg list) result \<times> ('c, 'v) container" where
  "singleton call kind 0 p ct = (Inl OutOfFuel, ct)"
| "singleton call kind (Suc n) p ct =
     (case ct_singletons ct (p_out p) of
        Some v \<Rightarrow> (Inr v, ct)
      | None \<Rightarrow>
          (case p_supplied p of
             Some v \<Rightarrow> (Inr v, store_value (p_out p) v ct)
           | None \<Rightarrow>
               (case singleton_args call kind n (p_params p) ct of
                  (Inl e, ct') \<Rightarrow> (Inl e, ct')
                | (Inr args, ct') \<Rightarrow>
                    (case call_provider call p args of
                       Inl e \<Rightarrow> (Inl (CtorFailed (p_out p) e), log_call (p_out p) args ct')
                     | Inr v \<Rightarrow>
                         (Inr v, add_hooks (manage kind p v)
                                   (store_value (p_out p) v (log_call (p_out p) args ct')))))))"
| "singleton_args call kind n [] ct = (Inr [], ct)"
| "singleton_args call kind n (dep # deps) ct =
     (if dep = CtxT then cons_arg ArgContext (singleton_args call kind n deps ct)
      else if dep = LoggerT then cons_arg ArgLogger (singleton_args call kind n deps ct)
      else if dep = EnvT then cons_arg ArgEnv (singleton_args call kind n deps ct)
      else case ct_providers ct dep of
             None \<Rightarrow> (Inl (NilProvider dep), ct)
           | Some q \<Rightarrow>
               (case singleton call kind n q ct of
                  (Inl e, ct') \<Rightarrow> (Inl e, ct')
                | (Inr v, ct') \<Rightarrow> cons_arg (ArgValue v) (singleton_args call kind n deps ct')))"

text \<open>\<open>closeBuilt\<close>: the values it closes, in order.\<close>

definition close_built :: "('c, 'v) container \<Rightarrow> 'v list \<times> ('c, 'v) container" where
  "close_built ct = (map ch_value (filter (\<lambda>h. \<not> ch_starts h) (rev (ct_hooks ct))), ct\<lparr>ct_hooks := []\<rparr>)"

fun build_all ::
  "('c \<Rightarrow> 'v arg list \<Rightarrow> 'v \<times> string option) \<Rightarrow> ('v \<Rightarrow> value_kind) \<Rightarrow> nat \<Rightarrow> ('c, 'v) provider list \<Rightarrow>
     ('c, 'v) container \<Rightarrow> ct_error option \<times> ('c, 'v) container" where
  "build_all call kind n [] ct = (None, ct)"
| "build_all call kind n (p # ps) ct =
     (if p_scope p \<noteq> SingletonScope then build_all call kind n ps ct
      else case singleton call kind n p ct of
             (Inl e, ct') \<Rightarrow> (Some e, ct')
           | (Inr v, ct') \<Rightarrow> build_all call kind n ps ct')"

text \<open>\<open>build\<close>: the error, the values closed because of it, the container afterwards.\<close>

definition build ::
  "('c \<Rightarrow> 'v arg list \<Rightarrow> 'v \<times> string option) \<Rightarrow> ('v \<Rightarrow> value_kind) \<Rightarrow> ('c, 'v) container \<Rightarrow>
     ct_error option \<times> 'v list \<times> ('c, 'v) container" where
  "build call kind ct0 =
     (let ct = ct0\<lparr>ct_built := True\<rparr>
      in if validate_container ct \<noteq> [] then (Some (Invalid (validate_container ct)), [], ct)
         else case build_all call kind (length (ct_order ct)) (ct_order ct) ct of
                (None, ct') \<Rightarrow> (None, [], ct')
              | (Some e, ct') \<Rightarrow> (case close_built ct' of (closed, ct'') \<Rightarrow> (Some e, closed, ct'')))"

section \<open>Registration keeps one provider per type\<close>

definition provider_ok :: "('c, 'v) provider \<Rightarrow> bool" where
  "provider_ok p \<longleftrightarrow>
     (if p_supplied p = None then p_ctor p \<noteq> None \<and> p_out p \<noteq> ErrorT \<and> \<not> builtin_dep (p_out p)
      else p_params p = [] \<and> p_scope p = SingletonScope)"

definition ct_wf :: "('c, 'v) container \<Rightarrow> bool" where
  "ct_wf ct \<longleftrightarrow> distinct (map p_out (ct_order ct)) \<and>
     (\<forall>t p. ct_providers ct t = Some p \<longleftrightarrow> p \<in> set (ct_order ct) \<and> p_out p = t) \<and>
     (\<forall>p \<in> set (ct_order ct). provider_ok p)"

lemma ct_wfD:
  assumes "ct_wf ct"
  shows "distinct (map p_out (ct_order ct))" and "distinct (ct_order ct)"
    and "ct_providers ct t = Some p \<longleftrightarrow> p \<in> set (ct_order ct) \<and> p_out p = t"
    and "p \<in> set (ct_order ct) \<Longrightarrow> provider_ok p"
    and "p \<in> set (ct_order ct) \<Longrightarrow> q \<in> set (ct_order ct) \<Longrightarrow> p_out p = p_out q \<Longrightarrow> p = q"
  using assms by (auto simp: ct_wf_def distinct_map dest: inj_onD)

lemma new_container_wf: "ct_wf new_container"
  by (simp add: ct_wf_def new_container_def)

lemma ct_wf_append:
  assumes w: "ct_wf ct" and n: "ct_providers ct (p_out p) = None" and ok: "provider_ok p"
  shows "ct_wf (ct\<lparr>ct_providers := (ct_providers ct)(p_out p \<mapsto> p), ct_order := ct_order ct @ [p]\<rparr>)"
proof -
  have fresh: "\<forall>q \<in> set (ct_order ct). p_out q \<noteq> p_out p"
    using n ct_wfD(3) [OF w] by (metis not_Some_eq)
  then show ?thesis
    using w ok by (auto simp: ct_wf_def)
qed

lemma ct_wf_remove:
  assumes w: "ct_wf ct" and q: "ct_providers ct t = Some q"
  shows "ct_wf (ct\<lparr>ct_providers := (ct_providers ct)(t := None), ct_order := remove1 q (ct_order ct)\<rparr>)"
proof -
  have mem: "x \<in> set (remove1 q (ct_order ct)) \<longleftrightarrow> x \<in> set (ct_order ct) \<and> p_out x \<noteq> t" for x
    using ct_wfD(2) [OF w] ct_wfD(3) [OF w, of t q] q ct_wfD(5) [OF w, of x q] by auto
  have "distinct (map p_out (remove1 q (ct_order ct)))"
    using ct_wfD(1,2) [OF w] by (auto simp: distinct_map intro: inj_on_subset)
  then show ?thesis
    using ct_wfD(3) [OF w] ct_wfD(4) [OF w] by (simp add: ct_wf_def mem) auto
qed

lemma add_provider_wf:
  assumes w: "ct_wf (da_container a)" and ok: "provider_ok p"
  shows "ct_wf (da_container (snd (add_provider p replace a)))"
proof -
  define p' where "p' = p\<lparr>p_module := da_module a\<rparr>"
  have ok': "provider_ok p'" and o: "p_out p' = p_out p" using ok by (simp_all add: provider_ok_def p'_def)
  show ?thesis
  proof (cases "da_frozen a \<or> ct_built (da_container a)")
    case True
    with w show ?thesis by (simp add: add_provider_def)
  next
    case False
    note F = this
    show ?thesis
    proof (cases "ct_providers (da_container a) (p_out p')")
      case None
      from ct_wf_append [OF w None ok'] None F show ?thesis
        by (simp add: add_provider_def Let_def p'_def)
    next
      case (Some q)
      have "ct_wf ((da_container a)\<lparr>ct_providers := (ct_providers (da_container a))(p_out p' := None),
          ct_order := remove1 q (ct_order (da_container a))\<rparr>)"
        by (rule ct_wf_remove [OF w Some])
      from ct_wf_append [OF this _ ok'] Some F w show ?thesis
        by (auto simp: add_provider_def Let_def p'_def add_diag_def)
    qed
  qed
qed

lemma register_ctor_wf:
  "ct_wf (da_container a) \<Longrightarrow> ct_wf (da_container (snd (register_ctor ctor rs replace loc a)))"
  by (auto simp: register_ctor_def add_diag_def provider_ok_def split: ctor_arg.splits intro!: add_provider_wf)

lemma supply_value_wf:
  "ct_wf (da_container a) \<Longrightarrow> ct_wf (da_container (snd (supply_value t v loc replace a)))"
  by (auto simp: supply_value_def provider_ok_def intro!: add_provider_wf)

lemma supply_values_wf:
  "ct_wf (da_container a) \<Longrightarrow> ct_wf (da_container (snd (supply_values vs loc a)))"
proof (induction vs loc a rule: supply_values.induct)
  case (3 t v vs loc a)
  obtain r a' where s: "supply_value t v loc False a = (r, a')" by fastforce
  with supply_value_wf [OF "3.prems"] have "ct_wf (da_container a')" by (metis snd_conv)
  with 3 s show ?case by (cases r) simp_all
qed (simp_all add: add_diag_def)

datatype ('c, 'v) reg_call =
    Provide "'c ctor_arg" bool
  | Replace "'c ctor_arg" bool
  | Supply "(go_type \<times> 'v) option list"
  | SupplyAs go_type 'v
  | ReplaceValue go_type 'v
  | Invoke "'c ctor_arg"

fun reg_apply :: "('c, 'v) reg_call \<Rightarrow> string \<Rightarrow> ('c, 'v) di_app \<Rightarrow> registered \<times> ('c, 'v) di_app" where
  "reg_apply (Provide f rs) loc a = register_ctor f rs False loc a"
| "reg_apply (Replace f rs) loc a = register_ctor f rs True loc a"
| "reg_apply (Supply vs) loc a = supply_values vs loc a"
| "reg_apply (SupplyAs t v) loc a = supply_value t v loc False a"
| "reg_apply (ReplaceValue t v) loc a = supply_value t v loc True a"
| "reg_apply (Invoke f) loc a = add_invoke f a"

definition new_di_app :: "('c, 'v) di_app" where
  "new_di_app = \<lparr>da_container = new_container, da_diags = [], da_frozen = False, da_module = [], da_invokes = []\<rparr>"

definition reg_all :: "(('c, 'v) reg_call \<times> string) list \<Rightarrow> ('c, 'v) di_app" where
  "reg_all rs = foldl (\<lambda>a r. snd (reg_apply (fst r) (snd r) a)) new_di_app rs"

lemma register_wf: "ct_wf (da_container a) \<Longrightarrow> ct_wf (da_container (snd (reg_apply r loc a)))"
  by (cases r) (simp_all add: register_ctor_wf supply_values_wf supply_value_wf add_invoke_def add_diag_def
      split: ctor_arg.splits)

lemma register_all_wf: "ct_wf (da_container (reg_all rs))"
  unfolding reg_all_def
  by (rule foldl_invariant [where P = "\<lambda>a. ct_wf (da_container a)"])
     (simp_all add: new_di_app_def new_container_wf register_wf)

lemma add_provider_untouched:
  "ct_singletons (da_container (snd (add_provider p r a))) = ct_singletons (da_container a) \<and>
   ct_hooks (da_container (snd (add_provider p r a))) = ct_hooks (da_container a) \<and>
   ct_calls (da_container (snd (add_provider p r a))) = ct_calls (da_container a)"
  by (auto simp: add_provider_def Let_def add_diag_def split: option.splits)

text \<open>C12: However constructors and values are registered, replaced or rejected, the container stays
  well formed: at most one provider per type, the map and the registration order list the same
  providers, each under its own output type, and no constructor provides a built-in type.\<close>

theorem registration_well_formed:
  "ct_wf (da_container (reg_all rs))"
  by (rule register_all_wf)

end
