(* ===== verification/ContainerGraph.thy ===== *)
theory ContainerGraph
  imports Container
begin

text \<open>
  The search of \<open>findCycle\<close> against the graph it searches: it reports a cycle exactly when the
  dependency relation of the registered providers has one, and the cycle it reports is one.
  The rank of a provider, the number of providers it needs, is what bounds the recursion of the
  construction.
\<close>

section \<open>The dependency graph\<close>

definition dep_edges :: "('c, 'v) container \<Rightarrow> (('c, 'v) provider \<times> ('c, 'v) provider) set" where
  "dep_edges ct = {(p, q). p \<in> set (ct_order ct) \<and> (\<exists>t \<in> set (p_params p). ct_providers ct t = Some q)}"

definition is_cycle :: "('c, 'v) container \<Rightarrow> ('c, 'v) provider list \<Rightarrow> bool" where
  "is_cycle ct c \<longleftrightarrow> 2 \<le> length c \<and> hd c = last c \<and> successively (\<lambda>p q. (p, q) \<in> dep_edges ct) c"

lemma dep_edges_in: "ct_wf ct \<Longrightarrow> (p, q) \<in> dep_edges ct \<Longrightarrow> p \<in> set (ct_order ct) \<and> q \<in> set (ct_order ct)"
  by (auto simp: dep_edges_def ct_wfD(3))

lemma dep_edges_finite: "ct_wf ct \<Longrightarrow> finite (dep_edges ct)"
  by (rule finite_subset [of _ "set (ct_order ct) \<times> set (ct_order ct)"]) (auto dest: dep_edges_in)

lemma successively_trancl:
  "successively (\<lambda>p q. (p, q) \<in> E) xs \<Longrightarrow> 2 \<le> length xs \<Longrightarrow> (hd xs, last xs) \<in> E\<^sup>+"
proof (induction xs rule: induct_list012)
  case (3 x y zs)
  show ?case
  proof (cases zs)
    case (Cons z ws)
    with 3 have "(y, last (y # zs)) \<in> E\<^sup>+" "(x, y) \<in> E" by auto
    then show ?thesis using Cons by (auto intro: trancl_into_trancl2)
  qed (use 3 in auto)
qed auto

lemma cycle_not_acyclic: "is_cycle ct c \<Longrightarrow> \<not> acyclic (dep_edges ct)"
  unfolding is_cycle_def acyclic_def using successively_trancl [of "dep_edges ct" c] by metis

section \<open>Invariants of the search\<close>

definition dfs_inv ::
  "('c, 'v) container \<Rightarrow> ('c, 'v) provider list \<Rightarrow> (('c, 'v) provider \<Rightarrow> colour) \<Rightarrow> bool" where
  "dfs_inv ct stack st \<longleftrightarrow>
     distinct stack \<and> set stack \<subseteq> set (ct_order ct) \<and> (\<forall>p. st p = Visiting \<longleftrightarrow> p \<in> set stack) \<and>
     successively (\<lambda>p q. (p, q) \<in> dep_edges ct) stack \<and>
     (\<forall>p q. st p = Visited \<longrightarrow> (p, q) \<in> dep_edges ct \<longrightarrow> st q = Visited) \<and>
     (\<forall>p. st p = Visited \<longrightarrow> (p, p) \<notin> (dep_edges ct)\<^sup>+)"

lemma dfs_invD:
  assumes "dfs_inv ct stack st"
  shows "distinct stack" and "set stack \<subseteq> set (ct_order ct)" and "st p = Visiting \<longleftrightarrow> p \<in> set stack"
    and "successively (\<lambda>p q. (p, q) \<in> dep_edges ct) stack"
    and "st p = Visited \<Longrightarrow> (p, q) \<in> dep_edges ct \<Longrightarrow> st q = Visited"
    and "st p = Visited \<Longrightarrow> (p, p) \<notin> (dep_edges ct)\<^sup>+"
  using assms by (auto simp: dfs_inv_def)

lemma visited_closed:
  assumes "dfs_inv ct stack st" and "(p, q) \<in> (dep_edges ct)\<^sup>+" and "st p = Visited"
  shows "st q = Visited"
  using assms(2,3) by (induction rule: trancl_induct) (auto dest: dfs_invD(5) [OF assms(1)])

lemma dfs_inv_push:
  assumes i: "dfs_inv ct stack st" and p: "st p = Unvisited" "p \<in> set (ct_order ct)"
    and e: "stack \<noteq> [] \<Longrightarrow> (last stack, p) \<in> dep_edges ct"
  shows "dfs_inv ct (stack @ [p]) (st(p := Visiting))"
proof -
  have "p \<notin> set stack" using dfs_invD(3) [OF i, of p] p by auto
  with i p e show ?thesis
    unfolding dfs_inv_def by (auto simp: successively_append_iff split: if_splits) 
qed

lemma dfs_inv_pop:
  assumes i: "dfs_inv ct (stack @ [p]) st"
    and done_succ: "\<And>q. (p, q) \<in> dep_edges ct \<Longrightarrow> st q = Visited"
  shows "dfs_inv ct stack (st(p := Visited))"
proof -
  have p: "p \<notin> set stack" "st p = Visiting" using dfs_invD(1,3) [OF i] by auto
  have c: "(p, p) \<notin> (dep_edges ct)\<^sup>+"
  proof
    assume "(p, p) \<in> (dep_edges ct)\<^sup>+"
    then obtain q where "(p, q) \<in> dep_edges ct" "q = p \<or> (q, p) \<in> (dep_edges ct)\<^sup>+"
      by (metis tranclD rtranclD)
    with done_succ [of q] visited_closed [OF i, of q p] p show False by auto
  qed
  have "\<And>x q. st x = Visited \<Longrightarrow> (x, q) \<in> dep_edges ct \<Longrightarrow> st q = Visited" by (rule dfs_invD(5) [OF i])
  with i p c done_succ show ?thesis
    unfolding dfs_inv_def by (auto simp: successively_append_iff)
qed

lemma dropWhile_suffix_cycle:
  assumes "successively P stack" and "q \<in> set stack" and "P (last stack) q"
  shows "successively P (dropWhile (\<lambda>s. s \<noteq> q) stack @ [q])"
    and "hd (dropWhile (\<lambda>s. s \<noteq> q) stack @ [q]) = q"
    and "2 \<le> length (dropWhile (\<lambda>s. s \<noteq> q) stack @ [q])"
proof -
  let ?d = "dropWhile (\<lambda>s. s \<noteq> q) stack"
  have ne: "?d \<noteq> []" using assms(2) by auto
  have s: "stack = takeWhile (\<lambda>s. s \<noteq> q) stack @ ?d" by simp
  have "successively P ?d" using assms(1) by (subst (asm) s) (simp only: successively_append_iff)
  moreover have "last ?d = last stack" using ne s by (metis last_appendR)
  ultimately show "successively P (?d @ [q])" using ne assms(3) by (simp add: successively_append_iff)
  show "hd (?d @ [q]) = q" using ne hd_dropWhile [OF ne] by simp
  show "2 \<le> length (?d @ [q])" using ne by (cases ?d) auto
qed

text \<open>What a call of the search returns: never out of fuel, a real cycle, or the colours with the
  provider and everything below it visited.\<close>

definition search_ok ::
  "('c, 'v) container \<Rightarrow> ('c, 'v) provider list \<Rightarrow> ('c, 'v) provider \<Rightarrow> (('c, 'v) provider \<Rightarrow> colour) \<Rightarrow>
     ('c, 'v) dfs \<Rightarrow> bool" where
  "search_ok ct stack p st r =
     (case r of NoFuel \<Rightarrow> False
      | Cycle c \<Rightarrow> is_cycle ct c
      | Finished st' \<Rightarrow> dfs_inv ct stack st' \<and> st' p = Visited \<and> (\<forall>x. st x = Visited \<longrightarrow> st' x = Visited))"

lemma stack_fits:
  assumes "dfs_inv ct stack st"
  shows "length stack \<le> length (ct_order ct)"
  using dfs_invD(1,2) [OF assms] by (metis card_length card_mono distinct_card finite_set order_trans)

lemma search_correct:
  shows "ct_wf ct \<Longrightarrow> dfs_inv ct stack st \<Longrightarrow> st p = Unvisited \<Longrightarrow> p \<in> set (ct_order ct) \<Longrightarrow>
      (stack \<noteq> [] \<Longrightarrow> (last stack, p) \<in> dep_edges ct) \<Longrightarrow> length (ct_order ct) \<le> n + length stack \<Longrightarrow>
      search_ok ct stack p st (visit ct n p stack st)"
    and "ct_wf ct \<Longrightarrow> dfs_inv ct stk st \<Longrightarrow> stk = stack @ [p] \<Longrightarrow> p_params p = pre @ deps \<Longrightarrow>
      (\<forall>t \<in> set pre. \<forall>q. ct_providers ct t = Some q \<longrightarrow> st q = Visited) \<Longrightarrow>
      length (ct_order ct) \<le> n + length stk \<Longrightarrow> search_ok ct stack p st (visit_deps ct n deps p stk st)"
proof (induction ct n p stack st and ct n deps p stk st arbitrary: and stack pre rule: visit_visit_deps.induct)
  case (1 ct p stack st)
  have "length (stack @ [p]) \<le> length (ct_order ct)" by (rule stack_fits [OF dfs_inv_push [where st = st]]) (use 1 in auto)
  with 1 show ?case by simp
next
  case (2 ct n p stack st)
  have "search_ok ct stack p (st(p := Visiting)) (visit_deps ct n (p_params p) p (stack @ [p]) (st(p := Visiting)))"
    by (rule "2.IH" [where pre = "[]", OF "2.prems"(1) dfs_inv_push [where st = st]]) (use "2.prems" in auto)
  moreover have "x \<noteq> p" if "st x = Visited" for x using that "2.prems"(3) by auto
  ultimately show ?case by (auto simp: search_ok_def split: dfs.splits)
next
  case (3 ct n p stk st)
  have "dfs_inv ct stack (st(p := Visited))"
  proof (rule dfs_inv_pop)
    show "dfs_inv ct (stack @ [p]) st" using 3 by simp
    show "st q = Visited" if "(p, q) \<in> dep_edges ct" for q using that 3 by (auto simp: dep_edges_def)
  qed
  then show ?case by (simp add: search_ok_def)
next
  case (4 ct n dep deps p stk st)
  let ?rest = "\<lambda>st. visit_deps ct n deps p stk st"
  have par: "p_params p = (pre @ [dep]) @ deps" using 4 by simp
  have pin: "p \<in> set (ct_order ct)" using dfs_invD(2) [OF "4.prems"(2)] "4.prems"(3) by auto
  show ?case
  proof (cases "ct_providers ct dep")
    case None
    have "search_ok ct stack p st (?rest st)"
      by (rule "4.IH"(1) [OF None "4.prems"(1-3) par]) (use 4 None in auto)
    then show ?thesis using None by simp
  next
    case (Some q)
    have e: "(p, q) \<in> dep_edges ct" using Some pin "4.prems"(4) by (auto simp: dep_edges_def)
    have qin: "q \<in> set (ct_order ct)" using dep_edges_in [OF "4.prems"(1) e] by simp
    show ?thesis
    proof (cases "st q")
      case Visiting
      then have q: "q \<in> set stk" using dfs_invD(3) [OF "4.prems"(2)] by simp
      have l: "(last stk, q) \<in> dep_edges ct" using e "4.prems"(3) by simp
      from dropWhile_suffix_cycle [OF dfs_invD(4) [OF "4.prems"(2)] q l]
      have "is_cycle ct (dropWhile (\<lambda>s. s \<noteq> q) stk @ [q])" by (simp add: is_cycle_def)
      then show ?thesis using Some Visiting q by (simp add: search_ok_def)
    next
      case Visited
      have "search_ok ct stack p st (?rest st)"
        by (rule "4.IH"(5) [OF Some Visited "4.prems"(1-3) par]) (use 4 Some Visited in auto)
      then show ?thesis using Some Visited by simp
    next
      case Unvisited
      have v: "search_ok ct stk q st (visit ct n q stk st)"
        by (rule "4.IH"(2) [OF Some Unvisited "4.prems"(1,2)]) (use 4 Some Unvisited e qin in auto)
      show ?thesis
      proof (cases "visit ct n q stk st")
        case (Finished st')
        with v have inv: "dfs_inv ct stk st'" "st' q = Visited" "\<And>x. st x = Visited \<Longrightarrow> st' x = Visited"
          by (simp_all add: search_ok_def)
        have "search_ok ct stack p st' (?rest st')"
          by (rule "4.IH"(3) [OF Some Unvisited Finished "4.prems"(1) inv(1) "4.prems"(3) par])
             (use 4 Some inv in auto)
        with inv(3) show ?thesis using Some Unvisited Finished
          by (auto simp: search_ok_def split: dfs.splits)
      qed (use v Some Unvisited in \<open>simp_all add: search_ok_def\<close>)
    qed
  qed
qed

lemma visit_all_correct:
  assumes "ct_wf ct"
  shows "dfs_inv ct [] st \<Longrightarrow> set ps \<subseteq> set (ct_order ct) \<Longrightarrow>
    (case visit_all ct (length (ct_order ct)) ps st of
       NoFuel \<Rightarrow> False
     | Cycle c \<Rightarrow> is_cycle ct c
     | Finished st' \<Rightarrow> dfs_inv ct [] st' \<and> (\<forall>x. x \<in> set ps \<or> st x = Visited \<longrightarrow> st' x = Visited))"
proof (induction ps arbitrary: st)
  case (Cons p ps)
  let ?n = "length (ct_order ct)"
  show ?case
  proof (cases "st p = Unvisited")
    case True
    have v: "search_ok ct [] p st (visit ct ?n p [] st)"
      by (rule search_correct(1) [OF assms]) (use Cons.prems True in auto)
    show ?thesis
    proof (cases "visit ct ?n p [] st")
      case (Finished st')
      with v have i: "dfs_inv ct [] st'" "st' p = Visited" "\<And>x. st x = Visited \<Longrightarrow> st' x = Visited"
        by (simp_all add: search_ok_def)
      from Cons.IH [OF i(1)] Cons.prems i(2,3) Finished True show ?thesis
        by (auto split: dfs.splits)
    qed (use v True in \<open>simp_all add: search_ok_def\<close>)
  next
    case False
    with dfs_invD(3) [OF Cons.prems(1), of p] have "st p = Visited" by (cases "st p") auto
    with Cons.IH [OF Cons.prems(1)] Cons.prems(2) False show ?thesis by (auto split: dfs.splits)
  qed
qed simp

lemma find_cycle_none: "ct_wf ct \<Longrightarrow> find_cycle ct = None \<longleftrightarrow> acyclic (dep_edges ct)"
  and find_cycle_some: "ct_wf ct \<Longrightarrow> find_cycle ct = Some c \<Longrightarrow> is_cycle ct c"
proof -
  assume w: "ct_wf ct"
  have i: "dfs_inv ct [] (\<lambda>_. Unvisited)" by (simp add: dfs_inv_def)
  let ?r = "visit_all ct (length (ct_order ct)) (ct_order ct) (\<lambda>_. Unvisited)"
  note v = visit_all_correct [OF w i subset_refl]
  show cyc: "is_cycle ct c" if "find_cycle ct = Some c" for c
    using that v by (auto simp: find_cycle_def split: dfs.splits)
  show "find_cycle ct = None \<longleftrightarrow> acyclic (dep_edges ct)"
  proof
    assume "find_cycle ct = None"
    with v obtain st' where st': "dfs_inv ct [] st'" "\<forall>x \<in> set (ct_order ct). st' x = Visited"
      by (auto simp: find_cycle_def split: dfs.splits)
    show "acyclic (dep_edges ct)"
      unfolding acyclic_def
    proof
      fix x
      show "(x, x) \<notin> (dep_edges ct)\<^sup>+"
        using dfs_invD(6) [OF st'(1)] st'(2) dep_edges_in [OF w] by (metis tranclD)
    qed
  next
    assume "acyclic (dep_edges ct)"
    with cyc cycle_not_acyclic show "find_cycle ct = None" by (metis not_Some_eq)
  qed
qed

text \<open>C13: The search for dependency cycles is complete and sound on every container registration can
  produce: it finds nothing exactly when the dependency graph is acyclic, and what it reports is
  a chain of at least one dependency from a provider back to itself.\<close>

theorem find_cycle_correct:
  assumes "ct_wf ct"
  shows "(find_cycle ct = None \<longleftrightarrow> acyclic (dep_edges ct)) \<and>
         (\<forall>c \<in> set_option (find_cycle ct). is_cycle ct c)"
  using find_cycle_none [OF assms] find_cycle_some [OF assms] by auto

section \<open>Rank\<close>

definition dep_rank :: "('c, 'v) container \<Rightarrow> ('c, 'v) provider \<Rightarrow> nat" where
  "dep_rank ct p = card ((dep_edges ct)\<^sup>+ `` {p})"

lemma trancl_in_order: "ct_wf ct \<Longrightarrow> (p, q) \<in> (dep_edges ct)\<^sup>+ \<Longrightarrow> q \<in> set (ct_order ct)"
  by (metis dep_edges_in tranclD2)

lemma dep_reach_finite: "ct_wf ct \<Longrightarrow> finite ((dep_edges ct)\<^sup>+ `` {p})"
  by (rule finite_subset [of _ "set (ct_order ct)"]) (auto dest: trancl_in_order)

lemma dep_rank_less:
  assumes "ct_wf ct" and "acyclic (dep_edges ct)" and "(p, q) \<in> dep_edges ct"
  shows "dep_rank ct q < dep_rank ct p"
  unfolding dep_rank_def
proof (rule psubset_card_mono [OF dep_reach_finite [OF assms(1)]])
  have "q \<in> (dep_edges ct)\<^sup>+ `` {p}" "q \<notin> (dep_edges ct)\<^sup>+ `` {q}"
    using assms(2,3) by (auto simp: acyclic_def)
  moreover have "(dep_edges ct)\<^sup>+ `` {q} \<subseteq> (dep_edges ct)\<^sup>+ `` {p}"
    using assms(3) by (auto intro: trancl_into_trancl2)
  ultimately show "(dep_edges ct)\<^sup>+ `` {q} \<subset> (dep_edges ct)\<^sup>+ `` {p}" by blast
qed

lemma dep_rank_bound:
  assumes "ct_wf ct" and "acyclic (dep_edges ct)" and "p \<in> set (ct_order ct)"
  shows "dep_rank ct p < length (ct_order ct)"
proof -
  have "(dep_edges ct)\<^sup>+ `` {p} \<subset> set (ct_order ct)"
    using assms trancl_in_order [OF assms(1)] by (auto simp: acyclic_def)
  then have "dep_rank ct p < card (set (ct_order ct))"
    unfolding dep_rank_def by (intro psubset_card_mono) simp_all
  then show ?thesis by (meson card_length less_le_trans)
qed

end
