(* ===== verification/ContainerBuild.thy ===== *)
theory ContainerBuild
  imports ContainerGraph
begin

text \<open>
  The construction of the singletons: once validation has passed, \<open>build\<close> never meets a missing
  provider and never runs out of fuel; every constructor runs at most once and with the values
  of its dependencies, and when one fails everything closable built so far is closed.
\<close>

section \<open>The invariant of the construction\<close>

definition arg_of :: "('c, 'v) container \<Rightarrow> go_type \<Rightarrow> 'v arg option" where
  "arg_of ct dep =
     (if dep = CtxT then Some ArgContext else if dep = LoggerT then Some ArgLogger
      else if dep = EnvT then Some ArgEnv else map_option ArgValue (ct_singletons ct dep))"

definition args_match :: "('c, 'v) container \<Rightarrow> go_type list \<Rightarrow> 'v arg list \<Rightarrow> bool" where
  "args_match ct deps args \<longleftrightarrow> list_all2 (\<lambda>dep x. arg_of ct dep = Some x) deps args"

text \<open>Where the value of a provider comes from: it was supplied, or its constructor was called
  with the values of its dependencies and returned it.\<close>

definition built_from ::
  "('c \<Rightarrow> 'v arg list \<Rightarrow> 'v \<times> string option) \<Rightarrow> ('c, 'v) container \<Rightarrow> ('c, 'v) provider \<Rightarrow> 'v \<Rightarrow> bool" where
  "built_from call ct p v \<longleftrightarrow>
     (case p_supplied p of
        Some w \<Rightarrow> v = w
      | None \<Rightarrow> \<exists>args. (p_out p, args) \<in> set (ct_calls ct) \<and> args_match ct (p_params p) args \<and>
                      call_provider call p args = Inr v)"

definition hooks_of :: "('v \<Rightarrow> value_kind) \<Rightarrow> ('c, 'v) container \<Rightarrow> go_type list \<Rightarrow> 'v ct_hook list" where
  "hooks_of kind ct ts = concat (map (\<lambda>t. manage kind (the (ct_providers ct t)) (the (ct_singletons ct t))) ts)"

definition build_inv ::
  "('c \<Rightarrow> 'v arg list \<Rightarrow> 'v \<times> string option) \<Rightarrow> ('v \<Rightarrow> value_kind) \<Rightarrow> ('c, 'v) container \<Rightarrow> bool" where
  "build_inv call kind ct \<longleftrightarrow>
     (\<forall>p \<in> set (ct_order ct). \<forall>v. ct_singletons ct (p_out p) = Some v \<longrightarrow> built_from call ct p v) \<and>
     distinct (map fst (ct_calls ct)) \<and> fst ` set (ct_calls ct) \<subseteq> dom (ct_singletons ct) \<and>
     ct_hooks ct = hooks_of kind ct (map fst (ct_calls ct))"

definition same_graph :: "('c, 'v) container \<Rightarrow> ('c, 'v) container \<Rightarrow> bool" where
  "same_graph g ct \<longleftrightarrow> ct_providers ct = ct_providers g \<and> ct_order ct = ct_order g"

definition ctor_failed ::
  "('c \<Rightarrow> 'v arg list \<Rightarrow> 'v \<times> string option) \<Rightarrow> ('v \<Rightarrow> value_kind) \<Rightarrow> ('c, 'v) container \<Rightarrow> ct_error \<Rightarrow> bool" where
  "ctor_failed call kind ct e \<longleftrightarrow>
     (\<exists>p \<in> set (ct_order ct). \<exists>msg args ct0.
        e = CtorFailed (p_out p) msg \<and> build_inv call kind ct0 \<and> ct = log_call (p_out p) args ct0 \<and>
        ct_singletons ct0 (p_out p) = None \<and> call_provider call p args = Inl msg)"

text \<open>What one construction step does to a container: only registered types reachable from it get
  values, values and calls already there stay, and it succeeds or a constructor failed.\<close>

definition build_step ::
  "('c \<Rightarrow> 'v arg list \<Rightarrow> 'v \<times> string option) \<Rightarrow> ('v \<Rightarrow> value_kind) \<Rightarrow> ('c, 'v) container \<Rightarrow>
     ('c, 'v) container \<Rightarrow> go_type set \<Rightarrow> ('a \<Rightarrow> ('c, 'v) container \<Rightarrow> bool) \<Rightarrow>
     (ct_error, 'a) result \<times> ('c, 'v) container \<Rightarrow> bool" where
  "build_step call kind g ct reach good r \<longleftrightarrow>
     same_graph g (snd r) \<and> ct_singletons ct \<subseteq>\<^sub>m ct_singletons (snd r) \<and>
     dom (ct_singletons (snd r)) \<subseteq> dom (ct_singletons ct) \<union> reach \<and>
     (case fst r of
        Inr x \<Rightarrow> build_inv call kind (snd r) \<and> good x (snd r)
      | Inl e \<Rightarrow> ctor_failed call kind (snd r) e)"

lemma args_match_mono:
  assumes "ct_singletons ct \<subseteq>\<^sub>m ct_singletons ct'" and "args_match ct deps args"
  shows "args_match ct' deps args"
proof -
  have "arg_of ct dep = Some x \<Longrightarrow> arg_of ct' dep = Some x" for dep x
    using assms(1) by (auto simp: arg_of_def map_le_def dom_def split: if_splits)
  with assms(2) show ?thesis unfolding args_match_def by (auto elim: list_all2_mono)
qed

lemma hooks_of_cong:
  assumes "ct_providers ct' = ct_providers ct" and "\<And>t. t \<in> set ts \<Longrightarrow> ct_singletons ct' t = ct_singletons ct t"
  shows "hooks_of kind ct' ts = hooks_of kind ct ts"
  using assms(2) by (induction ts) (auto simp: hooks_of_def assms(1))

lemma build_inv_store_supplied:
  assumes w: "ct_wf ct" and i: "build_inv call kind ct" and p: "p \<in> set (ct_order ct)" "p_supplied p = Some v"
    and n: "ct_singletons ct (p_out p) = None"
  shows "build_inv call kind (store_value (p_out p) v ct)"
proof -
  let ?ct = "store_value (p_out p) v ct"
  have le: "ct_singletons ct \<subseteq>\<^sub>m ct_singletons ?ct" using n by (auto simp: store_value_def map_le_def)
  have fresh: "p_out p \<notin> fst ` set (ct_calls ct)" using i n by (auto simp: build_inv_def)
  have "built_from call ?ct q u" if q: "q \<in> set (ct_order ct)" "ct_singletons ?ct (p_out q) = Some u" for q u
  proof (cases "p_out q = p_out p")
    case True
    with ct_wfD(5) [OF w] q p have "q = p" by blast
    with p q show ?thesis by (simp add: built_from_def store_value_def)
  next
    case False
    with i q have "built_from call ct q u" by (simp add: build_inv_def store_value_def)
    then show ?thesis using args_match_mono [OF le]
      by (auto simp: built_from_def store_value_def split: option.splits)
  qed
  moreover have "hooks_of kind ?ct (map fst (ct_calls ct)) = hooks_of kind ct (map fst (ct_calls ct))"
    by (rule hooks_of_cong) (use fresh in \<open>simp add: store_value_def; metis\<close>)+
  ultimately show ?thesis using i by (auto simp: build_inv_def store_value_def)
qed

lemma build_inv_store_called:
  assumes w: "ct_wf ct" and i: "build_inv call kind ct" and p: "p \<in> set (ct_order ct)" "p_supplied p = None"
    and n: "ct_singletons ct (p_out p) = None" and a: "args_match ct (p_params p) args"
    and c: "call_provider call p args = Inr v"
  shows "build_inv call kind (add_hooks (manage kind p v) (store_value (p_out p) v (log_call (p_out p) args ct)))"
proof -
  let ?ct = "add_hooks (manage kind p v) (store_value (p_out p) v (log_call (p_out p) args ct))"
  have sel: "ct_singletons ?ct = (ct_singletons ct)(p_out p \<mapsto> v)" "ct_calls ?ct = ct_calls ct @ [(p_out p, args)]"
    "ct_order ?ct = ct_order ct" "ct_providers ?ct = ct_providers ct" "ct_hooks ?ct = ct_hooks ct @ manage kind p v"
    by (simp_all add: add_hooks_def store_value_def log_call_def)
  have le: "ct_singletons ct \<subseteq>\<^sub>m ct_singletons ?ct" using n by (auto simp: sel map_le_def)
  have fresh: "p_out p \<notin> fst ` set (ct_calls ct)" using i n by (auto simp: build_inv_def)
  have "built_from call ?ct q u" if q: "q \<in> set (ct_order ct)" "ct_singletons ?ct (p_out q) = Some u" for q u
  proof (cases "p_out q = p_out p")
    case True
    with ct_wfD(5) [OF w] q p have qp: "q = p" by blast
    have "u = v" using q(2) True by (simp add: sel)
    moreover have "(p_out p, args) \<in> set (ct_calls ?ct)" by (simp add: sel)
    moreover have "args_match ?ct (p_params p) args" by (rule args_match_mono [OF le a])
    ultimately show ?thesis unfolding built_from_def qp using p c by (auto simp del: split_paired_Ex)
  next
    case False
    with i q have "built_from call ct q u" by (simp add: build_inv_def sel)
    then show ?thesis using args_match_mono [OF le]
      by (auto simp: built_from_def sel split: option.splits)
  qed
  moreover have "hooks_of kind ?ct (map fst (ct_calls ct)) = hooks_of kind ct (map fst (ct_calls ct))"
    by (rule hooks_of_cong) (use fresh in \<open>simp add: sel; metis\<close>)+
  moreover have "the (ct_providers ct (p_out p)) = p" using ct_wfD(3) [OF w, of "p_out p" p] p by simp
  ultimately show ?thesis using i fresh
    by (auto simp: build_inv_def sel hooks_of_def)
qed

section \<open>One step\<close>

definition graph_valid :: "('c, 'v) container \<Rightarrow> bool" where
  "graph_valid g \<longleftrightarrow> ct_wf g \<and> acyclic (dep_edges g) \<and>
     (\<forall>p \<in> set (ct_order g). \<forall>dep \<in> set (p_params p). check_dep g p dep = [])"

lemma validate_nil: "ct_wf g \<Longrightarrow> validate_container g = [] \<Longrightarrow> graph_valid g"
  by (auto simp: validate_container_def graph_valid_def find_cycle_none [symmetric] split: option.splits)

text \<open>A dependency of a validated singleton: a built-in of the start, or a singleton of lower rank.\<close>

definition dep_ready :: "('c, 'v) container \<Rightarrow> nat \<Rightarrow> go_type \<Rightarrow> bool" where
  "dep_ready g n dep \<longleftrightarrow> dep \<in> {CtxT, LoggerT, EnvT} \<or>
     (\<exists>q \<in> set (ct_order g). ct_providers g dep = Some q \<and> p_scope q = SingletonScope \<and> dep_rank g q < n)"

definition reach_of :: "('c, 'v) container \<Rightarrow> go_type list \<Rightarrow> go_type set" where
  "reach_of g deps = {p_out r | r q dep. dep \<in> set deps \<and> ct_providers g dep = Some q \<and> (q, r) \<in> (dep_edges g)\<^sup>*}"

lemma deps_ready:
  assumes g: "graph_valid g" and p: "p \<in> set (ct_order g)" "p_scope p = SingletonScope" "dep_rank g p < Suc n"
    and d: "dep \<in> set (p_params p)"
  shows "dep_ready g n dep"
proof (cases "ct_providers g dep")
  case None
  have "check_dep g p dep = []" using g p d by (simp add: graph_valid_def)
  with None p show ?thesis by (auto simp: check_dep_def dep_ready_def builtin_dep_def split: if_splits)
next
  case (Some q)
  have w: "ct_wf g" and a: "acyclic (dep_edges g)" using g by (auto simp: graph_valid_def)
  have "check_dep g p dep = []" using g p d by (simp add: graph_valid_def)
  moreover have e: "(p, q) \<in> dep_edges g" using Some p d by (auto simp: dep_edges_def)
  have "dep_rank g q < n" using dep_rank_less [OF w a e] p(3) by linarith
  moreover have "q \<in> set (ct_order g)" using dep_edges_in [OF w e] by simp
  ultimately show ?thesis using Some p
    by (cases "p_scope q") (auto simp: check_dep_def dep_ready_def builtin_dep_def split: if_splits)
qed

lemma own_type_not_reached:
  assumes g: "graph_valid g" and p: "p \<in> set (ct_order g)"
  shows "p_out p \<notin> reach_of g (p_params p)"
proof
  assume "p_out p \<in> reach_of g (p_params p)"
  then obtain r q dep where r: "p_out p = p_out r" "dep \<in> set (p_params p)" "ct_providers g dep = Some q"
    "(q, r) \<in> (dep_edges g)\<^sup>*" by (auto simp: reach_of_def)
  have w: "ct_wf g" and a: "acyclic (dep_edges g)" using g by (auto simp: graph_valid_def)
  have e: "(p, q) \<in> dep_edges g" using r p by (auto simp: dep_edges_def)
  with r have "(p, r) \<in> (dep_edges g)\<^sup>+" by (meson rtrancl_into_trancl2)
  moreover have "r = p" using ct_wfD(5) [OF w _ p] trancl_in_order [OF w \<open>(p, r) \<in> (dep_edges g)\<^sup>+\<close>] r(1) by metis
  ultimately show False using a by (simp add: acyclic_def)
qed

lemma build_step_cons:
  assumes "build_step call kind g ct reach (\<lambda>args ct'. args_match ct' deps args) r"
    and "arg_of ct dep = Some x"
  shows "build_step call kind g ct reach (\<lambda>args ct'. args_match ct' (dep # deps) args) (cons_arg x r)"
proof -
  have le: "ct_singletons ct \<subseteq>\<^sub>m ct_singletons (snd r)" using assms(1) by (simp add: build_step_def)
  have "args_match (snd r) [dep] [x]"
    by (rule args_match_mono [OF le]) (simp add: args_match_def assms(2))
  with assms(1) show ?thesis
    by (auto simp: build_step_def cons_arg_def args_match_def split: sum.splits)
qed

lemma build_step_widen:
  "build_step call kind g ct reach good r \<Longrightarrow> reach \<subseteq> reach' \<Longrightarrow> build_step call kind g ct reach' good r"
  by (auto simp: build_step_def)

lemma build_step_trans:
  assumes le: "ct_singletons ct \<subseteq>\<^sub>m ct_singletons ct'" and d: "dom (ct_singletons ct') \<subseteq> dom (ct_singletons ct) \<union> reach"
    and s: "build_step call kind g ct' reach' good r"
  shows "build_step call kind g ct (reach \<union> reach') good r"
  using s map_le_trans [OF le] d unfolding build_step_def by auto blast

lemma reach_of_mono: "set ds \<subseteq> set es \<Longrightarrow> reach_of g ds \<subseteq> reach_of g es"
  unfolding reach_of_def by blast

lemma singleton_correct:
  shows "graph_valid g \<Longrightarrow> same_graph g ct \<Longrightarrow> build_inv call kind ct \<Longrightarrow> p \<in> set (ct_order g) \<Longrightarrow>
      p_scope p = SingletonScope \<Longrightarrow> dep_rank g p < n \<Longrightarrow>
      build_step call kind g ct {p_out r | r. (p, r) \<in> (dep_edges g)\<^sup>*}
        (\<lambda>v ct'. ct_singletons ct' (p_out p) = Some v) (singleton call kind n p ct)"
    and "graph_valid g \<Longrightarrow> same_graph g ct \<Longrightarrow> build_inv call kind ct \<Longrightarrow> (\<forall>dep \<in> set deps. dep_ready g n dep) \<Longrightarrow>
      build_step call kind g ct (reach_of g deps)
        (\<lambda>args ct'. args_match ct' deps args) (singleton_args call kind n deps ct)"
proof (induction call kind n p ct and call kind n deps ct rule: singleton_singleton_args.induct)
  case (2 call kind n p ct)
  note prems = "2.prems"
  have w: "ct_wf ct" using prems(1,2) by (simp add: graph_valid_def same_graph_def ct_wf_def)
  have pin: "p \<in> set (ct_order ct)" using prems(2,4) by (simp add: same_graph_def)
  show ?case
  proof (cases "ct_singletons ct (p_out p)")
    case (Some v)
    with prems show ?thesis by (simp add: build_step_def)
  next
    case None
    note N = this
    show ?thesis
    proof (cases "p_supplied p")
      case (Some v)
      have "build_inv call kind (store_value (p_out p) v ct)"
        by (rule build_inv_store_supplied [OF w prems(3) pin Some N])
      with N Some prems(2) show ?thesis
        by (auto simp: build_step_def store_value_def same_graph_def map_le_def)
    next
      case None
      have args: "build_step call kind g ct (reach_of g (p_params p))
          (\<lambda>args ct'. args_match ct' (p_params p) args) (singleton_args call kind n (p_params p) ct)"
        by (rule "2.IH" [OF N None prems(1-3)]) (use deps_ready [OF prems(1,4,5,6)] in blast)
      have sub: "reach_of g (p_params p) \<subseteq> {p_out r | r. (p, r) \<in> (dep_edges g)\<^sup>*}"
        using prems(4) unfolding reach_of_def
        by (force simp: dep_edges_def intro: converse_rtrancl_into_rtrancl)
      obtain res ct' where r: "singleton_args call kind n (p_params p) ct = (res, ct')" by fastforce
      show ?thesis
      proof (cases res)
        case (Inl e)
        with args r N None sub show ?thesis by (auto simp: build_step_def)
      next
        case (Inr as)
        from args r Inr have s: "same_graph g ct'" "ct_singletons ct \<subseteq>\<^sub>m ct_singletons ct'"
          "dom (ct_singletons ct') \<subseteq> dom (ct_singletons ct) \<union> reach_of g (p_params p)"
          "build_inv call kind ct'" "args_match ct' (p_params p) as"
          by (simp_all add: build_step_def)
        have n': "ct_singletons ct' (p_out p) = None"
          using s(3) N own_type_not_reached [OF prems(1,4)] by blast
        have w': "ct_wf ct'" and pin': "p \<in> set (ct_order ct')"
          using s(1) prems(1,4) by (simp_all add: graph_valid_def same_graph_def ct_wf_def)
        show ?thesis
        proof (cases "call_provider call p as")
          case (Inl msg)
          have "ctor_failed call kind (log_call (p_out p) as ct') (CtorFailed (p_out p) msg)"
            unfolding ctor_failed_def using pin' s(4) n' Inl by (auto simp: log_call_def)
          with Inl r Inr N None s sub show ?thesis
            by (auto simp: build_step_def log_call_def same_graph_def)
        next
          case (Inr v)
          note inv = build_inv_store_called [OF w' s(4) pin' None n' s(5) Inr]
          have le: "ct_singletons ct \<subseteq>\<^sub>m (ct_singletons ct')(p_out p \<mapsto> v)"
            using s(2) n' N by (auto simp: map_le_def)
          from inv le Inr r \<open>res = Inr as\<close> N None s(1,3) sub show ?thesis
            by (auto simp: build_step_def add_hooks_def store_value_def log_call_def same_graph_def)
        qed
      qed
    qed
  qed
next
  case (4 call kind n dep deps ct)
  note prems = "4.prems"
  have rest: "\<forall>d \<in> set deps. dep_ready g n d" using prems(4) by simp
  have wide: "reach_of g deps \<subseteq> reach_of g (d # deps)" for d by (rule reach_of_mono) auto
  show ?case
  proof (cases "dep \<in> {CtxT, LoggerT, EnvT}")
    case True
    then show ?thesis
      using "4.IH"(1) [OF _ prems(1-3) rest] "4.IH"(2) [OF _ _ prems(1-3) rest] "4.IH"(3) [OF _ _ _ prems(1-3) rest]
      by (auto simp: arg_of_def intro!: build_step_cons build_step_widen [OF _ wide])
  next
    case False
    then obtain q where q: "q \<in> set (ct_order g)" "ct_providers g dep = Some q" "p_scope q = SingletonScope"
      "dep_rank g q < n" using prems(4) by (auto simp: dep_ready_def)
    have qc: "ct_providers ct dep = Some q" using q prems(2) by (simp add: same_graph_def)
    have ne: "dep \<noteq> CtxT" "dep \<noteq> LoggerT" "dep \<noteq> EnvT" using False by auto
    have w: "ct_wf g" using prems(1) by (simp add: graph_valid_def)
    have out: "p_out q = dep" using ct_wfD(3) [OF w, of dep q] q by simp
    note one = "4.IH"(4) [OF ne qc prems(1-3) q(1,3,4)]
    have sub: "{p_out r | r. (q, r) \<in> (dep_edges g)\<^sup>*} \<subseteq> reach_of g (dep # deps)"
      using q(2) unfolding reach_of_def by auto
    obtain res ct' where r: "singleton call kind n q ct = (res, ct')" by fastforce
    show ?thesis
    proof (cases res)
      case (Inl e)
      with one r have f: "same_graph g ct'" "ct_singletons ct \<subseteq>\<^sub>m ct_singletons ct'" "ctor_failed call kind ct' e"
        "dom (ct_singletons ct') \<subseteq> dom (ct_singletons ct) \<union> {p_out r | r. (q, r) \<in> (dep_edges g)\<^sup>*}"
        by (simp_all add: build_step_def)
      have "dom (ct_singletons ct') \<subseteq> dom (ct_singletons ct) \<union> reach_of g (dep # deps)"
        by (rule order_trans [OF f(4)]) (use sub in blast)
      with f r Inl ne qc show ?thesis by (simp add: build_step_def)
    next
      case (Inr v)
      from one r Inr have s: "same_graph g ct'" "ct_singletons ct \<subseteq>\<^sub>m ct_singletons ct'"
        "dom (ct_singletons ct') \<subseteq> dom (ct_singletons ct) \<union> {p_out r | r. (q, r) \<in> (dep_edges g)\<^sup>*}"
        "build_inv call kind ct'" "ct_singletons ct' (p_out q) = Some v"
        by (simp_all add: build_step_def)
      have "build_step call kind g ct' (reach_of g deps) (\<lambda>args ct'. args_match ct' deps args)
          (singleton_args call kind n deps ct')"
        by (rule "4.IH"(5) [OF ne qc r [symmetric] Inr prems(1) s(1,4) rest])
      then have "build_step call kind g ct' (reach_of g deps) (\<lambda>args ct'. args_match ct' (dep # deps) args)
          (cons_arg (ArgValue v) (singleton_args call kind n deps ct'))"
        by (rule build_step_cons) (use s(5) ne out in \<open>simp add: arg_of_def\<close>)
      from build_step_widen [OF build_step_trans [OF s(2,3) this]] sub wide
      show ?thesis using r Inr ne qc by auto
    qed
  qed
qed (auto simp: build_step_def args_match_def)

section \<open>The whole construction\<close>

lemma same_graph_trans: "same_graph g ct \<Longrightarrow> same_graph g ct' \<Longrightarrow> same_graph ct ct'"
  by (simp add: same_graph_def)

lemma build_all_correct:
  assumes g: "graph_valid g"
  shows "same_graph g ct \<Longrightarrow> build_inv call kind ct \<Longrightarrow> set ps \<subseteq> set (ct_order g) \<Longrightarrow>
    (case build_all call kind (length (ct_order g)) ps ct of
       (None, ct') \<Rightarrow> same_graph g ct' \<and> build_inv call kind ct' \<and> ct_singletons ct \<subseteq>\<^sub>m ct_singletons ct' \<and>
         (\<forall>p \<in> set ps. p_scope p = SingletonScope \<longrightarrow> ct_singletons ct' (p_out p) \<noteq> None)
     | (Some e, ct') \<Rightarrow> same_graph g ct' \<and> ctor_failed call kind ct' e)"
proof (induction ps arbitrary: ct)
  case (Cons p ps)
  let ?n = "length (ct_order g)"
  show ?case
  proof (cases "p_scope p = SingletonScope")
    case False
    with Cons show ?thesis by (force split: prod.splits option.splits)
  next
    case True
    have w: "ct_wf g" and a: "acyclic (dep_edges g)" using g by (auto simp: graph_valid_def)
    have p: "p \<in> set (ct_order g)" using Cons.prems(3) by simp
    note st = singleton_correct(1) [OF g Cons.prems(1,2) p True dep_rank_bound [OF w a p]]
    obtain r ct' where r: "singleton call kind ?n p ct = (r, ct')" by fastforce
    show ?thesis
    proof (cases r)
      case (Inl e)
      with st r True show ?thesis by (simp add: build_step_def)
    next
      case (Inr v)
      with st r have s: "same_graph g ct'" "build_inv call kind ct'" "ct_singletons ct \<subseteq>\<^sub>m ct_singletons ct'"
        "ct_singletons ct' (p_out p) = Some v" by (simp_all add: build_step_def)
      have keep: "ct_singletons ct' \<subseteq>\<^sub>m m \<Longrightarrow> m (p_out p) \<noteq> None" for m
        using s(4) by (force simp: map_le_def dom_def)
      from Cons.IH [OF s(1,2)] Cons.prems(3) s(3) keep True r Inr show ?thesis
        by (auto split: prod.splits option.splits intro: map_le_trans)
    qed
  qed
qed simp

lemma build_start_inv:
  "ct_singletons ct = Map.empty \<Longrightarrow> ct_hooks ct = [] \<Longrightarrow> ct_calls ct = [] \<Longrightarrow> build_inv call kind ct"
  by (simp add: build_inv_def hooks_of_def)

text \<open>C14: When validation passes, \<open>build\<close> either constructs every singleton or reports the error of a
  constructor. In the first case the value of each singleton is the supplied one, or what its
  constructor returned for exactly the values of its dependencies; no constructor is called twice
  and the lifecycle hooks follow the order of construction. In the second case the closable values
  constructed before the failure are closed, last first. It never dereferences a missing
  provider and its recursion never exceeds the number of providers.\<close>

theorem build_constructs_graph:
  assumes "ct_wf ct" and "ct_singletons ct = Map.empty" and "ct_hooks ct = []" and "ct_calls ct = []"
    and "validate_container (ct\<lparr>ct_built := True\<rparr>) = []"
  shows "case build call kind ct of
      (None, closed, ct') \<Rightarrow>
        (\<forall>p \<in> set (ct_order ct). p_scope p = SingletonScope \<longrightarrow>
           (\<exists>v. ct_singletons ct' (p_out p) = Some v \<and> built_from call ct' p v)) \<and>
        distinct (map fst (ct_calls ct')) \<and> ct_hooks ct' = hooks_of kind ct' (map fst (ct_calls ct'))
    | (Some e, closed, ct') \<Rightarrow>
        (\<exists>p \<in> set (ct_order ct). \<exists>args msg. e = CtorFailed (p_out p) msg \<and> call_provider call p args = Inl msg) \<and>
        distinct (map fst (ct_calls ct')) \<and>
        closed = map ch_value (filter (\<lambda>h. \<not> ch_starts h) (rev (hooks_of kind ct' (map fst (butlast (ct_calls ct'))))))"
proof -
  define g where "g = ct\<lparr>ct_built := True\<rparr>"
  have w: "ct_wf g" using assms(1) by (simp add: g_def ct_wf_def)
  have gv: "graph_valid g" by (rule validate_nil [OF w]) (use assms(5) g_def in simp)
  have i: "build_inv call kind g" by (rule build_start_inv) (use assms in \<open>simp_all add: g_def\<close>)
  obtain r ct' where r: "build_all call kind (length (ct_order g)) (ct_order g) g = (r, ct')" by fastforce
  have "same_graph g g" by (simp add: same_graph_def)
  note all = build_all_correct [OF gv this i subset_refl, unfolded r]
  have og: "ct_order ct = ct_order g" by (simp add: g_def)
  show ?thesis
  proof (cases r)
    case None
    with all have s: "same_graph g ct'" "build_inv call kind ct'"
      "\<forall>p \<in> set (ct_order g). p_scope p = SingletonScope \<longrightarrow> ct_singletons ct' (p_out p) \<noteq> None" by simp_all
    have "build call kind ct = (None, [], ct')"
      using assms(5) r None by (simp add: build_def Let_def g_def)
    with s show ?thesis unfolding og by (auto simp: build_inv_def same_graph_def)
  next
    case (Some e)
    with all have s: "same_graph g ct'" "ctor_failed call kind ct' e" by simp_all
    have "build call kind ct = (Some e, fst (close_built ct'), snd (close_built ct'))"
      using assms(5) r Some by (simp add: build_def Let_def g_def split: prod.splits)
    moreover from s(2) obtain p msg args ct0 where f: "p \<in> set (ct_order ct')" "e = CtorFailed (p_out p) msg"
      "build_inv call kind ct0" "ct' = log_call (p_out p) args ct0" "ct_singletons ct0 (p_out p) = None"
      "call_provider call p args = Inl msg" unfolding ctor_failed_def by blast
    have "distinct (map fst (ct_calls ct'))" "hooks_of kind ct' ts = hooks_of kind ct0 ts"
      "butlast (ct_calls ct') = ct_calls ct0" "ct_hooks ct' = ct_hooks ct0" for ts
      using f(3,4,5) by (auto simp: log_call_def build_inv_def hooks_of_def)
    moreover have "hooks_of kind (snd (close_built ct')) ts = hooks_of kind ct' ts"
      "ct_calls (snd (close_built ct')) = ct_calls ct'" for ts
      by (simp_all add: close_built_def hooks_of_def)
    moreover have "fst (close_built ct') = map ch_value (filter (\<lambda>h. \<not> ch_starts h) (rev (ct_hooks ct')))"
      by (simp add: close_built_def)
    moreover have "ct_hooks ct0 = hooks_of kind ct0 (map fst (ct_calls ct0))" using f(3) by (simp add: build_inv_def)
    moreover have "p \<in> set (ct_order g)" using f(1) s(1) by (simp add: same_graph_def)
    ultimately show ?thesis using f(2,6) unfolding og by simp blast
  qed
qed

definition sample_provider :: "string \<Rightarrow> go_type list \<Rightarrow> (string, string) provider" where
  "sample_provider s deps = \<lparr>p_out = NamedT s, p_ctor = Some s, p_params = deps, p_returns_err = True,
     p_scope = SingletonScope, p_supplied = None, p_location = [], p_module = []\<rparr>"

definition sample_container :: "go_type list \<Rightarrow> (string, string) container" where
  "sample_container deps =
     (let a = sample_provider ''A'' [NamedT ''B'', CtxT]; b = sample_provider ''B'' deps
      in new_container\<lparr>ct_providers := [NamedT ''A'' \<mapsto> a, NamedT ''B'' \<mapsto> b], ct_order := [a, b]\<rparr>)"

lemma sample_container_wf: "ct_wf (sample_container deps)"
  by (auto simp: sample_container_def Let_def ct_wf_def new_container_def sample_provider_def provider_ok_def builtin_dep_def)

theorem build_constructs_graph_witness:
  "ct_order (sample_container []) = [sample_provider ''A'' [NamedT ''B'', CtxT], sample_provider ''B'' []] \<and>
   (case build (\<lambda>c args. (c, None)) (\<lambda>_. \<lparr>vk_nil = False, vk_lifecycle = False, vk_closer = True\<rparr>) (sample_container []) of
      (None, closed, ct') \<Rightarrow> \<forall>p \<in> set (ct_order (sample_container [])). p_scope p = SingletonScope \<longrightarrow>
         (\<exists>v. ct_singletons ct' (p_out p) = Some v \<and> built_from (\<lambda>c args. (c, None)) ct' p v)
    | (Some e, closed, ct') \<Rightarrow> distinct (map fst (ct_calls ct')))"
proof -
  let ?ct = "sample_container []"
  have v: "validate_container (?ct\<lparr>ct_built := True\<rparr>) = []" by code_simp
  have e: "ct_singletons ?ct = Map.empty" "ct_hooks ?ct = []" "ct_calls ?ct = []"
    "ct_order ?ct = [sample_provider ''A'' [NamedT ''B'', CtxT], sample_provider ''B'' []]"
    by (simp_all add: sample_container_def Let_def new_container_def)
  show ?thesis
    using build_constructs_graph [OF sample_container_wf e(1-3) v,
        where call = "\<lambda>c args. (c, None)" and kind = "\<lambda>_. \<lparr>vk_nil = False, vk_lifecycle = False, vk_closer = True\<rparr>"] e(4)
    by (auto split: prod.splits option.splits)
qed

theorem find_cycle_correct_witness:
  "find_cycle (sample_container [NamedT ''A'']) \<noteq> None \<and> \<not> acyclic (dep_edges (sample_container [NamedT ''A'']))"
proof -
  let ?a = "sample_provider ''A'' [NamedT ''B'', CtxT]" and ?b = "sample_provider ''B'' [NamedT ''A'']"
  have "is_cycle (sample_container [NamedT ''A'']) [?a, ?b, ?a]"
    by (simp add: is_cycle_def dep_edges_def sample_container_def Let_def sample_provider_def)
  then have "\<not> acyclic (dep_edges (sample_container [NamedT ''A'']))" by (rule cycle_not_acyclic)
  then show ?thesis using find_cycle_correct [OF sample_container_wf, of "[NamedT ''A'']"] by simp
qed

end
