(* ===== verification/ContainerResolve.thy ===== *)
theory ContainerResolve
  imports ContainerBuild
begin

text \<open>
  \<open>container.go\<close>, after the construction: \<open>runInvokes\<close>, \<open>resolveSingleton\<close> and the resolution of
  dependencies within a request, where request-scoped values are constructed on first use. A
  request's own values are a record; \<open>rv_calls\<close> is a history of the constructor calls that
  succeeded. The fuel of \<open>resolve\<close> bounds its recursion.
\<close>

section \<open>At start\<close>

datatype resolve_error =
    NotBuilt | IsRequestScoped go_type | NoProvider go_type | ScopedCtorFailed go_type string | ResolveNoFuel

definition resolve_singleton :: "('c, 'v) container \<Rightarrow> go_type \<Rightarrow> (resolve_error, 'v arg) result" where
  "resolve_singleton ct t =
     (if t = CtxT then Inr ArgContext else if t = LoggerT then Inr ArgLogger else if t = EnvT then Inr ArgEnv
      else if \<not> ct_built ct then Inl NotBuilt
      else case ct_singletons ct t of
             Some v \<Rightarrow> Inr (ArgValue v)
           | None \<Rightarrow>
               (case ct_providers ct t of
                  Some p \<Rightarrow> if p_scope p = RequestScope then Inl (IsRequestScoped t) else Inl (NoProvider t)
                | None \<Rightarrow> Inl (NoProvider t)))"

fun resolve_params :: "('c, 'v) container \<Rightarrow> go_type list \<Rightarrow> (go_type \<times> resolve_error, 'v arg list) result" where
  "resolve_params ct [] = Inr []"
| "resolve_params ct (t # ts) =
     (case resolve_singleton ct t of
        Inl e \<Rightarrow> Inl (t, e)
      | Inr x \<Rightarrow> map_sum id ((#) x) (resolve_params ct ts))"

datatype invoke_error = MissingForInvoke go_type resolve_error | InvokeFailed string

text \<open>\<open>runInvokes\<close>: the function's own effect on the application is the parameter \<open>run\<close>, which is
  given the module the function was registered by.\<close>

fun run_invokes ::
  "('c \<Rightarrow> string \<Rightarrow> 'v arg list \<Rightarrow> 's \<Rightarrow> string option \<times> 's) \<Rightarrow> ('c, 'v) container \<Rightarrow>
     ('c, 'v) invocation list \<Rightarrow> 's \<Rightarrow> invoke_error option \<times> 's" where
  "run_invokes run ct [] s = (None, s)"
| "run_invokes run ct (f # fs) s =
     (case resolve_params ct (in_params f) of
        Inl (t, e) \<Rightarrow> (Some (MissingForInvoke t e), s)
      | Inr args \<Rightarrow>
          (case run (in_fn f) (in_module f) args s of
             (Some err, s') \<Rightarrow> (Some (InvokeFailed err), s')
           | (None, s') \<Rightarrow> run_invokes run ct fs s'))"

section \<open>In a request\<close>

record 'v request_values =
  rv_scoped :: "go_type \<Rightarrow> 'v option"
  rv_closers :: "'v list"
  rv_calls :: "go_type list"

definition no_request_values :: "'v request_values" where
  "no_request_values = \<lparr>rv_scoped = Map.empty, rv_closers = [], rv_calls = []\<rparr>"

definition keep_scoped ::
  "('v \<Rightarrow> value_kind) \<Rightarrow> go_type \<Rightarrow> 'v \<Rightarrow> 'v request_values \<Rightarrow> 'v request_values" where
  "keep_scoped kind t v rq =
     rq\<lparr>rv_scoped := (rv_scoped rq)(t \<mapsto> v), rv_calls := rv_calls rq @ [t],
        rv_closers := rv_closers rq @ (if \<not> vk_nil (kind v) \<and> vk_closer (kind v) then [v] else [])\<rparr>"

fun resolve ::
  "('c \<Rightarrow> 'v arg list \<Rightarrow> 'v \<times> string option) \<Rightarrow> ('v \<Rightarrow> value_kind) \<Rightarrow> ('c, 'v) container \<Rightarrow> nat \<Rightarrow>
     go_type \<Rightarrow> 'v request_values \<Rightarrow> (resolve_error, 'v arg) result \<times> 'v request_values"
and resolve_args ::
  "('c \<Rightarrow> 'v arg list \<Rightarrow> 'v \<times> string option) \<Rightarrow> ('v \<Rightarrow> value_kind) \<Rightarrow> ('c, 'v) container \<Rightarrow> nat \<Rightarrow>
     go_type list \<Rightarrow> 'v request_values \<Rightarrow> (resolve_error, 'v arg list) result \<times> 'v request_values" where
  "resolve call kind ct 0 t rq = (Inl ResolveNoFuel, rq)"
| "resolve call kind ct (Suc n) t rq =
     (if t = CtxT then (Inr ArgContext, rq) else if t = ReqCtxT then (Inr ArgRequest, rq)
      else if t = LoggerT then (Inr ArgLogger, rq) else if t = EnvT then (Inr ArgEnv, rq)
      else case ct_singletons ct t of
             Some v \<Rightarrow> (Inr (ArgValue v), rq)
           | None \<Rightarrow>
               (case ct_providers ct t of
                  None \<Rightarrow> (Inl (NoProvider t), rq)
                | Some p \<Rightarrow>
                    if \<not> ct_built ct then (Inl (NoProvider t), rq)
                    else
                      (case rv_scoped rq t of
                         Some v \<Rightarrow> (Inr (ArgValue v), rq)
                       | None \<Rightarrow>
                           (case resolve_args call kind ct n (p_params p) rq of
                              (Inl e, rq') \<Rightarrow> (Inl e, rq')
                            | (Inr args, rq') \<Rightarrow>
                                (case call_provider call p args of
                                   Inl e \<Rightarrow> (Inl (ScopedCtorFailed t e), rq')
                                 | Inr v \<Rightarrow> (Inr (ArgValue v), keep_scoped kind t v rq'))))))"
| "resolve_args call kind ct n [] rq = (Inr [], rq)"
| "resolve_args call kind ct n (t # ts) rq =
     (case resolve call kind ct n t rq of
        (Inl e, rq') \<Rightarrow> (Inl e, rq')
      | (Inr x, rq') \<Rightarrow> cons_arg x (resolve_args call kind ct n ts rq'))"

text \<open>\<open>Dep\<close>: as much fuel as there are providers and one more.\<close>

definition request_dep ::
  "('c \<Rightarrow> 'v arg list \<Rightarrow> 'v \<times> string option) \<Rightarrow> ('v \<Rightarrow> value_kind) \<Rightarrow> ('c, 'v) container \<Rightarrow>
     go_type \<Rightarrow> 'v request_values \<Rightarrow> (resolve_error, 'v arg) result \<times> 'v request_values" where
  "request_dep call kind ct t rq = resolve call kind ct (Suc (length (ct_order ct))) t rq"

text \<open>\<open>Resolve\<close> and \<open>Dep\<close> return the zero value for a nil one; the \<open>Must\<close> variants panic with the
  error.\<close>

definition non_nil :: "('v \<Rightarrow> value_kind) \<Rightarrow> 'v arg \<Rightarrow> 'v arg option" where
  "non_nil kind x = (case x of ArgValue v \<Rightarrow> if vk_nil (kind v) then None else Some x | _ \<Rightarrow> Some x)"

definition resolve_value ::
  "('v \<Rightarrow> value_kind) \<Rightarrow> ('c, 'v) container \<Rightarrow> go_type \<Rightarrow> (resolve_error, 'v arg option) result" where
  "resolve_value kind ct t = map_sum id (non_nil kind) (resolve_singleton ct t)"

definition dep_value ::
  "('c \<Rightarrow> 'v arg list \<Rightarrow> 'v \<times> string option) \<Rightarrow> ('v \<Rightarrow> value_kind) \<Rightarrow> ('c, 'v) container \<Rightarrow>
     go_type \<Rightarrow> 'v request_values \<Rightarrow> (resolve_error, 'v arg option) result \<times> 'v request_values" where
  "dep_value call kind ct t rq =
     (case request_dep call kind ct t rq of (r, rq') \<Rightarrow> (map_sum id (non_nil kind) r, rq'))"

datatype ('e, 'a) outcome = Panics 'e | Returns 'a

definition must :: "('e, 'a) result \<Rightarrow> ('e, 'a) outcome" where
  "must r = (case r of Inl e \<Rightarrow> Panics e | Inr x \<Rightarrow> Returns x)"

section \<open>Request-scoped values\<close>

text \<open>A container as \<open>build\<close> leaves it when it succeeds.\<close>

definition ready :: "('c, 'v) container \<Rightarrow> bool" where
  "ready ct \<longleftrightarrow> graph_valid ct \<and> ct_built ct \<and>
     (\<forall>p \<in> set (ct_order ct). p_scope p = SingletonScope \<longrightarrow> ct_singletons ct (p_out p) \<noteq> None)"

definition resolvable :: "('c, 'v) container \<Rightarrow> nat \<Rightarrow> go_type \<Rightarrow> bool" where
  "resolvable ct n t \<longleftrightarrow> 0 < n \<and>
     (builtin_dep t \<or> (\<exists>q \<in> set (ct_order ct). ct_providers ct t = Some q \<and> dep_rank ct q + 1 < n))"

definition rv_inv :: "('c, 'v) container \<Rightarrow> 'v request_values \<Rightarrow> bool" where
  "rv_inv ct rq \<longleftrightarrow> distinct (rv_calls rq) \<and> set (rv_calls rq) = dom (rv_scoped rq) \<and>
     (\<forall>t \<in> dom (rv_scoped rq). \<exists>q. ct_providers ct t = Some q \<and> p_scope q = RequestScope)"

definition resolve_ok ::
  "('c, 'v) container \<Rightarrow> 'v request_values \<Rightarrow> go_type set \<Rightarrow> ('a \<Rightarrow> 'v request_values \<Rightarrow> bool) \<Rightarrow>
     (resolve_error, 'a) result \<times> 'v request_values \<Rightarrow> bool" where
  "resolve_ok ct rq reach good r \<longleftrightarrow>
     rv_inv ct (snd r) \<and> rv_scoped rq \<subseteq>\<^sub>m rv_scoped (snd r) \<and>
     dom (rv_scoped (snd r)) \<subseteq> dom (rv_scoped rq) \<union> reach \<and>
     (case fst r of
        Inr x \<Rightarrow> good x (snd r)
      | Inl e \<Rightarrow> \<exists>t msg. e = ScopedCtorFailed t msg)"

definition cached :: "('c, 'v) container \<Rightarrow> go_type \<Rightarrow> 'v arg \<Rightarrow> 'v request_values \<Rightarrow> bool" where
  "cached ct t x rq \<longleftrightarrow>
     (if t = CtxT then x = ArgContext else if t = ReqCtxT then x = ArgRequest else if t = LoggerT then x = ArgLogger
      else if t = EnvT then x = ArgEnv
      else \<exists>v. x = ArgValue v \<and> (ct_singletons ct t = Some v \<or> ct_singletons ct t = None \<and> rv_scoped rq t = Some v))"

definition reach_from :: "('c, 'v) container \<Rightarrow> go_type \<Rightarrow> go_type set" where
  "reach_from ct t = reach_of ct [t]"

lemma reach_of_Cons: "reach_of g (t # ts) = reach_of g [t] \<union> reach_of g ts"
  unfolding reach_of_def by auto

lemma ready_params_resolvable:
  assumes r: "ready ct" and p: "p \<in> set (ct_order ct)" "dep_rank ct p + 1 < Suc n" and t: "t \<in> set (p_params p)"
  shows "resolvable ct n t"
proof (cases "builtin_dep t")
  case True
  then show ?thesis using p by (simp add: resolvable_def)
next
  case False
  have w: "ct_wf ct" and a: "acyclic (dep_edges ct)" and c: "check_dep ct p t = []"
    using r p t by (auto simp: ready_def graph_valid_def)
  from c False obtain q where q: "ct_providers ct t = Some q"
    by (auto simp: check_dep_def builtin_dep_def split: if_splits option.splits)
  then have e: "(p, q) \<in> dep_edges ct" using p t by (auto simp: dep_edges_def)
  from dep_rank_less [OF w a e] dep_edges_in [OF w e] q p show ?thesis
    by (auto simp: resolvable_def)
qed

lemma keep_scoped_ok:
  assumes "rv_inv ct rq" and "rv_scoped rq t = None" and "ct_providers ct t = Some q" and "p_scope q = RequestScope"
  shows "rv_inv ct (keep_scoped kind t v rq)"
  using assms by (auto simp: rv_inv_def keep_scoped_def)

lemma resolve_correct:
  shows "ready ct \<Longrightarrow> rv_inv ct rq \<Longrightarrow> resolvable ct n t \<Longrightarrow>
      resolve_ok ct rq (reach_of ct [t]) (cached ct t) (resolve call kind ct n t rq)"
    and "ready ct \<Longrightarrow> rv_inv ct rq \<Longrightarrow> (\<forall>t \<in> set ts. resolvable ct n t) \<Longrightarrow>
      resolve_ok ct rq (reach_of ct ts) (\<lambda>_ _. True) (resolve_args call kind ct n ts rq)"
proof (induction call kind ct n t rq and call kind ct n ts rq rule: resolve_resolve_args.induct)
  case (1 call kind ct t rq)
  then show ?case by (simp add: resolvable_def)
next
  case (2 call kind ct n t rq)
  note prems = "2.prems"
  show ?case
  proof (cases "t \<in> {CtxT, ReqCtxT, LoggerT, EnvT} \<or> ct_singletons ct t \<noteq> None")
    case True
    with prems(2) show ?thesis by (auto simp: resolve_ok_def cached_def)
  next
    case False
    then have nb: "t \<noteq> CtxT" "t \<noteq> ReqCtxT" "t \<noteq> LoggerT" "t \<noteq> EnvT" and ns: "ct_singletons ct t = None" by auto
    from prems(3) nb obtain p where p: "p \<in> set (ct_order ct)" "ct_providers ct t = Some p" "dep_rank ct p + 1 < Suc n"
      by (auto simp: resolvable_def builtin_dep_def)
    have b: "ct_built ct" and w: "ct_wf ct" and g: "graph_valid ct"
      using prems(1) by (auto simp: ready_def graph_valid_def)
    have out: "p_out p = t" using ct_wfD(3) [OF w, of t p] p by simp
    have sc: "p_scope p = RequestScope" using prems(1) p(1) ns out by (cases "p_scope p") (auto simp: ready_def)
    show ?thesis
    proof (cases "rv_scoped rq t")
      case (Some v)
      with prems(2) nb ns p b show ?thesis by (simp add: resolve_ok_def cached_def)
    next
      case None
      have args: "resolve_ok ct rq (reach_of ct (p_params p)) (\<lambda>_ _. True) (resolve_args call kind ct n (p_params p) rq)"
        by (rule "2.IH" [OF nb ns p(2) _ None prems(1,2)])
           (use b ready_params_resolvable [OF prems(1) p(1,3)] in auto)
      have "reach_of ct (p_params p) \<subseteq> reach_of ct [t]"
        using p(1,2) unfolding reach_of_def by (force simp: dep_edges_def intro: converse_rtrancl_into_rtrancl)
      moreover have "t \<in> reach_of ct [t]" using p(2) out unfolding reach_of_def by auto
      moreover have "t \<notin> reach_of ct (p_params p)" using own_type_not_reached [OF g p(1)] out by simp
      moreover obtain r rq' where r: "resolve_args call kind ct n (p_params p) rq = (r, rq')" by fastforce
      ultimately have s: "rv_inv ct rq'" "rv_scoped rq \<subseteq>\<^sub>m rv_scoped rq'" "rv_scoped rq' t = None"
        "dom (rv_scoped rq') \<subseteq> dom (rv_scoped rq) \<union> reach_of ct [t]" "t \<in> reach_of ct [t]"
        using args None by (auto simp: resolve_ok_def)
      show ?thesis
      proof (cases r)
        case (Inl e)
        with args r nb ns p b None s show ?thesis by (simp add: resolve_ok_def)
      next
        case (Inr as)
        show ?thesis
        proof (cases "call_provider call p as")
          case (Inl e)
          with r Inr nb ns p b None s show ?thesis by (simp add: resolve_ok_def)
        next
          case (Inr v)
          have le: "rv_scoped rq \<subseteq>\<^sub>m (rv_scoped rq')(t \<mapsto> v)" using s(2) None by (auto simp: map_le_def)
          have "resolve call kind ct (Suc n) t rq = (Inr (ArgValue v), keep_scoped kind t v rq')"
            using r Inr \<open>r = Inr as\<close> nb ns p b None by simp
          with keep_scoped_ok [OF s(1,3) p(2) sc] le s(4,5) nb ns show ?thesis
            by (auto simp: resolve_ok_def cached_def keep_scoped_def)
        qed
      qed
    qed
  qed
next
  case (3 call kind ct n rq)
  then show ?case by (simp add: resolve_ok_def)
next
  case (4 call kind ct n t ts rq)
  note prems = "4.prems"
  have one: "resolve_ok ct rq (reach_of ct [t]) (cached ct t) (resolve call kind ct n t rq)"
    by (rule "4.IH"(1) [OF prems(1,2)]) (use prems(3) in simp)
  obtain r rq' where r: "resolve call kind ct n t rq = (r, rq')" by fastforce
  show ?case
  proof (cases r)
    case (Inl e)
    with one r show ?thesis by (subst reach_of_Cons) (auto simp: resolve_ok_def)
  next
    case (Inr x)
    from one r have s: "rv_inv ct rq'" "rv_scoped rq \<subseteq>\<^sub>m rv_scoped rq'"
      "dom (rv_scoped rq') \<subseteq> dom (rv_scoped rq) \<union> reach_of ct [t]" by (simp_all add: resolve_ok_def)
    have two: "resolve_ok ct rq' (reach_of ct ts) (\<lambda>_ _. True) (resolve_args call kind ct n ts rq')"
      by (rule "4.IH"(2) [OF r [symmetric] Inr prems(1) s(1)]) (use prems(3) in simp)
    have d: "dom (rv_scoped (snd (resolve_args call kind ct n ts rq'))) \<subseteq>
        dom (rv_scoped rq) \<union> (reach_of ct [t] \<union> reach_of ct ts)"
    proof -
      have "dom (rv_scoped (snd (resolve_args call kind ct n ts rq'))) \<subseteq> dom (rv_scoped rq') \<union> reach_of ct ts"
        using two by (simp add: resolve_ok_def)
      then show ?thesis using s(3) by blast
    qed
    have m: "rv_scoped rq \<subseteq>\<^sub>m rv_scoped (snd (resolve_args call kind ct n ts rq'))"
      using s(2) two by (auto simp: resolve_ok_def intro: map_le_trans)
    show ?thesis
      using two d m r Inr by (subst reach_of_Cons) (simp add: resolve_ok_def cons_arg_def split: sum.splits)
  qed
qed

lemma dep_again:
  assumes "cached ct t x rq" and "ready ct" and "resolvable ct n t"
  shows "resolve call kind ct n t rq = (Inr x, rq)"
  using assms by (cases n) (auto simp: cached_def resolvable_def ready_def builtin_dep_def split: if_splits)

lemma dep_resolvable:
  assumes "ready ct" and "builtin_dep t \<or> ct_providers ct t \<noteq> None"
  shows "resolvable ct (Suc (length (ct_order ct))) t"
proof -
  have w: "ct_wf ct" and a: "acyclic (dep_edges ct)" using assms(1) by (auto simp: ready_def graph_valid_def)
  from assms(2) show ?thesis
    using ct_wfD(3) [OF w] dep_rank_bound [OF w a] by (fastforce simp: resolvable_def)
qed

text \<open>C15: In a started application every provided type can be resolved in a request: the recursion
  stays within its bound and no provider is missing, so the only error is one a constructor
  returns. A value once resolved is what every later resolution in the request returns, without
  running a constructor again, and no request-scoped constructor succeeds twice in a request.\<close>

theorem request_resolution:
  assumes "ready ct" and "rv_inv ct rq" and "builtin_dep t \<or> ct_providers ct t \<noteq> None"
  shows "case request_dep call kind ct t rq of
      (Inl e, rq') \<Rightarrow> (\<exists>t' msg. e = ScopedCtorFailed t' msg) \<and> rv_inv ct rq'
    | (Inr x, rq') \<Rightarrow> request_dep call kind ct t rq' = (Inr x, rq') \<and> rv_inv ct rq'"
proof -
  note n = dep_resolvable [OF assms(1,3)]
  from resolve_correct(1) [OF assms(1,2) n, of call kind] dep_again [OF _ assms(1) n, of _ _ call kind]
  show ?thesis by (auto simp: request_dep_def resolve_ok_def simp del: resolve.simps split: prod.splits sum.splits)
qed

definition scoped_container :: "(string, string) container" where
  "scoped_container =
     (let a = (sample_provider ''A'' [ReqCtxT])\<lparr>p_scope := RequestScope\<rparr>
      in new_container\<lparr>ct_providers := [NamedT ''A'' \<mapsto> a], ct_order := [a], ct_built := True\<rparr>)"

theorem request_resolution_witness:
  "fst (request_dep (\<lambda>c args. (c, None)) (\<lambda>_. \<lparr>vk_nil = False, vk_lifecycle = False, vk_closer = True\<rparr>) scoped_container
      (NamedT ''A'') no_request_values) = Inr (ArgValue ''A'') \<and>
   rv_inv scoped_container (snd (request_dep (\<lambda>c args. (c, None)) (\<lambda>_. \<lparr>vk_nil = False, vk_lifecycle = False, vk_closer = True\<rparr>)
      scoped_container (NamedT ''A'') no_request_values))"
proof -
  let ?ct = scoped_container and ?kind = "\<lambda>_. \<lparr>vk_nil = False, vk_lifecycle = False, vk_closer = True\<rparr>"
  have w: "ct_wf ?ct"
    by (auto simp: scoped_container_def Let_def ct_wf_def new_container_def sample_provider_def provider_ok_def builtin_dep_def)
  have v: "validate_container ?ct = []" by code_simp
  have r: "ready ?ct"
    using validate_nil [OF w v] by (auto simp: ready_def scoped_container_def Let_def)
  have i: "rv_inv ?ct no_request_values" by (simp add: rv_inv_def no_request_values_def)
  have p: "builtin_dep (NamedT ''A'') \<or> ct_providers ?ct (NamedT ''A'') \<noteq> None"
    by (simp add: scoped_container_def Let_def)
  have e: "fst (request_dep (\<lambda>c args. (c, None)) ?kind ?ct (NamedT ''A'') no_request_values) = Inr (ArgValue ''A'')"
    by (simp add: request_dep_def scoped_container_def Let_def new_container_def sample_provider_def no_request_values_def
        call_provider_def cons_arg_def)
  show ?thesis
    using request_resolution [OF r i p, of "\<lambda>c args. (c, None)" ?kind] e by (auto split: prod.splits sum.splits)
qed

end
