(* ===== verification/Errors.thy ===== *)
theory Errors
  imports Prelude
begin

text \<open>
  \<open>errors.go\<close>: structured errors, the conversion of any error to one (\<open>AsError\<close>), and the public
  part of them that the error handlers render. A Go error is a tree: \<open>'d\<close> is the type of the
  public details and \<open>Joined\<close> is what \<open>errors.Join\<close> and \<open>fmt.Errorf\<close> with several \<open>%w\<close> build.
  \<open>errors.As\<close> and \<open>errors.Is\<close> search such a tree in pre-order, which is \<open>err_chain\<close>.
\<close>

section \<open>Errors\<close>

datatype 'd go_error =
    AppError (ae_status: nat) (ae_code: string) (ae_message: string) (ae_details: "'d option")
      (ae_meta: "(string \<times> string) list") (ae_cause: "'d go_error option")
  | ValidationErrors 'd
  | MaxBytesError int
  | DeadlineExceeded
  | Canceled
  | Opaque string
  | Wrapped string "'d go_error"
  | Joined "'d go_error list"

fun err_chain :: "'d go_error \<Rightarrow> 'd go_error list" where
  "err_chain (AppError s c m d mt cause) =
     AppError s c m d mt cause # (case cause of None \<Rightarrow> [] | Some e \<Rightarrow> err_chain e)"
| "err_chain (Wrapped msg e) = Wrapped msg e # err_chain e"
| "err_chain (Joined es) = Joined es # concat (map err_chain es)"
| "err_chain e = [e]"

definition new_error :: "nat \<Rightarrow> string \<Rightarrow> string \<Rightarrow> 'd go_error" where
  "new_error status code message = AppError status code message None [] None"

definition is_app :: "'d go_error \<Rightarrow> bool" where
  "is_app e = (case e of AppError _ _ _ _ _ _ \<Rightarrow> True | _ \<Rightarrow> False)"

definition is_validation :: "'d go_error \<Rightarrow> bool" where
  "is_validation e = (case e of ValidationErrors _ \<Rightarrow> True | _ \<Rightarrow> False)"

definition is_max_bytes :: "'d go_error \<Rightarrow> bool" where
  "is_max_bytes e = (case e of MaxBytesError _ \<Rightarrow> True | _ \<Rightarrow> False)"

lemma is_app_simps [simp]:
  "is_app (AppError s c m d mt cause)" "\<not> is_app (ValidationErrors v)" "\<not> is_app (MaxBytesError n)"
  "\<not> is_app DeadlineExceeded" "\<not> is_app Canceled" "\<not> is_app (Opaque msg)" "\<not> is_app (Wrapped msg e)"
  "\<not> is_app (Joined es)"
  by (simp_all add: is_app_def)

text \<open>The copies that \<open>Wrap\<close>, \<open>WithMessage\<close>, \<open>WithDetails\<close> and \<open>WithMeta\<close> return.\<close>

fun with_cause :: "'d go_error \<Rightarrow> 'd go_error \<Rightarrow> 'd go_error" where
  "with_cause (AppError s c m d mt _) err = AppError s c m d mt (Some err)"
| "with_cause e err = e"

fun with_message :: "'d go_error \<Rightarrow> string \<Rightarrow> 'd go_error" where
  "with_message (AppError s c _ d mt cause) msg = AppError s c msg d mt cause"
| "with_message e msg = e"

fun with_details :: "'d go_error \<Rightarrow> 'd \<Rightarrow> 'd go_error" where
  "with_details (AppError s c m _ mt cause) d = AppError s c m (Some d) mt cause"
| "with_details e d = e"

fun with_meta :: "'d go_error \<Rightarrow> string \<Rightarrow> string \<Rightarrow> 'd go_error" where
  "with_meta (AppError s c m d mt cause) k v = AppError s c m d (AList.update k v mt) cause"
| "with_meta e k v = e"

text \<open>\<open>Error.Is\<close>, and \<open>errors.Is\<close> with such a target: the errors of the chain are compared by it
  (identical errors have the same status and code).\<close>

fun same_error :: "'d go_error \<Rightarrow> 'd go_error \<Rightarrow> bool" where
  "same_error (AppError s c _ _ _ _) (AppError s' c' _ _ _ _) \<longleftrightarrow> s = s' \<and> c = c'"
| "same_error _ _ \<longleftrightarrow> False"

definition errors_is :: "'d go_error \<Rightarrow> 'd go_error \<Rightarrow> bool" where
  "errors_is e target \<longleftrightarrow> (\<exists>x \<in> set (err_chain e). same_error x target)"

definition is_server_error :: "'d go_error \<Rightarrow> bool" where
  "is_server_error e \<longleftrightarrow> ae_status e \<ge> 500"

section \<open>AsError\<close>

text \<open>\<open>num\<close> is \<open>fmt\<close>'s decimal rendering of an integer.\<close>

definition as_error :: "(int \<Rightarrow> string) \<Rightarrow> 'd go_error \<Rightarrow> 'd go_error" where
  "as_error num err =
     (case find is_app (err_chain err) of
        Some e \<Rightarrow> e
      | None \<Rightarrow>
          (case find is_validation (err_chain err) of
             Some (ValidationErrors d) \<Rightarrow>
               AppError 422 ''VALIDATION_FAILED'' ''Request validation failed'' (Some d) [] (Some err)
           | _ \<Rightarrow>
               (case find is_max_bytes (err_chain err) of
                  Some (MaxBytesError n) \<Rightarrow>
                    AppError 413 ''PAYLOAD_TOO_LARGE''
                      (''Request body exceeds the limit of '' @ num n @ '' bytes'') None [] (Some err)
                | _ \<Rightarrow>
                    if DeadlineExceeded \<in> set (err_chain err) then
                      AppError 504 ''TIMEOUT'' ''The request timed out'' None [] (Some err)
                    else if Canceled \<in> set (err_chain err) then
                      AppError 499 ''REQUEST_CANCELED'' ''The request was canceled'' None [] (Some err)
                    else AppError 500 ''INTERNAL_ERROR'' ''Internal server error'' None [] (Some err))))"

definition status_of :: "(int \<Rightarrow> string) \<Rightarrow> 'd go_error option \<Rightarrow> nat" where
  "status_of num err = (case err of None \<Rightarrow> 200 | Some e \<Rightarrow> ae_status (as_error num e))"

text \<open>\<open>Error.Error\<close>: the text for logs.\<close>

fun error_text :: "(int \<Rightarrow> string) \<Rightarrow> ('d go_error \<Rightarrow> string) \<Rightarrow> 'd go_error \<Rightarrow> string" where
  "error_text num other (AppError s c m d mt cause) =
     num (int s) @ '' '' @ c @ '': '' @ m @
       (case cause of None \<Rightarrow> [] | Some e \<Rightarrow> '': '' @ error_text num other e)"
| "error_text num other (Wrapped msg e) = msg @ error_text num other e"
| "error_text num other (Opaque msg) = msg"
| "error_text num other e = other e"

section \<open>What is rendered\<close>

record debug_info =
  db_error :: string
  db_meta :: "(string \<times> string) list"

record 'd error_payload =
  ep_code :: string
  ep_message :: string
  ep_request_id :: string
  ep_details :: "'d option"
  ep_debug :: "debug_info option"

record 'd problem_body =
  pb_title :: string
  pb_status :: nat
  pb_detail :: string
  pb_instance :: string
  pb_code :: string
  pb_request_id :: string
  pb_details :: "'d option"
  pb_debug :: "debug_info option"

definition debug_of :: "bool \<Rightarrow> ('d go_error \<Rightarrow> string) \<Rightarrow> 'd go_error \<Rightarrow> debug_info option" where
  "debug_of expose text e =
     (if expose then
        (let d = \<lparr>db_error = (case ae_cause e of None \<Rightarrow> [] | Some err \<Rightarrow> text err), db_meta = ae_meta e\<rparr>
         in if db_error d \<noteq> [] \<or> db_meta d \<noteq> [] then Some d else None)
      else None)"

definition error_payload_of ::
  "(int \<Rightarrow> string) \<Rightarrow> ('d go_error \<Rightarrow> string) \<Rightarrow> bool \<Rightarrow> string \<Rightarrow> 'd go_error \<Rightarrow> nat \<times> 'd error_payload" where
  "error_payload_of num text expose request_id err =
     (let e = as_error num err
      in (ae_status e,
          \<lparr>ep_code = ae_code e, ep_message = ae_message e, ep_request_id = request_id,
           ep_details = ae_details e, ep_debug = debug_of expose text e\<rparr>))"

definition new_problem :: "(nat \<Rightarrow> string) \<Rightarrow> 'd go_error \<Rightarrow> string \<Rightarrow> string \<Rightarrow> 'd problem_body" where
  "new_problem status_text e inst request_id =
     \<lparr>pb_title = (if status_text (ae_status e) \<noteq> [] then status_text (ae_status e) else ae_code e),
      pb_status = ae_status e, pb_detail = ae_message e, pb_instance = inst, pb_code = ae_code e,
      pb_request_id = request_id, pb_details = ae_details e, pb_debug = None\<rparr>"

definition problem_of ::
  "(int \<Rightarrow> string) \<Rightarrow> (nat \<Rightarrow> string) \<Rightarrow> ('d go_error \<Rightarrow> string) \<Rightarrow> bool \<Rightarrow> string \<Rightarrow> string \<Rightarrow> 'd go_error \<Rightarrow>
     'd problem_body" where
  "problem_of num status_text text expose path request_id err =
     (let e = as_error num err
      in (new_problem status_text e path request_id)\<lparr>pb_debug := debug_of expose text e\<rparr>)"

section \<open>Internal information stays internal\<close>

text \<open>The same error with everything internal removed: causes, metadata and the texts of errors the
  framework does not know.\<close>

fun redact :: "'d go_error \<Rightarrow> 'd go_error" where
  "redact (AppError s c m d mt cause) = AppError s c m d [] None"
| "redact (Wrapped msg e) = Wrapped [] (redact e)"
| "redact (Joined es) = Joined (map redact es)"
| "redact (Opaque msg) = Opaque []"
| "redact e = e"

definition strip :: "'d go_error \<Rightarrow> 'd go_error" where
  "strip e = AppError (ae_status e) (ae_code e) (ae_message e) (ae_details e) [] None"

text \<open>What the searches of \<open>as_error\<close> look at in an element of the chain.\<close>

fun outline :: "'d go_error \<Rightarrow> 'd go_error" where
  "outline (Wrapped msg e) = Opaque []"
| "outline (Joined es) = Opaque []"
| "outline (Opaque msg) = Opaque []"
| "outline e = e"

lemma find_app_redact: "find is_app (err_chain (redact e)) = map_option strip (find is_app (err_chain e))"
proof (induction e rule: err_chain.induct)
  case (3 es)
  then have "find is_app (concat (map (\<lambda>x. err_chain (redact x)) es)) =
      map_option strip (find is_app (concat (map err_chain es)))"
    by (induction es) (auto simp: find_append split: option.splits)
  then show ?case by (simp add: comp_def)
qed (auto simp: strip_def split: option.splits)

lemma chain_redact:
  "\<forall>x \<in> set (err_chain e). \<not> is_app x \<Longrightarrow> map outline (err_chain (redact e)) = map outline (err_chain e)"
proof (induction e rule: err_chain.induct)
  case (3 es)
  then have "\<forall>x \<in> set es. map outline (err_chain (redact x)) = map outline (err_chain x)" by auto
  then have "map outline (concat (map (\<lambda>x. err_chain (redact x)) es)) = map outline (concat (map err_chain es))"
    by (induction es) simp_all
  then show ?case by (simp add: comp_def)
qed auto

lemma find_outline:
  assumes "map outline xs = map outline ys" and "\<And>x. P (outline x) = P x" and "\<And>x. P x \<Longrightarrow> outline x = x"
  shows "find P xs = find P ys"
  using assms(1)
proof (induction xs arbitrary: ys)
  case (Cons x xs)
  then obtain y ys' where "ys = y # ys'" "outline x = outline y" "map outline xs = map outline ys'" by (cases ys) auto
  with Cons.IH [of ys'] assms(2,3) show ?case by (metis find.simps(2))
qed simp

lemma member_outline:
  assumes "map outline xs = map outline ys" and "outline k = k" and "\<And>x. outline x = k \<Longrightarrow> x = k"
  shows "k \<in> set xs \<longleftrightarrow> k \<in> set ys"
proof -
  have "k \<in> set zs \<longleftrightarrow> k \<in> set (map outline zs)" for zs
    using assms(2,3) by force
  with assms(1) show ?thesis by metis
qed

lemma outline_eq: "outline x = DeadlineExceeded \<Longrightarrow> x = DeadlineExceeded" "outline x = Canceled \<Longrightarrow> x = Canceled"
  by (cases x; simp)+

lemma as_error_redact:
  "\<exists>mt cause. as_error num err = AppError (ae_status (as_error num (redact err))) (ae_code (as_error num (redact err)))
     (ae_message (as_error num (redact err))) (ae_details (as_error num (redact err))) mt cause"
proof (cases "find is_app (err_chain err)")
  case (Some e)
  then have "is_app e" by (auto simp: find_Some_iff)
  moreover have "find is_app (err_chain (redact err)) = Some (strip e)" by (simp add: find_app_redact Some)
  ultimately show ?thesis using Some by (cases e) (simp_all add: as_error_def strip_def is_app_def)
next
  case None
  then have o: "map outline (err_chain (redact err)) = map outline (err_chain err)"
    by (intro chain_redact) (simp add: find_None_iff)
  have n: "find is_app (err_chain (redact err)) = None" by (simp add: find_app_redact None)
  have v: "find is_validation (err_chain (redact err)) = find is_validation (err_chain err)"
  proof (rule find_outline [OF o])
    show "is_validation (outline x) = is_validation x" for x :: "'a go_error" by (cases x) (simp_all add: is_validation_def)
    show "is_validation x \<Longrightarrow> outline x = x" for x :: "'a go_error" by (cases x) (simp_all add: is_validation_def)
  qed
  have m: "find is_max_bytes (err_chain (redact err)) = find is_max_bytes (err_chain err)"
  proof (rule find_outline [OF o])
    show "is_max_bytes (outline x) = is_max_bytes x" for x :: "'a go_error" by (cases x) (simp_all add: is_max_bytes_def)
    show "is_max_bytes x \<Longrightarrow> outline x = x" for x :: "'a go_error" by (cases x) (simp_all add: is_max_bytes_def)
  qed
  have d: "DeadlineExceeded \<in> set (err_chain (redact err)) \<longleftrightarrow> DeadlineExceeded \<in> set (err_chain err)"
    by (rule member_outline [OF o]) (simp_all add: outline_eq)
  have c: "Canceled \<in> set (err_chain (redact err)) \<longleftrightarrow> Canceled \<in> set (err_chain err)"
    by (rule member_outline [OF o]) (simp_all add: outline_eq)
  note eqs = None n v m d c
  show ?thesis
  proof (cases "find is_validation (err_chain err)")
    case (Some e)
    then have "is_validation e" by (auto simp: find_Some_iff)
    then obtain v where "e = ValidationErrors v" by (cases e) (simp_all add: is_validation_def)
    with Some show ?thesis by (simp add: as_error_def eqs)
  next
    case nv: None
    show ?thesis
    proof (cases "find is_max_bytes (err_chain err)")
      case (Some e)
      then have "is_max_bytes e" by (auto simp: find_Some_iff)
      then obtain k where "e = MaxBytesError k" by (cases e) (simp_all add: is_max_bytes_def)
      with Some nv show ?thesis by (simp add: as_error_def eqs)
    next
      case nm: None
      show ?thesis using nv nm by (simp add: as_error_def eqs)
    qed
  qed
qed

lemma payload_redact:
  "error_payload_of num text False rid err = error_payload_of num text' False rid (redact err)"
  using as_error_redact [of num err] by (auto simp: error_payload_of_def Let_def debug_of_def)

lemma problem_redact:
  "problem_of num status_text text False path rid err = problem_of num status_text text' False path rid (redact err)"
  using as_error_redact [of num err] by (auto simp: problem_of_def new_problem_def Let_def debug_of_def)

text \<open>C16: Without \<open>ExposeErrors\<close> nothing internal reaches the client: for every error, the status and
  the body both error handlers render are those of the same error stripped of its causes, its
  metadata and the texts of errors unknown to the framework.\<close>

theorem internal_errors_hidden:
  "error_payload_of num text False rid err = error_payload_of num text' False rid (redact err) \<and>
   problem_of num status_text text False path rid err = problem_of num status_text text' False path rid (redact err)"
  using payload_redact problem_redact by blast

text \<open>An error the framework does not know renders as an opaque 500, however it is wrapped.\<close>

lemma unknown_error_opaque:
  "error_payload_of num text False rid (Wrapped m (Opaque secret)) =
     (500, \<lparr>ep_code = ''INTERNAL_ERROR'', ep_message = ''Internal server error'', ep_request_id = rid,
            ep_details = None, ep_debug = None\<rparr>)"
  by (simp add: error_payload_of_def as_error_def Let_def debug_of_def is_validation_def is_max_bytes_def)

end
