(* ===== verification/Response.thy ===== *)
theory Response
  imports Capture
begin

text \<open>
  \<open>response.go\<close> and the response helpers of \<open>context.go\<close>: the writer that records status and
  size and runs hooks just before the headers go out, the helpers that write a whole response,
  the single rendering of an error, and the body limiter. What reaches the underlying
  \<open>http.ResponseWriter\<close> is the list \<open>rw_wire\<close>, which assumes that it takes every byte it is
  given. A hook changes the headers (the use the code documents), so it is a function on them.
\<close>

section \<open>The response writer\<close>

datatype wire = Info nat | Commit nat headers | Body bytes | Flushed | Hijacked

record rw =
  rw_header :: headers
  rw_wire :: "wire list"
  rw_size :: int
  rw_status :: nat
  rw_written :: bool
  rw_before :: "(headers \<Rightarrow> headers) list"

definition new_rw :: rw where
  "new_rw = \<lparr>rw_header = Map.empty, rw_wire = [], rw_size = 0, rw_status = 0, rw_written = False, rw_before = []\<rparr>"

definition rw_add_before :: "(headers \<Rightarrow> headers) \<Rightarrow> rw \<Rightarrow> bool \<times> rw" where
  "rw_add_before f w = (if rw_written w then (False, w) else (True, w\<lparr>rw_before := rw_before w @ [f]\<rparr>))"

definition run_before :: "rw \<Rightarrow> rw" where
  "run_before w = w\<lparr>rw_header := fold (\<lambda>f h. f h) (rev (rw_before w)) (rw_header w), rw_before := []\<rparr>"

definition rw_write_header :: "nat \<Rightarrow> rw \<Rightarrow> rw" where
  "rw_write_header code w =
     (if rw_written w then w
      else if 100 \<le> code \<and> code < 200 \<and> code \<noteq> 101 then w\<lparr>rw_wire := rw_wire w @ [Info code]\<rparr>
      else
        let w1 = run_before w
        in w1\<lparr>rw_status := code, rw_written := True, rw_wire := rw_wire w1 @ [Commit code (rw_header w1)]\<rparr>)"

definition commit_ok :: "rw \<Rightarrow> rw" where
  "commit_ok w = (if \<not> rw_written w then rw_write_header 200 w else w)"

text \<open>\<open>Write\<close>, \<open>WriteString\<close> and \<open>ReadFrom\<close> (with everything the reader delivers).\<close>

definition rw_write :: "bytes \<Rightarrow> rw \<Rightarrow> rw" where
  "rw_write b w =
     (let w1 = commit_ok w in w1\<lparr>rw_wire := rw_wire w1 @ [Body b], rw_size := rw_size w1 + int (length b)\<rparr>)"

definition rw_flush :: "rw \<Rightarrow> rw" where
  "rw_flush w = (let w1 = commit_ok w in w1\<lparr>rw_wire := rw_wire w1 @ [Flushed]\<rparr>)"

text \<open>\<open>ok\<close>: whether the connection could be taken over.\<close>

definition rw_hijack :: "bool \<Rightarrow> rw \<Rightarrow> rw" where
  "rw_hijack ok w =
     (if ok then w\<lparr>rw_status := (if rw_status w = 0 then 101 else rw_status w), rw_written := True,
                   rw_wire := rw_wire w @ [Hijacked]\<rparr>
      else w)"

section \<open>Responses of the context\<close>

datatype respond_error = AlreadyWritten | EncodeFailed string | BadRedirect nat

definition auto_content_length :: nat where "auto_content_length = 2048"

definition body_allowed :: "nat \<Rightarrow> bool" where
  "body_allowed status \<longleftrightarrow> status \<ge> 200 \<and> status \<noteq> 204 \<and> status \<noteq> 304"

definition set_header :: "string \<Rightarrow> string \<Rightarrow> rw \<Rightarrow> rw" where
  "set_header k v w = w\<lparr>rw_header := (rw_header w)(k \<mapsto> [v])\<rparr>"

text \<open>\<open>num\<close> is \<open>strconv.Itoa\<close>; the method decides whether a body is written.\<close>

definition write_body ::
  "(int \<Rightarrow> string) \<Rightarrow> string \<Rightarrow> nat \<Rightarrow> string \<Rightarrow> bytes \<Rightarrow> rw \<Rightarrow> respond_error option \<times> rw" where
  "write_body num meth status content_type b w =
     (if rw_written w then (Some AlreadyWritten, w)
      else
        let w1 = (if content_type \<noteq> [] then set_header ''Content-Type'' content_type w else w);
            w2 = (if length b > auto_content_length \<or> meth = ''HEAD''
                  then set_header ''Content-Length'' (num (int (length b))) w1 else w1);
            w3 = rw_write_header status w2
        in if \<not> body_allowed status \<or> meth = ''HEAD'' then (None, w3) else (None, rw_write b w3))"

definition send_json ::
  "(int \<Rightarrow> string) \<Rightarrow> ('a \<Rightarrow> (string, bytes) result) \<Rightarrow> string \<Rightarrow> nat \<Rightarrow> 'a \<Rightarrow> rw \<Rightarrow> respond_error option \<times> rw" where
  "send_json num encode meth status v w =
     (if rw_written w then (Some AlreadyWritten, w)
      else case encode v of
             Inl e \<Rightarrow> (Some (EncodeFailed e), w)
           | Inr b \<Rightarrow> write_body num meth status ''application/json; charset=utf-8'' b w)"

definition send_string :: "(int \<Rightarrow> string) \<Rightarrow> string \<Rightarrow> nat \<Rightarrow> string \<Rightarrow> rw \<Rightarrow> respond_error option \<times> rw" where
  "send_string num meth status s w = write_body num meth status ''text/plain; charset=utf-8'' s w"

definition send_html :: "(int \<Rightarrow> string) \<Rightarrow> string \<Rightarrow> nat \<Rightarrow> string \<Rightarrow> rw \<Rightarrow> respond_error option \<times> rw" where
  "send_html num meth status s w = write_body num meth status ''text/html; charset=utf-8'' s w"

definition send_status :: "nat \<Rightarrow> rw \<Rightarrow> respond_error option \<times> rw" where
  "send_status code w = (if rw_written w then (Some AlreadyWritten, w) else (None, rw_write_header code w))"

text \<open>\<open>http.Redirect\<close> itself is the parameter \<open>redirect\<close>.\<close>

definition send_redirect :: "(nat \<Rightarrow> string \<Rightarrow> rw \<Rightarrow> rw) \<Rightarrow> nat \<Rightarrow> string \<Rightarrow> rw \<Rightarrow> respond_error option \<times> rw" where
  "send_redirect redirect code target w =
     (if code < 300 \<or> code > 399 then (Some (BadRedirect code), w) else (None, redirect code target w))"

text \<open>\<open>HandleError\<close>: the flag \<open>handled\<close> and the writer; the error handler is a parameter.\<close>

definition handle_error ::
  "('e \<Rightarrow> rw \<Rightarrow> rw) \<Rightarrow> 'e option \<Rightarrow> bool \<times> rw \<Rightarrow> bool \<times> rw" where
  "handle_error handler err c =
     (case err of
        None \<Rightarrow> c
      | Some e \<Rightarrow>
          if fst c then c
          else if rw_written (snd c) then (True, snd c)
          else (True, handler e (snd c)))"

section \<open>The body limiter\<close>

record limited_body =
  lb_left :: int
  lb_limit :: int

text \<open>One \<open>Read\<close> into a buffer of \<open>len\<close> bytes from a source with \<open>src\<close> bytes left, which returns
  at most \<open>k\<close> of them: the bytes delivered, whether the limit error is returned, the limiter and
  the source afterwards. The sum \<open>left + 1\<close> is one of \<open>int64\<close>; a negative slice bound panics (\<open>None\<close>).\<close>

definition lb_read :: "nat \<Rightarrow> nat \<Rightarrow> limited_body \<times> bytes \<Rightarrow> ((bytes \<times> bool) \<times> limited_body \<times> bytes) option" where
  "lb_read len k st =
     (case st of (lb, src) \<Rightarrow>
        if lb_left lb < 0 then Some (([], True), lb, src)
        else
          let bound = i64 (lb_left lb + 1) in
          if int len > bound \<and> bound < 0 then None
          else
            let len' = (if int len > bound then nat bound else len);
                got = take (min k len') src; rest = drop (min k len') src
            in if int (length got) \<le> lb_left lb
               then Some ((got, False), lb\<lparr>lb_left := lb_left lb - int (length got)\<rparr>, rest)
               else Some ((take (nat (lb_left lb)) got, True), lb\<lparr>lb_left := -1\<rparr>, rest))"

fun lb_reads :: "(nat \<times> nat) list \<Rightarrow> limited_body \<times> bytes \<Rightarrow> ((bytes \<times> bool) list \<times> limited_body \<times> bytes) option" where
  "lb_reads [] st = Some ([], st)"
| "lb_reads ((len, k) # calls) st =
     (case lb_read len k st of
        None \<Rightarrow> None
      | Some (r, st') \<Rightarrow> (case lb_reads calls st' of None \<Rightarrow> None | Some (rs, st'') \<Rightarrow> Some (r # rs, st'')))"

section \<open>One commit per response\<close>

datatype rw_op = SetH string "string list" | AddBefore "headers \<Rightarrow> headers" | WriteH nat | WriteB bytes | FlushRw

fun rw_apply :: "rw_op \<Rightarrow> rw \<Rightarrow> rw" where
  "rw_apply (SetH k vs) w = w\<lparr>rw_header := (rw_header w)(k \<mapsto> vs)\<rparr>"
| "rw_apply (AddBefore f) w = snd (rw_add_before f w)"
| "rw_apply (WriteH code) w = rw_write_header code w"
| "rw_apply (WriteB b) w = rw_write b w"
| "rw_apply FlushRw w = rw_flush w"

definition is_body :: "wire \<Rightarrow> bool" where
  "is_body e \<longleftrightarrow> (\<exists>b. e = Body b) \<or> e = Flushed"

definition is_info :: "wire \<Rightarrow> bool" where
  "is_info e \<longleftrightarrow> (\<exists>c. e = Info c)"

fun wire_bytes :: "wire \<Rightarrow> nat" where
  "wire_bytes (Body b) = length b"
| "wire_bytes e = 0"

definition committed :: "nat \<Rightarrow> wire list \<Rightarrow> bool" where
  "committed status ws \<longleftrightarrow>
     (\<exists>infos h rest. ws = infos @ Commit status h # rest \<and> list_all is_info infos \<and> list_all is_body rest)"

lemma committed_new: "list_all is_info ws \<Longrightarrow> committed c (ws @ [Commit c h])"
  unfolding committed_def by (intro exI [of _ ws] exI [of _ h] exI [of _ "[]"]) simp

lemma committed_append: "committed c ws \<Longrightarrow> is_body e \<Longrightarrow> committed c (ws @ [e])"
  unfolding committed_def
proof (elim exE conjE)
  fix infos h rest
  assume "ws = infos @ Commit c h # rest" "list_all is_info infos" "list_all is_body rest" "is_body e"
  then show "\<exists>infos h rest. ws @ [e] = infos @ Commit c h # rest \<and> list_all is_info infos \<and> list_all is_body rest"
    by (intro exI [of _ infos] exI [of _ h] exI [of _ "rest @ [e]"]) simp
qed

definition rw_inv :: "rw \<Rightarrow> bool" where
  "rw_inv w \<longleftrightarrow>
     rw_size w = int (sum_list (map wire_bytes (rw_wire w))) \<and>
     (if rw_written w then committed (rw_status w) (rw_wire w)
      else rw_status w = 0 \<and> list_all is_info (rw_wire w))"

lemma new_rw_inv: "rw_inv new_rw"
  by (simp add: rw_inv_def new_rw_def)

lemma info_bytes: "list_all is_info ws \<Longrightarrow> sum_list (map wire_bytes ws) = 0"
  by (induction ws) (auto simp: is_info_def)

lemma rw_write_header_inv: "rw_inv w \<Longrightarrow> rw_inv (rw_write_header code w)"
  by (auto simp: rw_inv_def rw_write_header_def run_before_def Let_def is_info_def intro: committed_new)

lemma commit_ok_inv: "rw_inv w \<Longrightarrow> rw_inv (commit_ok w)"
  by (simp add: commit_ok_def rw_write_header_inv)

lemma commit_ok_written: "rw_written (commit_ok w)"
  by (simp add: commit_ok_def rw_write_header_def Let_def)

lemma rw_append_inv:
  assumes "rw_inv w" and "rw_written w" and "is_body e"
  shows "rw_inv (w\<lparr>rw_wire := rw_wire w @ [e], rw_size := rw_size w + int (wire_bytes e)\<rparr>)"
  using assms committed_append [of "rw_status w" "rw_wire w" e] by (simp add: rw_inv_def)

lemma rw_write_inv: "rw_inv w \<Longrightarrow> rw_inv (rw_write b w)"
  using rw_append_inv [OF commit_ok_inv commit_ok_written, of w "Body b"]
  by (simp add: rw_write_def Let_def is_body_def)

lemma rw_flush_inv: "rw_inv w \<Longrightarrow> rw_inv (rw_flush w)"
  using rw_append_inv [OF commit_ok_inv commit_ok_written, of w Flushed]
  by (simp add: rw_flush_def Let_def is_body_def)

lemma rw_headers_inv: "rw_inv w \<Longrightarrow> rw_inv (w\<lparr>rw_header := h\<rparr>)" "rw_inv w \<Longrightarrow> rw_inv (w\<lparr>rw_before := fs\<rparr>)"
  by (simp_all add: rw_inv_def)

lemma rw_apply_inv: "rw_inv w \<Longrightarrow> rw_inv (rw_apply op w)"
  by (cases op) (simp_all add: rw_write_header_inv rw_write_inv rw_flush_inv rw_add_before_def rw_headers_inv)

lemma rw_ops_inv: "rw_inv (fold rw_apply ops new_rw)"
proof -
  have "rw_inv w \<Longrightarrow> rw_inv (fold rw_apply ops w)" for w by (induction ops arbitrary: w) (simp_all add: rw_apply_inv)
  then show ?thesis using new_rw_inv by blast
qed

lemma rw_write_header_frozen: "rw_written w \<Longrightarrow> rw_write_header code w = w"
  by (simp add: rw_write_header_def)

text \<open>Whatever a handler and its middleware do with the writer, the client gets at most one final
  status line: only informational statuses before it, only body data after it, the recorded
  status is the one sent and the recorded size the number of body bytes sent.\<close>

lemma response_committed_once:
  "let w = fold rw_apply ops new_rw
   in rw_size w = int (sum_list (map wire_bytes (rw_wire w))) \<and>
      (if rw_written w
       then committed (rw_status w) (rw_wire w)
       else rw_status w = 0 \<and> list_all is_info (rw_wire w))"
  using rw_ops_inv [of ops] by (simp add: rw_inv_def Let_def)

section \<open>The body limit\<close>

text \<open>The bytes delivered by a sequence of reads, until the first limit error.\<close>

definition delivered :: "(bytes \<times> bool) list \<Rightarrow> bytes" where
  "delivered rs = concat (map fst rs)"

text \<open>The limiter on unbounded integers, which it is below the largest limit.\<close>

definition plain_read :: "nat \<Rightarrow> nat \<Rightarrow> limited_body \<times> bytes \<Rightarrow> (bytes \<times> bool) \<times> limited_body \<times> bytes" where
  "plain_read len k st =
     (case st of (lb, src) \<Rightarrow>
        if lb_left lb < 0 then (([], True), lb, src)
        else
          let len' = (if int len > lb_left lb + 1 then nat (lb_left lb + 1) else len);
              got = take (min k len') src; rest = drop (min k len') src
          in if int (length got) \<le> lb_left lb
             then ((got, False), lb\<lparr>lb_left := lb_left lb - int (length got)\<rparr>, rest)
             else ((take (nat (lb_left lb)) got, True), lb\<lparr>lb_left := -1\<rparr>, rest))"

fun plain_reads :: "(nat \<times> nat) list \<Rightarrow> limited_body \<times> bytes \<Rightarrow> (bytes \<times> bool) list \<times> limited_body \<times> bytes" where
  "plain_reads [] st = ([], st)"
| "plain_reads ((len, k) # calls) st =
     (case plain_read len k st of (r, st') \<Rightarrow>
        case plain_reads calls st' of (rs, st'') \<Rightarrow> (r # rs, st''))"

lemma lb_read_plain: "lb_left lb < max_i64 \<Longrightarrow> lb_read len k (lb, src) = Some (plain_read len k (lb, src))"
  by (auto simp: lb_read_def plain_read_def Let_def i64_id fits_i64_def max_i64_def min_i64_def)

lemma plain_read_left: "lb_left (fst (snd (plain_read len k (lb, src)))) \<le> max 0 (lb_left lb)"
  by (auto simp: plain_read_def Let_def)

lemma lb_reads_plain: "lb_left lb < max_i64 \<Longrightarrow> lb_reads calls (lb, src) = Some (plain_reads calls (lb, src))"
proof (induction calls arbitrary: lb src)
  case (Cons c calls)
  obtain len k where c: "c = (len, k)" by (cases c)
  obtain r lb1 src1 where r: "plain_read len k (lb, src) = (r, lb1, src1)" by (metis prod_cases3)
  have "lb_left lb1 < max_i64" using plain_read_left [of len k lb src] Cons.prems r by (auto simp: max_i64_def)
  then show ?case using Cons.IH lb_read_plain [OF Cons.prems, of len k src] r c by (simp split: prod.split)
qed simp

text \<open>With the largest limit the bound wraps around, and every read panics.\<close>

lemma largest_limit_panics: "lb_read len k (\<lparr>lb_left = max_i64, lb_limit = max_i64\<rparr>, src) = None"
proof -
  have "i64 (max_i64 + 1) = min_i64" by (simp add: i64_def max_i64_def min_i64_def)
  then show ?thesis by (simp add: lb_read_def Let_def max_i64_def min_i64_def)
qed

lemma plain_reads_spent: "lb_left lb < 0 \<Longrightarrow> plain_reads calls (lb, src) = (map (\<lambda>_. ([], True)) calls, lb, src)"
  by (induction calls) (auto simp: plain_read_def)

lemma plain_reads_correct:
  assumes "0 \<le> lb_left lb"
  shows "let (rs, lb', src') = plain_reads calls (lb, src); used = length src - length src'
         in src' = drop used src \<and> delivered rs = take (min used (nat (lb_left lb))) src \<and>
            ((\<exists>r \<in> set rs. snd r) \<longrightarrow> nat (lb_left lb) < length src) \<and>
            ((\<forall>r \<in> set rs. \<not> snd r) \<longrightarrow> used \<le> nat (lb_left lb))"
  using assms
proof (induction calls arbitrary: lb src)
  case Nil
  then show ?case by (simp add: delivered_def)
next
  case (Cons c calls)
  obtain len k where c: "c = (len, k)" by fastforce
  define m where "m = min k (if int len > lb_left lb + 1 then nat (lb_left lb + 1) else len)"
  define got where "got = take m src"
  show ?case
  proof (cases "int (length got) \<le> lb_left lb")
    case True
    define lb1 where "lb1 = lb\<lparr>lb_left := lb_left lb - int (length got)\<rparr>"
    have r: "plain_read len k (lb, src) = ((got, False), lb1, drop m src)"
      using True Cons.prems by (simp add: plain_read_def Let_def got_def m_def lb1_def)
    obtain rs lb' src' where rest: "plain_reads calls (lb1, drop m src) = (rs, lb', src')" by (metis prod_cases3)
    have nn: "0 \<le> lb_left lb1" using True by (simp add: lb1_def)
    from Cons.IH [OF nn, of "drop m src", unfolded rest Let_def prod.case] 
    have ih: "src' = drop (length (drop m src) - length src') (drop m src)"
      "delivered rs = take (min (length (drop m src) - length src') (nat (lb_left lb1))) (drop m src)"
      "(\<exists>r \<in> set rs. snd r) \<longrightarrow> nat (lb_left lb1) < length (drop m src)"
      "(\<forall>r \<in> set rs. \<not> snd r) \<longrightarrow> length (drop m src) - length src' \<le> nat (lb_left lb1)" by simp_all
    have all: "plain_reads (c # calls) (lb, src) = ((got, False) # rs, lb', src')" using c r rest by simp
    have lg: "length got = min m (length src)" "length got \<le> nat (lb_left lb)" "nat (lb_left lb1) = nat (lb_left lb) - length got"
      using True by (simp_all add: got_def lb1_def nat_diff_distrib' le_nat_iff)
    have ls: "length src' \<le> length (drop m src)" by (subst ih(1)) simp
    have used: "length src - length src' = length got + (length (drop m src) - length src')"
      using ls lg(1) by simp
    have "src' = drop (length src - length src') src"
      unfolding used using ih(1) lg(1) by (cases "m \<le> length src") (simp_all add: add.commute)
    moreover have "delivered ((got, False) # rs) = take (min (length src - length src') (nat (lb_left lb))) src"
    proof -
      have "min (length src - length src') (nat (lb_left lb)) =
          length got + min (length (drop m src) - length src') (nat (lb_left lb1))"
        unfolding used using lg(2,3) by linarith
      moreover have "take (length got + j) src = got @ take j (drop m src)" for j
        using lg(1) by (cases "m \<le> length src") (simp_all add: got_def take_add)
      ultimately show ?thesis using ih(2) by (simp add: delivered_def)
    qed
    moreover have "nat (lb_left lb) < length src" if "\<exists>r \<in> set rs. snd r"
    proof -
      have "nat (lb_left lb) - length got < length src - m" using ih(3) that lg(3) by simp
      then show ?thesis using lg(1,2) by linarith
    qed
    moreover have "length src - length src' \<le> nat (lb_left lb)" if "\<forall>r \<in> set rs. \<not> snd r"
      unfolding used using ih(4) that lg(2,3) by linarith
    ultimately show ?thesis unfolding all Let_def prod.case by simp
  next
    case False
    have r: "plain_read len k (lb, src) = ((take (nat (lb_left lb)) got, True), lb\<lparr>lb_left := -1\<rparr>, drop m src)"
      using False Cons.prems by (simp add: plain_read_def Let_def got_def m_def)
    have rest: "plain_reads calls (lb\<lparr>lb_left := -1\<rparr>, drop m src) = (map (\<lambda>_. ([], True)) calls, lb\<lparr>lb_left := -1\<rparr>, drop m src)"
      by (rule plain_reads_spent) simp
    have all: "plain_reads (c # calls) (lb, src) =
        ((take (nat (lb_left lb)) got, True) # map (\<lambda>_. ([], True)) calls, lb\<lparr>lb_left := -1\<rparr>, drop m src)"
      using c r rest by simp
    have l: "nat (lb_left lb) < min m (length src)" using False Cons.prems by (simp add: got_def) linarith
    have "delivered ((take (nat (lb_left lb)) got, True) # map (\<lambda>_. ([], True)) calls) = take (nat (lb_left lb)) src"
    proof -
      have "concat (map (\<lambda>_. []) calls) = ([] :: char list)" by (induction calls) simp_all
      then show ?thesis using l by (simp add: delivered_def got_def comp_def min_absorb1 min_absorb2)
    qed
    moreover have "drop m src = drop (length src - length (drop m src)) src"
      by (cases "m \<le> length src") simp_all
    moreover have "nat (lb_left lb) < length src" "min (length src - length (drop m src)) (nat (lb_left lb)) = nat (lb_left lb)"
      using l by (simp_all add: min_def split: if_splits)
    ultimately show ?thesis unfolding all Let_def prod.case by simp
  qed
qed

text \<open>C17: A body limited to \<open>limit\<close> bytes, any limit below the largest \<open>int64\<close>, never panics and never delivers more than that, whatever the sizes of the reads
  and however the source splits its data: what is delivered is exactly the prefix of the body
  read so far, cut at the limit; the limit error is returned only when the body is longer than
  the limit, and as long as it is not returned nothing beyond the limit has been consumed.\<close>

theorem limited_body_exact:
  assumes "0 \<le> limit" "limit < max_i64"
  shows "\<exists>rs lb rest. lb_reads calls (\<lparr>lb_left = limit, lb_limit = limit\<rparr>, body) = Some (rs, lb, rest) \<and>
     (let used = length body - length rest
      in rest = drop used body \<and> delivered rs = take (min used (nat limit)) body \<and>
         ((\<exists>r \<in> set rs. snd r) \<longrightarrow> nat limit < length body) \<and>
         ((\<forall>r \<in> set rs. \<not> snd r) \<longrightarrow> used \<le> nat limit))"
  using plain_reads_correct [of "\<lparr>lb_left = limit, lb_limit = limit\<rparr>" calls body] assms
    lb_reads_plain [of "\<lparr>lb_left = limit, lb_limit = limit\<rparr>" calls body]
  by (auto simp: Let_def split: prod.splits)

theorem limited_body_exact_witness:
  "\<exists>rs lb. lb_reads [(2, 2), (9, 9)] (\<lparr>lb_left = 3, lb_limit = 3\<rparr>, ''abcde'') = Some (rs, lb, ''e'') \<and> delivered rs = ''abc''"
proof -
  have r: "lb_reads [(2, 2), (9, 9)] (\<lparr>lb_left = 3, lb_limit = 3\<rparr>, ''abcde'') =
      Some ([(''ab'', False), (''c'', True)], \<lparr>lb_left = -1, lb_limit = 3\<rparr>, ''e'')"
    by (simp add: lb_read_def Let_def i64_id fits_i64_def max_i64_def min_i64_def)
  show ?thesis using limited_body_exact [of 3 "[(2, 2), (9, 9)]" "''abcde''"] unfolding r by (simp add: max_i64_def)
qed

end
