(* ===== verification/Routes.thy ===== *)
theory Routes
  imports Url Router
begin

text \<open>
  \<open>route.go\<close> and \<open>group.go\<close>: route options, groups and the resolution of a route's effective
  configuration. Groups are mutable objects (middleware may be added after routes are
  registered), so they live in a store, \<open>groups\<close>, and a group is its index there; index 0 is
  the root group, and a parent is created before its children. Middleware are numbers, Go types
  are names and examples are strings. \<open>date_ok\<close> is \<open>http.ParseTime\<close> without its result.
\<close>

section \<open>Configuration of a route\<close>

record response_doc =
  rd_description :: string
  rd_type :: "string option"
  rd_example :: "string option"

record operation_doc =
  od_hidden :: bool
  od_summary :: string
  od_description :: string
  od_operation_id :: string
  od_tags :: "string list"
  od_deprecated :: bool
  od_security :: "(string \<times> string list) list list option"
  od_success_status :: nat
  od_body :: "string option"
  od_body_content_type :: string
  od_body_example :: "string option"
  od_responses :: "(nat \<times> response_doc) list"

datatype middleware = Mw nat | SunsetMw string

record route_config =
  rc_name :: string
  rc_middleware :: "middleware list"
  rc_body_limit :: int
  rc_doc :: operation_doc

definition new_doc :: operation_doc where
  "new_doc = \<lparr>od_hidden = False, od_summary = [], od_description = [], od_operation_id = [], od_tags = [],
     od_deprecated = False, od_security = None, od_success_status = 0, od_body = None, od_body_content_type = [],
     od_body_example = None, od_responses = []\<rparr>"

definition new_config :: route_config where
  "new_config = \<lparr>rc_name = [], rc_middleware = [], rc_body_limit = 0, rc_doc = new_doc\<rparr>"

datatype route_option =
    OMiddleware middleware
  | OName string
  | OBodyLimit int
  | OSummary string
  | ODescription string
  | OOperationID string
  | OTags "string list"
  | ODeprecated
  | OSunset string
  | OHidden
  | OSecurity "string list"
  | OPublic
  | OStatus nat
  | OBody string
  | OReturns nat string string
  | OResponds nat string
  | ORequestContentType string
  | ORequestExample string
  | OResponseExample nat string
  | OScopes string "string list"

text \<open>\<open>Sunset\<close> panics at registration when its date does not parse.\<close>

definition sunset :: "(string \<Rightarrow> bool) \<Rightarrow> string \<Rightarrow> route_option option" where
  "sunset date_ok date = (if date \<noteq> [] \<and> \<not> date_ok date then None else Some (OSunset date))"

definition empty_response :: response_doc where
  "empty_response = \<lparr>rd_description = [], rd_type = None, rd_example = None\<rparr>"

definition response_of :: "nat \<Rightarrow> operation_doc \<Rightarrow> response_doc" where
  "response_of status d = (case map_of (od_responses d) status of Some r \<Rightarrow> r | None \<Rightarrow> empty_response)"

text \<open>\<open>Scopes\<close>: into the first requirement that names the scheme, or a new requirement.\<close>

fun merge_scopes :: "string \<Rightarrow> string list \<Rightarrow> (string \<times> string list) list list \<Rightarrow> (string \<times> string list) list list" where
  "merge_scopes scheme scopes [] = [[(scheme, scopes)]]"
| "merge_scopes scheme scopes (r # rs) =
     (if map_of r scheme \<noteq> None then AList.update scheme scopes r # rs else r # merge_scopes scheme scopes rs)"

definition on_doc :: "(operation_doc \<Rightarrow> operation_doc) \<Rightarrow> route_config \<Rightarrow> route_config" where
  "on_doc f c = c\<lparr>rc_doc := f (rc_doc c)\<rparr>"

fun apply_option :: "route_option \<Rightarrow> route_config \<Rightarrow> route_config" where
  "apply_option (OMiddleware m) c = c\<lparr>rc_middleware := rc_middleware c @ [m]\<rparr>"
| "apply_option (OName n) c = c\<lparr>rc_name := n\<rparr>"
| "apply_option (OBodyLimit n) c = c\<lparr>rc_body_limit := n\<rparr>"
| "apply_option (OSummary s) c = on_doc (\<lambda>d. d\<lparr>od_summary := s\<rparr>) c"
| "apply_option (ODescription s) c = on_doc (\<lambda>d. d\<lparr>od_description := s\<rparr>) c"
| "apply_option (OOperationID s) c = on_doc (\<lambda>d. d\<lparr>od_operation_id := s\<rparr>) c"
| "apply_option (OTags ts) c = on_doc (\<lambda>d. d\<lparr>od_tags := od_tags d @ ts\<rparr>) c"
| "apply_option ODeprecated c = on_doc (\<lambda>d. d\<lparr>od_deprecated := True\<rparr>) c"
| "apply_option (OSunset date) c =
     (on_doc (\<lambda>d. d\<lparr>od_deprecated := True\<rparr>) c)\<lparr>rc_middleware := rc_middleware c @ [SunsetMw date]\<rparr>"
| "apply_option OHidden c = on_doc (\<lambda>d. d\<lparr>od_hidden := True\<rparr>) c"
| "apply_option (OSecurity ss) c = on_doc (\<lambda>d. d\<lparr>od_security := Some (map (\<lambda>s. [(s, [])]) ss)\<rparr>) c"
| "apply_option OPublic c = on_doc (\<lambda>d. d\<lparr>od_security := Some []\<rparr>) c"
| "apply_option (OStatus n) c = on_doc (\<lambda>d. d\<lparr>od_success_status := n\<rparr>) c"
| "apply_option (OBody t) c = on_doc (\<lambda>d. d\<lparr>od_body := Some t\<rparr>) c"
| "apply_option (OReturns status desc t) c =
     on_doc (\<lambda>d. d\<lparr>od_responses := AList.update status \<lparr>rd_description = desc, rd_type = Some t, rd_example = None\<rparr>
       (od_responses d)\<rparr>) c"
| "apply_option (OResponds status desc) c =
     on_doc (\<lambda>d. d\<lparr>od_responses := AList.update status \<lparr>rd_description = desc, rd_type = None, rd_example = None\<rparr>
       (od_responses d)\<rparr>) c"
| "apply_option (ORequestContentType ct) c = on_doc (\<lambda>d. d\<lparr>od_body_content_type := ct\<rparr>) c"
| "apply_option (ORequestExample ex) c = on_doc (\<lambda>d. d\<lparr>od_body_example := Some ex\<rparr>) c"
| "apply_option (OResponseExample status ex) c =
     on_doc (\<lambda>d. d\<lparr>od_responses := AList.update status ((response_of status d)\<lparr>rd_example := Some ex\<rparr>)
       (od_responses d)\<rparr>) c"
| "apply_option (OScopes scheme scopes) c =
     on_doc (\<lambda>d. d\<lparr>od_security := Some (case od_security d of
         None \<Rightarrow> [[(scheme, scopes)]] | Some reqs \<Rightarrow> merge_scopes scheme scopes reqs)\<rparr>) c"

section \<open>Groups\<close>

record group =
  gr_prefix :: string
  gr_parent :: "nat option"
  gr_mws :: "middleware list"
  gr_opts :: "route_option list"

type_synonym groups = "group list"

definition root_group :: group where
  "root_group = \<lparr>gr_prefix = [], gr_parent = None, gr_mws = [], gr_opts = []\<rparr>"

definition new_groups :: groups where "new_groups = [root_group]"

definition is_mw_option :: "route_option \<Rightarrow> bool" where
  "is_mw_option o' = (case o' of OMiddleware m \<Rightarrow> True | _ \<Rightarrow> False)"

definition mw_options :: "route_option list \<Rightarrow> middleware list" where
  "mw_options opts = List.map_filter (\<lambda>o'. case o' of OMiddleware m \<Rightarrow> Some m | _ \<Rightarrow> None) opts"

text \<open>\<open>Group\<close>: the new group's index and the store; nil options are dropped.\<close>

definition add_group :: "nat \<Rightarrow> string \<Rightarrow> route_option option list \<Rightarrow> groups \<Rightarrow> nat \<times> groups" where
  "add_group g pfx opts gs =
     (let os = List.map_filter id opts
      in (length gs, gs @ [\<lparr>gr_prefix = join_paths (gr_prefix (gs ! g)) pfx, gr_parent = Some g,
            gr_mws = mw_options os, gr_opts = filter (\<lambda>o'. \<not> is_mw_option o') os\<rparr>]))"

definition trim_slashes :: "string \<Rightarrow> string" where
  "trim_slashes s = rev (dropWhile (\<lambda>c. c = CHR ''/'') (rev (dropWhile (\<lambda>c. c = CHR ''/'') s)))"

definition add_version :: "nat \<Rightarrow> string \<Rightarrow> route_option option list \<Rightarrow> groups \<Rightarrow> nat \<times> groups" where
  "add_version g version opts gs =
     (let v = trim_slashes version in add_group g (''/api/'' @ v) (Some (OTags [v]) # opts) gs)"

text \<open>\<open>Use\<close>: nil middleware are reported, the others appended. Panics once the application is
  frozen.\<close>

definition use_middleware ::
  "nat \<Rightarrow> middleware option list \<Rightarrow> bool \<times> groups \<times> nat \<Rightarrow> (groups \<times> nat) option" where
  "use_middleware g mws st =
     (case st of (frozen, gs, diags) \<Rightarrow>
        if frozen then None
        else Some (gs[g := (gs ! g)\<lparr>gr_mws := gr_mws (gs ! g) @ List.map_filter id mws\<rparr>],
                   diags + length (filter (\<lambda>m. m = None) mws)))"

text \<open>The groups from one up to, and without, the root: innermost first. The fuel is the index: a
  parent's index is smaller.\<close>

fun group_chain :: "nat \<Rightarrow> groups \<Rightarrow> nat \<Rightarrow> group list" where
  "group_chain 0 gs g = []"
| "group_chain (Suc n) gs g =
     (case gr_parent (gs ! g) of
        None \<Rightarrow> []
      | Some parent \<Rightarrow> gs ! g # group_chain n gs parent)"

definition apply_group :: "group \<Rightarrow> route_config \<Rightarrow> route_config" where
  "apply_group g c =
     (let c' = fold apply_option (gr_opts g) c in c'\<lparr>rc_middleware := rc_middleware c' @ gr_mws g\<rparr>)"

definition resolve_route :: "groups \<Rightarrow> nat \<Rightarrow> route_option list \<Rightarrow> route_config" where
  "resolve_route gs g opts =
     fold apply_option opts (fold apply_group (rev (group_chain (Suc g) gs g)) new_config)"

definition standard_methods :: "string list" where
  "standard_methods = [''GET'', ''HEAD'', ''POST'', ''PUT'', ''PATCH'', ''DELETE'', ''OPTIONS'']"

section \<open>Facts\<close>

definition groups_ok :: "groups \<Rightarrow> bool" where
  "groups_ok gs \<longleftrightarrow> gs \<noteq> [] \<and> gr_parent (gs ! 0) = None \<and>
     (\<forall>g < length gs. 0 < g \<longrightarrow> (\<exists>p < g. gr_parent (gs ! g) = Some p))"

lemma new_groups_ok: "groups_ok new_groups"
  by (simp add: groups_ok_def new_groups_def root_group_def)

lemma add_group_ok:
  assumes "groups_ok gs" and "g < length gs"
  shows "groups_ok (snd (add_group g pfx opts gs))"
  using assms by (auto simp: groups_ok_def add_group_def Let_def nth_append less_Suc_eq)

lemma use_middleware_ok:
  "groups_ok gs \<Longrightarrow> g < length gs \<Longrightarrow> use_middleware g mws (frozen, gs, n) = Some (gs', n') \<Longrightarrow> groups_ok gs'"
  by (auto simp: groups_ok_def use_middleware_def nth_list_update split: if_splits)

text \<open>The fuel of \<open>group_chain\<close> is enough: more gives the same chain.\<close>

lemma group_chain_fuel:
  "groups_ok gs \<Longrightarrow> g < length gs \<Longrightarrow> g < n \<Longrightarrow> group_chain n gs g = group_chain (Suc g) gs g"
proof (induction g arbitrary: n rule: less_induct)
  case (less g)
  then obtain m where n: "n = Suc m" by (cases n) auto
  show ?case
  proof (cases "g = 0")
    case True
    with less.prems n show ?thesis by (simp add: groups_ok_def)
  next
    case False
    with less.prems obtain p where p: "p < g" "gr_parent (gs ! g) = Some p" by (auto simp: groups_ok_def)
    have "group_chain m gs p = group_chain (Suc p) gs p"
      by (rule less.IH [OF p(1) less.prems(1)]) (use less.prems p n in auto)
    moreover have "group_chain g gs p = group_chain (Suc p) gs p"
      by (rule less.IH [OF p(1) less.prems(1)]) (use less.prems p in auto)
    ultimately show ?thesis using p n by simp
  qed
qed

text \<open>The middleware a list of options contributes, in order.\<close>

definition option_mws :: "route_option list \<Rightarrow> middleware list" where
  "option_mws opts = List.map_filter (\<lambda>o'. case o' of OMiddleware m \<Rightarrow> Some m | OSunset d \<Rightarrow> Some (SunsetMw d) | _ \<Rightarrow> None) opts"

lemma apply_option_mws: "rc_middleware (apply_option o' c) = rc_middleware c @ option_mws [o']"
  by (cases o') (simp_all add: option_mws_def on_doc_def map_filter_simps)

lemma apply_options_mws: "rc_middleware (fold apply_option opts c) = rc_middleware c @ option_mws opts"
proof (induction opts arbitrary: c)
  case (Cons o' opts)
  have "option_mws (o' # opts) = option_mws [o'] @ option_mws opts"
    by (simp add: option_mws_def map_filter_simps split: option.splits)
  with Cons show ?case by (simp add: apply_option_mws)
qed (simp add: option_mws_def map_filter_simps)

lemma apply_groups_mws:
  "rc_middleware (fold apply_group gs c) = rc_middleware c @ concat (map (\<lambda>g. option_mws (gr_opts g) @ gr_mws g) gs)"
  by (induction gs arbitrary: c) (simp_all add: apply_group_def Let_def apply_options_mws)

text \<open>A route's middleware: the outermost group's first, then inner groups', then the route's own.\<close>

lemma route_middleware_order:
  "rc_middleware (resolve_route gs g opts) =
     concat (map (\<lambda>gr. option_mws (gr_opts gr) @ gr_mws gr) (rev (group_chain (Suc g) gs g))) @ option_mws opts"
  by (simp add: resolve_route_def apply_options_mws apply_groups_mws new_config_def)

end
