(* ===== verification/Dispatch.thy ===== *)
theory Dispatch
  imports Routes
begin

text \<open>
  \<open>app.go\<close>: registration of routes and the routing of a request. A handler is known by the number
  its route carries; what dispatch decides to do with a request is an \<open>action\<close>. The body wrapper
  of an action is the limiter of \<open>response.go\<close> for a declared length and \<open>http.MaxBytesReader\<close>
  otherwise.
\<close>

section \<open>Registering routes\<close>

definition index_in :: "string \<Rightarrow> char \<Rightarrow> bool" where
  "index_in s c \<longleftrightarrow> c \<in> set s"

definition separators :: string where
  "separators = ''()<>@,;:'' @ [CHR 0x5C, CHR 0x22] @ ''/[]?='' @ [CHR 0x7B, CHR 0x7D]"

definition valid_method :: "string \<Rightarrow> bool" where
  "valid_method m \<longleftrightarrow> m \<noteq> [] \<and> (\<forall>c \<in> set m. 32 < char_code c \<and> char_code c < 127 \<and> c \<notin> set separators)"

datatype app_diag =
    NilHandler string string
  | InvalidMethod string
  | PlanError string
  | InvalidPattern string pattern_error
  | DuplicateRoute string string
  | DuplicateName string
  | UnsafeProduction
  | BadShutdownConfig

record route_table =
  tb_router :: router
  tb_routes :: "(route \<times> nat \<times> route_option list) list"
  tb_diags :: "app_diag list"
  tb_frozen :: bool

definition new_table :: route_table where
  "new_table = \<lparr>tb_router = new_router, tb_routes = [], tb_diags = [], tb_frozen = False\<rparr>"

definition diag :: "app_diag \<Rightarrow> route_table \<Rightarrow> route_table" where
  "diag d t = t\<lparr>tb_diags := tb_diags t @ [d]\<rparr>"

text \<open>\<open>addRoute\<close>: \<open>h\<close> is nil or a handler, \<open>plan_err\<close> whether a typed option carries a plan error.
  \<open>None\<close> is the panic of a registration after the start.\<close>

definition add_route ::
  "groups \<Rightarrow> nat \<Rightarrow> string \<Rightarrow> string \<Rightarrow> nat option \<Rightarrow> bool \<Rightarrow> route_option list \<Rightarrow> route_table \<Rightarrow> route_table option" where
  "add_route gs g meth path h plan_err opts t =
     (let full = join_paths (gr_prefix (gs ! g)) path
      in if tb_frozen t then None
         else case h of
                None \<Rightarrow> Some (diag (NilHandler meth full) t)
              | Some f \<Rightarrow>
                  if \<not> valid_method meth then Some (diag (InvalidMethod meth) t)
                  else
                    let r = \<lparr>rt_method = meth, rt_path = full, rt_handler = f, rt_params = []\<rparr>;
                        t1 = (if plan_err then diag (PlanError full) t else t)
                    in case router_insert (tb_router t1) r of
                         (rt, BadPattern e) \<Rightarrow> Some (diag (InvalidPattern full e) (t1\<lparr>tb_router := rt\<rparr>))
                       | (rt, Conflict q) \<Rightarrow> Some (diag (DuplicateRoute full (rt_path q)) (t1\<lparr>tb_router := rt\<rparr>))
                       | (rt, Inserted) \<Rightarrow> Some (t1\<lparr>tb_router := rt, tb_routes := tb_routes t1 @ [(r, g, opts)]\<rparr>))"

text \<open>\<open>routeNameDiagnostics\<close>: the duplicates, and the name index (first route of each name).\<close>

fun route_names :: "(string \<times> route) list \<Rightarrow> (string \<Rightarrow> route option) \<Rightarrow> app_diag list \<times> (string \<Rightarrow> route option)" where
  "route_names [] seen = ([], seen)"
| "route_names ((name, r) # rs) seen =
     (if name = [] then route_names rs seen
      else if seen name \<noteq> None then
        (case route_names rs seen of (ds, m) \<Rightarrow> (DuplicateName name # ds, m))
      else route_names rs (seen(name \<mapsto> r)))"

definition named_routes :: "groups \<Rightarrow> route_table \<Rightarrow> (string \<times> route) list" where
  "named_routes gs t = map (\<lambda>(r, g, opts). (rc_name (resolve_route gs g opts), r)) (tb_routes t)"

record app_options =
  ao_production :: bool
  ao_expose :: bool
  ao_shutdown_timeout :: int
  ao_drain_delay :: int
  ao_body_limit :: int
  ao_redirect_slash :: bool

definition static_diags :: "app_options \<Rightarrow> groups \<Rightarrow> route_table \<Rightarrow> app_diag list" where
  "static_diags ao gs t =
     tb_diags t @ (if ao_production ao \<and> ao_expose ao then [UnsafeProduction] else []) @
     fst (route_names (named_routes gs t) Map.empty) @
     (if ao_shutdown_timeout ao < 0 \<or> ao_drain_delay ao < 0 then [BadShutdownConfig] else [])"

text \<open>\<open>App.URL\<close>: by the index, or, before the start, by the first route with the name.\<close>

definition app_url ::
  "groups \<Rightarrow> route_table \<Rightarrow> (string \<Rightarrow> route option) \<Rightarrow> string \<Rightarrow> string list \<Rightarrow> (url_error option, string) result" where
  "app_url gs t named name params =
     (case (case named name of Some r \<Rightarrow> Some r | None \<Rightarrow> map_option snd (find (\<lambda>(n, r). n = name) (named_routes gs t))) of
        None \<Rightarrow> Inl None
      | Some r \<Rightarrow> map_sum Some id (build_url (rt_path r) params))"

section \<open>Routing a request\<close>

record request =
  rq_method :: string
  rq_path :: string
  rq_query :: string
  rq_length :: int
  rq_has_body :: bool

datatype body_wrap = Unwrapped | LimitedBody int | MaxBytesReader int

datatype action =
    Run route "string list" body_wrap
  | BodyTooLarge int
  | RedirectTo nat string string
  | AutoOptions "string list"
  | MethodNotAllowed "string list"
  | RouteNotFound

text \<open>The path with its trailing slash removed or added.\<close>

definition toggle_slash :: "string \<Rightarrow> string" where
  "toggle_slash path = (if has_suffix path ''/'' then trim_suffix path ''/'' else path @ ''/'')"

definition no_route :: "app_options \<Rightarrow> router \<Rightarrow> request \<Rightarrow> string \<Rightarrow> action" where
  "no_route ao rt rq path =
     (let alt = toggle_slash path;
          meth = (if rq_method rq = ''HEAD'' then ''GET'' else rq_method rq)
      in if ao_redirect_slash ao \<and> path \<noteq> ''/'' \<and> \<not> contains_str path ''//'' \<and> alt \<noteq> [] \<and> \<not> has_prefix alt ''//'' \<and>
            fst (router_find rt meth alt []) \<noteq> None
         then RedirectTo (if rq_method rq \<in> {''GET'', ''HEAD''} then 301 else 308) alt (rq_query rq)
         else if allowed rt path \<noteq> [] then
           (if rq_method rq = ''OPTIONS'' then AutoOptions (allowed rt path) else MethodNotAllowed (allowed rt path))
         else RouteNotFound)"

definition body_action :: "app_options \<Rightarrow> int \<Rightarrow> request \<Rightarrow> route \<Rightarrow> string list \<Rightarrow> action" where
  "body_action ao route_limit rq r vals =
     (let limit = (if route_limit = 0 then ao_body_limit ao else route_limit)
      in if limit > 0 \<and> rq_has_body rq then
           (if rq_length rq > limit then BodyTooLarge limit
            else if rq_length rq \<ge> 0 then Run r vals (LimitedBody limit)
            else Run r vals (MaxBytesReader limit))
         else Run r vals Unwrapped)"

text \<open>\<open>limits\<close>: the body limit of a route's configuration.\<close>

definition dispatch_request :: "app_options \<Rightarrow> router \<Rightarrow> (route \<Rightarrow> int) \<Rightarrow> request \<Rightarrow> action" where
  "dispatch_request ao rt limits rq =
     (let path = (if rq_path rq = [] then ''/'' else rq_path rq);
          found = router_find rt (rq_method rq) path [];
          found' = (if fst found = None \<and> rq_method rq = ''HEAD'' then router_find rt ''GET'' path [] else found)
      in case found' of
           (None, _) \<Rightarrow> no_route ao rt rq path
         | (Some r, vals) \<Rightarrow> body_action ao (limits r) rq r vals)"

section \<open>Properties\<close>

definition serves :: "router \<Rightarrow> string \<Rightarrow> string \<Rightarrow> bool" where
  "serves rt meth path \<longleftrightarrow>
     fst (router_find rt meth path []) \<noteq> None \<or> meth = ''HEAD'' \<and> fst (router_find rt ''GET'' path []) \<noteq> None"

definition runs :: "action \<Rightarrow> bool" where
  "runs a \<longleftrightarrow> (case a of Run _ _ _ \<Rightarrow> True | BodyTooLarge _ \<Rightarrow> True | _ \<Rightarrow> False)"

lemma runs_body_action: "runs (body_action ao l rq r vals)"
  by (simp add: runs_def body_action_def Let_def)

lemma no_route_not_runs: "\<not> runs (no_route ao rt rq path)"
  by (simp add: runs_def no_route_def Let_def)

lemma dispatch_runs:
  "runs (dispatch_request ao rt limits rq) \<longleftrightarrow> serves rt (rq_method rq) (if rq_path rq = [] then ''/'' else rq_path rq)"
  by (auto simp: dispatch_request_def Let_def serves_def runs_body_action no_route_not_runs split: prod.splits option.splits)

lemma no_route_redirect:
  "no_route ao rt rq path = RedirectTo code alt q \<Longrightarrow>
     alt = toggle_slash path \<and> alt \<noteq> [] \<and> serves rt (rq_method rq) alt \<and>
     (code = 301 \<longleftrightarrow> rq_method rq \<in> {''GET'', ''HEAD''}) \<and> code \<in> {301, 308}"
  by (auto simp: no_route_def Let_def serves_def split: if_splits)

lemma toggle_slash_twice:
  assumes "path \<noteq> []" and "toggle_slash path \<noteq> []" and "\<not> has_suffix path ''//''"
  shows "toggle_slash (toggle_slash path) = path"
proof (cases "has_suffix path ''/''")
  case True
  then obtain s where s: "path = s @ ''/''" by (auto simp: has_suffix_iff)
  then have t: "toggle_slash path = s" by (simp add: toggle_slash_def has_suffix_iff trim_suffix_def)
  have "\<not> has_suffix s ''/''"
  proof
    assume "has_suffix s ''/''"
    then obtain u where "s = u @ ''/''" by (auto simp: has_suffix_iff)
    then have "path = u @ ''//''" using s by simp
    with assms(3) show False by (auto simp: has_suffix_iff)
  qed
  then show ?thesis using s t by (simp add: toggle_slash_def)
next
  case False
  then show ?thesis by (simp add: toggle_slash_def has_suffix_iff trim_suffix_def)
qed

lemma dispatch_no_route:
  "\<not> serves rt (rq_method rq) (if rq_path rq = [] then ''/'' else rq_path rq) \<Longrightarrow>
     dispatch_request ao rt limits rq = no_route ao rt rq (if rq_path rq = [] then ''/'' else rq_path rq)"
  by (auto simp: dispatch_request_def Let_def serves_def split: prod.splits option.splits)

definition route_for :: "router \<Rightarrow> string \<Rightarrow> string \<Rightarrow> route option \<times> string list" where
  "route_for rt meth path =
     (if fst (router_find rt meth path []) \<noteq> None then router_find rt meth path []
      else if meth = ''HEAD'' then router_find rt ''GET'' path [] else (None, []))"

lemma dispatch_served:
  assumes "serves rt (rq_method rq) path" and "path = (if rq_path rq = [] then ''/'' else rq_path rq)"
  shows "\<exists>r vals. route_for rt (rq_method rq) path = (Some r, vals) \<and>
           dispatch_request ao rt limits rq = body_action ao (limits r) rq r vals"
proof -
  obtain o1 v1 where f1: "router_find rt (rq_method rq) path [] = (o1, v1)" by fastforce
  obtain o2 v2 where f2: "router_find rt ''GET'' path [] = (o2, v2)" by fastforce
  show ?thesis
    using assms(1) f1 f2 unfolding dispatch_request_def Let_def assms(2) [symmetric]
    by (cases o1; cases o2) (auto simp: route_for_def serves_def)
qed

text \<open>The other form of the path, with or without its trailing slash, is one the request may be sent to.\<close>

definition other_slash :: "app_options \<Rightarrow> router \<Rightarrow> string \<Rightarrow> string \<Rightarrow> bool" where
  "other_slash ao rt meth path \<longleftrightarrow>
     ao_redirect_slash ao \<and> path \<noteq> ''/'' \<and> \<not> contains_str path ''//'' \<and> toggle_slash path \<noteq> [] \<and>
     \<not> has_prefix (toggle_slash path) ''//'' \<and>
     fst (router_find rt (if meth = ''HEAD'' then ''GET'' else meth) (toggle_slash path) []) \<noteq> None"

definition methods_of :: "router \<Rightarrow> string \<Rightarrow> string set" where
  "methods_of rt path = {m. fst (router_find rt m path []) \<noteq> None}"

text \<open>The limit of a route's bodies, and what the handler gets to read.\<close>

definition body_limit :: "app_options \<Rightarrow> int \<Rightarrow> int" where
  "body_limit ao route_limit = (if route_limit = 0 then ao_body_limit ao else route_limit)"

definition body_outcome :: "int \<Rightarrow> request \<Rightarrow> route \<Rightarrow> string list \<Rightarrow> action" where
  "body_outcome limit rq r vals =
     (if limit \<le> 0 \<or> \<not> rq_has_body rq then Run r vals Unwrapped
      else if limit < rq_length rq then BodyTooLarge limit
      else if rq_length rq < 0 then Run r vals (MaxBytesReader limit)
      else Run r vals (LimitedBody limit))"

lemma body_action_outcome: "body_action ao l rq r vals = body_outcome (body_limit ao l) rq r vals"
  by (auto simp: body_action_def body_outcome_def body_limit_def Let_def)

text \<open>C18: Dispatch answers every request, and each in exactly one way. If a registered route serves the method and path, HEAD being
  served by GET, that route runs with the values of its parameters, its body limited by the route's limit or else the
  application's, or refused when the declared length is over the limit. Otherwise, if the other form of the path may be used, it
  is a redirect there that keeps the query and, unless it is GET or HEAD, the method, and whose request runs a route, so
  redirects never loop. Otherwise, if other methods serve the path, it is a 405, or the answer to OPTIONS, that lists exactly
  those methods, HEAD with GET, and OPTIONS, the request's own not among them. Otherwise it is a 404.\<close>

theorem dispatch_correct:
  fixes rq :: request and rs :: "route list"
  defines "rt \<equiv> build_router rs" and "path \<equiv> (if rq_path rq = [] then ''/'' else rq_path rq)"
  shows "if serves rt (rq_method rq) path then
      (\<exists>r vals. route_for rt (rq_method rq) path = (Some r, vals) \<and>
         dispatch_request ao rt limits rq = body_outcome (body_limit ao (limits r)) rq r vals)
    else if other_slash ao rt (rq_method rq) path then
      dispatch_request ao rt limits rq =
        RedirectTo (if rq_method rq \<in> {''GET'', ''HEAD''} then 301 else 308) (toggle_slash path) (rq_query rq) \<and>
      runs (dispatch_request ao rt limits (rq\<lparr>rq_path := toggle_slash path\<rparr>))
    else if methods_of rt path \<noteq> {} then
      (\<exists>ms. set ms = methods_of rt path \<union> (if ''GET'' \<in> methods_of rt path then {''HEAD''} else {}) \<union> {''OPTIONS''} \<and>
         (if rq_method rq = ''OPTIONS'' then dispatch_request ao rt limits rq = AutoOptions ms
          else dispatch_request ao rt limits rq = MethodNotAllowed ms \<and> rq_method rq \<notin> set ms))
    else dispatch_request ao rt limits rq = RouteNotFound"
proof (cases "serves rt (rq_method rq) path")
  case True
  from dispatch_served [OF True path_def [THEN meta_eq_to_obj_eq], of ao limits] show ?thesis
    using True by (simp add: body_action_outcome)
next
  case False
  then have d: "dispatch_request ao rt limits rq = no_route ao rt rq path"
    using dispatch_no_route [of rt rq ao limits] by (simp add: path_def)
  have al: "set (allowed rt path) = (if methods_of rt path = {} then {}
      else methods_of rt path \<union> (if ''GET'' \<in> methods_of rt path then {''HEAD''} else {}) \<union> {''OPTIONS''})"
    using allowed_characterised [of rs path] by (simp add: rt_def methods_of_def Let_def)
  show ?thesis
  proof (cases "other_slash ao rt (rq_method rq) path")
    case True
    then have r: "no_route ao rt rq path =
        RedirectTo (if rq_method rq \<in> {''GET'', ''HEAD''} then 301 else 308) (toggle_slash path) (rq_query rq)"
      unfolding no_route_def other_slash_def Let_def by simp
    from no_route_redirect [OF this] have "toggle_slash path \<noteq> []" "serves rt (rq_method rq) (toggle_slash path)" by auto
    then have "runs (dispatch_request ao rt limits (rq\<lparr>rq_path := toggle_slash path\<rparr>))" by (simp add: dispatch_runs)
    then show ?thesis using False True d r by simp
  next
    case no_other: False
    then have n: "no_route ao rt rq path =
        (if allowed rt path \<noteq> [] then
           (if rq_method rq = ''OPTIONS'' then AutoOptions (allowed rt path) else MethodNotAllowed (allowed rt path))
         else RouteNotFound)"
      unfolding no_route_def other_slash_def Let_def by auto
    show ?thesis
    proof (cases "methods_of rt path = {}")
      case True
      then show ?thesis using False no_other d n al by simp
    next
      case some: False
      then have ne: "allowed rt path \<noteq> []" using al by auto
      have "rq_method rq \<notin> set (allowed rt path)" if "rq_method rq \<noteq> ''OPTIONS''"
        using False al that by (auto simp: serves_def methods_of_def split: if_splits)
      then have "\<exists>ms. set ms = methods_of rt path \<union> (if ''GET'' \<in> methods_of rt path then {''HEAD''} else {}) \<union> {''OPTIONS''} \<and>
         (if rq_method rq = ''OPTIONS'' then dispatch_request ao rt limits rq = AutoOptions ms
          else dispatch_request ao rt limits rq = MethodNotAllowed ms \<and> rq_method rq \<notin> set ms)"
        using some d n al ne by (intro exI [of _ "allowed rt path"]) simp
      then show ?thesis using False no_other some by simp
    qed
  qed
qed

end
