(* ===== verification/Lifecycle.thy ===== *)
theory Lifecycle
  imports Prelude
begin

text \<open>
  \<open>app.go\<close>: the request pipeline, the start and the shutdown of an application. What the callbacks
  of a hook return is the parameter \<open>out\<close> (\<open>True\<close> for the start callback); the results of the
  phases of \<open>start\<close> that other theories model (validation, construction, invocations, freezing)
  are its inputs. \<open>lf_events\<close> is a history of the callbacks that ran. One call of \<open>Start\<close> or
  \<open>Shutdown\<close> is one step, so a second \<open>Shutdown\<close> finds the first one finished.
\<close>

section \<open>The pipeline\<close>

type_synonym ('e, 's) handler = "'s \<Rightarrow> 'e option \<times> 's"

definition chain :: "('e, 's) handler \<Rightarrow> (('e, 's) handler \<Rightarrow> ('e, 's) handler) list \<Rightarrow> ('e, 's) handler" where
  "chain h mws = foldr (\<lambda>mw next. mw next) mws h"

text \<open>\<open>errorBoundary\<close> and \<open>ServeHTTP\<close>: \<open>render\<close> is \<open>Context.HandleError\<close>, \<open>finish\<close> runs the cleanups.\<close>

definition error_boundary :: "('e option \<Rightarrow> 's \<Rightarrow> 's) \<Rightarrow> ('e, 's) handler \<Rightarrow> ('e, 's) handler" where
  "error_boundary render next s =
     (case next s of (None, s') \<Rightarrow> (None, s') | (Some e, s') \<Rightarrow> (Some e, render (Some e) s'))"

definition serve_http ::
  "('e option \<Rightarrow> 's \<Rightarrow> 's) \<Rightarrow> ('s \<Rightarrow> 's) \<Rightarrow> ('s \<Rightarrow> 's) \<Rightarrow> ('e, 's) handler option \<Rightarrow> 's \<Rightarrow> 's" where
  "serve_http render finish unavailable pipeline s =
     (case pipeline of
        None \<Rightarrow> unavailable s
      | Some p \<Rightarrow> (case p s of (None, s') \<Rightarrow> finish s' | (Some e, s') \<Rightarrow> finish (render (Some e) s')))"

record stage_options =
  so_request_id :: bool
  so_tracing :: bool
  so_access_log :: bool
  so_recovery :: bool
  so_security :: bool
  so_health :: bool

definition stage_names :: "stage_options \<Rightarrow> string list \<Rightarrow> string list" where
  "stage_names o' user =
     (if so_request_id o' then [''request-id''] else []) @ (if so_tracing o' then [''tracing''] else []) @
     (if so_access_log o' then [''access-log''] else []) @
     (if so_tracing o' \<or> so_access_log o' then [''error-boundary''] else []) @
     (if so_recovery o' then [''recovery''] else []) @ (if so_security o' then [''security''] else []) @
     (if so_health o' then [''health''] else []) @ user @ [''router'']"

text \<open>\<open>finish\<close> and \<open>OnDone\<close>: the cleanups run in reverse order of registration.\<close>

definition run_cleanups :: "('s \<Rightarrow> 's) list \<Rightarrow> 's \<Rightarrow> 's" where
  "run_cleanups cleanups s = fold (\<lambda>f s. f s) (rev cleanups) s"

section \<open>The address to listen on\<close>

definition listen_addr :: "string \<Rightarrow> string \<Rightarrow> (string, string) result" where
  "listen_addr addr port =
     (if addr \<noteq> [] then Inr addr
      else if port = [] then Inr '':8080''
      else case atoi port of
             None \<Rightarrow> Inl port
           | Some n \<Rightarrow> if n < 0 \<or> n > 65535 then Inl port else Inr ('':'' @ port))"

section \<open>Start and shutdown\<close>

datatype app_state = Building | Starting | Running | Stopping | Stopped | Failed

record hook =
  hk_name :: string
  hk_start :: bool
  hk_stop :: bool

datatype life_event = HookStarted hook | HookStartFailed hook | HookStopped hook

record life =
  lf_state :: app_state
  lf_once :: bool
  lf_done :: bool
  lf_stop_errs :: "string list"
  lf_started :: "hook list"
  lf_pipeline :: bool
  lf_events :: "life_event list"

definition new_life :: life where
  "new_life = \<lparr>lf_state = Building, lf_once = False, lf_done = False, lf_stop_errs = [], lf_started = [],
     lf_pipeline = False, lf_events = []\<rparr>"

definition log_event :: "life_event \<Rightarrow> life \<Rightarrow> life" where
  "log_event e l = l\<lparr>lf_events := lf_events l @ [e]\<rparr>"

text \<open>The inputs of one start: the diagnostics collected before, the result of building the
  container with the hooks of what it built, the result of the invocations, the diagnostics after
  freezing, the hooks registered on the application, and whether there is a job manager.\<close>

record start_inputs =
  si_static_diags :: bool
  si_build_fails :: bool
  si_invoke_fails :: bool
  si_late_diags :: bool
  si_hooks :: "hook list"
  si_container_hooks :: "hook list"
  si_jobs :: bool

datatype start_error = InvalidState | StaticDiagnostics | BuildFailed | InvokeErr | LateDiagnostics
  | StartHookFailed string "string list"

definition jobs_hook :: hook where
  "jobs_hook = \<lparr>hk_name = ''jobs'', hk_start = True, hk_stop = True\<rparr>"

definition all_hooks :: "start_inputs \<Rightarrow> hook list" where
  "all_hooks si = si_hooks si @ si_container_hooks si @ (if si_jobs si then [jobs_hook] else [])"

text \<open>\<open>runStopHooks\<close>: the errors, in the order the hooks ran.\<close>

fun stop_each :: "(bool \<Rightarrow> hook \<Rightarrow> string option) \<Rightarrow> hook list \<Rightarrow> life \<Rightarrow> string list \<times> life" where
  "stop_each out [] l = ([], l)"
| "stop_each out (h # hs) l =
     (if \<not> hk_stop h then stop_each out hs l
      else case stop_each out hs (log_event (HookStopped h) l) of
             (errs, l') \<Rightarrow> ((case out False h of Some e \<Rightarrow> e # errs | None \<Rightarrow> errs), l'))"

definition run_stop_hooks :: "(bool \<Rightarrow> hook \<Rightarrow> string option) \<Rightarrow> life \<Rightarrow> string list \<times> life" where
  "run_stop_hooks out l = stop_each out (rev (lf_started l)) (l\<lparr>lf_started := []\<rparr>)"

fun start_hooks :: "(bool \<Rightarrow> hook \<Rightarrow> string option) \<Rightarrow> hook list \<Rightarrow> life \<Rightarrow> start_error option \<times> life" where
  "start_hooks out [] l = (None, l)"
| "start_hooks out (h # hs) l =
     (case (if hk_start h then out True h else None) of
        Some e \<Rightarrow>
          (case run_stop_hooks out (log_event (HookStartFailed h) l) of
             (errs, l') \<Rightarrow> (Some (StartHookFailed e errs), l'))
      | None \<Rightarrow>
          (let l1 = (if hk_start h then log_event (HookStarted h) l else l)
           in start_hooks out hs (l1\<lparr>lf_started := lf_started l1 @ [h]\<rparr>)))"

definition start_inner ::
  "(bool \<Rightarrow> hook \<Rightarrow> string option) \<Rightarrow> start_inputs \<Rightarrow> life \<Rightarrow> start_error option \<times> life" where
  "start_inner out si l =
     (if si_static_diags si then (Some StaticDiagnostics, l)
      else if si_build_fails si then (Some BuildFailed, l)
      else if si_invoke_fails si then (Some InvokeErr, l)
      else if si_late_diags si then (Some LateDiagnostics, l)
      else start_hooks out (all_hooks si) (l\<lparr>lf_pipeline := True\<rparr>))"

definition start_app ::
  "(bool \<Rightarrow> hook \<Rightarrow> string option) \<Rightarrow> start_inputs \<Rightarrow> life \<Rightarrow> start_error option \<times> life" where
  "start_app out si l =
     (if lf_state l \<noteq> Building then (Some InvalidState, l)
      else case start_inner out si (l\<lparr>lf_state := Starting\<rparr>) of
             (Some e, l') \<Rightarrow>
               (Some e, (let l2 = l'\<lparr>lf_state := Failed\<rparr>
                         in if lf_once l2 then l2 else l2\<lparr>lf_once := True, lf_done := True\<rparr>))
           | (None, l') \<Rightarrow> (None, l'\<lparr>lf_state := Running\<rparr>))"

text \<open>\<open>Shutdown\<close>: \<open>srv\<close> is the error of shutting down the HTTP server, if there is one to report.\<close>

definition shutdown ::
  "(bool \<Rightarrow> hook \<Rightarrow> string option) \<Rightarrow> string option \<Rightarrow> life \<Rightarrow> string list \<times> life" where
  "shutdown out srv l =
     (if lf_once l then (lf_stop_errs l, l)
      else case run_stop_hooks out (l\<lparr>lf_once := True, lf_state := Stopping\<rparr>) of
             (errs, l') \<Rightarrow>
               (let all = (case srv of Some e \<Rightarrow> [e] | None \<Rightarrow> []) @ errs
                in (all, l'\<lparr>lf_stop_errs := all, lf_state := Stopped, lf_done := True\<rparr>)))"

section \<open>Order of the callbacks\<close>

datatype life_op =
    StartOp "bool \<Rightarrow> hook \<Rightarrow> string option" start_inputs
  | ShutdownOp "bool \<Rightarrow> hook \<Rightarrow> string option" "string option"

fun life_step :: "life_op \<Rightarrow> life \<Rightarrow> life" where
  "life_step (StartOp out si) l = snd (start_app out si l)"
| "life_step (ShutdownOp out srv) l = snd (shutdown out srv l)"

definition starts :: "hook list \<Rightarrow> life_event list" where
  "starts hs = map HookStarted (filter hk_start hs)"

definition stops :: "hook list \<Rightarrow> life_event list" where
  "stops hs = map HookStopped (filter hk_stop (rev hs))"

text \<open>
  What every sequence of calls comes to: the state and the history. The first call decides: a shutdown of what was never started;
  or a start, which fails before any callback, or at the first hook whose start callback fails, or else runs until a shutdown.
\<close>

definition fails_start :: "(bool \<Rightarrow> hook \<Rightarrow> string option) \<Rightarrow> hook \<Rightarrow> bool" where
  "fails_start out h \<longleftrightarrow> hk_start h \<and> out True h \<noteq> None"

definition is_shutdown :: "life_op \<Rightarrow> bool" where
  "is_shutdown op \<longleftrightarrow> (case op of ShutdownOp _ _ \<Rightarrow> True | _ \<Rightarrow> False)"

definition expected_run :: "life_op list \<Rightarrow> app_state \<times> life_event list" where
  "expected_run ops =
     (case ops of
        [] \<Rightarrow> (Building, [])
      | ShutdownOp _ _ # _ \<Rightarrow> (Stopped, [])
      | StartOp out si # rest \<Rightarrow>
          (let hs = si_hooks si @ si_container_hooks si @ (if si_jobs si then [jobs_hook] else []);
               up = takeWhile (\<lambda>h. \<not> fails_start out h) hs
           in if si_static_diags si \<or> si_build_fails si \<or> si_invoke_fails si \<or> si_late_diags si then (Failed, [])
              else if up \<noteq> hs then (Failed, starts up @ [HookStartFailed (hs ! length up)] @ stops up)
              else if list_ex is_shutdown rest then (Stopped, starts hs @ stops hs)
              else (Running, starts hs)))"

lemma stop_each_effect:
  "snd (stop_each out hs l) = l\<lparr>lf_events := lf_events l @ map HookStopped (filter hk_stop hs)\<rparr>"
proof (induction hs arbitrary: l)
  case (Cons h hs)
  show ?case
  proof (cases "hk_stop h")
    case True
    have "snd (stop_each out (h # hs) l) = snd (stop_each out hs (log_event (HookStopped h) l))"
      using True by (simp split: prod.splits)
    with True show ?thesis by (simp add: Cons.IH log_event_def)
  qed (use Cons.IH in simp)
qed simp

lemma run_stop_hooks_effect:
  "snd (run_stop_hooks out l) = l\<lparr>lf_started := [], lf_events := lf_events l @ stops (lf_started l)\<rparr>"
  by (simp add: run_stop_hooks_def stop_each_effect stops_def)

text \<open>The errors of a shutdown are those of the hooks with a stop callback, in the order in which they stop.\<close>

lemma stop_errors: "fst (stop_each out hs l) = List.map_filter (out False) (filter hk_stop hs)"
  by (induction hs arbitrary: l) (simp_all add: List.map_filter_simps case_prod_unfold split: option.split)

lemma starts_Cons: "starts (h # hs) = (if hk_start h then [HookStarted h] else []) @ starts hs"
  by (simp add: starts_def)

lemma start_hooks_effect:
  "let up = takeWhile (\<lambda>h. \<not> fails_start out h) hs; r = start_hooks out hs l
   in if up = hs then fst r = None \<and> snd r = l\<lparr>lf_started := lf_started l @ hs, lf_events := lf_events l @ starts hs\<rparr>
      else fst r \<noteq> None \<and> snd r = l\<lparr>lf_started := [],
        lf_events := lf_events l @ starts up @ [HookStartFailed (hs ! length up)] @ stops (lf_started l @ up)\<rparr>"
proof (induction hs arbitrary: l)
  case Nil
  then show ?case by (simp add: starts_def)
next
  case (Cons h hs)
  show ?case
  proof (cases "fails_start out h")
    case True
    then obtain e where e: "hk_start h" "out True h = Some e" by (auto simp: fails_start_def)
    obtain errs l' where r: "run_stop_hooks out (log_event (HookStartFailed h) l) = (errs, l')" by fastforce
    have l': "l' = (log_event (HookStartFailed h) l)\<lparr>lf_started := [],
        lf_events := lf_events (log_event (HookStartFailed h) l) @ stops (lf_started l)\<rparr>"
      using run_stop_hooks_effect [of out "log_event (HookStartFailed h) l"] r by (simp add: log_event_def)
    show ?thesis using True e r by (simp add: l' log_event_def starts_def)
  next
    case False
    define l2 where "l2 = (let l1 = (if hk_start h then log_event (HookStarted h) l else l)
      in l1\<lparr>lf_started := lf_started l1 @ [h]\<rparr>)"
    have eq: "start_hooks out (h # hs) l = start_hooks out hs l2"
      using False by (auto simp: l2_def Let_def fails_start_def)
    have l2: "l2 = l\<lparr>lf_started := lf_started l @ [h], lf_events := lf_events l @ (if hk_start h then [HookStarted h] else [])\<rparr>"
      by (simp add: l2_def log_event_def)
    show ?thesis using Cons.IH [of l2] False unfolding eq by (auto simp: l2 Let_def starts_Cons)
  qed
qed

text \<open>Once the application has run to its end, no call does anything.\<close>

lemma ended_stays: "lf_once l \<Longrightarrow> lf_state l \<noteq> Building \<Longrightarrow> fold life_step ops l = l"
proof (induction ops)
  case (Cons op ops)
  then have "life_step op l = l" by (cases op) (simp_all add: start_app_def shutdown_def)
  then show ?case using Cons by simp
qed simp

lemma shutdown_effect:
  assumes "\<not> lf_once l"
  shows "lf_state (snd (shutdown out srv l)) = Stopped \<and> lf_once (snd (shutdown out srv l)) \<and> lf_done (snd (shutdown out srv l)) \<and>
    lf_started (snd (shutdown out srv l)) = [] \<and> lf_events (snd (shutdown out srv l)) = lf_events l @ stops (lf_started l)"
proof -
  obtain errs l' where r: "run_stop_hooks out (l\<lparr>lf_once := True, lf_state := Stopping\<rparr>) = (errs, l')" by fastforce
  have "l' = l\<lparr>lf_once := True, lf_state := Stopping, lf_started := [], lf_events := lf_events l @ stops (lf_started l)\<rparr>"
    using run_stop_hooks_effect [of out "l\<lparr>lf_once := True, lf_state := Stopping\<rparr>"] r by simp
  then show ?thesis using assms r by (simp add: shutdown_def Let_def)
qed

lemma running_until_shutdown:
  "\<not> lf_once l \<Longrightarrow> lf_state l = Running \<Longrightarrow> lf_events l = starts hs \<Longrightarrow> lf_started l = hs \<Longrightarrow>
    (let l' = fold life_step ops l
     in if list_ex is_shutdown ops then lf_state l' = Stopped \<and> lf_done l' \<and> lf_events l' = starts hs @ stops hs else l' = l)"
proof (induction ops)
  case (Cons op ops)
  show ?case
  proof (cases op)
    case (StartOp out si)
    then have "life_step op l = l" using Cons.prems by (simp add: start_app_def)
    then show ?thesis using Cons StartOp by (simp add: is_shutdown_def)
  next
    case (ShutdownOp out srv)
    note e = shutdown_effect [OF Cons.prems(1), of out srv]
    then have "fold life_step ops (snd (shutdown out srv l)) = snd (shutdown out srv l)" by (intro ended_stays) simp_all
    then show ?thesis using e ShutdownOp Cons.prems by (simp add: is_shutdown_def)
  qed
qed simp

lemma start_effect:
  assumes "up = takeWhile (\<lambda>h. \<not> fails_start out h) (all_hooks si)"
    and "early \<longleftrightarrow> si_static_diags si \<or> si_build_fails si \<or> si_invoke_fails si \<or> si_late_diags si"
    and "l = snd (start_app out si new_life)"
  shows "if early then lf_state l = Failed \<and> lf_once l \<and> lf_done l \<and> lf_events l = []
    else if up \<noteq> all_hooks si then lf_state l = Failed \<and> lf_once l \<and> lf_done l \<and>
      lf_events l = starts up @ [HookStartFailed (all_hooks si ! length up)] @ stops up
    else lf_state l = Running \<and> \<not> lf_once l \<and> \<not> lf_done l \<and> lf_events l = starts (all_hooks si) \<and> lf_started l = all_hooks si"
proof (cases early)
  case True
  then show ?thesis using assms(2,3) by (auto simp: start_app_def start_inner_def new_life_def Let_def)
next
  case False
  let ?l = "new_life\<lparr>lf_state := Starting, lf_pipeline := True\<rparr>"
  obtain r l' where h: "start_hooks out (all_hooks si) ?l = (r, l')" by fastforce
  have "start_app out si new_life = (case (r, l') of
      (Some e, l') \<Rightarrow> (Some e, (let l2 = l'\<lparr>lf_state := Failed\<rparr> in if lf_once l2 then l2 else l2\<lparr>lf_once := True, lf_done := True\<rparr>))
    | (None, l') \<Rightarrow> (None, l'\<lparr>lf_state := Running\<rparr>))"
    using False assms(2) h by (auto simp: start_app_def start_inner_def new_life_def)
  moreover note start_hooks_effect [of out "all_hooks si" ?l, folded assms(1), unfolded h Let_def fst_conv snd_conv]
  ultimately show ?thesis using False assms(3) by (cases r) (auto simp: new_life_def Let_def split: if_splits)
qed


text \<open>When the invocations fail, nothing the container built is stopped: its hooks are only in the
  list of started hooks once the start hooks run.\<close>

lemma invoke_failure_stops_nothing:
  "si_invoke_fails si \<Longrightarrow> lf_events (snd (start_app out si new_life)) = []"
  by (simp add: start_app_def start_inner_def new_life_def Let_def)

end
