(* ===== verification/Hub.thy ===== *)
theory Hub
  imports Prelude
begin

text \<open>
  \<open>realtime/hub.go\<close>: the publish/subscribe hub. Every operation runs under the hub's mutex and is
  one step. A subscriber is the number of its channel in \<open>hb_chans\<close>; a receive from a channel is
  a step of its own (\<open>receive\<close>). Topics are an association list with distinct names; Go's
  iteration order over subscribers does not matter, since each has its own channel. Sequence
  numbers are \<open>uint64\<close>, so they wrap. Three fields are history and never read by the operations:
  \<open>tp_log\<close>, all events published to the topic since it was created, \<open>ch_sent\<close>, all events put into
  the channel, and \<open>ch_base\<close>, the length of the log at the subscription with the events replayed.
\<close>

section \<open>State\<close>

record 'd event =
  ev_id :: string
  ev_name :: string
  ev_data :: 'd

record 'd topic =
  tp_next :: nat
  tp_buf :: "'d event list"
  tp_start :: nat
  tp_subs :: "nat list"
  tp_last_use :: nat
  tp_log :: "'d event list"

record 'd chan =
  ch_queue :: "'d event list"
  ch_cap :: nat
  ch_closed :: bool
  ch_once :: bool
  ch_topic :: string
  ch_sent :: "'d event list"
  ch_base :: "nat \<times> 'd event list"

record 'd hub =
  hb_topics :: "(string \<times> 'd topic) list"
  hb_chans :: "'d chan list"
  hb_replay :: nat
  hb_max_topics :: int
  hb_use_seq :: nat
  hb_closed :: bool

definition default_replay :: nat where "default_replay = 64"
definition min_subscriber_buffer :: nat where "min_subscriber_buffer = 16"

text \<open>The options: a negative size counts as 0; without the option the default.\<close>

definition new_hub :: "int option \<Rightarrow> int option \<Rightarrow> 'd hub" where
  "new_hub replay_opt max_opt =
     \<lparr>hb_topics = [], hb_chans = [],
      hb_replay = (case replay_opt of None \<Rightarrow> default_replay | Some n \<Rightarrow> nat n),
      hb_max_topics = (case max_opt of None \<Rightarrow> 0 | Some n \<Rightarrow> max 0 n), hb_use_seq = 0, hb_closed = False\<rparr>"

definition find_topic :: "string \<Rightarrow> 'd hub \<Rightarrow> 'd topic option" where
  "find_topic name h = map_of (hb_topics h) name"

definition put_topic :: "string \<Rightarrow> 'd topic \<Rightarrow> 'd hub \<Rightarrow> 'd hub" where
  "put_topic name t h = h\<lparr>hb_topics := AList.update name t (hb_topics h)\<rparr>"

definition delete_topic :: "string \<Rightarrow> 'd hub \<Rightarrow> 'd hub" where
  "delete_topic name h = h\<lparr>hb_topics := AList.delete name (hb_topics h)\<rparr>"

definition on_chan :: "nat \<Rightarrow> ('d chan \<Rightarrow> 'd chan) \<Rightarrow> 'd hub \<Rightarrow> 'd hub" where
  "on_chan i f h = h\<lparr>hb_chans := (hb_chans h)[i := f (hb_chans h ! i)]\<rparr>"

definition close_chan :: "nat \<Rightarrow> 'd hub \<Rightarrow> 'd hub" where
  "close_chan i h = on_chan i (\<lambda>c. c\<lparr>ch_closed := True\<rparr>) h"

section \<open>Topics\<close>

text \<open>\<open>evictLocked\<close>: the least recently used topic without subscribers.\<close>

fun oldest_idle :: "(string \<times> 'd topic) list \<Rightarrow> (string \<times> nat) option \<Rightarrow> (string \<times> nat) option" where
  "oldest_idle [] best = best"
| "oldest_idle ((name, t) # ts) best =
     (if tp_subs t \<noteq> [] then oldest_idle ts best
      else case best of
             None \<Rightarrow> oldest_idle ts (Some (name, tp_last_use t))
           | Some (v, old) \<Rightarrow>
               if tp_last_use t < old then oldest_idle ts (Some (name, tp_last_use t)) else oldest_idle ts best)"

definition evict_topic :: "'d hub \<Rightarrow> 'd hub" where
  "evict_topic h =
     (if hb_max_topics h \<le> 0 \<or> int (length (hb_topics h)) < hb_max_topics h then h
      else case oldest_idle (hb_topics h) None of None \<Rightarrow> h | Some (victim, _) \<Rightarrow> delete_topic victim h)"

definition new_topic :: "'d topic" where
  "new_topic = \<lparr>tp_next = 0, tp_buf = [], tp_start = 0, tp_subs = [], tp_last_use = 0, tp_log = []\<rparr>"

text \<open>\<open>topicLocked\<close> and \<open>touchLocked\<close>.\<close>

definition get_topic :: "string \<Rightarrow> 'd hub \<Rightarrow> 'd topic \<times> 'd hub" where
  "get_topic name h =
     (let h1 = (if find_topic name h = None then put_topic name new_topic (evict_topic h) else h);
          t = (the (find_topic name h1))\<lparr>tp_last_use := hb_use_seq h1\<rparr>
      in (t, (put_topic name t h1)\<lparr>hb_use_seq := (hb_use_seq h1 + 1) mod 2 ^ 64\<rparr>))"

text \<open>\<open>detachLocked\<close>\<close>

definition detach :: "string \<Rightarrow> nat \<Rightarrow> 'd hub \<Rightarrow> 'd hub" where
  "detach name i h =
     (case find_topic name h of
        None \<Rightarrow> close_chan i h
      | Some t \<Rightarrow>
          (let t1 = t\<lparr>tp_subs := filter (\<lambda>s. s \<noteq> i) (tp_subs t)\<rparr>;
               h1 = (if tp_subs t1 = [] \<and> (hb_replay h = 0 \<or> tp_buf t1 = []) then delete_topic name h
                     else put_topic name t1 h)
           in close_chan i h1))"

section \<open>Publishing\<close>

definition ring_push :: "nat \<Rightarrow> 'd event \<Rightarrow> 'd topic \<Rightarrow> 'd topic" where
  "ring_push replay e t =
     (if replay = 0 then t
      else if length (tp_buf t) < replay then t\<lparr>tp_buf := tp_buf t @ [e]\<rparr>
      else t\<lparr>tp_buf := (tp_buf t)[tp_start t := e], tp_start := (tp_start t + 1) mod length (tp_buf t)\<rparr>)"

definition has_room :: "'d chan \<Rightarrow> bool" where
  "has_room c \<longleftrightarrow> length (ch_queue c) < ch_cap c"

definition send :: "'d event \<Rightarrow> 'd chan \<Rightarrow> 'd chan" where
  "send e c = c\<lparr>ch_queue := ch_queue c @ [e], ch_sent := ch_sent c @ [e]\<rparr>"

text \<open>The loop over the subscribers, then the disconnection of those that were full.\<close>

definition send_all :: "'d event \<Rightarrow> nat list \<Rightarrow> 'd hub \<Rightarrow> 'd hub" where
  "send_all e subs h = fold (\<lambda>i. on_chan i (send e)) (filter (\<lambda>i. has_room (hb_chans h ! i)) subs) h"

definition full_subs :: "nat list \<Rightarrow> 'd hub \<Rightarrow> nat list" where
  "full_subs subs h = filter (\<lambda>i. \<not> has_room (hb_chans h ! i)) subs"

definition stamp :: "'d topic \<Rightarrow> 'd event \<Rightarrow> 'd event" where
  "stamp t e = (if ev_id e = [] then e\<lparr>ev_id := dec_nat (tp_next t)\<rparr> else e)"

definition publish :: "string \<Rightarrow> 'd event \<Rightarrow> 'd hub \<Rightarrow> 'd hub" where
  "publish name e0 h =
     (if hb_closed h then h
      else if hb_replay h = 0 \<and> find_topic name h = None then h
      else
        let (t0, h1) = (if hb_replay h = 0 then (the (find_topic name h), h) else get_topic name h);
            t1 = t0\<lparr>tp_next := (tp_next t0 + 1) mod 2 ^ 64\<rparr>;
            e = stamp t1 e0;
            t2 = (ring_push (hb_replay h) e t1)\<lparr>tp_log := tp_log t1 @ [e]\<rparr>;
            h2 = put_topic name t2 h1
        in fold (detach name) (full_subs (tp_subs t2) h2) (send_all e (tp_subs t2) h2))"

section \<open>Subscribing\<close>

definition after_last_id :: "string \<Rightarrow> string \<Rightarrow> bool" where
  "after_last_id ident last_id =
     (case parse_uint last_id of
        None \<Rightarrow> True
      | Some l \<Rightarrow> (case parse_uint ident of None \<Rightarrow> True | Some n \<Rightarrow> n > l))"

definition ring_events :: "'d topic \<Rightarrow> 'd event list" where
  "ring_events t = map (\<lambda>i. tp_buf t ! ((tp_start t + i) mod length (tp_buf t))) [0..<length (tp_buf t)]"

definition replayed :: "string \<Rightarrow> 'd topic \<Rightarrow> 'd event list" where
  "replayed last_id t = (if last_id = [] then [] else filter (\<lambda>e. after_last_id (ev_id e) last_id) (ring_events t))"

text \<open>The channel number and the hub; on a closed hub the channel is a closed one.\<close>

definition subscribe :: "string \<Rightarrow> string \<Rightarrow> 'd hub \<Rightarrow> nat \<times> 'd hub" where
  "subscribe name last_id h =
     (let i = length (hb_chans h)
      in if hb_closed h then
           (i, h\<lparr>hb_chans := hb_chans h @ [\<lparr>ch_queue = [], ch_cap = 0, ch_closed = True, ch_once = True, ch_topic = name,
                                            ch_sent = [], ch_base = (0, [])\<rparr>]\<rparr>)
         else
           let (t, h1) = get_topic name h; rs = replayed last_id t
           in (i, (put_topic name (t\<lparr>tp_subs := tp_subs t @ [i]\<rparr>) h1)
                    \<lparr>hb_chans := hb_chans h1 @ [\<lparr>ch_queue = rs, ch_cap = max (hb_replay h1) min_subscriber_buffer,
                       ch_closed = False, ch_once = False, ch_topic = name, ch_sent = rs,
                       ch_base = (length (tp_log t), rs)\<rparr>]\<rparr>))"

text \<open>\<open>unsubscribe\<close> runs \<open>removeSub\<close> once.\<close>

definition remove_sub :: "string \<Rightarrow> nat \<Rightarrow> 'd hub \<Rightarrow> 'd hub" where
  "remove_sub name i h =
     (if find_topic name h \<noteq> None then detach name i h else close_chan i h)"

definition unsubscribe :: "nat \<Rightarrow> 'd hub \<Rightarrow> 'd hub" where
  "unsubscribe i h =
     (if ch_once (hb_chans h ! i) then h
      else remove_sub (ch_topic (hb_chans h ! i)) i (on_chan i (\<lambda>c. c\<lparr>ch_once := True\<rparr>) h))"

text \<open>A receive: the event, or \<open>None\<close> when it would block or the channel is closed and drained.\<close>

definition receive :: "nat \<Rightarrow> 'd hub \<Rightarrow> 'd event option \<times> 'd hub" where
  "receive i h =
     (case ch_queue (hb_chans h ! i) of
        [] \<Rightarrow> (None, h)
      | e # es \<Rightarrow> (Some e, on_chan i (\<lambda>c. c\<lparr>ch_queue := es\<rparr>) h))"

definition close_hub :: "'d hub \<Rightarrow> 'd hub" where
  "close_hub h =
     (if hb_closed h then h
      else (fold close_chan (concat (map (tp_subs \<circ> snd) (hb_topics h))) h)\<lparr>hb_closed := True, hb_topics := []\<rparr>)"

definition topic_count :: "'d hub \<Rightarrow> nat" where
  "topic_count h = length (hb_topics h)"

section \<open>The invariant\<close>

text \<open>The ring buffer holds the last events of the topic, oldest first.\<close>

definition ring_ok :: "nat \<Rightarrow> 'd topic \<Rightarrow> bool" where
  "ring_ok replay t \<longleftrightarrow>
     length (tp_buf t) \<le> replay \<and> (tp_start t = 0 \<or> tp_start t < length (tp_buf t)) \<and>
     (length (tp_buf t) < replay \<longrightarrow> tp_start t = 0) \<and>
     ring_events t = drop (length (tp_log t) - replay) (tp_log t) \<and>
     tp_next t = length (tp_log t) mod 2 ^ 64"

text \<open>What was put into the channel of a connected subscriber: its replay, then everything published
  since it subscribed.\<close>

definition fed :: "'d topic \<Rightarrow> 'd chan \<Rightarrow> bool" where
  "fed t c \<longleftrightarrow> fst (ch_base c) \<le> length (tp_log t) \<and> ch_sent c = snd (ch_base c) @ drop (fst (ch_base c)) (tp_log t)"

definition chan_ok :: "'d chan \<Rightarrow> bool" where
  "chan_ok c \<longleftrightarrow> length (ch_queue c) \<le> ch_cap c \<and> (\<exists>got. ch_sent c = got @ ch_queue c)"

definition topic_ok :: "'d hub \<Rightarrow> string \<Rightarrow> 'd topic \<Rightarrow> bool" where
  "topic_ok h name t \<longleftrightarrow> ring_ok (hb_replay h) t \<and> distinct (tp_subs t) \<and>
     (\<forall>i \<in> set (tp_subs t). i < length (hb_chans h) \<and> ch_topic (hb_chans h ! i) = name \<and>
        \<not> ch_closed (hb_chans h ! i) \<and> fed t (hb_chans h ! i))"

definition hub_inv :: "'d hub \<Rightarrow> bool" where
  "hub_inv h \<longleftrightarrow> distinct (map fst (hb_topics h)) \<and>
     (\<forall>name t. find_topic name h = Some t \<longrightarrow> topic_ok h name t) \<and>
     (\<forall>i < length (hb_chans h). chan_ok (hb_chans h ! i) \<and>
        (\<not> ch_closed (hb_chans h ! i) \<longrightarrow>
           (\<exists>t. find_topic (ch_topic (hb_chans h ! i)) h = Some t \<and> i \<in> set (tp_subs t)))) \<and>
     (hb_closed h \<longrightarrow> hb_topics h = [])"

lemma find_put [simp]: "find_topic n (put_topic name t h) = (if n = name then Some t else find_topic n h)"
  by (simp add: find_topic_def put_topic_def update_conv')

lemma find_delete [simp]: "find_topic n (delete_topic name h) = (if n = name then None else find_topic n h)"
  by (simp add: find_topic_def delete_topic_def AList.delete_conv')

lemma hub_sel [simp]:
  "hb_chans (put_topic name t h) = hb_chans h" "hb_replay (put_topic name t h) = hb_replay h"
  "hb_closed (put_topic name t h) = hb_closed h" "hb_chans (delete_topic name h) = hb_chans h"
  "hb_replay (delete_topic name h) = hb_replay h" "hb_closed (delete_topic name h) = hb_closed h"
  "hb_topics (on_chan i f h) = hb_topics h" "hb_replay (on_chan i f h) = hb_replay h"
  "hb_closed (on_chan i f h) = hb_closed h" "find_topic n (on_chan i f h) = find_topic n h"
  "length (hb_chans (on_chan i f h)) = length (hb_chans h)"
  "find_topic n (h\<lparr>hb_use_seq := s\<rparr>) = find_topic n h" "find_topic n (h\<lparr>hb_chans := cs\<rparr>) = find_topic n h"
  by (simp_all add: put_topic_def delete_topic_def on_chan_def find_topic_def)

lemma chan_on_chan:
  "i < length (hb_chans h) \<Longrightarrow> hb_chans (on_chan i f h) ! j = (if j = i then f (hb_chans h ! i) else hb_chans h ! j)"
  by (auto simp: on_chan_def nth_list_update)

lemma distinct_put [simp]: "distinct (map fst (hb_topics h)) \<Longrightarrow> distinct (map fst (hb_topics (put_topic name t h)))"
  by (simp add: put_topic_def distinct_update)

lemma distinct_delete_topic [simp]:
  "distinct (map fst (hb_topics h)) \<Longrightarrow> distinct (map fst (hb_topics (delete_topic name h)))"
  by (simp add: delete_topic_def distinct_delete)

subsection \<open>The ring buffer\<close>

lemma ring_events_length [simp]: "length (ring_events t) = length (tp_buf t)"
  by (simp add: ring_events_def)

lemma ring_events_nth: "i < length (tp_buf t) \<Longrightarrow> ring_events t ! i = tp_buf t ! ((tp_start t + i) mod length (tp_buf t))"
  by (simp add: ring_events_def)

lemma ring_events_straight: "tp_start t = 0 \<Longrightarrow> ring_events t = tp_buf t"
  by (rule nth_equalityI) (simp_all add: ring_events_nth)

lemma ring_overwrite:
  assumes "0 < length (tp_buf t)" and "tp_start t < length (tp_buf t)"
  shows "ring_events (t\<lparr>tp_buf := (tp_buf t)[tp_start t := e], tp_start := (tp_start t + 1) mod length (tp_buf t)\<rparr>) =
           tl (ring_events t) @ [e]" (is "ring_events ?t' = _")
proof (rule nth_equalityI)
  let ?n = "length (tp_buf t)"
  show "length (ring_events ?t') = length (tl (ring_events t) @ [e])" using assms by simp
  fix i assume "i < length (ring_events ?t')"
  then have i: "i < ?n" by simp
  have idx: "((tp_start t + 1) mod ?n + i) mod ?n = (tp_start t + (i + 1)) mod ?n"
    by (simp add: mod_simps add.assoc)
  have lhs: "ring_events ?t' ! i = (tp_buf t)[tp_start t := e] ! ((tp_start t + (i + 1)) mod ?n)"
    using i idx by (simp add: ring_events_nth)
  show "ring_events ?t' ! i = (tl (ring_events t) @ [e]) ! i"
  proof (cases "i + 1 = ?n")
    case True
    then have "(tp_start t + (i + 1)) mod ?n = tp_start t" using assms by simp
    moreover have "(tl (ring_events t) @ [e]) ! i = e" using True by (simp add: nth_append)
    ultimately show ?thesis using lhs assms by simp
  next
    case False
    with i have i': "i + 1 < ?n" by simp
    have "(tp_start t + (i + 1)) mod ?n \<noteq> tp_start t"
    proof (cases "tp_start t + (i + 1) < ?n")
      case False
      then have "(tp_start t + (i + 1)) mod ?n = tp_start t + (i + 1) - ?n"
        using assms i' by (simp add: mod_if)
      then show ?thesis using i' False by linarith
    qed simp
    then have "ring_events ?t' ! i = tp_buf t ! ((tp_start t + (i + 1)) mod ?n)" using lhs by simp
    moreover have "(tl (ring_events t) @ [e]) ! i = ring_events t ! (i + 1)" using i' by (simp add: nth_append nth_tl)
    ultimately show ?thesis using i' by (simp add: ring_events_nth)
  qed
qed

lemma ring_push_ok:
  assumes r: "ring_ok replay t"
  shows "ring_ok replay ((ring_push replay e (t\<lparr>tp_next := (tp_next t + 1) mod 2 ^ 64\<rparr>))\<lparr>tp_log := tp_log t @ [e]\<rparr>)"
proof -
  let ?L = "tp_log t"
  have nx: "(tp_next t + 1) mod 2 ^ 64 = length (?L @ [e]) mod 2 ^ 64"
    using r by (simp add: ring_ok_def mod_Suc_eq)
  have len: "length (tp_buf t) = min replay (length ?L)"
    using r ring_events_length [of t] by (simp add: ring_ok_def)
  show ?thesis
  proof (cases "replay = 0")
    case True
    then show ?thesis using r nx len by (simp add: ring_ok_def ring_push_def ring_events_def)
  next
    case False
    show ?thesis
    proof (cases "length (tp_buf t) < replay")
      case True
      have "length (tp_buf t) = length ?L" using len True by linarith
      moreover have s1: "tp_start t = 0" using r True by (simp add: ring_ok_def)
      ultimately have s: "tp_start t = 0" "length ?L < replay" "tp_buf t = ?L"
        using r True ring_events_straight [OF s1] by (simp_all add: ring_ok_def)
      let ?u = "(ring_push replay e (t\<lparr>tp_next := (tp_next t + 1) mod 2 ^ 64\<rparr>))\<lparr>tp_log := ?L @ [e]\<rparr>"
      have u: "tp_start ?u = 0" "tp_buf ?u = tp_buf t @ [e]" "tp_log ?u = ?L @ [e]" "tp_next ?u = (tp_next t + 1) mod 2 ^ 64"
        using False True s(1) by (simp_all add: ring_push_def)
      have "ring_events ?u = ?L @ [e]" using ring_events_straight [OF u(1)] u(2) s(3) by (simp only:)
      moreover have "length (?L @ [e]) - replay = 0" using s(2) by simp
      ultimately show ?thesis unfolding ring_ok_def u using True nx by simp
    next
      case full: False
      then have l: "length (tp_buf t) = replay" "replay \<le> length ?L" using len by auto
      have st: "tp_start t < length (tp_buf t)" using r l False by (auto simp: ring_ok_def)
      let ?t' = "t\<lparr>tp_buf := (tp_buf t)[tp_start t := e], tp_start := (tp_start t + 1) mod length (tp_buf t)\<rparr>"
      have ev: "ring_events ?t' = tl (drop (length ?L - replay) ?L) @ [e]"
        using ring_overwrite [of t e] st l False r by (simp add: ring_ok_def)
      also have "\<dots> = drop (length (?L @ [e]) - replay) (?L @ [e])"
        using l(2) False by (simp add: tl_drop drop_Suc Suc_diff_le)
      finally have ev': "ring_events ?t' = drop (length (?L @ [e]) - replay) (?L @ [e])" .
      have same: "ring_events ((ring_push replay e (t\<lparr>tp_next := n\<rparr>))\<lparr>tp_log := lg\<rparr>) = ring_events ?t'" for n lg
        using full False by (simp add: ring_push_def ring_events_def)
      show ?thesis unfolding ring_ok_def same ev' using full False l nx st
        by (auto simp: ring_push_def mod_less_divisor)
    qed
  qed
qed

subsection \<open>Topics and subscribers\<close>

text \<open>While an event is being sent, the subscribers in \<open>S\<close> have not got it yet.\<close>

definition lagging :: "'d topic \<Rightarrow> 'd chan \<Rightarrow> bool" where
  "lagging t c \<longleftrightarrow> fst (ch_base c) < length (tp_log t) \<and>
     ch_sent c = snd (ch_base c) @ drop (fst (ch_base c)) (butlast (tp_log t))"

definition sending_inv :: "nat set \<Rightarrow> string \<Rightarrow> 'd hub \<Rightarrow> bool" where
  "sending_inv S name h \<longleftrightarrow> distinct (map fst (hb_topics h)) \<and>
     (\<forall>n t. find_topic n h = Some t \<longrightarrow>
        ring_ok (hb_replay h) t \<and> distinct (tp_subs t) \<and>
        (\<forall>i \<in> set (tp_subs t). i < length (hb_chans h) \<and> ch_topic (hb_chans h ! i) = n \<and> \<not> ch_closed (hb_chans h ! i) \<and>
           (if n = name \<and> i \<in> S then lagging t (hb_chans h ! i) else fed t (hb_chans h ! i)))) \<and>
     (\<forall>i < length (hb_chans h). chan_ok (hb_chans h ! i) \<and>
        (\<not> ch_closed (hb_chans h ! i) \<longrightarrow>
           (\<exists>t. find_topic (ch_topic (hb_chans h ! i)) h = Some t \<and> i \<in> set (tp_subs t)))) \<and>
     (hb_closed h \<longrightarrow> hb_topics h = [])"

lemma hub_inv_sending: "hub_inv h \<longleftrightarrow> sending_inv {} name h"
  by (simp add: hub_inv_def sending_inv_def topic_ok_def)

lemma sending_invD:
  assumes "sending_inv S name h"
  shows "distinct (map fst (hb_topics h))"
    and "find_topic n h = Some t \<Longrightarrow> ring_ok (hb_replay h) t"
    and "find_topic n h = Some t \<Longrightarrow> distinct (tp_subs t)"
    and "find_topic n h = Some t \<Longrightarrow> i \<in> set (tp_subs t) \<Longrightarrow>
      i < length (hb_chans h) \<and> ch_topic (hb_chans h ! i) = n \<and> \<not> ch_closed (hb_chans h ! i) \<and>
      (if n = name \<and> i \<in> S then lagging t (hb_chans h ! i) else fed t (hb_chans h ! i))"
    and "i < length (hb_chans h) \<Longrightarrow> chan_ok (hb_chans h ! i)"
    and "i < length (hb_chans h) \<Longrightarrow> \<not> ch_closed (hb_chans h ! i) \<Longrightarrow>
      \<exists>t. find_topic (ch_topic (hb_chans h ! i)) h = Some t \<and> i \<in> set (tp_subs t)"
    and "hb_closed h \<Longrightarrow> hb_topics h = []"
  using assms unfolding sending_inv_def by blast+

text \<open>Replacing one topic by one that keeps its open subscribers.\<close>

lemma put_topic_sending:
  assumes i: "sending_inv S name h" and o: "\<not> hb_closed h"
    and r: "ring_ok (hb_replay h) t" "distinct (tp_subs t)"
    and s: "\<And>i. i \<in> set (tp_subs t) \<Longrightarrow>
      i < length (hb_chans h) \<and> ch_topic (hb_chans h ! i) = n \<and> \<not> ch_closed (hb_chans h ! i) \<and>
      (if n = name \<and> i \<in> S' then lagging t (hb_chans h ! i) else fed t (hb_chans h ! i))"
    and keep: "\<And>i. i < length (hb_chans h) \<Longrightarrow> \<not> ch_closed (hb_chans h ! i) \<Longrightarrow> ch_topic (hb_chans h ! i) = n \<Longrightarrow>
      i \<in> set (tp_subs t)"
    and S': "n = name \<or> S' = S"
  shows "sending_inv S' name (put_topic n t h)"
  unfolding sending_inv_def
proof (intro conjI allI impI)
  show "distinct (map fst (hb_topics (put_topic n t h)))" using sending_invD(1) [OF i] by simp
  fix m u assume f: "find_topic m (put_topic n t h) = Some u"
  show "ring_ok (hb_replay (put_topic n t h)) u" using f r sending_invD(2) [OF i] by (simp split: if_splits)
  show "distinct (tp_subs u)" using f r sending_invD(3) [OF i] by (simp split: if_splits)
  show "\<forall>i \<in> set (tp_subs u). i < length (hb_chans (put_topic n t h)) \<and> ch_topic (hb_chans (put_topic n t h) ! i) = m \<and>
      \<not> ch_closed (hb_chans (put_topic n t h) ! i) \<and>
      (if m = name \<and> i \<in> S' then lagging u (hb_chans (put_topic n t h) ! i) else fed u (hb_chans (put_topic n t h) ! i))"
  proof (cases "m = n")
    case True
    have "u = t" using f True by simp
    then show ?thesis using s True by simp
  next
    case False
    with f have f': "find_topic m h = Some u" by simp
    from False S' show ?thesis using sending_invD(4) [OF i f'] by auto
  qed
next
  fix i' assume b: "i' < length (hb_chans (put_topic n t h))"
  show "chan_ok (hb_chans (put_topic n t h) ! i')" using b sending_invD(5) [OF i] by simp
  assume "\<not> ch_closed (hb_chans (put_topic n t h) ! i')"
  then show "\<exists>u. find_topic (ch_topic (hb_chans (put_topic n t h) ! i')) (put_topic n t h) = Some u \<and> i' \<in> set (tp_subs u)"
    using b keep sending_invD(6) [OF i] by auto
qed (use o in simp)

lemma delete_idle_sending:
  assumes i: "sending_inv S name h" and f: "\<And>t. find_topic n h = Some t \<Longrightarrow> tp_subs t = []"
  shows "sending_inv S name (delete_topic n h)"
  unfolding sending_inv_def
proof (intro conjI allI impI)
  show "distinct (map fst (hb_topics (delete_topic n h)))" using sending_invD(1) [OF i] by simp
  fix m u assume m: "find_topic m (delete_topic n h) = Some u"
  then have m': "find_topic m h = Some u" by (simp split: if_splits)
  show "ring_ok (hb_replay (delete_topic n h)) u" "distinct (tp_subs u)"
    using sending_invD(2,3) [OF i m'] by simp_all
  show "\<forall>i \<in> set (tp_subs u). i < length (hb_chans (delete_topic n h)) \<and> ch_topic (hb_chans (delete_topic n h) ! i) = m \<and>
      \<not> ch_closed (hb_chans (delete_topic n h) ! i) \<and>
      (if m = name \<and> i \<in> S then lagging u (hb_chans (delete_topic n h) ! i) else fed u (hb_chans (delete_topic n h) ! i))"
    using sending_invD(4) [OF i m'] by simp
next
  fix i' assume b: "i' < length (hb_chans (delete_topic n h))"
  show "chan_ok (hb_chans (delete_topic n h) ! i')" using b sending_invD(5) [OF i] by simp
  assume "\<not> ch_closed (hb_chans (delete_topic n h) ! i')"
  then obtain u where u: "find_topic (ch_topic (hb_chans h ! i')) h = Some u" "i' \<in> set (tp_subs u)"
    using b sending_invD(6) [OF i, of i'] by auto
  then have "ch_topic (hb_chans h ! i') \<noteq> n" using f by fastforce
  with u show "\<exists>u. find_topic (ch_topic (hb_chans (delete_topic n h) ! i')) (delete_topic n h) = Some u \<and> i' \<in> set (tp_subs u)"
    by simp
next
  assume "hb_closed (delete_topic n h)"
  then show "hb_topics (delete_topic n h) = []" using sending_invD(7) [OF i] by (simp add: delete_topic_def)
qed

lemma oldest_idle_some:
  "oldest_idle ts best = Some (v, k) \<Longrightarrow> best = Some (v, k) \<or> (\<exists>t. (v, t) \<in> set ts \<and> tp_subs t = [])"
proof (induction ts best rule: oldest_idle.induct)
  case (2 name t ts best)
  then show ?case by (fastforce split: if_splits option.splits prod.splits)
qed simp

lemma evict_topic_inv: "hub_inv h \<Longrightarrow> hub_inv (evict_topic h) \<and> hb_chans (evict_topic h) = hb_chans h \<and>
    hb_replay (evict_topic h) = hb_replay h \<and> hb_closed (evict_topic h) = hb_closed h \<and>
    (find_topic n h = None \<longrightarrow> find_topic n (evict_topic h) = None)"
proof -
  assume i: "hub_inv h"
  show ?thesis
  proof (cases "evict_topic h = h")
    case False
    then obtain v k where v: "oldest_idle (hb_topics h) None = Some (v, k)" "evict_topic h = delete_topic v h"
      by (auto simp: evict_topic_def split: if_splits option.splits prod.splits)
    from oldest_idle_some [OF v(1)] obtain t where t: "(v, t) \<in> set (hb_topics h)" "tp_subs t = []" by auto
    have "find_topic v h = Some t"
      using t i by (simp add: find_topic_def hub_inv_def map_of_is_SomeI)
    then have "sending_inv {} v (delete_topic v h)"
      using i t by (intro delete_idle_sending) (simp_all add: hub_inv_sending [of h v])
    then show ?thesis using v by (simp add: hub_inv_sending [of _ v])
  qed (use i in simp)
qed

lemma new_topic_ring: "ring_ok replay new_topic"
  by (simp add: ring_ok_def new_topic_def ring_events_def)

lemma get_topic_inv:
  assumes i: "hub_inv h" and o: "\<not> hb_closed h" and g: "get_topic name h = (t, h')"
  shows "hub_inv h' \<and> find_topic name h' = Some t \<and> hb_chans h' = hb_chans h \<and> hb_replay h' = hb_replay h \<and> \<not> hb_closed h'"
proof -
  define h1 where "h1 = (if find_topic name h = None then put_topic name new_topic (evict_topic h) else h)"
  have h1: "hub_inv h1 \<and> hb_chans h1 = hb_chans h \<and> hb_replay h1 = hb_replay h \<and> \<not> hb_closed h1 \<and> find_topic name h1 \<noteq> None"
  proof (cases "find_topic name h")
    case None
    note e = evict_topic_inv [OF i, of name]
    have "sending_inv {} name (put_topic name new_topic (evict_topic h))"
    proof (rule put_topic_sending)
      show "sending_inv {} name (evict_topic h)" using e by (simp add: hub_inv_sending [of _ name])
      show "\<not> hb_closed (evict_topic h)" using e o by simp
      show "ring_ok (hb_replay (evict_topic h)) new_topic" by (rule new_topic_ring)
      fix j assume "j < length (hb_chans (evict_topic h))" "\<not> ch_closed (hb_chans (evict_topic h) ! j)"
        "ch_topic (hb_chans (evict_topic h) ! j) = name"
      with e None show "j \<in> set (tp_subs new_topic)"
        unfolding hub_inv_def by (metis option.distinct(1))
    qed (simp_all add: new_topic_def)
    with None e o show ?thesis by (simp add: h1_def hub_inv_sending [of _ name])
  qed (use i o in \<open>simp add: h1_def\<close>)
  then obtain t1 where t1: "find_topic name h1 = Some t1" by auto
  have t: "t = t1\<lparr>tp_last_use := hb_use_seq h1\<rparr>"
    and h': "h' = (put_topic name t h1)\<lparr>hb_use_seq := (hb_use_seq h1 + 1) mod 2 ^ 64\<rparr>"
    using g t1 unfolding get_topic_def Let_def h1_def [symmetric] by auto
  have s1: "sending_inv {} name h1" using h1 by (simp add: hub_inv_sending [of _ name])
  have eqs: "ring_ok r t = ring_ok r t1" "fed t c = fed t1 c" "tp_subs t = tp_subs t1" for r c
    by (simp_all add: t ring_ok_def fed_def ring_events_def)
  have "sending_inv {} name (put_topic name t h1)"
  proof (rule put_topic_sending [OF s1])
    show "j \<in> set (tp_subs t)" if "j < length (hb_chans h1)" "\<not> ch_closed (hb_chans h1 ! j)" "ch_topic (hb_chans h1 ! j) = name" for j
      using sending_invD(6) [OF s1 that(1,2)] that(3) t1 eqs by simp
  qed (use h1 sending_invD(2,3,4) [OF s1 t1] eqs in simp_all)
  then have "sending_inv {} name h'" by (simp add: h' sending_inv_def)
  with h1 show ?thesis by (simp add: h' hub_inv_sending [of _ name])
qed

subsection \<open>Delivery and disconnection\<close>

lemma send_sending:
  assumes i: "sending_inv S name h" and f: "find_topic name h = Some t" and s: "s \<in> set (tp_subs t)" "s \<in> S"
    and room: "has_room (hb_chans h ! s)" and e: "last (tp_log t) = e"
  shows "sending_inv (S - {s}) name (on_chan s (send e) h)"
  unfolding sending_inv_def
proof (intro conjI allI impI)
  have b: "s < length (hb_chans h)" and lag: "lagging t (hb_chans h ! s)" and op: "\<not> ch_closed (hb_chans h ! s)"
    and tn: "ch_topic (hb_chans h ! s) = name"
    using sending_invD(4) [OF i f s(1)] s(2) by auto
  note ch = chan_on_chan [OF b]
  have fedt: "fed t (send e (hb_chans h ! s))"
  proof -
    have "tp_log t = butlast (tp_log t) @ [e]" using lag e by (cases "tp_log t" rule: rev_cases) (auto simp: lagging_def)
    moreover have "fst (ch_base (hb_chans h ! s)) \<le> length (butlast (tp_log t))" using lag by (auto simp: lagging_def)
    ultimately have "drop (fst (ch_base (hb_chans h ! s))) (tp_log t) = drop (fst (ch_base (hb_chans h ! s))) (butlast (tp_log t)) @ [e]"
      by (metis append_Nil drop_append drop_0 diff_is_0_eq)
    then show ?thesis using lag by (simp add: fed_def lagging_def send_def)
  qed
  show "distinct (map fst (hb_topics (on_chan s (send e) h)))" using sending_invD(1) [OF i] by simp
  show "hb_closed (on_chan s (send e) h) \<Longrightarrow> hb_topics (on_chan s (send e) h) = []" using sending_invD(7) [OF i] by simp
  fix n u assume "find_topic n (on_chan s (send e) h) = Some u"
  then have u: "find_topic n h = Some u" by simp
  show "ring_ok (hb_replay (on_chan s (send e) h)) u" "distinct (tp_subs u)" using sending_invD(2,3) [OF i u] by simp_all
  show "\<forall>j \<in> set (tp_subs u). j < length (hb_chans (on_chan s (send e) h)) \<and>
      ch_topic (hb_chans (on_chan s (send e) h) ! j) = n \<and> \<not> ch_closed (hb_chans (on_chan s (send e) h) ! j) \<and>
      (if n = name \<and> j \<in> S - {s} then lagging u (hb_chans (on_chan s (send e) h) ! j)
       else fed u (hb_chans (on_chan s (send e) h) ! j))"
  proof
    fix j assume j: "j \<in> set (tp_subs u)"
    show "j < length (hb_chans (on_chan s (send e) h)) \<and>
      ch_topic (hb_chans (on_chan s (send e) h) ! j) = n \<and> \<not> ch_closed (hb_chans (on_chan s (send e) h) ! j) \<and>
      (if n = name \<and> j \<in> S - {s} then lagging u (hb_chans (on_chan s (send e) h) ! j)
       else fed u (hb_chans (on_chan s (send e) h) ! j))"
    proof (cases "j = s")
      case True
      then have "n = name" using sending_invD(4) [OF i u j] tn by simp
      then have "u = t" using u f by simp
      then show ?thesis using True \<open>n = name\<close> fedt b op tn ch by (simp add: send_def)
    next
      case False
      then show ?thesis using sending_invD(4) [OF i u j] ch by (simp split: if_splits)
    qed
  qed
next
  have b: "s < length (hb_chans h)" using sending_invD(4) [OF i f s(1)] by auto
  fix j assume j: "j < length (hb_chans (on_chan s (send e) h))"
  then have j': "j < length (hb_chans h)" by simp
  show "chan_ok (hb_chans (on_chan s (send e) h) ! j)"
    using sending_invD(5) [OF i j'] room chan_on_chan [OF b, of "send e" j]
    by (auto simp: chan_ok_def send_def has_room_def)
  assume "\<not> ch_closed (hb_chans (on_chan s (send e) h) ! j)"
  then show "\<exists>u. find_topic (ch_topic (hb_chans (on_chan s (send e) h) ! j)) (on_chan s (send e) h) = Some u \<and> j \<in> set (tp_subs u)"
    using sending_invD(6) [OF i j'] chan_on_chan [OF b, of "send e" j] by (simp add: send_def split: if_splits)
qed

lemma fold_send_sending:
  assumes "sending_inv S name h" and "find_topic name h = Some t" and "distinct js" and "set js \<subseteq> set (tp_subs t)" and "set js \<subseteq> S"
    and "\<And>j. j \<in> set js \<Longrightarrow> has_room (hb_chans h ! j)" and "last (tp_log t) = e"
  shows "sending_inv (S - set js) name (fold (\<lambda>j. on_chan j (send e)) js h)"
  using assms
proof (induction js arbitrary: S h)
  case (Cons j js)
  have b: "j < length (hb_chans h)" using sending_invD(4) [OF Cons.prems(1,2)] Cons.prems(4) by simp
  have "sending_inv (S - {j} - set js) name (fold (\<lambda>j. on_chan j (send e)) js (on_chan j (send e) h))"
  proof (rule Cons.IH)
    show "sending_inv (S - {j}) name (on_chan j (send e) h)" using Cons.prems by (intro send_sending) auto
    show "has_room (hb_chans (on_chan j (send e) h) ! k)" if "k \<in> set js" for k
      using that Cons.prems(3,6) chan_on_chan [OF b] by auto
  qed (use Cons.prems in auto)
  moreover have "S - {j} - set js = S - set (j # js)" by auto
  ultimately show ?case by simp
qed simp

text \<open>What disconnecting changes: only the channel is closed, and the topic loses the subscriber.\<close>

lemma detach_chans: "hb_chans (detach name i h) = hb_chans (close_chan i h)"
  by (simp add: detach_def close_chan_def on_chan_def Let_def split: option.split)

lemma detach_sel [simp]: "hb_replay (detach name i h) = hb_replay h" "hb_closed (detach name i h) = hb_closed h"
  "length (hb_chans (detach name i h)) = length (hb_chans h)"
  by (simp_all add: detach_def close_chan_def Let_def split: option.split)

lemma find_detach:
  "find_topic n (detach name i h) = Some u \<Longrightarrow>
     (\<exists>t. find_topic n h = Some t \<and> (if n = name then u = t\<lparr>tp_subs := filter (\<lambda>s. s \<noteq> i) (tp_subs t)\<rparr> else u = t))"
  by (auto simp: detach_def close_chan_def Let_def split: option.splits if_splits)

lemma find_detach_keeps:
  "find_topic n h = Some t \<Longrightarrow> j \<in> set (tp_subs t) \<Longrightarrow> j \<noteq> i \<Longrightarrow>
     \<exists>u. find_topic n (detach name i h) = Some u \<and> j \<in> set (tp_subs u)"
  by (cases "find_topic name h")
    (auto simp: detach_def close_chan_def Let_def filter_empty_conv)

lemma detach_sending:
  assumes i: "sending_inv S name h" and b: "i < length (hb_chans h)" and tn: "ch_topic (hb_chans h ! i) = name"
  shows "sending_inv (S - {i}) name (detach name i h)"
  unfolding sending_inv_def
proof (intro conjI allI impI)
  let ?h = "detach name i h"
  have ch: "hb_chans ?h ! j = (if j = i then (hb_chans h ! i)\<lparr>ch_closed := True\<rparr> else hb_chans h ! j)" for j
    using chan_on_chan [OF b] by (simp add: detach_chans close_chan_def)
  show "distinct (map fst (hb_topics ?h))"
    using sending_invD(1) [OF i]
    by (simp add: detach_def close_chan_def Let_def delete_topic_def distinct_delete split: option.split)
  show "hb_topics ?h = []" if "hb_closed ?h"
  proof -
    have e: "hb_topics h = []" using that sending_invD(7) [OF i] by simp
    then have "find_topic name h = None" by (simp add: find_topic_def)
    with e show ?thesis by (simp add: detach_def close_chan_def)
  qed
  fix n u assume u: "find_topic n ?h = Some u"
  then obtain t where t: "find_topic n h = Some t"
    "if n = name then u = t\<lparr>tp_subs := filter (\<lambda>s. s \<noteq> i) (tp_subs t)\<rparr> else u = t" using find_detach by blast
  have eqs: "ring_ok r u = ring_ok r t" "fed u c = fed t c" "lagging u c = lagging t c" for r c
    using t(2) by (simp_all add: ring_ok_def ring_events_def fed_def lagging_def split: if_splits)
  show "ring_ok (hb_replay ?h) u" using eqs sending_invD(2) [OF i t(1)] by simp
  show "distinct (tp_subs u)" using t(2) sending_invD(3) [OF i t(1)] by (simp split: if_splits)
  show "\<forall>j \<in> set (tp_subs u). j < length (hb_chans ?h) \<and> ch_topic (hb_chans ?h ! j) = n \<and> \<not> ch_closed (hb_chans ?h ! j) \<and>
      (if n = name \<and> j \<in> S - {i} then lagging u (hb_chans ?h ! j) else fed u (hb_chans ?h ! j))"
  proof
    fix j assume j: "j \<in> set (tp_subs u)"
    then have jt: "j \<in> set (tp_subs t)" using t(2) by (simp split: if_splits)
    note d = sending_invD(4) [OF i t(1) jt]
    have "j \<noteq> i" using d t(2) j tn by (cases "n = name") auto
    then show "j < length (hb_chans ?h) \<and> ch_topic (hb_chans ?h ! j) = n \<and> \<not> ch_closed (hb_chans ?h ! j) \<and>
      (if n = name \<and> j \<in> S - {i} then lagging u (hb_chans ?h ! j) else fed u (hb_chans ?h ! j))"
      using d ch eqs by simp
  qed
next
  let ?h = "detach name i h"
  have ch: "hb_chans ?h ! j = (if j = i then (hb_chans h ! i)\<lparr>ch_closed := True\<rparr> else hb_chans h ! j)" for j
    using chan_on_chan [OF b] by (simp add: detach_chans close_chan_def)
  fix j assume j: "j < length (hb_chans ?h)"
  then have j': "j < length (hb_chans h)" by simp
  show "chan_ok (hb_chans ?h ! j)" using sending_invD(5) [OF i j'] ch [of j] by (auto simp: chan_ok_def)
  assume "\<not> ch_closed (hb_chans ?h ! j)"
  then have ne: "j \<noteq> i" "\<not> ch_closed (hb_chans h ! j)" using ch [of j] by (auto split: if_splits)
  then show "\<exists>u. find_topic (ch_topic (hb_chans ?h ! j)) ?h = Some u \<and> j \<in> set (tp_subs u)"
    using sending_invD(6) [OF i j' ne(2)] find_detach_keeps ne(1) ch [of j] by auto
qed

lemma fold_detach_sending:
  assumes "sending_inv S name h" and "\<And>j. j \<in> set js \<Longrightarrow> j < length (hb_chans h) \<and> ch_topic (hb_chans h ! j) = name"
  shows "sending_inv (S - set js) name (fold (detach name) js h)"
  using assms
proof (induction js arbitrary: S h)
  case (Cons j js)
  have "sending_inv (S - {j} - set js) name (fold (detach name) js (detach name j h))"
  proof (rule Cons.IH)
    show "sending_inv (S - {j}) name (detach name j h)" using Cons.prems by (intro detach_sending) auto
    show "k < length (hb_chans (detach name j h)) \<and> ch_topic (hb_chans (detach name j h) ! k) = name" if "k \<in> set js" for k
      using that Cons.prems(2) [of k] Cons.prems(2) [of j]
      by (auto simp: detach_chans close_chan_def chan_on_chan)
  qed
  moreover have "S - {j} - set js = S - set (j # js)" by auto
  ultimately show ?case by simp
qed simp

lemma fold_send_sel [simp]:
  "find_topic n (fold (\<lambda>j. on_chan j (send e)) js h) = find_topic n h"
  "length (hb_chans (fold (\<lambda>j. on_chan j (send e)) js h)) = length (hb_chans h)"
  by (induction js arbitrary: h) simp_all

lemma fold_send_topic [simp]:
  "ch_topic (hb_chans (fold (\<lambda>j. on_chan j (send e)) js h) ! i) = ch_topic (hb_chans h ! i)"
proof (induction js arbitrary: h)
  case (Cons j js)
  have "ch_topic (hb_chans (on_chan j (send e) h) ! i) = ch_topic (hb_chans h ! i)"
    by (cases "j < length (hb_chans h)") (auto simp: on_chan_def nth_list_update send_def list_update_beyond)
  with Cons show ?case by simp
qed simp

subsection \<open>Publishing\<close>

lemma publish_open:
  assumes i: "hub_inv h" and o: "\<not> hb_closed h" and g: "hb_replay h \<noteq> 0 \<or> find_topic name h \<noteq> None"
  obtains t1 t2 e h1 h2 where
    "hub_inv h1" "find_topic name h1 = Some t1" "hb_chans h1 = hb_chans h" "hb_replay h1 = hb_replay h" "\<not> hb_closed h1"
    "e = stamp (t1\<lparr>tp_next := (tp_next t1 + 1) mod 2 ^ 64\<rparr>) e0"
    "t2 = (ring_push (hb_replay h) e (t1\<lparr>tp_next := (tp_next t1 + 1) mod 2 ^ 64\<rparr>))\<lparr>tp_log := tp_log t1 @ [e]\<rparr>"
    "h2 = put_topic name t2 h1"
    "publish name e0 h = fold (detach name) (full_subs (tp_subs t2) h2) (send_all e (tp_subs t2) h2)"
    "(h1 = h \<or> get_topic name h = (t1, h1))"
proof (cases "hb_replay h = 0")
  case True
  then obtain t1 where t1: "find_topic name h = Some t1" using g by auto
  show thesis by (rule that [OF i t1 refl refl o refl refl refl]) (use t1 o True in \<open>simp_all add: publish_def Let_def\<close>)
next
  case False
  obtain t1 h1 where gt: "get_topic name h = (t1, h1)" by fastforce
  have "hub_inv h1 \<and> find_topic name h1 = Some t1 \<and> hb_chans h1 = hb_chans h \<and> hb_replay h1 = hb_replay h \<and> \<not> hb_closed h1"
    by (rule get_topic_inv [OF i o gt])
  then have k: "hub_inv h1" "find_topic name h1 = Some t1" "hb_chans h1 = hb_chans h" "hb_replay h1 = hb_replay h" "\<not> hb_closed h1"
    by auto
  show thesis
    by (rule that [OF k refl refl refl]) (use gt o False k in \<open>simp_all add: publish_def Let_def\<close>)
qed

lemma ring_push_sel [simp]: "tp_subs (ring_push r e t) = tp_subs t" "tp_log (ring_push r e t) = tp_log t"
  "tp_next (ring_push r e t) = tp_next t"
  by (simp_all add: ring_push_def)

text \<open>After the event is in the log, every subscriber of the topic is to be served.\<close>

lemma publish_put:
  assumes i: "hub_inv h1" and f: "find_topic name h1 = Some t1" and o: "\<not> hb_closed h1"
    and t2: "t2 = (ring_push (hb_replay h1) e (t1\<lparr>tp_next := (tp_next t1 + 1) mod 2 ^ 64\<rparr>))\<lparr>tp_log := tp_log t1 @ [e]\<rparr>"
  shows "sending_inv (set (tp_subs t2)) name (put_topic name t2 h1)"
proof -
  have s1: "sending_inv {} name h1" using i by (simp add: hub_inv_sending [of _ name])
  show ?thesis
  proof (rule put_topic_sending [OF s1 o])
    show "ring_ok (hb_replay h1) t2" unfolding t2 by (rule ring_push_ok) (rule sending_invD(2) [OF s1 f])
    show "distinct (tp_subs t2)" using sending_invD(3) [OF s1 f] by (simp add: t2)
    show "name = name \<or> set (tp_subs t2) = {}" by simp
    fix j
    show "j < length (hb_chans h1) \<and> ch_topic (hb_chans h1 ! j) = name \<and> \<not> ch_closed (hb_chans h1 ! j) \<and>
       (if name = name \<and> j \<in> set (tp_subs t2) then lagging t2 (hb_chans h1 ! j) else fed t2 (hb_chans h1 ! j))"
      if j: "j \<in> set (tp_subs t2)"
    proof -
      have "j \<in> set (tp_subs t1)" using j by (simp add: t2)
      from sending_invD(4) [OF s1 f this] j show ?thesis by (simp add: t2 fed_def lagging_def)
    qed
    show "j \<in> set (tp_subs t2)" if "j < length (hb_chans h1)" "\<not> ch_closed (hb_chans h1 ! j)" "ch_topic (hb_chans h1 ! j) = name"
      using sending_invD(6) [OF s1 that(1,2)] that(3) f by (simp add: t2)
  qed
qed

lemma publish_inv: "hub_inv h \<Longrightarrow> hub_inv (publish name e0 h)"
proof -
  assume i: "hub_inv h"
  show ?thesis
  proof (cases "hb_closed h \<or> (hb_replay h = 0 \<and> find_topic name h = None)")
    case True
    then show ?thesis using i by (auto simp: publish_def)
  next
    case False
    then have o: "\<not> hb_closed h" and g: "hb_replay h \<noteq> 0 \<or> find_topic name h \<noteq> None" by auto
    from publish_open [OF i o g, of e0] obtain t1 t2 e h1 h2 where k:
      "hub_inv h1" "find_topic name h1 = Some t1" "hb_chans h1 = hb_chans h" "hb_replay h1 = hb_replay h" "\<not> hb_closed h1"
      "t2 = (ring_push (hb_replay h) e (t1\<lparr>tp_next := (tp_next t1 + 1) mod 2 ^ 64\<rparr>))\<lparr>tp_log := tp_log t1 @ [e]\<rparr>"
      "h2 = put_topic name t2 h1"
      "publish name e0 h = fold (detach name) (full_subs (tp_subs t2) h2) (send_all e (tp_subs t2) h2)" by metis
    let ?S = "set (tp_subs t2)"
    let ?ok = "filter (\<lambda>i. has_room (hb_chans h2 ! i)) (tp_subs t2)"
    have s2: "sending_inv ?S name h2" unfolding k(7) by (rule publish_put [OF k(1,2,5)]) (simp add: k)
    have f2: "find_topic name h2 = Some t2" by (simp add: k)
    have "sending_inv (?S - set ?ok) name (send_all e (tp_subs t2) h2)"
      unfolding send_all_def using s2 f2
      by (rule fold_send_sending) (use sending_invD(3) [OF s2 f2] in \<open>auto simp: k(6)\<close>)
    then have "sending_inv (?S - set ?ok - set (full_subs (tp_subs t2) h2)) name (publish name e0 h)"
      unfolding k(8) by (rule fold_detach_sending)
        (use sending_invD(4) [OF s2 f2] in \<open>auto simp: full_subs_def send_all_def\<close>)
    moreover have "?S - set ?ok - set (full_subs (tp_subs t2) h2) = {}" by (auto simp: full_subs_def)
    ultimately show ?thesis by (simp only: hub_inv_sending [of _ name])
  qed
qed

subsection \<open>The other operations\<close>

text \<open>Steps on one channel that touch neither its history nor its connection.\<close>

lemma on_chan_inv:
  assumes i: "hub_inv h" and b: "i < length (hb_chans h)"
    and f: "ch_topic (f (hb_chans h ! i)) = ch_topic (hb_chans h ! i)" "ch_closed (f (hb_chans h ! i)) = ch_closed (hb_chans h ! i)"
      "ch_sent (f (hb_chans h ! i)) = ch_sent (hb_chans h ! i)" "ch_base (f (hb_chans h ! i)) = ch_base (hb_chans h ! i)"
    and ok: "chan_ok (hb_chans h ! i) \<Longrightarrow> chan_ok (f (hb_chans h ! i))"
  shows "hub_inv (on_chan i f h)"
proof -
  have ch: "hb_chans (on_chan i f h) ! j = (if j = i then f (hb_chans h ! i) else hb_chans h ! j)" for j
    by (rule chan_on_chan [OF b])
  have fd: "fed t (hb_chans (on_chan i f h) ! j) = fed t (hb_chans h ! j)" for t j
    using f by (simp add: ch fed_def)
  have tp: "ch_topic (hb_chans (on_chan i f h) ! j) = ch_topic (hb_chans h ! j)"
    "ch_closed (hb_chans (on_chan i f h) ! j) = ch_closed (hb_chans h ! j)" for j using f by (simp_all add: ch)
  have "chan_ok (hb_chans (on_chan i f h) ! j)" if "j < length (hb_chans h)" for j
    using that i ok b by (simp add: ch hub_inv_def)
  then show ?thesis using i unfolding hub_inv_def topic_ok_def by (simp add: fd tp)
qed

lemma receive_inv: "hub_inv h \<Longrightarrow> i < length (hb_chans h) \<Longrightarrow> hub_inv (snd (receive i h))"
  unfolding receive_def
  by (cases "ch_queue (hb_chans h ! i)") (auto intro!: on_chan_inv simp: chan_ok_def)

lemma detach_inv:
  "hub_inv h \<Longrightarrow> i < length (hb_chans h) \<Longrightarrow> ch_topic (hb_chans h ! i) = name \<Longrightarrow> hub_inv (detach name i h)"
  using detach_sending [of "{}" name h i] by (simp add: hub_inv_sending [of _ name])

lemma unsubscribe_inv:
  assumes i: "hub_inv h" and b: "i < length (hb_chans h)"
  shows "hub_inv (unsubscribe i h)"
proof -
  let ?h = "on_chan i (\<lambda>c. c\<lparr>ch_once := True\<rparr>) h"
  have o: "hub_inv ?h" using i b by (intro on_chan_inv) (simp_all add: chan_ok_def)
  have n: "ch_topic (hb_chans ?h ! i) = ch_topic (hb_chans h ! i)" by (simp add: chan_on_chan [OF b])
  have "remove_sub name i ?h = detach name i ?h" for name by (simp add: remove_sub_def detach_def)
  then show ?thesis using detach_inv [OF o _ n] i b by (simp add: unsubscribe_def)
qed

lemma close_chan_nth:
  "i < length (hb_chans h) \<Longrightarrow>
     hb_chans (close_chan j h) ! i = (if i = j then (hb_chans h ! i)\<lparr>ch_closed := True\<rparr> else hb_chans h ! i)"
  by (auto simp: close_chan_def on_chan_def nth_list_update)

lemma close_all_chans:
  "i < length (hb_chans h) \<Longrightarrow> hb_chans (fold close_chan js h) ! i =
     (if i \<in> set js then (hb_chans h ! i)\<lparr>ch_closed := True\<rparr> else hb_chans h ! i)"
proof (induction js arbitrary: h)
  case (Cons j js)
  have "length (hb_chans (close_chan j h)) = length (hb_chans h)" by (simp add: close_chan_def)
  with Cons have "hb_chans (fold close_chan js (close_chan j h)) ! i =
     (if i \<in> set js then (hb_chans (close_chan j h) ! i)\<lparr>ch_closed := True\<rparr> else hb_chans (close_chan j h) ! i)" by simp
  then show ?case using Cons.prems by (simp add: close_chan_nth)
qed simp

lemma close_all_length [simp]: "length (hb_chans (fold close_chan js h)) = length (hb_chans h)"
  by (induction js arbitrary: h) (simp_all add: close_chan_def)

lemma close_hub_chans:
  assumes i: "hub_inv h" and o: "\<not> hb_closed h" and b: "i < length (hb_chans h)"
  shows "hb_chans (close_hub h) ! i = (hb_chans h ! i)\<lparr>ch_closed := True\<rparr>"
proof -
  let ?js = "concat (map (tp_subs \<circ> snd) (hb_topics h))"
  have "i \<in> set ?js" if "\<not> ch_closed (hb_chans h ! i)"
  proof -
    from i b that obtain t where "find_topic (ch_topic (hb_chans h ! i)) h = Some t" "i \<in> set (tp_subs t)"
      unfolding hub_inv_def by blast
    then show ?thesis by (force simp: find_topic_def dest: map_of_SomeD)
  qed
  then have "(hb_chans h ! i)\<lparr>ch_closed := True\<rparr> = hb_chans h ! i" if "i \<notin> set ?js" using that by (cases "hb_chans h ! i") auto
  then show ?thesis using o close_all_chans [OF b, of ?js] by (cases "i \<in> set ?js") (simp_all add: close_hub_def)
qed

lemma close_hub_inv: "hub_inv h \<Longrightarrow> hub_inv (close_hub h)"
proof -
  assume i: "hub_inv h"
  show ?thesis
  proof (cases "hb_closed h")
    case False
    then have s: "hb_topics (close_hub h) = []" "length (hb_chans (close_hub h)) = length (hb_chans h)"
      by (simp_all add: close_hub_def)
    have c: "chan_ok (hb_chans (close_hub h) ! j) \<and> ch_closed (hb_chans (close_hub h) ! j)" if "j < length (hb_chans h)" for j
      using that i by (auto simp: close_hub_chans [OF i False that] hub_inv_def chan_ok_def)
    show ?thesis using s c by (simp add: hub_inv_def find_topic_def)
  qed (use i in \<open>simp add: close_hub_def\<close>)
qed

lemma replayed_length: "ring_ok r t \<Longrightarrow> length (replayed last_id t) \<le> r"
  by (auto simp: replayed_def ring_ok_def intro: le_trans [OF length_filter_le])

lemma subscribe_open:
  assumes i: "hub_inv h" and o: "\<not> hb_closed h"
  obtains t h1 where "hub_inv h1" "find_topic name h1 = Some t" "hb_chans h1 = hb_chans h" "hb_replay h1 = hb_replay h" "\<not> hb_closed h1"
    "get_topic name h = (t, h1)"
    "subscribe name last_id h = (length (hb_chans h), (put_topic name (t\<lparr>tp_subs := tp_subs t @ [length (hb_chans h)]\<rparr>) h1)
       \<lparr>hb_chans := hb_chans h @ [\<lparr>ch_queue = replayed last_id t, ch_cap = max (hb_replay h) min_subscriber_buffer,
          ch_closed = False, ch_once = False, ch_topic = name, ch_sent = replayed last_id t,
          ch_base = (length (tp_log t), replayed last_id t)\<rparr>]\<rparr>)"
proof -
  obtain t h1 where g: "get_topic name h = (t, h1)" by fastforce
  have "hub_inv h1 \<and> find_topic name h1 = Some t \<and> hb_chans h1 = hb_chans h \<and> hb_replay h1 = hb_replay h \<and> \<not> hb_closed h1"
    by (rule get_topic_inv [OF i o g])
  then show thesis using g o by (intro that) (simp_all add: subscribe_def Let_def)
qed

lemma subscribe_inv: "hub_inv h \<Longrightarrow> hub_inv (snd (subscribe name last_id h))"
proof -
  assume i: "hub_inv h"
  show ?thesis
  proof (cases "hb_closed h")
    case True
    let ?c = "\<lparr>ch_queue = [], ch_cap = 0, ch_closed = True, ch_once = True, ch_topic = name, ch_sent = [], ch_base = (0, [])\<rparr>"
    have n: "find_topic m h = None" for m using i True by (simp add: hub_inv_def find_topic_def)
    have "hub_inv (h\<lparr>hb_chans := hb_chans h @ [?c]\<rparr>)"
      using i n by (simp add: hub_inv_def nth_append chan_ok_def less_Suc_eq)
    then show ?thesis using True by (simp add: subscribe_def)
  next
    case False
    from subscribe_open [OF i False, of name last_id] obtain t h1 where k: "hub_inv h1" "find_topic name h1 = Some t"
      "hb_chans h1 = hb_chans h" "hb_replay h1 = hb_replay h" "\<not> hb_closed h1"
      and eq: "snd (subscribe name last_id h) = (put_topic name (t\<lparr>tp_subs := tp_subs t @ [length (hb_chans h)]\<rparr>) h1)
       \<lparr>hb_chans := hb_chans h @ [\<lparr>ch_queue = replayed last_id t, ch_cap = max (hb_replay h) min_subscriber_buffer,
          ch_closed = False, ch_once = False, ch_topic = name, ch_sent = replayed last_id t,
          ch_base = (length (tp_log t), replayed last_id t)\<rparr>]\<rparr>" (is "_ = ?h'")
      by (metis snd_conv)
    let ?n = "length (hb_chans h)"
    let ?t' = "t\<lparr>tp_subs := tp_subs t @ [?n]\<rparr>"
    have s1: "sending_inv {} name h1" using k(1) by (simp add: hub_inv_sending [of _ name])
    have old: "hb_chans ?h' ! j = hb_chans h ! j" if "j < ?n" for j using that by (simp add: nth_append)
    have "hub_inv ?h'"
      unfolding hub_inv_def
    proof (intro conjI allI impI)
      show "distinct (map fst (hb_topics ?h'))" using sending_invD(1) [OF s1] by simp
      show "hb_topics ?h' = []" if "hb_closed ?h'" using that k(5) by simp
      fix m u assume u: "find_topic m ?h' = Some u"
      show "topic_ok ?h' m u"
      proof (cases "m = name")
        case True
        have un: "u = ?t'" using u True by simp
        have eqs: "ring_ok r ?t' = ring_ok r t" "fed ?t' c = fed t c" for r c by (simp_all add: ring_ok_def ring_events_def fed_def)
        have r: "ring_ok (hb_replay h) t" using sending_invD(2) [OF s1 k(2)] k by simp
        have notin: "?n \<notin> set (tp_subs t)" using sending_invD(4) [OF s1 k(2), of ?n] k(3) by auto
        have subs: "j < ?n \<and> ch_topic (hb_chans h ! j) = name \<and> \<not> ch_closed (hb_chans h ! j) \<and> fed t (hb_chans h ! j)"
          if "j \<in> set (tp_subs t)" for j using sending_invD(4) [OF s1 k(2) that] k(3) by simp
        show ?thesis unfolding topic_ok_def un eqs
          using r notin sending_invD(3) [OF s1 k(2)] subs True k by (auto simp: fed_def nth_append less_Suc_eq)
      next
        case False
        then have u': "find_topic m h1 = Some u" using u by simp
        have subs: "j < ?n \<and> ch_topic (hb_chans h ! j) = m \<and> \<not> ch_closed (hb_chans h ! j) \<and> fed u (hb_chans h ! j)"
          if "j \<in> set (tp_subs u)" for j using sending_invD(4) [OF s1 u' that] k(3) by simp
        show ?thesis unfolding topic_ok_def
          using sending_invD(2,3) [OF s1 u'] subs k by (auto simp: nth_append less_Suc_eq)
      qed
    next
      fix j assume j: "j < length (hb_chans ?h')"
      have r: "length (replayed last_id t) \<le> hb_replay h" using sending_invD(2) [OF s1 k(2)] k replayed_length by simp
      then have c: "chan_ok (hb_chans ?h' ! ?n)" by (simp add: chan_ok_def le_max_iff_disj)
      show "chan_ok (hb_chans ?h' ! j)"
      proof (cases "j < ?n")
        case True
        then show ?thesis using sending_invD(5) [OF s1] k(3) old by simp
      qed (use j c in \<open>simp add: less_Suc_eq\<close>)
      assume op: "\<not> ch_closed (hb_chans ?h' ! j)"
      show "\<exists>u. find_topic (ch_topic (hb_chans ?h' ! j)) ?h' = Some u \<and> j \<in> set (tp_subs u)"
      proof (cases "j < ?n")
        case True
        then obtain u where u: "find_topic (ch_topic (hb_chans h ! j)) h1 = Some u" "j \<in> set (tp_subs u)"
          using sending_invD(6) [OF s1, of j] k(3) op old by auto
        then show ?thesis using old [OF True] k(2) by auto
      qed (use j in \<open>simp add: less_Suc_eq\<close>)
    qed
    then show ?thesis by (simp only: eq)
  qed
qed

section \<open>Runs\<close>

datatype 'd hub_op =
  Publish string "'d event" | Subscribe string string | Unsubscribe nat | Receive nat | CloseHub

text \<open>A client has only the channels it was given.\<close>

fun hub_step :: "'d hub_op \<Rightarrow> 'd hub \<Rightarrow> 'd hub" where
  "hub_step (Publish name e) h = publish name e h"
| "hub_step (Subscribe name last_id) h = snd (subscribe name last_id h)"
| "hub_step (Unsubscribe i) h = (if i < length (hb_chans h) then unsubscribe i h else h)"
| "hub_step (Receive i) h = (if i < length (hb_chans h) then snd (receive i h) else h)"
| "hub_step CloseHub h = close_hub h"

definition hub_run :: "int option \<Rightarrow> int option \<Rightarrow> 'd hub_op list \<Rightarrow> 'd hub" where
  "hub_run replay_opt max_opt ops = fold hub_step ops (new_hub replay_opt max_opt)"

lemma hub_step_inv: "hub_inv h \<Longrightarrow> hub_inv (hub_step op h)"
  by (cases op) (simp_all add: publish_inv subscribe_inv unsubscribe_inv receive_inv close_hub_inv)

lemma hub_run_inv: "hub_inv (hub_run r m ops)"
proof -
  have start: "hub_inv (new_hub r m)" by (simp add: hub_inv_def new_hub_def find_topic_def)
  have "hub_inv (fold hub_step ops h)" if "hub_inv h" for h
    using that by (induction ops arbitrary: h) (simp_all add: hub_step_inv)
  then show ?thesis using start by (simp add: hub_run_def)
qed

subsection \<open>What a publication does to each subscriber\<close>

lemma send_all_nth:
  assumes "distinct js" and "i < length (hb_chans h)"
  shows "hb_chans (fold (\<lambda>j. on_chan j (send e)) js h) ! i =
     (if i \<in> set js then send e (hb_chans h ! i) else hb_chans h ! i)"
  using assms
proof (induction js arbitrary: h)
  case (Cons j js)
  have "hb_chans (on_chan j (send e) h) ! i = (if i = j then send e (hb_chans h ! i) else hb_chans h ! i)"
    using Cons.prems by (auto simp: on_chan_def nth_list_update)
  then show ?case using Cons by (simp split: if_splits)
qed simp

lemma fold_detach_chans: "hb_chans (fold (detach name) js h) = hb_chans (fold close_chan js h)"
proof (induction js arbitrary: h)
  case (Cons j js)
  have cong: "hb_chans (fold close_chan js g) = hb_chans (fold close_chan js g')" if "hb_chans g = hb_chans g'" for g g' :: "'a hub"
    using that by (induction js arbitrary: g g') (simp_all add: close_chan_def on_chan_def)
  show ?case using Cons cong [OF detach_chans] by simp
qed simp

lemma get_topic_known:
  "find_topic name h = Some t \<Longrightarrow> get_topic name h = (t', h') \<Longrightarrow> t' = t\<lparr>tp_last_use := hb_use_seq h\<rparr>"
  by (auto simp: get_topic_def Let_def)

lemma publish_effect:
  assumes i: "hub_inv h" and o: "\<not> hb_closed h" and f: "find_topic name h = Some t" and b: "i < length (hb_chans h)"
  shows "hb_chans (publish name e h) ! i =
    (if i \<notin> set (tp_subs t) then hb_chans h ! i
     else if has_room (hb_chans h ! i) then send (stamp (t\<lparr>tp_next := (tp_next t + 1) mod 2 ^ 64\<rparr>) e) (hb_chans h ! i)
     else (hb_chans h ! i)\<lparr>ch_closed := True\<rparr>)"
proof -
  from publish_open [OF i o, of name e] f obtain t1 t2 e' h1 h2 where k:
    "find_topic name h1 = Some t1" "hub_inv h1" "hb_chans h1 = hb_chans h" "hb_replay h1 = hb_replay h"
    "e' = stamp (t1\<lparr>tp_next := (tp_next t1 + 1) mod 2 ^ 64\<rparr>) e"
    "t2 = (ring_push (hb_replay h) e' (t1\<lparr>tp_next := (tp_next t1 + 1) mod 2 ^ 64\<rparr>))\<lparr>tp_log := tp_log t1 @ [e']\<rparr>"
    "h2 = put_topic name t2 h1"
    "publish name e h = fold (detach name) (full_subs (tp_subs t2) h2) (send_all e' (tp_subs t2) h2)"
    "h1 = h \<or> get_topic name h = (t1, h1)" by (metis option.distinct(1))
  have same: "tp_subs t1 = tp_subs t" "tp_next t1 = tp_next t"
    using k(1,9) f get_topic_known [OF f] by auto
  have e': "e' = stamp (t\<lparr>tp_next := (tp_next t + 1) mod 2 ^ 64\<rparr>) e" by (simp add: k(5) stamp_def same)
  have subs: "tp_subs t2 = tp_subs t" and ch: "hb_chans h2 = hb_chans h" by (simp_all add: k same)
  have d: "distinct (tp_subs t)" using i f by (auto simp: hub_inv_def topic_ok_def)
  have snd: "hb_chans (send_all e' (tp_subs t) h2) ! i =
      (if i \<in> set (tp_subs t) \<and> has_room (hb_chans h ! i) then send e' (hb_chans h ! i) else hb_chans h ! i)"
    unfolding send_all_def using b d ch by (subst send_all_nth) auto
  have b2: "i < length (hb_chans (send_all e' (tp_subs t) h2))" using b ch by (simp add: send_all_def)
  have "hb_chans (publish name e h) ! i =
      (if i \<in> set (full_subs (tp_subs t) h2) then (hb_chans (send_all e' (tp_subs t) h2) ! i)\<lparr>ch_closed := True\<rparr>
       else hb_chans (send_all e' (tp_subs t) h2) ! i)"
    unfolding k(8) subs fold_detach_chans by (rule close_all_chans [OF b2])
  then have "hb_chans (publish name e h) ! i =
      (if i \<notin> set (tp_subs t) then hb_chans h ! i
       else if has_room (hb_chans h ! i) then send e' (hb_chans h ! i) else (hb_chans h ! i)\<lparr>ch_closed := True\<rparr>)"
    by (cases "i \<in> set (tp_subs t)"; cases "has_room (hb_chans h ! i)") (simp_all add: snd full_subs_def ch)
  then show ?thesis by (simp only: e')
qed

subsection \<open>Automatic identifiers\<close>

text \<open>\<open>h'\<close> has only topics of \<open>h\<close>, with the same log, and empty new ones.\<close>

definition logs_from :: "'d hub \<Rightarrow> 'd hub \<Rightarrow> bool" where
  "logs_from h h' \<longleftrightarrow> (\<forall>n u. find_topic n h' = Some u \<longrightarrow>
     tp_log u = [] \<or> (\<exists>t. find_topic n h = Some t \<and> tp_log u = tp_log t))"

lemma logs_from_refl [simp]: "logs_from h h"
  by (simp add: logs_from_def)

lemma logs_from_trans: "logs_from h h1 \<Longrightarrow> logs_from h1 h2 \<Longrightarrow> logs_from h h2"
  unfolding logs_from_def by metis

lemma find_evict: "find_topic n (evict_topic h) = Some u \<Longrightarrow> find_topic n h = Some u"
  by (auto simp: evict_topic_def split: if_splits option.splits)

lemma get_topic_logs: "get_topic name h = (t, h') \<Longrightarrow> logs_from h h'"
proof -
  assume g: "get_topic name h = (t, h')"
  define h1 where "h1 = (if find_topic name h = None then put_topic name new_topic (evict_topic h) else h)"
  have 1: "logs_from h h1"
    by (auto simp: h1_def logs_from_def new_topic_def dest: find_evict)
  have "find_topic name h1 \<noteq> None" by (simp add: h1_def)
  then have "logs_from h1 h'"
    using g unfolding get_topic_def Let_def h1_def [symmetric] by (auto simp: logs_from_def split: if_splits)
  with 1 show "logs_from h h'" by (rule logs_from_trans)
qed

lemma detach_logs: "logs_from h (detach name i h)"
  by (auto simp: logs_from_def dest!: find_detach split: if_splits)

lemma fold_detach_logs: "logs_from h (fold (detach name) js h)"
proof (induction js arbitrary: h)
  case (Cons j js)
  then show ?case by (auto intro: logs_from_trans [OF detach_logs])
qed simp

lemma on_chan_logs: "logs_from h (on_chan i f h)"
  by (simp add: logs_from_def)

definition ids_ok :: "'d event list \<Rightarrow> bool" where
  "ids_ok lg \<longleftrightarrow> (\<forall>j < length lg. ev_id (lg ! j) = dec_nat ((j + 1) mod 2 ^ 64))"

definition hub_ids :: "'d hub \<Rightarrow> bool" where
  "hub_ids h \<longleftrightarrow> (\<forall>n t. find_topic n h = Some t \<longrightarrow> ids_ok (tp_log t))"

lemma hub_ids_from: "hub_ids h \<Longrightarrow> logs_from h h' \<Longrightarrow> hub_ids h'"
  unfolding hub_ids_def logs_from_def by (metis ids_ok_def less_nat_zero_code list.size(3))

lemma publish_ids:
  assumes i: "hub_inv h" and ids: "hub_ids h" and auto_id: "ev_id e = []"
  shows "hub_ids (publish name e h)"
proof (cases "hb_closed h \<or> (hb_replay h = 0 \<and> find_topic name h = None)")
  case True
  then show ?thesis using ids by (auto simp: publish_def)
next
  case False
  then have o: "\<not> hb_closed h" and g: "hb_replay h \<noteq> 0 \<or> find_topic name h \<noteq> None" by auto
  from publish_open [OF i o g, of e] obtain t1 t2 e' h1 h2 where k:
    "hub_inv h1" "find_topic name h1 = Some t1"
    "e' = stamp (t1\<lparr>tp_next := (tp_next t1 + 1) mod 2 ^ 64\<rparr>) e"
    "t2 = (ring_push (hb_replay h) e' (t1\<lparr>tp_next := (tp_next t1 + 1) mod 2 ^ 64\<rparr>))\<lparr>tp_log := tp_log t1 @ [e']\<rparr>"
    "h2 = put_topic name t2 h1"
    "publish name e h = fold (detach name) (full_subs (tp_subs t2) h2) (send_all e' (tp_subs t2) h2)"
    "h1 = h \<or> get_topic name h = (t1, h1)" by metis
  have ids1: "hub_ids h1" using k(7) ids get_topic_logs hub_ids_from by blast
  have "tp_next t1 = length (tp_log t1) mod 2 ^ 64" using k(1,2) by (simp add: hub_inv_def topic_ok_def ring_ok_def)
  then have "ev_id e' = dec_nat ((length (tp_log t1) + 1) mod 2 ^ 64)"
    using auto_id by (simp add: k(3) stamp_def mod_Suc_eq)
  moreover have "ids_ok (tp_log t1)" using ids1 k(2) by (simp add: hub_ids_def)
  ultimately have "ids_ok (tp_log t2)" by (auto simp: k(4) ids_ok_def nth_append less_Suc_eq)
  then have "hub_ids h2" using ids1 by (simp add: hub_ids_def k(5))
  moreover have "logs_from h2 (publish name e h)"
    unfolding k(6) by (rule logs_from_trans [OF _ fold_detach_logs]) (simp add: send_all_def logs_from_def)
  ultimately show ?thesis by (rule hub_ids_from)
qed

fun auto_op :: "'d hub_op \<Rightarrow> bool" where
  "auto_op (Publish _ e) \<longleftrightarrow> ev_id e = []"
| "auto_op _ \<longleftrightarrow> True"

lemma subscribe_logs: "logs_from h (snd (subscribe name last_id h))"
proof (cases "hb_closed h")
  case True
  then show ?thesis by (simp add: subscribe_def logs_from_def)
next
  case False
  obtain t h1 where g: "get_topic name h = (t, h1)" by fastforce
  then have "find_topic name h1 = Some t" by (auto simp: get_topic_def Let_def)
  then have "logs_from h1 (snd (subscribe name last_id h))"
    using False g by (auto simp: subscribe_def Let_def logs_from_def)
  then show ?thesis using get_topic_logs [OF g] logs_from_trans by blast
qed

lemma unsubscribe_logs: "logs_from h (unsubscribe i h)"
proof -
  let ?h = "on_chan i (\<lambda>c. c\<lparr>ch_once := True\<rparr>) h"
  have "remove_sub name i ?h = detach name i ?h" for name by (simp add: remove_sub_def detach_def)
  moreover have "logs_from h (detach name i ?h)" for name by (rule logs_from_trans [OF on_chan_logs detach_logs])
  ultimately show ?thesis by (simp add: unsubscribe_def)
qed

lemma step_ids:
  assumes "hub_inv h" and "hub_ids h" and "auto_op op"
  shows "hub_ids (hub_step op h)"
proof (cases op)
  case (Publish n e)
  then show ?thesis using assms by (simp add: publish_ids)
next
  case (Subscribe n l)
  then show ?thesis using assms hub_ids_from [OF _ subscribe_logs] by simp
next
  case (Unsubscribe i)
  have "hub_ids (unsubscribe i h)" using assms(2) unsubscribe_logs by (rule hub_ids_from)
  then show ?thesis using assms Unsubscribe by simp
next
  case (Receive i)
  have "logs_from h (snd (receive i h))" by (cases "ch_queue (hb_chans h ! i)") (simp_all add: receive_def on_chan_logs)
  with assms(2) have "hub_ids (snd (receive i h))" by (rule hub_ids_from)
  then show ?thesis using assms Receive by simp
next
  case CloseHub
  have "logs_from h (close_hub h)" by (simp add: close_hub_def logs_from_def find_topic_def)
  with assms(2) have "hub_ids (close_hub h)" by (rule hub_ids_from)
  then show ?thesis using CloseHub by simp
qed

lemma hub_run_ids:
  assumes "list_all auto_op ops"
  shows "hub_ids (hub_run r m ops)"
proof -
  have start: "hub_inv (new_hub r m)" "hub_ids (new_hub r m)"
    by (simp_all add: hub_inv_def hub_ids_def new_hub_def find_topic_def)
  have "hub_ids (fold hub_step ops h)" if "hub_inv h" "hub_ids h" for h
    using assms that by (induction ops arbitrary: h) (simp_all add: hub_step_inv step_ids)
  then show ?thesis using start by (simp add: hub_run_def)
qed

text \<open>A concrete run: two events before the subscription, one after it, one of them received.\<close>

abbreviation demo_event :: "string \<Rightarrow> nat event" where
  "demo_event n \<equiv> \<lparr>ev_id = [], ev_name = n, ev_data = 0\<rparr>"

definition demo_hub_ops :: "nat hub_op list" where
  "demo_hub_ops = [Publish ''t'' (demo_event ''a''), Publish ''t'' (demo_event ''b''), Subscribe ''t'' (dec_nat 1),
     Publish ''t'' (demo_event ''c''), Receive 0]"

lemma demo_hub:
  "hb_chans (hub_run (Some 2) None demo_hub_ops) =
     [\<lparr>ch_queue = [\<lparr>ev_id = dec_nat 3, ev_name = ''c'', ev_data = 0\<rparr>], ch_cap = 16, ch_closed = False, ch_once = False,
       ch_topic = ''t'', ch_sent = [\<lparr>ev_id = dec_nat 2, ev_name = ''b'', ev_data = 0\<rparr>, \<lparr>ev_id = dec_nat 3, ev_name = ''c'', ev_data = 0\<rparr>],
       ch_base = (2, [\<lparr>ev_id = dec_nat 2, ev_name = ''b'', ev_data = 0\<rparr>])\<rparr>]"
  "hb_closed (hub_run (Some 2) None demo_hub_ops) = False" "hb_replay (hub_run (Some 2) None demo_hub_ops) = 2"
  "\<exists>t. find_topic ''t'' (hub_run (Some 2) None demo_hub_ops) = Some t \<and> tp_subs t = [0] \<and>
     tp_log t = map (\<lambda>(n, s). \<lparr>ev_id = dec_nat n, ev_name = s, ev_data = 0\<rparr>) [(1, ''a''), (2, ''b''), (3, ''c'')]"
  by (simp_all add: hub_run_def demo_hub_ops_def new_hub_def publish_def subscribe_def receive_def get_topic_def find_topic_def
      put_topic_def new_topic_def Let_def stamp_def ring_push_def send_all_def full_subs_def has_room_def send_def on_chan_def
      min_subscriber_buffer_def replayed_def ring_events_def after_last_id_def parse_uint_dec_nat dec_nat_not_Nil evict_topic_def
      upt_conv_Cons flip: numeral_2_eq_2)

subsection \<open>What a subscriber receives\<close>

text \<open>What the receives from channel \<open>i\<close> return in a run from \<open>h\<close>, and the events published to a topic.\<close>

definition receives :: "nat \<Rightarrow> 'd hub_op \<Rightarrow> 'd hub \<Rightarrow> 'd event list" where
  "receives i op h =
     (case op of
        Receive j \<Rightarrow>
          if j = i \<and> i < length (hb_chans h) then (case fst (receive i h) of Some e \<Rightarrow> [e] | None \<Rightarrow> []) else []
      | _ \<Rightarrow> [])"

fun received_by :: "nat \<Rightarrow> 'd hub_op list \<Rightarrow> 'd hub \<Rightarrow> 'd event list" where
  "received_by i [] h = []"
| "received_by i (op # ops) h = receives i op h @ received_by i ops (hub_step op h)"

definition published :: "string \<Rightarrow> 'd hub_op list \<Rightarrow> 'd event list" where
  "published name ops = concat (map (\<lambda>op. case op of Publish n e \<Rightarrow> if n = name then [e] else [] | _ \<Rightarrow> []) ops)"

text \<open>An event as it is delivered: with an identifier if it had none.\<close>

definition stamped :: "'d event \<Rightarrow> 'd event \<Rightarrow> bool" where
  "stamped e e' \<longleftrightarrow> ev_name e' = ev_name e \<and> ev_data e' = ev_data e \<and> ev_id e' \<noteq> [] \<and> (ev_id e = [] \<or> ev_id e' = ev_id e)"

lemma stamped_stamp: "stamped e (stamp t e)"
  by (simp add: stamped_def stamp_def dec_nat_not_Nil)

lemma publish_other:
  assumes i: "hub_inv h" and b: "i < length (hb_chans h)" and n: "ch_closed (hb_chans h ! i) \<or> ch_topic (hb_chans h ! i) \<noteq> name"
  shows "hb_chans (publish name e h) ! i = hb_chans h ! i"
proof (cases "hb_closed h \<or> hb_replay h = 0 \<and> find_topic name h = None")
  case True
  then show ?thesis by (auto simp: publish_def)
next
  case False
  then have o: "\<not> hb_closed h" and g: "hb_replay h \<noteq> 0 \<or> find_topic name h \<noteq> None" by auto
  show ?thesis
  proof (cases "find_topic name h")
    case None
    from publish_open [OF i o g, of e] obtain t1 t2 e' h1 h2 where k:
      "hb_chans h1 = hb_chans h" "t2 = (ring_push (hb_replay h) e' (t1\<lparr>tp_next := (tp_next t1 + 1) mod 2 ^ 64\<rparr>))\<lparr>tp_log := tp_log t1 @ [e']\<rparr>"
      "h2 = put_topic name t2 h1" "publish name e h = fold (detach name) (full_subs (tp_subs t2) h2) (send_all e' (tp_subs t2) h2)"
      "h1 = h \<or> get_topic name h = (t1, h1)" "find_topic name h1 = Some t1" by metis
    have "get_topic name h = (t1, h1)" using k(5,6) None by auto
    then have "tp_subs t1 = []" using None by (auto simp: get_topic_def Let_def new_topic_def)
    then have "tp_subs t2 = []" by (simp add: k(2))
    then show ?thesis by (simp add: k(4) full_subs_def send_all_def k(3) k(1))
  next
    case (Some t)
    have "i \<notin> set (tp_subs t)" using i Some n by (auto simp: hub_inv_def topic_ok_def)
    then show ?thesis using publish_effect [OF i o Some b] by simp
  qed
qed

lemma unsubscribe_chan:
  assumes "j < length (hb_chans h)" "i < length (hb_chans h)"
  shows "\<exists>cl once. hb_chans (unsubscribe j h) ! i = (hb_chans h ! i)\<lparr>ch_closed := cl, ch_once := once\<rparr> \<and> (ch_closed (hb_chans h ! i) \<longrightarrow> cl)"
proof (cases "ch_once (hb_chans h ! j)")
  case True
  then show ?thesis unfolding unsubscribe_def
    by (intro exI [of _ "ch_closed (hb_chans h ! i)"] exI [of _ "ch_once (hb_chans h ! i)"]) simp
next
  case False
  let ?h = "on_chan j (\<lambda>c. c\<lparr>ch_once := True\<rparr>) h"
  have "remove_sub name j ?h = detach name j ?h" for name by (simp add: remove_sub_def detach_def)
  then have "hb_chans (unsubscribe j h) = hb_chans (close_chan j ?h)" using False by (simp add: unsubscribe_def detach_chans)
  then have c: "hb_chans (unsubscribe j h) ! i = (if i = j then (hb_chans h ! i)\<lparr>ch_closed := True, ch_once := True\<rparr> else hb_chans h ! i)"
    using assms by (simp add: close_chan_nth chan_on_chan)
  show ?thesis
  proof (cases "i = j")
    case True
    then show ?thesis using c by (intro exI [of _ True]) auto
  next
    case False
    then have "hb_chans (unsubscribe j h) ! i = (hb_chans h ! i)\<lparr>ch_closed := ch_closed (hb_chans h ! i), ch_once := ch_once (hb_chans h ! i)\<rparr>"
      using c by simp
    then show ?thesis by blast
  qed
qed

lemma subscribe_chan:
  assumes i: "hub_inv h" and b: "i < length (hb_chans h)"
  shows "hb_chans (snd (subscribe name last_id h)) ! i = hb_chans h ! i \<and> i < length (hb_chans (snd (subscribe name last_id h)))"
proof (cases "hb_closed h")
  case True
  then show ?thesis using b by (simp add: subscribe_def nth_append)
next
  case False
  show ?thesis by (rule subscribe_open [OF i False, of name last_id]) (use b in \<open>simp add: nth_append\<close>)
qed

lemma publish_length: "hub_inv h \<Longrightarrow> length (hb_chans (publish name e h)) = length (hb_chans h)"
proof -
  assume inv_h: "hub_inv h"
  show ?thesis
  proof (cases "hb_closed h \<or> hb_replay h = 0 \<and> find_topic name h = None")
    case True
    then show ?thesis by (auto simp: publish_def)
  next
    case False
    then have "\<not> hb_closed h" "hb_replay h \<noteq> 0 \<or> find_topic name h \<noteq> None" by auto
    from publish_open [OF inv_h this, of e] obtain t1 t2 e' h1 h2 where
      "hb_chans h1 = hb_chans h" "h2 = put_topic name t2 h1"
      "publish name e h = fold (detach name) (full_subs (tp_subs t2) h2) (send_all e' (tp_subs t2) h2)" by metis
    then show ?thesis by (simp add: fold_detach_chans send_all_def)
  qed
qed

text \<open>
  What one step does to a channel: its topic and capacity stay, it never opens again, and it gets the event that the step
  publishes to its topic, unless it is closed or is full and closed now.
\<close>

definition chan_step :: "nat \<Rightarrow> 'd hub_op \<Rightarrow> 'd hub \<Rightarrow> bool" where
  "chan_step i op h \<longleftrightarrow>
     (let c = hb_chans h ! i; c' = hb_chans (hub_step op h) ! i in
      i < length (hb_chans (hub_step op h)) \<and> ch_topic c' = ch_topic c \<and> ch_cap c' = ch_cap c \<and> (ch_closed c \<longrightarrow> ch_closed c') \<and>
      (\<exists>es. receives i op h @ ch_queue c' = ch_queue c @ es \<and> (ch_closed c' \<longrightarrow> es = []) \<and>
         (\<not> ch_closed c' \<longrightarrow> list_all2 stamped (published (ch_topic c) [op]) es)))"

lemma publish_chan:
  assumes inv_h: "hub_inv h" and b: "i < length (hb_chans h)"
  shows "chan_step i (Publish n e) h"
proof (cases "ch_closed (hb_chans h ! i) \<or> ch_topic (hb_chans h ! i) \<noteq> n")
  case True
  then show ?thesis using publish_other [OF inv_h b True, of e] b
    by (auto simp: chan_step_def publish_length [OF inv_h] receives_def published_def)
next
  case False
  then obtain t where t: "find_topic n h = Some t" "i \<in> set (tp_subs t)" using inv_h b by (auto simp: hub_inv_def)
  then have o: "\<not> hb_closed h" using inv_h by (auto simp: hub_inv_def find_topic_def)
  let ?e = "stamp (t\<lparr>tp_next := (tp_next t + 1) mod 2 ^ 64\<rparr>) e"
  from publish_effect [OF inv_h o t(1) b, of e] t(2)
  have c: "hb_chans (publish n e h) ! i =
      (if has_room (hb_chans h ! i) then send ?e (hb_chans h ! i) else (hb_chans h ! i)\<lparr>ch_closed := True\<rparr>)" by simp
  show ?thesis
  proof (cases "has_room (hb_chans h ! i)")
    case True
    then show ?thesis using False c b
      by (auto simp: chan_step_def publish_length [OF inv_h] receives_def published_def send_def stamped_stamp Let_def intro!: exI [of _ "[?e]"])
  next
    case nr: False
    then show ?thesis using False c b
      by (auto simp: chan_step_def publish_length [OF inv_h] receives_def published_def)
  qed
qed

lemma step_chan:
  assumes inv_h: "hub_inv h" and b: "i < length (hb_chans h)"
  shows "chan_step i op h"
proof (cases op)
  case (Publish n e)
  then show ?thesis using publish_chan [OF assms] by simp
next
  case (Subscribe n l)
  then show ?thesis using subscribe_chan [OF assms, of n l] by (simp add: chan_step_def receives_def published_def)
next
  case (Unsubscribe j)
  show ?thesis
  proof (cases "j < length (hb_chans h)")
    case True
    obtain cl once where c: "hb_chans (unsubscribe j h) ! i = (hb_chans h ! i)\<lparr>ch_closed := cl, ch_once := once\<rparr>"
        "ch_closed (hb_chans h ! i) \<longrightarrow> cl"
      using unsubscribe_chan [OF True b] by blast
    have "length (hb_chans (unsubscribe j h)) = length (hb_chans h)"
      by (simp add: unsubscribe_def remove_sub_def close_chan_def)
    then show ?thesis using Unsubscribe True c b by (simp add: chan_step_def receives_def published_def)
  qed (use Unsubscribe b in \<open>simp add: chan_step_def receives_def published_def\<close>)
next
  case (Receive j)
  show ?thesis
  proof (cases "j < length (hb_chans h)")
    case True
    show ?thesis
    proof (cases "ch_queue (hb_chans h ! j)")
      case Nil
      then show ?thesis using Receive b True by (auto simp: chan_step_def receives_def published_def receive_def)
    next
      case (Cons e es)
      then show ?thesis using Receive b True
        by (auto simp: chan_step_def receives_def published_def receive_def chan_on_chan [OF True] Let_def)
    qed
  qed (use Receive b in \<open>auto simp: chan_step_def receives_def published_def\<close>)
next
  case CloseHub
  show ?thesis
  proof (cases "hb_closed h")
    case True
    then show ?thesis using CloseHub b by (simp add: close_hub_def chan_step_def receives_def published_def)
  next
    case False
    have "length (hb_chans (close_hub h)) = length (hb_chans h)" by (simp add: close_hub_def)
    then show ?thesis using CloseHub b close_hub_chans [OF inv_h False b] by (simp add: chan_step_def receives_def published_def)
  qed
qed

lemma run_chan:
  assumes "hub_inv h" "i < length (hb_chans h)"
  shows "let c = hb_chans h ! i; c' = hb_chans (fold hub_step ops h) ! i in
    i < length (hb_chans (fold hub_step ops h)) \<and> ch_topic c' = ch_topic c \<and> ch_cap c' = ch_cap c \<and> (ch_closed c \<longrightarrow> ch_closed c') \<and>
    (\<exists>es k. received_by i ops h @ ch_queue c' = ch_queue c @ es \<and> (ch_closed c \<longrightarrow> es = []) \<and>
       list_all2 stamped (take k (published (ch_topic c) ops)) es \<and> (\<not> ch_closed c' \<longrightarrow> length (published (ch_topic c) ops) \<le> k))"
  using assms
proof (induction ops arbitrary: h)
  case Nil
  then show ?case by (auto simp: published_def Let_def intro!: exI [of _ "[]"])
next
  case (Cons op ops)
  let ?h = "hub_step op h" and ?c = "hb_chans h ! i" and ?c1 = "hb_chans (hub_step op h) ! i"
  let ?c' = "hb_chans (fold hub_step ops (hub_step op h)) ! i"
  from step_chan [OF Cons.prems, of op] obtain es where s: "i < length (hb_chans ?h)" "ch_topic ?c1 = ch_topic ?c" "ch_cap ?c1 = ch_cap ?c"
      "ch_closed ?c \<longrightarrow> ch_closed ?c1" "receives i op h @ ch_queue ?c1 = ch_queue ?c @ es" "ch_closed ?c1 \<longrightarrow> es = []"
      "\<not> ch_closed ?c1 \<longrightarrow> list_all2 stamped (published (ch_topic ?c) [op]) es"
    by (auto simp: chan_step_def Let_def)
  from Cons.IH [OF hub_step_inv [OF Cons.prems(1)] s(1)] obtain es' k where r: "i < length (hb_chans (fold hub_step ops ?h))"
      "ch_topic ?c' = ch_topic ?c" "ch_cap ?c' = ch_cap ?c" "ch_closed ?c1 \<longrightarrow> ch_closed ?c'"
      "received_by i ops ?h @ ch_queue ?c' = ch_queue ?c1 @ es'" "ch_closed ?c1 \<longrightarrow> es' = []"
      "list_all2 stamped (take k (published (ch_topic ?c) ops)) es'" "\<not> ch_closed ?c' \<longrightarrow> length (published (ch_topic ?c) ops) \<le> k"
    by (auto simp: Let_def s(2,3))
  have pub: "published (ch_topic ?c) (op # ops) = published (ch_topic ?c) [op] @ published (ch_topic ?c) ops" by (simp add: published_def)
  have all: "received_by i (op # ops) h @ ch_queue ?c' = ch_queue ?c @ es @ es'"
    using s(5) r(5) by (metis append_assoc received_by.simps(2))
  show ?case
  proof (cases "ch_closed ?c1")
    case True
    then have "es @ es' = []" using s(6) r(6) by simp
    then show ?thesis using all s(4) r(1-4) True unfolding Let_def
      by (intro conjI exI [of _ "[] :: 'a event list"] exI [of _ "0 :: nat"]) simp_all
  next
    case False
    have len: "length (published (ch_topic ?c) [op]) = length es" using s(7) False by (auto dest: list_all2_lengthD)
    have "list_all2 stamped (take (length es + k) (published (ch_topic ?c) (op # ops))) (es @ es')"
      unfolding pub take_append len [symmetric] using s(7) r(7) False by (intro list_all2_appendI) simp_all
    moreover have "ch_closed ?c \<longrightarrow> es @ es' = []" using s(4) False by simp
    moreover have "\<not> ch_closed ?c' \<longrightarrow> length (published (ch_topic ?c) (op # ops)) \<le> length es + k"
      using r(8) len by (simp add: pub)
    ultimately show ?thesis using all s(4) r(1-4) unfolding Let_def
      by (intro conjI exI [of _ "es @ es'"] exI [of _ "length es + k"]) (simp_all add: False)
  qed
qed

text \<open>C20: In every run of a hub, with any operations before and after it, a subscription delivers its replay, what the ring of the
  topic holds after the client's last event, and then every event published to the topic, in order and without a gap: what the
  client's receives have returned, followed by what waits in its channel, which never holds more than its capacity. A client that
  is disconnected has got a prefix of that: nothing from the middle is ever dropped.\<close>

theorem hub_delivery:
  assumes "\<not> hb_closed (hub_run r m before)" and "subscribe name last_id (hub_run r m before) = (i, h)"
    and "c = hb_chans (fold hub_step ops h) ! i"
  shows "\<exists>replay es k. received_by i ops h @ ch_queue c = replay @ es \<and>
    replay = (case find_topic name (hub_run r m before) of None \<Rightarrow> [] | Some t \<Rightarrow> replayed last_id t) \<and>
    list_all2 stamped (take k (published name ops)) es \<and> (\<not> ch_closed c \<longrightarrow> length (published name ops) \<le> k) \<and>
    length (ch_queue c) \<le> ch_cap c \<and> ch_cap c = max (hb_replay (hub_run r m before)) min_subscriber_buffer"
proof -
  let ?h0 = "hub_run r m before"
  have inv0: "hub_inv ?h0" by (rule hub_run_inv)
  have inv_h: "hub_inv h" using subscribe_inv [OF inv0, of name last_id] assms(2) by simp
  obtain t h1 where t: "get_topic name ?h0 = (t, h1)" "i = length (hb_chans ?h0)"
      "hb_chans h = hb_chans ?h0 @ [\<lparr>ch_queue = replayed last_id t, ch_cap = max (hb_replay ?h0) min_subscriber_buffer,
          ch_closed = False, ch_once = False, ch_topic = name, ch_sent = replayed last_id t,
          ch_base = (length (tp_log t), replayed last_id t)\<rparr>]"
    by (rule subscribe_open [OF inv0 assms(1), of name last_id]) (use assms(2) in auto)
  have replay: "replayed last_id t = (case find_topic name ?h0 of None \<Rightarrow> [] | Some t \<Rightarrow> replayed last_id t)"
  proof (cases "find_topic name ?h0")
    case None
    then have "tp_buf t = []" using t(1) by (auto simp: get_topic_def Let_def new_topic_def)
    then show ?thesis using None by (simp add: replayed_def ring_events_def)
  next
    case (Some u)
    then show ?thesis using get_topic_known [OF Some t(1)] by (simp add: replayed_def ring_events_def)
  qed
  have b: "i < length (hb_chans h)" by (simp add: t)
  have ci: "hb_chans h ! i = \<lparr>ch_queue = replayed last_id t, ch_cap = max (hb_replay ?h0) min_subscriber_buffer,
          ch_closed = False, ch_once = False, ch_topic = name, ch_sent = replayed last_id t,
          ch_base = (length (tp_log t), replayed last_id t)\<rparr>" by (simp add: t)
  from run_chan [OF inv_h b, of ops] obtain es k where r: "i < length (hb_chans (fold hub_step ops h))"
      "ch_cap c = max (hb_replay ?h0) min_subscriber_buffer"
      "received_by i ops h @ ch_queue c = replayed last_id t @ es" "list_all2 stamped (take k (published name ops)) es"
      "\<not> ch_closed c \<longrightarrow> length (published name ops) \<le> k"
    unfolding Let_def assms(3) [symmetric] ci by auto
  have "hub_inv (fold hub_step ops h)" using inv_h by (induction ops arbitrary: h) (simp_all add: hub_step_inv)
  then have "length (ch_queue c) \<le> ch_cap c" using r(1) assms(3) by (simp add: hub_inv_def chan_ok_def)
  then show ?thesis using r(2-5) replay by blast
qed

text \<open>Two events before the subscription, of which the second is replayed, and one after it; two receives.\<close>

theorem hub_delivery_witness:
  "\<exists>i h es k. subscribe ''t'' (dec_nat 1) (hub_run (Some 2) None [Publish ''t'' (demo_event ''a''), Publish ''t'' (demo_event ''b'')]) = (i, h) \<and>
     received_by i [Publish ''t'' (demo_event ''c''), Receive 0, Receive 0] h @
       ch_queue (hb_chans (fold hub_step [Publish ''t'' (demo_event ''c''), Receive 0, Receive 0] h) ! i) =
       \<lparr>ev_id = dec_nat 2, ev_name = ''b'', ev_data = 0\<rparr> # es \<and>
     list_all2 stamped (take k [demo_event ''c'']) es"
proof -
  let ?before = "[Publish ''t'' (demo_event ''a''), Publish ''t'' (demo_event ''b'')]"
  let ?ops = "[Publish ''t'' (demo_event ''c''), Receive 0, Receive 0]"
  obtain i h where s: "subscribe ''t'' (dec_nat 1) (hub_run (Some 2) None ?before) = (i, h)" by fastforce
  note defs = hub_run_def new_hub_def publish_def get_topic_def find_topic_def
      put_topic_def new_topic_def Let_def stamp_def ring_push_def send_all_def full_subs_def
      replayed_def ring_events_def after_last_id_def parse_uint_dec_nat dec_nat_not_Nil evict_topic_def
      upt_conv_Cons numeral_2_eq_2 [symmetric]
  have o: "\<not> hb_closed (hub_run (Some 2) None ?before)" by (simp add: defs)
  have rep: "(case find_topic ''t'' (hub_run (Some 2) None ?before) of None \<Rightarrow> [] | Some t \<Rightarrow> replayed (dec_nat 1) t) =
      [\<lparr>ev_id = dec_nat 2, ev_name = ''b'', ev_data = 0\<rparr>]" by (simp add: defs)
  have p: "published ''t'' ?ops = [demo_event ''c'']" by (simp add: published_def)
  from hub_delivery [OF o s refl, of ?ops, unfolded rep p] s show ?thesis by auto
qed

text \<open>Publishing, in every state a hub can reach: each subscriber of the topic with room in its channel gets
  the event, with its number if it had no identifier; a subscriber whose channel is full is disconnected and
  nothing is lost from what it already had; no other channel changes.\<close>

lemma hub_publish:
  fixes r m :: "int option" and ops :: "'d hub_op list"
  defines "h \<equiv> hub_run r m ops"
  assumes "\<not> hb_closed h" and "find_topic name h = Some t" and "i < length (hb_chans h)"
  shows "hb_chans (publish name e h) ! i =
    (if i \<notin> set (tp_subs t) then hb_chans h ! i
     else if has_room (hb_chans h ! i) then send (stamp (t\<lparr>tp_next := (tp_next t + 1) mod 2 ^ 64\<rparr>) e) (hb_chans h ! i)
     else (hb_chans h ! i)\<lparr>ch_closed := True\<rparr>)"
  using hub_run_inv assms by (intro publish_effect) simp_all

lemma hub_publish_witness:
  "\<exists>t. hb_chans (publish ''t'' (demo_event ''d'') (hub_run (Some 2) None demo_hub_ops)) ! 0 =
     send (stamp (t\<lparr>tp_next := (tp_next t + 1) mod 2 ^ 64\<rparr>) (demo_event ''d'')) (hb_chans (hub_run (Some 2) None demo_hub_ops) ! 0)"
proof -
  obtain t where t: "find_topic ''t'' (hub_run (Some 2) None demo_hub_ops) = Some t" "tp_subs t = [0]" using demo_hub(4) by blast
  have "0 < length (hb_chans (hub_run (Some 2) None demo_hub_ops))" "has_room (hb_chans (hub_run (Some 2) None demo_hub_ops) ! 0)"
    by (simp_all add: demo_hub has_room_def)
  then show ?thesis using hub_publish [OF _ t(1), of 0 "demo_event ''d''"] demo_hub(2) t(2) by auto
qed

lemma filter_suffix: "(\<And>j. j < length xs \<Longrightarrow> P (xs ! j) \<longleftrightarrow> m \<le> j) \<Longrightarrow> filter P xs = drop m xs"
proof (induction xs arbitrary: m)
  case (Cons x xs)
  have tl: "P (xs ! j) \<longleftrightarrow> m - 1 \<le> j" if "j < length xs" for j
    using Cons.prems [of "Suc j"] that by auto
  have "filter P xs = drop (m - 1) xs" using Cons.IH tl by blast
  moreover have "P x \<longleftrightarrow> m = 0" using Cons.prems [of 0] by simp
  ultimately show ?case by (cases m) auto
qed simp

lemma filter_after:
  assumes "ids_ok lg" and "length lg < 2 ^ 64" and "k \<le> length lg"
  shows "filter (\<lambda>e. after_last_id (ev_id e) (dec_nat k)) (drop d lg) = drop (max k d) lg"
proof -
  have "filter (\<lambda>e. after_last_id (ev_id e) (dec_nat k)) (drop d lg) = drop (k - d) (drop d lg)"
  proof (rule filter_suffix)
    fix j assume "j < length (drop d lg)"
    then have j: "d + j < length lg" by simp
    then have "ev_id (drop d lg ! j) = dec_nat (d + j + 1)" using assms(1,2) by (simp add: ids_ok_def)
    moreover have "parse_uint (dec_nat (d + j + 1)) = Some (d + j + 1)" using j assms(2) by (intro parse_uint_dec_nat) simp
    moreover have "parse_uint (dec_nat k) = Some k" using assms(2,3) by (intro parse_uint_dec_nat) simp
    ultimately show "after_last_id (ev_id (drop d lg ! j)) (dec_nat k) \<longleftrightarrow> k - d \<le> j"
      by (auto simp: after_last_id_def)
  qed
  then show ?thesis by (simp add: max_def)
qed

text \<open>Resuming: when the hub numbers the events itself, a client that reconnects with the number of the last
  event it saw is sent exactly the later events of the topic, oldest first, as many of them as the replay
  buffer keeps; with a buffer that has not overflowed since, none is missing and none is sent twice.\<close>

lemma hub_resume:
  fixes r m :: "int option" and ops :: "'d hub_op list"
  defines "h \<equiv> hub_run r m ops"
  assumes ops: "list_all auto_op ops" and o: "\<not> hb_closed h" and f: "find_topic name h = Some t"
    and l: "length (tp_log t) < 2 ^ 64" "k \<le> length (tp_log t)"
    and s: "subscribe name (dec_nat k) h = (i, h')"
  shows "i < length (hb_chans h') \<and>
    ch_queue (hb_chans h' ! i) = drop (max k (length (tp_log t) - hb_replay h)) (tp_log t)"
proof -
  have inv: "hub_inv h" and ids: "ids_ok (tp_log t)"
    using hub_run_inv [of r m ops] hub_run_ids [OF ops, of r m] f by (simp_all add: h_def hub_ids_def)
  obtain t1 h1 where k: "hub_inv h1" "find_topic name h1 = Some t1"
    "hb_replay h1 = hb_replay h" "get_topic name h = (t1, h1)"
    and eq: "i = length (hb_chans h)" "length (hb_chans h') = length (hb_chans h) + 1"
      "ch_queue (hb_chans h' ! i) = replayed (dec_nat k) t1"
    by (rule subscribe_open [OF inv o, of name "dec_nat k"]) (use s in auto)
  have log: "tp_log t1 = tp_log t" using get_topic_known [OF f k(4)] by simp
  have "ring_events t1 = drop (length (tp_log t) - hb_replay h) (tp_log t)"
    using k(1-3) log by (simp add: hub_inv_def topic_ok_def ring_ok_def)
  then have "replayed (dec_nat k) t1 = drop (max k (length (tp_log t) - hb_replay h)) (tp_log t)"
    using filter_after [OF ids l] by (simp add: replayed_def dec_nat_not_Nil)
  with eq show ?thesis by simp
qed

lemma hub_resume_witness:
  "\<exists>(t :: nat topic) i h'. tp_log t = map (\<lambda>(n, s). \<lparr>ev_id = dec_nat n, ev_name = s, ev_data = 0\<rparr>) [(1, ''a''), (2, ''b''), (3, ''c'')] \<and>
     subscribe ''t'' (dec_nat 1) (hub_run (Some 2) None demo_hub_ops) = (i, h') \<and>
     ch_queue (hb_chans h' ! i) = drop 1 (tp_log t)"
proof -
  obtain t where t: "find_topic ''t'' (hub_run (Some 2) None demo_hub_ops) = Some t"
    "tp_log t = map (\<lambda>(n, s). \<lparr>ev_id = dec_nat n, ev_name = s, ev_data = 0\<rparr>) [(1, ''a''), (2, ''b''), (3, ''c'')]"
    using demo_hub(4) by blast
  obtain i h' where s: "subscribe ''t'' (dec_nat 1) (hub_run (Some 2) None demo_hub_ops) = (i, h')" by fastforce
  have "list_all auto_op demo_hub_ops" by (simp add: demo_hub_ops_def)
  from hub_resume [OF this _ t(1) _ _ s] demo_hub(2,3) t(2)
  have "ch_queue (hb_chans h' ! i) = drop 1 (tp_log t)" by simp
  then show ?thesis using s t(2) by blast
qed

end
