(* ===== verification/Session.thy ===== *)
theory Session
  imports CacheMemory Codec
begin

text \<open>
  \<open>session/session.go\<close>: sessions kept in a store under a random identifier that the cookie carries.
  The middleware loads the session, the handler changes it, and \<open>commit\<close> runs just before the response
  headers are written. The random identifier is an argument of \<open>commit\<close>, the clock an argument of each
  step. The JSON encoding of the stored record is a parameter that decodes what it encoded; values
  are kept encoded, as in the code. Logging is left out.
\<close>

section \<open>Configuration\<close>

record session_config =
  sn_cookie :: string
  sn_ttl :: duration
  sn_path :: string
  sn_domain :: string
  sn_same_site :: int
  sn_insecure :: bool

definition session_pfx :: string where "session_pfx = ''torge:session:''"

definition same_site_lax :: int where "same_site_lax = 2"

definition new_sessions :: "session_config \<Rightarrow> session_config" where
  "new_sessions c =
     c\<lparr>sn_cookie := (if sn_cookie c = [] then ''torge_session'' else sn_cookie c),
       sn_ttl := (if sn_ttl c \<le> 0 then 24 * 3600 * 1000000000 else sn_ttl c),
       sn_path := (if sn_path c = [] then ''/'' else sn_path c),
       sn_same_site := (if sn_same_site c = 0 then same_site_lax else sn_same_site c)\<rparr>"

section \<open>The session of a request\<close>

type_synonym svalues = "(string \<times> bytes) list"

text \<open>The stored record: the values and the expiry.\<close>

type_synonym srecord = "svalues \<times> time"

record session_codec =
  sc_enc :: "srecord \<Rightarrow> bytes option"
  sc_dec :: "bytes \<Rightarrow> srecord option"

record session =
  ss_id :: string
  ss_values :: svalues
  ss_expires :: time
  ss_modified :: bool
  ss_destroyed :: bool
  ss_regenerate :: bool
  ss_old :: string

definition empty_session :: session where
  "empty_session = \<lparr>ss_id = [], ss_values = [], ss_expires = 0, ss_modified = False, ss_destroyed = False,
     ss_regenerate = False, ss_old = []\<rparr>"

definition is_new :: "session \<Rightarrow> bool" where
  "is_new s \<longleftrightarrow> ss_id s = []"

definition sess_get :: "string \<Rightarrow> session \<Rightarrow> bytes option" where
  "sess_get key s = map_of (ss_values s) key"

text \<open>\<open>Set\<close> with the encoded value, or \<open>None\<close> when it cannot be encoded; the flag is success.\<close>

definition sess_set :: "string \<Rightarrow> bytes option \<Rightarrow> session \<Rightarrow> bool \<times> session" where
  "sess_set key enc s =
     (case enc of
        None \<Rightarrow> (False, s)
      | Some raw \<Rightarrow> (True, s\<lparr>ss_values := AList.update key raw (ss_values s), ss_modified := True\<rparr>))"

definition sess_delete :: "string \<Rightarrow> session \<Rightarrow> session" where
  "sess_delete key s =
     (if map_of (ss_values s) key \<noteq> None
      then s\<lparr>ss_values := AList.delete key (ss_values s), ss_modified := True\<rparr> else s)"

definition regenerate :: "session \<Rightarrow> session" where
  "regenerate s =
     s\<lparr>ss_old := (if ss_id s \<noteq> [] \<and> ss_old s = [] then ss_id s else ss_old s),
       ss_id := [], ss_regenerate := True, ss_modified := True\<rparr>"

definition destroy :: "session \<Rightarrow> session" where
  "destroy s = s\<lparr>ss_destroyed := True, ss_values := []\<rparr>"

datatype session_op = SSet string "bytes option" | SDelete string | SRegenerate | SDestroy

fun session_step :: "session_op \<Rightarrow> session \<Rightarrow> session" where
  "session_step (SSet k v) s = snd (sess_set k v s)"
| "session_step (SDelete k) s = sess_delete k s"
| "session_step SRegenerate s = regenerate s"
| "session_step SDestroy s = destroy s"

section \<open>Identifiers\<close>

text \<open>43 characters that decode as unpadded URL-safe base64; the decoder skips line breaks.\<close>

definition is_b64url :: "char \<Rightarrow> bool" where
  "is_b64url c \<longleftrightarrow> (48 \<le> char_code c \<and> char_code c \<le> 57) \<or> (65 \<le> char_code c \<and> char_code c \<le> 90) \<or>
     (97 \<le> char_code c \<and> char_code c \<le> 122) \<or> c = CHR ''-'' \<or> c = CHR ''_''"

definition valid_id :: "string \<Rightarrow> bool" where
  "valid_id i \<longleftrightarrow> length i = 43 \<and>
     (let t = filter (\<lambda>c. c \<noteq> CHR 0x0A \<and> c \<noteq> CHR 0x0D) i in list_all is_b64url t \<and> length t mod 4 \<noteq> 1)"

section \<open>Load and commit\<close>

definition load_session ::
  "session_codec \<Rightarrow> 's store \<Rightarrow> time \<Rightarrow> string option \<Rightarrow> 's \<Rightarrow> session \<times> 's" where
  "load_session cd st now cookie s =
     (case cookie of
        None \<Rightarrow> (empty_session, s)
      | Some v \<Rightarrow>
          if \<not> valid_id v then (empty_session, s)
          else
            case st_get st now v s of (res, s') \<Rightarrow>
              (case res of
                 Inl _ \<Rightarrow> (empty_session, s')
               | Inr data \<Rightarrow>
                   (case sc_dec cd data of
                      None \<Rightarrow> (empty_session, s')
                    | Some (vals, expires) \<Rightarrow>
                        if expires < now then (empty_session, s')
                        else (empty_session\<lparr>ss_id := v, ss_values := vals, ss_expires := expires\<rparr>, s'))))"

record cookie_out =
  ck_name :: string
  ck_value :: string
  ck_path :: string
  ck_domain :: string
  ck_max_age :: int
  ck_secure :: bool
  ck_http_only :: bool
  ck_same_site :: int

definition session_cookie :: "session_config \<Rightarrow> string \<Rightarrow> int \<Rightarrow> cookie_out" where
  "session_cookie cfg value max_age =
     \<lparr>ck_name = sn_cookie cfg, ck_value = value, ck_path = sn_path cfg, ck_domain = sn_domain cfg,
      ck_max_age = max_age, ck_secure = (\<not> sn_insecure cfg), ck_http_only = True, ck_same_site = sn_same_site cfg\<rparr>"

fun delete_ids :: "'s store \<Rightarrow> string list \<Rightarrow> 's \<Rightarrow> 's" where
  "delete_ids st [] s = s"
| "delete_ids st (i # is) s = delete_ids st is (if i \<noteq> [] then snd (st_delete st [i] s) else s)"

text \<open>The cookie set, if any, the session afterwards and the store. \<open>save_session\<close> is the end of \<open>commit\<close>.\<close>

definition save_session ::
  "session_config \<Rightarrow> session_codec \<Rightarrow> 's store \<Rightarrow> time \<Rightarrow> session \<Rightarrow> 's \<Rightarrow> cookie_out option \<times> session \<times> 's" where
  "save_session cfg cd st now ss s =
     (case sc_enc cd (ss_values ss, ss_expires ss) of
        None \<Rightarrow> (None, ss, s)
      | Some data \<Rightarrow>
          (case st_set st now (ss_id ss) data (sn_ttl cfg) s of (res, s') \<Rightarrow>
             if res = Inr () then (Some (session_cookie cfg (ss_id ss) (go_div (sn_ttl cfg) 1000000000)), ss, s')
             else (None, ss, s')))"

definition commit_session ::
  "session_config \<Rightarrow> session_codec \<Rightarrow> 's store \<Rightarrow> time \<Rightarrow> string \<Rightarrow> session \<Rightarrow> 's \<Rightarrow>
     cookie_out option \<times> session \<times> 's" where
  "commit_session cfg cd st now fresh ss s =
     (if ss_destroyed ss then (Some (session_cookie cfg [] (-1)), ss, delete_ids st [ss_id ss, ss_old ss] s)
      else
        let touch = ss_id ss \<noteq> [] \<and> time_sub (ss_expires ss) now < go_div (sn_ttl cfg) 2 in
        if \<not> ss_modified ss \<and> \<not> touch then (None, ss, s)
        else
          let s1 = (if ss_old ss \<noteq> [] then snd (st_delete st [ss_old ss] s) else s);
              ss1 = (if ss_id ss = [] then ss\<lparr>ss_id := fresh\<rparr> else ss);
              ss2 = ss1\<lparr>ss_expires := now + sn_ttl cfg\<rparr>
          in save_session cfg cd st now ss2 s1)"

text \<open>One request: load, the handler's operations, commit.\<close>

definition session_request ::
  "session_config \<Rightarrow> session_codec \<Rightarrow> 's store \<Rightarrow> time \<Rightarrow> time \<Rightarrow> string \<Rightarrow> string option \<Rightarrow> session_op list \<Rightarrow> 's \<Rightarrow>
     cookie_out option \<times> session \<times> 's" where
  "session_request cfg cd st t1 t2 fresh cookie ops s =
     (case load_session cd st t1 cookie s of (ss, s1) \<Rightarrow>
        commit_session cfg cd st t2 fresh (fold session_step ops ss) s1)"

section \<open>The identifier during a request\<close>

text \<open>The session that came with identifier \<open>i\<close>: it still has it, or it was regenerated.\<close>

definition came_with :: "string \<Rightarrow> session \<Rightarrow> bool" where
  "came_with i s \<longleftrightarrow> (ss_id s = i \<and> ss_old s = [] \<and> (ss_regenerate s \<longrightarrow> i = [] \<and> ss_modified s)) \<or>
     (ss_id s = [] \<and> ss_old s = i \<and> ss_regenerate s \<and> ss_modified s)"

lemma step_came_with: "came_with i s \<Longrightarrow> came_with i (session_step op s)"
  by (cases op) (auto simp: came_with_def sess_set_def sess_delete_def regenerate_def destroy_def split: option.split)

lemma step_sticky:
  "ss_regenerate s \<Longrightarrow> ss_regenerate (session_step op s)" "ss_destroyed s \<Longrightarrow> ss_destroyed (session_step op s)"
  "op = SRegenerate \<Longrightarrow> ss_regenerate (session_step op s)" "op = SDestroy \<Longrightarrow> ss_destroyed (session_step op s)"
  by (cases op; simp add: sess_set_def sess_delete_def regenerate_def destroy_def split: option.split)+

lemma flags [simp]: "ss_regenerate (regenerate s)" "ss_destroyed (destroy s)"
  by (simp_all add: regenerate_def destroy_def)

lemma fold_came_with: "came_with i s \<Longrightarrow> came_with i (fold session_step ops s)"
  by (induction ops arbitrary: s) (simp_all add: step_came_with)

lemma fold_sticky:
  "ss_regenerate s \<or> SRegenerate \<in> set ops \<Longrightarrow> ss_regenerate (fold session_step ops s)"
  "ss_destroyed s \<or> SDestroy \<in> set ops \<Longrightarrow> ss_destroyed (fold session_step ops s)"
  by (induction ops arbitrary: s) (auto simp: step_sticky)

lemma loaded_came_with: "came_with (ss_id (fst (load_session cd st now cookie s))) (fst (load_session cd st now cookie s))"
  by (simp add: load_session_def came_with_def empty_session_def split: option.split prod.split sum.split)

lemma loaded_id: "ss_id (fst (load_session cd st now cookie s)) \<in> {[], (case cookie of None \<Rightarrow> [] | Some v \<Rightarrow> v)}"
  by (simp add: load_session_def empty_session_def split: option.split prod.split sum.split)

text \<open>After \<open>Regenerate\<close> the session of a known client counts as new, although it existed before.\<close>

lemma regenerated_is_new: "is_new (regenerate s)"
  by (simp add: is_new_def regenerate_def)

definition session_codec_ok :: "session_codec \<Rightarrow> bool" where
  "session_codec_ok cd \<longleftrightarrow> (\<forall>r. \<exists>b. sc_enc cd r = Some b \<and> sc_dec cd b = Some r)"

section \<open>On a store that keeps the contract\<close>

context lossy_store begin

lemma load_store: "snd (load_session cd st now cookie s) \<in> {s, snd (st_get st now (the cookie) s)}"
proof (cases cookie)
  case (Some v)
  show ?thesis by (cases "st_get st now v s"; cases "fst (st_get st now v s)")
    (auto simp: Some load_session_def split: option.split prod.split)
qed (simp add: load_session_def)

lemma load_inv: "inv s \<Longrightarrow> inv (snd (load_session cd st now cookie s))"
  using load_store [of cd now cookie s] get_inv by auto

lemma load_absent:
  assumes "inv s" and "view s now i = None"
  shows "fst (load_session cd st now (Some i) s) = empty_session"
proof -
  have "fst (st_get st now i s) = Inl ErrNotFound" using get_result [OF assms(1)] assms(2) by simp
  then show ?thesis by (cases "st_get st now i s") (simp add: load_session_def)
qed

lemma delete_ids_inv: "inv s \<Longrightarrow> inv (delete_ids st is s)"
  by (induction "is" arbitrary: s) (simp_all add: delete_inv)

lemma delete_ids_view: "inv s \<Longrightarrow> view (delete_ids st is s) later k = (if k \<in> set is \<and> k \<noteq> [] then None else view s later k)"
  by (induction "is" arbitrary: s) (auto simp: delete_inv delete_view)

text \<open>The identifier is gone after a commit of a regenerated or destroyed session.\<close>

lemma commit_retires:
  assumes i: "inv s" and c: "came_with i ss" and n: "i \<noteq> []" "fresh \<noteq> i"
    and r: "ss_regenerate ss \<or> ss_destroyed ss"
  shows "view (snd (snd (commit_session cfg cd st now fresh ss s))) later i = None"
proof (cases "ss_destroyed ss")
  case True
  then have "snd (snd (commit_session cfg cd st now fresh ss s)) = delete_ids st [ss_id ss, ss_old ss] s"
    by (simp add: commit_session_def)
  moreover have "i \<in> set [ss_id ss, ss_old ss]" using c by (auto simp: came_with_def)
  ultimately show ?thesis using delete_ids_view [OF i, of "[ss_id ss, ss_old ss]" later i] n by metis
next
  case False
  then have o: "ss_id ss = []" "ss_old ss = i" "ss_modified ss" using c n r by (auto simp: came_with_def)
  let ?s1 = "snd (st_delete st [i] s)" and ?ss = "ss\<lparr>ss_id := fresh, ss_expires := now + sn_ttl cfg\<rparr>"
  have v: "view ?s1 later i = None" using delete_view [OF i] by simp
  have i1: "inv ?s1" by (rule delete_inv [OF i])
  have "view (snd (st_set st now fresh data (sn_ttl cfg) ?s1)) later i = None" for data
    using set_frame [OF i1, of i fresh] n(2) v by (metis option.exhaust)
  then have "view (snd (snd (save_session cfg cd st now ?ss ?s1))) later i = None"
    using v by (auto simp: save_session_def split: option.split prod.split) (metis snd_conv)+
  then show ?thesis using False o n by (simp add: commit_session_def)
qed

lemma save_inv: "inv s \<Longrightarrow> inv (snd (snd (save_session cfg cd st now ss s)))"
  using set_inv [of s now "ss_id ss" _ "sn_ttl cfg"]
  by (auto simp: save_session_def split: option.split prod.split) (metis snd_conv)+

lemma commit_inv: "inv s \<Longrightarrow> inv (snd (snd (commit_session cfg cd st now fresh ss s)))"
  by (simp add: commit_session_def Let_def delete_ids_inv save_inv delete_inv)

text \<open>What a commit that saves leaves in the store.\<close>

lemma commit_saves:
  assumes i: "inv s" and cd: "session_codec_ok cd" and t: "0 \<le> now" and d: "\<not> ss_destroyed ss"
    and m: "ss_modified ss \<or> (ss_id ss \<noteq> [] \<and> time_sub (ss_expires ss) now < go_div (sn_ttl cfg) 2)"
  obtains ss2 s2 data where
    "commit_session cfg cd st now fresh ss s =
       (Some (session_cookie cfg (ss_id ss2) (go_div (sn_ttl cfg) 1000000000)), ss2, s2)"
    "ss_id ss2 = (if ss_id ss = [] then fresh else ss_id ss)" "ss_values ss2 = ss_values ss" "inv s2"
    "sc_dec cd data = Some (ss_values ss, now + sn_ttl cfg)"
    "\<And>later. view s2 later (ss_id ss2) = (if fresh_until now (sn_ttl cfg) later then Some data else None)"
proof -
  let ?s1 = "if ss_old ss \<noteq> [] then snd (st_delete st [ss_old ss] s) else s"
  let ?ss2 = "(if ss_id ss = [] then ss\<lparr>ss_id := fresh\<rparr> else ss)\<lparr>ss_expires := now + sn_ttl cfg\<rparr>"
  have i1: "inv ?s1" using i by (simp add: delete_inv)
  obtain data where e: "sc_enc cd (ss_values ss, now + sn_ttl cfg) = Some data"
    "sc_dec cd data = Some (ss_values ss, now + sn_ttl cfg)" using cd by (auto simp: session_codec_ok_def)
  have sets: "st_set st now (ss_id ?ss2) data (sn_ttl cfg) ?s1 = (Inr (), snd (st_set st now (ss_id ?ss2) data (sn_ttl cfg) ?s1))"
    using set_result [OF i1] by (metis prod.collapse)
  have v: "ss_values ?ss2 = ss_values ss" "ss_expires ?ss2 = now + sn_ttl cfg" by simp_all
  have "save_session cfg cd st now ?ss2 ?s1 =
     (Some (session_cookie cfg (ss_id ?ss2) (go_div (sn_ttl cfg) 1000000000)), ?ss2, snd (st_set st now (ss_id ?ss2) data (sn_ttl cfg) ?s1))"
    unfolding save_session_def v e(1) option.case by (subst sets) simp
  moreover have "commit_session cfg cd st now fresh ss s = save_session cfg cd st now ?ss2 ?s1"
    unfolding commit_session_def Let_def using d m by auto
  moreover have "ss_id ?ss2 = (if ss_id ss = [] then fresh else ss_id ss)" by simp
  ultimately show thesis using v(1)
    by (intro that [of ?ss2 _ data, OF _ _ _ set_inv [OF i1] e(2) set_view [OF i1 t]]) simp_all
qed

lemma session_comes_back:
  assumes i: "inv s" and cd: "session_codec_ok cd" and t: "0 \<le> now" and d: "\<not> ss_destroyed ss"
    and m: "ss_modified ss \<or> (ss_id ss \<noteq> [] \<and> time_sub (ss_expires ss) now < go_div (sn_ttl cfg) 2)"
    and ids: "valid_id fresh" "ss_id ss = [] \<or> valid_id (ss_id ss)"
    and l: "now \<le> later" "later < now + sn_ttl cfg"
    and c: "commit_session cfg cd st now fresh ss s = (ck, ss', s')"
  shows "\<exists>v. ck = Some (session_cookie cfg v (go_div (sn_ttl cfg) 1000000000)) \<and>
    v = (if ss_id ss = [] then fresh else ss_id ss) \<and>
    fst (load_session cd st later (Some v) s') =
      empty_session\<lparr>ss_id := v, ss_values := ss_values ss, ss_expires := now + sn_ttl cfg\<rparr>"
proof -
  obtain ss2 s2 data where k: "commit_session cfg cd st now fresh ss s =
       (Some (session_cookie cfg (ss_id ss2) (go_div (sn_ttl cfg) 1000000000)), ss2, s2)"
    "ss_id ss2 = (if ss_id ss = [] then fresh else ss_id ss)" "inv s2"
    "sc_dec cd data = Some (ss_values ss, now + sn_ttl cfg)"
    "view s2 later (ss_id ss2) = (if fresh_until now (sn_ttl cfg) later then Some data else None)"
    by (rule commit_saves [OF i cd t d m]) blast
  have "fst (st_get st later (ss_id ss2) s2) = Inr data"
    using get_result [OF k(3), of later "ss_id ss2"] k(5) l by (simp add: fresh_until_def)
  moreover have "valid_id (ss_id ss2)" using k(2) ids by auto
  ultimately have "fst (load_session cd st later (Some (ss_id ss2)) s2) =
      empty_session\<lparr>ss_id := ss_id ss2, ss_values := ss_values ss, ss_expires := now + sn_ttl cfg\<rparr>"
    using k(4) l by (cases "st_get st later (ss_id ss2) s2") (simp add: load_session_def)
  with k(1,2) c show ?thesis by auto
qed

end

section \<open>Properties, on the in-memory store\<close>

definition session_store :: "mem_cache store" where
  "session_store = namespaced memory_store session_pfx"

lemmas session_view = mem_ns.ns.session_comes_back [where pfx = session_pfx, folded session_store_def]
  and session_retires = mem_ns.ns.commit_retires [where pfx = session_pfx, folded session_store_def]
  and session_load_inv = mem_ns.ns.load_inv [where pfx = session_pfx, folded session_store_def]
  and session_commit_inv = mem_ns.ns.commit_inv [where pfx = session_pfx, folded session_store_def]
  and session_absent = mem_ns.ns.load_absent [where pfx = session_pfx, folded session_store_def]

lemma step_valid: "ss_id s = [] \<or> valid_id (ss_id s) \<Longrightarrow> ss_id (session_step op s) = [] \<or> valid_id (ss_id (session_step op s))"
  by (cases op) (auto simp: sess_set_def sess_delete_def regenerate_def destroy_def split: option.split)

lemma request_valid:
  "ss_id (fold session_step ops (fst (load_session cd st now cookie s))) = [] \<or>
   valid_id (ss_id (fold session_step ops (fst (load_session cd st now cookie s))))"
proof -
  have l: "ss_id x = [] \<or> valid_id (ss_id x)" if "x = fst (load_session cd st now cookie s)" for x
    using that by (simp add: load_session_def empty_session_def split: option.split prod.split sum.split)
  have "ss_id (fold session_step ops x) = [] \<or> valid_id (ss_id (fold session_step ops x))" if "ss_id x = [] \<or> valid_id (ss_id x)" for x
    using that by (induction ops arbitrary: x) (simp_all add: step_valid)
  with l show ?thesis by blast
qed

text \<open>Sessions come back: when a request changed its session without destroying it, or less than half of the
  lifetime was left, the response sets a cookie, and a later request with that cookie, before the
  session expires, loads exactly the values the request left. The identifier in the cookie is the one
  the session was loaded with, or a fresh one if the session was new or regenerated, so an identifier the
  client made up is never adopted.\<close>

lemma session_persists:
  assumes cd: "session_codec_ok cd" and i: "cache_inv m" and t: "0 \<le> t2" and f: "valid_id fresh"
    and ss: "ss = fold session_step ops (fst (load_session cd session_store t1 cookie m))"
    and d: "\<not> ss_destroyed ss"
    and s: "ss_modified ss \<or> (ss_id ss \<noteq> [] \<and> time_sub (ss_expires ss) t2 < go_div (sn_ttl cfg) 2)"
    and l: "t2 \<le> later" "later < t2 + sn_ttl cfg"
    and r: "session_request cfg cd session_store t1 t2 fresh cookie ops m = (ck, ss', m')"
  shows "\<exists>v. ck = Some (session_cookie cfg v (go_div (sn_ttl cfg) 1000000000)) \<and>
    v = (if ss_id ss = [] then fresh else ss_id ss) \<and> (ss_id ss = [] \<or> Some (ss_id ss) = cookie) \<and>
    fst (load_session cd session_store later (Some v) m') =
      empty_session\<lparr>ss_id := v, ss_values := ss_values ss, ss_expires := t2 + sn_ttl cfg\<rparr>"
proof -
  let ?l = "load_session cd session_store t1 cookie m"
  have c: "commit_session cfg cd session_store t2 fresh ss (snd ?l) = (ck, ss', m')"
    using r by (simp add: session_request_def ss split: prod.splits)
  have v: "ss_id ss = [] \<or> valid_id (ss_id ss)" unfolding ss by (rule request_valid)
  have "came_with (ss_id (fst ?l)) ss" unfolding ss by (rule fold_came_with [OF loaded_came_with])
  then have "ss_id ss = [] \<or> Some (ss_id ss) = cookie"
    using loaded_id [of cd session_store t1 cookie m] by (auto simp: came_with_def split: option.splits)
  then show ?thesis using session_view [OF session_load_inv [OF i] cd t d s f v l c] by blast
qed

text \<open>C21: No fixation: when a request that came with the identifier of a stored session regenerates or destroys it,
  the old identifier loads nothing from then on, whatever else the request did and even if saving
  failed, and the response never sets a cookie with the old identifier.\<close>

theorem session_fixation:
  assumes i: "cache_inv m" and old: "ss_id (fst (load_session cd session_store t1 (Some i) m)) = i" "i \<noteq> []" "fresh \<noteq> i"
    and op: "SRegenerate \<in> set ops \<or> SDestroy \<in> set ops"
    and r: "session_request cfg cd session_store t1 t2 fresh (Some i) ops m = (ck, ss', m')"
  shows "fst (load_session cd session_store later (Some i) m') = empty_session \<and>
    (case ck of None \<Rightarrow> True | Some c \<Rightarrow> ck_value c \<noteq> i)"
proof -
  let ?l = "load_session cd session_store t1 (Some i) m"
  define ss where "ss = fold session_step ops (fst ?l)"
  have c: "commit_session cfg cd session_store t2 fresh ss (snd ?l) = (ck, ss', m')"
    using r by (simp add: session_request_def ss_def split: prod.splits)
  have w: "came_with i ss" unfolding ss_def using fold_came_with [OF loaded_came_with] old(1) by metis
  have g: "ss_regenerate ss \<or> ss_destroyed ss" unfolding ss_def using op fold_sticky by blast
  have i1: "cache_inv (snd ?l)" by (rule session_load_inv [OF i])
  have m: "snd (snd (commit_session cfg cd session_store t2 fresh ss (snd ?l))) = m'" using c by simp
  have "mem_view m' later (session_pfx @ i) = None"
    using session_retires [OF i1 w old(2,3) g, where later = later and cfg = cfg and cd = cd and now = t2] m by simp
  then have "fst (load_session cd session_store later (Some i) m') = empty_session"
    by (rule session_absent [OF session_commit_inv [OF i1, of cfg cd t2 fresh ss, unfolded m]])
  moreover have "case ck of None \<Rightarrow> True | Some c \<Rightarrow> ck_value c \<noteq> i"
  proof -
    have "ss_destroyed ss \<or> ss_id ss = []" using w g old(2) by (auto simp: came_with_def)
    then show ?thesis using c old(2,3)
      by (auto simp: commit_session_def Let_def save_session_def session_cookie_def split: if_splits option.splits prod.splits)
  qed
  ultimately show ?thesis ..
qed

section \<open>A concrete session\<close>

definition sample_session_codec :: session_codec where
  "sample_session_codec =
     \<lparr>sc_enc = (\<lambda>r. Some (e_pair (e_list (e_pair e_string e_string)) e_int r)),
      sc_dec = (\<lambda>b. Some (fst (d_pair (d_list (d_pair d_string d_string)) d_int b)))\<rparr>"

lemma sample_session_codec_ok: "session_codec_ok sample_session_codec"
proof -
  have "inverts (e_pair (e_list (e_pair e_string e_string)) e_int) (d_pair (d_list (d_pair d_string d_string)) d_int)"
    by (intro inverts_intros)
  from invertsD [OF this] show ?thesis by (simp add: session_codec_ok_def sample_session_codec_def)
qed

definition sample_sessions :: session_config where
  "sample_sessions = new_sessions \<lparr>sn_cookie = [], sn_ttl = 100, sn_path = [], sn_domain = [], sn_same_site = 0, sn_insecure = False\<rparr>"

definition sample_id :: "char \<Rightarrow> string" where
  "sample_id c = replicate 43 c"

lemma sample_id_valid: "is_b64url c \<Longrightarrow> valid_id (sample_id c)"
proof -
  assume c: "is_b64url c"
  then have "c \<noteq> CHR 0x0A \<and> c \<noteq> CHR 0x0D" by (auto simp: is_b64url_def char_code_def)
  then have "filter (\<lambda>c. c \<noteq> CHR 0x0A \<and> c \<noteq> CHR 0x0D) (replicate 43 c) = replicate 43 c" by simp
  with c show ?thesis by (simp add: valid_id_def sample_id_def Let_def list_all_iff del: filter_replicate)
qed

lemma session_persists_witness:
  "\<exists>ck ss' m'. session_request sample_sessions sample_session_codec session_store 1 2 (sample_id CHR ''a'') None
      [SSet ''user'' (Some ''7'')] (new_mem_cache 5) = (ck, ss', m') \<and>
    ss_values (fst (load_session sample_session_codec session_store 50 (Some (sample_id CHR ''a'')) m')) = [(''user'', ''7'')]"
proof -
  obtain ck ss' m' where r: "session_request sample_sessions sample_session_codec session_store 1 2 (sample_id CHR ''a'') None
      [SSet ''user'' (Some ''7'')] (new_mem_cache 5) = (ck, ss', m')" by (metis prod_cases3)
  have v: "valid_id (sample_id CHR ''a'')" by (rule sample_id_valid) (simp add: is_b64url_def char_code_def)
  from session_persists [OF sample_session_codec_ok new_cache_inv _ v refl _ _ _ _ r, of 50]
  show ?thesis using r
    by (auto simp: load_session_def sess_set_def empty_session_def sample_sessions_def new_sessions_def)
qed

theorem session_fixation_witness:
  "\<exists>m0 ck ss' m'. ss_id (fst (load_session sample_session_codec session_store 3 (Some (sample_id CHR ''a'')) m0)) = sample_id CHR ''a'' \<and>
    session_request sample_sessions sample_session_codec session_store 3 4 (sample_id CHR ''b'') (Some (sample_id CHR ''a''))
      [SRegenerate, SSet ''user'' (Some ''7'')] m0 = (ck, ss', m') \<and>
    fst (load_session sample_session_codec session_store 5 (Some (sample_id CHR ''a'')) m') = empty_session"
proof -
  let ?a = "sample_id CHR ''a''" and ?b = "sample_id CHR ''b''"
  let ?ss = "empty_session\<lparr>ss_modified := True\<rparr>"
  obtain ck0 s0 m0 where c: "commit_session sample_sessions sample_session_codec session_store 2 ?a ?ss (new_mem_cache 5) = (ck0, s0, m0)"
    by (metis prod_cases3)
  have v: "valid_id ?a" by (rule sample_id_valid) (simp add: is_b64url_def char_code_def)
  have i: "cache_inv m0" using session_commit_inv [OF new_cache_inv, of sample_sessions sample_session_codec 2 ?a ?ss 5] c by simp
  have l: "ss_id (fst (load_session sample_session_codec session_store 3 (Some ?a) m0)) = ?a"
    using session_view [OF new_cache_inv sample_session_codec_ok _ _ _ v _ _ _ c, of 3]
    by (auto simp: empty_session_def sample_sessions_def new_sessions_def)
  obtain ck ss' m' where r: "session_request sample_sessions sample_session_codec session_store 3 4 ?b (Some ?a)
      [SRegenerate, SSet ''user'' (Some ''7'')] m0 = (ck, ss', m')" by (metis prod_cases3)
  from session_fixation [OF i l _ _ _ r] have "fst (load_session sample_session_codec session_store 5 (Some ?a) m') = empty_session"
    by (simp add: sample_id_def numeral_eq_Suc)
  with l r show ?thesis by blast
qed

end
