(* ===== verification/Auth.thy ===== *)
theory Auth
  imports Errors Session
begin

text \<open>
  Packages \<open>auth\<close> (\<open>auth.go\<close>, \<open>policy.go\<close>) and the session authenticator: the authentication middleware
  over a list of authenticators, bearer tokens, API keys, basic credentials, and the policy
  algebra. A principal is what the interface assertions can see of it: its identifier and, when it
  has them, its \<open>HasRole\<close> and \<open>HasScope\<close> methods. Verifiers and lookups of the application are
  parameters; the keyed hash of the constant-time comparer is a parameter that tells different inputs
  apart. Sentinel errors are opaque errors with their text.
\<close>

section \<open>Principals\<close>

record principal =
  p_id :: string
  p_has_role :: "(string \<Rightarrow> bool) option"
  p_has_scope :: "(string \<Rightarrow> bool) option"

record user =
  u_subject :: string
  u_name :: string
  u_email :: string
  u_roles :: "string list"
  u_scopes :: "string list"

definition user_principal :: "user \<Rightarrow> principal" where
  "user_principal u =
     \<lparr>p_id = u_subject u, p_has_role = Some (\<lambda>r. r \<in> set (u_roles u)), p_has_scope = Some (\<lambda>s. s \<in> set (u_scopes u))\<rparr>"

definition err_no_credentials :: "'d go_error" where "err_no_credentials = Opaque ''auth: no credentials''"
definition err_invalid_credentials :: "'d go_error" where "err_invalid_credentials = Opaque ''auth: invalid credentials''"

definition is_sentinel :: "'d go_error \<Rightarrow> 'd go_error \<Rightarrow> bool" where
  "is_sentinel e target \<longleftrightarrow> target \<in> set (err_chain e)"

definition has_app :: "'d go_error \<Rightarrow> bool" where
  "has_app e \<longleftrightarrow> find is_app (err_chain e) \<noteq> None"

section \<open>The authentication middleware\<close>

text \<open>The part of a request the built-in authenticators read.\<close>

record auth_request =
  aq_header :: "string \<Rightarrow> string"
  aq_query :: "string \<Rightarrow> string"
  aq_basic :: "(string \<times> string) option"
  aq_param :: "string \<Rightarrow> string"
  aq_session :: "session option"

record 'd authenticator =
  au_run :: "auth_request \<Rightarrow> ('d go_error, principal option) result"
  au_challenge :: "string option"

datatype 'd auth_outcome = Proceed "principal option" | Reject "'d go_error" "string option"

definition challenges :: "'d authenticator list \<Rightarrow> string" where
  "challenges as = join_with '', '' (filter (\<lambda>s. s \<noteq> []) (List.map_filter au_challenge as))"

definition with_challenge :: "string \<Rightarrow> string option" where
  "with_challenge ch = (if ch = [] then None else Some ch)"

fun try_authenticators :: "bool \<Rightarrow> string \<Rightarrow> auth_request \<Rightarrow> 'd authenticator list \<Rightarrow> 'd auth_outcome" where
  "try_authenticators optional ch rq [] =
     (if optional then Proceed None
      else Reject (new_error 401 ''AUTHENTICATION_REQUIRED'' ''Authentication required'') (with_challenge ch))"
| "try_authenticators optional ch rq (a # as) =
     (case au_run a rq of
        Inl err \<Rightarrow>
          if is_sentinel err err_no_credentials then try_authenticators optional ch rq as
          else if has_app err then Reject err None
          else Reject (with_cause (new_error 401 ''INVALID_CREDENTIALS'' ''Invalid credentials'') err) (with_challenge ch)
      | Inr None \<Rightarrow> try_authenticators optional ch rq as
      | Inr (Some p) \<Rightarrow> Proceed (Some p))"

definition auth_middleware ::
  "bool \<Rightarrow> 'd authenticator list \<Rightarrow> principal option \<Rightarrow> auth_request \<Rightarrow> 'd auth_outcome" where
  "auth_middleware optional as user rq =
     (if user \<noteq> None then Proceed user else try_authenticators optional (challenges as) rq as)"

definition auth_required :: "'d authenticator list \<Rightarrow> principal option \<Rightarrow> auth_request \<Rightarrow> 'd auth_outcome" where
  "auth_required = auth_middleware False"

definition auth_optional :: "'d authenticator list \<Rightarrow> principal option \<Rightarrow> auth_request \<Rightarrow> 'd auth_outcome" where
  "auth_optional = auth_middleware True"

section \<open>Built-in authenticators\<close>

definition bearer_token :: "string \<Rightarrow> string option" where
  "bearer_token header =
     (case cut_at CHR '' '' header of (scheme, token, ok) \<Rightarrow>
        if \<not> ok \<or> \<not> equal_fold scheme ''Bearer'' \<or> trim_space token = [] then None else Some (trim_space token))"

definition bearer :: "(string \<Rightarrow> ('d go_error, principal option) result) \<Rightarrow> 'd authenticator" where
  "bearer verify =
     \<lparr>au_run = (\<lambda>rq. case bearer_token (aq_header rq ''Authorization'') of
        None \<Rightarrow> Inl err_no_credentials | Some t \<Rightarrow> verify t),
      au_challenge = Some ''Bearer''\<rparr>"

definition api_key ::
  "string \<Rightarrow> string \<Rightarrow> (string \<Rightarrow> ('d go_error, principal option) result) \<Rightarrow> 'd authenticator" where
  "api_key header query lookup =
     (let h = (if header = [] then ''X-API-Key'' else header) in
      \<lparr>au_run = (\<lambda>rq.
         let k0 = aq_header rq h; k = (if k0 = [] \<and> query \<noteq> [] then aq_query rq query else k0)
         in if k = [] then Inl err_no_credentials else lookup k),
       au_challenge = None\<rparr>)"

text \<open>\<open>StaticKeys\<close>: the loop goes over all entries and keeps the last match.\<close>

definition static_keys ::
  "(string \<Rightarrow> bytes) \<Rightarrow> (string \<times> principal option) list \<Rightarrow> string \<Rightarrow> ('d go_error, principal option) result" where
  "static_keys tag keys key =
     (let entries = map (\<lambda>(k, p). (tag k, p)) keys; t = tag key;
          found = foldl (\<lambda>acc (et, p). if t = et then p else acc) None entries
      in case found of None \<Rightarrow> Inl err_invalid_credentials | Some p \<Rightarrow> Inr (Some p))"

definition basic_auth ::
  "string \<Rightarrow> (string \<Rightarrow> string \<Rightarrow> ('d go_error, principal option) result) \<Rightarrow> 'd authenticator" where
  "basic_auth realm verify =
     (let r = (if realm = [] then ''restricted'' else realm) in
      \<lparr>au_run = (\<lambda>rq. case aq_basic rq of None \<Rightarrow> Inl err_no_credentials | Some (u, p) \<Rightarrow> verify u p),
       au_challenge = Some (''Basic realm='' @ [CHR 0x22] @ map (\<lambda>c. if c = CHR 0x22 then CHR 0x27 else c) r @
         [CHR 0x22] @ '', charset='' @ [CHR 0x22] @ ''UTF-8'' @ [CHR 0x22])\<rparr>)"

definition basic_users ::
  "(string \<Rightarrow> bytes) \<Rightarrow> (string \<times> string) list \<Rightarrow> string \<Rightarrow> string \<Rightarrow> ('d go_error, principal option) result" where
  "basic_users tag users username password =
     (let entries = map (\<lambda>(u, p). (tag u, tag p)) users; u = tag username; p = tag password;
          ok = foldl (\<lambda>acc (eu, ep). acc \<or> (u = eu \<and> p = ep)) False entries
      in if \<not> ok then Inl err_invalid_credentials
         else Inr (Some (user_principal \<lparr>u_subject = username, u_name = [], u_email = [], u_roles = [], u_scopes = []\<rparr>)))"

text \<open>The authenticator of package \<open>session\<close>; \<open>dec\<close> decodes a stored JSON string.\<close>

definition session_auth ::
  "(bytes \<Rightarrow> string option) \<Rightarrow> string \<Rightarrow> (string \<Rightarrow> ('d go_error, principal option) result) \<Rightarrow> 'd authenticator" where
  "session_auth dec key load =
     \<lparr>au_run = (\<lambda>rq. case aq_session rq of
         None \<Rightarrow> Inl err_no_credentials
       | Some s \<Rightarrow> (case Option.bind (sess_get key s) dec of
             None \<Rightarrow> Inl err_no_credentials
           | Some i \<Rightarrow> if i = [] then Inl err_no_credentials else load i)),
      au_challenge = None\<rparr>"

section \<open>Policies\<close>

type_synonym 'd policy = "auth_request \<Rightarrow> principal option \<Rightarrow> 'd go_error option"

definition err_policy_denied :: "'d go_error" where "err_policy_denied = Opaque ''policy denied''"
definition err_not_owner :: "'d go_error" where "err_not_owner = Opaque ''not the resource owner''"
definition err_owner_unavailable :: "'d go_error" where
  "err_owner_unavailable = Opaque ''resource owner cannot be determined''"

fun all_of :: "'d policy option list \<Rightarrow> 'd policy" where
  "all_of [] rq p = None"
| "all_of (None # ps) rq p = Some err_policy_denied"
| "all_of (Some f # ps) rq p = (case f rq p of Some err \<Rightarrow> Some err | None \<Rightarrow> all_of ps rq p)"

text \<open>The loop of \<open>Any\<close> with the last error seen.\<close>

fun any_loop :: "'d policy option list \<Rightarrow> 'd go_error option \<Rightarrow> 'd policy" where
  "any_loop [] err rq p = Some (case err of None \<Rightarrow> err_policy_denied | Some e \<Rightarrow> e)"
| "any_loop (None # ps) err rq p = any_loop ps (Some err_policy_denied) rq p"
| "any_loop (Some f # ps) err rq p =
     (case f rq p of None \<Rightarrow> None | Some perr \<Rightarrow> any_loop ps (Some perr) rq p)"

definition any_of :: "'d policy option list \<Rightarrow> 'd policy" where
  "any_of ps rq p = (if ps = [] then Some err_policy_denied else any_loop ps None rq p)"

definition is_denial :: "'d go_error \<Rightarrow> bool" where
  "is_denial e \<longleftrightarrow> is_sentinel e err_policy_denied \<or> is_sentinel e err_not_owner \<or>
     (case find is_app (err_chain e) of None \<Rightarrow> False | Some a \<Rightarrow> ae_status a = 403)"

definition not_of :: "'d policy option \<Rightarrow> 'd policy" where
  "not_of f rq p =
     (case f of
        None \<Rightarrow> Some err_policy_denied
      | Some g \<Rightarrow>
          (case g rq p of
             None \<Rightarrow> Some err_policy_denied
           | Some err \<Rightarrow> if is_denial err then None else Some err))"

definition owner_is :: "(auth_request \<Rightarrow> string) option \<Rightarrow> (principal \<Rightarrow> string) option \<Rightarrow> 'd policy" where
  "owner_is subject owner rq p =
     (case (subject, owner, p) of
        (Some f, Some g, Some pr) \<Rightarrow>
          (let s = f rq; o' = g pr in
           if s = [] \<or> o' = [] then Some err_owner_unavailable else if s \<noteq> o' then Some err_not_owner else None)
      | _ \<Rightarrow> Some err_owner_unavailable)"

definition require_owner_id :: "string \<Rightarrow> 'd policy" where
  "require_owner_id param = owner_is (Some (\<lambda>rq. aq_param rq param)) (Some p_id)"

text \<open>\<open>Require\<close>: \<open>None\<close> lets the request through.\<close>

definition require_policy :: "'d policy \<Rightarrow> principal option \<Rightarrow> auth_request \<Rightarrow> 'd go_error option" where
  "require_policy pol user rq =
     (if user = None then Some (new_error 401 ''AUTHENTICATION_REQUIRED'' ''Authentication required'')
      else case pol rq user of
             None \<Rightarrow> None
           | Some err \<Rightarrow>
               if has_app err then Some err
               else Some (with_cause (new_error 403 ''FORBIDDEN''
                 ''You do not have permission to perform this action'') err))"

definition role_policy :: "string list \<Rightarrow> 'd policy" where
  "role_policy roles rq p =
     (case Option.bind p p_has_role of
        None \<Rightarrow> Some (Opaque ''missing required role'')
      | Some has \<Rightarrow> if list_ex has roles then None else Some (Opaque ''missing required role''))"

definition scope_policy :: "string list \<Rightarrow> 'd policy" where
  "scope_policy scopes rq p =
     (case Option.bind p p_has_scope of
        None \<Rightarrow> Some (Opaque ''missing required scope'')
      | Some has \<Rightarrow> if list_all has scopes then None else Some (Opaque ''missing required scope''))"

section \<open>The first authenticator that recognises the request decides\<close>

definition recognises :: "'d authenticator \<Rightarrow> auth_request \<Rightarrow> bool" where
  "recognises a rq \<longleftrightarrow>
     (case au_run a rq of Inl e \<Rightarrow> \<not> is_sentinel e err_no_credentials | Inr p \<Rightarrow> p \<noteq> None)"

lemma try_skip: "\<not> recognises a rq \<Longrightarrow> try_authenticators opt ch rq (a # as) = try_authenticators opt ch rq as"
  by (auto simp: recognises_def split: sum.splits)

lemma try_skip_all:
  "\<forall>a \<in> set as. \<not> recognises a rq \<Longrightarrow> try_authenticators opt ch rq (as @ bs) = try_authenticators opt ch rq bs"
  by (induction as) (simp_all add: try_skip del: try_authenticators.simps)

lemma try_none:
  "\<forall>a \<in> set as. \<not> recognises a rq \<Longrightarrow> try_authenticators opt ch rq as = try_authenticators opt ch rq []"
  using try_skip_all [of as rq opt ch "[]"] by simp

lemma try_proceeds:
  "try_authenticators False ch rq as = Proceed u \<longleftrightarrow>
     (\<exists>pre a post p. as = pre @ a # post \<and> (\<forall>b \<in> set pre. \<not> recognises b rq) \<and> au_run a rq = Inr (Some p) \<and> u = Some p)"
  (is "?l \<longleftrightarrow> ?r")
proof
  assume l: ?l
  show ?r
  proof (cases "find (\<lambda>a. recognises a rq) as")
    case None
    then have "\<forall>a \<in> set as. \<not> recognises a rq" by (simp add: find_None_iff)
    from l [unfolded try_none [OF this]] show ?thesis by simp
  next
    case (Some a)
    then obtain pre post where a: "as = pre @ a # post" "recognises a rq" "\<forall>b \<in> set pre. \<not> recognises b rq"
      by (auto simp: find_Some_iff) (metis id_take_nth_drop in_set_conv_nth length_take min_less_iff_conj nth_take)
    then have "au_run a rq = Inr u \<and> u \<noteq> None" using l try_skip_all [OF a(3)]
      by (auto simp: recognises_def split: sum.splits if_splits option.splits)
    then show ?thesis using a(1,3) by auto
  qed
next
  assume ?r
  then show ?l using try_skip_all by (fastforce split: sum.splits)
qed

lemma try_optional:
  "try_authenticators True ch rq as = (if list_ex (\<lambda>a. recognises a rq) as then try_authenticators False ch rq as else Proceed None)"
proof (induction as)
  case (Cons a as)
  show ?case
  proof (cases "recognises a rq")
    case True
    then show ?thesis by (auto simp: recognises_def split: sum.splits option.splits)
  next
    case False
    then show ?thesis using Cons.IH by (simp add: try_skip del: try_authenticators.simps)
  qed
qed simp

lemma unrecognised_401:
  "\<forall>a \<in> set as. \<not> recognises a rq \<Longrightarrow> \<exists>e ch. auth_required as None rq = Reject e ch \<and> ae_status e = 401"
  unfolding auth_required_def auth_middleware_def using try_none [of as rq] by (simp add: new_error_def)

text \<open>C22: The authentication middleware lets a request through exactly when a principal is already known, or the first
  authenticator that recognises the credentials accepts them, or, if it is optional, no authenticator
  recognises any; invalid credentials are never skipped in favour of a later authenticator. With
  \<open>Required\<close> the handler therefore always has a principal.\<close>

theorem auth_gate:
  "(auth_required as None rq = Proceed u \<longleftrightarrow>
      (\<exists>pre a post p. as = pre @ a # post \<and> (\<forall>b \<in> set pre. \<not> recognises b rq) \<and> au_run a rq = Inr (Some p) \<and> u = Some p)) \<and>
    auth_required as (Some p) rq = Proceed (Some p) \<and>
    (auth_optional as None rq = Proceed None \<longleftrightarrow> (\<forall>a \<in> set as. \<not> recognises a rq)) \<and>
    (auth_optional as None rq = Proceed (Some q) \<longleftrightarrow> auth_required as None rq = Proceed (Some q))"
proof (intro conjI)
  show "auth_required as None rq = Proceed u \<longleftrightarrow>
      (\<exists>pre a post p. as = pre @ a # post \<and> (\<forall>b \<in> set pre. \<not> recognises b rq) \<and> au_run a rq = Inr (Some p) \<and> u = Some p)"
    by (simp add: auth_required_def auth_middleware_def try_proceeds)
  show "auth_required as (Some p) rq = Proceed (Some p)" by (simp add: auth_required_def auth_middleware_def)
  have ns: "try_authenticators False ch rq as \<noteq> Proceed None" for ch
    by (auto simp: try_proceeds)
  show "auth_optional as None rq = Proceed None \<longleftrightarrow> (\<forall>a \<in> set as. \<not> recognises a rq)"
    using ns by (simp add: auth_optional_def auth_middleware_def try_optional list_ex_iff)
  have "try_authenticators False ch rq as \<noteq> Proceed (Some q)" if "\<not> list_ex (\<lambda>a. recognises a rq) as" for ch
    using that try_none [of as rq False ch] by (simp add: list_ex_iff)
  then show "auth_optional as None rq = Proceed (Some q) \<longleftrightarrow> auth_required as None rq = Proceed (Some q)"
    by (auto simp: auth_optional_def auth_required_def auth_middleware_def try_optional)
qed

definition sample_auth_request :: auth_request where
  "sample_auth_request = \<lparr>aq_header = (\<lambda>h. if h = ''Authorization'' then ''bearer  tok'' else []), aq_query = (\<lambda>_. []),
     aq_basic = None, aq_param = (\<lambda>_. []), aq_session = None\<rparr>"

definition sample_user :: principal where
  "sample_user = \<lparr>p_id = ''7'', p_has_role = None, p_has_scope = None\<rparr>"

theorem auth_gate_witness:
  "auth_required [basic_auth [] (\<lambda>_ _. Inl (err_invalid_credentials :: nat go_error)),
      bearer (\<lambda>t. if t = ''tok'' then Inr (Some sample_user) else Inl err_invalid_credentials)] None sample_auth_request =
    Proceed (Some sample_user)"
proof -
  let ?b = "basic_auth [] (\<lambda>_ _. Inl (err_invalid_credentials :: nat go_error))"
  let ?t = "bearer (\<lambda>t. if t = ''tok'' then Inr (Some sample_user) else Inl (err_invalid_credentials :: nat go_error))"
  have "bearer_token ''bearer  tok'' = Some ''tok''" by code_simp
  then have "au_run ?t sample_auth_request = Inr (Some sample_user)" by (simp add: bearer_def sample_auth_request_def)
  moreover have "\<not> recognises ?b sample_auth_request"
    by (simp add: recognises_def basic_auth_def sample_auth_request_def is_sentinel_def err_no_credentials_def)
  ultimately show ?thesis
    using auth_gate [of "[?b, ?t]" sample_auth_request "Some sample_user"]
    by (metis append_Cons append_Nil list.set(1) list.set(2) empty_iff insert_iff)
qed

section \<open>Verifiers\<close>

lemma foldl_match:
  "distinct (map fst xs) \<Longrightarrow> foldl (\<lambda>acc (k, p). if t = k then p else acc) acc xs =
     (case map_of xs t of None \<Rightarrow> acc | Some p \<Rightarrow> p)"
proof (induction xs arbitrary: acc)
  case (Cons x xs)
  obtain k p where x: "x = (k, p)" by fastforce
  have n: "map_of xs k = None" using Cons.prems x by (simp add: map_of_eq_None_iff)
  show ?case using Cons.IH [of p] Cons.IH [of acc] Cons.prems x n by (cases "t = k") (simp_all split: option.splits)
qed simp

lemma map_of_tags: "inj tag \<Longrightarrow> map_of (map (\<lambda>(k, p). (tag k, p)) xs) (tag k) = map_of xs k"
  by (induction xs) (auto simp: inj_eq)

lemma fst_tags: "map fst (map (\<lambda>(k, p). (tag k, p)) xs) = map tag (map fst xs)"
  by (induction xs) auto

lemma static_keys_exact:
  assumes "inj tag" and "distinct (map fst keys)"
  shows "static_keys tag keys key =
       (case map_of keys key of Some (Some p) \<Rightarrow> Inr (Some p) | _ \<Rightarrow> Inl err_invalid_credentials)"
proof -
  have "distinct (map fst (map (\<lambda>(k, p). (tag k, p)) keys))"
    unfolding fst_tags using assms by (subst distinct_map) (blast intro: inj_on_subset)
  from foldl_match [OF this, of "tag key" None] show ?thesis
    by (simp add: static_keys_def Let_def map_of_tags [OF assms(1)] split: option.split)
qed

lemma foldl_any: "foldl (\<lambda>acc x. acc \<or> P x) b xs \<longleftrightarrow> b \<or> list_ex P xs"
  by (induction xs arbitrary: b) auto

lemma basic_users_exact:
  assumes "inj tag"
  shows "(\<exists>p. basic_users tag users u pw = Inr p) \<longleftrightarrow> (u, pw) \<in> set users"
    and "basic_users tag users u pw = Inr (Some p) \<Longrightarrow> p_id p = u"
proof -
  have "foldl (\<lambda>acc (eu, ep). acc \<or> (tag u = eu \<and> tag pw = ep)) False (map (\<lambda>(u, p). (tag u, tag p)) users) \<longleftrightarrow>
      (u, pw) \<in> set users"
    using foldl_any [of "\<lambda>(eu, ep). tag u = eu \<and> tag pw = ep" False] assms
    by (simp add: case_prod_unfold list_ex_iff) (force simp: inj_eq)
  then show "(\<exists>p. basic_users tag users u pw = Inr p) \<longleftrightarrow> (u, pw) \<in> set users"
    by (simp add: basic_users_def Let_def)
  show "basic_users tag users u pw = Inr (Some p) \<Longrightarrow> p_id p = u"
    by (auto simp: basic_users_def Let_def user_principal_def split: if_splits)
qed

section \<open>The policy algebra fails closed\<close>

datatype 'd pexp = PLeaf "'d policy" | PAll "'d pexp list" | PAny "'d pexp list" | PNot "'d pexp"

fun policy_of :: "'d pexp \<Rightarrow> 'd policy" where
  "policy_of (PLeaf f) = f"
| "policy_of (PAll ts) = all_of (map (\<lambda>t. Some (policy_of t)) ts)"
| "policy_of (PAny ts) = any_of (map (\<lambda>t. Some (policy_of t)) ts)"
| "policy_of (PNot t) = not_of (Some (policy_of t))"

text \<open>The results of the application's policies that are consulted.\<close>

fun upto_denial :: "('a \<Rightarrow> bool) \<Rightarrow> 'a list \<Rightarrow> 'a list" where
  "upto_denial stop [] = []"
| "upto_denial stop (x # xs) = (if stop x then [x] else x # upto_denial stop xs)"

lemma upto_cong [fundef_cong]:
  "xs = ys \<Longrightarrow> (\<And>x. x \<in> set ys \<Longrightarrow> P x = Q x) \<Longrightarrow> upto_denial P xs = upto_denial Q ys"
  by (induction ys arbitrary: xs) auto

fun consulted :: "'d pexp \<Rightarrow> auth_request \<Rightarrow> principal option \<Rightarrow> 'd go_error option list" where
  "consulted (PLeaf f) rq p = [f rq p]"
| "consulted (PAll ts) rq p =
     concat (map snd (upto_denial (\<lambda>(r, _). r \<noteq> None) (map (\<lambda>t. (policy_of t rq p, consulted t rq p)) ts)))"
| "consulted (PAny ts) rq p =
     concat (map snd (upto_denial (\<lambda>(r, _). r = None) (map (\<lambda>t. (policy_of t rq p, consulted t rq p)) ts)))"
| "consulted (PNot t) rq p = consulted t rq p"

fun any_free :: "'d pexp \<Rightarrow> bool" where
  "any_free (PLeaf _) \<longleftrightarrow> True"
| "any_free (PAll ts) \<longleftrightarrow> list_all any_free ts"
| "any_free (PAny _) \<longleftrightarrow> False"
| "any_free (PNot t) \<longleftrightarrow> any_free t"

definition failed :: "'d go_error option \<Rightarrow> bool" where
  "failed r \<longleftrightarrow> (case r of None \<Rightarrow> False | Some e \<Rightarrow> \<not> is_denial e)"

lemma denied_is_denial [simp]: "is_denial err_policy_denied"
  by (simp add: is_denial_def is_sentinel_def err_policy_denied_def)

lemma all_of_failure:
  assumes "\<And>t. t \<in> set ts \<Longrightarrow> list_ex failed (consulted t rq p) \<Longrightarrow> failed (policy_of t rq p)"
    and "list_ex failed (consulted (PAll ts) rq p)"
  shows "failed (policy_of (PAll ts) rq p)"
  using assms
proof (induction ts)
  case (Cons t ts)
  show ?case
  proof (cases "policy_of t rq p")
    case None
    then have "\<not> list_ex failed (consulted t rq p)" using Cons.prems(1) [of t] failed_def [of None] by auto
    then have "list_ex failed (consulted (PAll ts) rq p)" using Cons.prems(2) None by simp
    then have "failed (policy_of (PAll ts) rq p)" using Cons.IH Cons.prems(1) by simp
    then show ?thesis using None by simp
  next
    case (Some e)
    then have "list_ex failed (consulted t rq p)" using Cons.prems(2) by simp
    then have "failed (Some e)" using Cons.prems(1) [of t] Some by simp
    then show ?thesis using Some by simp
  qed
qed simp

lemma any_free_failure:
  "any_free t \<Longrightarrow> list_ex failed (consulted t rq p) \<Longrightarrow> failed (policy_of t rq p)"
proof (induction t)
  case (PAll ts)
  then show ?case by (intro all_of_failure) (auto simp: list_all_iff)
next
  case (PNot t)
  then have "failed (policy_of t rq p)" by simp
  then show ?case by (auto simp: failed_def not_of_def split: option.splits)
qed simp_all

text \<open>C23: Policies fail closed: an expression of application policies built with \<open>All\<close> and \<open>Not\<close> never grants access
  when one of the policies it consulted failed (an error that is no explicit denial); the failure
  itself is what is reported.\<close>

theorem policy_fails_closed:
  assumes "any_free t" and "r \<in> set (consulted t rq (Some q))" and "failed r"
  shows "\<exists>e. policy_of t rq (Some q) = Some e \<and> \<not> is_denial e \<and> require_policy (policy_of t) (Some q) rq \<noteq> None"
proof -
  have "failed (policy_of t rq (Some q))" using assms by (intro any_free_failure) (auto simp: list_ex_iff)
  then obtain e where "policy_of t rq (Some q) = Some e" "\<not> is_denial e" by (auto simp: failed_def split: option.splits)
  then show ?thesis by (simp add: require_policy_def)
qed

theorem policy_fails_closed_witness:
  "\<exists>e. policy_of (PNot (PAll [PLeaf (\<lambda>_ _. None), PLeaf (\<lambda>_ _. Some (Opaque ''db down'' :: nat go_error))])) sample_auth_request (Some sample_user) = Some e \<and>
     \<not> is_denial e"
proof -
  let ?t = "PNot (PAll [PLeaf (\<lambda>_ _. None), PLeaf (\<lambda>_ _. Some (Opaque ''db down'' :: nat go_error))])"
  have "failed (Some (Opaque ''db down'' :: nat go_error))"
    by (simp add: failed_def is_denial_def is_sentinel_def err_policy_denied_def err_not_owner_def)
  with policy_fails_closed [of ?t "Some (Opaque ''db down'')" sample_auth_request sample_user] show ?thesis by auto
qed

text \<open>With \<open>Any\<close> inside \<open>Not\<close> this is lost: \<open>Any\<close> reports only the last denial, so an earlier failure
  becomes access.\<close>

lemma not_any_loses_failure:
  "consulted (PNot (PAny [PLeaf (\<lambda>_ _. Some (Opaque ''db down'')), PLeaf (\<lambda>_ _. Some err_not_owner)])) rq p =
     [Some (Opaque ''db down''), Some err_not_owner]"
  "policy_of (PNot (PAny [PLeaf (\<lambda>_ _. Some (Opaque ''db down'')), PLeaf (\<lambda>_ _. Some err_not_owner)])) rq p = None"
  by (simp_all add: not_of_def any_of_def is_denial_def is_sentinel_def err_not_owner_def)

text \<open>\<open>Not\<close> twice keeps who is let in, \<open>Any\<close> and \<open>All\<close> are the disjunction and conjunction of what their
  policies allow, and ownership is never granted on empty values.\<close>

lemma any_loop_none: "any_loop ps e rq p = None \<longleftrightarrow> (\<exists>f. Some f \<in> set ps \<and> f rq p = None)"
proof (induction ps arbitrary: e)
  case (Cons g ps)
  then show ?case by (cases g) (auto split: option.splits)
qed simp

lemma policy_connectives:
  shows "not_of (Some (not_of (Some f))) rq p = None \<longleftrightarrow> f rq p = None"
    and "all_of ps rq p = None \<longleftrightarrow> (\<forall>g \<in> set ps. \<exists>f. g = Some f \<and> f rq p = None)"
    and "any_of ps rq p = None \<longleftrightarrow> (\<exists>f. Some f \<in> set ps \<and> f rq p = None)"
    and "owner_is sub own rq p = None \<longleftrightarrow>
      (\<exists>f g q. sub = Some f \<and> own = Some g \<and> p = Some q \<and> f rq = g q \<and> f rq \<noteq> [])"
proof -
  show "not_of (Some (not_of (Some f))) rq p = None \<longleftrightarrow> f rq p = None"
    by (auto simp: not_of_def split: option.splits)
  show "all_of ps rq p = None \<longleftrightarrow> (\<forall>g \<in> set ps. \<exists>f. g = Some f \<and> f rq p = None)"
  proof (induction ps)
    case (Cons g ps)
    then show ?case by (cases g) (auto split: option.splits)
  qed simp
  show "any_of ps rq p = None \<longleftrightarrow> (\<exists>f. Some f \<in> set ps \<and> f rq p = None)"
    by (auto simp: any_of_def any_loop_none)
  show "owner_is sub own rq p = None \<longleftrightarrow>
      (\<exists>f g q. sub = Some f \<and> own = Some g \<and> p = Some q \<and> f rq = g q \<and> f rq \<noteq> [])"
    by (auto simp: owner_is_def Let_def split: option.splits)
qed

section \<open>JSON Web Tokens (\<open>contrib/jwt/jwt.go\<close>)\<close>

text \<open>The token library is a parameter: \<open>parse\<close> returns the claims of a token that passed the checks the
  options ask for, \<open>subject\<close> is its \<open>GetSubject\<close>.\<close>

datatype claim = CStr string | CList "claim list" | COther

type_synonym claims = "string \<Rightarrow> claim option"

record jwt_config =
  jc_key :: bool
  jc_keyfunc :: bool
  jc_algorithms :: "string list"
  jc_issuer :: string
  jc_audience :: string
  jc_leeway :: duration

record jwt_options =
  jo_methods :: "string list"
  jo_leeway :: duration
  jo_expiration :: bool
  jo_issued_at :: bool
  jo_issuer :: "string option"
  jo_audience :: "string option"

definition jwt_new :: "jwt_config \<Rightarrow> (string, jwt_options) result" where
  "jwt_new cfg =
     (if jc_algorithms cfg = [] then Inl ''torgejwt: Algorithms must be set explicitly''
      else if \<not> jc_key cfg \<and> \<not> jc_keyfunc cfg then Inl ''torgejwt: Key or Keyfunc is required''
      else Inr \<lparr>jo_methods = jc_algorithms cfg,
                jo_leeway = (if jc_leeway cfg = 0 then 30 * 1000000000 else jc_leeway cfg),
                jo_expiration = True, jo_issued_at = True,
                jo_issuer = (if jc_issuer cfg = [] then None else Some (jc_issuer cfg)),
                jo_audience = (if jc_audience cfg = [] then None else Some (jc_audience cfg))\<rparr>)"

text \<open>\<open>strings.Fields\<close>\<close>

definition fields :: "string \<Rightarrow> string list" where
  "fields s = filter (\<lambda>w. w \<noteq> []) (split_on CHR '' '' (map (\<lambda>c. if is_space c then CHR '' '' else c) s))"

definition string_list :: "claim option \<Rightarrow> string list" where
  "string_list v =
     (case v of
        Some (CList xs) \<Rightarrow> List.map_filter (\<lambda>x. case x of CStr s \<Rightarrow> Some s | _ \<Rightarrow> None) xs
      | Some (CStr s) \<Rightarrow> fields s
      | _ \<Rightarrow> [])"

definition claim_string :: "claim option \<Rightarrow> string" where
  "claim_string v = (case v of Some (CStr s) \<Rightarrow> s | _ \<Rightarrow> [])"

definition default_principal :: "(claims \<Rightarrow> string option) \<Rightarrow> claims \<Rightarrow> ('d go_error, user) result" where
  "default_principal subject cs =
     (case subject cs of
        None \<Rightarrow> Inl (Wrapped ''token has no subject'' err_invalid_credentials)
      | Some sub \<Rightarrow>
          if sub = [] then Inl (Wrapped ''token has no subject'' err_invalid_credentials)
          else Inr \<lparr>u_subject = sub, u_name = claim_string (cs ''name''), u_email = claim_string (cs ''email''),
                    u_roles = string_list (cs ''roles''),
                    u_scopes = (case cs ''scope'' of Some (CStr s) \<Rightarrow> fields s | _ \<Rightarrow> string_list (cs ''scp''))\<rparr>)"

definition jwt_verifier ::
  "(jwt_options \<Rightarrow> string \<Rightarrow> ('d go_error, claims) result) \<Rightarrow> (claims \<Rightarrow> string option) \<Rightarrow>
     (claims \<Rightarrow> ('d go_error, principal option) result) option \<Rightarrow> jwt_options \<Rightarrow> string \<Rightarrow> ('d go_error, principal option) result" where
  "jwt_verifier parse subject to_principal opts token =
     (case parse opts token of
        Inl err \<Rightarrow> Inl (Joined [err_invalid_credentials, err])
      | Inr cs \<Rightarrow>
          (case to_principal of
             Some f \<Rightarrow> f cs
           | None \<Rightarrow> (case default_principal subject cs of Inl e \<Rightarrow> Inl e | Inr u \<Rightarrow> Inr (Some (user_principal u)))))"

text \<open>A verifier is only made with explicit algorithms and always demands an expiry; an accepted token gives
  a principal with a non-empty identifier, and a rejected one an error that stops the search for
  another authenticator.\<close>

lemma jwt_options_strict:
  "jwt_new cfg = Inr opts \<Longrightarrow> jo_methods opts \<noteq> [] \<and> jo_methods opts = jc_algorithms cfg \<and> jo_expiration opts"
  by (auto simp: jwt_new_def split: if_splits)

lemma jwt_accepts:
  "jwt_verifier parse subject None opts token = Inr p \<Longrightarrow> \<exists>q. p = Some q \<and> p_id q \<noteq> []"
  by (auto simp: jwt_verifier_def default_principal_def user_principal_def split: sum.splits option.splits if_splits)

lemma jwt_rejects:
  "parse opts token = Inl e \<Longrightarrow> \<not> is_sentinel e err_no_credentials \<Longrightarrow>
     \<exists>e'. jwt_verifier parse subject f opts token = Inl e' \<and> \<not> is_sentinel e' err_no_credentials"
  by (simp add: jwt_verifier_def is_sentinel_def err_no_credentials_def err_invalid_credentials_def)

end
