(* ===== verification/HttpClient.thy ===== *)
theory HttpClient
  imports Capture
begin

text \<open>
  \<open>httpclient/httpclient.go\<close>: the client's retry transport, header transport, configuration defaults and
  response check. The network is a function of the number of the attempt, so are the request's context, the
  random jitter and the clock; the dates of \<open>http.ParseTime\<close> are a parameter. \<open>retry_loop\<close>
  returns the result and the trace of attempts and pauses. A round trip gives a response or an
  error, never both.
\<close>

section \<open>Configuration\<close>

record hresponse =
  hr_status :: nat
  hr_retry_after :: string
  hr_body :: bytes

datatype net_error = CertError | NetError string

datatype attempt = Got hresponse | Failed net_error

record retry_policy =
  rp_max :: int
  rp_initial :: duration
  rp_cap :: duration
  rp_statuses :: "nat list option"
  rp_non_idempotent :: bool
  rp_should :: "(attempt \<Rightarrow> bool) option"

record client_config =
  hc_timeout :: duration
  hc_retry :: retry_policy
  hc_request_id :: string
  hc_user_agent :: string
  hc_header :: "(string \<times> string list) list"
  hc_max_error_body :: int

definition client_defaults :: "client_config \<Rightarrow> client_config" where
  "client_defaults c =
     (let r = hc_retry c in
      c\<lparr>hc_timeout := (if hc_timeout c = 0 then 30 * 1000000000 else hc_timeout c),
        hc_max_error_body := (if hc_max_error_body c \<le> 0 then 4096 else hc_max_error_body c),
        hc_request_id := (if hc_request_id c = [] then ''X-Request-ID'' else hc_request_id c),
        hc_retry := r\<lparr>rp_max := (if rp_max r \<le> 0 then 3 else rp_max r),
          rp_initial := (if rp_initial r \<le> 0 then 100 * 1000000 else rp_initial r),
          rp_cap := (if rp_cap r \<le> 0 then 2 * 1000000000 else rp_cap r),
          rp_statuses := (case rp_statuses r of None \<Rightarrow> Some [429, 502, 503, 504] | Some ss \<Rightarrow> Some ss)\<rparr>\<rparr>)"

section \<open>Retries\<close>

record out_request =
  or_method :: string
  or_body :: bool
  or_get_body :: bool
  or_idem_key :: string

record network =
  nw_outcome :: "nat \<Rightarrow> attempt"
  nw_ctx_err :: "nat \<Rightarrow> bool"
  nw_cancelled :: "nat \<Rightarrow> bool"
  nw_rand :: "nat \<Rightarrow> int \<Rightarrow> int"
  nw_replay :: "nat \<Rightarrow> bool"
  nw_now :: "nat \<Rightarrow> time"
  nw_parse_time :: "string \<Rightarrow> time option"

datatype rt_result = RtResponse hresponse | RtError net_error | RtCancelled | RtReplayFailed

datatype rt_event = Sent nat | Waited nat duration

definition idempotent_methods :: "string list" where
  "idempotent_methods = [''GET'', ''HEAD'', ''OPTIONS'', ''TRACE'', ''PUT'', ''DELETE'']"

definition can_retry :: "retry_policy \<Rightarrow> out_request \<Rightarrow> bool" where
  "can_retry pol rq \<longleftrightarrow>
     \<not> rp_max pol \<le> 1 \<and> \<not> (or_body rq \<and> \<not> or_get_body rq) \<and>
     (or_method rq \<in> set idempotent_methods \<or> or_idem_key rq \<noteq> [] \<or> rp_non_idempotent pol)"

definition should_retry :: "retry_policy \<Rightarrow> bool \<Rightarrow> attempt \<Rightarrow> bool" where
  "should_retry pol ctx_err out =
     (if ctx_err then False
      else case rp_should pol of
             Some f \<Rightarrow> f out
           | None \<Rightarrow>
               (case out of
                  Failed e \<Rightarrow> e \<noteq> CertError
                | Got res \<Rightarrow> hr_status res \<in> set (case rp_statuses pol of None \<Rightarrow> [] | Some ss \<Rightarrow> ss)))"

text \<open>The shift is one of a signed 64-bit integer, so it wraps.\<close>

definition client_backoff :: "retry_policy \<Rightarrow> nat \<Rightarrow> (int \<Rightarrow> int) \<Rightarrow> duration" where
  "client_backoff pol n rand =
     (let d0 = i64 (rp_initial pol * 2 ^ (n - 1));
          d = (if d0 \<le> 0 \<or> d0 > rp_cap pol then rp_cap pol else d0)
      in go_div d 2 + rand (go_div d 2 + 1))"

definition parse_retry_after :: "(string \<Rightarrow> time option) \<Rightarrow> time \<Rightarrow> string \<Rightarrow> duration option" where
  "parse_retry_after parse_time now v =
     (if v = [] then None
      else
        let by_date = (case parse_time v of None \<Rightarrow> None | Some t \<Rightarrow> Some (max (time_sub t now) 0))
        in case atoi v of
             None \<Rightarrow> by_date
           | Some secs \<Rightarrow> if secs \<ge> 0 then Some (i64 (secs * 1000000000)) else by_date)"

definition result_of :: "attempt \<Rightarrow> rt_result" where
  "result_of out = (case out of Got res \<Rightarrow> RtResponse res | Failed e \<Rightarrow> RtError e)"

definition server_pause :: "network \<Rightarrow> nat \<Rightarrow> duration option" where
  "server_pause nw n =
     (case nw_outcome nw n of
        Failed _ \<Rightarrow> None
      | Got res \<Rightarrow> parse_retry_after (nw_parse_time nw) (nw_now nw n) (hr_retry_after res))"

function retry_loop :: "retry_policy \<Rightarrow> network \<Rightarrow> out_request \<Rightarrow> nat \<Rightarrow> rt_result \<times> rt_event list" where
  "retry_loop pol nw rq n =
     (let out = nw_outcome nw n in
      if int n \<ge> rp_max pol \<or> \<not> should_retry pol (nw_ctx_err nw n) out then (result_of out, [Sent n])
      else if (case server_pause nw n of None \<Rightarrow> False | Some ra \<Rightarrow> ra > rp_cap pol) then (result_of out, [Sent n])
      else
        let b = client_backoff pol n (nw_rand nw n);
            delay = (case server_pause nw n of None \<Rightarrow> b | Some ra \<Rightarrow> max b ra)
        in if nw_cancelled nw n then (RtCancelled, [Sent n, Waited n delay])
           else if or_get_body rq \<and> \<not> nw_replay nw n then (RtReplayFailed, [Sent n, Waited n delay])
           else case retry_loop pol nw rq (n + 1) of (r, evs) \<Rightarrow> (r, Sent n # Waited n delay # evs))"
  by pat_completeness auto
termination
  by (relation "measure (\<lambda>(pol, nw, rq, n). nat (rp_max pol - int n))") auto

definition round_trip :: "retry_policy \<Rightarrow> network \<Rightarrow> out_request \<Rightarrow> rt_result \<times> rt_event list" where
  "round_trip pol nw rq =
     (if \<not> can_retry pol rq then (result_of (nw_outcome nw 1), [Sent 1]) else retry_loop pol nw rq 1)"

declare retry_loop.simps [simp del]

section \<open>Headers and responses\<close>

definition header_get :: "headers \<Rightarrow> string \<Rightarrow> string" where
  "header_get h k = (case h (canonical_key k) of Some (v # _) \<Rightarrow> v | _ \<Rightarrow> [])"

text \<open>\<open>headerTransport\<close>: the headers to add, then the copy of the request's headers with them. \<open>ctx_id\<close> is the
  request identifier of the context.\<close>

definition header_additions :: "client_config \<Rightarrow> string \<Rightarrow> headers \<Rightarrow> (string \<times> string list) list" where
  "header_additions cfg ctx_id h =
     (let a1 = (if hc_request_id cfg \<noteq> ''-'' \<and> header_get h (hc_request_id cfg) = [] \<and> ctx_id \<noteq> []
                then [(hc_request_id cfg, [ctx_id])] else []);
          a2 = (if hc_user_agent cfg \<noteq> [] \<and> header_get h ''User-Agent'' = []
                then AList.update ''User-Agent'' [hc_user_agent cfg] a1 else a1)
      in fold (\<lambda>(k, v) a. if header_get h k = [] then AList.update k v a else a) (hc_header cfg) a2)"

definition add_headers :: "client_config \<Rightarrow> string \<Rightarrow> headers \<Rightarrow> headers" where
  "add_headers cfg ctx_id h = fold (\<lambda>(k, v) h. h(canonical_key k \<mapsto> v)) (header_additions cfg ctx_id h) h"

text \<open>\<open>CheckResponse\<close>: \<open>Some\<close> is the status error with the beginning of the body.\<close>

definition check_response :: "client_config \<Rightarrow> hresponse \<Rightarrow> (nat \<times> bytes) option" where
  "check_response cfg res =
     (if hr_status res \<ge> 200 \<and> hr_status res < 300 then None
      else Some (hr_status res, take (nat (hc_max_error_body cfg)) (hr_body res)))"

section \<open>Bounds of a call with retries\<close>

definition sends :: "rt_event list \<Rightarrow> nat list" where
  "sends evs = List.map_filter (\<lambda>e. case e of Sent n \<Rightarrow> Some n | Waited _ _ \<Rightarrow> None) evs"

definition pauses :: "rt_event list \<Rightarrow> (nat \<times> duration) list" where
  "pauses evs = List.map_filter (\<lambda>e. case e of Sent _ \<Rightarrow> None | Waited n d \<Rightarrow> Some (n, d)) evs"

lemma trace_simps [simp]:
  "sends [] = []" "sends (Sent n # evs) = n # sends evs" "sends (Waited n d # evs) = sends evs"
  "pauses [] = []" "pauses (Sent n # evs) = pauses evs" "pauses (Waited n d # evs) = (n, d) # pauses evs"
  by (simp_all add: sends_def pauses_def List.map_filter_simps)

text \<open>The random source stays below its bound, as \<open>rand.Int64N\<close> does.\<close>

definition rand_ok :: "network \<Rightarrow> bool" where
  "rand_ok nw \<longleftrightarrow> (\<forall>n k. 0 < k \<longrightarrow> 0 \<le> nw_rand nw n k \<and> nw_rand nw n k < k)"

lemma client_backoff_bounds:
  assumes "0 < rp_cap pol" and "rand_ok nw"
  shows "0 \<le> client_backoff pol n (nw_rand nw n) \<and> client_backoff pol n (nw_rand nw n) \<le> rp_cap pol"
proof -
  define d where "d = (if i64 (rp_initial pol * 2 ^ (n - 1)) \<le> 0 \<or> i64 (rp_initial pol * 2 ^ (n - 1)) > rp_cap pol
    then rp_cap pol else i64 (rp_initial pol * 2 ^ (n - 1)))"
  have d: "0 < d" "d \<le> rp_cap pol" using assms(1) by (auto simp: d_def)
  have "client_backoff pol n (nw_rand nw n) = go_div d 2 + nw_rand nw n (go_div d 2 + 1)"
    unfolding client_backoff_def Let_def d_def by (rule refl)
  then have "client_backoff pol n (nw_rand nw n) = d div 2 + nw_rand nw n (d div 2 + 1)" using d by (simp add: go_div_pos)
  moreover have "0 \<le> nw_rand nw n (d div 2 + 1) \<and> nw_rand nw n (d div 2 + 1) < d div 2 + 1"
    using assms(2) [unfolded rand_ok_def, rule_format, of "d div 2 + 1" n] d by (simp add: pos_imp_zdiv_nonneg_iff)
  ultimately show ?thesis using d by linarith
qed

text \<open>Why an attempt was the last one: no attempts left, the outcome is not to be retried, or the server
  asks for a longer pause than the policy allows.\<close>

definition final_attempt :: "retry_policy \<Rightarrow> network \<Rightarrow> nat \<Rightarrow> bool" where
  "final_attempt pol nw n \<longleftrightarrow> int n \<ge> rp_max pol \<or> \<not> should_retry pol (nw_ctx_err nw n) (nw_outcome nw n) \<or>
     (\<exists>ra. server_pause nw n = Some ra \<and> ra > rp_cap pol)"

definition pause_ok :: "retry_policy \<Rightarrow> network \<Rightarrow> nat \<times> duration \<Rightarrow> bool" where
  "pause_ok pol nw p \<longleftrightarrow> (case p of (n, d) \<Rightarrow> 0 \<le> d \<and> d \<le> rp_cap pol \<and> \<not> final_attempt pol nw n \<and>
     (\<forall>ra. server_pause nw n = Some ra \<longrightarrow> ra \<le> d))"

lemma retry_loop_trace:
  assumes "0 < rp_cap pol" and "rand_ok nw" and "1 \<le> n"
  shows "\<exists>k \<ge> n. sends (snd (retry_loop pol nw rq n)) = [n..<k + 1] \<and> (k = n \<or> int k \<le> rp_max pol) \<and>
    list_all (pause_ok pol nw) (pauses (snd (retry_loop pol nw rq n))) \<and>
    map fst (pauses (snd (retry_loop pol nw rq n))) =
      (if fst (retry_loop pol nw rq n) = result_of (nw_outcome nw k) then [n..<k] else [n..<k + 1]) \<and>
    (fst (retry_loop pol nw rq n) = RtCancelled \<and> nw_cancelled nw k \<or>
       fst (retry_loop pol nw rq n) = RtReplayFailed \<and> or_get_body rq \<and> \<not> nw_replay nw k \<or>
       fst (retry_loop pol nw rq n) = result_of (nw_outcome nw k) \<and> final_attempt pol nw k)"
  using assms(3)
proof (induction "nat (rp_max pol - int n)" arbitrary: n rule: less_induct)
  case less
  let ?b = "client_backoff pol n (nw_rand nw n)"
  let ?d = "case server_pause nw n of None \<Rightarrow> ?b | Some ra \<Rightarrow> max ?b ra"
  have nr: "result_of out \<noteq> RtCancelled" "result_of out \<noteq> RtReplayFailed" for out
    by (simp_all add: result_of_def split: attempt.split)
  show ?case
  proof (cases "final_attempt pol nw n")
    case True
    then have "retry_loop pol nw rq n = (result_of (nw_outcome nw n), [Sent n])"
      by (subst retry_loop.simps) (auto simp: final_attempt_def Let_def)
    then show ?thesis using True by (intro exI [of _ n]) simp
  next
    case False
    have pd: "pause_ok pol nw (n, ?d)"
      using client_backoff_bounds [OF assms(1,2), of n] False
      by (auto simp: pause_ok_def final_attempt_def split: option.split)
    have step: "retry_loop pol nw rq n =
       (if nw_cancelled nw n then (RtCancelled, [Sent n, Waited n ?d])
        else if or_get_body rq \<and> \<not> nw_replay nw n then (RtReplayFailed, [Sent n, Waited n ?d])
        else (fst (retry_loop pol nw rq (n + 1)), Sent n # Waited n ?d # snd (retry_loop pol nw rq (n + 1))))"
      using False by (subst retry_loop.simps) (auto simp: final_attempt_def Let_def case_prod_unfold split: option.splits)
    show ?thesis
    proof (cases "nw_cancelled nw n \<or> or_get_body rq \<and> \<not> nw_replay nw n")
      case True
      then show ?thesis using pd nr [of "nw_outcome nw n"] unfolding step
        by (intro exI [of _ n]) (auto split: if_splits)
    next
      case go: False
      have lt: "nat (rp_max pol - int (n + 1)) < nat (rp_max pol - int n)" "int n < rp_max pol"
        using False by (auto simp: final_attempt_def)
      from less(1) [OF lt(1)] obtain k where k: "k \<ge> n + 1" "sends (snd (retry_loop pol nw rq (n + 1))) = [n + 1..<k + 1]"
        "k = n + 1 \<or> int k \<le> rp_max pol" "list_all (pause_ok pol nw) (pauses (snd (retry_loop pol nw rq (n + 1))))"
        "map fst (pauses (snd (retry_loop pol nw rq (n + 1)))) =
          (if fst (retry_loop pol nw rq (n + 1)) = result_of (nw_outcome nw k) then [n + 1..<k] else [n + 1..<k + 1])"
        "fst (retry_loop pol nw rq (n + 1)) = RtCancelled \<and> nw_cancelled nw k \<or>
          fst (retry_loop pol nw rq (n + 1)) = RtReplayFailed \<and> or_get_body rq \<and> \<not> nw_replay nw k \<or>
          fst (retry_loop pol nw rq (n + 1)) = result_of (nw_outcome nw k) \<and> final_attempt pol nw k" by auto
      have st: "fst (retry_loop pol nw rq n) = fst (retry_loop pol nw rq (n + 1))"
        "snd (retry_loop pol nw rq n) = Sent n # Waited n ?d # snd (retry_loop pol nw rq (n + 1))"
        using go by (auto simp: step)
      have kle: "int k \<le> rp_max pol" using k(3) lt(2) by auto
      have up: "n # [n + 1..<k + 1] = [n..<k + 1]" "n # [n + 1..<k] = [n..<k]" using k(1) by (simp_all add: upt_conv_Cons)
      show ?thesis
        unfolding st using k kle pd up by (intro exI [of _ k]) (simp split: if_splits)
    qed
  qed
qed

text \<open>What a server asks for with \<open>Retry-After\<close>, read without any bound on the numbers: whole seconds, or the time that is
  left until a date. The code reads it in 64-bit nanoseconds, which is the same as long as it fits.\<close>

definition asked_seconds :: "string \<Rightarrow> int option" where
  "asked_seconds v =
     (case atoi v of
        Some secs \<Rightarrow> if 0 \<le> secs then Some secs else None
      | None \<Rightarrow> if list_all is_dec_digit v then Some (int (dec_value v)) else None)"

definition asked_pause :: "network \<Rightarrow> nat \<Rightarrow> int option" where
  "asked_pause nw n =
     (case nw_outcome nw n of
        Failed _ \<Rightarrow> None
      | Got res \<Rightarrow>
          let v = hr_retry_after res in
          if v = [] then None
          else case asked_seconds v of
                 Some secs \<Rightarrow> Some (secs * 1000000000)
               | None \<Rightarrow> map_option (\<lambda>t. max (t - nw_now nw n) 0) (nw_parse_time nw v))"

lemma server_pause_asked:
  assumes "\<And>a. asked_pause nw n = Some a \<Longrightarrow> a \<le> max_i64"
  shows "server_pause nw n = asked_pause nw n"
proof (cases "nw_outcome nw n")
  case (Got res)
  have date: "max (time_sub t now) 0 = max (t - now) 0" if "max (t - now) 0 \<le> max_i64" for t now
    using that by (auto simp: time_sub_def min_i64_def max_i64_def)
  have secs: "i64 (secs * 1000000000) = secs * 1000000000" if "0 \<le> secs" "secs * 1000000000 \<le> max_i64" for secs
    using that by (intro i64_id) (simp add: fits_i64_def min_i64_def)
  have big: "max_i64 < int (dec_value v) * 1000000000" if v: "atoi v = None" "list_all is_dec_digit v" "v \<noteq> []" for v
  proof -
    obtain c cs where "v = c # cs" using v(3) by (cases v) auto
    then have "\<not> fits_i64 (int (dec_value v))"
      using v by (auto simp: atoi_def is_dec_digit_def char_code_def Let_def split: if_splits)
    then show ?thesis by (simp add: fits_i64_def max_i64_def min_i64_def)
  qed
  let ?v = "hr_retry_after res"
  note defs = server_pause_def asked_pause_def parse_retry_after_def asked_seconds_def Let_def
  show ?thesis
  proof (cases "?v = []")
    case False
    show ?thesis
    proof (cases "asked_seconds ?v")
      case None
      then have a: "asked_pause nw n = map_option (\<lambda>t. max (t - nw_now nw n) 0) (nw_parse_time nw ?v)"
        using Got False by (simp add: asked_pause_def)
      have "max (t - nw_now nw n) 0 \<le> max_i64" if "nw_parse_time nw ?v = Some t" for t
        using assms a that by simp
      then show ?thesis using Got False None
        by (auto simp: defs date split: option.splits if_splits)
    next
      case (Some secs)
      then have a: "asked_pause nw n = Some (secs * 1000000000)" using Got False by (simp add: asked_pause_def)
      then have le: "secs * 1000000000 \<le> max_i64" by (rule assms)
      have "atoi ?v = Some secs \<and> 0 \<le> secs"
        using Some le big [OF _ _ False] by (fastforce simp: asked_seconds_def split: option.splits if_splits)
      then show ?thesis using a le Got False by (simp add: server_pause_def parse_retry_after_def secs)
    qed
  qed (use Got in \<open>simp add: defs\<close>)
qed (simp add: server_pause_def asked_pause_def)

text \<open>Which requests may be sent more than once: those that an idempotent method, an idempotency key or the policy allows
  to repeat, when the body, if there is one, can be produced again.\<close>

definition may_retry :: "retry_policy \<Rightarrow> out_request \<Rightarrow> bool" where
  "may_retry pol rq \<longleftrightarrow>
     1 < rp_max pol \<and> (or_body rq \<longrightarrow> or_get_body rq) \<and>
     (or_method rq \<in> {''GET'', ''HEAD'', ''OPTIONS'', ''TRACE'', ''PUT'', ''DELETE''} \<or> or_idem_key rq \<noteq> [] \<or> rp_non_idempotent pol)"

text \<open>Which outcomes are worth another attempt: while the context is alive, what the caller's own predicate says; without one, a
  failed exchange that is no certificate problem, or a response with one of the listed statuses.\<close>

definition worth_retrying :: "retry_policy \<Rightarrow> network \<Rightarrow> nat \<Rightarrow> bool" where
  "worth_retrying pol nw n \<longleftrightarrow> \<not> nw_ctx_err nw n \<and>
     (case (rp_should pol, nw_outcome nw n) of
        (Some wants, out) \<Rightarrow> wants out
      | (None, Failed e) \<Rightarrow> e \<noteq> CertError
      | (None, Got res) \<Rightarrow> (\<exists>ss. rp_statuses pol = Some ss \<and> hr_status res \<in> set ss))"

definition last_attempt :: "retry_policy \<Rightarrow> network \<Rightarrow> nat \<Rightarrow> bool" where
  "last_attempt pol nw n \<longleftrightarrow> rp_max pol \<le> int n \<or> \<not> worth_retrying pol nw n \<or> (\<exists>a. asked_pause nw n = Some a \<and> rp_cap pol < a)"

lemma can_retry_may: "can_retry pol rq \<longleftrightarrow> may_retry pol rq"
  by (auto simp: can_retry_def may_retry_def idempotent_methods_def)

lemma final_attempt_last:
  assumes "\<And>n a. asked_pause nw n = Some a \<Longrightarrow> a \<le> max_i64"
  shows "final_attempt pol nw n \<longleftrightarrow> last_attempt pol nw n"
proof -
  have "server_pause nw n = asked_pause nw n" by (rule server_pause_asked) (rule assms)
  then show ?thesis unfolding final_attempt_def last_attempt_def
    by (auto simp: should_retry_def worth_retrying_def split: option.splits attempt.splits)
qed

text \<open>C24: A call through the retry transport makes attempts numbered from 1, at most \<open>MaxAttempts\<close> of them, and one only unless
  the request may be repeated: an idempotent method, an idempotency key or a policy that says so, and a body that
  can be replayed. After each attempt that is not the last there is a pause, and a last attempt is one that reaches
  \<open>MaxAttempts\<close>, whose outcome is not worth retrying, or for which the server asks for more than \<open>MaxBackoff\<close>. A pause
  is never longer than \<open>MaxBackoff\<close> and never shorter than what the server asked for with \<open>Retry-After\<close>, as the header
  says and not as the code computes it, for headers that ask for less than 2^63 nanoseconds (some 292 years; see
  \<open>parse_retry_after_wraps\<close>). The result is the outcome of the last attempt; otherwise the context was cancelled
  during the pause after it, or its body could not be produced again.\<close>

theorem retry_transport:
  assumes "0 < rp_cap pol" and "rand_ok nw" and "\<And>n a. asked_pause nw n = Some a \<Longrightarrow> a \<le> max_i64"
    and "round_trip pol nw rq = (result, trace)"
  shows "\<exists>k \<ge> 1. sends trace = [1..<k + 1] \<and> int k \<le> max 1 (rp_max pol) \<and> (\<not> may_retry pol rq \<longrightarrow> k = 1) \<and>
    map fst (pauses trace) = (if result \<in> {RtCancelled, RtReplayFailed} then [1..<k + 1] else [1..<k]) \<and>
    (\<forall>(n, d) \<in> set (pauses trace). may_retry pol rq \<and> \<not> last_attempt pol nw n \<and> 0 \<le> d \<and> d \<le> rp_cap pol \<and>
       (\<forall>a. asked_pause nw n = Some a \<longrightarrow> a \<le> d)) \<and>
    (result = result_of (nw_outcome nw k) \<and> (may_retry pol rq \<longrightarrow> last_attempt pol nw k) \<or>
     result = RtCancelled \<and> nw_cancelled nw k \<or> result = RtReplayFailed \<and> or_get_body rq \<and> \<not> nw_replay nw k)"
proof (cases "can_retry pol rq")
  case True
  then have eq: "retry_loop pol nw rq 1 = (result, trace)" using assms(4) by (simp add: round_trip_def)
  have may: "may_retry pol rq" using True can_retry_may by blast
  have nr: "result_of out \<noteq> RtCancelled" "result_of out \<noteq> RtReplayFailed" for out
    by (simp_all add: result_of_def split: attempt.split)
  have asked: "server_pause nw n = asked_pause nw n" for n by (rule server_pause_asked) (rule assms(3))
  have last: "final_attempt pol nw n \<longleftrightarrow> last_attempt pol nw n" for n by (rule final_attempt_last) (rule assms(3))
  from retry_loop_trace [OF assms(1,2), of 1 rq] obtain k where k: "k \<ge> 1" "sends trace = [1..<k + 1]"
    "k = 1 \<or> int k \<le> rp_max pol" "list_all (pause_ok pol nw) (pauses trace)"
    "map fst (pauses trace) = (if result = result_of (nw_outcome nw k) then [1..<k] else [1..<k + 1])"
    "result = RtCancelled \<and> nw_cancelled nw k \<or> result = RtReplayFailed \<and> or_get_body rq \<and> \<not> nw_replay nw k \<or>
       result = result_of (nw_outcome nw k) \<and> final_attempt pol nw k" unfolding eq by auto
  have "\<forall>(n, d) \<in> set (pauses trace). \<not> last_attempt pol nw n \<and> 0 \<le> d \<and> d \<le> rp_cap pol \<and>
      (\<forall>a. asked_pause nw n = Some a \<longrightarrow> a \<le> d)"
    using k(4) by (auto simp: list_all_iff pause_ok_def asked last)
  moreover have "map fst (pauses trace) = (if result \<in> {RtCancelled, RtReplayFailed} then [1..<k + 1] else [1..<k])"
    using k(5,6) nr [of "nw_outcome nw k"] by (auto split: if_splits)
  ultimately show ?thesis using k(1,2,3,6) may unfolding last by (intro exI [of _ k]) auto
next
  case False
  have nr: "result_of out \<noteq> RtCancelled" "result_of out \<noteq> RtReplayFailed" for out
    by (simp_all add: result_of_def split: attempt.split)
  from False assms(4) show ?thesis
    by (intro exI [of _ 1]) (auto simp: round_trip_def can_retry_may nr)
qed

definition sample_policy :: retry_policy where
  "sample_policy = hc_retry (client_defaults \<lparr>hc_timeout = 0, hc_retry = \<lparr>rp_max = 0, rp_initial = 0, rp_cap = 0,
     rp_statuses = None, rp_non_idempotent = False, rp_should = None\<rparr>, hc_request_id = [], hc_user_agent = [],
     hc_header = [], hc_max_error_body = 0\<rparr>)"

definition flaky_network :: network where
  "flaky_network = \<lparr>nw_outcome = (\<lambda>n. if n < 2 then Got \<lparr>hr_status = 503, hr_retry_after = ''1'', hr_body = []\<rparr>
       else Got \<lparr>hr_status = 200, hr_retry_after = [], hr_body = ''ok''\<rparr>),
     nw_ctx_err = (\<lambda>_. False), nw_cancelled = (\<lambda>_. False), nw_rand = (\<lambda>_ _. 0), nw_replay = (\<lambda>_. True),
     nw_now = (\<lambda>_. 0), nw_parse_time = (\<lambda>_. None)\<rparr>"

theorem retry_transport_witness:
  "\<exists>result trace. round_trip sample_policy flaky_network \<lparr>or_method = ''POST'', or_body = False, or_get_body = False, or_idem_key = []\<rparr> =
     (result, trace) \<and> sends trace = [1] \<and> pauses trace = []"
proof -
  let ?rq = "\<lparr>or_method = ''POST'', or_body = False, or_get_body = False, or_idem_key = []\<rparr>"
  have pol: "0 < rp_cap sample_policy" "rp_max sample_policy = 3" "\<not> rp_non_idempotent sample_policy"
    by (simp_all add: sample_policy_def client_defaults_def)
  have rand: "rand_ok flaky_network" by (simp add: rand_ok_def flaky_network_def)
  have "atoi ''1'' = Some 1" by code_simp
  then have asked: "a \<le> max_i64" if "asked_pause flaky_network n = Some a" for n a
    using that by (auto simp: asked_pause_def flaky_network_def asked_seconds_def max_i64_def split: if_splits)
  obtain result trace where rt: "round_trip sample_policy flaky_network ?rq = (result, trace)" by fastforce
  have "\<not> may_retry sample_policy ?rq" using pol by (simp add: may_retry_def)
  with retry_transport [OF pol(1) rand asked rt] have "sends trace = [1]" "\<forall>p \<in> set (pauses trace). False"
    by (auto simp: upt_rec)
  then show ?thesis using rt by (cases "pauses trace") auto
qed

text \<open>A \<open>Retry-After\<close> in seconds is the pause, but the product wraps for large values.\<close>

lemma parse_retry_after_exact:
  "0 \<le> n \<Longrightarrow> n * 1000000000 \<le> max_i64 \<Longrightarrow> atoi v = Some n \<Longrightarrow> v \<noteq> [] \<Longrightarrow> parse_retry_after pt now v = Some (n * 1000000000)"
  by (simp add: parse_retry_after_def i64_id i64_bounds_defs)

lemma parse_retry_after_wraps: "parse_retry_after pt now ''9223372037'' = Some (- 9223372036709551616)"
proof -
  have "atoi ''9223372037'' = Some 9223372037"
    by (simp add: atoi_def dec_value_def is_dec_digit_def char_code_def i64_bounds_defs)
  then show ?thesis by (simp add: parse_retry_after_def i64_def)
qed

text \<open>The header transport never replaces a value the request has.\<close>

lemma update_all: "\<forall>k \<in> fst ` set xs. P k \<Longrightarrow> P k \<Longrightarrow> \<forall>k' \<in> fst ` set (AList.update k v xs). P k'"
  by (auto simp: dom_update)

lemma additions_absent: "\<forall>k \<in> fst ` set (header_additions cfg ctx_id h). header_get h k = []"
proof -
  define a1 where "a1 = (if hc_request_id cfg \<noteq> ''-'' \<and> header_get h (hc_request_id cfg) = [] \<and> ctx_id \<noteq> []
    then [(hc_request_id cfg, [ctx_id])] else [])"
  define a2 where "a2 = (if hc_user_agent cfg \<noteq> [] \<and> header_get h ''User-Agent'' = []
    then AList.update ''User-Agent'' [hc_user_agent cfg] a1 else a1)"
  have "\<forall>k \<in> fst ` set a1. header_get h k = []" by (simp add: a1_def)
  then have 2: "\<forall>k \<in> fst ` set a2. header_get h k = []" unfolding a2_def
    using update_all [of a1 "\<lambda>k. header_get h k = []" "''User-Agent''"] by (split if_split) blast
  have "\<forall>k \<in> fst ` set (fold (\<lambda>(k, v) a. if header_get h k = [] then AList.update k v a else a) hs a). header_get h k = []"
    if "\<forall>k \<in> fst ` set a. header_get h k = []" for hs a
    using that
  proof (induction hs arbitrary: a)
    case (Cons x hs)
    obtain k1 v1 where x: "x = (k1, v1)" by fastforce
    have "\<forall>k \<in> fst ` set (if header_get h k1 = [] then AList.update k1 v1 a else a). header_get h k = []"
    proof (cases "header_get h k1 = []")
      case True
      show ?thesis unfolding if_P [OF True]
        by (rule update_all [where P = "\<lambda>k. header_get h k = []", OF Cons.prems]) (rule True)
    next
      case False
      show ?thesis unfolding if_not_P [OF False] by (rule Cons.prems)
    qed
    from Cons.IH [OF this] show ?case unfolding x fold_Cons comp_apply case_prod_conv .
  qed auto
  from this [OF 2] show ?thesis
    unfolding header_additions_def Let_def a1_def [symmetric] a2_def [symmetric] .
qed

lemma add_headers_keeps:
  assumes "h c = Some (v # vs)" and "v \<noteq> []"
  shows "add_headers cfg ctx_id h c = h c"
proof -
  have keep: "fold (\<lambda>(k, v) h. h(canonical_key k \<mapsto> v)) as g c = g c" if "\<forall>k \<in> fst ` set as. canonical_key k \<noteq> c"
    for g :: headers and as
    using that by (induction as arbitrary: g) auto
  have "\<forall>k \<in> fst ` set (header_additions cfg ctx_id h). canonical_key k \<noteq> c"
    using additions_absent [of cfg ctx_id h] assms by (auto simp: header_get_def split: option.splits list.splits)
  then show ?thesis unfolding add_headers_def by (rule keep)
qed

end
