(* ===== verification/Webhook.thy ===== *)
theory Webhook
  imports HttpClient Errors CacheMemory
begin

text \<open>
  \<open>webhook/webhook.go\<close>: the generic HMAC, Stripe and Standard Webhooks verifiers, the GitHub preset, and the
  middleware with replay protection. The keyed hash is a parameter \<open>mac\<close>; hex and base64 are
  modelled. A request is its headers and its body; the id inside a Stripe payload is read by a
  parameter. Times are nanoseconds from the year 1; \<open>time.Unix\<close> adds the seconds up to 1970 in 64 bits.
  The read limit is the configured size plus one, also in 64 bits.
\<close>

section \<open>Encodings\<close>

definition hex_val :: "char \<Rightarrow> nat option" where
  "hex_val c =
     (if 48 \<le> char_code c \<and> char_code c \<le> 57 then Some (char_code c - 48)
      else if 97 \<le> char_code c \<and> char_code c \<le> 102 then Some (char_code c - 87)
      else if 65 \<le> char_code c \<and> char_code c \<le> 70 then Some (char_code c - 55) else None)"

definition hex_digit :: "nat \<Rightarrow> char" where
  "hex_digit n = (if n < 10 then char_of (48 + n) else char_of (87 + n))"

fun hex_decode :: "string \<Rightarrow> bytes option" where
  "hex_decode [] = Some []"
| "hex_decode [c] = None"
| "hex_decode (a # b # s) =
     (case (hex_val a, hex_val b, hex_decode s) of
        (Some x, Some y, Some r) \<Rightarrow> Some (char_of (16 * x + y) # r) | _ \<Rightarrow> None)"

fun hex_encode :: "bytes \<Rightarrow> string" where
  "hex_encode [] = []"
| "hex_encode (c # cs) = hex_digit (char_code c div 16) # hex_digit (char_code c mod 16) # hex_encode cs"

definition b64_val :: "char \<Rightarrow> nat option" where
  "b64_val c =
     (if 65 \<le> char_code c \<and> char_code c \<le> 90 then Some (char_code c - 65)
      else if 97 \<le> char_code c \<and> char_code c \<le> 122 then Some (char_code c - 71)
      else if 48 \<le> char_code c \<and> char_code c \<le> 57 then Some (char_code c + 4)
      else if c = CHR ''+'' then Some 62 else if c = CHR ''/'' then Some 63 else None)"

definition b64_digit :: "nat \<Rightarrow> char" where
  "b64_digit n =
     (if n < 26 then char_of (65 + n) else if n < 52 then char_of (71 + n) else if n < 62 then char_of (n - 4)
      else if n = 62 then CHR ''+'' else CHR ''/'')"

text \<open>Standard base64 with padding; trailing bits are not checked.\<close>

fun b64_groups :: "string \<Rightarrow> bytes option" where
  "b64_groups [] = Some []"
| "b64_groups (a # b # c # d # s) =
     (case (b64_val a, b64_val b) of
        (Some w, Some x) \<Rightarrow>
          if c = CHR ''='' then (if d = CHR ''='' \<and> s = [] then Some [char_of (4 * w + x div 16)] else None)
          else (case b64_val c of
                  None \<Rightarrow> None
                | Some y \<Rightarrow>
                    if d = CHR ''='' then
                      (if s = [] then Some [char_of (4 * w + x div 16), char_of (16 * (x mod 16) + y div 4)] else None)
                    else (case (b64_val d, b64_groups s) of
                            (Some z, Some r) \<Rightarrow>
                              Some (char_of (4 * w + x div 16) # char_of (16 * (x mod 16) + y div 4) #
                                    char_of (64 * (y mod 4) + z) # r)
                          | _ \<Rightarrow> None))
      | _ \<Rightarrow> None)"
| "b64_groups _ = None"

definition b64_decode :: "string \<Rightarrow> bytes option" where
  "b64_decode s = b64_groups (filter (\<lambda>c. c \<noteq> CHR 0x0A \<and> c \<noteq> CHR 0x0D) s)"

fun b64_encode :: "bytes \<Rightarrow> string" where
  "b64_encode [] = []"
| "b64_encode [a] = [b64_digit (char_code a div 4), b64_digit (16 * (char_code a mod 4)), CHR ''='', CHR ''='']"
| "b64_encode [a, b] =
     [b64_digit (char_code a div 4), b64_digit (16 * (char_code a mod 4) + char_code b div 16),
      b64_digit (4 * (char_code b mod 16)), CHR ''='']"
| "b64_encode (a # b # c # s) =
     b64_digit (char_code a div 4) # b64_digit (16 * (char_code a mod 4) + char_code b div 16) #
     b64_digit (4 * (char_code b mod 16) + char_code c div 64) # b64_digit (char_code c mod 64) # b64_encode s"

datatype encoding = Hex | Base64

definition decode_sig :: "string \<Rightarrow> encoding \<Rightarrow> bytes option" where
  "decode_sig s enc = (if enc = Base64 then b64_decode s else hex_decode s)"

definition sign_with :: "(bytes \<Rightarrow> bytes \<Rightarrow> bytes) \<Rightarrow> bytes \<Rightarrow> bytes \<Rightarrow> encoding \<Rightarrow> string" where
  "sign_with mac secret payload enc =
     (if enc = Base64 then b64_encode (mac secret payload) else hex_encode (mac secret payload))"

section \<open>Verifiers\<close>

record webhook_event =
  we_id :: string
  we_time :: time
  we_signature :: string

datatype webhook_error = MissingSignature | InvalidSignature | BadTimestamp

text \<open>\<open>time.Unix secs 0\<close>.\<close>

definition unix_time :: "int \<Rightarrow> time" where
  "unix_time secs = i64 (secs + 62135596800) * 1000000000"

definition check_timestamp :: "string \<Rightarrow> time \<Rightarrow> duration \<Rightarrow> (webhook_error, time) result" where
  "check_timestamp raw now tolerance =
     (case atoi raw of
        None \<Rightarrow> Inl BadTimestamp
      | Some secs \<Rightarrow>
          let ts = unix_time secs; d = time_sub now ts
          in if d > tolerance \<or> d < - tolerance then Inl BadTimestamp else Inr ts)"

record hmac_config =
  hm_secrets :: "bytes list"
  hm_header :: string
  hm_prefix :: string
  hm_encoding :: encoding
  hm_ts_header :: string
  hm_tolerance :: duration
  hm_id_header :: string

definition new_hmac :: "hmac_config \<Rightarrow> hmac_config" where
  "new_hmac c =
     c\<lparr>hm_header := (if hm_header c = [] then ''X-Signature'' else hm_header c),
       hm_tolerance := (if hm_tolerance c \<le> 0 then 5 * 60 * 1000000000 else hm_tolerance c)\<rparr>"

definition accepts :: "(bytes \<Rightarrow> bytes \<Rightarrow> bytes) \<Rightarrow> bytes list \<Rightarrow> bytes \<Rightarrow> bytes \<Rightarrow> bool" where
  "accepts mac secrets payload want \<longleftrightarrow> list_ex (\<lambda>s. want = mac s payload) secrets"

definition hmac_verify ::
  "(bytes \<Rightarrow> bytes \<Rightarrow> bytes) \<Rightarrow> hmac_config \<Rightarrow> headers \<Rightarrow> bytes \<Rightarrow> time \<Rightarrow> (webhook_error, webhook_event) result" where
  "hmac_verify mac c h body now =
     (let sig0 = header_get h (hm_header c) in
      if sig0 = [] then Inl MissingSignature
      else
        let sig = trim_prefix sig0 (hm_prefix c);
            ident = (if hm_id_header c \<noteq> [] then header_get h (hm_id_header c) else []);
            raw = header_get h (hm_ts_header c);
            stamped = (if hm_ts_header c \<noteq> [] then
                         (case check_timestamp raw now (hm_tolerance c) of
                            Inl e \<Rightarrow> Inl e | Inr ts \<Rightarrow> Inr (ts, raw @ ''.'' @ body))
                       else Inr (0, body))
        in case stamped of
             Inl e \<Rightarrow> Inl e
           | Inr (ts, payload) \<Rightarrow>
               (case decode_sig sig (hm_encoding c) of
                  None \<Rightarrow> Inl InvalidSignature
                | Some want \<Rightarrow>
                    if accepts mac (hm_secrets c) payload want
                    then Inr \<lparr>we_id = ident, we_time = ts, we_signature = sig\<rparr> else Inl InvalidSignature))"

definition github :: "bytes \<Rightarrow> hmac_config" where
  "github secret = new_hmac \<lparr>hm_secrets = [secret], hm_header = ''X-Hub-Signature-256'', hm_prefix = ''sha256='',
     hm_encoding = Hex, hm_ts_header = [], hm_tolerance = 0, hm_id_header = ''X-GitHub-Delivery''\<rparr>"

fun stripe_parts :: "string list \<Rightarrow> string \<Rightarrow> string list \<Rightarrow> string \<times> string list" where
  "stripe_parts [] ts sigs = (ts, sigs)"
| "stripe_parts (part # ps) ts sigs =
     (case cut_at CHR ''='' (trim_space part) of (k, val, _) \<Rightarrow>
        if k = ''t'' then stripe_parts ps val sigs
        else if k = ''v1'' then stripe_parts ps ts (sigs @ [val]) else stripe_parts ps ts sigs)"

text \<open>The first signature that matches, secret by secret.\<close>

fun first_match :: "(string \<Rightarrow> bytes option) \<Rightarrow> bytes list \<Rightarrow> string list \<Rightarrow> string option" where
  "first_match dec [] sigs = None"
| "first_match dec (e # es) sigs =
     (case find (\<lambda>s. dec s = Some e) sigs of Some s \<Rightarrow> Some s | None \<Rightarrow> first_match dec es sigs)"

definition stripe_verify ::
  "(bytes \<Rightarrow> bytes \<Rightarrow> bytes) \<Rightarrow> (bytes \<Rightarrow> string) \<Rightarrow> bytes list \<Rightarrow> headers \<Rightarrow> bytes \<Rightarrow> time \<Rightarrow> (webhook_error, webhook_event) result" where
  "stripe_verify mac json_id secrets h body now =
     (let header = header_get h ''Stripe-Signature'' in
      if header = [] then Inl MissingSignature
      else case stripe_parts (split_on CHR '','' header) [] [] of (ts, sigs) \<Rightarrow>
        if ts = [] \<or> sigs = [] then Inl InvalidSignature
        else case check_timestamp ts now (5 * 60 * 1000000000) of
               Inl e \<Rightarrow> Inl e
             | Inr w \<Rightarrow>
                 (case first_match hex_decode (map (\<lambda>s. mac s (ts @ ''.'' @ body)) secrets) sigs of
                    Some s \<Rightarrow> Inr \<lparr>we_id = json_id body, we_time = w, we_signature = s\<rparr>
                  | None \<Rightarrow> Inl InvalidSignature))"

text \<open>The secrets of \<open>StandardWebhooks\<close>; \<open>None\<close> when one is not base64.\<close>

fun standard_secrets :: "string list \<Rightarrow> bytes list option" where
  "standard_secrets [] = Some []"
| "standard_secrets (s # ss) =
     (case b64_decode (trim_prefix s ''whsec_'') of
        None \<Rightarrow> None
      | Some k \<Rightarrow> (case standard_secrets ss of None \<Rightarrow> None | Some ks \<Rightarrow> Some (k # ks)))"

definition header_fields :: "string \<Rightarrow> string list" where
  "header_fields s = filter (\<lambda>w. w \<noteq> []) (split_on CHR '' '' (map (\<lambda>c. if is_space c then CHR '' '' else c) s))"

definition standard_sigs :: "string \<Rightarrow> string list" where
  "standard_sigs header =
     List.map_filter (\<lambda>entry. case cut_at CHR '','' entry of (version, sig, ok) \<Rightarrow>
       if \<not> ok \<or> version \<noteq> ''v1'' then None else Some sig) (header_fields header)"

definition standard_verify ::
  "(bytes \<Rightarrow> bytes \<Rightarrow> bytes) \<Rightarrow> bytes list \<Rightarrow> headers \<Rightarrow> bytes \<Rightarrow> time \<Rightarrow> (webhook_error, webhook_event) result" where
  "standard_verify mac secrets h body now =
     (let ident = header_get h ''webhook-id''; ts = header_get h ''webhook-timestamp''; header = header_get h ''webhook-signature''
      in if ident = [] \<or> ts = [] \<or> header = [] then Inl MissingSignature
         else case check_timestamp ts now (5 * 60 * 1000000000) of
                Inl e \<Rightarrow> Inl e
              | Inr w \<Rightarrow>
                  (case first_match b64_decode (map (\<lambda>s. mac s (ident @ ''.'' @ ts @ ''.'' @ body)) secrets) (standard_sigs header) of
                     Some s \<Rightarrow> Inr \<lparr>we_id = ident, we_time = w, we_signature = s\<rparr>
                   | None \<Rightarrow> Inl InvalidSignature))"

section \<open>The middleware\<close>

type_synonym verifier = "headers \<Rightarrow> bytes \<Rightarrow> time \<Rightarrow> (webhook_error, webhook_event) result"

definition webhook_pfx :: string where "webhook_pfx = ''torge:webhook:''"

record webhook_config =
  wc_max_body :: int
  wc_replay_ttl :: duration

definition webhook_defaults :: "webhook_config \<Rightarrow> webhook_config" where
  "webhook_defaults c =
     c\<lparr>wc_max_body := (if wc_max_body c \<le> 0 then 1048576 else wc_max_body c),
       wc_replay_ttl := (if wc_replay_ttl c \<le> 0 then 24 * 3600 * 1000000000 else wc_replay_ttl c)\<rparr>"

definition reject_code :: "webhook_error \<Rightarrow> string" where
  "reject_code e = (case e of MissingSignature \<Rightarrow> ''WEBHOOK_SIGNATURE_MISSING''
     | BadTimestamp \<Rightarrow> ''WEBHOOK_TIMESTAMP_INVALID'' | InvalidSignature \<Rightarrow> ''WEBHOOK_SIGNATURE_INVALID'')"

datatype webhook_outcome = TooLarge int | BodyFailed | Refused string | Duplicate |
  Handled bytes webhook_event nat | HandlerFailed bytes webhook_event

definition delivery_key :: "webhook_event \<Rightarrow> string" where
  "delivery_key ev = (if we_id ev = [] then ''sig:'' @ we_signature ev else we_id ev)"

text \<open>A delivery: the headers, the body as it can be read (\<open>None\<close> when reading fails within the limit), the instants
  of verification, lookup and recording, and what the handler does with the verified body: \<open>None\<close> is an
  error, \<open>Some\<close> the status.\<close>

record delivery =
  dl_headers :: headers
  dl_body :: "bytes option"
  dl_now :: time
  dl_get :: time
  dl_set :: time
  dl_handler :: "bytes \<Rightarrow> nat option"

text \<open>\<open>io.ReadAll\<close> of a \<open>LimitReader\<close> for one byte more than the limit, a sum that wraps: a reader for a count below
  one is at its end at once. A body longer than the limit is kept whole here; only its length matters then.\<close>

definition webhook_body :: "int \<Rightarrow> bytes option \<Rightarrow> bytes option" where
  "webhook_body limit body = (if i64 (limit + 1) \<le> 0 then Some [] else body)"

definition webhook_middleware ::
  "webhook_config \<Rightarrow> verifier \<Rightarrow> 's store option \<Rightarrow> delivery \<Rightarrow> 's \<Rightarrow> webhook_outcome \<times> 's" where
  "webhook_middleware cfg0 verify replay d s =
     (let cfg = webhook_defaults cfg0 in
      case webhook_body (wc_max_body cfg) (dl_body d) of
        None \<Rightarrow> (BodyFailed, s)
      | Some body \<Rightarrow>
          if int (length body) > wc_max_body cfg then (TooLarge (wc_max_body cfg), s)
          else case verify (dl_headers d) body (dl_now d) of
                 Inl e \<Rightarrow> (Refused (reject_code e), s)
               | Inr ev \<Rightarrow>
                   let (dup, s1) = (case replay of
                                      None \<Rightarrow> (False, s)
                                    | Some st \<Rightarrow> (case st_get st (dl_get d) (delivery_key ev) s of (res, s') \<Rightarrow> (\<not> isl res, s')))
                   in if dup then (Duplicate, s1)
                      else case dl_handler d body of
                             None \<Rightarrow> (HandlerFailed body ev, s1)
                           | Some status \<Rightarrow>
                               (Handled body ev status,
                                case replay of
                                  None \<Rightarrow> s1
                                | Some st \<Rightarrow>
                                    if status < 300
                                    then snd (st_set st (dl_set d) (delivery_key ev) [CHR 0x01] (wc_replay_ttl cfg) s1) else s1))"

section \<open>Round trips of the encodings\<close>

lemma char_code_lt: "char_code c < 256"
  by (simp add: char_code_def)

lemma char_of_code [simp]: "char_of (char_code c) = c"
  by (simp add: char_code_def)

lemma code_char_of: "n < 256 \<Longrightarrow> char_code (char_of n) = n"
  by (simp add: char_code_def)

lemma hex_digit_val: "n < 16 \<Longrightarrow> hex_val (hex_digit n) = Some n"
  by (simp add: hex_val_def hex_digit_def code_char_of)

lemma hex_roundtrip: "hex_decode (hex_encode bs) = Some bs"
proof (induction bs)
  case (Cons c cs)
  have "char_code c div 16 < 16" using char_code_lt [of c] by (simp add: div_less_iff_less_mult)
  then show ?case using Cons by (simp add: hex_digit_val)
qed simp

lemma b64_digit_cases: "n < 64 \<Longrightarrow> (n < 26 \<and> b64_digit n = char_of (65 + n)) \<or> (26 \<le> n \<and> n < 52 \<and> b64_digit n = char_of (71 + n)) \<or>
    (52 \<le> n \<and> n < 62 \<and> b64_digit n = char_of (n - 4)) \<or> (n = 62 \<and> b64_digit n = CHR ''+'') \<or> (n = 63 \<and> b64_digit n = CHR ''/'')"
  by (auto simp: b64_digit_def)

lemma b64_digit_val: "n < 64 \<Longrightarrow> b64_val (b64_digit n) = Some n"
  using b64_digit_cases [of n] by (auto simp: b64_val_def code_char_of) (simp_all add: char_code_def)

lemma b64_digit_plain:
  assumes "n < 64"
  shows "b64_digit n \<noteq> CHR ''=''" "b64_digit n \<noteq> CHR 0x0A" "b64_digit n \<noteq> CHR 0x0D"
  using b64_digit_val [OF assms] by (auto simp: b64_val_def char_code_def)

lemma b64_parts:
  fixes a b c :: nat
  assumes "a < 256" "b < 256" "c < 256"
  shows "a div 4 < 64" "16 * (a mod 4) + b div 16 < 64" "16 * (a mod 4) < 64" "4 * (b mod 16) + c div 64 < 64"
    "4 * (b mod 16) < 64" "c mod 64 < 64"
    "4 * (a div 4) + (16 * (a mod 4) + b div 16) div 16 = a" "4 * (a div 4) + (16 * (a mod 4)) div 16 = a"
    "16 * ((16 * (a mod 4) + b div 16) mod 16) + (4 * (b mod 16) + c div 64) div 4 = b"
    "16 * ((16 * (a mod 4) + b div 16) mod 16) + (4 * (b mod 16)) div 4 = b"
    "64 * ((4 * (b mod 16) + c div 64) mod 4) + c mod 64 = c"
proof -
  have d: "a div 4 < 64" "b div 16 < 16" "c div 64 < 4" using assms by (simp_all add: div_less_iff_less_mult)
  have m: "a mod 4 < 4" "b mod 16 < 16" "c mod 64 < 64" by simp_all
  show "a div 4 < 64" "16 * (a mod 4) + b div 16 < 64" "16 * (a mod 4) < 64" "4 * (b mod 16) + c div 64 < 64"
    "4 * (b mod 16) < 64" "c mod 64 < 64" using d m by linarith+
  have x: "(16 * (a mod 4) + b div 16) div 16 = a mod 4" "(16 * (a mod 4) + b div 16) mod 16 = b div 16"
    using d by simp_all
  have y: "(4 * (b mod 16) + c div 64) div 4 = b mod 16" "(4 * (b mod 16) + c div 64) mod 4 = c div 64"
    using d by simp_all
  show "4 * (a div 4) + (16 * (a mod 4) + b div 16) div 16 = a" unfolding x by simp
  show "4 * (a div 4) + (16 * (a mod 4)) div 16 = a" by simp
  show "16 * ((16 * (a mod 4) + b div 16) mod 16) + (4 * (b mod 16) + c div 64) div 4 = b" unfolding x y by simp
  show "16 * ((16 * (a mod 4) + b div 16) mod 16) + (4 * (b mod 16)) div 4 = b" unfolding x by simp
  show "64 * ((4 * (b mod 16) + c div 64) mod 4) + c mod 64 = c" unfolding y by simp
qed

lemma b64_group3:
  assumes "p < 64" "q < 64" "r < 64" "t < 64" "b64_groups s = Some bs"
  shows "b64_groups (b64_digit p # b64_digit q # b64_digit r # b64_digit t # s) =
    Some (char_of (4 * p + q div 16) # char_of (16 * (q mod 16) + r div 4) # char_of (64 * (r mod 4) + t) # bs)"
  using b64_digit_val assms b64_digit_plain(1) [OF assms(3)] b64_digit_plain(1) [OF assms(4)] by simp

lemma b64_group2:
  assumes "p < 64" "q < 64" "r < 64"
  shows "b64_groups [b64_digit p, b64_digit q, b64_digit r, CHR ''=''] =
    Some [char_of (4 * p + q div 16), char_of (16 * (q mod 16) + r div 4)]"
  using b64_digit_val assms b64_digit_plain(1) [OF assms(3)] by simp

lemma b64_group1:
  assumes "p < 64" "q < 64"
  shows "b64_groups [b64_digit p, b64_digit q, CHR ''='', CHR ''=''] = Some [char_of (4 * p + q div 16)]"
  using b64_digit_val assms by simp

lemma b64_groups_encode: "b64_groups (b64_encode bs) = Some bs"
proof (induction bs rule: b64_encode.induct)
  case (2 a)
  note p = b64_parts [OF char_code_lt [of a] char_code_lt [of a] char_code_lt [of a]]
  show ?case unfolding b64_encode.simps b64_group1 [OF p(1,3)] p(8) char_of_code ..
next
  case (3 a b)
  note p = b64_parts [OF char_code_lt [of a] char_code_lt [of b] char_code_lt [of b]]
  show ?case unfolding b64_encode.simps b64_group2 [OF p(1,2,5)] p(7,10) char_of_code ..
next
  case (4 a b c s)
  note p = b64_parts [OF char_code_lt [of a] char_code_lt [of b] char_code_lt [of c]]
  show ?case unfolding b64_encode.simps b64_group3 [OF p(1,2,4,6) "4.IH"] p(7,9,11) char_of_code ..
qed simp

lemma filter_plain: "n < 64 \<Longrightarrow> filter (\<lambda>c. c \<noteq> CHR 0x0A \<and> c \<noteq> CHR 0x0D) (b64_digit n # s) =
    b64_digit n # filter (\<lambda>c. c \<noteq> CHR 0x0A \<and> c \<noteq> CHR 0x0D) s"
  using b64_digit_plain [of n] by simp

lemma b64_encode_plain: "filter (\<lambda>c. c \<noteq> CHR 0x0A \<and> c \<noteq> CHR 0x0D) (b64_encode bs) = b64_encode bs"
proof (induction bs rule: b64_encode.induct)
  case (2 a)
  note p = b64_parts [OF char_code_lt [of a] char_code_lt [of a] char_code_lt [of a]]
  show ?case unfolding b64_encode.simps filter_plain [OF p(1)] filter_plain [OF p(3)] by simp
next
  case (3 a b)
  note p = b64_parts [OF char_code_lt [of a] char_code_lt [of b] char_code_lt [of b]]
  show ?case unfolding b64_encode.simps filter_plain [OF p(1)] filter_plain [OF p(2)] filter_plain [OF p(5)] by simp
next
  case (4 a b c s)
  note p = b64_parts [OF char_code_lt [of a] char_code_lt [of b] char_code_lt [of c]]
  show ?case unfolding b64_encode.simps filter_plain [OF p(1)] filter_plain [OF p(2)] filter_plain [OF p(4)]
    filter_plain [OF p(6)] "4.IH" ..
qed simp

lemma sign_roundtrip: "decode_sig (sign_with mac secret payload enc) enc = Some (mac secret payload)"
  by (simp add: decode_sig_def sign_with_def b64_decode_def b64_encode_plain b64_groups_encode hex_roundtrip)

section \<open>What the verifiers accept\<close>

text \<open>The bytes the generic verifier checks the signature of.\<close>

definition signed_payload :: "hmac_config \<Rightarrow> headers \<Rightarrow> bytes \<Rightarrow> bytes" where
  "signed_payload c h body = (if hm_ts_header c \<noteq> [] then header_get h (hm_ts_header c) @ ''.'' @ body else body)"

lemma hmac_verify_ok:
  "hmac_verify mac c h body now = Inr ev \<longleftrightarrow>
     header_get h (hm_header c) \<noteq> [] \<and> we_signature ev = trim_prefix (header_get h (hm_header c)) (hm_prefix c) \<and>
     we_id ev = (if hm_id_header c \<noteq> [] then header_get h (hm_id_header c) else []) \<and>
     (if hm_ts_header c \<noteq> [] then check_timestamp (header_get h (hm_ts_header c)) now (hm_tolerance c) = Inr (we_time ev)
      else we_time ev = 0) \<and>
     (\<exists>secret \<in> set (hm_secrets c). decode_sig (we_signature ev) (hm_encoding c) = Some (mac secret (signed_payload c h body)))"
  by (cases ev) (auto simp: hmac_verify_def Let_def signed_payload_def accepts_def list_ex_iff split: sum.splits option.splits)

text \<open>A timestamp that is accepted is the Unix time the header names, within the tolerance of the clock. Seconds whose
  sum with the epoch wraps give a time some ten thousand million years ago, never within a tolerance.\<close>

lemma check_timestamp_ok:
  assumes "check_timestamp raw now tol = Inr t" and "0 \<le> now" "tol < max_i64"
  shows "\<exists>secs. atoi raw = Some secs \<and> t = (secs + 62135596800) * 1000000000 \<and> \<bar>now - t\<bar> \<le> tol"
proof -
  obtain secs where s: "atoi raw = Some secs" "t = unix_time secs" "time_sub now t \<le> tol" "- tol \<le> time_sub now t"
    using assms(1) by (auto simp: check_timestamp_def Let_def split: option.splits if_splits)
  have near: "now - t \<le> tol" "- tol \<le> now - t"
    using s(3,4) assms(3) by (auto simp: time_sub_def min_i64_def max_i64_def)
  have f: "fits_i64 secs" using s(1) by (auto simp: atoi_def Let_def split: list.splits if_splits)
  have "secs + 62135596800 \<le> max_i64"
  proof (rule ccontr)
    assume "\<not> secs + 62135596800 \<le> max_i64"
    then have b: "0 \<le> secs + 62135596800 + 9223372036854775808 - 18446744073709551616"
        "secs + 62135596800 + 9223372036854775808 - 18446744073709551616 < 18446744073709551616"
      using f by (simp_all add: fits_i64_def max_i64_def)
    have "(secs + 62135596800 + 9223372036854775808) mod 18446744073709551616 =
        (secs + 62135596800 + 9223372036854775808 - 18446744073709551616) mod 18446744073709551616"
      by (rule minus_mod_self2 [symmetric])
    also have "\<dots> = secs + 62135596800 + 9223372036854775808 - 18446744073709551616"
      using b by (rule mod_pos_pos_trivial)
    finally have "i64 (secs + 62135596800) = secs + 62135596800 - 18446744073709551616"
      by (simp add: i64_def)
    then have "t \<le> - max_i64" using s(2) f by (simp add: unix_time_def fits_i64_def max_i64_def)
    then show False using near(1) assms(2,3) by simp
  qed
  then have "i64 (secs + 62135596800) = secs + 62135596800"
    using f by (intro i64_id) (simp add: fits_i64_def min_i64_def)
  with s near show ?thesis by (auto simp: unix_time_def abs_le_iff)
qed

text \<open>What the handler was given, when it ran, whether it then succeeded or failed.\<close>

definition ran_on :: "webhook_outcome \<Rightarrow> (bytes \<times> webhook_event) option" where
  "ran_on r = (case r of Handled b ev _ \<Rightarrow> Some (b, ev) | HandlerFailed b ev \<Rightarrow> Some (b, ev) | _ \<Rightarrow> None)"

lemma ran_verified:
  assumes "ran_on (fst (webhook_middleware cfg verify replay d s)) = Some (b, ev)"
  shows "webhook_body (wc_max_body (webhook_defaults cfg)) (dl_body d) = Some b \<and>
    int (length b) \<le> wc_max_body (webhook_defaults cfg) \<and> verify (dl_headers d) b (dl_now d) = Inr ev"
  using assms
  by (auto simp: webhook_middleware_def ran_on_def Let_def split: option.splits sum.splits if_splits prod.splits)

lemma body_read_whole:
  "wc_max_body cfg < max_i64 \<Longrightarrow> webhook_body (wc_max_body (webhook_defaults cfg)) body = body"
  by (simp add: webhook_body_def webhook_defaults_def i64_def max_i64_def)

text \<open>With the largest limit the sum wraps: nothing of the body is read, and a signature of the empty body lets
  the handler run on it whatever the request carries.\<close>

lemma largest_webhook_limit:
  "wc_max_body cfg = max_i64 \<Longrightarrow> webhook_body (wc_max_body (webhook_defaults cfg)) body = Some []"
  by (simp add: webhook_body_def webhook_defaults_def i64_def max_i64_def)

definition sample_hmac :: hmac_config where
  "sample_hmac = new_hmac \<lparr>hm_secrets = [''old'', ''key''], hm_header = [], hm_prefix = ''v='', hm_encoding = Hex,
     hm_ts_header = [], hm_tolerance = 0, hm_id_header = []\<rparr>"

definition sample_headers :: headers where
  "sample_headers = [''X-Signature'' \<mapsto> [''v='' @ hex_encode ''keyhi'']]"

lemma sample_header: "header_get sample_headers ''X-Signature'' = ''v='' @ hex_encode ''keyhi''"
  by (simp add: header_get_def sample_headers_def canonical_key_def is_token_char_def char_code_def ascii_upper_def ascii_lower_def)

text \<open>C25: Authenticity: whenever the handler of a route behind the HMAC middleware ran, whether it succeeded or
  failed, it ran on the very body the request carried, within the size limit; the signature header decodes
  to the keyed hash, under one of the configured secrets, of exactly that body, and, when a timestamp header
  is configured, of the text of that header before it; the time the handler sees is then the Unix time that
  signed text names and is within the tolerance of the clock. The limit and the tolerance are below the
  largest 64-bit number and the clock is not before the year 1.\<close>

theorem webhook_authentic:
  assumes "ran_on (fst (webhook_middleware cfg (hmac_verify mac c) replay d s)) = Some (b, ev)"
    and "wc_max_body cfg < max_i64" and "hm_tolerance c < max_i64" and "0 \<le> dl_now d"
  shows "dl_body d = Some b \<and> int (length b) \<le> wc_max_body (webhook_defaults cfg) \<and>
    (let sent = header_get (dl_headers d) (hm_header c); signed_time = header_get (dl_headers d) (hm_ts_header c) in
     sent \<noteq> [] \<and>
     (\<exists>secret \<in> set (hm_secrets c).
        decode_sig (trim_prefix sent (hm_prefix c)) (hm_encoding c) =
          Some (mac secret (if hm_ts_header c = [] then b else signed_time @ ''.'' @ b))) \<and>
     (hm_ts_header c \<noteq> [] \<longrightarrow>
        (\<exists>secs. atoi signed_time = Some secs \<and> we_time ev = (secs + 62135596800) * 1000000000 \<and>
           \<bar>dl_now d - we_time ev\<bar> \<le> hm_tolerance c)))"
proof -
  note v = ran_verified [OF assms(1), unfolded body_read_whole [OF assms(2)]]
  then have "hmac_verify mac c (dl_headers d) b (dl_now d) = Inr ev" by simp
  note ok = this [unfolded hmac_verify_ok signed_payload_def]
  have "hm_ts_header c \<noteq> [] \<Longrightarrow> \<exists>secs. atoi (header_get (dl_headers d) (hm_ts_header c)) = Some secs \<and>
      we_time ev = (secs + 62135596800) * 1000000000 \<and> \<bar>dl_now d - we_time ev\<bar> \<le> hm_tolerance c"
    using ok check_timestamp_ok assms(3,4) by simp
  then show ?thesis using ok v by (auto simp: Let_def)
qed

text \<open>A delivery signed with the older of two secrets, at second 7 by its header and 9 by the clock, whose handler fails.\<close>

definition timed_hmac :: hmac_config where
  "timed_hmac = sample_hmac\<lparr>hm_ts_header := ''T''\<rparr>"

definition timed_headers :: headers where
  "timed_headers = [''X-Signature'' \<mapsto> [''v='' @ hex_encode ''old7.hi''], ''T'' \<mapsto> [''7'']]"

theorem webhook_authentic_witness:
  "\<exists>secret \<in> {''old'', ''key''}. hex_decode (hex_encode ''old7.hi'') = Some (secret @ ''7.hi'')"
proof -
  let ?d = "\<lparr>dl_headers = timed_headers, dl_body = Some ''hi'', dl_now = 62135596809 * 1000000000, dl_get = 0, dl_set = 0,
    dl_handler = (\<lambda>_. None)\<rparr>"
  let ?ev = "\<lparr>we_id = [], we_time = 62135596807 * 1000000000, we_signature = hex_encode ''old7.hi''\<rparr>"
  have c: "hm_header timed_hmac = ''X-Signature''" "hm_prefix timed_hmac = ''v=''" "hm_encoding timed_hmac = Hex"
    "hm_ts_header timed_hmac = ''T''" "hm_id_header timed_hmac = []" "hm_secrets timed_hmac = [''old'', ''key'']"
    "hm_tolerance timed_hmac = 300000000000"
    by (simp_all add: timed_hmac_def sample_hmac_def new_hmac_def)
  have h: "header_get timed_headers ''X-Signature'' = ''v='' @ hex_encode ''old7.hi''" "header_get timed_headers ''T'' = ''7''"
    by (simp_all add: header_get_def timed_headers_def canonical_key_def is_token_char_def char_code_def ascii_upper_def
        ascii_lower_def del: hex_encode.simps)
  have t: "trim_prefix (''v='' @ hex_encode ''old7.hi'') ''v='' = hex_encode ''old7.hi''" by (simp add: trim_prefix_def has_prefix_def)
  have t': "trim_prefix (CHR ''v'' # CHR ''='' # hex_encode ''old7.hi'') ''v='' = hex_encode ''old7.hi''"
    using t by (simp del: hex_encode.simps)
  have a: "atoi ''7'' = Some 7" by code_simp
  have "check_timestamp ''7'' (62135596809 * 1000000000) 300000000000 = Inr (62135596807 * 1000000000)"
    by (simp add: check_timestamp_def a unix_time_def i64_def time_sub_def max_i64_def min_i64_def)
  then have "hmac_verify (@) timed_hmac timed_headers ''hi'' (62135596809 * 1000000000) = Inr ?ev"
    unfolding hmac_verify_ok c h t by (simp add: decode_sig_def signed_payload_def c h hex_roundtrip del: hex_encode.simps)
  then have "ran_on (fst (webhook_middleware \<lparr>wc_max_body = 0, wc_replay_ttl = 0\<rparr> (hmac_verify (@) timed_hmac) None ?d ())) =
      Some (''hi'', ?ev)"
    by (simp add: webhook_middleware_def webhook_defaults_def webhook_body_def i64_def ran_on_def Let_def)
  from webhook_authentic [OF this] show ?thesis
    by (simp add: c h t' decode_sig_def max_i64_def Let_def del: hex_encode.simps hex_decode.simps)
qed

text \<open>Signing and verifying: a request whose signature header is the prefix and \<open>Sign\<close> of the payload under a
  configured secret is accepted, in both encodings, when its timestamp is within the tolerance.\<close>

lemma webhook_sign_accepted:
  assumes "secret \<in> set (hm_secrets c)" and "mac secret (signed_payload c h body) \<noteq> []"
    and "header_get h (hm_header c) = hm_prefix c @ sign_with mac secret (signed_payload c h body) (hm_encoding c)"
    and "hm_ts_header c \<noteq> [] \<longrightarrow> check_timestamp (header_get h (hm_ts_header c)) now (hm_tolerance c) = Inr t"
  shows "\<exists>ev. hmac_verify mac c h body now = Inr ev \<and>
    we_signature ev = sign_with mac secret (signed_payload c h body) (hm_encoding c)"
proof -
  let ?sig = "sign_with mac secret (signed_payload c h body) (hm_encoding c)"
  let ?ev = "\<lparr>we_id = (if hm_id_header c \<noteq> [] then header_get h (hm_id_header c) else []),
     we_time = (if hm_ts_header c \<noteq> [] then t else 0), we_signature = ?sig\<rparr>"
  have "?sig \<noteq> []"
    using assms(2) sign_roundtrip [of mac secret "signed_payload c h body" "hm_encoding c"]
    by (auto simp: decode_sig_def b64_decode_def split: if_splits)
  moreover have "trim_prefix (hm_prefix c @ ?sig) (hm_prefix c) = ?sig" by (simp add: trim_prefix_def)
  ultimately have "hmac_verify mac c h body now = Inr ?ev"
    unfolding hmac_verify_ok using assms sign_roundtrip by auto
  then show ?thesis by (intro exI [of _ ?ev]) simp
qed

lemma webhook_sign_accepted_witness:
  "\<exists>ev. hmac_verify (@) sample_hmac sample_headers ''hi'' 7 = Inr ev"
proof -
  have c: "hm_header sample_hmac = ''X-Signature''" "hm_prefix sample_hmac = ''v=''" "hm_encoding sample_hmac = Hex"
    "hm_ts_header sample_hmac = []" "hm_secrets sample_hmac = [''old'', ''key'']"
    by (simp_all add: sample_hmac_def new_hmac_def)
  have "header_get sample_headers (hm_header sample_hmac) =
      hm_prefix sample_hmac @ sign_with (@) ''key'' (signed_payload sample_hmac sample_headers ''hi'') (hm_encoding sample_hmac)"
    unfolding c sample_header by (simp add: sign_with_def signed_payload_def c del: hex_encode.simps)
  moreover have "signed_payload sample_hmac sample_headers ''hi'' = ''hi''" by (simp add: signed_payload_def c)
  ultimately show ?thesis using webhook_sign_accepted [of "''key''" sample_hmac "(@)" sample_headers "''hi''"] c by auto
qed

text \<open>The key of the replay protection is not what was signed. A signature in hex is accepted in either case, and the
  delivery id of the GitHub preset is in a header that the signature does not cover: the same signed body
  is accepted under several keys.\<close>

lemma hex_case_changes_key:
  assumes "ev = \<lparr>we_id = [], we_time = t, we_signature = ''ab''\<rparr>" and "ev' = \<lparr>we_id = [], we_time = t, we_signature = ''AB''\<rparr>"
  shows "hex_decode (we_signature ev) = hex_decode (we_signature ev') \<and> delivery_key ev \<noteq> delivery_key ev'"
  by (simp add: assms hex_val_def char_code_def delivery_key_def)

lemma github_id_not_signed:
  assumes "hmac_verify mac (github secret) h body now = Inr ev"
  shows "\<exists>ev'. hmac_verify mac (github secret) (h(''X-Github-Delivery'' \<mapsto> [i])) body now = Inr ev' \<and> we_id ev' = i"
proof -
  have c: "hm_header (github secret) = ''X-Hub-Signature-256''" "hm_id_header (github secret) = ''X-GitHub-Delivery''"
    "hm_ts_header (github secret) = []" by (simp_all add: github_def new_hmac_def)
  have k: "canonical_key ''X-GitHub-Delivery'' = ''X-Github-Delivery''" "canonical_key ''X-Hub-Signature-256'' = ''X-Hub-Signature-256''"
    by code_simp+
  have g: "header_get (h(''X-Github-Delivery'' \<mapsto> [i])) ''X-Hub-Signature-256'' = header_get h ''X-Hub-Signature-256''"
    "header_get (h(''X-Github-Delivery'' \<mapsto> [i])) ''X-GitHub-Delivery'' = i"
    by (simp_all add: header_get_def k)
  show ?thesis
    using assms unfolding hmac_verify_ok c signed_payload_def g
    by (intro exI [of _ "ev\<lparr>we_id := i\<rparr>"]) (simp, metis)
qed

section \<open>Replays\<close>

fun webhook_run :: "webhook_config \<Rightarrow> verifier \<Rightarrow> 's store \<Rightarrow> delivery list \<Rightarrow> 's \<Rightarrow> webhook_outcome list \<times> 's" where
  "webhook_run cfg verify st [] s = ([], s)"
| "webhook_run cfg verify st (d # ds) s =
     (case webhook_middleware cfg verify (Some st) d s of (r, s') \<Rightarrow>
        case webhook_run cfg verify st ds s' of (rs, s'') \<Rightarrow> (r # rs, s''))"

definition ran_handler :: "webhook_outcome \<Rightarrow> bool" where
  "ran_handler r \<longleftrightarrow> ran_on r \<noteq> None"

context lossy_store begin

lemma webhook_seen:
  assumes i: "inv s" and v: "view s (dl_get d) key = Some x"
    and k: "\<And>b ev. webhook_body (wc_max_body (webhook_defaults cfg)) (dl_body d) = Some b \<Longrightarrow> verify (dl_headers d) b (dl_now d) = Inr ev \<Longrightarrow> delivery_key ev = key"
  shows "\<not> ran_handler (fst (webhook_middleware cfg verify (Some st) d s)) \<and>
    snd (webhook_middleware cfg verify (Some st) d s) \<in> {s, snd (st_get st (dl_get d) key s)}"
proof -
  obtain s' where g: "st_get st (dl_get d) key s = (Inr x, s')"
    using get_result [OF i, of "dl_get d" key] v by (cases "st_get st (dl_get d) key s") simp
  show ?thesis
  proof (cases "webhook_body (wc_max_body (webhook_defaults cfg)) (dl_body d)")
    case (Some b)
    show ?thesis
    proof (cases "verify (dl_headers d) b (dl_now d)")
      case (Inr ev)
      have "delivery_key ev = key" by (rule k [OF Some Inr])
      with Some Inr g show ?thesis by (simp add: webhook_middleware_def Let_def ran_handler_def ran_on_def)
    qed (use Some in \<open>simp add: webhook_middleware_def Let_def ran_handler_def ran_on_def\<close>)
  qed (simp add: webhook_middleware_def ran_handler_def ran_on_def)
qed

lemma webhook_all_seen:
  assumes "inv s" and "sorted (map dl_get ds)" and "\<And>d. d \<in> set ds \<Longrightarrow> view s (dl_get d) key = Some x"
    and "\<And>d b ev. d \<in> set ds \<Longrightarrow> webhook_body (wc_max_body (webhook_defaults cfg)) (dl_body d) = Some b \<Longrightarrow> verify (dl_headers d) b (dl_now d) = Inr ev \<Longrightarrow> delivery_key ev = key"
  shows "list_all (\<lambda>r. \<not> ran_handler r) (fst (webhook_run cfg verify st ds s))"
  using assms
proof (induction ds arbitrary: s)
  case (Cons d ds)
  let ?m = "webhook_middleware cfg verify (Some st) d s"
  have h: "\<not> ran_handler (fst ?m)" "snd ?m \<in> {s, snd (st_get st (dl_get d) key s)}"
    using webhook_seen [OF Cons.prems(1) Cons.prems(3) [of d], where verify = verify and cfg = cfg] Cons.prems(4) [of d] by auto
  have "list_all (\<lambda>r. \<not> ran_handler r) (fst (webhook_run cfg verify st ds (snd ?m)))"
  proof (rule Cons.IH)
    show "inv (snd ?m)" using h(2) Cons.prems(1) get_inv by auto
    show "sorted (map dl_get ds)" using Cons.prems(2) by simp
    show "view (snd ?m) (dl_get d') key = Some x" if "d' \<in> set ds" for d'
    proof -
      have "dl_get d \<le> dl_get d'" using Cons.prems(2) that by simp
      then show ?thesis using h(2) get_view [OF Cons.prems(1), of "dl_get d" "dl_get d'" key key] Cons.prems(3) [of d'] that by auto
    qed
    show "delivery_key ev = key" if "d' \<in> set ds" "webhook_body (wc_max_body (webhook_defaults cfg)) (dl_body d') = Some b" "verify (dl_headers d') b (dl_now d') = Inr ev" for d' b ev
      using Cons.prems(4) [of d' b ev] that by simp
  qed
  with h(1) show ?case by (simp add: case_prod_unfold)
qed simp

lemma webhook_recorded:
  assumes i: "inv s" and t: "0 \<le> dl_set d"
    and h: "webhook_middleware cfg verify (Some st) d s = (Handled b ev status, s')" "status < 300"
    and l: "later < dl_set d + wc_replay_ttl (webhook_defaults cfg)"
  shows "inv s' \<and> view s' later (delivery_key ev) = Some [CHR 0x01]"
proof -
  have "ran_on (fst (webhook_middleware cfg verify (Some st) d s)) = Some (b, ev)" using h(1) by (simp add: ran_on_def)
  note v = ran_verified [OF this]
  obtain res s1 where g: "st_get st (dl_get d) (delivery_key ev) s = (res, s1)" by fastforce
  have i1: "inv s1" using get_inv [OF i, of "dl_get d" "delivery_key ev"] g by simp
  have "s' = snd (st_set st (dl_set d) (delivery_key ev) [CHR 0x01] (wc_replay_ttl (webhook_defaults cfg)) s1)"
    using h v g by (auto simp: webhook_middleware_def Let_def split: if_splits option.splits)
  then show ?thesis using set_inv [OF i1] set_view [OF i1 t] l by (simp add: fresh_until_def)
qed

end

section \<open>On the in-memory store\<close>

definition webhook_store :: "mem_cache store" where
  "webhook_store = namespaced memory_store webhook_pfx"

lemmas webhook_store_recorded = mem_ns.ns.webhook_recorded [where pfx = webhook_pfx, folded webhook_store_def]
  and webhook_store_seen = mem_ns.ns.webhook_all_seen [where pfx = webhook_pfx, folded webhook_store_def]

text \<open>Replay protection: once the handler has processed a delivery with a status below 300, no later delivery with
  the same key runs the handler until the configured time has passed, however many there are and
  whether or not they verify.\<close>

lemma webhook_no_replay:
  assumes i: "cache_inv m" and t: "0 \<le> dl_set d"
    and h: "webhook_middleware cfg verify (Some webhook_store) d m = (Handled b ev status, m')" "status < 300"
    and ds: "sorted (map dl_get ds)" "\<forall>d' \<in> set ds. dl_get d' < dl_set d + wc_replay_ttl (webhook_defaults cfg)"
    and same: "\<forall>d' \<in> set ds. \<forall>b' ev'. webhook_body (wc_max_body (webhook_defaults cfg)) (dl_body d') = Some b' \<longrightarrow> verify (dl_headers d') b' (dl_now d') = Inr ev' \<longrightarrow>
      delivery_key ev' = delivery_key ev"
  shows "list_all (\<lambda>r. \<not> ran_handler r) (fst (webhook_run cfg verify webhook_store ds m'))"
proof (rule webhook_store_seen)
  note r = webhook_store_recorded [OF i t h]
  show "mem_view m' (dl_get d') (webhook_pfx @ delivery_key ev) = Some [CHR 0x01]" if "d' \<in> set ds" for d'
    using r ds(2) that by blast
  show "cache_inv m'" using r [of "dl_set d - 1"] by (cases cfg) (auto simp: webhook_defaults_def)
qed (use ds same in auto)

lemma webhook_no_replay_witness:
  "\<exists>m'. snd (webhook_middleware \<lparr>wc_max_body = 0, wc_replay_ttl = 0\<rparr> (\<lambda>h b now. Inr \<lparr>we_id = ''d1'', we_time = 0, we_signature = []\<rparr>)
      (Some webhook_store) \<lparr>dl_headers = Map.empty, dl_body = Some ''x'', dl_now = 1, dl_get = 1, dl_set = 2, dl_handler = (\<lambda>_. Some 200)\<rparr>
      (new_mem_cache 5)) = m' \<and>
    list_all (\<lambda>r. \<not> ran_handler r) (fst (webhook_run \<lparr>wc_max_body = 0, wc_replay_ttl = 0\<rparr>
      (\<lambda>h b now. Inr \<lparr>we_id = ''d1'', we_time = 0, we_signature = []\<rparr>) webhook_store
      [\<lparr>dl_headers = Map.empty, dl_body = Some ''y'', dl_now = 3, dl_get = 3, dl_set = 3, dl_handler = (\<lambda>_. Some 200)\<rparr>] m'))"
proof -
  let ?cfg = "\<lparr>wc_max_body = 0, wc_replay_ttl = 0\<rparr>"
  let ?v = "\<lambda>h b now. Inr \<lparr>we_id = ''d1'', we_time = 0, we_signature = []\<rparr> :: (webhook_error, webhook_event) result"
  let ?d = "\<lparr>dl_headers = Map.empty, dl_body = Some ''x'', dl_now = 1, dl_get = 1, dl_set = 2, dl_handler = (\<lambda>_. Some 200)\<rparr>"
  let ?m = "snd (webhook_middleware ?cfg ?v (Some webhook_store) ?d (new_mem_cache 5))"
  have "fst (st_get webhook_store 1 ''d1'' (new_mem_cache 5)) = Inl ErrNotFound"
    using mem_ns.ns.get_result [where pfx = webhook_pfx, OF new_cache_inv, of 1 "''d1''" 5]
    by (simp add: webhook_store_def mem_view_def new_mem_cache_def entries_def find_entry_def)
  then have "fst (webhook_middleware ?cfg ?v (Some webhook_store) ?d (new_mem_cache 5)) =
      Handled ''x'' \<lparr>we_id = ''d1'', we_time = 0, we_signature = []\<rparr> 200"
    by (cases "st_get webhook_store 1 ''d1'' (new_mem_cache 5)")
      (simp add: webhook_middleware_def webhook_defaults_def delivery_key_def webhook_body_def i64_def Let_def)
  then have "webhook_middleware ?cfg ?v (Some webhook_store) ?d (new_mem_cache 5) =
      (Handled ''x'' \<lparr>we_id = ''d1'', we_time = 0, we_signature = []\<rparr> 200, ?m)" by (simp add: prod_eq_iff)
  from webhook_no_replay [OF new_cache_inv _ this, where ds = "[\<lparr>dl_headers = Map.empty, dl_body = Some ''y'', dl_now = 3,
      dl_get = 3, dl_set = 3, dl_handler = (\<lambda>_. Some 200)\<rparr>]"]
  show ?thesis by (simp add: webhook_defaults_def webhook_body_def i64_def)
qed

end
