(* ===== verification/Network.thy ===== *)
theory Network
  imports Capture Errors HttpClient
begin

text \<open>
  \<open>net.go\<close> and \<open>middleware.go\<close>: the client address and scheme behind trusted proxies, request identifiers,
  panic recovery, the level of the access log, security headers and host validation. IP addresses are a
  parameter: a type \<open>'ip\<close> with the parser (which unmaps IPv4-mapped addresses), the printer and the
  test for the configured proxies. Logging itself is left out.
\<close>

section \<open>Addresses\<close>

text \<open>\<open>net.SplitHostPort\<close>: host and port, with brackets around an IPv6 address.\<close>

definition last_colon :: "string \<Rightarrow> (string \<times> string) option" where
  "last_colon s =
     (case cut_at CHR '':'' (rev s) of (p, h, ok) \<Rightarrow> if ok then Some (rev h, rev p) else None)"

definition split_host_port :: "string \<Rightarrow> (string \<times> string) option" where
  "split_host_port s =
     (case last_colon s of
        None \<Rightarrow> None
      | Some (h, p) \<Rightarrow>
          if h \<noteq> [] \<and> hd h = CHR ''['' then
            (case cut_at CHR '']'' (tl s) of (a, rest, ok) \<Rightarrow>
               if ok \<and> rest = CHR '':'' # p \<and> CHR ''['' \<notin> set a \<and> CHR ''['' \<notin> set rest \<and> CHR '']'' \<notin> set rest
               then Some (a, p) else None)
          else if CHR '':'' \<in> set h \<or> CHR ''['' \<in> set s \<or> CHR '']'' \<in> set s then None else Some (h, p))"

definition host_of :: "string \<Rightarrow> string" where
  "host_of s = (case split_host_port s of Some (h, _) \<Rightarrow> h | None \<Rightarrow> s)"

record 'ip ip_lib =
  ip_parse :: "string \<Rightarrow> 'ip option"
  ip_show :: "'ip \<Rightarrow> string"
  ip_trusted :: "('ip \<Rightarrow> bool) option"

text \<open>\<open>ip_trusted\<close> is \<open>None\<close> when no proxies are configured.\<close>

record net_request =
  nr_remote :: string
  nr_forwarded :: "string list"
  nr_proto :: string
  nr_tls :: bool

definition remote_addr :: "'ip ip_lib \<Rightarrow> net_request \<Rightarrow> 'ip option" where
  "remote_addr L rq = ip_parse L (host_of (nr_remote rq))"

definition from_trusted_proxy :: "'ip ip_lib \<Rightarrow> net_request \<Rightarrow> bool" where
  "from_trusted_proxy L rq =
     (case ip_trusted L of
        None \<Rightarrow> False
      | Some trusted \<Rightarrow> (case remote_addr L rq of None \<Rightarrow> False | Some a \<Rightarrow> trusted a))"

definition hops_of :: "string list \<Rightarrow> string list" where
  "hops_of values =
     filter (\<lambda>p. p \<noteq> []) (map trim_space (concat (map (split_on CHR '','') values)))"

text \<open>The loop from the last hop to the first; the argument is the reversed list of hops.\<close>

fun walk_hops :: "'ip ip_lib \<Rightarrow> ('ip \<Rightarrow> bool) \<Rightarrow> string list \<Rightarrow> string" where
  "walk_hops L trusted [] = []"
| "walk_hops L trusted (hop # hs) =
     (case ip_parse L hop of
        None \<Rightarrow> []
      | Some a \<Rightarrow> if \<not> trusted a \<or> hs = [] then ip_show L a else walk_hops L trusted hs)"

definition forwarded_client :: "'ip ip_lib \<Rightarrow> ('ip \<Rightarrow> bool) \<Rightarrow> string list \<Rightarrow> string" where
  "forwarded_client L trusted values = walk_hops L trusted (rev (hops_of values))"

definition real_ip :: "'ip ip_lib \<Rightarrow> net_request \<Rightarrow> string" where
  "real_ip L rq =
     (case ip_trusted L of
        None \<Rightarrow> host_of (nr_remote rq)
      | Some trusted \<Rightarrow>
          (case remote_addr L rq of
             None \<Rightarrow> nr_remote rq
           | Some a \<Rightarrow>
               if trusted a then
                 (let fwd = forwarded_client L trusted (nr_forwarded rq) in if fwd \<noteq> [] then fwd else ip_show L a)
               else ip_show L a))"

definition scheme_of :: "'ip ip_lib \<Rightarrow> net_request \<Rightarrow> string" where
  "scheme_of L rq =
     (if nr_tls rq then ''https''
      else if from_trusted_proxy L rq \<and> to_lower (nr_proto rq) \<in> {''https'', ''http''} then to_lower (nr_proto rq)
      else ''http'')"

section \<open>Request identifiers\<close>

definition valid_request_id :: "string \<Rightarrow> bool" where
  "valid_request_id s \<longleftrightarrow> length s \<le> 128 \<and>
     list_all (\<lambda>c. (97 \<le> char_code c \<and> char_code c \<le> 122) \<or> (65 \<le> char_code c \<and> char_code c \<le> 90) \<or>
       (48 \<le> char_code c \<and> char_code c \<le> 57) \<or> c \<in> set ''-_.:/+='') s"

text \<open>\<open>RequestID\<close>: the identifier of the request, given the one it has, the incoming header, whether it is
  trusted, and a generated one.\<close>

definition request_id :: "string \<Rightarrow> string \<Rightarrow> bool \<Rightarrow> string \<Rightarrow> string" where
  "request_id assigned incoming trusted gen =
     (if assigned \<noteq> [] then assigned
      else if incoming = [] \<or> \<not> valid_request_id incoming \<or> \<not> trusted then gen else incoming)"

section \<open>Recovery and the access log\<close>

text \<open>What a handler does: it returns, or it panics with an error, with another value (its text) or with
  \<open>http.ErrAbortHandler\<close>.\<close>

datatype 'd handler_end = Returned "'d go_error option" | PanickedError "'d go_error" string | PanickedValue string | PanickedAbort

definition recovered :: "'d go_error \<Rightarrow> string \<Rightarrow> 'd go_error" where
  "recovered err txt =
     with_meta (with_cause (new_error 500 ''INTERNAL_ERROR'' ''Internal server error'') (Wrapped ''panic: '' err)) ''panic'' txt"

definition recovery :: "'d handler_end \<Rightarrow> 'd handler_end" where
  "recovery e =
     (case e of
        PanickedError err txt \<Rightarrow> Returned (Some (recovered err txt))
      | PanickedValue txt \<Rightarrow> Returned (Some (recovered (Opaque txt) txt))
      | _ \<Rightarrow> e)"

datatype log_level = LevelInfo | LevelWarn | LevelError

definition access_level :: "nat \<Rightarrow> nat \<Rightarrow> log_level" where
  "access_level written_status error_status =
     (let status = (if written_status = 0 then error_status else written_status)
      in if status \<ge> 500 then LevelError else if status \<ge> 400 then LevelWarn else LevelInfo)"

section \<open>Security headers and allowed hosts\<close>

record security_config =
  sc_headers :: "(string \<times> string) list"
  sc_csp :: string
  sc_hsts_max_age :: duration
  sc_hsts_subdomains :: bool
  sc_hosts :: "string list"

definition default_headers :: "(string \<times> string) list" where
  "default_headers = [(''X-Content-Type-Options'', ''nosniff''), (''X-Frame-Options'', ''DENY''),
     (''Referrer-Policy'', ''strict-origin-when-cross-origin'')]"

definition security_headers :: "security_config \<Rightarrow> (string \<times> string) list" where
  "security_headers c =
     (let h1 = (if sc_csp c \<noteq> [] then AList.update ''Content-Security-Policy'' (sc_csp c) default_headers else default_headers)
      in filter (\<lambda>(k, v). v \<noteq> []) (fold (\<lambda>(k, v) h. AList.update k v h) (sc_headers c) h1))"

definition hsts_value :: "security_config \<Rightarrow> string option" where
  "hsts_value c =
     (if sc_hsts_max_age c > 0
      then Some (''max-age='' @ dec_nat (nat (go_div (sc_hsts_max_age c) 1000000000)) @
        (if sc_hsts_subdomains c then ''; includeSubDomains'' else []))
      else None)"

text \<open>The host matcher: the exact hosts and the suffixes of the wildcards; \<open>None\<close> allows every host.\<close>

definition host_matcher :: "string list \<Rightarrow> (string list \<times> string list) option" where
  "host_matcher hosts =
     (if hosts = [] then None
      else let hs = map to_lower hosts
           in Some (filter (\<lambda>h. \<not> has_prefix h ''*.'') hs, map (drop 1) (filter (\<lambda>h. has_prefix h ''*.'') hs)))"

definition host_matches :: "string list \<times> string list \<Rightarrow> string \<Rightarrow> bool" where
  "host_matches m host0 =
     (let host = to_lower (trim_suffix (host_of host0) ''.'')
      in host \<in> set (fst m) \<or> list_ex (\<lambda>s. has_suffix host s \<and> length host > length s) (snd m))"

datatype security_outcome = BadHost | Continue "headers"

definition set_security_headers :: "security_config \<Rightarrow> string \<Rightarrow> headers \<Rightarrow> headers" where
  "set_security_headers c scheme h =
     (let h1 = fold (\<lambda>(k, v) h. h(canonical_key k \<mapsto> [v])) (security_headers c) h
      in case hsts_value c of
           None \<Rightarrow> h1
         | Some v \<Rightarrow> if scheme = ''https'' then h1(''Strict-Transport-Security'' \<mapsto> [v]) else h1)"

definition security_middleware :: "security_config \<Rightarrow> string \<Rightarrow> string \<Rightarrow> headers \<Rightarrow> security_outcome" where
  "security_middleware c host scheme h =
     (case host_matcher (sc_hosts c) of
        Some m \<Rightarrow> if \<not> host_matches m host then BadHost else Continue (set_security_headers c scheme h)
      | None \<Rightarrow> Continue (set_security_headers c scheme h))"

section \<open>The client address cannot be spoofed\<close>

lemma walk_trusted:
  assumes "\<forall>p \<in> set ps. \<exists>b. ip_parse L p = Some b \<and> trusted b" and "hs \<noteq> []"
  shows "walk_hops L trusted (ps @ hs) = walk_hops L trusted hs"
  using assms(1)
proof (induction ps)
  case (Cons p ps)
  then obtain b where "ip_parse L p = Some b" "trusted b" by auto
  then show ?case using Cons assms(2) by simp
qed simp

lemma forwarded_rightmost:
  assumes "hops_of vs = fake @ hop # proxies" and "ip_parse L hop = Some a" and "\<not> trusted a"
    and "\<forall>p \<in> set proxies. \<exists>b. ip_parse L p = Some b \<and> trusted b"
  shows "forwarded_client L trusted vs = ip_show L a"
proof -
  have "rev (hops_of vs) = rev proxies @ hop # rev fake" using assms(1) by simp
  then have "forwarded_client L trusted vs = walk_hops L trusted (hop # rev fake)"
    using walk_trusted [of "rev proxies" L trusted "hop # rev fake"] assms(4) by (simp add: forwarded_client_def)
  then show ?thesis using assms(2,3) by simp
qed

text \<open>C26: The client address and scheme cannot be forged. Unless the peer is a trusted proxy, the forwarding headers
  have no influence on either. When it is one, the address is the last hop that is not a trusted proxy,
  whatever the client wrote in front of it.\<close>

theorem real_ip_unspoofable:
  "(\<not> from_trusted_proxy L rq \<longrightarrow>
      real_ip L (rq\<lparr>nr_forwarded := vs, nr_proto := p\<rparr>) = real_ip L rq \<and>
      scheme_of L (rq\<lparr>nr_forwarded := vs, nr_proto := p\<rparr>) = scheme_of L rq) \<and>
    (from_trusted_proxy L rq \<longrightarrow> ip_trusted L = Some trusted \<longrightarrow> hops_of (nr_forwarded rq) = fake @ hop # proxies \<longrightarrow>
      ip_parse L hop = Some a \<longrightarrow> \<not> trusted a \<longrightarrow> ip_show L a \<noteq> [] \<longrightarrow>
      (\<forall>q \<in> set proxies. \<exists>b. ip_parse L q = Some b \<and> trusted b) \<longrightarrow> real_ip L rq = ip_show L a)"
proof (intro conjI impI)
  assume "\<not> from_trusted_proxy L rq"
  then show "real_ip L (rq\<lparr>nr_forwarded := vs, nr_proto := p\<rparr>) = real_ip L rq"
    "scheme_of L (rq\<lparr>nr_forwarded := vs, nr_proto := p\<rparr>) = scheme_of L rq"
    by (auto simp: from_trusted_proxy_def real_ip_def scheme_of_def remote_addr_def split: option.splits)
next
  assume t: "from_trusted_proxy L rq" "ip_trusted L = Some trusted" and s: "ip_show L a \<noteq> []"
    and h: "hops_of (nr_forwarded rq) = fake @ hop # proxies" "ip_parse L hop = Some a" "\<not> trusted a"
      "\<forall>q \<in> set proxies. \<exists>b. ip_parse L q = Some b \<and> trusted b"
  from t show "real_ip L rq = ip_show L a"
    using forwarded_rightmost [OF h] s by (auto simp: from_trusted_proxy_def real_ip_def split: option.splits)
qed

text \<open>For the example, an address is its own text.\<close>

definition text_ips :: "string ip_lib" where
  "text_ips = \<lparr>ip_parse = (\<lambda>s. if s = [] then None else Some s), ip_show = id, ip_trusted = Some (\<lambda>a. a \<in> {''10.0.0.1'', ''10.0.0.2''})\<rparr>"

theorem real_ip_unspoofable_witness:
  "real_ip text_ips \<lparr>nr_remote = ''10.0.0.1:443'', nr_forwarded = [''1.1.1.1, 8.8.8.8'', ''10.0.0.2''], nr_proto = [], nr_tls = False\<rparr> = ''8.8.8.8''"
proof -
  let ?rq = "\<lparr>nr_remote = ''10.0.0.1:443'', nr_forwarded = [''1.1.1.1, 8.8.8.8'', ''10.0.0.2''], nr_proto = [], nr_tls = False\<rparr>"
  have "from_trusted_proxy text_ips ?rq" by code_simp
  moreover have "hops_of (nr_forwarded ?rq) = [''1.1.1.1''] @ ''8.8.8.8'' # [''10.0.0.2'']" by code_simp
  ultimately show ?thesis
    using real_ip_unspoofable [of text_ips ?rq "[]" "[]" "\<lambda>a. a \<in> {''10.0.0.1'', ''10.0.0.2''}" "[''1.1.1.1'']" "''8.8.8.8''" "[''10.0.0.2'']" "''8.8.8.8''"]
    by (simp add: text_ips_def)
qed

section \<open>Identifiers, hosts, headers and panics\<close>

lemma request_id_incoming:
  "request_id [] incoming trusted gen \<noteq> gen \<Longrightarrow>
     request_id [] incoming trusted gen = incoming \<and> trusted \<and> valid_request_id incoming \<and> incoming \<noteq> []"
  by (simp add: request_id_def split: if_splits)

lemma request_id_once: "request_id (request_id [] i t g) i' t' g' = request_id [] i t g" if "g \<noteq> []"
  using that by (simp add: request_id_def)

lemma recovery_never_panics:
  "recovery e = PanickedAbort \<and> e = PanickedAbort \<or> (\<exists>r. recovery e = Returned r)"
  by (cases e) (simp_all add: recovery_def)

text \<open>With allowed hosts, a request passes exactly when its host, without port, in lower case and without a
  final dot, is one of them or a proper subdomain of a wildcard.\<close>

lemma host_check:
  assumes "hosts \<noteq> []"
  shows "(\<exists>h'. security_middleware (c\<lparr>sc_hosts := hosts\<rparr>) host scheme h = Continue h') \<longleftrightarrow>
    (let x = to_lower (trim_suffix (host_of host) ''.'') in
       \<exists>a \<in> set hosts. (\<not> has_prefix (to_lower a) ''*.'' \<and> x = to_lower a) \<or>
         (has_prefix (to_lower a) ''*.'' \<and> has_suffix x (drop 1 (to_lower a)) \<and> length x > length (drop 1 (to_lower a))))"
  using assms by (auto simp: security_middleware_def host_matcher_def host_matches_def Let_def list_ex_iff)

lemma hsts_only_https: "scheme \<noteq> ''https'' \<Longrightarrow>
    set_security_headers c scheme h = fold (\<lambda>(k, v) h. h(canonical_key k \<mapsto> [v])) (security_headers c) h"
  by (simp add: set_security_headers_def Let_def split: option.split)

end
