(* ===== verification/Middlewares.thy ===== *)
theory Middlewares
  imports HttpClient CacheMemory
begin

text \<open>
  Package \<open>middleware\<close>: CORS (\<open>cors.go\<close>), the gzip negotiation and the buffering writer of \<open>compress.go\<close>,
  API versions (\<open>version.go\<close>), the names of static files (\<open>misc.go\<close>) and the response cache (\<open>cache.go\<close>).
  The URL parser, the number parser of quality values, the compressor, the type sniffer and the JSON encoding
  of a cached response are parameters. Headers are keyed canonically.
\<close>

definition add_header :: "headers \<Rightarrow> string \<Rightarrow> string \<Rightarrow> headers" where
  "add_header h k v = h(k \<mapsto> (case h k of None \<Rightarrow> [v] | Some vs \<Rightarrow> vs @ [v]))"

section \<open>CORS\<close>

record cors_config =
  co_origins :: "string list"
  co_origin_func :: "(string \<Rightarrow> bool) option"
  co_methods :: "string list"
  co_headers :: "string list"
  co_expose :: "string list option"
  co_credentials :: bool
  co_max_age :: duration

text \<open>What \<open>url.Parse\<close> gives: scheme, host, path, raw query.\<close>

type_synonym url_parser = "string \<Rightarrow> (string \<times> string \<times> string \<times> string) option"

fun replace_wildcard :: "string \<Rightarrow> string" where
  "replace_wildcard [] = []"
| "replace_wildcard (c # s) = (if has_prefix (c # s) ''*.'' then ''wildcard.'' @ drop 2 (c # s) else c # replace_wildcard s)"

definition bad_origin :: "url_parser \<Rightarrow> string \<Rightarrow> bool" where
  "bad_origin parse o' \<longleftrightarrow>
     (case parse (replace_wildcard o') of
        None \<Rightarrow> True
      | Some (scheme, host, path, query) \<Rightarrow>
          scheme \<notin> {''http'', ''https''} \<or> host = [] \<or> path \<notin> {[], ''/''} \<or> query \<noteq> [] \<or> has_suffix o' ''/'')"

fun check_origins :: "url_parser \<Rightarrow> bool \<Rightarrow> string list \<Rightarrow> string option" where
  "check_origins parse cred [] = None"
| "check_origins parse cred (x # xs) =
     (if x = ''*'' then (if cred then Some ''origin * cannot be combined with AllowCredentials'' else check_origins parse cred xs)
      else if bad_origin parse x then Some (''invalid origin '' @ x) else check_origins parse cred xs)"

definition cors_validate :: "url_parser \<Rightarrow> cors_config \<Rightarrow> string option" where
  "cors_validate parse c =
     (if co_origins c = [] \<and> co_origin_func c = None then Some ''no allowed origins configured''
      else check_origins parse (co_credentials c) (co_origins c))"

definition cors_defaults :: "cors_config \<Rightarrow> cors_config" where
  "cors_defaults c =
     c\<lparr>co_methods := (if co_methods c = [] then [''GET'', ''HEAD'', ''POST'', ''PUT'', ''PATCH'', ''DELETE''] else co_methods c),
       co_expose := (case co_expose c of None \<Rightarrow> Some [''X-Request-Id''] | Some e \<Rightarrow> Some e),
       co_max_age := (if co_max_age c = 0 then 10 * 60 * 1000000000 else co_max_age c)\<rparr>"

text \<open>\<open>strings.Cut\<close> at a longer separator.\<close>

definition cut_str :: "string \<Rightarrow> string \<Rightarrow> (string \<times> string) option" where
  "cut_str s sep = (case index_of s sep of None \<Rightarrow> None | Some i \<Rightarrow> Some (take i s, drop (i + length sep) s))"

definition wildcard_of :: "string \<Rightarrow> (string \<times> string) option" where
  "wildcard_of o' = (case cut_str (to_lower o') ''://*.'' of None \<Rightarrow> None | Some (s, r) \<Rightarrow> Some (s @ ''://'', CHR ''.'' # r))"

definition allow_any :: "cors_config \<Rightarrow> bool" where
  "allow_any c \<longleftrightarrow> ''*'' \<in> set (co_origins c)"

definition origin_allowed :: "cors_config \<Rightarrow> string \<Rightarrow> bool" where
  "origin_allowed c origin \<longleftrightarrow>
     allow_any c \<or>
     (let lo = to_lower origin in
      list_ex (\<lambda>x. case wildcard_of x of
         None \<Rightarrow> to_lower x = lo
       | Some (p, q) \<Rightarrow> has_prefix lo p \<and> has_suffix lo q \<and> length lo > length p + length q) (co_origins c)) \<or>
     (case co_origin_func c of None \<Rightarrow> False | Some f \<Rightarrow> f origin)"

record cors_request =
  cq_method :: string
  cq_origin :: string
  cq_req_method :: string
  cq_req_headers :: string

definition preflight :: "cors_request \<Rightarrow> bool" where
  "preflight rq \<longleftrightarrow> cq_method rq = ''OPTIONS'' \<and> cq_req_method rq \<noteq> []"

text \<open>The headers, and whether the next handler runs; otherwise the answer is 204.\<close>

definition cors_middleware :: "cors_config \<Rightarrow> cors_request \<Rightarrow> headers \<Rightarrow> headers \<times> bool" where
  "cors_middleware c0 rq h0 =
     (let c = cors_defaults c0;
          h1 = (if \<not> allow_any c \<or> co_credentials c then add_header h0 ''Vary'' ''Origin'' else h0)
      in if cq_origin rq = [] \<or> \<not> origin_allowed c (cq_origin rq) then (h1, \<not> preflight rq)
         else
           let h2 = h1(''Access-Control-Allow-Origin'' \<mapsto> [if allow_any c \<and> \<not> co_credentials c then ''*'' else cq_origin rq]);
               h3 = (if co_credentials c then h2(''Access-Control-Allow-Credentials'' \<mapsto> [''true'']) else h2)
           in if \<not> preflight rq then
                (let e = join_with '', '' (case co_expose c of None \<Rightarrow> [] | Some xs \<Rightarrow> xs)
                 in (if e \<noteq> [] then h3(''Access-Control-Expose-Headers'' \<mapsto> [e]) else h3, True))
              else
                let h4 = add_header (add_header h3 ''Vary'' ''Access-Control-Request-Method'') ''Vary'' ''Access-Control-Request-Headers'';
                    h5 = h4(''Access-Control-Allow-Methods'' \<mapsto> [join_with '', '' (co_methods c)]);
                    hs = join_with '', '' (co_headers c);
                    h6 = (if hs \<noteq> [] then h5(''Access-Control-Allow-Headers'' \<mapsto> [hs])
                          else if cq_req_headers rq \<noteq> [] then h5(''Access-Control-Allow-Headers'' \<mapsto> [cq_req_headers rq]) else h5)
                in (h6(''Access-Control-Max-Age'' \<mapsto> [dec_int (go_div (co_max_age c) 1000000000)]), False))"

section \<open>API versions\<close>

definition version_ok :: "string \<Rightarrow> bool" where
  "version_ok v \<longleftrightarrow> trim_space v \<noteq> [] \<and> \<not> contains_any v '' ,''"

text \<open>\<open>None\<close> when the configuration is refused; the result is the version or \<open>None\<close> for a 400.\<close>

definition api_version :: "string list \<Rightarrow> (string \<Rightarrow> string option) option" where
  "api_version allowed =
     (if allowed = [] \<or> \<not> list_all version_ok allowed then None
      else Some (\<lambda>header. let v = trim_space header in
        if v = [] then Some (hd allowed) else if v \<in> set allowed then Some v else None))"

section \<open>Static files\<close>

text \<open>\<open>path.Clean\<close> of a rooted path, as the list of its elements.\<close>

fun clean_elems :: "string list \<Rightarrow> string list \<Rightarrow> string list" where
  "clean_elems [] acc = rev acc"
| "clean_elems (e # es) acc =
     (if e = [] \<or> e = ''.'' then clean_elems es acc
      else if e = ''..'' then clean_elems es (drop 1 acc)
      else clean_elems es (e # acc))"

definition clean_rooted :: "string \<Rightarrow> string" where
  "clean_rooted p = CHR ''/'' # join_with ''/'' (clean_elems (split_on CHR ''/'' p) [])"

text \<open>\<open>fs.ValidPath\<close> on valid UTF-8.\<close>

definition valid_path :: "string \<Rightarrow> bool" where
  "valid_path name \<longleftrightarrow> name = ''.'' \<or> (\<forall>e \<in> set (split_on CHR ''/'' name). e \<noteq> [] \<and> e \<noteq> ''.'' \<and> e \<noteq> ''..'')"

definition static_prefix :: "string \<Rightarrow> string" where
  "static_prefix p = (let t = rev (dropWhile (\<lambda>c. c = CHR ''/'') (rev (dropWhile (\<lambda>c. c = CHR ''/'') (if p = [] then ''/'' else p))))
     in CHR ''/'' # t)"

definition static_name :: "string \<Rightarrow> string \<Rightarrow> string option" where
  "static_name url pfx =
     (if pfx \<noteq> ''/'' \<and> url \<noteq> pfx \<and> \<not> has_prefix url (pfx @ ''/'') then None
      else
        let u = (if pfx \<noteq> ''/'' then trim_prefix url pfx else url);
            n0 = trim_prefix (clean_rooted (CHR ''/'' # u)) ''/'';
            name = (if n0 = [] then ''.'' else n0)
        in if valid_path name then Some name else None)"

text \<open>The file system: \<open>None\<close> is an error, otherwise whether the name is a directory.\<close>

definition resolve_file :: "(string \<Rightarrow> bool option) \<Rightarrow> string \<Rightarrow> string \<Rightarrow> string option" where
  "resolve_file stat name index =
     (case stat name of
        None \<Rightarrow> None
      | Some dir \<Rightarrow>
          if dir then
            (let idx = (if name = ''.'' then index else name @ ''/'' @ index)
             in if stat idx = Some False then Some idx else None)
          else Some name)"

text \<open>The middleware: the file served for a request, if any; without one the next handler runs. A single-page
  application answers paths without an extension (\<open>path.Ext\<close>) with its index.\<close>

definition no_extension :: "string \<Rightarrow> bool" where
  "no_extension name \<longleftrightarrow> CHR ''.'' \<notin> set (last (split_on CHR ''/'' name))"

definition static_serve :: "(string \<Rightarrow> bool option) \<Rightarrow> string \<Rightarrow> string \<Rightarrow> bool \<Rightarrow> string \<Rightarrow> string \<Rightarrow> string option" where
  "static_serve stat pfx0 index0 spa meth url =
     (let pfx = static_prefix pfx0; index = (if index0 = [] then ''index.html'' else index0) in
      if meth \<noteq> ''GET'' \<and> meth \<noteq> ''HEAD'' then None
      else case static_name url pfx of
        None \<Rightarrow> None
      | Some name \<Rightarrow>
          (case resolve_file stat name index of
             Some file \<Rightarrow> Some file
           | None \<Rightarrow> if spa \<and> no_extension name then resolve_file stat index index else None))"

text \<open>The \<open>Cache-Control\<close> header of a served file.\<close>

definition static_cache_control :: "duration \<Rightarrow> string option" where
  "static_cache_control max_age = (if max_age > 0 then Some (''public, max-age='' @ dec_int (go_div max_age 1000000000)) else None)"

section \<open>Compression\<close>

text \<open>\<open>acceptsGzip\<close>; \<open>num\<close> parses a quality and gives whether it is above zero.\<close>

definition gzip_quality :: "(string \<Rightarrow> bool option) \<Rightarrow> string \<Rightarrow> bool" where
  "gzip_quality num params =
     foldl (\<lambda>q p. case cut_at CHR ''='' (trim_space p) of (k, v, ok) \<Rightarrow>
        if ok \<and> equal_fold k ''q'' then (case num v of None \<Rightarrow> q | Some b \<Rightarrow> b) else q) True (split_on CHR '';'' params)"

fun gzip_parts :: "(string \<Rightarrow> bool option) \<Rightarrow> string list \<Rightarrow> bool" where
  "gzip_parts num [] = False"
| "gzip_parts num (part # ps) =
     (case cut_at CHR '';'' part of (name0, params, _) \<Rightarrow>
        let name = trim_space name0 in
        if \<not> equal_fold name ''gzip'' \<and> name \<noteq> ''*'' then gzip_parts num ps else gzip_quality num params)"

definition accepts_gzip :: "(string \<Rightarrow> bool option) \<Rightarrow> string \<Rightarrow> bool" where
  "accepts_gzip num header = gzip_parts num (split_on CHR '','' header)"

text \<open>The buffering writer over the writer below; \<open>gz_open\<close> holds what the compressor has been given.\<close>

record gzip_writer =
  gz_below :: writer
  gz_status :: nat
  gz_buf :: bytes
  gz_decided :: bool
  gz_open :: "bytes option"

record gzip_config =
  gc_min :: nat
  gc_types :: "string list"
  gc_sniff :: "bytes \<Rightarrow> string"

definition compressible :: "gzip_config \<Rightarrow> gzip_writer \<Rightarrow> bool \<times> gzip_writer" where
  "compressible c w =
     (let h = w_header (gz_below w);
          w1 = (if header_get h ''Content-Type'' = []
                then w\<lparr>gz_below := (gz_below w)\<lparr>w_header := h(''Content-Type'' \<mapsto> [gc_sniff c (gz_buf w)])\<rparr>\<rparr> else w);
          ct = to_lower (header_get (w_header (gz_below w1)) ''Content-Type'')
      in (list_ex (\<lambda>p. has_prefix ct p) (gc_types c), w1))"

text \<open>\<open>decide\<close>: whether to compress, then the headers and the buffered bytes go out.\<close>

definition gz_commit :: "bool \<Rightarrow> gzip_writer \<Rightarrow> gzip_writer" where
  "gz_commit compress w =
     (let w2 = (if compress then w\<lparr>gz_below := (gz_below w)\<lparr>w_header := ((w_header (gz_below w))(''Content-Length'' := None))
                                 (''Content-Encoding'' \<mapsto> [''gzip''])\<rparr>, gz_open := Some []\<rparr> else w);
          w3 = w2\<lparr>gz_below := w_write_header (gz_status w2) (gz_below w2), gz_buf := []\<rparr>
      in if gz_buf w2 = [] then w3
         else case gz_open w3 of
                Some z \<Rightarrow> w3\<lparr>gz_open := Some (z @ gz_buf w2)\<rparr>
              | None \<Rightarrow> w3\<lparr>gz_below := w_write (gz_buf w2) (gz_below w3)\<rparr>)"

definition gz_decide :: "gzip_config \<Rightarrow> bool \<Rightarrow> gzip_writer \<Rightarrow> gzip_writer" where
  "gz_decide c enough w0 =
     (let w = w0\<lparr>gz_decided := True\<rparr> in
      if enough \<and> gz_status w \<ge> 200 \<and> gz_status w \<noteq> 204 \<and> gz_status w \<noteq> 304 \<and>
         header_get (w_header (gz_below w)) ''Content-Encoding'' = []
      then (case compressible c w of (ok, w1) \<Rightarrow> gz_commit ok w1) else gz_commit False w)"

definition gz_write_header :: "nat \<Rightarrow> gzip_writer \<Rightarrow> gzip_writer" where
  "gz_write_header code w =
     (if 100 \<le> code \<and> code < 200 then w\<lparr>gz_below := w_write_header code (gz_below w)\<rparr>
      else if gz_status w = 0 then w\<lparr>gz_status := code\<rparr> else w)"

definition gz_write :: "gzip_config \<Rightarrow> bytes \<Rightarrow> gzip_writer \<Rightarrow> gzip_writer" where
  "gz_write c b w0 =
     (let w = (if gz_status w0 = 0 then w0\<lparr>gz_status := 200\<rparr> else w0) in
      if gz_decided w then
        (case gz_open w of Some z \<Rightarrow> w\<lparr>gz_open := Some (z @ b)\<rparr> | None \<Rightarrow> w\<lparr>gz_below := w_write b (gz_below w)\<rparr>)
      else
        let w1 = w\<lparr>gz_buf := gz_buf w @ b\<rparr>
        in if length (gz_buf w1) \<ge> gc_min c then gz_decide c True w1 else w1)"

text \<open>\<open>close\<close>: \<open>gzip\<close> is the compressor's output for everything it was given.\<close>

definition gz_close :: "gzip_config \<Rightarrow> (bytes \<Rightarrow> bytes) \<Rightarrow> gzip_writer \<Rightarrow> gzip_writer" where
  "gz_close c gzip w =
     (if \<not> gz_decided w \<and> gz_status w = 0 then w
      else
        let w1 = (if \<not> gz_decided w then gz_decide c (length (gz_buf w) \<ge> gc_min c) w else w)
        in case gz_open w1 of None \<Rightarrow> w1 | Some z \<Rightarrow> w1\<lparr>gz_below := w_write (gzip z) (gz_below w1), gz_open := None\<rparr>)"

section \<open>The response cache\<close>

record cache_request =
  cr_method :: string
  cr_authorization :: string
  cr_cookie :: string
  cr_cache_control :: string
  cr_host :: string
  cr_path :: string
  cr_query :: "(string \<times> string list) list"

record cache_config =
  cc_ttl :: duration
  cc_max_body :: int
  cc_authenticated :: bool
  cc_enc :: "response \<Rightarrow> bytes"
  cc_dec :: "bytes \<Rightarrow> response option"

definition cache_defaults :: "cache_config \<Rightarrow> cache_config" where
  "cache_defaults c =
     c\<lparr>cc_ttl := (if cc_ttl c \<le> 0 then 60 * 1000000000 else cc_ttl c),
       cc_max_body := (if cc_max_body c \<le> 0 then 1048576 else cc_max_body c)\<rparr>"

text \<open>The bytes \<open>defaultCacheKey\<close> hashes: host, path, and the parameters sorted by name.\<close>

definition default_key_bytes :: "cache_request \<Rightarrow> bytes" where
  "default_key_bytes rq =
     cr_host rq @ [CHR 0x00] @ cr_path rq @
     concat (map (\<lambda>k. concat (map (\<lambda>v. CHR 0x00 # k @ ''='' @ v) (the (map_of (cr_query rq) k)))) (sort (map fst (cr_query rq))))"

definition cache_bypassed :: "cache_config \<Rightarrow> cache_request \<Rightarrow> bool" where
  "cache_bypassed c rq \<longleftrightarrow> (cr_method rq \<noteq> ''GET'' \<and> cr_method rq \<noteq> ''HEAD'') \<or>
     (\<not> cc_authenticated c \<and> (cr_authorization rq \<noteq> [] \<or> cr_cookie rq \<noteq> [])) \<or>
     contains_str (cr_cache_control rq) ''no-cache''"

datatype cache_outcome = Bypassed | Hit response | Ran

definition storable :: "cache_request \<Rightarrow> response \<Rightarrow> bool" where
  "storable rq resp \<longleftrightarrow> resp_status resp = 200 \<and> cr_method rq \<noteq> ''HEAD'' \<and>
     (let cc = to_lower (case map_of (resp_header resp) ''Cache-Control'' of Some (v # _) \<Rightarrow> v | _ \<Rightarrow> [])
      in \<not> contains_str cc ''no-store'' \<and> \<not> contains_str cc ''private'')"

text \<open>\<open>result\<close> is what the recorder captured of the next handler's response, \<open>None\<close> also when it failed.\<close>

definition response_cache ::
  "cache_config \<Rightarrow> (cache_request \<Rightarrow> string) \<Rightarrow> 's store \<Rightarrow> time \<Rightarrow> time \<Rightarrow> cache_request \<Rightarrow> response option \<Rightarrow> 's \<Rightarrow>
     cache_outcome \<times> 's" where
  "response_cache c0 key st t1 t2 rq result s =
     (let c = cache_defaults c0 in
      if cache_bypassed c rq then (Bypassed, s)
      else case st_get st t1 (key rq) s of (res, s1) \<Rightarrow>
        (case (case res of Inl _ \<Rightarrow> None | Inr data \<Rightarrow> cc_dec c data) of
           Some resp \<Rightarrow> (Hit resp, s1)
         | None \<Rightarrow>
             (Ran, case result of
                     None \<Rightarrow> s1
                   | Some resp \<Rightarrow> if storable rq resp then snd (st_set st t2 (key rq) (cc_enc c resp) (cc_ttl c) s1) else s1)))"

section \<open>CORS exposes responses only to allowed origins\<close>

lemma credentials_not_any: "cors_validate parse c = None \<Longrightarrow> co_credentials c \<Longrightarrow> \<not> allow_any c"
proof -
  have "check_origins parse True xs = None \<Longrightarrow> ''*'' \<notin> set xs" for xs
    by (induction xs) (auto split: if_splits)
  then show "cors_validate parse c = None \<Longrightarrow> co_credentials c \<Longrightarrow> \<not> allow_any c"
    by (auto simp: cors_validate_def allow_any_def split: if_splits)
qed

lemma defaults_same [simp]: "allow_any (cors_defaults c) = allow_any c" "co_credentials (cors_defaults c) = co_credentials c"
  "origin_allowed (cors_defaults c) = origin_allowed c"
  by (auto simp: cors_defaults_def allow_any_def origin_allowed_def fun_eq_iff Let_def)

lemma vary_added: "\<exists>vs. add_header h ''Vary'' v ''Vary'' = Some vs \<and> v \<in> set vs \<and> (\<forall>x. h ''Vary'' = Some x \<longrightarrow> set x \<subseteq> set vs)"
  by (auto simp: add_header_def split: option.split)

lemma add_header_other: "k \<noteq> k' \<Longrightarrow> add_header h k v k' = h k'"
  by (simp add: add_header_def)

lemma cors_headers:
  assumes "h0 ''Access-Control-Allow-Origin'' = None" and "h0 ''Access-Control-Allow-Credentials'' = None"
  shows "fst (cors_middleware c rq h0) ''Access-Control-Allow-Origin'' =
      (if cq_origin rq \<noteq> [] \<and> origin_allowed c (cq_origin rq)
       then Some [if allow_any c \<and> \<not> co_credentials c then ''*'' else cq_origin rq] else None)"
    and "fst (cors_middleware c rq h0) ''Access-Control-Allow-Credentials'' =
      (if cq_origin rq \<noteq> [] \<and> origin_allowed c (cq_origin rq) \<and> co_credentials c then Some [''true''] else None)"
    and "snd (cors_middleware c rq h0) \<longleftrightarrow> \<not> preflight rq"
  using assms by (auto simp: cors_middleware_def Let_def add_header_other)

lemma cors_vary:
  assumes "\<not> allow_any c \<or> co_credentials c"
  shows "\<exists>vs. fst (cors_middleware c rq h0) ''Vary'' = Some vs \<and> ''Origin'' \<in> set vs"
  using assms by (auto simp: cors_middleware_def Let_def add_header_def split: option.split)

text \<open>C27: CORS with a configuration that passes validation: the response names an origin only when the request's
  origin is allowed, it is that origin (or the wildcard when every origin is allowed), credentials are
  allowed only for a named origin and never with the wildcard, the response varies on the origin
  whenever it depends on it, and a preflight request never reaches the handler.\<close>

theorem cors_safe:
  assumes "cors_validate parse c = None"
    and "h0 ''Access-Control-Allow-Origin'' = None" and "h0 ''Access-Control-Allow-Credentials'' = None"
    and "cors_middleware c rq h0 = (h, run)"
  shows "(h ''Access-Control-Allow-Origin'' \<noteq> None \<longrightarrow> cq_origin rq \<noteq> [] \<and> origin_allowed c (cq_origin rq) \<and>
      h ''Access-Control-Allow-Origin'' = Some [if allow_any c then ''*'' else cq_origin rq]) \<and>
    (h ''Access-Control-Allow-Credentials'' \<noteq> None \<longrightarrow>
      co_credentials c \<and> \<not> allow_any c \<and> h ''Access-Control-Allow-Origin'' = Some [cq_origin rq]) \<and>
    (\<not> allow_any c \<longrightarrow> (\<exists>vs. h ''Vary'' = Some vs \<and> ''Origin'' \<in> set vs)) \<and>
    (run \<longleftrightarrow> \<not> preflight rq)"
proof -
  have h: "h = fst (cors_middleware c rq h0)" "run = snd (cors_middleware c rq h0)" using assms(4) by simp_all
  show ?thesis unfolding h cors_headers [OF assms(2,3)]
    using credentials_not_any [OF assms(1)] cors_vary [of c rq h0] by auto
qed

text \<open>A wildcard origin matches the subdomains, never the domain itself, and never another scheme.\<close>

lemma wildcard_match:
  "has_prefix lo p \<and> has_suffix lo q \<and> length lo > length p + length q \<longleftrightarrow> (\<exists>mid. mid \<noteq> [] \<and> lo = p @ mid @ q)"
proof
  assume a: "has_prefix lo p \<and> has_suffix lo q \<and> length lo > length p + length q"
  then obtain t where t: "lo = p @ t" by (auto simp: has_prefix_iff)
  from a obtain u where u: "lo = u @ q" by (auto simp: has_suffix_iff)
  then have "length p < length u" using a t by simp
  then obtain mid where "u = p @ mid" using t u by (metis append_eq_append_conv_if append_eq_conv_conj less_imp_le)
  with u a show "\<exists>mid. mid \<noteq> [] \<and> lo = p @ mid @ q" by auto
qed (auto simp: has_prefix_iff has_suffix_iff)

text \<open>A wildcard that is not the leftmost label passes validation when the parser accepts the origin with the label
  replaced, but is then an exact origin, which no browser sends.\<close>

lemma inner_wildcard_accepted:
  assumes "parse ''https://api.wildcard.example.com'' = Some (''https'', ''api.wildcard.example.com'', [], [])"
  shows "\<not> bad_origin parse ''https://api.*.example.com'' \<and> wildcard_of ''https://api.*.example.com'' = None"
proof -
  have "replace_wildcard ''https://api.*.example.com'' = ''https://api.wildcard.example.com''" by code_simp
  moreover have "wildcard_of ''https://api.*.example.com'' = None" by code_simp
  ultimately show ?thesis using assms by (simp add: bad_origin_def has_suffix_def)
qed

definition sample_cors :: cors_config where
  "sample_cors = \<lparr>co_origins = [''https://app.io''], co_origin_func = None, co_methods = [], co_headers = [], co_expose = None,
     co_credentials = True, co_max_age = 0\<rparr>"

theorem cors_safe_witness:
  "fst (cors_middleware sample_cors \<lparr>cq_method = ''GET'', cq_origin = ''https://app.io'', cq_req_method = [], cq_req_headers = []\<rparr> Map.empty)
     ''Access-Control-Allow-Origin'' = Some [''https://app.io'']"
proof -
  let ?rq = "\<lparr>cq_method = ''GET'', cq_origin = ''https://app.io'', cq_req_method = [], cq_req_headers = []\<rparr>"
  have "cors_validate (\<lambda>_. Some (''https'', ''app.io'', [], [])) sample_cors = None"
    by (simp add: cors_validate_def sample_cors_def bad_origin_def has_suffix_def)
  from cors_safe [OF this, of Map.empty ?rq "fst (cors_middleware sample_cors ?rq Map.empty)" "snd (cors_middleware sample_cors ?rq Map.empty)"]
  have "fst (cors_middleware sample_cors ?rq Map.empty) ''Access-Control-Allow-Credentials'' \<noteq> None \<longrightarrow>
      fst (cors_middleware sample_cors ?rq Map.empty) ''Access-Control-Allow-Origin'' = Some [cq_origin ?rq]" by simp
  moreover have "origin_allowed sample_cors ''https://app.io''" by code_simp
  then have "fst (cors_middleware sample_cors ?rq Map.empty) ''Access-Control-Allow-Credentials'' \<noteq> None"
    using cors_headers(2) [of Map.empty sample_cors ?rq] by (simp add: sample_cors_def)
  ultimately show ?thesis by simp
qed

section \<open>Static files stay under the root\<close>

definition plain_elem :: "string \<Rightarrow> bool" where
  "plain_elem e \<longleftrightarrow> e \<noteq> [] \<and> e \<noteq> ''.'' \<and> e \<noteq> ''..'' \<and> CHR ''/'' \<notin> set e"

lemma clean_elems_ok:
  "list_all plain_elem acc \<Longrightarrow> \<forall>e \<in> set es. CHR ''/'' \<notin> set e \<Longrightarrow> list_all plain_elem (clean_elems es acc)"
proof (induction es arbitrary: acc)
  case (Cons e es)
  have t: "list_all plain_elem (drop 1 acc)" using Cons.prems(1) by (cases acc) simp_all
  have r: "\<forall>x \<in> set es. CHR ''/'' \<notin> set x" using Cons.prems(2) by simp
  show ?case
  proof (cases "e = [] \<or> e = ''.''")
    case True
    then show ?thesis using Cons.IH [OF Cons.prems(1) r] by (simp only: clean_elems.simps if_True)
  next
    case n: False
    show ?thesis
    proof (cases "e = ''..''")
      case True
      show ?thesis unfolding clean_elems.simps if_not_P [OF n] if_P [OF True] by (rule Cons.IH [OF t r])
    next
      case False
      have "list_all plain_elem (e # acc)" using n False Cons.prems by (simp add: plain_elem_def [of e])
      from Cons.IH [OF this r] show ?thesis unfolding clean_elems.simps if_not_P [OF n] if_not_P [OF False] .
    qed
  qed
qed (simp add: list_all_iff)

text \<open>Serving static files: whatever the path of the URL, the name handed to the file system is the root itself or a
  path of elements none of which is empty, a dot or two dots, so no file outside the root can be
  reached; every path under the prefix has a name.\<close>

lemma static_confined:
  "(case static_name url pfx of
      None \<Rightarrow> pfx \<noteq> ''/'' \<and> url \<noteq> pfx \<and> \<not> has_prefix url (pfx @ ''/'')
    | Some name \<Rightarrow> name = ''.'' \<or> ''..'' \<notin> set (split_on CHR ''/'' name) \<and> [] \<notin> set (split_on CHR ''/'' name) \<and>
        (\<exists>es. name = join_with ''/'' es \<and> es \<noteq> []))"
proof -
  define u where "u = (if pfx \<noteq> ''/'' then trim_prefix url pfx else url)"
  define es where "es = clean_elems (split_on CHR ''/'' (CHR ''/'' # u)) []"
  have "list_all plain_elem es" unfolding es_def by (rule clean_elems_ok) (use split_on_no_sep in auto)
  then have es: "\<forall>e \<in> set es. e \<noteq> [] \<and> e \<noteq> ''.'' \<and> e \<noteq> ''..'' \<and> CHR ''/'' \<notin> set e"
    by (simp add: list_all_iff plain_elem_def)
  have n0: "trim_prefix (clean_rooted (CHR ''/'' # u)) ''/'' = join_with ''/'' es"
    by (simp add: clean_rooted_def es_def trim_prefix_def has_prefix_def)
  have sp: "split_on CHR ''/'' (join_with ''/'' es) = es" if "es \<noteq> []"
    using split_join_on [OF that] es by blast
  have j: "join_with ''/'' es = [] \<longleftrightarrow> es = []" using es by (cases es; cases "tl es") auto
  let ?name = "if join_with ''/'' es = [] then ''.'' else join_with ''/'' es"
  have v: "valid_path ?name" using es sp j by (auto simp: valid_path_def)
  have eq: "static_name url pfx =
      (if pfx \<noteq> ''/'' \<and> url \<noteq> pfx \<and> \<not> has_prefix url (pfx @ ''/'') then None else Some ?name)"
    unfolding static_name_def Let_def u_def [symmetric] n0 using v by simp
  show ?thesis unfolding eq using es sp j by (auto split: if_split)
qed

text \<open>With an index that is a plain name, only plain paths are served, and never a directory.\<close>

lemma static_serve_file:
  assumes "static_serve stat pfx index spa meth url = Some file" and "index \<noteq> []"
  shows "stat file = Some False \<and> meth \<in> {''GET'', ''HEAD''}"
  using assms by (auto simp: static_serve_def resolve_file_def Let_def split: if_splits option.splits)

section \<open>Compression is transparent\<close>

fun gz_step :: "gzip_config \<Rightarrow> write_op \<Rightarrow> gzip_writer \<Rightarrow> gzip_writer" where
  "gz_step c (SetHeader k vs) w = w\<lparr>gz_below := (gz_below w)\<lparr>w_header := (w_header (gz_below w))(k \<mapsto> vs)\<rparr>\<rparr>"
| "gz_step c (WriteHeader code) w = gz_write_header code w"
| "gz_step c (Write b) w = gz_write c b w"

definition new_gz :: "headers \<Rightarrow> gzip_writer" where
  "new_gz h = \<lparr>gz_below = new_writer\<lparr>w_header := h\<rparr>, gz_status = 0, gz_buf = [], gz_decided = False, gz_open = None\<rparr>"

text \<open>\<open>p\<close> is the plain writer that got the same calls.\<close>

definition gz_rel :: "gzip_config \<Rightarrow> gzip_writer \<Rightarrow> writer \<Rightarrow> bool" where
  "gz_rel c w p \<longleftrightarrow> gz_status w = w_status p \<and> (w_status p = 0 \<longrightarrow> w_body p = [] \<and> \<not> gz_decided w) \<and> final_code (w_status p) \<and>
     (if \<not> gz_decided w then
        gz_open w = None \<and> w_status (gz_below w) = 0 \<and> w_body (gz_below w) = [] \<and> gz_buf w = w_body p
      else
        gz_buf w = [] \<and> w_status (gz_below w) = w_status p \<and>
        (case gz_open w of
           None \<Rightarrow> w_body (gz_below w) = w_body p
         | Some z \<Rightarrow> z = w_body p \<and> w_body (gz_below w) = [] \<and> gc_min c \<le> length (w_body p) \<and>
             w_sent (gz_below w) ''Content-Encoding'' = Some [''gzip''] \<and> w_sent (gz_below w) ''Content-Length'' = None))"

lemma compressible_keeps:
  "gz_status (snd (compressible c w)) = gz_status w" "gz_buf (snd (compressible c w)) = gz_buf w"
  "gz_decided (snd (compressible c w)) = gz_decided w" "gz_open (snd (compressible c w)) = gz_open w"
  "w_status (gz_below (snd (compressible c w))) = w_status (gz_below w)"
  "w_body (gz_below (snd (compressible c w))) = w_body (gz_below w)"
  by (cases "header_get (w_header (gz_below w)) ''Content-Type'' = []"; simp add: compressible_def Let_def)+

lemma gz_commit_rel:
  assumes "gz_open w = None" "w_status (gz_below w) = 0" "w_body (gz_below w) = []" "gz_buf w = w_body p" "gz_status w = w_status p"
    and "gz_decided w" and "w_status p \<noteq> 0" "final_code (w_status p)" and "ok \<Longrightarrow> gc_min c \<le> length (w_body p)"
  shows "gz_rel c (gz_commit ok w) p"
  using assms
  by (cases ok; cases "w_body p = []")
    (simp_all add: gz_rel_def gz_commit_def w_write_header_def commits_def w_write_def Let_def)

lemma gz_decide_rel:
  assumes "gz_open w = None" "w_status (gz_below w) = 0" "w_body (gz_below w) = []" "gz_buf w = w_body p" "gz_status w = w_status p"
    and "w_status p \<noteq> 0" "final_code (w_status p)" and "enough \<Longrightarrow> gc_min c \<le> length (w_body p)"
  shows "gz_rel c (gz_decide c enough w) p"
proof -
  have "gz_rel c (gz_commit ok (snd (compressible c (w\<lparr>gz_decided := True\<rparr>)))) p" if enough for ok
    by (rule gz_commit_rel) (use assms that in \<open>simp_all add: compressible_keeps\<close>)
  moreover have "gz_rel c (gz_commit False (w\<lparr>gz_decided := True\<rparr>)) p"
    by (rule gz_commit_rel) (use assms in simp_all)
  ultimately show ?thesis by (simp add: gz_decide_def Let_def case_prod_unfold)
qed

lemma gz_decide_decided: "gz_decided (gz_decide c enough w)"
proof -
  have cd: "gz_decided (gz_commit ok x) = gz_decided x" for ok x
    by (cases ok; cases "gz_buf x = []"; cases "gz_open x") (simp_all add: gz_commit_def Let_def)
  show ?thesis by (simp add: gz_decide_def Let_def case_prod_unfold cd compressible_keeps)
qed

lemma gz_step_rel: "gz_rel c w p \<Longrightarrow> valid_op op \<Longrightarrow> gz_rel c (gz_step c op w) (writer_step op p)"
proof (cases op)
  case (WriteHeader code)
  assume "gz_rel c w p" "valid_op op"
  then show ?thesis using WriteHeader
    by (auto simp: gz_rel_def gz_write_header_def w_write_header_def commits_def valid_op_def final_code_def split: option.splits if_splits)
next
  case (SetHeader k vs)
  assume "gz_rel c w p"
  then show ?thesis using SetHeader by (auto simp: gz_rel_def split: option.splits if_splits)
next
  case (Write b)
  assume r: "gz_rel c w p"
  let ?p = "w_write b p"
  have ps: "w_status ?p \<noteq> 0" "final_code (w_status ?p)" "w_body ?p = w_body p @ b" "w_status ?p = (if w_status p = 0 then 200 else w_status p)"
    using r by (auto simp: w_write_def w_write_header_def commits_def Let_def gz_rel_def)
  let ?w = "if gz_status w = 0 then w\<lparr>gz_status := 200\<rparr> else w"
  have st: "gz_status ?w = w_status ?p" using r ps(4) by (simp add: gz_rel_def)
  show ?thesis
  proof (cases "gz_decided w")
    case True
    then have "w_status p \<noteq> 0" using r by (auto simp: gz_rel_def)
    then show ?thesis using r True ps Write
      by (auto simp: gz_rel_def gz_write_def Let_def w_write_def [of b "gz_below w"] w_write_header_def commits_def split: option.splits)
  next
    case False
    let ?w1 = "?w\<lparr>gz_buf := gz_buf ?w @ b\<rparr>"
    have k: "gz_open ?w1 = None" "w_status (gz_below ?w1) = 0" "w_body (gz_below ?w1) = []" "gz_buf ?w1 = w_body ?p"
      "gz_status ?w1 = w_status ?p" using r False ps st by (auto simp: gz_rel_def)
    show ?thesis
    proof (cases "gc_min c \<le> length (gz_buf ?w1)")
      case True
      have "gz_rel c (gz_decide c True ?w1) ?p"
        by (rule gz_decide_rel [OF k ps(1,2)]) (use True k(4) in simp)
      then show ?thesis using Write False True by (simp add: gz_write_def Let_def)
    next
      case nt: False
      have "gz_rel c ?w1 ?p" using k False ps by (simp add: gz_rel_def)
      then show ?thesis using Write False nt by (simp add: gz_write_def Let_def)
    qed
  qed
qed

lemma gz_run_rel:
  "gz_rel c w p \<Longrightarrow> list_all valid_op ops \<Longrightarrow> gz_rel c (fold (gz_step c) ops w) (writer_run ops p)"
  unfolding writer_run_def by (induction ops arbitrary: w p) (simp_all add: gz_step_rel)

text \<open>C28: Compression is transparent: whatever a handler writes, in however many pieces (with status codes as in theory \<open>Capture\<close>), the client gets the status
  it would have got, and either the same bytes or, for bodies that reached the minimum length, their
  compression, announced in \<open>Content-Encoding\<close> and without a \<open>Content-Length\<close>. No byte is lost,
  repeated or sent both ways.\<close>

theorem compression_transparent:
  assumes "list_all valid_op ops"
    and "w = gz_close c gzip (fold (gz_step c) ops (new_gz h))" and "p = writer_run ops (new_writer\<lparr>w_header := h\<rparr>)"
  shows "w_status (gz_below w) = w_status p \<and>
    (w_body (gz_below w) = w_body p \<or>
     w_body (gz_below w) = gzip (w_body p) \<and> gc_min c \<le> length (w_body p) \<and>
       w_sent (gz_below w) ''Content-Encoding'' = Some [''gzip''] \<and> w_sent (gz_below w) ''Content-Length'' = None)"
proof -
  let ?v = "fold (gz_step c) ops (new_gz h)"
  have "gz_rel c (new_gz h) (new_writer\<lparr>w_header := h\<rparr>)" by (simp add: gz_rel_def new_gz_def new_writer_def final_code_def)
  then have r: "gz_rel c ?v p" unfolding assms(3) using assms(1) by (rule gz_run_rel)
  show ?thesis
  proof (cases "\<not> gz_decided ?v \<and> gz_status ?v = 0")
    case True
    then show ?thesis using r by (simp add: assms(2) gz_close_def gz_rel_def)
  next
    case False
    let ?u = "if \<not> gz_decided ?v then gz_decide c (length (gz_buf ?v) \<ge> gc_min c) ?v else ?v"
    have u: "gz_rel c ?u p"
    proof (cases "gz_decided ?v")
      case nd: False
      have "gz_rel c (gz_decide c (gc_min c \<le> length (gz_buf ?v)) ?v) p"
        by (rule gz_decide_rel) (use r nd False in \<open>simp_all add: gz_rel_def\<close>)
      with nd show ?thesis by simp
    qed (use r in simp)
    have dec: "gz_decided ?u" using gz_decide_decided by (cases "gz_decided ?v") simp_all
    have w: "w = (case gz_open ?u of None \<Rightarrow> ?u | Some z \<Rightarrow> ?u\<lparr>gz_below := w_write (gzip z) (gz_below ?u), gz_open := None\<rparr>)"
      using False unfolding assms(2) gz_close_def Let_def by auto
    have close: "w_status (gz_below x) = w_status p \<and> (w_body (gz_below x) = w_body p \<or>
       w_body (gz_below x) = gzip (w_body p) \<and> gc_min c \<le> length (w_body p) \<and>
       w_sent (gz_below x) ''Content-Encoding'' = Some [''gzip''] \<and> w_sent (gz_below x) ''Content-Length'' = None)"
      if "gz_rel c y p" "gz_decided y"
        "x = (case gz_open y of None \<Rightarrow> y | Some z \<Rightarrow> y\<lparr>gz_below := w_write (gzip z) (gz_below y), gz_open := None\<rparr>)" for x y
      using that by (cases "gz_open y") (auto simp: gz_rel_def w_write_def w_write_header_def commits_def Let_def)
    show ?thesis by (rule close [OF u dec w])
  qed
qed

theorem compression_transparent_witness:
  "w_body (gz_below (gz_close \<lparr>gc_min = 2, gc_types = [''text/''], gc_sniff = (\<lambda>_. ''text/plain'')\<rparr> rev
     (fold (gz_step \<lparr>gc_min = 2, gc_types = [''text/''], gc_sniff = (\<lambda>_. ''text/plain'')\<rparr>) [Write ''a'', Write ''bc''] (new_gz Map.empty)))) \<in>
   {''abc'', ''cba''}"
proof -
  have "w_body (writer_run [Write ''a'', Write ''bc''] (new_writer\<lparr>w_header := Map.empty\<rparr>)) = ''abc''"
    by (simp add: writer_run_def w_write_def w_write_header_def commits_def new_writer_def Let_def)
  with compression_transparent [of "[Write ''a'', Write ''bc'']" _ _ rev Map.empty, OF _ refl refl] show ?thesis
    by (auto simp: valid_op_def)
qed

section \<open>The response cache\<close>

lemma credentials_bypass:
  "\<not> cc_authenticated c \<Longrightarrow> cr_authorization rq \<noteq> [] \<or> cr_cookie rq \<noteq> [] \<Longrightarrow>
     response_cache c key st t1 t2 rq result s = (Bypassed, s)"
  by (auto simp: response_cache_def cache_bypassed_def cache_defaults_def Let_def)

text \<open>Two requests with different query strings share a cache key: the separator between the name and the value
  of a parameter may occur in the name.\<close>

lemma cache_key_collision:
  "default_key_bytes (rq\<lparr>cr_query := [(''a'', [''b=c''])]\<rparr>) = default_key_bytes (rq\<lparr>cr_query := [(''a=b'', [''c''])]\<rparr>)"
  by (simp add: default_key_bytes_def)

text \<open>An entity tag is kept under its canonical name, which is not among the headers kept for a replay.\<close>

lemma etag_not_replayed: "canonical_key ''ETag'' \<notin> set replayed_headers"
proof -
  have "canonical_key ''ETag'' = ''Etag''" by code_simp
  then show ?thesis by (simp add: replayed_headers_def)
qed

context lossy_store begin

lemma cached_response_hit:
  assumes i: "inv s" and t: "0 \<le> t2" and c: "\<forall>r. cc_dec c (cc_enc c r) = Some r"
    and r: "response_cache c key st t1 t2 rq (Some resp) s = (Ran, s')" "storable rq resp"
    and n: "\<not> cache_bypassed c rq'" "key rq' = key rq"
    and l: "later < t2 + cc_ttl (cache_defaults c)"
  shows "fst (response_cache c key st later t3 rq' result s') = Hit resp"
proof -
  let ?c = "cache_defaults c"
  have d: "cc_dec ?c = cc_dec c" "cc_enc ?c = cc_enc c" "cache_bypassed ?c = cache_bypassed c"
    by (auto simp: cache_defaults_def cache_bypassed_def fun_eq_iff)
  obtain res s1 where g: "st_get st t1 (key rq) s = (res, s1)" by fastforce
  have i1: "inv s1" using get_inv [OF i, of t1 "key rq"] g by simp
  have s': "s' = snd (st_set st t2 (key rq) (cc_enc c resp) (cc_ttl ?c) s1)"
    using r g by (auto simp: response_cache_def Let_def d split: if_splits option.splits)
  have "fst (st_get st later (key rq') s') = Inr (cc_enc c resp)"
    using get_after_set [OF i1 t] l n by (simp add: s' fresh_until_def)
  then show ?thesis using n c by (cases "st_get st later (key rq') s'") (simp add: response_cache_def Let_def d)
qed

end

end
