(* ===== verification/Negotiate.thy ===== *)
theory Negotiate
  imports Complex_Main Network
begin

text \<open>
  \<open>negotiate.go\<close>: content negotiation over the \<open>Accept\<close> header, the media type shorthands, \<open>Vary\<close>, \<open>Link\<close> and
  the other request and response helpers. Quality values are rational numbers, read by a parameter (Go's \<open>ParseFloat\<close>; not-a-number is outside the model). Handlers of offers are their position.
\<close>

section \<open>Media types\<close>

definition media_shorthands :: "(string \<times> string) list" where
  "media_shorthands =
     [(''html'', ''text/html''), (''htm'', ''text/html''), (''json'', ''application/json''), (''xml'', ''application/xml''),
      (''text'', ''text/plain''), (''txt'', ''text/plain''), (''csv'', ''text/csv''), (''css'', ''text/css''),
      (''form'', ''application/x-www-form-urlencoded''), (''bin'', ''application/octet-stream'')]"

definition expand_shorthand :: "string \<Rightarrow> string" where
  "expand_shorthand t =
     (if CHR ''/'' \<in> set t \<or> t = [] then t
      else case map_of media_shorthands t of Some r \<Rightarrow> r | None \<Rightarrow> ''application/octet-stream'')"

definition expand_names :: "string list \<Rightarrow> string list" where
  "expand_names = map (\<lambda>t. expand_shorthand (to_lower (trim_space t)))"

text \<open>The library: the number parser, and \<open>baseMediaType\<close>, which \<open>bind.go\<close> builds on package \<open>mime\<close>.\<close>

record neg_lib =
  ng_num :: "string \<Rightarrow> rat option"
  ng_base :: "string \<Rightarrow> string"

definition with_charset :: "string \<Rightarrow> string" where
  "with_charset ct = (if CHR '';'' \<in> set ct then ct else if has_prefix ct ''text/'' then ct @ ''; charset=utf-8'' else ct)"

section \<open>Request helpers\<close>

definition hostname :: "string \<Rightarrow> string" where
  "hostname h0 =
     (let h = (case split_host_port h0 of Some (host, _) \<Rightarrow> host | None \<Rightarrow> trim_suffix (trim_prefix h0 ''['') '']'')
      in to_lower (trim_suffix h ''.''))"

definition is_content_type :: "neg_lib \<Rightarrow> string \<Rightarrow> string list \<Rightarrow> bool" where
  "is_content_type L content_type types \<longleftrightarrow>
     (let candidate = to_lower (ng_base L content_type) in
      candidate \<noteq> [] \<and>
      list_ex (\<lambda>t0. let t = to_lower (trim_space t0) in
        t \<noteq> [] \<and> (if CHR ''/'' \<in> set t then candidate = t
                   else candidate = expand_shorthand t \<or> has_suffix candidate (''+'' @ t))) types)"

section \<open>The Accept header\<close>

record accept_range =
  ar_typ :: string
  ar_sub :: string
  ar_q :: rat
  ar_spec :: int

definition range_quality :: "(string \<Rightarrow> rat option) \<Rightarrow> string list \<Rightarrow> rat" where
  "range_quality num params =
     foldl (\<lambda>q p. case cut_at CHR ''='' (trim_space p) of (k, v, ok) \<Rightarrow>
        if ok \<and> trim_space k = ''q'' then (case num (trim_space v) of None \<Rightarrow> q | Some f \<Rightarrow> f) else q) 1 params"

definition parse_range :: "neg_lib \<Rightarrow> string \<Rightarrow> accept_range option" where
  "parse_range L part0 =
     (let part = trim_space part0 in
      if part = [] then None
      else
        let segs = split_on CHR '';'' part in
        case cut_at CHR ''/'' (to_lower (ng_base L (hd segs))) of (typ, sub, ok) \<Rightarrow>
          if \<not> ok \<or> typ = [] \<or> sub = [] then None
          else Some \<lparr>ar_typ = typ, ar_sub = sub, ar_q = range_quality (ng_num L) (tl segs),
                     ar_spec = (if typ = ''*'' then 0 else if sub = ''*'' then 1 else 2)\<rparr>)"

definition parse_accept :: "neg_lib \<Rightarrow> string \<Rightarrow> accept_range list" where
  "parse_accept L header = List.map_filter (parse_range L) (split_on CHR '','' header)"

definition range_matches :: "string \<Rightarrow> string \<Rightarrow> accept_range \<Rightarrow> bool" where
  "range_matches typ sub r \<longleftrightarrow> (ar_typ r = ''*'' \<or> ar_typ r = typ) \<and> (ar_sub r = ''*'' \<or> ar_sub r = sub)"

definition match_quality :: "accept_range list \<Rightarrow> string \<Rightarrow> rat" where
  "match_quality ranges o' =
     (case cut_at CHR ''/'' o' of (typ, sub, ok) \<Rightarrow>
        if \<not> ok then -1
        else snd (foldl (\<lambda>(spec, q) r. if range_matches typ sub r \<and> ar_spec r > spec then (ar_spec r, ar_q r) else (spec, q))
                    (-1, -1) ranges))"

fun best_offer :: "(string \<Rightarrow> rat) \<Rightarrow> string list \<Rightarrow> nat \<Rightarrow> nat option \<Rightarrow> rat \<Rightarrow> nat option" where
  "best_offer quality [] i best best_q = best"
| "best_offer quality (t # ts) i best best_q =
     (if quality t > best_q then best_offer quality ts (i + 1) (Some i) (quality t)
      else best_offer quality ts (i + 1) best best_q)"

definition negotiate :: "neg_lib \<Rightarrow> string \<Rightarrow> string list \<Rightarrow> nat option" where
  "negotiate L header offered = best_offer (match_quality (parse_accept L header)) offered 0 None 0"

definition accepts_type :: "neg_lib \<Rightarrow> string \<Rightarrow> string list \<Rightarrow> string" where
  "accepts_type L header types =
     (if types = [] then []
      else if trim_space header = [] then hd types
      else case negotiate L header (expand_names types) of Some i \<Rightarrow> types ! i | None \<Rightarrow> [])"

section \<open>Response helpers\<close>

text \<open>\<open>AddVary\<close> joins the value to the first \<open>Vary\<close> line.\<close>

definition add_vary :: "string \<Rightarrow> headers \<Rightarrow> headers" where
  "add_vary value h =
     (if list_ex (\<lambda>v. list_ex (\<lambda>p. equal_fold (trim_space p) value) (split_on CHR '','' v)) (case h ''Vary'' of None \<Rightarrow> [] | Some vs \<Rightarrow> vs)
      then h
      else if header_get h ''Vary'' = [] then h(''Vary'' \<mapsto> [value])
      else h(''Vary'' \<mapsto> [header_get h ''Vary'' @ '', '' @ value]))"

text \<open>\<open>Format\<close>: the headers and the position of the offer to run, or \<open>None\<close> for a 406.\<close>

definition format_offers :: "neg_lib \<Rightarrow> string \<Rightarrow> string list \<Rightarrow> headers \<Rightarrow> nat option \<times> headers" where
  "format_offers L header names h =
     (if names = [] then (None, h)
      else
        let best = (if trim_space header \<noteq> [] then negotiate L header (expand_names names) else Some 0)
        in (best, add_vary ''Accept'' h))"

definition link_value :: "(string \<times> string) list \<Rightarrow> string" where
  "link_value links =
     join_with '', '' (map (\<lambda>rel. ''<'' @ the (map_of links rel) @ ''>; rel='' @ [CHR 0x22] @ rel @ [CHR 0x22]) (sort (map fst links)))"

definition set_type :: "string \<Rightarrow> string" where
  "set_type t = (let ct = trim_space t in with_charset (if CHR ''/'' \<notin> set ct then expand_shorthand (to_lower ct) else ct))"

section \<open>The chosen offer\<close>

text \<open>An offer is chosen from a tail of the list: nothing before it in the tail is as good, nothing after it is better.\<close>

definition chosen :: "('a \<Rightarrow> rat) \<Rightarrow> 'a list \<Rightarrow> nat \<Rightarrow> bool" where
  "chosen quality ts j \<longleftrightarrow>
     j < length ts \<and> (\<forall>t \<in> set ts. quality t \<le> quality (ts ! j)) \<and> (\<forall>t \<in> set (take j ts). quality t < quality (ts ! j))"

lemma chosen_head: "\<forall>t \<in> set ts. quality t \<le> quality x \<Longrightarrow> chosen quality (x # ts) 0"
  by (simp add: chosen_def)

lemma chosen_tail: "chosen quality ts j \<Longrightarrow> quality x < quality (ts ! j) \<Longrightarrow> chosen quality (x # ts) (Suc j)"
  by (auto simp: chosen_def)

lemma best_offer_spec:
  "(best_offer quality ts i best q = best \<and> (\<forall>t \<in> set ts. quality t \<le> q)) \<or>
   (\<exists>j. best_offer quality ts i best q = Some (i + j) \<and> chosen quality ts j \<and> q < quality (ts ! j))"
proof (induction ts arbitrary: i best q)
  case Nil
  show ?case by simp
next
  case (Cons t ts)
  show ?case
  proof (cases "quality t > q")
    case True
    consider (none) "best_offer quality ts (i + 1) (Some i) (quality t) = Some i" "\<forall>x \<in> set ts. quality x \<le> quality t"
      | (some) j where "best_offer quality ts (i + 1) (Some i) (quality t) = Some (i + 1 + j)"
          "chosen quality ts j" "quality t < quality (ts ! j)"
      using Cons.IH [of "i + 1" "Some i" "quality t"] by blast
    then show ?thesis
    proof cases
      case none
      then show ?thesis using True chosen_head [OF none(2)] by (intro disjI2 exI [of _ 0]) simp
    next
      case some
      then show ?thesis using True chosen_tail [OF some(2,3)] by (intro disjI2 exI [of _ "Suc j"]) simp
    qed
  next
    case False
    then have step: "best_offer quality (t # ts) i best q = best_offer quality ts (i + 1) best q" by simp
    consider (none) "best_offer quality ts (i + 1) best q = best" "\<forall>x \<in> set ts. quality x \<le> q"
      | (some) j where "best_offer quality ts (i + 1) best q = Some (i + 1 + j)" "chosen quality ts j" "q < quality (ts ! j)"
      using Cons.IH [of "i + 1" best q] by blast
    then show ?thesis
    proof cases
      case none
      then show ?thesis unfolding step using False by simp
    next
      case some
      then have "quality t < quality (ts ! j)" using False by simp
      then show ?thesis unfolding step using some chosen_tail [OF some(2)] by (intro disjI2 exI [of _ "Suc j"]) simp
    qed
  qed
qed

text \<open>The quality of a type is that of a most specific range that matches it.\<close>

definition most_specific :: "string \<Rightarrow> string \<Rightarrow> accept_range list \<Rightarrow> accept_range \<Rightarrow> bool" where
  "most_specific typ sub rs r \<longleftrightarrow>
     r \<in> set rs \<and> range_matches typ sub r \<and> (\<forall>x \<in> set rs. range_matches typ sub x \<longrightarrow> ar_spec x \<le> ar_spec r)"

definition quality_step :: "string \<Rightarrow> string \<Rightarrow> int \<times> rat \<Rightarrow> accept_range \<Rightarrow> int \<times> rat" where
  "quality_step typ sub acc r = (if range_matches typ sub r \<and> ar_spec r > fst acc then (ar_spec r, ar_q r) else acc)"

lemma match_quality_steps:
  "cut_at CHR ''/'' t = (typ, sub, True) \<Longrightarrow> match_quality ranges t = snd (foldl (quality_step typ sub) (-1, -1) ranges)"
proof -
  assume cut: "cut_at CHR ''/'' t = (typ, sub, True)"
  have "(\<lambda>(spec, q) r. if range_matches typ sub r \<and> ar_spec r > spec then (ar_spec r, ar_q r) else (spec, q)) = quality_step typ sub"
    by (auto simp: quality_step_def fun_eq_iff)
  then show ?thesis by (simp add: match_quality_def cut)
qed

lemma quality_step_spec:
  "\<forall>r \<in> set rs. 0 \<le> ar_spec r \<Longrightarrow>
     (foldl (quality_step typ sub) (-1, -1) rs = (-1, -1) \<and> (\<forall>r \<in> set rs. \<not> range_matches typ sub r)) \<or>
     (\<exists>r. foldl (quality_step typ sub) (-1, -1) rs = (ar_spec r, ar_q r) \<and> most_specific typ sub rs r)"
proof (induction rs rule: rev_induct)
  case Nil
  show ?case by simp
next
  case (snoc x rs)
  then have x: "0 \<le> ar_spec x" by simp
  consider (none) "foldl (quality_step typ sub) (-1, -1) rs = (-1, -1)" "\<forall>r \<in> set rs. \<not> range_matches typ sub r"
    | (some) r where "foldl (quality_step typ sub) (-1, -1) rs = (ar_spec r, ar_q r)" "most_specific typ sub rs r"
    using snoc by auto
  then show ?case
  proof cases
    case none
    have last: "foldl (quality_step typ sub) (-1, -1) (rs @ [x]) = quality_step typ sub (-1, -1) x" by (simp add: none(1))
    show ?thesis
    proof (cases "range_matches typ sub x")
      case True
      then have "most_specific typ sub (rs @ [x]) x" using none(2) by (auto simp: most_specific_def)
      moreover have "quality_step typ sub (-1, -1) x = (ar_spec x, ar_q x)" using True x by (simp add: quality_step_def)
      ultimately show ?thesis unfolding last by blast
    next
      case False
      then show ?thesis unfolding last using none(2) by (simp add: quality_step_def)
    qed
  next
    case some
    show ?thesis
    proof (cases "range_matches typ sub x \<and> ar_spec x > ar_spec r")
      case True
      then have "foldl (quality_step typ sub) (-1, -1) (rs @ [x]) = (ar_spec x, ar_q x)"
        by (simp add: some(1)) (simp add: quality_step_def)
      moreover have "most_specific typ sub (rs @ [x]) x" using True some(2) by (auto simp: most_specific_def)
      ultimately show ?thesis by blast
    next
      case False
      then have "foldl (quality_step typ sub) (-1, -1) (rs @ [x]) = (ar_spec r, ar_q r)"
        by (simp add: some(1)) (auto simp: quality_step_def)
      moreover have "most_specific typ sub (rs @ [x]) r" using False some(2) by (auto simp: most_specific_def)
      ultimately show ?thesis by blast
    qed
  qed
qed

lemma match_quality_spec:
  assumes "cut_at CHR ''/'' t = (typ, sub, True)" and "\<forall>r \<in> set rs. 0 \<le> ar_spec r"
  shows "(match_quality rs t = -1 \<and> (\<forall>r \<in> set rs. \<not> range_matches typ sub r)) \<or>
    (\<exists>r. match_quality rs t = ar_q r \<and> most_specific typ sub rs r)"
  using quality_step_spec [OF assms(2), of "typ" sub] by (auto simp: match_quality_steps [OF assms(1)])

lemma parse_range_spec: "parse_range L part = Some r \<Longrightarrow> 0 \<le> ar_spec r \<and> ar_spec r \<le> 2"
  by (cases "cut_at CHR ''/'' (to_lower (ng_base L (hd (split_on CHR '';'' (trim_space part)))))")
    (simp add: parse_range_def Let_def split: if_split_asm, auto)

lemma set_map_filter: "x \<in> set (List.map_filter f xs) \<longleftrightarrow> (\<exists>y \<in> set xs. f y = Some x)"
  by (induction xs) (auto split: option.splits)

lemma parse_accept_spec: "r \<in> set (parse_accept L header) \<Longrightarrow> 0 \<le> ar_spec r \<and> ar_spec r \<le> 2"
  unfolding parse_accept_def by (auto simp: set_map_filter dest: parse_range_spec)

lemma negotiate_some:
  assumes "negotiate L header offered = Some j"
  shows "chosen (match_quality (parse_accept L header)) offered j" and "0 < match_quality (parse_accept L header) (offered ! j)"
  using assms best_offer_spec [of "match_quality (parse_accept L header)" offered 0 None 0] by (auto simp: negotiate_def)

lemma negotiate_none:
  "negotiate L header offered = None \<Longrightarrow> t \<in> set offered \<Longrightarrow> match_quality (parse_accept L header) t \<le> 0"
  using best_offer_spec [of "match_quality (parse_accept L header)" offered 0 None 0] by (auto simp: negotiate_def)

text \<open>C29: Negotiation answers with the offer the client prefers. The offer's quality is positive, no offer has a higher one, every
  earlier offer has a lower one, and the quality is the one that a most specific matching range of the Accept header
  gives: a wildcard never overrides an exact type.\<close>

theorem negotiate_best:
  assumes "negotiate L header offered = Some j" and "cut_at CHR ''/'' (offered ! j) = (typ, sub, True)"
  shows "j < length offered \<and>
    (\<forall>t \<in> set offered. match_quality (parse_accept L header) t \<le> match_quality (parse_accept L header) (offered ! j)) \<and>
    (\<forall>t \<in> set (take j offered). match_quality (parse_accept L header) t < match_quality (parse_accept L header) (offered ! j)) \<and>
    (\<exists>r \<in> set (parse_accept L header). range_matches typ sub r \<and> match_quality (parse_accept L header) (offered ! j) = ar_q r \<and>
           0 < ar_q r \<and> (\<forall>x \<in> set (parse_accept L header). range_matches typ sub x \<longrightarrow> ar_spec x \<le> ar_spec r))"
proof (intro conjI)
  note some = negotiate_some [OF assms(1)]
  show "j < length offered"
    and "\<forall>t \<in> set offered. match_quality (parse_accept L header) t \<le> match_quality (parse_accept L header) (offered ! j)"
    and "\<forall>t \<in> set (take j offered). match_quality (parse_accept L header) t < match_quality (parse_accept L header) (offered ! j)"
    using some(1) by (simp_all add: chosen_def)
  have "\<forall>r \<in> set (parse_accept L header). 0 \<le> ar_spec r" using parse_accept_spec by blast
  from match_quality_spec [OF assms(2) this] some(2)
  show "\<exists>r \<in> set (parse_accept L header). range_matches typ sub r \<and> match_quality (parse_accept L header) (offered ! j) = ar_q r \<and>
      0 < ar_q r \<and> (\<forall>x \<in> set (parse_accept L header). range_matches typ sub x \<longrightarrow> ar_spec x \<le> ar_spec r)"
    by (auto simp: most_specific_def)
qed

definition sample_lib :: neg_lib where
  "sample_lib = \<lparr>ng_num = (\<lambda>s. if s = ''0.5'' then Some (1 / 2) else None), ng_base = trim_space\<rparr>"

lemma sample_accept:
  "parse_accept sample_lib ''text/*;q=0.5, application/json'' =
     [\<lparr>ar_typ = ''text'', ar_sub = ''*'', ar_q = 1 / 2, ar_spec = 1\<rparr>,
      \<lparr>ar_typ = ''application'', ar_sub = ''json'', ar_q = 1, ar_spec = 2\<rparr>]"
proof -
  have "split_on CHR '','' ''text/*;q=0.5, application/json'' = [''text/*;q=0.5'', '' application/json'']" by simp
  moreover have "parse_range sample_lib ''text/*;q=0.5'' = Some \<lparr>ar_typ = ''text'', ar_sub = ''*'', ar_q = 1 / 2, ar_spec = 1\<rparr>"
    by code_simp
  moreover have "parse_range sample_lib '' application/json'' = Some \<lparr>ar_typ = ''application'', ar_sub = ''json'', ar_q = 1, ar_spec = 2\<rparr>"
    by code_simp
  ultimately show ?thesis by (simp add: parse_accept_def List.map_filter_simps)
qed

lemma sample_negotiation:
  "negotiate sample_lib ''text/*;q=0.5, application/json'' [''text/html'', ''application/json''] = Some 1"
  by (simp add: negotiate_def sample_accept match_quality_def range_matches_def)

theorem negotiate_best_witness:
  "\<exists>r \<in> set (parse_accept sample_lib ''text/*;q=0.5, application/json''). range_matches ''application'' ''json'' r \<and> 0 < ar_q r"
proof -
  have "cut_at CHR ''/'' ([''text/html'', ''application/json''] ! 1) = (''application'', ''json'', True)" by simp
  from negotiate_best [OF sample_negotiation this] show ?thesis by blast
qed

end
