(* ===== verification/Rules.thy ===== *)
theory Rules
  imports Complex_Main Prelude
begin

text \<open>
  The rules of package \<open>validate\<close> (\<open>rules.go\<close>, and \<open>ParseTag\<close> and \<open>FieldName\<close> of \<open>validate.go\<close>): Go types and values as far as
  reflection distinguishes them, 64-bit floating point comparison, the rule factories and their messages, and the
  predicates on strings. The parsers of floats, durations, URLs, mail and IP addresses, the letter tables of package
  \<open>unicode\<close> and the regular expressions are parameters.
\<close>

section \<open>Types and values\<close>

datatype gtype =
    TString | TBool | TInt | TUint | TUintptr | TFloat | TDuration
  | TPtr gtype | TSlice gtype | TArray gtype | TMap gtype | TStruct string | TIface | TOther

text \<open>A \<open>float64\<close>: a rational number, the negative zero, an infinity (positive or not), or not a number.\<close>

datatype fnum = Fin rat | NegZero | Infinite bool | NaN

text \<open>A nil pointer, interface, slice or map is \<open>None\<close>. A map is the list of its entries in the order of an iteration, with the keys
  as \<open>fmt.Sprint\<close> prints them; of a value of any other kind only whether it is zero matters.\<close>

datatype gval =
    VString string | VBool bool | VInt int | VUint nat | VFloat fnum
  | VPtr "gval option" | VIface "gval option" | VSlice "gval list option" | VArray "gval list"
  | VMap "(string \<times> gval) list option" | VStruct string "gval list" | VOther bool

text \<open>\<open>float64(n)\<close>: exact up to 53 bits, rounded to the nearest multiple, ties to even, above.\<close>

definition excess_bits :: "nat \<Rightarrow> nat" where
  "excess_bits a = length (takeWhile (\<lambda>e. 2 ^ (53 + e) \<le> a) [0..<64])"

definition round_mag :: "nat \<Rightarrow> nat" where
  "round_mag a =
     (let e = excess_bits a; q = a div 2 ^ e; r = a mod 2 ^ e in
      if e = 0 then a
      else if 2 * r > 2 ^ e \<or> (2 * r = 2 ^ e \<and> odd q) then (q + 1) * 2 ^ e else q * 2 ^ e)"

definition f64_of_int :: "int \<Rightarrow> fnum" where
  "f64_of_int i = Fin (of_int (if i < 0 then - int (round_mag (nat (- i))) else int (round_mag (nat i))))"

text \<open>The comparisons of IEEE 754: nothing holds of a value that is not a number.\<close>

fun f_less :: "fnum \<Rightarrow> fnum \<Rightarrow> bool" where
  "f_less NaN y = False"
| "f_less x NaN = False"
| "f_less (Infinite p) y = (\<not> p \<and> y \<noteq> Infinite False)"
| "f_less x (Infinite p) = p"
| "f_less (Fin a) (Fin b) = (a < b)"
| "f_less (Fin a) NegZero = (a < 0)"
| "f_less NegZero (Fin b) = (0 < b)"
| "f_less NegZero NegZero = False"

definition f_eq :: "fnum \<Rightarrow> fnum \<Rightarrow> bool" where
  "f_eq x y \<longleftrightarrow> x \<noteq> NaN \<and> y \<noteq> NaN \<and> (if x = NegZero then Fin 0 else x) = (if y = NegZero then Fin 0 else y)"

datatype fcmp = FGe | FLe | FEq | FGt | FLt

fun f_compare :: "fcmp \<Rightarrow> fnum \<Rightarrow> fnum \<Rightarrow> bool" where
  "f_compare FGe a b = (f_less b a \<or> f_eq a b)"
| "f_compare FLe a b = (f_less a b \<or> f_eq a b)"
| "f_compare FEq a b = f_eq a b"
| "f_compare FGt a b = f_less b a"
| "f_compare FLt a b = f_less a b"

section \<open>Runes\<close>

text \<open>The first rune of a string and the number of its bytes; a byte that starts no valid encoding is one rune, \<open>U+FFFD\<close>.\<close>

definition cont_byte :: "nat \<Rightarrow> bool" where
  "cont_byte b \<longleftrightarrow> 128 \<le> b \<and> b \<le> 191"

fun decode_rune :: "nat list \<Rightarrow> nat \<times> nat" where
  "decode_rune [] = (65533, 0)"
| "decode_rune (b # bs) =
     (if b < 128 then (b, 1)
      else if 194 \<le> b \<and> b \<le> 223 then
        (case bs of c # _ \<Rightarrow> if cont_byte c then ((b - 192) * 64 + (c - 128), 2) else (65533, 1) | _ \<Rightarrow> (65533, 1))
      else if 224 \<le> b \<and> b \<le> 239 then
        (case bs of c # d # _ \<Rightarrow>
           if cont_byte c \<and> (b = 224 \<longrightarrow> 160 \<le> c) \<and> (b = 237 \<longrightarrow> c \<le> 159) \<and> cont_byte d
           then ((b - 224) * 4096 + (c - 128) * 64 + (d - 128), 3) else (65533, 1)
         | _ \<Rightarrow> (65533, 1))
      else if 240 \<le> b \<and> b \<le> 244 then
        (case bs of c # d # e # _ \<Rightarrow>
           if cont_byte c \<and> (b = 240 \<longrightarrow> 144 \<le> c) \<and> (b = 244 \<longrightarrow> c \<le> 143) \<and> cont_byte d \<and> cont_byte e
           then ((b - 240) * 262144 + (c - 128) * 4096 + (d - 128) * 64 + (e - 128), 4) else (65533, 1)
         | _ \<Rightarrow> (65533, 1))
      else (65533, 1))"

function runes_of :: "nat list \<Rightarrow> nat list" where
  "runes_of [] = []"
| "runes_of (b # bs) = fst (decode_rune (b # bs)) # runes_of (drop (snd (decode_rune (b # bs))) (b # bs))"
  by pat_completeness auto

lemma decode_rune_size: "0 < snd (decode_rune (b # bs)) \<and> snd (decode_rune (b # bs)) \<le> Suc (length bs)"
proof (cases bs)
  case (Cons c cs)
  note bs = Cons
  show ?thesis
  proof (cases cs)
    case Nil
    then show ?thesis by (simp add: bs)
  next
    case (Cons d ds)
    then show ?thesis by (cases ds) (simp_all add: bs)
  qed
qed simp

termination runes_of
proof (relation "measure length")
  fix b :: nat and bs :: "nat list"
  show "(drop (snd (decode_rune (b # bs))) (b # bs), b # bs) \<in> measure length"
    using decode_rune_size [of b bs] by (simp add: length_drop del: decode_rune.simps)
qed simp

definition runes :: "string \<Rightarrow> nat list" where
  "runes s = runes_of (map char_code s)"

section \<open>Predicates on strings\<close>

definition atext :: "char \<Rightarrow> bool" where
  "atext c \<longleftrightarrow> (97 \<le> char_code c \<and> char_code c \<le> 122) \<or> (65 \<le> char_code c \<and> char_code c \<le> 90) \<or> is_dec_digit c \<or>
     c \<in> set ''!#$%&*+-/=?^_`{|}~'' \<or> char_code c = 39"

definition clean_dot_atom :: "string \<Rightarrow> bool" where
  "clean_dot_atom s \<longleftrightarrow> s \<noteq> [] \<and> hd s \<noteq> CHR ''.'' \<and> last s \<noteq> CHR ''.'' \<and> \<not> contains_str s ''..''"

text \<open>The loop of \<open>simpleEmail\<close>: the position of the at sign so far, or an early answer.\<close>

fun email_scan :: "string \<Rightarrow> nat \<Rightarrow> nat option \<Rightarrow> (bool \<times> bool) + nat option" where
  "email_scan [] i pos = Inr pos"
| "email_scan (c # cs) i pos =
     (if c = CHR ''@'' then (case pos of Some _ \<Rightarrow> Inl (False, True) | None \<Rightarrow> email_scan cs (i + 1) (Some i))
      else if c \<noteq> CHR ''.'' \<and> \<not> atext c then Inl (False, False)
      else email_scan cs (i + 1) pos)"

definition simple_email :: "string \<Rightarrow> bool \<times> bool" where
  "simple_email s =
     (case email_scan s 0 None of
        Inl answer \<Rightarrow> answer
      | Inr None \<Rightarrow> (False, True)
      | Inr (Some i) \<Rightarrow>
          (let local = take i s; domain = drop (i + 1) s in
           if \<not> clean_dot_atom local \<or> \<not> clean_dot_atom domain then (False, False)
           else (CHR ''.'' \<in> set domain, True)))"

record val_lib =
  vl_float :: "string \<Rightarrow> fnum option"
  vl_duration :: "string \<Rightarrow> int option"
  vl_mail :: "string \<Rightarrow> string option"
  vl_url :: "string \<Rightarrow> (string \<times> string) option"
  vl_ip :: "string \<Rightarrow> bool option"
  vl_letter :: "nat \<Rightarrow> bool"
  vl_digit :: "nat \<Rightarrow> bool"
  vl_lower :: "string \<Rightarrow> string"
  vl_upper :: "string \<Rightarrow> string"
  vl_regexp :: "string \<Rightarrow> (string \<Rightarrow> bool) option"

definition is_email :: "val_lib \<Rightarrow> string \<Rightarrow> bool" where
  "is_email L s =
     (if length s > 254 \<or> contains_any s '' <>'' then False
      else case simple_email s of
        (valid, True) \<Rightarrow> valid
      | (_, False) \<Rightarrow>
          (case vl_mail L s of
             None \<Rightarrow> False
           | Some addr \<Rightarrow>
               addr = s \<and> CHR ''@'' \<in> set s \<and>
               (let dom_rev = takeWhile (\<lambda>c. c \<noteq> CHR ''@'') (rev s)
                in length s > length dom_rev + 1 \<and> CHR ''.'' \<in> set dom_rev)))"

definition is_hex :: "char \<Rightarrow> bool" where
  "is_hex c \<longleftrightarrow> is_dec_digit c \<or> (97 \<le> char_code c \<and> char_code c \<le> 102) \<or> (65 \<le> char_code c \<and> char_code c \<le> 70)"

definition is_uuid :: "string \<Rightarrow> bool" where
  "is_uuid s \<longleftrightarrow> length s = 36 \<and>
     list_all (\<lambda>i. if i \<in> {8, 13, 18, 23} then s ! i = CHR ''-'' else is_hex (s ! i)) [0..<length s]"

definition is_url :: "val_lib \<Rightarrow> string \<Rightarrow> bool" where
  "is_url L s = (case vl_url L s of None \<Rightarrow> False | Some (scheme, host) \<Rightarrow> scheme \<noteq> [] \<and> host \<noteq> [])"

definition is_alpha :: "val_lib \<Rightarrow> string \<Rightarrow> bool" where
  "is_alpha L s = list_all (vl_letter L) (runes s)"

definition is_alphanum :: "val_lib \<Rightarrow> string \<Rightarrow> bool" where
  "is_alphanum L s = list_all (\<lambda>r. vl_letter L r \<or> vl_digit L r) (runes s)"

definition is_numeric :: "val_lib \<Rightarrow> string \<Rightarrow> bool" where
  "is_numeric L s \<longleftrightarrow> s \<noteq> [] \<and> vl_float L s \<noteq> None"

text \<open>The parser of addresses gives whether the address has a four-byte form.\<close>

definition is_ipv4 :: "val_lib \<Rightarrow> string \<Rightarrow> bool" where
  "is_ipv4 L s \<longleftrightarrow> vl_ip L s = Some True \<and> CHR '':'' \<notin> set s"

definition is_ipv6 :: "val_lib \<Rightarrow> string \<Rightarrow> bool" where
  "is_ipv6 L s \<longleftrightarrow> vl_ip L s \<noteq> None \<and> CHR '':'' \<in> set s"

section \<open>Factories\<close>

datatype rule_error =
    InvalidDuration string | InvalidNumber string | InvalidBool string | InvalidOption string | NoOptions
  | UnsupportedType gtype | RequiresString gtype

type_synonym check_fn = "gval \<Rightarrow> bool"
type_synonym factory = "string \<Rightarrow> gtype \<Rightarrow> (rule_error, check_fn) result"
type_synonym message = "string \<Rightarrow> gtype \<Rightarrow> string"

text \<open>A checker is only called on values of the kind it was made for (\<open>has_type\<close> in \<open>Validate\<close>); on others reflection
  panics, and the model answers \<open>False\<close>.\<close>

definition on_string :: "(string \<Rightarrow> bool) \<Rightarrow> check_fn" where
  "on_string f v = (case v of VString s \<Rightarrow> f s | _ \<Rightarrow> False)"

definition on_int :: "(int \<Rightarrow> bool) \<Rightarrow> check_fn" where
  "on_int f v = (case v of VInt i \<Rightarrow> f i | _ \<Rightarrow> False)"

definition on_uint :: "(nat \<Rightarrow> bool) \<Rightarrow> check_fn" where
  "on_uint f v = (case v of VUint n \<Rightarrow> f n | _ \<Rightarrow> False)"

definition parse_number :: "val_lib \<Rightarrow> string \<Rightarrow> gtype \<Rightarrow> (rule_error, fnum) result" where
  "parse_number L param t =
     (if t = TDuration then (case vl_duration L param of None \<Rightarrow> Inl (InvalidDuration param) | Some d \<Rightarrow> Inr (f64_of_int d))
      else (case vl_float L param of None \<Rightarrow> Inl (InvalidNumber param) | Some n \<Rightarrow> Inr n))"

definition value_len :: "gval \<Rightarrow> nat" where
  "value_len v =
     (case v of VSlice (Some xs) \<Rightarrow> length xs | VArray xs \<Rightarrow> length xs | VMap (Some kvs) \<Rightarrow> length kvs | VString s \<Rightarrow> length s | _ \<Rightarrow> 0)"

definition measure_of :: "gtype \<Rightarrow> (gval \<Rightarrow> fnum) option" where
  "measure_of t =
     (case t of
        TString \<Rightarrow> Some (\<lambda>v. case v of VString s \<Rightarrow> f64_of_int (int (length (runes s))) | _ \<Rightarrow> NaN)
      | TSlice _ \<Rightarrow> Some (\<lambda>v. f64_of_int (int (value_len v)))
      | TArray _ \<Rightarrow> Some (\<lambda>v. f64_of_int (int (value_len v)))
      | TMap _ \<Rightarrow> Some (\<lambda>v. f64_of_int (int (value_len v)))
      | TInt \<Rightarrow> Some (\<lambda>v. case v of VInt i \<Rightarrow> f64_of_int i | _ \<Rightarrow> NaN)
      | TDuration \<Rightarrow> Some (\<lambda>v. case v of VInt i \<Rightarrow> f64_of_int i | _ \<Rightarrow> NaN)
      | TUint \<Rightarrow> Some (\<lambda>v. case v of VUint n \<Rightarrow> f64_of_int (int n) | _ \<Rightarrow> NaN)
      | TUintptr \<Rightarrow> Some (\<lambda>v. case v of VUint n \<Rightarrow> f64_of_int (int n) | _ \<Rightarrow> NaN)
      | TFloat \<Rightarrow> Some (\<lambda>v. case v of VFloat x \<Rightarrow> x | _ \<Rightarrow> NaN)
      | _ \<Rightarrow> None)"

definition compare_factory :: "val_lib \<Rightarrow> fcmp \<Rightarrow> factory" where
  "compare_factory L cmp param t =
     (case parse_number L param t of
        Inl e \<Rightarrow> Inl e
      | Inr n \<Rightarrow> (case measure_of t of None \<Rightarrow> Inl (UnsupportedType t) | Some m \<Rightarrow> Inr (\<lambda>v. f_compare cmp (m v) n)))"

definition parse_bool :: "string \<Rightarrow> bool option" where
  "parse_bool s =
     (if s \<in> {''1'', ''t'', ''T'', ''TRUE'', ''true'', ''True''} then Some True
      else if s \<in> {''0'', ''f'', ''F'', ''FALSE'', ''false'', ''False''} then Some False else None)"

definition equal_factory :: "val_lib \<Rightarrow> bool \<Rightarrow> factory" where
  "equal_factory L want param t =
     (if t = TString then Inr (on_string (\<lambda>s. (s = param) = want))
      else if t = TBool then
        (case parse_bool param of
           None \<Rightarrow> Inl (InvalidBool param)
         | Some b \<Rightarrow> Inr (\<lambda>v. case v of VBool x \<Rightarrow> (x = b) = want | _ \<Rightarrow> False))
      else
        (case compare_factory L FEq param t of Inl e \<Rightarrow> Inl e | Inr cmp \<Rightarrow> Inr (\<lambda>v. cmp v = want)))"

definition words_of :: "string \<Rightarrow> string list" where
  "words_of s = filter (\<lambda>w. w \<noteq> []) (split_on CHR '' '' (map (\<lambda>c. if is_space c then CHR '' '' else c) s))"

text \<open>The options of an integer type, up to the first that does not parse.\<close>

fun parse_options :: "(string \<Rightarrow> 'a option) \<Rightarrow> string list \<Rightarrow> (rule_error, 'a list) result" where
  "parse_options p [] = Inr []"
| "parse_options p (w # ws) =
     (case p w of
        None \<Rightarrow> Inl (InvalidOption w)
      | Some x \<Rightarrow> (case parse_options p ws of Inl e \<Rightarrow> Inl e | Inr xs \<Rightarrow> Inr (x # xs)))"

definition oneof_factory :: factory where
  "oneof_factory param t =
     (let options = words_of param in
      if options = [] then Inl NoOptions
      else if t = TString then Inr (on_string (\<lambda>s. s \<in> set options))
      else if t = TInt \<or> t = TDuration then
        (case parse_options atoi options of Inl e \<Rightarrow> Inl e | Inr ns \<Rightarrow> Inr (on_int (\<lambda>i. i \<in> set ns)))
      else if t = TUint then
        (case parse_options parse_uint options of Inl e \<Rightarrow> Inl e | Inr ns \<Rightarrow> Inr (on_uint (\<lambda>n. n \<in> set ns)))
      else Inl (UnsupportedType t))"

definition string_rule :: "(string \<Rightarrow> bool) \<Rightarrow> factory" where
  "string_rule f param t = (if t \<noteq> TString then Inl (RequiresString t) else Inr (on_string f))"

definition string_param_rule :: "(string \<Rightarrow> string \<Rightarrow> bool) \<Rightarrow> factory" where
  "string_param_rule f param t = (if t \<noteq> TString then Inl (RequiresString t) else Inr (on_string (\<lambda>s. f s param)))"

section \<open>Messages\<close>

text \<open>\<open>strings.ReplaceAll\<close> of the verb by the parameter.\<close>

fun fill_param :: "string \<Rightarrow> string \<Rightarrow> string" where
  "fill_param p (c # d # cs) = (if c = CHR ''%'' \<and> d = CHR ''s'' then p @ fill_param p cs else c # fill_param p (d # cs))"
| "fill_param p cs = cs"

definition static_message :: "string \<Rightarrow> message" where
  "static_message msg param t = fill_param param msg"

definition size_message :: "string \<Rightarrow> message" where
  "size_message op param t =
     (case t of
        TString \<Rightarrow> ''must be '' @ op @ '' '' @ param @ '' characters long''
      | TSlice _ \<Rightarrow> ''must contain '' @ op @ '' '' @ param @ '' items''
      | TArray _ \<Rightarrow> ''must contain '' @ op @ '' '' @ param @ '' items''
      | TMap _ \<Rightarrow> ''must contain '' @ op @ '' '' @ param @ '' items''
      | _ \<Rightarrow> ''must be '' @ op @ '' '' @ param)"

definition builtin_rules :: "val_lib \<Rightarrow> (string \<times> factory \<times> message) list" where
  "builtin_rules L =
    [(''min'', compare_factory L FGe, size_message ''at least''),
     (''max'', compare_factory L FLe, size_message ''at most''),
     (''len'', compare_factory L FEq, size_message ''exactly''),
     (''gt'', compare_factory L FGt, size_message ''greater than''),
     (''gte'', compare_factory L FGe, size_message ''at least''),
     (''lt'', compare_factory L FLt, size_message ''less than''),
     (''lte'', compare_factory L FLe, size_message ''at most''),
     (''eq'', equal_factory L True, static_message ''must be equal to %s''),
     (''ne'', equal_factory L False, static_message ''must not be equal to %s''),
     (''oneof'', oneof_factory, \<lambda>p _. ''must be one of: '' @ join_with '', '' (words_of p)),
     (''email'', string_rule (is_email L), static_message ''must be a valid email address''),
     (''url'', string_rule (is_url L), static_message ''must be a valid absolute URL''),
     (''uuid'', string_rule is_uuid, static_message ''must be a valid UUID''),
     (''alpha'', string_rule (is_alpha L), static_message ''must contain only letters''),
     (''alphanum'', string_rule (is_alphanum L), static_message ''must contain only letters and digits''),
     (''numeric'', string_rule (is_numeric L), static_message ''must be a numeric string''),
     (''lowercase'', string_rule (\<lambda>s. s = vl_lower L s), static_message ''must be lowercase''),
     (''uppercase'', string_rule (\<lambda>s. s = vl_upper L s), static_message ''must be uppercase''),
     (''ip'', string_rule (\<lambda>s. vl_ip L s \<noteq> None), static_message ''must be a valid IP address''),
     (''ipv4'', string_rule (is_ipv4 L), static_message ''must be a valid IPv4 address''),
     (''ipv6'', string_rule (is_ipv6 L), static_message ''must be a valid IPv6 address''),
     (''contains'', string_param_rule contains_str, static_message ''must contain %s''),
     (''excludes'', string_param_rule (\<lambda>s p. \<not> contains_str s p), static_message ''must not contain %s''),
     (''startswith'', string_param_rule has_prefix, static_message ''must start with %s''),
     (''endswith'', string_param_rule has_suffix, static_message ''must end with %s'')]"

section \<open>Tags\<close>

text \<open>\<open>ParseTag\<close>: the rules with their parameters, or \<open>None\<close> for a rule without a name.\<close>

fun parse_tag_parts :: "string list \<Rightarrow> (string \<times> string) list option" where
  "parse_tag_parts [] = Some []"
| "parse_tag_parts (p0 # ps) =
     (let p = trim_space p0 in
      if p = [] then parse_tag_parts ps
      else case cut_at CHR ''='' p of (name, param, _) \<Rightarrow>
        if name = [] then None else map_option ((#) (name, param)) (parse_tag_parts ps))"

definition parse_tag :: "string \<Rightarrow> (string \<times> string) list option" where
  "parse_tag tag = (if tag = [] then Some [] else parse_tag_parts (split_on CHR '','' tag))"

text \<open>A struct tag is the list of its keys; \<open>Get\<close> of a missing key is empty.\<close>

definition tag_get :: "(string \<times> string) list \<Rightarrow> string \<Rightarrow> string" where
  "tag_get tags k = (case map_of tags k of None \<Rightarrow> [] | Some v \<Rightarrow> v)"

definition tag_name :: "string \<Rightarrow> string" where
  "tag_name tag = fst (cut_at CHR '','' tag)"

definition field_name :: "(string \<times> string) list \<Rightarrow> string \<Rightarrow> string" where
  "field_name tags go_name =
     (case find (\<lambda>n. n \<noteq> [] \<and> n \<noteq> ''-'')
             (map (\<lambda>k. tag_name (tag_get tags k)) [''json'', ''path'', ''query'', ''header'', ''cookie'', ''form'']) of
        Some n \<Rightarrow> n
      | None \<Rightarrow> go_name)"

section \<open>Lemmas\<close>

text \<open>Small integers are compared exactly; from \<open>2 ^ 53\<close> on neighbours are confused.\<close>

lemma excess_bits_small: "a < 2 ^ 53 \<Longrightarrow> excess_bits a = 0"
  by (simp add: excess_bits_def upt_conv_Cons)

lemma f64_small: "- (2 ^ 53) < i \<Longrightarrow> i < 2 ^ 53 \<Longrightarrow> f64_of_int i = Fin (of_int i)"
proof -
  assume "- (2 ^ 53) < i" "i < 2 ^ 53"
  then have "nat (- i) < 2 ^ 53" "nat i < 2 ^ 53" by (simp_all add: nat_less_iff)
  then show ?thesis by (simp add: f64_of_int_def round_mag_def excess_bits_small)
qed

lemma min_rule_exact:
  assumes "- (2 ^ 53) < i" "i < 2 ^ 53" "vl_float L param = Some (Fin (of_int n))"
  shows "\<exists>f. compare_factory L FGe param TInt = Inr f \<and> (f (VInt i) \<longleftrightarrow> n \<le> i)"
  using assms by (auto simp: compare_factory_def parse_number_def measure_of_def f64_small f_eq_def)

lemma int_compare_rounds: "f64_of_int 9007199254740993 = f64_of_int 9007199254740992"
  by (simp add: f64_of_int_def round_mag_def excess_bits_def upt_conv_Cons Let_def)

text \<open>The shortcut for mail addresses: accepted are exactly two dot-atoms around the only at sign, with a dot in the domain.\<close>

definition plain_char :: "char \<Rightarrow> bool" where
  "plain_char c \<longleftrightarrow> c \<noteq> CHR ''@'' \<and> (c = CHR ''.'' \<or> atext c)"

lemma email_scan_second: "email_scan cs i (Some a) = Inr r \<longleftrightarrow> r = Some a \<and> list_all plain_char cs"
  by (induction cs arbitrary: i) (auto simp: plain_char_def)

lemma email_scan_first:
  "email_scan cs i None = Inr (Some j) \<longleftrightarrow>
     (\<exists>a b. cs = a @ CHR ''@'' # b \<and> list_all plain_char a \<and> list_all plain_char b \<and> j = i + length a)"
proof (induction cs arbitrary: i)
  case (Cons c cs)
  show ?case
  proof (cases "c = CHR ''@''")
    case True
    have "(\<exists>a b. c # cs = a @ CHR ''@'' # b \<and> list_all plain_char a \<and> list_all plain_char b \<and> j = i + length a) \<longleftrightarrow>
        j = i \<and> list_all plain_char cs"
    proof
      assume "\<exists>a b. c # cs = a @ CHR ''@'' # b \<and> list_all plain_char a \<and> list_all plain_char b \<and> j = i + length a"
      then obtain a b where "c # cs = a @ CHR ''@'' # b" "list_all plain_char a" "list_all plain_char b" "j = i + length a" by blast
      then show "j = i \<and> list_all plain_char cs" using True by (cases a) (auto simp: plain_char_def)
    next
      assume "j = i \<and> list_all plain_char cs"
      then show "\<exists>a b. c # cs = a @ CHR ''@'' # b \<and> list_all plain_char a \<and> list_all plain_char b \<and> j = i + length a"
        using True by (intro exI [of _ "[]"] exI [of _ cs]) simp
    qed
    then show ?thesis using True by (auto simp: email_scan_second)
  next
    case False
    have eq: "(\<exists>a b. c # cs = a @ CHR ''@'' # b \<and> list_all plain_char a \<and> list_all plain_char b \<and> j = i + length a) \<longleftrightarrow>
        plain_char c \<and> (\<exists>a b. cs = a @ CHR ''@'' # b \<and> list_all plain_char a \<and> list_all plain_char b \<and> j = i + 1 + length a)"
      (is "?l \<longleftrightarrow> ?r")
    proof
      assume ?l
      then obtain a b where ab: "c # cs = a @ CHR ''@'' # b" "list_all plain_char a" "list_all plain_char b" "j = i + length a" by blast
      with False obtain a' where a: "a = c # a'" by (cases a) auto
      with ab show ?r by (intro conjI exI [of _ a'] exI [of _ b]) auto
    next
      assume ?r
      then obtain a b where "plain_char c" "cs = a @ CHR ''@'' # b" "list_all plain_char a" "list_all plain_char b" "j = i + 1 + length a"
        by blast
      then show ?l by (intro exI [of _ "c # a"] exI [of _ b]) simp
    qed
    have "email_scan (c # cs) i None = Inr (Some j) \<longleftrightarrow> plain_char c \<and> email_scan cs (i + 1) None = Inr (Some j)"
      using False by (simp add: plain_char_def)
    then show ?thesis unfolding eq Cons.IH [of "i + 1"] .
  qed
qed simp

lemma simple_email_iff:
  "simple_email s = (True, True) \<longleftrightarrow>
     (\<exists>local domain. s = local @ CHR ''@'' # domain \<and> list_all plain_char local \<and> list_all plain_char domain \<and>
        clean_dot_atom local \<and> clean_dot_atom domain \<and> CHR ''.'' \<in> set domain)" (is "?l \<longleftrightarrow> ?r")
proof
  assume ?l
  have early: "email_scan cs i pos \<noteq> Inl (True, True)" for cs i pos by (induction cs i pos rule: email_scan.induct) (auto split: option.splits)
  from \<open>?l\<close> obtain j where j: "email_scan s 0 None = Inr (Some j)"
    by (auto simp: simple_email_def early split: sum.splits option.splits)
  then obtain a b where ab: "s = a @ CHR ''@'' # b" "list_all plain_char a" "list_all plain_char b" "j = length a"
    by (auto simp: email_scan_first)
  then show ?r using \<open>?l\<close> j by (intro exI [of _ a] exI [of _ b]) (auto simp: simple_email_def Let_def split: if_splits)
next
  assume ?r
  then obtain a b where ab: "s = a @ CHR ''@'' # b" "list_all plain_char a" "list_all plain_char b"
      "clean_dot_atom a" "clean_dot_atom b" "CHR ''.'' \<in> set b" by blast
  then have "email_scan s 0 None = Inr (Some (length a))" by (auto simp: email_scan_first)
  then show ?l using ab by (simp add: simple_email_def)
qed

end
