(* ===== verification/Validate.thy ===== *)
theory Validate
  imports Complex_Main Rules
begin

text \<open>
  The validator of \<open>validate.go\<close>: struct declarations, the compilation of validation plans with its cache, and the
  validation of a value by its plan. Declarations are an association list by type name. Of reflection the model keeps
  what the code depends on: whether a value is addressable and whether it was reached through an unexported embedded
  field (\<open>Interface\<close> panics on such a value). A panic is \<open>None\<close>. The methods \<open>Validate\<close> of the program's
  types are a parameter.
\<close>

section \<open>Declarations\<close>

record gfield =
  fl_name :: string
  fl_type :: gtype
  fl_exported :: bool
  fl_anonymous :: bool
  fl_tags :: "(string \<times> string) list"

text \<open>Whether the type, and whether the pointer to it, implements \<open>Validatable\<close>.\<close>

record gstruct =
  st_fields :: "gfield list"
  st_value_method :: bool
  st_pointer_method :: bool

type_synonym decls = "(string \<times> gstruct) list"

record field_error =
  fe_field :: string
  fe_rule :: string
  fe_param :: string
  fe_message :: string

text \<open>The result of a \<open>Validate\<close> method: field errors, one field error, or any other error.\<close>

datatype method_error = ManyErrors "field_error list" | OneError field_error | OtherError string

section \<open>Plans\<close>

record check =
  ck_rule :: string
  ck_param :: string
  ck_message :: string
  ck_fn :: check_fn

datatype value_plan =
  VP (vp_required: bool) (vp_omitempty: bool) (vp_checks: "check list") (vp_dive: "value_plan option")

record field_plan =
  fp_index :: nat
  fp_name :: string
  fp_checks :: value_plan
  fp_nested :: bool

record type_plan =
  tp_fields :: "field_plan list"
  tp_validatable :: bool
  tp_has_work :: bool

record validator =
  vd_rules :: "string \<Rightarrow> (factory \<times> message) option"
  vd_plans :: "string \<Rightarrow> type_plan option"

definition new_validator :: "val_lib \<Rightarrow> validator" where
  "new_validator L = \<lparr>vd_rules = map_of (builtin_rules L), vd_plans = Map.empty\<rparr>"

text \<open>\<open>RegisterRule\<close>; \<open>None\<close> is a nil function, and the result says whether the rule was accepted.\<close>

definition register_rule :: "string \<Rightarrow> (gval \<Rightarrow> string \<Rightarrow> bool) option \<Rightarrow> string \<Rightarrow> validator \<Rightarrow> validator \<times> bool" where
  "register_rule name fn msg v =
     (case fn of
        None \<Rightarrow> (v, False)
      | Some f \<Rightarrow>
          if name = [] \<or> name \<in> {''omitempty'', ''dive'', ''required''} then (v, False)
          else (v\<lparr>vd_rules := (vd_rules v)(name \<mapsto> (\<lambda>param _. Inr (\<lambda>x. f x param), static_message msg))\<rparr>, True))"

section \<open>Compilation of tags\<close>

datatype tag_error =
    EmptyRuleName string | UnknownRule string | BadRule string rule_error | DiveNeedsContainer gtype | BadPattern string
  | NoSuchType string | OutOfFuel

fun strip_ptr :: "gtype \<Rightarrow> gtype" where
  "strip_ptr (TPtr t) = strip_ptr t"
| "strip_ptr t = t"

fun elem_type :: "gtype \<Rightarrow> gtype option" where
  "elem_type (TSlice t) = Some t"
| "elem_type (TArray t) = Some t"
| "elem_type (TMap t) = Some t"
| "elem_type t = None"

text \<open>\<open>compileRules\<close>, with the plan so far in the last arguments; after \<open>dive\<close> the remaining rules are for the elements.\<close>

fun compile_rules ::
  "(string \<Rightarrow> (factory \<times> message) option) \<Rightarrow> gtype \<Rightarrow> (string \<times> string) list \<Rightarrow> bool \<Rightarrow> bool \<Rightarrow> check list \<Rightarrow>
     (tag_error, value_plan) result" where
  "compile_rules reg base [] req om cs = Inr (VP req om cs None)"
| "compile_rules reg base ((name, param) # rs) req om cs =
     (if name = ''required'' then compile_rules reg base rs True om cs
      else if name = ''omitempty'' then compile_rules reg base rs req True cs
      else if name = ''dive'' then
        (case elem_type base of
           None \<Rightarrow> Inl (DiveNeedsContainer base)
         | Some el \<Rightarrow>
             (case compile_rules reg (strip_ptr el) rs False False [] of
                Inl e \<Rightarrow> Inl e
              | Inr vp \<Rightarrow> Inr (VP req om cs (Some vp))))
      else
        (case reg name of
           None \<Rightarrow> Inl (UnknownRule name)
         | Some (factory, msg) \<Rightarrow>
             (case factory param base of
                Inl e \<Rightarrow> Inl (BadRule name e)
              | Inr fn \<Rightarrow>
                  compile_rules reg base rs req om
                    (cs @ [\<lparr>ck_rule = name, ck_param = param, ck_message = msg param base, ck_fn = fn\<rparr>]))))"

definition compile_value_plan ::
  "(string \<Rightarrow> (factory \<times> message) option) \<Rightarrow> string \<Rightarrow> gtype \<Rightarrow> (tag_error, value_plan) result" where
  "compile_value_plan reg tag t =
     (case parse_tag tag of
        None \<Rightarrow> Inl (EmptyRuleName tag)
      | Some rules \<Rightarrow> compile_rules reg (strip_ptr t) rules False False [])"

definition pattern_check :: "string \<Rightarrow> (string \<Rightarrow> bool) \<Rightarrow> check" where
  "pattern_check pattern re =
     \<lparr>ck_rule = ''pattern'', ck_param = pattern, ck_message = ''must match pattern '' @ pattern,
      ck_fn = (\<lambda>v. case v of VString s \<Rightarrow> re s | _ \<Rightarrow> True)\<rparr>"

text \<open>The plan of one field: its \<open>validate\<close> tag, then its \<open>pattern\<close> tag.\<close>

definition compile_field :: "val_lib \<Rightarrow> (string \<Rightarrow> (factory \<times> message) option) \<Rightarrow> gfield \<Rightarrow> (tag_error, value_plan) result" where
  "compile_field L reg f =
     (case compile_value_plan reg (tag_get (fl_tags f) ''validate'') (fl_type f) of
        Inl e \<Rightarrow> Inl e
      | Inr vp \<Rightarrow>
          (case map_of (fl_tags f) ''pattern'' of
             None \<Rightarrow> Inr vp
           | Some pattern \<Rightarrow>
               (case vl_regexp L pattern of
                  None \<Rightarrow> Inl (BadPattern pattern)
                | Some re \<Rightarrow>
                    Inr (VP (vp_required vp) (vp_omitempty vp) (vp_checks vp @ [pattern_check pattern re]) (vp_dive vp)))))"

definition skipped_field :: "gfield \<Rightarrow> bool" where
  "skipped_field f \<longleftrightarrow> (\<not> fl_exported f \<and> \<not> fl_anonymous f) \<or> tag_get (fl_tags f) ''validate'' = ''-''"

definition plan_works :: "value_plan \<Rightarrow> bool" where
  "plan_works vp \<longleftrightarrow> vp_required vp \<or> vp_checks vp \<noteq> [] \<or> vp_dive vp \<noteq> None"

text \<open>The struct that \<open>mayNeedValidation\<close> reaches through pointers, slices, arrays and maps.\<close>

fun struct_of :: "gtype \<Rightarrow> string option" where
  "struct_of (TPtr t) = struct_of t"
| "struct_of (TSlice t) = struct_of t"
| "struct_of (TArray t) = struct_of t"
| "struct_of (TMap t) = struct_of t"
| "struct_of (TStruct n) = Some n"
| "struct_of _ = None"

definition start_plan :: "gstruct \<Rightarrow> type_plan" where
  "start_plan s = \<lparr>tp_fields = [], tp_validatable = st_value_method s \<or> st_pointer_method s, tp_has_work = True\<rparr>"

text \<open>\<open>compile\<close> and its loop over the fields. \<open>b\<close> is the map \<open>building\<close>: a type under construction is in it, with work
  assumed, so recursive types terminate. The fuel bounds the depth of types under construction.\<close>

function compile_type ::
    "val_lib \<Rightarrow> decls \<Rightarrow> validator \<Rightarrow> nat \<Rightarrow> string \<Rightarrow> (string \<Rightarrow> type_plan option) \<Rightarrow>
       (tag_error, type_plan \<times> (string \<Rightarrow> type_plan option)) result"
  and compile_fields ::
    "val_lib \<Rightarrow> decls \<Rightarrow> validator \<Rightarrow> nat \<Rightarrow> nat \<Rightarrow> gfield list \<Rightarrow> (string \<Rightarrow> type_plan option) \<Rightarrow>
       (tag_error, field_plan list \<times> (string \<Rightarrow> type_plan option)) result" where
  "compile_type L E v fuel n b =
     (case vd_plans v n of
        Some p \<Rightarrow> Inr (p, b)
      | None \<Rightarrow>
          (case b n of
             Some p \<Rightarrow> Inr (p, b)
           | None \<Rightarrow>
               (case map_of E n of
                  None \<Rightarrow> Inl (NoSuchType n)
                | Some s \<Rightarrow>
                    (case fuel of
                       0 \<Rightarrow> Inl OutOfFuel
                     | Suc k \<Rightarrow>
                         (case compile_fields L E v k 0 (st_fields s) (b(n \<mapsto> start_plan s)) of
                            Inl e \<Rightarrow> Inl e
                          | Inr (fps, b1) \<Rightarrow>
                              (let p = (start_plan s)\<lparr>tp_fields := fps, tp_has_work := fps \<noteq> [] \<or> tp_validatable (start_plan s)\<rparr>
                               in Inr (p, b1(n \<mapsto> p))))))))"
| "compile_fields L E v k i [] b = Inr ([], b)"
| "compile_fields L E v k i (f # fs) b =
     (if skipped_field f then compile_fields L E v k (i + 1) fs b
      else case compile_field L (vd_rules v) f of
        Inl e \<Rightarrow> Inl e
      | Inr vp \<Rightarrow>
          (case (case struct_of (fl_type f) of
                   None \<Rightarrow> Inr (False, b)
                 | Some n \<Rightarrow> (case compile_type L E v k n b of Inl e \<Rightarrow> Inl e | Inr (p, b1) \<Rightarrow> Inr (tp_has_work p, b1))) of
             Inl e \<Rightarrow> Inl e
           | Inr (nested, b1) \<Rightarrow>
               (case compile_fields L E v k (i + 1) fs b1 of
                  Inl e \<Rightarrow> Inl e
                | Inr (fps, b2) \<Rightarrow>
                    Inr (if nested \<or> plan_works vp
                         then (\<lparr>fp_index = i, fp_name = field_name (fl_tags f) (fl_name f), fp_checks = vp, fp_nested = nested\<rparr> # fps, b2)
                         else (fps, b2)))))"
  by pat_completeness auto
termination
  by (relation "measures [case_sum (\<lambda>(L, E, v, fuel, n, b). fuel) (\<lambda>(L, E, v, k, i, fs, b). k),
      case_sum (\<lambda>_. 0) (\<lambda>(L, E, v, k, i, fs, b). length fs)]") auto

text \<open>\<open>plan\<close>: the cached plan, or a compilation whose types are all stored. One unit of fuel per declaration suffices.\<close>

definition plan_of :: "val_lib \<Rightarrow> decls \<Rightarrow> string \<Rightarrow> validator \<Rightarrow> (tag_error, type_plan) result \<times> validator" where
  "plan_of L E n v =
     (case compile_type L E v (length E) n Map.empty of
        Inl e \<Rightarrow> (Inl e, v)
      | Inr (p, b) \<Rightarrow> (Inr p, v\<lparr>vd_plans := vd_plans v ++ b\<rparr>))"

text \<open>\<open>Compile\<close>; only structs, possibly behind pointers, have plans.\<close>

definition validator_compile :: "val_lib \<Rightarrow> decls \<Rightarrow> gtype \<Rightarrow> validator \<Rightarrow> tag_error option \<times> validator" where
  "validator_compile L E t v =
     (case strip_ptr t of
        TStruct n \<Rightarrow> (case plan_of L E n v of (Inl e, v1) \<Rightarrow> (Some e, v1) | (Inr _, v1) \<Rightarrow> (None, v1))
      | _ \<Rightarrow> (None, v))"

section \<open>Validation of values\<close>

definition join_path :: "string \<Rightarrow> string \<Rightarrow> string" where
  "join_path base name = (if base = [] then name else if name = [] then base else base @ ''.'' @ name)"

fun deref :: "gval \<Rightarrow> gval option" where
  "deref (VPtr p) = (case p of None \<Rightarrow> None | Some v \<Rightarrow> deref v)"
| "deref (VIface p) = (case p of None \<Rightarrow> None | Some v \<Rightarrow> deref v)"
| "deref v = Some v"

text \<open>\<open>reflect.Value.IsZero\<close>.\<close>

fun is_zero :: "gval \<Rightarrow> bool" where
  "is_zero (VString s) = (s = [])"
| "is_zero (VBool b) = (\<not> b)"
| "is_zero (VInt i) = (i = 0)"
| "is_zero (VUint n) = (n = 0)"
| "is_zero (VFloat x) = (x = Fin 0)"
| "is_zero (VPtr p) = (p = None)"
| "is_zero (VIface p) = (p = None)"
| "is_zero (VSlice xs) = (xs = None)"
| "is_zero (VArray xs) = list_all is_zero xs"
| "is_zero (VMap kvs) = (kvs = None)"
| "is_zero (VStruct n fs) = list_all is_zero fs"
| "is_zero (VOther z) = z"

definition is_empty :: "gval \<Rightarrow> bool" where
  "is_empty v =
     (case v of VSlice _ \<Rightarrow> value_len v = 0 | VMap _ \<Rightarrow> value_len v = 0 | VString _ \<Rightarrow> value_len v = 0 | VArray _ \<Rightarrow> value_len v = 0
      | _ \<Rightarrow> is_zero v)"

text \<open>The elements of a slice, array or map with what stands between the brackets of their paths.\<close>

definition indexed :: "gval list \<Rightarrow> (string \<times> gval) list" where
  "indexed xs = zip (map dec_nat [0..<length xs]) xs"

definition elements :: "gval \<Rightarrow> (string \<times> gval) list" where
  "elements v = (case v of VSlice (Some xs) \<Rightarrow> indexed xs | VArray xs \<Rightarrow> indexed xs | VMap (Some kvs) \<Rightarrow> kvs | _ \<Rightarrow> [])"

definition elem_path :: "string \<Rightarrow> string \<Rightarrow> string" where
  "elem_path path k = path @ ''['' @ k @ '']''"

text \<open>The errors of several steps, or a panic of one of them.\<close>

definition gather :: "field_error list option list \<Rightarrow> field_error list option" where
  "gather rs = map_option concat (those rs)"

text \<open>The key of a map entry is read with \<open>Interface\<close>, which panics behind an unexported field.\<close>

definition key_panics :: "bool \<Rightarrow> gval \<Rightarrow> bool" where
  "key_panics ro v \<longleftrightarrow> ro \<and> (case v of VMap (Some kvs) \<Rightarrow> kvs \<noteq> [] | _ \<Rightarrow> False)"

definition required_error :: "string \<Rightarrow> field_error" where
  "required_error path = \<lparr>fe_field = path, fe_rule = ''required'', fe_param = [], fe_message = ''is required''\<rparr>"

definition check_error :: "string \<Rightarrow> check \<Rightarrow> field_error" where
  "check_error path c = \<lparr>fe_field = path, fe_rule = ck_rule c, fe_param = ck_param c, fe_message = ck_message c\<rparr>"

text \<open>\<open>applyValuePlan\<close>: the errors, and whether nested validation goes on.\<close>

fun apply_plan :: "value_plan \<Rightarrow> gval \<Rightarrow> bool \<Rightarrow> string \<Rightarrow> string \<Rightarrow> (field_error list \<times> bool) option" where
  "apply_plan (VP req om cs dive) v ro parent name =
     (case deref v of
        None \<Rightarrow> Some (if req then [required_error (join_path parent name)] else [], False)
      | Some d \<Rightarrow>
          if om \<and> is_zero d then Some (if req then [required_error (join_path parent name)] else [], False)
          else if req \<and> is_empty d then Some ([required_error (join_path parent name)], False)
          else case find (\<lambda>c. \<not> ck_fn c d) cs of
            Some c \<Rightarrow> Some ([check_error (join_path parent name) c], False)
          | None \<Rightarrow>
              (case dive of
                 None \<Rightarrow> Some ([], True)
               | Some ep \<Rightarrow>
                   if key_panics ro d then None
                   else map_option (\<lambda>es. (es, True))
                     (gather (map (\<lambda>(k, x). map_option fst (apply_plan ep x ro (elem_path (join_path parent name) k) []))
                       (elements d)))))"

text \<open>\<open>runValidatable\<close>. The method set of an addressable value includes that of its pointer.\<close>

definition method_errors :: "string \<Rightarrow> method_error \<Rightarrow> field_error list" where
  "method_errors path err =
     (case err of
        ManyErrors es \<Rightarrow> map (\<lambda>e. e\<lparr>fe_field := join_path path (fe_field e)\<rparr>) es
      | OneError e \<Rightarrow> [e\<lparr>fe_field := join_path path (fe_field e)\<rparr>]
      | OtherError msg \<Rightarrow> [\<lparr>fe_field = path, fe_rule = ''custom'', fe_param = [], fe_message = msg\<rparr>])"

type_synonym methods = "string \<Rightarrow> gval list \<Rightarrow> method_error option"

definition run_validatable :: "decls \<Rightarrow> methods \<Rightarrow> string \<Rightarrow> gval list \<Rightarrow> bool \<Rightarrow> bool \<Rightarrow> string \<Rightarrow> field_error list option" where
  "run_validatable E M n fs addr ro path =
     (if ro then None
      else case map_of E n of
        None \<Rightarrow> Some []
      | Some s \<Rightarrow>
          if st_value_method s \<or> (addr \<and> st_pointer_method s) then
            (case M n fs of None \<Rightarrow> Some [] | Some err \<Rightarrow> Some (method_errors path err))
          else Some [])"

text \<open>Whether the field of a struct is read through an unexported embedded field.\<close>

definition hidden_field :: "decls \<Rightarrow> string \<Rightarrow> nat \<Rightarrow> bool" where
  "hidden_field E n i = (case map_of E n of None \<Rightarrow> False | Some s \<Rightarrow> \<not> fl_exported (st_fields s ! i))"

lemma elements_size: "(k, x) \<in> set (elements v) \<Longrightarrow> size x < size v"
proof -
  assume kx: "(k, x) \<in> set (elements v)"
  have list: "size y < Suc (size_list size xs)" if "y \<in> set xs" for y :: gval and xs using that size_list_estimation' [of y xs "size y" size] by simp
  have idx: "x \<in> set xs" if "(k, x) \<in> set (indexed xs)" for xs using that by (auto simp: indexed_def dest: set_zip_rightD)
  have pair: "size x < Suc (size_list (size_prod (\<lambda>_. 0) size) kvs)" if "(k, x) \<in> set kvs" for kvs
    using size_list_estimation' [OF that, of "size x" "size_prod (\<lambda>_. 0) size"] by simp
  have indexed: "size x < Suc (size_list size xs)" if "(k, x) \<in> set (indexed xs)" for xs
    by (rule list [OF idx [OF that]])
  show ?thesis
  proof (cases v)
    case (VSlice p)
    with kx indexed show ?thesis by (cases p) (auto simp: elements_def less_Suc_eq)
  next
    case (VArray xs)
    with kx indexed show ?thesis by (simp add: elements_def)
  next
    case (VMap p)
    with kx pair show ?thesis by (cases p) (auto simp: elements_def less_Suc_eq)
  qed (use kx in \<open>simp_all add: elements_def\<close>)
qed

lemma field_size: "i < length fs \<Longrightarrow> size (fs ! i) < size (VStruct n fs)"
  using size_list_estimation' [OF nth_mem, of i fs "size (fs ! i)" size] by simp

lemma content_size: "size x < size (VPtr (Some x))" "size x < size (VIface (Some x))"
  by simp_all

text \<open>\<open>validateStruct\<close> and \<open>validateNested\<close>. \<open>P\<close> gives the plan of a type, \<open>None\<close> when it has no valid one. Elements of
  slices and what pointers point to are addressable, map entries and the content of interfaces are not.\<close>

function validate_struct ::
    "decls \<Rightarrow> methods \<Rightarrow> (string \<Rightarrow> type_plan option) \<Rightarrow> string \<Rightarrow> gval list \<Rightarrow> type_plan \<Rightarrow> bool \<Rightarrow> bool \<Rightarrow> string \<Rightarrow>
       field_error list option"
  and validate_nested ::
    "decls \<Rightarrow> methods \<Rightarrow> (string \<Rightarrow> type_plan option) \<Rightarrow> gval \<Rightarrow> bool \<Rightarrow> bool \<Rightarrow> string \<Rightarrow> field_error list option" where
  "validate_struct E M P n fs p addr ro path =
     gather (map (\<lambda>fp.
         if fp_index fp < length fs then
           (case apply_plan (fp_checks fp) (fs ! fp_index fp) (hidden_field E n (fp_index fp)) path (fp_name fp) of
              None \<Rightarrow> None
            | Some (es, go_on) \<Rightarrow>
                if go_on \<and> fp_nested fp then
                  map_option ((@) es) (validate_nested E M P (fs ! fp_index fp) addr (hidden_field E n (fp_index fp))
                    (join_path path (fp_name fp)))
                else Some es)
         else None) (tp_fields p)
       @ [if tp_validatable p then run_validatable E M n fs addr ro path else Some []])"
| "validate_nested E M P (VPtr p) addr ro path =
     (case p of None \<Rightarrow> Some [] | Some x \<Rightarrow> validate_nested E M P x True ro path)"
| "validate_nested E M P (VIface p) addr ro path =
     (case p of None \<Rightarrow> Some [] | Some x \<Rightarrow> validate_nested E M P x False ro path)"
| "validate_nested E M P (VStruct n fs) addr ro path =
     (case P n of
        None \<Rightarrow> Some []
      | Some p \<Rightarrow> if \<not> tp_has_work p then Some [] else validate_struct E M P n fs p addr ro path)"
| "validate_nested E M P (VSlice p) addr ro path =
     gather (map (\<lambda>(k, x). validate_nested E M P x True ro (elem_path path k)) (elements (VSlice p)))"
| "validate_nested E M P (VArray xs) addr ro path =
     gather (map (\<lambda>(k, x). validate_nested E M P x addr ro (elem_path path k)) (elements (VArray xs)))"
| "validate_nested E M P (VMap p) addr ro path =
     (if key_panics ro (VMap p) then None
      else gather (map (\<lambda>(k, x). validate_nested E M P x False ro (elem_path path k)) (elements (VMap p))))"
| "validate_nested E M P (VString s) addr ro path = Some []"
| "validate_nested E M P (VBool b) addr ro path = Some []"
| "validate_nested E M P (VInt i) addr ro path = Some []"
| "validate_nested E M P (VUint m) addr ro path = Some []"
| "validate_nested E M P (VFloat x) addr ro path = Some []"
| "validate_nested E M P (VOther z) addr ro path = Some []"
  by pat_completeness auto
termination
  by (relation "measures [case_sum (\<lambda>(E, M, P, n, fs, p, addr, ro, path). size (VStruct n fs))
         (\<lambda>(E, M, P, v, addr, ro, path). size v), case_sum (\<lambda>_. 0) (\<lambda>_. 1)]")
    (auto dest: elements_size intro: field_size content_size simp del: gval.size)

text \<open>\<open>Struct\<close>: the value behind pointers and interfaces must be a struct whose plan compiles.\<close>

fun root_value :: "gval \<Rightarrow> bool \<Rightarrow> (gval \<times> bool) option" where
  "root_value (VPtr p) addr = (case p of None \<Rightarrow> None | Some x \<Rightarrow> root_value x True)"
| "root_value (VIface p) addr = (case p of None \<Rightarrow> None | Some x \<Rightarrow> root_value x False)"
| "root_value v addr = Some (v, addr)"

datatype struct_result = Valid | Invalid "field_error list" | NilValue | NotStruct | BadTags tag_error | Panicked

definition cached_plan :: "val_lib \<Rightarrow> decls \<Rightarrow> validator \<Rightarrow> string \<Rightarrow> type_plan option" where
  "cached_plan L E v n = (case fst (plan_of L E n v) of Inl _ \<Rightarrow> None | Inr p \<Rightarrow> Some p)"

definition validator_struct :: "val_lib \<Rightarrow> decls \<Rightarrow> methods \<Rightarrow> gval \<Rightarrow> validator \<Rightarrow> struct_result \<times> validator" where
  "validator_struct L E M x v =
     (case root_value x False of
        None \<Rightarrow> (NilValue, v)
      | Some (VStruct n fs, addr) \<Rightarrow>
          (case plan_of L E n v of
             (Inl e, v1) \<Rightarrow> (BadTags e, v1)
           | (Inr p, v1) \<Rightarrow>
               (case validate_struct E M (cached_plan L E v1) n fs p addr False [] of
                  None \<Rightarrow> Panicked
                | Some [] \<Rightarrow> Valid
                | Some es \<Rightarrow> Invalid es, v1))
      | Some _ \<Rightarrow> (NotStruct, v))"

text \<open>The texts of errors: \<open>FieldError.Error\<close> and \<open>Errors.Error\<close>.\<close>

definition field_error_text :: "field_error \<Rightarrow> string" where
  "field_error_text e = (if fe_field e = [] then fe_message e else fe_field e @ '': '' @ fe_message e)"

definition errors_text :: "field_error list \<Rightarrow> string" where
  "errors_text es = join_with ''; '' (map field_error_text es)"

section \<open>What the tags demand\<close>

text \<open>A value satisfies a plan. Only the first failing rule of a value is reported, but all must hold.\<close>

fun conforms :: "value_plan \<Rightarrow> gval \<Rightarrow> bool" where
  "conforms (VP req om cs dive) v =
     (case deref v of
        None \<Rightarrow> \<not> req
      | Some d \<Rightarrow>
          if om \<and> is_zero d then \<not> req
          else (req \<longrightarrow> \<not> is_empty d) \<and> list_all (\<lambda>c. ck_fn c d) cs \<and>
            (case dive of None \<Rightarrow> True | Some ep \<Rightarrow> list_all (\<lambda>(k, x). conforms ep x) (elements d)))"

text \<open>Absent values and zero values under \<open>omitempty\<close> are not looked into.\<close>

definition stops :: "value_plan \<Rightarrow> gval \<Rightarrow> bool" where
  "stops vp v = (case deref v of None \<Rightarrow> True | Some d \<Rightarrow> vp_omitempty vp \<and> is_zero d)"

definition method_accepts :: "decls \<Rightarrow> methods \<Rightarrow> string \<Rightarrow> gval list \<Rightarrow> bool \<Rightarrow> bool" where
  "method_accepts E M n fs addr \<longleftrightarrow> run_validatable E M n fs addr False [] = Some []"

text \<open>Validity straight from the declarations, without plans: every field conforms to its tags, every struct inside is
  valid, and no \<open>Validate\<close> method objects.\<close>

function valid_struct :: "val_lib \<Rightarrow> decls \<Rightarrow> methods \<Rightarrow> (string \<Rightarrow> (factory \<times> message) option) \<Rightarrow> string \<Rightarrow> gval list \<Rightarrow> bool \<Rightarrow> bool"
  and valid_value :: "val_lib \<Rightarrow> decls \<Rightarrow> methods \<Rightarrow> (string \<Rightarrow> (factory \<times> message) option) \<Rightarrow> gval \<Rightarrow> bool \<Rightarrow> bool" where
  "valid_struct L E M reg n fs addr =
     ((case map_of E n of
         None \<Rightarrow> False
       | Some s \<Rightarrow>
           length fs = length (st_fields s) \<and>
           list_all (\<lambda>i. skipped_field (st_fields s ! i) \<or>
              (case compile_field L reg (st_fields s ! i) of
                 Inl _ \<Rightarrow> False
               | Inr vp \<Rightarrow> conforms vp (fs ! i) \<and>
                   (struct_of (fl_type (st_fields s ! i)) = None \<or> stops vp (fs ! i) \<or> valid_value L E M reg (fs ! i) addr)))
             [0..<length fs]) \<and>
      method_accepts E M n fs addr)"
| "valid_value L E M reg (VPtr p) addr = (case p of None \<Rightarrow> True | Some x \<Rightarrow> valid_value L E M reg x True)"
| "valid_value L E M reg (VIface p) addr = (case p of None \<Rightarrow> True | Some x \<Rightarrow> valid_value L E M reg x False)"
| "valid_value L E M reg (VStruct n fs) addr = valid_struct L E M reg n fs addr"
| "valid_value L E M reg (VSlice p) addr = list_all (\<lambda>(k, x). valid_value L E M reg x True) (elements (VSlice p))"
| "valid_value L E M reg (VArray xs) addr = list_all (\<lambda>(k, x). valid_value L E M reg x addr) (elements (VArray xs))"
| "valid_value L E M reg (VMap p) addr = list_all (\<lambda>(k, x). valid_value L E M reg x False) (elements (VMap p))"
| "valid_value L E M reg (VString s) addr = True"
| "valid_value L E M reg (VBool b) addr = True"
| "valid_value L E M reg (VInt i) addr = True"
| "valid_value L E M reg (VUint m) addr = True"
| "valid_value L E M reg (VFloat x) addr = True"
| "valid_value L E M reg (VOther z) addr = True"
  by pat_completeness auto
termination
  by (relation "measures [case_sum (\<lambda>(L, E, M, reg, n, fs, addr). size (VStruct n fs)) (\<lambda>(L, E, M, reg, v, addr). size v),
         case_sum (\<lambda>_. 0) (\<lambda>_. 1)]")
    (auto dest: elements_size intro: field_size content_size simp del: gval.size)

text \<open>A value of a declared type, as Go's type system guarantees it.\<close>

inductive has_type :: "decls \<Rightarrow> gval \<Rightarrow> gtype \<Rightarrow> bool" for E where
  "has_type E (VString s) TString"
| "has_type E (VBool b) TBool"
| "has_type E (VInt i) TInt"
| "has_type E (VInt i) TDuration"
| "has_type E (VUint m) TUint"
| "has_type E (VUint m) TUintptr"
| "has_type E (VFloat x) TFloat"
| "has_type E (VOther z) TOther"
| "has_type E (VPtr None) (TPtr t)"
| "has_type E x t \<Longrightarrow> has_type E (VPtr (Some x)) (TPtr t)"
| "has_type E (VIface None) TIface"
| "has_type E x t \<Longrightarrow> has_type E (VIface (Some x)) TIface"
| "has_type E (VSlice None) (TSlice t)"
| "(\<forall>x \<in> set xs. has_type E x t) \<Longrightarrow> has_type E (VSlice (Some xs)) (TSlice t)"
| "(\<forall>x \<in> set xs. has_type E x t) \<Longrightarrow> has_type E (VArray xs) (TArray t)"
| "has_type E (VMap None) (TMap t)"
| "(\<forall>x \<in> snd ` set kvs. has_type E x t) \<Longrightarrow> has_type E (VMap (Some kvs)) (TMap t)"
| "map_of E n = Some s \<Longrightarrow> length fs = length (st_fields s) \<Longrightarrow>
     (\<forall>i < length fs. has_type E (fs ! i) (fl_type (st_fields s ! i))) \<Longrightarrow> has_type E (VStruct n fs) (TStruct n)"

inductive_cases has_type_ptr [elim!]: "has_type E (VPtr (Some x)) t"
inductive_cases has_type_iface [elim!]: "has_type E (VIface p) t"
inductive_cases has_type_slice [elim!]: "has_type E (VSlice (Some xs)) t"
inductive_cases has_type_array [elim!]: "has_type E (VArray xs) t"
inductive_cases has_type_map [elim!]: "has_type E (VMap (Some kvs)) t"
inductive_cases has_type_struct [elim!]: "has_type E (VStruct n fs) t"

section \<open>Plans agree with the declarations\<close>

definition nested_ok :: "(string \<Rightarrow> type_plan option) \<Rightarrow> bool \<Rightarrow> gtype \<Rightarrow> bool" where
  "nested_ok P nested t \<longleftrightarrow>
     (case struct_of t of None \<Rightarrow> \<not> nested | Some m \<Rightarrow> (\<exists>q. P m = Some q \<and> (nested \<or> \<not> tp_has_work q)))"

fun good_fields ::
  "val_lib \<Rightarrow> (string \<Rightarrow> (factory \<times> message) option) \<Rightarrow> (string \<Rightarrow> type_plan option) \<Rightarrow> nat \<Rightarrow> gfield list \<Rightarrow> field_plan list \<Rightarrow> bool" where
  "good_fields L reg P i [] fps \<longleftrightarrow> fps = []"
| "good_fields L reg P i (f # fs) fps \<longleftrightarrow>
     (if skipped_field f then good_fields L reg P (i + 1) fs fps
      else \<exists>vp nested. compile_field L reg f = Inr vp \<and> nested_ok P nested (fl_type f) \<and>
        (if nested \<or> plan_works vp
         then \<exists>rest. fps = \<lparr>fp_index = i, fp_name = field_name (fl_tags f) (fl_name f), fp_checks = vp, fp_nested = nested\<rparr> # rest \<and>
                good_fields L reg P (i + 1) fs rest
         else good_fields L reg P (i + 1) fs fps))"

definition good_plan ::
  "val_lib \<Rightarrow> decls \<Rightarrow> (string \<Rightarrow> (factory \<times> message) option) \<Rightarrow> (string \<Rightarrow> type_plan option) \<Rightarrow> string \<Rightarrow> type_plan \<Rightarrow> bool" where
  "good_plan L E reg P n p \<longleftrightarrow>
     (\<exists>s. map_of E n = Some s \<and> tp_validatable p = (st_value_method s \<or> st_pointer_method s) \<and>
        tp_has_work p = (tp_fields p \<noteq> [] \<or> tp_validatable p) \<and> good_fields L reg P 0 (st_fields s) (tp_fields p))"

text \<open>Plans stay good when the lookup grows, and when a plan with assumed work is replaced by the finished one.\<close>

definition refined :: "(string \<Rightarrow> type_plan option) \<Rightarrow> (string \<Rightarrow> type_plan option) \<Rightarrow> bool" where
  "refined P Q \<longleftrightarrow> (\<forall>m q. P m = Some q \<longrightarrow> (\<exists>q'. Q m = Some q' \<and> (\<not> tp_has_work q \<longrightarrow> q' = q)))"

lemma nested_ok_refined: "nested_ok P b t \<Longrightarrow> refined P Q \<Longrightarrow> nested_ok Q b t"
  unfolding nested_ok_def refined_def by (auto split: option.splits)

abbreviation planned_field :: "nat \<Rightarrow> gfield \<Rightarrow> value_plan \<Rightarrow> bool \<Rightarrow> field_plan" where
  "planned_field i f vp nested \<equiv>
     \<lparr>fp_index = i, fp_name = field_name (fl_tags f) (fl_name f), fp_checks = vp, fp_nested = nested\<rparr>"

lemma good_fields_step:
  assumes "good_fields L reg P i (f # fs) fps"
  obtains (skip) "skipped_field f" "good_fields L reg P (i + 1) fs fps"
    | (planned) vp nested rest where "\<not> skipped_field f" "compile_field L reg f = Inr vp" "nested_ok P nested (fl_type f)"
        "nested \<or> plan_works vp" "fps = planned_field i f vp nested # rest" "good_fields L reg P (i + 1) fs rest"
    | (idle) vp where "\<not> skipped_field f" "compile_field L reg f = Inr vp" "nested_ok P False (fl_type f)"
        "\<not> plan_works vp" "good_fields L reg P (i + 1) fs fps"
proof (cases "skipped_field f")
  case True
  with assms show ?thesis by (intro skip) simp_all
next
  case False
  with assms obtain vp nested where f: "compile_field L reg f = Inr vp" "nested_ok P nested (fl_type f)"
    and rest: "if nested \<or> plan_works vp then \<exists>rest. fps = planned_field i f vp nested # rest \<and> good_fields L reg P (i + 1) fs rest
       else good_fields L reg P (i + 1) fs fps" by auto
  show ?thesis
  proof (cases "nested \<or> plan_works vp")
    case True
    with rest obtain rest' where "fps = planned_field i f vp nested # rest'" "good_fields L reg P (i + 1) fs rest'" by auto
    then show ?thesis by (rule planned [OF False f True])
  next
    case nw: False
    with f rest False show ?thesis by (intro idle [of vp]) simp_all
  qed
qed

lemma good_fields_planned_step:
  "\<not> skipped_field f \<Longrightarrow> compile_field L reg f = Inr vp \<Longrightarrow> nested_ok P nested (fl_type f) \<Longrightarrow> nested \<or> plan_works vp \<Longrightarrow>
     good_fields L reg P (i + 1) fs rest \<Longrightarrow> good_fields L reg P i (f # fs) (planned_field i f vp nested # rest)"
  by (cases nested) auto

lemma good_fields_idle_step:
  "\<not> skipped_field f \<Longrightarrow> compile_field L reg f = Inr vp \<Longrightarrow> nested_ok P False (fl_type f) \<Longrightarrow> \<not> plan_works vp \<Longrightarrow>
     good_fields L reg P (i + 1) fs fps \<Longrightarrow> good_fields L reg P i (f # fs) fps"
  by auto

lemma good_fields_refined: "good_fields L reg P i fs fps \<Longrightarrow> refined P Q \<Longrightarrow> good_fields L reg Q i fs fps"
proof (induction fs arbitrary: i fps)
  case (Cons f fs)
  from Cons.prems(1) show ?case
  proof (cases rule: good_fields_step)
    case skip
    with Cons.IH [OF skip(2) Cons.prems(2)] show ?thesis by simp
  next
    case (planned vp nested rest)
    show ?thesis unfolding planned(5)
      by (rule good_fields_planned_step [OF planned(1,2) nested_ok_refined [OF planned(3) Cons.prems(2)] planned(4)
          Cons.IH [OF planned(6) Cons.prems(2)]])
  next
    case (idle vp)
    show ?thesis
      by (rule good_fields_idle_step [OF idle(1,2) nested_ok_refined [OF idle(3) Cons.prems(2)] idle(4)
          Cons.IH [OF idle(5) Cons.prems(2)]])
  qed
qed simp

lemma good_plan_refined: "good_plan L E reg P n p \<Longrightarrow> refined P Q \<Longrightarrow> good_plan L E reg Q n p"
  by (auto simp: good_plan_def dest: good_fields_refined)

text \<open>Every planned field is a field of the declaration, and every other field has nothing to check.\<close>

lemma good_fields_planned:
  "good_fields L reg P i fs fps \<Longrightarrow> fp \<in> set fps \<Longrightarrow>
     \<exists>j < length fs. \<not> skipped_field (fs ! j) \<and> fp_index fp = i + j \<and> compile_field L reg (fs ! j) = Inr (fp_checks fp) \<and>
       nested_ok P (fp_nested fp) (fl_type (fs ! j))"
proof (induction fs arbitrary: i fps)
  case (Cons f fs)
  have shift: "\<exists>j < length (f # fs). \<not> skipped_field ((f # fs) ! j) \<and> fp_index fp = i + j \<and>
      compile_field L reg ((f # fs) ! j) = Inr (fp_checks fp) \<and> nested_ok P (fp_nested fp) (fl_type ((f # fs) ! j))"
    if "good_fields L reg P (i + 1) fs rest" "fp \<in> set rest" for rest
  proof -
    from Cons.IH [OF that] obtain j where "j < length fs" "\<not> skipped_field (fs ! j)" "fp_index fp = i + 1 + j"
      "compile_field L reg (fs ! j) = Inr (fp_checks fp)" "nested_ok P (fp_nested fp) (fl_type (fs ! j))" by blast
    then show ?thesis by (intro exI [of _ "Suc j"]) simp
  qed
  from Cons.prems(1) show ?case
  proof (cases rule: good_fields_step)
    case skip
    show ?thesis by (rule shift [OF skip(2) Cons.prems(2)])
  next
    case (planned vp nested rest)
    show ?thesis
    proof (cases "fp \<in> set rest")
      case True
      show ?thesis by (rule shift [OF planned(6) True])
    next
      case False
      with Cons.prems(2) planned show ?thesis by (intro exI [of _ 0]) simp
    qed
  next
    case (idle vp)
    show ?thesis by (rule shift [OF idle(5) Cons.prems(2)])
  qed
qed simp

lemma good_fields_covered:
  "good_fields L reg P i fs fps \<Longrightarrow> j < length fs \<Longrightarrow> \<not> skipped_field (fs ! j) \<Longrightarrow>
     \<exists>vp. compile_field L reg (fs ! j) = Inr vp \<and>
       ((\<exists>fp \<in> set fps. fp_index fp = i + j \<and> fp_checks fp = vp \<and> nested_ok P (fp_nested fp) (fl_type (fs ! j))) \<or>
        (\<not> plan_works vp \<and> nested_ok P False (fl_type (fs ! j))))"
proof (induction fs arbitrary: i j fps)
  case (Cons f fs)
  have shift: "\<exists>vp. compile_field L reg ((f # fs) ! j) = Inr vp \<and>
       ((\<exists>fp \<in> set fps. fp_index fp = i + j \<and> fp_checks fp = vp \<and> nested_ok P (fp_nested fp) (fl_type ((f # fs) ! j))) \<or>
        (\<not> plan_works vp \<and> nested_ok P False (fl_type ((f # fs) ! j))))"
    if "good_fields L reg P (i + 1) fs rest" "set rest \<subseteq> set fps" "j = Suc k" for rest k
    using Cons.IH [OF that(1), of k] Cons.prems(2,3) that(2,3) by fastforce
  from Cons.prems(1) show ?case
  proof (cases rule: good_fields_step)
    case skip
    then obtain k where "j = Suc k" using Cons.prems(3) by (cases j) auto
    then show ?thesis by (rule shift [OF skip(2) subset_refl])
  next
    case (planned vp nested rest)
    show ?thesis
    proof (cases j)
      case 0
      with planned show ?thesis by simp
    next
      case (Suc k)
      show ?thesis by (rule shift [OF planned(6) _ Suc]) (auto simp: planned(5))
    qed
  next
    case (idle vp)
    show ?thesis
    proof (cases j)
      case 0
      with idle show ?thesis by simp
    next
      case (Suc k)
      show ?thesis by (rule shift [OF idle(5) subset_refl Suc])
    qed
  qed
qed simp

section \<open>Compilation\<close>

definition grown ::
  "val_lib \<Rightarrow> decls \<Rightarrow> validator \<Rightarrow> (string \<Rightarrow> type_plan option) \<Rightarrow> (string \<Rightarrow> type_plan option) \<Rightarrow> bool" where
  "grown L E v b b' \<longleftrightarrow> b \<subseteq>\<^sub>m b' \<and>
     (\<forall>m q. b m = None \<longrightarrow> b' m = Some q \<longrightarrow> vd_plans v m = None \<and> good_plan L E (vd_rules v) (b' ++ vd_plans v) m q)"

lemma map_le_some: "b \<subseteq>\<^sub>m b' \<Longrightarrow> b m = Some q \<Longrightarrow> b' m = Some q"
  by (metis domI map_le_def)

lemma map_le_refined: "b \<subseteq>\<^sub>m b' \<Longrightarrow> refined (b ++ P) (b' ++ P)"
  unfolding refined_def by (auto simp: map_add_Some_iff dest: map_le_some)

lemma grown_refl: "grown L E v b b"
  by (simp add: grown_def)

lemma grown_trans:
  assumes "grown L E v b b1" "grown L E v b1 b2"
  shows "grown L E v b b2"
  unfolding grown_def
proof (rule conjI; (intro allI impI)?)
  show "b \<subseteq>\<^sub>m b2" using assms by (auto simp: grown_def intro: map_le_trans)
  fix m q
  assume m: "b m = None" "b2 m = Some q"
  show "vd_plans v m = None \<and> good_plan L E (vd_rules v) (b2 ++ vd_plans v) m q"
  proof (cases "b1 m")
    case None
    with m(2) assms(2) show ?thesis by (simp add: grown_def)
  next
    case (Some q1)
    have le: "b1 \<subseteq>\<^sub>m b2" using assms(2) by (simp add: grown_def)
    from map_le_some [OF le Some] m(2) have "q1 = q" by simp
    with Some m(1) assms(1) have "vd_plans v m = None" "good_plan L E (vd_rules v) (b1 ++ vd_plans v) m q" by (auto simp: grown_def)
    then show ?thesis using good_plan_refined [OF _ map_le_refined [OF le]] by blast
  qed
qed

lemma grown_finish:
  assumes "grown L E v (b(n \<mapsto> start_plan s)) b1" "b n = None" "vd_plans v n = None" "map_of E n = Some s"
    and "good_fields L (vd_rules v) (b1 ++ vd_plans v) 0 (st_fields s) fps"
    and "p = (start_plan s)\<lparr>tp_fields := fps, tp_has_work := fps \<noteq> [] \<or> tp_validatable (start_plan s)\<rparr>"
  shows "grown L E v b (b1(n \<mapsto> p))"
  unfolding grown_def
proof (rule conjI; (intro allI impI)?)
  have le: "b(n \<mapsto> start_plan s) \<subseteq>\<^sub>m b1" using assms(1) by (simp add: grown_def)
  then have start: "b1 n = Some (start_plan s)" by (rule map_le_some) simp
  show "b \<subseteq>\<^sub>m b1(n \<mapsto> p)"
    unfolding map_le_def
  proof
    fix m assume "m \<in> dom b"
    then obtain q where q: "b m = Some q" by blast
    then have "m \<noteq> n" using assms(2) by auto
    with q have "(b(n \<mapsto> start_plan s)) m = Some q" by simp
    from map_le_some [OF le this] q \<open>m \<noteq> n\<close> show "b m = (b1(n \<mapsto> p)) m" by simp
  qed
  have work: "tp_has_work (start_plan s)" by (simp add: start_plan_def)
  have ref: "refined (b1 ++ vd_plans v) (b1(n \<mapsto> p) ++ vd_plans v)"
    unfolding refined_def using start work by (auto simp: map_add_Some_iff)
  fix m q
  assume m: "b m = None" "(b1(n \<mapsto> p)) m = Some q"
  show "vd_plans v m = None \<and> good_plan L E (vd_rules v) (b1(n \<mapsto> p) ++ vd_plans v) m q"
  proof (cases "m = n")
    case True
    have "good_fields L (vd_rules v) (b1(n \<mapsto> p) ++ vd_plans v) 0 (st_fields s) fps"
      by (rule good_fields_refined [OF assms(5) ref])
    with True m(2) assms(3,4,6) show ?thesis by (auto simp: good_plan_def start_plan_def)
  next
    case False
    with m have "(b(n \<mapsto> start_plan s)) m = None" "b1 m = Some q" by simp_all
    with assms(1) have "vd_plans v m = None" "good_plan L E (vd_rules v) (b1 ++ vd_plans v) m q" by (auto simp: grown_def)
    then show ?thesis using good_plan_refined [OF _ ref] by blast
  qed
qed

lemma compile_good:
  "compile_type L E v fuel n b = Inr (p, b') \<Longrightarrow> grown L E v b b' \<and> (b' ++ vd_plans v) n = Some p"
  "compile_fields L E v k i fs b = Inr (fps, c) \<Longrightarrow> grown L E v b c \<and> good_fields L (vd_rules v) (c ++ vd_plans v) i fs fps"
proof (induction L E v fuel n b and L E v k i fs b arbitrary: p b' and fps c rule: compile_type_compile_fields.induct)
  case (1 L E v fuel n b)
  show ?case
  proof (cases "vd_plans v n")
    case (Some q)
    with "1.prems" show ?thesis by (simp add: grown_refl map_add_Some_iff)
  next
    case nv: None
    show ?thesis
    proof (cases "b n")
      case (Some q)
      with nv "1.prems" show ?thesis by (simp add: grown_refl map_add_Some_iff)
    next
      case nb: None
      from "1.prems" nv nb obtain s where s: "map_of E n = Some s" by (cases "map_of E n") auto
      from "1.prems" nv nb s obtain k where k: "fuel = Suc k" by (cases fuel) auto
      from "1.prems" nv nb s k obtain fps b1 where f: "compile_fields L E v k 0 (st_fields s) (b(n \<mapsto> start_plan s)) = Inr (fps, b1)"
        by (cases "compile_fields L E v k 0 (st_fields s) (b(n \<mapsto> start_plan s))") auto
      let ?p = "(start_plan s)\<lparr>tp_fields := fps, tp_has_work := fps \<noteq> [] \<or> tp_validatable (start_plan s)\<rparr>"
      from "1.prems" nv nb s k f have p: "p = ?p" "b' = b1(n \<mapsto> ?p)" by (auto simp: Let_def)
      from "1.IH" [OF nv nb s k f] have g: "grown L E v (b(n \<mapsto> start_plan s)) b1"
        "good_fields L (vd_rules v) (b1 ++ vd_plans v) 0 (st_fields s) fps" by (simp_all only: fun_upd_def conj_assoc)
      have "grown L E v b b'" unfolding p(2) by (rule grown_finish [where fps = fps, OF g(1) nb nv s g(2) refl])
      moreover have "(b' ++ vd_plans v) n = Some p" unfolding p using nv by (simp add: map_add_Some_iff)
      ultimately show ?thesis by (rule conjI)
    qed
  qed
next
  case (2 L E v k i b)
  then show ?case by (simp add: grown_refl)
next
  case (3 L E v k i f fs b)
  show ?case
  proof (cases "skipped_field f")
    case True
    with "3.IH"(1) [OF True] "3.prems" show ?thesis by simp
  next
    case ns: False
    from "3.prems" ns obtain vp where vp: "compile_field L (vd_rules v) f = Inr vp" by (cases "compile_field L (vd_rules v) f") auto
    let ?step = "case struct_of (fl_type f) of None \<Rightarrow> Inr (False, b)
        | Some n \<Rightarrow> (case compile_type L E v k n b of Inl e \<Rightarrow> Inl e | Inr (p, b1) \<Rightarrow> Inr (tp_has_work p, b1))"
    from "3.prems" ns vp obtain nested b1 where st: "?step = Inr (nested, b1)" by (cases ?step) auto
    from "3.prems" ns vp st obtain fps' where rest: "compile_fields L E v k (i + 1) fs b1 = Inr (fps', c)"
      and fps: "fps = (if nested \<or> plan_works vp then planned_field i f vp nested # fps' else fps')"
      by (cases "compile_fields L E v k (i + 1) fs b1") (auto split: if_splits)
    have step: "grown L E v b b1 \<and> nested_ok (b1 ++ vd_plans v) nested (fl_type f)"
    proof (cases "struct_of (fl_type f)")
      case None
      with st show ?thesis by (simp add: grown_refl nested_ok_def)
    next
      case (Some n)
      with st obtain q where q: "compile_type L E v k n b = Inr (q, b1)" "nested = tp_has_work q"
        by (cases "compile_type L E v k n b") auto
      from "3.IH"(2) [OF ns vp Some q(1)] have "grown L E v b b1" "(b1 ++ vd_plans v) n = Some q" by simp_all
      with q(2) Some show ?thesis by (simp add: nested_ok_def)
    qed
    from "3.IH"(3) [OF ns vp st refl rest] have g: "grown L E v b1 c" "good_fields L (vd_rules v) (c ++ vd_plans v) (i + 1) fs fps'"
      by simp_all
    have "b1 \<subseteq>\<^sub>m c" using g(1) by (simp add: grown_def)
    then have nest: "nested_ok (c ++ vd_plans v) nested (fl_type f)" using step nested_ok_refined map_le_refined by blast
    have "good_fields L (vd_rules v) (c ++ vd_plans v) i (f # fs) fps"
    proof (cases "nested \<or> plan_works vp")
      case True
      then show ?thesis unfolding fps using good_fields_planned_step [OF ns vp nest True g(2)] by simp
    next
      case False
      then show ?thesis unfolding fps using good_fields_idle_step [OF ns vp _ _ g(2)] nest by auto
    qed
    then show ?thesis using grown_trans step g(1) by blast
  qed
qed

text \<open>The fuel: one unit per declared type that is not under construction.\<close>

definition unbuilt :: "decls \<Rightarrow> (string \<Rightarrow> type_plan option) \<Rightarrow> nat" where
  "unbuilt E b = card {m \<in> fst ` set E. b m = None}"

lemma unbuilt_mono: "b \<subseteq>\<^sub>m b' \<Longrightarrow> unbuilt E b' \<le> unbuilt E b"
  unfolding unbuilt_def
proof (rule card_mono)
  assume le: "b \<subseteq>\<^sub>m b'"
  show "{m \<in> fst ` set E. b' m = None} \<subseteq> {m \<in> fst ` set E. b m = None}"
  proof
    fix m assume m: "m \<in> {m \<in> fst ` set E. b' m = None}"
    then have "b m = None" using map_le_some [OF le, of m] by (cases "b m") auto
    with m show "m \<in> {m \<in> fst ` set E. b m = None}" by blast
  qed
qed simp

lemma unbuilt_start: "map_of E n = Some s \<Longrightarrow> b n = None \<Longrightarrow> Suc (unbuilt E (b(n \<mapsto> q))) = unbuilt E b"
proof -
  assume "map_of E n = Some s" "b n = None"
  then have "n \<in> fst ` set E" by (force dest: map_of_SomeD)
  with \<open>b n = None\<close> have "{m \<in> fst ` set E. b m = None} = insert n {m \<in> fst ` set E. (b(n \<mapsto> q)) m = None}" by auto
  then show ?thesis by (simp add: unbuilt_def)
qed

lemma compile_field_error: "compile_field L reg f \<noteq> Inl OutOfFuel"
proof -
  have "compile_rules reg base rs req om cs \<noteq> Inl OutOfFuel" for base rs req om cs
    by (induction reg base rs req om cs rule: compile_rules.induct) (auto split: option.splits sum.splits)
  then show ?thesis by (auto simp: compile_field_def compile_value_plan_def split: option.splits sum.splits)
qed

lemma compile_fuel:
  "unbuilt E b \<le> fuel \<Longrightarrow> compile_type L E v fuel n b \<noteq> Inl OutOfFuel"
  "unbuilt E b \<le> k \<Longrightarrow> compile_fields L E v k i fs b \<noteq> Inl OutOfFuel"
proof (induction L E v fuel n b and L E v k i fs b rule: compile_type_compile_fields.induct)
  case (1 L E v fuel n b)
  show ?case
  proof (cases "vd_plans v n = None \<and> b n = None")
    case True
    then have nv: "vd_plans v n = None" and nb: "b n = None" by simp_all
    show ?thesis
    proof (cases "map_of E n")
      case (Some s)
      note start = unbuilt_start [of E n s b "start_plan s", OF Some nb]
      with "1.prems" obtain k where k: "fuel = Suc k" by (cases fuel) auto
      with "1.prems" start have "unbuilt E (b(n \<mapsto> start_plan s)) \<le> k" by simp
      from "1.IH" [OF nv nb Some k this] show ?thesis using nv nb Some k by (auto simp: fun_upd_def Let_def split: sum.splits)
    qed (use nv nb in simp)
  qed (auto split: option.splits)
next
  case (2 L E v k i b)
  then show ?case by simp
next
  case (3 L E v k i f fs b)
  show ?case
  proof (cases "skipped_field f")
    case True
    with "3.IH"(1) [OF True "3.prems"] show ?thesis by simp
  next
    case ns: False
    show ?thesis
    proof (cases "compile_field L (vd_rules v) f")
      case (Inl e)
      with compile_field_error [of L "vd_rules v" f] ns show ?thesis by auto
    next
      case vp: (Inr vp)
      let ?step = "case struct_of (fl_type f) of None \<Rightarrow> Inr (False, b)
        | Some n \<Rightarrow> (case compile_type L E v k n b of Inl e \<Rightarrow> Inl e | Inr (p, b1) \<Rightarrow> Inr (tp_has_work p, b1))"
      have st: "?step \<noteq> Inl OutOfFuel"
      proof (cases "struct_of (fl_type f)")
        case (Some n)
        from "3.IH"(2) [OF ns vp Some "3.prems"] show ?thesis using Some by (auto split: sum.splits)
      qed simp
      show ?thesis
      proof (cases ?step)
        case (Inl e)
        with st ns vp show ?thesis by auto
      next
        case (Inr r)
        obtain nested b1 where r: "r = (nested, b1)" by (cases r)
        have "b \<subseteq>\<^sub>m b1"
        proof (cases "struct_of (fl_type f)")
          case (Some n)
          with Inr r obtain q where "compile_type L E v k n b = Inr (q, b1)" by (cases "compile_type L E v k n b") auto
          from compile_good(1) [OF this] show ?thesis by (simp add: grown_def)
        qed (use Inr r in simp)
        with "3.prems" unbuilt_mono [of b b1 E] have "unbuilt E b1 \<le> k" by simp
        from "3.IH"(3) [OF ns vp Inr r [symmetric] this] show ?thesis using ns vp Inr r by (auto split: sum.splits)
      qed
    qed
  qed
qed

lemma plan_of_total: "fst (plan_of L E n v) \<noteq> Inl OutOfFuel"
proof -
  have "unbuilt E Map.empty \<le> card (fst ` set E)" unfolding unbuilt_def by (rule card_mono) auto
  also have "\<dots> \<le> length E" using card_image_le [of "set E" fst] card_length [of E] by simp
  finally show ?thesis using compile_fuel(1) [of E Map.empty "length E" L v n] by (auto simp: plan_of_def split: sum.splits)
qed

text \<open>The cache of a validator: its plans are good, and what they refer to is cached.\<close>

definition validator_ok :: "val_lib \<Rightarrow> decls \<Rightarrow> validator \<Rightarrow> bool" where
  "validator_ok L E v \<longleftrightarrow> (\<forall>n p. vd_plans v n = Some p \<longrightarrow> good_plan L E (vd_rules v) (vd_plans v) n p)"

lemma new_validator_ok: "validator_ok L E (new_validator L)"
  by (simp add: validator_ok_def new_validator_def)

lemma register_rule_ok: "vd_plans v = Map.empty \<Longrightarrow> validator_ok L E (fst (register_rule name fn msg v)) \<and>
    vd_plans (fst (register_rule name fn msg v)) = Map.empty"
  by (auto simp: validator_ok_def register_rule_def split: option.splits)

lemma plan_of_ok:
  assumes "validator_ok L E v" "plan_of L E n v = (r, v')"
  shows "validator_ok L E v' \<and> vd_rules v' = vd_rules v \<and> (\<forall>p. r = Inr p \<longrightarrow> vd_plans v' n = Some p)"
proof (cases "compile_type L E v (length E) n Map.empty")
  case (Inl e)
  with assms show ?thesis by (auto simp: plan_of_def)
next
  case (Inr pb)
  obtain p b where pb: "pb = (p, b)" by (cases pb)
  with Inr assms(2) have r: "r = Inr p" "v' = v\<lparr>vd_plans := vd_plans v ++ b\<rparr>" by (auto simp: plan_of_def)
  from compile_good(1) [OF Inr [unfolded pb]] have g: "grown L E v Map.empty b" "(b ++ vd_plans v) n = Some p" by simp_all
  then have new: "b m = Some q \<Longrightarrow> vd_plans v m = None \<and> good_plan L E (vd_rules v) (b ++ vd_plans v) m q" for m q
    by (simp add: grown_def)
  have comm: "vd_plans v ++ b = b ++ vd_plans v"
  proof
    fix m show "(vd_plans v ++ b) m = (b ++ vd_plans v) m"
      using new [of m] by (auto simp: map_add_def split: option.splits)
  qed
  have old: "good_plan L E (vd_rules v) (b ++ vd_plans v) m q" if "vd_plans v m = Some q" for m q
  proof (rule good_plan_refined)
    show "good_plan L E (vd_rules v) (vd_plans v) m q" using assms(1) that by (simp add: validator_ok_def)
    show "refined (vd_plans v) (b ++ vd_plans v)" by (auto simp: refined_def)
  qed
  show ?thesis
    unfolding validator_ok_def r(2) using r(1) g(2) new old by (auto simp: comm map_add_Some_iff)
qed

section \<open>Validation by plan is validity of the declarations\<close>

lemma gather_Cons: "gather (r # rs) = (case r of None \<Rightarrow> None | Some x \<Rightarrow> map_option ((@) x) (gather rs))"
  by (cases r; cases "those rs") (simp_all add: gather_def)

lemma gather_Nil: "gather rs = Some [] \<longleftrightarrow> (\<forall>r \<in> set rs. r = Some [])"
proof (induction rs)
  case (Cons r rs)
  then show ?case by (cases r; cases "gather rs") (auto simp: gather_Cons)
qed (simp add: gather_def)

lemma gather_some: "(\<forall>r \<in> set rs. r \<noteq> None) \<Longrightarrow> gather rs \<noteq> None"
proof (induction rs)
  case (Cons r rs)
  then show ?case by (cases r; cases "gather rs") (auto simp: gather_Cons)
qed (simp add: gather_def)

text \<open>A result agrees with a verdict: no panic, and no errors exactly when the verdict is positive.\<close>

definition agrees :: "field_error list option \<Rightarrow> bool \<Rightarrow> bool" where
  "agrees r ok \<longleftrightarrow> r \<noteq> None \<and> (r = Some [] \<longleftrightarrow> ok)"

lemma agrees_gather: "(\<And>x. x \<in> set xs \<Longrightarrow> agrees (f x) (g x)) \<Longrightarrow> agrees (gather (map f xs)) (list_all g xs)"
  unfolding agrees_def using gather_some [of "map f xs"] by (auto simp: gather_Nil list_all_iff)

lemma agrees_elements:
  "(\<And>k x. (k, x) \<in> set (elements v) \<Longrightarrow> agrees (f x (elem_path path k)) (g x)) \<Longrightarrow>
     agrees (gather (map (\<lambda>(k, x). f x (elem_path path k)) (elements v))) (list_all (\<lambda>(k, x). g x) (elements v))"
  by (rule agrees_gather) auto

lemma elements_slice: "(k, x) \<in> set (elements (VSlice (Some xs))) \<Longrightarrow> x \<in> set xs"
  and elements_array: "(k, x) \<in> set (elements (VArray xs)) \<Longrightarrow> x \<in> set xs"
  and elements_map: "(k, x) \<in> set (elements (VMap (Some kvs))) \<Longrightarrow> x \<in> snd ` set kvs"
  by (auto simp: elements_def indexed_def dest: set_zip_rightD intro: rev_image_eqI)

lemma elements_nil [simp]: "elements (VSlice None) = []" "elements (VMap None) = []"
  by (simp_all add: elements_def)

lemma apply_plan_spec:
  "\<exists>es go. apply_plan vp v False parent name = Some (es, go) \<and> (es = [] \<longleftrightarrow> conforms vp v) \<and> (es = [] \<longrightarrow> go = (\<not> stops vp v))"
proof (induction vp arbitrary: v parent name)
  case (VP req om cs dive)
  show ?case
  proof (cases "deref v")
    case None
    then show ?thesis
      by (intro exI [of _ "if req then [required_error (join_path parent name)] else []"] exI [of _ False]) (simp add: stops_def)
  next
    case (Some d)
    show ?thesis
    proof (cases "om \<and> is_zero d \<or> req \<and> is_empty d")
      case True
      with Some show ?thesis by (auto simp: stops_def)
    next
      case nz: False
      show ?thesis
      proof (cases "find (\<lambda>c. \<not> ck_fn c d) cs")
        case (Some c)
        then have "\<not> list_all (\<lambda>c. ck_fn c d) cs" by (auto simp: find_Some_iff list_all_length)
        with nz Some \<open>deref v = Some d\<close> show ?thesis by auto
      next
        case None
        then have cs: "list_all (\<lambda>c. ck_fn c d) cs" by (auto simp: find_None_iff list_all_iff)
        show ?thesis
        proof (cases dive)
          case None
          with nz cs \<open>find _ cs = None\<close> \<open>deref v = Some d\<close> show ?thesis by (auto simp: stops_def)
        next
          case ep: (Some ep)
          let ?r = "gather (map (\<lambda>(k, x). map_option fst (apply_plan ep x False (elem_path (join_path parent name) k) [])) (elements d))"
          have "agrees ?r (list_all (\<lambda>(k, x). conforms ep x) (elements d))"
          proof (rule agrees_elements)
            fix k x
            from VP.IH [of ep x "elem_path (join_path parent name) k" "[]"] ep
            obtain es go where "apply_plan ep x False (elem_path (join_path parent name) k) [] = Some (es, go)" "es = [] \<longleftrightarrow> conforms ep x"
              by auto
            then show "agrees (map_option fst (apply_plan ep x False (elem_path (join_path parent name) k) [])) (conforms ep x)"
              by (simp add: agrees_def)
          qed
          then obtain es where es: "?r = Some es" "es = [] \<longleftrightarrow> list_all (\<lambda>(k, x). conforms ep x) (elements d)"
            by (auto simp: agrees_def)
          have "apply_plan (VP req om cs dive) v False parent name = Some (es, True)"
            using nz None \<open>deref v = Some d\<close> ep es(1) by (simp add: key_panics_def)
          moreover have "conforms (VP req om cs dive) v \<longleftrightarrow> es = []" using nz cs \<open>deref v = Some d\<close> ep es(2) by auto
          moreover have "\<not> stops (VP req om cs dive) v" using nz \<open>deref v = Some d\<close> by (simp add: stops_def)
          ultimately show ?thesis by auto
        qed
      qed
    qed
  qed
qed

lemma idle_conforms: "\<not> plan_works vp \<Longrightarrow> conforms vp v"
  by (cases vp) (auto simp: plan_works_def split: option.splits)

lemma method_path: "run_validatable E M n fs addr False path = Some [] \<longleftrightarrow> method_accepts E M n fs addr"
  by (auto simp: method_accepts_def run_validatable_def method_errors_def split: option.splits method_error.splits)

lemma method_total: "run_validatable E M n fs addr False path \<noteq> None"
  by (auto simp: run_validatable_def split: option.splits)

definition no_hidden :: "decls \<Rightarrow> bool" where
  "no_hidden E \<longleftrightarrow> list_all (\<lambda>(n, s). list_all (\<lambda>f. skipped_field f \<or> fl_exported f) (st_fields s)) E"

lemma not_hidden:
  "no_hidden E \<Longrightarrow> map_of E n = Some s \<Longrightarrow> i < length (st_fields s) \<Longrightarrow> \<not> skipped_field (st_fields s ! i) \<Longrightarrow> \<not> hidden_field E n i"
proof -
  assume h: "no_hidden E" "map_of E n = Some s" "i < length (st_fields s)" "\<not> skipped_field (st_fields s ! i)"
  from h(2) have "(n, s) \<in> set E" by (rule map_of_SomeD)
  with h(1) have "list_all (\<lambda>f. skipped_field f \<or> fl_exported f) (st_fields s)" by (auto simp: no_hidden_def list_all_iff)
  then have "skipped_field (st_fields s ! i) \<or> fl_exported (st_fields s ! i)" using h(3) by (simp add: list_all_length)
  with h show ?thesis by (simp add: hidden_field_def)
qed

definition good_plans ::
  "val_lib \<Rightarrow> decls \<Rightarrow> (string \<Rightarrow> (factory \<times> message) option) \<Rightarrow> (string \<Rightarrow> type_plan option) \<Rightarrow> bool" where
  "good_plans L E reg Q \<longleftrightarrow> (\<forall>n p. Q n = Some p \<longrightarrow> good_plan L E reg Q n p)"

text \<open>A type whose plan has no work has only valid values, however deep they are.\<close>

lemma idle_valid:
  assumes "good_plans L E reg Q"
  shows "has_type E v t \<Longrightarrow> struct_of t = Some m \<Longrightarrow> Q m = Some q \<Longrightarrow> \<not> tp_has_work q \<Longrightarrow> valid_value L E M reg v addr"
proof (induction v t arbitrary: m q addr rule: has_type.induct)
  case (14 xs t)
  then show ?case by (auto simp: list_all_iff dest!: elements_slice)
next
  case (15 xs t)
  then show ?case by (auto simp: list_all_iff dest!: elements_array)
next
  case (17 kvs t)
  then show ?case by (auto simp: list_all_iff dest!: elements_map)
next
  case (18 n s fs m q addr)
  then have q: "Q n = Some q" by simp
  with assms have g: "good_plan L E reg Q n q" by (simp add: good_plans_def)
  with 18 have none: "tp_fields q = []" "\<not> st_value_method s" "\<not> st_pointer_method s" "good_fields L reg Q 0 (st_fields s) []"
    by (auto simp: good_plan_def)
  then have acc: "method_accepts E M n fs addr" using 18 by (simp add: method_accepts_def run_validatable_def)
  have "skipped_field (st_fields s ! i) \<or> (case compile_field L reg (st_fields s ! i) of Inl _ \<Rightarrow> False
      | Inr vp \<Rightarrow> conforms vp (fs ! i) \<and>
          (struct_of (fl_type (st_fields s ! i)) = None \<or> stops vp (fs ! i) \<or> valid_value L E M reg (fs ! i) addr))"
    if i: "i < length fs" for i
  proof (cases "skipped_field (st_fields s ! i)")
    case False
    from good_fields_covered [OF none(4) _ False] i 18(2) obtain vp where vp: "compile_field L reg (st_fields s ! i) = Inr vp"
      "\<not> plan_works vp" "nested_ok Q False (fl_type (st_fields s ! i))" by auto
    have "struct_of (fl_type (st_fields s ! i)) = None \<or> valid_value L E M reg (fs ! i) addr"
      using vp(3) 18(3) i by (auto simp: nested_ok_def split: option.splits)
    with vp idle_conforms [OF vp(2)] show ?thesis by auto
  qed simp
  with 18 acc show ?case by (simp add: list_all_iff)
qed auto

lemma agrees_field:
  assumes "agrees (validate_nested E M P x addr False (join_path path name)) ok \<or> \<not> nested"
  shows "agrees (case apply_plan vp x False path name of
       None \<Rightarrow> None
     | Some (es, go_on) \<Rightarrow>
         if go_on \<and> nested then map_option ((@) es) (validate_nested E M P x addr False (join_path path name)) else Some es)
     (conforms vp x \<and> (\<not> nested \<or> stops vp x \<or> ok))"
proof -
  obtain es go where "apply_plan vp x False path name = Some (es, go)" "es = [] \<longleftrightarrow> conforms vp x" "es = [] \<longrightarrow> go = (\<not> stops vp x)"
    using apply_plan_spec by blast
  then show ?thesis using assms by (auto simp: agrees_def)
qed

lemma struct_agrees:
  assumes Q: "good_plans L E reg Q" "Q n = Some p" and s: "map_of E n = Some s" "length fs = length (st_fields s)"
    and typed: "\<forall>i < length fs. has_type E (fs ! i) (fl_type (st_fields s ! i))"
    and hidden: "no_hidden E"
    and IH: "\<And>i m path. i < length fs \<Longrightarrow> struct_of (fl_type (st_fields s ! i)) = Some m \<Longrightarrow> Q m \<noteq> None \<Longrightarrow>
       agrees (validate_nested E M P (fs ! i) addr False path) (valid_value L E M reg (fs ! i) addr)"
  shows "agrees (validate_struct E M P n fs p addr False path) (valid_struct L E M reg n fs addr)"
proof -
  have g: "tp_validatable p = (st_value_method s \<or> st_pointer_method s)" "good_fields L reg Q 0 (st_fields s) (tp_fields p)"
  proof -
    have "good_plan L E reg Q n p" using Q by (simp add: good_plans_def)
    then show "tp_validatable p = (st_value_method s \<or> st_pointer_method s)" "good_fields L reg Q 0 (st_fields s) (tp_fields p)"
      using s(1) by (auto simp: good_plan_def)
  qed
  define field where "field fp = (if fp_index fp < length fs then
       (case apply_plan (fp_checks fp) (fs ! fp_index fp) (hidden_field E n (fp_index fp)) path (fp_name fp) of
          None \<Rightarrow> None
        | Some (es, go_on) \<Rightarrow>
            if go_on \<and> fp_nested fp then
              map_option ((@) es) (validate_nested E M P (fs ! fp_index fp) addr (hidden_field E n (fp_index fp))
                (join_path path (fp_name fp)))
            else Some es)
     else None)" for fp :: field_plan
  define field_ok where "field_ok fp \<longleftrightarrow> conforms (fp_checks fp) (fs ! fp_index fp) \<and>
     (\<not> fp_nested fp \<or> stops (fp_checks fp) (fs ! fp_index fp) \<or> valid_value L E M reg (fs ! fp_index fp) addr)" for fp :: field_plan
  have field: "agrees (field fp) (field_ok fp)" if fp: "fp \<in> set (tp_fields p)" for fp
  proof -
    from good_fields_planned [OF g(2) fp] s(2) have j: "fp_index fp < length fs" "\<not> skipped_field (st_fields s ! fp_index fp)"
      "nested_ok Q (fp_nested fp) (fl_type (st_fields s ! fp_index fp))" by auto
    then have h: "hidden_field E n (fp_index fp) = False" using not_hidden [OF hidden s(1)] s(2) by simp
    have "agrees (validate_nested E M P (fs ! fp_index fp) addr False (join_path path (fp_name fp)))
        (valid_value L E M reg (fs ! fp_index fp) addr) \<or> \<not> fp_nested fp"
      using IH [OF j(1)] j(3) by (auto simp: nested_ok_def split: option.splits)
    from agrees_field [OF this] show ?thesis unfolding field_def field_ok_def h using j(1) by simp
  qed
  have meth: "agrees (if tp_validatable p then run_validatable E M n fs addr False path else Some []) (method_accepts E M n fs addr)"
  proof (cases "tp_validatable p")
    case True
    then show ?thesis using method_total method_path by (simp add: agrees_def)
  next
    case False
    with g(1) s(1) have "method_accepts E M n fs addr" by (simp add: method_accepts_def run_validatable_def)
    with False show ?thesis by (simp add: agrees_def)
  qed
  have "agrees (validate_struct E M P n fs p addr False path)
      (list_all field_ok (tp_fields p) \<and> method_accepts E M n fs addr)"
  proof -
    have eq: "validate_struct E M P n fs p addr False path =
        gather (map field (tp_fields p) @ [if tp_validatable p then run_validatable E M n fs addr False path else Some []])"
      unfolding validate_struct.simps field_def by (rule refl)
    show ?thesis unfolding agrees_def eq gather_Nil using gather_some field meth
      by (auto simp: agrees_def list_all_iff)
  qed
  moreover have "list_all field_ok (tp_fields p) \<longleftrightarrow>
      list_all (\<lambda>i. skipped_field (st_fields s ! i) \<or>
        (case compile_field L reg (st_fields s ! i) of
           Inl _ \<Rightarrow> False
         | Inr vp \<Rightarrow> conforms vp (fs ! i) \<and>
             (struct_of (fl_type (st_fields s ! i)) = None \<or> stops vp (fs ! i) \<or> valid_value L E M reg (fs ! i) addr))) [0..<length fs]"
    (is "?plans \<longleftrightarrow> list_all ?decl _")
  proof
    assume a: ?plans
    have idle: "struct_of (fl_type (st_fields s ! i)) = None \<or> valid_value L E M reg (fs ! i) addr"
      if "i < length fs" "nested_ok Q False (fl_type (st_fields s ! i))" for i
      using that typed idle_valid [OF Q(1)] by (auto simp: nested_ok_def split: option.splits)
    have "?decl i" if i: "i < length fs" for i
    proof (cases "skipped_field (st_fields s ! i)")
      case False
      from good_fields_covered [OF g(2) _ False] i s(2) obtain vp where vp: "compile_field L reg (st_fields s ! i) = Inr vp"
        and d: "(\<exists>fp \<in> set (tp_fields p). fp_index fp = i \<and> fp_checks fp = vp \<and> nested_ok Q (fp_nested fp) (fl_type (st_fields s ! i))) \<or>
          (\<not> plan_works vp \<and> nested_ok Q False (fl_type (st_fields s ! i)))" by auto
      from d have "conforms vp (fs ! i) \<and>
         (struct_of (fl_type (st_fields s ! i)) = None \<or> stops vp (fs ! i) \<or> valid_value L E M reg (fs ! i) addr)"
      proof
        assume "\<exists>fp \<in> set (tp_fields p). fp_index fp = i \<and> fp_checks fp = vp \<and> nested_ok Q (fp_nested fp) (fl_type (st_fields s ! i))"
        then obtain fp where "fp \<in> set (tp_fields p)" "fp_index fp = i" "fp_checks fp = vp"
          "nested_ok Q (fp_nested fp) (fl_type (st_fields s ! i))" by blast
        with a idle [OF i] show ?thesis by (cases "fp_nested fp") (auto simp: list_all_iff field_ok_def)
      next
        assume "\<not> plan_works vp \<and> nested_ok Q False (fl_type (st_fields s ! i))"
        with idle [OF i] idle_conforms show ?thesis by blast
      qed
      with vp show ?thesis by simp
    qed simp
    then show "list_all ?decl [0..<length fs]" by (simp add: list_all_iff)
  next
    assume a: "list_all ?decl [0..<length fs]"
    have "field_ok fp" if fp: "fp \<in> set (tp_fields p)" for fp
    proof -
      from good_fields_planned [OF g(2) fp] s(2) have j: "fp_index fp < length fs" "\<not> skipped_field (st_fields s ! fp_index fp)"
        "compile_field L reg (st_fields s ! fp_index fp) = Inr (fp_checks fp)"
        "nested_ok Q (fp_nested fp) (fl_type (st_fields s ! fp_index fp))" by auto
      from a j(1) have "?decl (fp_index fp)" by (simp add: list_all_iff)
      with j(2,3,4) show ?thesis by (auto simp: field_ok_def nested_ok_def split: option.splits)
    qed
    then show ?plans by (simp add: list_all_iff)
  qed
  ultimately show ?thesis using s by simp
qed

lemma nested_agrees:
  assumes "good_plans L E reg Q" "Q \<subseteq>\<^sub>m P" "no_hidden E"
  shows "has_type E v t \<Longrightarrow> struct_of t = Some m \<Longrightarrow> Q m \<noteq> None \<Longrightarrow>
     agrees (validate_nested E M P v addr False path) (valid_value L E M reg v addr)"
proof (induction v t arbitrary: m addr path rule: has_type.induct)
  case (10 x t)
  then show ?case by simp
next
  case (14 xs t m addr path)
  have "agrees (gather (map (\<lambda>(k, x). validate_nested E M P x True False (elem_path path k)) (elements (VSlice (Some xs)))))
      (list_all (\<lambda>(k, x). valid_value L E M reg x True) (elements (VSlice (Some xs))))"
    by (rule agrees_elements) (use 14 in \<open>auto dest!: elements_slice\<close>)
  then show ?case by simp
next
  case (15 xs t m addr path)
  have "agrees (gather (map (\<lambda>(k, x). validate_nested E M P x addr False (elem_path path k)) (elements (VArray xs))))
      (list_all (\<lambda>(k, x). valid_value L E M reg x addr) (elements (VArray xs)))"
    by (rule agrees_elements) (use 15 in \<open>auto dest!: elements_array\<close>)
  then show ?case by simp
next
  case (17 kvs t m addr path)
  have "agrees (gather (map (\<lambda>(k, x). validate_nested E M P x False False (elem_path path k)) (elements (VMap (Some kvs)))))
      (list_all (\<lambda>(k, x). valid_value L E M reg x False) (elements (VMap (Some kvs))))"
    by (rule agrees_elements) (use 17 in \<open>auto dest!: elements_map\<close>)
  then show ?case by (simp add: key_panics_def)
next
  case (18 n s fs m addr path)
  then have m: "m = n" by simp
  from 18 m obtain p where p: "Q n = Some p" by auto
  then have P: "P n = Some p" using map_le_some [OF assms(2)] by blast
  have typed: "\<forall>i < length fs. has_type E (fs ! i) (fl_type (st_fields s ! i))" using 18(3) by blast
  show ?case
  proof (cases "tp_has_work p")
    case True
    have "agrees (validate_struct E M P n fs p addr False path) (valid_struct L E M reg n fs addr)"
      by (rule struct_agrees [OF assms(1) p 18(1,2) typed assms(3)]) (use 18(3) in blast)
    with P True show ?thesis by simp
  next
    case False
    have "has_type E (VStruct n fs) (TStruct n)" by (rule has_type.intros(18) [OF 18(1,2) typed])
    from idle_valid [OF assms(1) this _ p False] have "valid_value L E M reg (VStruct n fs) addr" by simp
    with P False show ?thesis by (simp add: agrees_def)
  qed
qed (simp_all add: agrees_def key_panics_def gather_def)

lemma root_typed:
  "has_type E x t \<Longrightarrow> root_value x a = Some (VStruct n fs, addr) \<Longrightarrow> has_type E (VStruct n fs) (TStruct n)"
proof (induction x t arbitrary: a rule: has_type.induct)
  case (18 m s gs)
  have "has_type E (VStruct m gs) (TStruct m)" by (rule has_type.intros(18) [OF 18(1,2)]) (use 18(3) in blast)
  with 18(4) show ?case by simp
qed auto

text \<open>C30: Validation reports no errors exactly when the value is valid according to its declarations: every field, however
  deeply nested, conforms to its tags, and no Validate method objects. Compiled plans, their cache, the pruning
  of fields and types without work and the assumptions made for recursive types are invisible. The validator
  never panics on declarations without hidden embedded fields, and its cache stays consistent.\<close>

theorem validation_correct:
  assumes "validator_ok L E v" "no_hidden E" "has_type E x t"
    and "root_value x False = Some (VStruct n fs, addr)" "fst (plan_of L E n v) = Inr p"
  shows "(if valid_struct L E M (vd_rules v) n fs addr then fst (validator_struct L E M x v) = Valid
      else \<exists>es. es \<noteq> [] \<and> fst (validator_struct L E M x v) = Invalid es) \<and>
    validator_ok L E (snd (validator_struct L E M x v))"
proof -
  from assms(5) obtain v1 where pl: "plan_of L E n v = (Inr p, v1)" by (cases "plan_of L E n v") auto
  from plan_of_ok [OF assms(1) pl] have v1: "validator_ok L E v1" "vd_rules v1 = vd_rules v" "vd_plans v1 n = Some p" by auto
  have Q: "good_plans L E (vd_rules v) (vd_plans v1)" using v1 by (simp add: good_plans_def validator_ok_def)
  have le: "vd_plans v1 \<subseteq>\<^sub>m cached_plan L E v1"
    by (auto simp: map_le_def cached_plan_def plan_of_def)
  from root_typed [OF assms(3,4)] obtain s where s: "map_of E n = Some s" "length fs = length (st_fields s)"
    and typed: "\<forall>i < length fs. has_type E (fs ! i) (fl_type (st_fields s ! i))" by auto
  let ?r = "validate_struct E M (cached_plan L E v1) n fs p addr False []"
  have "agrees ?r (valid_struct L E M (vd_rules v) n fs addr)"
    by (rule struct_agrees [OF Q v1(3) s typed assms(2)]) (rule nested_agrees [OF Q le assms(2)], use typed in auto)
  then obtain es where es: "?r = Some es" "es = [] \<longleftrightarrow> valid_struct L E M (vd_rules v) n fs addr"
    by (auto simp: agrees_def simp del: validate_struct.simps valid_struct.simps)
  have "validator_struct L E M x v = ((case es of [] \<Rightarrow> Valid | _ \<Rightarrow> Invalid es), v1)"
    by (simp add: validator_struct_def assms(4) pl es(1) del: validate_struct.simps split: list.split)
  with es(2) v1(1) show ?thesis by (cases es) (simp_all del: valid_struct.simps)
qed

text \<open>A recursive type: a user and an optional friend.\<close>

definition no_lib :: val_lib where
  "no_lib = \<lparr>vl_float = (\<lambda>_. None), vl_duration = (\<lambda>_. None), vl_mail = (\<lambda>_. None), vl_url = (\<lambda>_. None), vl_ip = (\<lambda>_. None),
     vl_letter = (\<lambda>_. False), vl_digit = (\<lambda>_. False), vl_lower = id, vl_upper = id, vl_regexp = (\<lambda>_. None)\<rparr>"

definition user_decls :: decls where
  "user_decls =
    [(''User'', \<lparr>st_fields =
        [\<lparr>fl_name = ''Name'', fl_type = TString, fl_exported = True, fl_anonymous = False, fl_tags = [(''validate'', ''required'')]\<rparr>,
         \<lparr>fl_name = ''Friend'', fl_type = TPtr (TStruct ''User''), fl_exported = True, fl_anonymous = False, fl_tags = []\<rparr>],
       st_value_method = False, st_pointer_method = False\<rparr>)]"

lemma user_fields:
  "map_of user_decls ''User'' = Some \<lparr>st_fields =
        [\<lparr>fl_name = ''Name'', fl_type = TString, fl_exported = True, fl_anonymous = False, fl_tags = [(''validate'', ''required'')]\<rparr>,
         \<lparr>fl_name = ''Friend'', fl_type = TPtr (TStruct ''User''), fl_exported = True, fl_anonymous = False, fl_tags = []\<rparr>],
       st_value_method = False, st_pointer_method = False\<rparr>"
  by (simp add: user_decls_def)

lemma user_compile:
  "compile_field L reg \<lparr>fl_name = ''Name'', fl_type = TString, fl_exported = True, fl_anonymous = False, fl_tags = [(''validate'', ''required'')]\<rparr> =
     Inr (VP True False [] None)"
  "compile_field L reg \<lparr>fl_name = ''Friend'', fl_type = TPtr (TStruct ''User''), fl_exported = True, fl_anonymous = False, fl_tags = []\<rparr> =
     Inr (VP False False [] None)"
  by (simp_all add: compile_field_def compile_value_plan_def tag_get_def parse_tag_def trim_space_def is_space_def char_code_def Let_def)

lemma user_plan:
  "fst (plan_of no_lib user_decls ''User'' (new_validator no_lib)) = Inr \<lparr>tp_fields =
     [\<lparr>fp_index = 0, fp_name = ''Name'', fp_checks = VP True False [] None, fp_nested = False\<rparr>,
      \<lparr>fp_index = 1, fp_name = ''Friend'', fp_checks = VP False False [] None, fp_nested = True\<rparr>],
     tp_validatable = False, tp_has_work = True\<rparr>"
  by (simp add: plan_of_def new_validator_def user_fields user_decls_def user_compile skipped_field_def start_plan_def
      plan_works_def field_name_def tag_get_def tag_name_def Let_def)

definition user_value :: "string \<Rightarrow> gval" where
  "user_value friend = VStruct ''User'' [VString ''ada'', VPtr (Some (VStruct ''User'' [VString friend, VPtr None]))]"

lemma user_typed: "has_type user_decls (user_value friend) (TStruct ''User'')"
proof -
  have i: "has_type user_decls (VStruct ''User'' [VString friend, VPtr None]) (TStruct ''User'')"
    by (rule has_type.intros(18) [OF user_fields]) (auto simp: less_Suc_eq intro: has_type.intros)
  note p = has_type.intros(10) [OF i]
  show ?thesis unfolding user_value_def
    by (rule has_type.intros(18) [OF user_fields])
      (simp_all add: less_Suc_eq all_conj_distrib conj_disj_distribR has_type.intros(1) p imp_disjL)
qed

theorem validation_correct_witness:
  "\<exists>es. es \<noteq> [] \<and> fst (validator_struct no_lib user_decls (\<lambda>_ _. None) (user_value []) (new_validator no_lib)) = Invalid es"
proof -
  let ?fs = "[VString ''ada'', VPtr (Some (VStruct ''User'' [VString [], VPtr None]))]"
  have "root_value (user_value []) False = Some (VStruct ''User'' ?fs, False)" by (simp add: user_value_def)
  moreover have "no_hidden user_decls" by (simp add: no_hidden_def user_decls_def)
  moreover have "\<not> valid_struct no_lib user_decls (\<lambda>_ _. None) (vd_rules (new_validator no_lib)) ''User'' ?fs False"
    by (simp add: user_fields user_compile skipped_field_def tag_get_def stops_def is_empty_def value_len_def upt_conv_Cons)
  ultimately show ?thesis
    using validation_correct [OF new_validator_ok _ user_typed _ user_plan, of "[]" ?fs False "\<lambda>_ _. None"] by simp
qed

section \<open>Observations\<close>

definition plain_field :: "string \<Rightarrow> gtype \<Rightarrow> bool \<Rightarrow> gfield" where
  "plain_field name t exported = \<lparr>fl_name = name, fl_type = t, fl_exported = exported, fl_anonymous = \<not> exported, fl_tags = []\<rparr>"

lemma compile_plain: "compile_field L reg (plain_field name t x) = Inr (VP False False [] None)"
  by (simp add: compile_field_def compile_value_plan_def tag_get_def parse_tag_def plain_field_def)

text \<open>A struct that embeds an unexported struct with a \<open>Validate\<close> method panics.\<close>

definition hidden_decls :: decls where
  "hidden_decls = [(''Req'', \<lparr>st_fields = [plain_field ''base'' (TStruct ''base'') False], st_value_method = True, st_pointer_method = True\<rparr>),
     (''base'', \<lparr>st_fields = [], st_value_method = True, st_pointer_method = True\<rparr>)]"

lemma hidden_method_panics:
  "fst (validator_struct no_lib hidden_decls (\<lambda>_ _. None) (VPtr (Some (VStruct ''Req'' [VStruct ''base'' []]))) (new_validator no_lib)) = Panicked"
proof -
  let ?f = "plain_field ''base'' (TStruct ''base'') False"
  let ?base = "\<lparr>tp_fields = [], tp_validatable = True, tp_has_work = True\<rparr>"
  let ?req = "\<lparr>tp_fields = [\<lparr>fp_index = 0, fp_name = ''base'', fp_checks = VP False False [] None, fp_nested = True\<rparr>],
     tp_validatable = True, tp_has_work = True\<rparr>"
  have f: "\<not> skipped_field ?f" "fl_type ?f = TStruct ''base''" "fl_name ?f = ''base''" "fl_tags ?f = []" "\<not> fl_exported ?f"
    by (simp_all add: skipped_field_def tag_get_def plain_field_def)
  have plan: "plan_of no_lib hidden_decls ''Req'' (new_validator no_lib) =
      (Inr ?req, (new_validator no_lib)\<lparr>vd_plans := [''base'' \<mapsto> ?base, ''Req'' \<mapsto> ?req]\<rparr>)"
    by (auto simp: plan_of_def new_validator_def hidden_decls_def compile_plain f start_plan_def plan_works_def field_name_def
        tag_get_def tag_name_def Let_def fun_eq_iff)
  have req: "map_of hidden_decls ''Req'' = Some \<lparr>st_fields = [?f], st_value_method = True, st_pointer_method = True\<rparr>"
    by (simp add: hidden_decls_def)
  have base: "cached_plan no_lib hidden_decls ((new_validator no_lib)\<lparr>vd_plans := [''base'' \<mapsto> ?base, ''Req'' \<mapsto> ?req]\<rparr>) ''base'' = Some ?base"
    by (simp add: cached_plan_def plan_of_def)
  show ?thesis
    by (simp add: validator_struct_def plan base gather_def stops_def hidden_field_def req f run_validatable_def join_path_def)
qed

text \<open>The entries of a map are not addressable: a \<open>Validate\<close> method with a pointer receiver is never called on them, while it
  is on the elements of a slice.\<close>

lemma map_entries_not_validated:
  assumes "map_of E n = Some s" "\<not> st_value_method s" "st_pointer_method s"
    and "P n = Some \<lparr>tp_fields = [], tp_validatable = True, tp_has_work = True\<rparr>" and "M n [] = Some (OtherError ''bad'')"
  shows "validate_nested E M P (VMap (Some [(k, VStruct n [])])) True False path = Some []"
    and "validate_nested E M P (VSlice (Some [VStruct n []])) True False path =
      Some [\<lparr>fe_field = elem_path path ''0'', fe_rule = ''custom'', fe_param = [], fe_message = ''bad''\<rparr>]"
proof -
  have zero: "dec_nat 0 = ''0''" by code_simp
  show "validate_nested E M P (VMap (Some [(k, VStruct n [])])) True False path = Some []"
    and "validate_nested E M P (VSlice (Some [VStruct n []])) True False path =
      Some [\<lparr>fe_field = elem_path path ''0'', fe_rule = ''custom'', fe_param = [], fe_message = ''bad''\<rparr>]"
    using assms by (simp_all add: zero gather_def elements_def indexed_def key_panics_def run_validatable_def method_errors_def)
qed

text \<open>The method also runs when the tags of the value's own fields failed.\<close>

lemma method_after_failed_tags:
  assumes "map_of E n = Some s" "st_value_method s" "M n [VString []] = Some (OtherError ''bad'')"
    and "fl_exported (st_fields s ! 0)"
  shows "validate_struct E M P n [VString []]
      \<lparr>tp_fields = [\<lparr>fp_index = 0, fp_name = ''name'', fp_checks = VP True False [] None, fp_nested = False\<rparr>],
       tp_validatable = True, tp_has_work = True\<rparr> addr False [] =
    Some [required_error ''name'', \<lparr>fe_field = [], fe_rule = ''custom'', fe_param = [], fe_message = ''bad''\<rparr>]"
  using assms
  by (simp add: gather_def is_empty_def value_len_def join_path_def run_validatable_def method_errors_def)

end
