(* ===== verification/Binding.thy ===== *)
theory Binding
  imports Complex_Main Validate
begin

text \<open>
  Package \<open>internal/binding\<close> (\<open>binding.go\<close>): plans that bind path, query, header and cookie parameters to
  struct fields. A struct type is the list of its fields; the value that is filled is a store from index paths
  (\<open>FieldByIndex\<close>) to field values. The parsers of floats, durations, times and text types and the quoting of strings are
  parameters; so is what an \<open>UnmarshalText\<close> that fails has already written into its receiver.
\<close>

section \<open>Types, values and plans\<close>

datatype btype =
    BString | BBool | BInt nat | BUint nat | BFloat nat | BDuration | BTime | BText string | BPtr btype | BSlice btype
  | BStruct "bfield list" | BStrict | BOther
  and bfield = BField (bf_name: string) (bf_type: btype) (bf_exported: bool) (bf_anonymous: bool) (bf_tags: "(string \<times> string) list")

datatype bval =
    BVString string | BVBool bool | BVInt int | BVUint nat | BVFloat fnum | BVTime string | BVText string
  | BVPtr "bval option" | BVSlice "bval list option" | BVZero

text \<open>The zero value that \<open>SetZero\<close> writes.\<close>

fun zero_value :: "btype \<Rightarrow> bval" where
  "zero_value BString = BVString []"
| "zero_value BBool = BVBool False"
| "zero_value (BInt _) = BVInt 0"
| "zero_value BDuration = BVInt 0"
| "zero_value (BUint _) = BVUint 0"
| "zero_value (BFloat _) = BVFloat (Fin 0)"
| "zero_value (BPtr _) = BVPtr None"
| "zero_value (BSlice _) = BVSlice None"
| "zero_value _ = BVZero"

record bind_lib =
  bl_float :: "nat \<Rightarrow> string \<Rightarrow> fnum option"
  bl_duration :: "string \<Rightarrow> int option"
  bl_time :: "string \<Rightarrow> string \<Rightarrow> string option"
  bl_text :: "string \<Rightarrow> string \<Rightarrow> string option"
  bl_text_left :: "string \<Rightarrow> string \<Rightarrow> bval"
  bl_quote :: "string \<Rightarrow> string"

datatype location = InPath | InQuery | InHeader | InCookie

fun loc_name :: "location \<Rightarrow> string" where
  "loc_name InPath = ''path''"
| "loc_name InQuery = ''query''"
| "loc_name InHeader = ''header''"
| "loc_name InCookie = ''cookie''"

type_synonym decoder = "string \<Rightarrow> (string, bval) result"

record bind_param =
  bp_name :: string
  bp_in :: location
  bp_index :: "nat list"
  bp_type :: btype
  bp_default :: "string option"
  bp_multi :: bool
  bp_comma :: bool
  bp_decode :: decoder
  bp_left :: "string \<Rightarrow> bval"

record bind_plan =
  pl_params :: "bind_param list"
  pl_body :: "nat list option"
  pl_strict :: bool
  pl_body_fields :: bool

datatype bind_error =
    NotAStruct | CommaNeedsSlice string | UnknownOption string string | UnsupportedParam string | EmptyLayout string
  | LayoutNeedsTime string | BadDefault string string

section \<open>Decoders\<close>

definition parse_int :: "nat \<Rightarrow> string \<Rightarrow> int option" where
  "parse_int bits s =
     (case atoi s of None \<Rightarrow> None | Some n \<Rightarrow> if - (2 ^ (bits - 1)) \<le> n \<and> n < 2 ^ (bits - 1) then Some n else None)"

definition parse_uint_bits :: "nat \<Rightarrow> string \<Rightarrow> nat option" where
  "parse_uint_bits bits s = (case parse_uint s of None \<Rightarrow> None | Some n \<Rightarrow> if n < 2 ^ bits then Some n else None)"

definition or_message :: "string \<Rightarrow> ('a \<Rightarrow> bval) \<Rightarrow> 'a option \<Rightarrow> (string, bval) result" where
  "or_message msg f r = (case r of None \<Rightarrow> Inl msg | Some x \<Rightarrow> Inr (f x))"

definition friendly_type :: "string \<Rightarrow> string" where
  "friendly_type name = to_lower name"

text \<open>\<open>decoderFor\<close>; \<open>None\<close> is an unsupported type.\<close>

fun decoder_for :: "bind_lib \<Rightarrow> btype \<Rightarrow> decoder option" where
  "decoder_for L (BPtr t) =
     map_option (\<lambda>dec s. case dec s of Inl e \<Rightarrow> Inl e | Inr v \<Rightarrow> Inr (BVPtr (Some v))) (decoder_for L t)"
| "decoder_for L BTime = Some (\<lambda>s. or_message ''is not a valid RFC 3339 timestamp'' BVTime (bl_text L ''Time'' s))"
| "decoder_for L (BText name) = Some (\<lambda>s. or_message (''is not a valid '' @ friendly_type name) BVText (bl_text L name s))"
| "decoder_for L BDuration = Some (\<lambda>s. or_message ''must be a duration such as 1m30s'' BVInt (bl_duration L s))"
| "decoder_for L BString = Some (\<lambda>s. Inr (BVString s))"
| "decoder_for L BBool = Some (\<lambda>s. or_message ''must be a boolean'' BVBool (parse_bool s))"
| "decoder_for L (BInt bits) = Some (\<lambda>s. or_message ''must be an integer'' BVInt (parse_int bits s))"
| "decoder_for L (BUint bits) = Some (\<lambda>s. or_message ''must be a non-negative integer'' BVUint (parse_uint_bits bits s))"
| "decoder_for L (BFloat bits) = Some (\<lambda>s. or_message ''must be a number'' BVFloat (bl_float L bits s))"
| "decoder_for L _ = None"

text \<open>What a decoder that fails leaves in the field: only a text type of the program can have written to it, since it decodes in
  place; pointers and slices decode into a new value, and the other parsers store their result once they have it.\<close>

definition left_by :: "bind_lib \<Rightarrow> btype \<Rightarrow> string \<Rightarrow> bval" where
  "left_by L t s = (case t of BText name \<Rightarrow> bl_text_left L name s | _ \<Rightarrow> zero_value t)"

fun layout_decoder :: "bind_lib \<Rightarrow> string \<Rightarrow> btype \<Rightarrow> decoder option" where
  "layout_decoder L layout (BPtr t) =
     map_option (\<lambda>dec s. case dec s of Inl e \<Rightarrow> Inl e | Inr v \<Rightarrow> Inr (BVPtr (Some v))) (layout_decoder L layout t)"
| "layout_decoder L layout BTime = Some (\<lambda>s. or_message (''must match time layout '' @ bl_quote L layout) BVTime (bl_time L layout s))"
| "layout_decoder L layout _ = None"

section \<open>Compilation\<close>

text \<open>\<open>ParamTag\<close>: the first location with a tag.\<close>

definition param_tag :: "bfield \<Rightarrow> (location \<times> string) option" where
  "param_tag f =
     (case find (\<lambda>l. map_of (bf_tags f) (loc_name l) \<noteq> None) [InPath, InQuery, InHeader, InCookie] of
        None \<Rightarrow> None
      | Some l \<Rightarrow>
          (let name = fst (cut_at CHR '','' (the (map_of (bf_tags f) (loc_name l))))
           in Some (l, if name = [] then bf_name f else name)))"

definition tag_options :: "bfield \<Rightarrow> location \<Rightarrow> string list" where
  "tag_options f l =
     (case map_of (bf_tags f) (loc_name l) of
        None \<Rightarrow> []
      | Some raw \<Rightarrow> (case cut_at CHR '','' raw of (_, rest, _) \<Rightarrow> if rest = [] then [] else split_on CHR '','' rest))"

text \<open>The loop over the options: whether values are split at commas.\<close>

fun comma_option :: "string \<Rightarrow> bool \<Rightarrow> string list \<Rightarrow> bool \<Rightarrow> (bind_error, bool) result" where
  "comma_option field multi [] comma = Inr comma"
| "comma_option field multi (opt # opts) comma =
     (if opt = ''comma'' then (if \<not> multi then Inl (CommaNeedsSlice field) else comma_option field multi opts True)
      else Inl (UnknownOption field opt))"

definition is_multi :: "btype \<Rightarrow> bool" where
  "is_multi t = (case t of BSlice el \<Rightarrow> el \<noteq> BUint 8 | _ \<Rightarrow> False)"

definition element_of :: "btype \<Rightarrow> btype" where
  "element_of t = (if is_multi t then (case t of BSlice el \<Rightarrow> el | _ \<Rightarrow> t) else t)"

definition field_decoder :: "bind_lib \<Rightarrow> bfield \<Rightarrow> (bind_error, decoder) result" where
  "field_decoder L f =
     (let ft = element_of (bf_type f) in
      case decoder_for L ft of
        None \<Rightarrow> Inl (UnsupportedParam (bf_name f))
      | Some dec \<Rightarrow>
          (case map_of (bf_tags f) ''layout'' of
             None \<Rightarrow> Inr dec
           | Some layout \<Rightarrow>
               if layout = [] then Inl (EmptyLayout (bf_name f))
               else (case layout_decoder L layout ft of None \<Rightarrow> Inl (LayoutNeedsTime (bf_name f)) | Some dec' \<Rightarrow> Inr dec')))"

definition make_param :: "bind_lib \<Rightarrow> bfield \<Rightarrow> nat list \<Rightarrow> location \<Rightarrow> string \<Rightarrow> (bind_error, bind_param) result" where
  "make_param L f index l name =
     (case comma_option (bf_name f) (is_multi (bf_type f)) (tag_options f l) False of
        Inl e \<Rightarrow> Inl e
      | Inr comma \<Rightarrow>
          (case field_decoder L f of
             Inl e \<Rightarrow> Inl e
           | Inr dec \<Rightarrow>
               (let prm = \<lparr>bp_name = (if l = InHeader then canonical_key name else name), bp_in = l, bp_index = index,
                      bp_type = bf_type f, bp_default = map_of (bf_tags f) ''default'', bp_multi = is_multi (bf_type f),
                      bp_comma = comma, bp_decode = dec, bp_left = left_by L (bf_type f)\<rparr>
                in case map_of (bf_tags f) ''default'' of
                     None \<Rightarrow> Inr prm
                   | Some def \<Rightarrow> (case dec def of Inl _ \<Rightarrow> Inl (BadDefault (bf_name f) def) | Inr _ \<Rightarrow> Inr prm))))"

definition is_strict_marker :: "bfield \<Rightarrow> bool" where
  "is_strict_marker f \<longleftrightarrow> bf_anonymous f \<and> (bf_type f = BStrict \<or> bf_type f = BPtr BStrict)"

text \<open>\<open>collect\<close>: the fields from position \<open>i\<close> of the struct at the index path \<open>pre\<close>.\<close>

function collect :: "bind_lib \<Rightarrow> nat list \<Rightarrow> nat \<Rightarrow> bfield list \<Rightarrow> bind_plan \<Rightarrow> (bind_error, bind_plan) result" where
  "collect L pre i [] p = Inr p"
| "collect L pre i (f # fs) p =
     (let index = pre @ [i] in
      if is_strict_marker f then collect L pre (i + 1) fs (p\<lparr>pl_strict := True\<rparr>)
      else case param_tag f of
        None \<Rightarrow>
          (case (if bf_anonymous f then (case bf_type f of BStruct gs \<Rightarrow> Some gs | _ \<Rightarrow> None) else None) of
             Some gs \<Rightarrow>
               (case collect L index 0 gs p of Inl e \<Rightarrow> Inl e | Inr p1 \<Rightarrow> collect L pre (i + 1) fs p1)
           | None \<Rightarrow>
               collect L pre (i + 1) fs
                 (if \<not> bf_exported f then p
                  else if bf_name f = ''Body'' \<and> pre = [] then p\<lparr>pl_body := Some index\<rparr>
                  else if tag_get (bf_tags f) ''json'' \<noteq> ''-'' then p\<lparr>pl_body_fields := True\<rparr> else p))
      | Some (l, name) \<Rightarrow>
          if \<not> bf_exported f then collect L pre (i + 1) fs p
          else (case make_param L f index l name of
             Inl e \<Rightarrow> Inl e
           | Inr prm \<Rightarrow> collect L pre (i + 1) fs (p\<lparr>pl_params := pl_params p @ [prm]\<rparr>)))"
  by pat_completeness auto

lemma struct_fields_size: "bf_type f = BStruct gs \<Longrightarrow> size_list size gs < size f"
  by (cases f) simp

termination collect
proof (relation "measure (\<lambda>(L, pre, i, fs, p). size_list size fs)")
  fix L pre i f fs p index gs
  assume "(if bf_anonymous f then case bf_type f of BStruct gs \<Rightarrow> Some gs | _ \<Rightarrow> None else None) = Some gs"
  then have "bf_type f = BStruct gs" by (auto split: if_splits btype.splits)
  from struct_fields_size [OF this] show "((L, index, 0, gs, p), L, pre, i, f # fs, p) \<in> measure (\<lambda>(L, pre, i, fs, p). size_list size fs)"
    by simp
qed simp_all

definition binding_compile :: "bind_lib \<Rightarrow> btype \<Rightarrow> (bind_error, bind_plan) result" where
  "binding_compile L t =
     (case t of
        BStruct fs \<Rightarrow> collect L [] 0 fs \<lparr>pl_params = [], pl_body = None, pl_strict = False, pl_body_fields = False\<rparr>
      | _ \<Rightarrow> Inl NotAStruct)"

text \<open>The body decodes into the field \<open>Body\<close>, else into the whole struct if it has other fields, else nowhere.\<close>

datatype body_target = NoBody | BodyField "nat list" | WholeStruct

definition body_target :: "bind_plan \<Rightarrow> body_target" where
  "body_target p = (case pl_body p of Some i \<Rightarrow> BodyField i | None \<Rightarrow> if pl_body_fields p then WholeStruct else NoBody)"

text \<open>\<open>PlanFor\<close>: plans and errors are cached by type.\<close>

type_synonym plan_cache = "(btype \<times> (bind_error, bind_plan) result) list"

definition plan_for :: "bind_lib \<Rightarrow> btype \<Rightarrow> plan_cache \<Rightarrow> (bind_error, bind_plan) result \<times> plan_cache" where
  "plan_for L t cache =
     (case map_of cache t of
        Some r \<Rightarrow> (r, cache)
      | None \<Rightarrow> (binding_compile L t, (t, binding_compile L t) # cache))"

section \<open>Binding\<close>

text \<open>The query is a map: its keys are distinct.\<close>

record source =
  so_path :: "string \<Rightarrow> string option"
  so_query :: "(string \<times> string list) list"
  so_header :: "string \<Rightarrow> string list"
  so_cookie :: "string \<Rightarrow> string option"

definition query_get :: "(string \<times> string list) list \<Rightarrow> string \<Rightarrow> string list" where
  "query_get q name = (case map_of q name of None \<Rightarrow> [] | Some vs \<Rightarrow> vs)"

definition source_values :: "source \<Rightarrow> bind_param \<Rightarrow> string list" where
  "source_values src prm =
     (case bp_in prm of
        InPath \<Rightarrow> (case so_path src (bp_name prm) of None \<Rightarrow> [] | Some v \<Rightarrow> [v])
      | InQuery \<Rightarrow> query_get (so_query src) (bp_name prm)
      | InHeader \<Rightarrow> so_header src (bp_name prm)
      | InCookie \<Rightarrow> (case so_cookie src (bp_name prm) of None \<Rightarrow> [] | Some v \<Rightarrow> [v]))"

fun decode_all :: "decoder \<Rightarrow> string list \<Rightarrow> (string, bval list) result" where
  "decode_all dec [] = Inr []"
| "decode_all dec (v # vs) =
     (case dec v of
        Inl e \<Rightarrow> Inl e
      | Inr x \<Rightarrow> (case decode_all dec vs of Inl e \<Rightarrow> Inl e | Inr xs \<Rightarrow> Inr (x # xs)))"

text \<open>\<open>Param.set\<close>; a field that is not a slice takes the first value.\<close>

definition assign_param :: "bind_param \<Rightarrow> string list \<Rightarrow> (string, bval) result" where
  "assign_param prm values =
     (if \<not> bp_multi prm then bp_decode prm (hd values)
      else
        let parts = (if bp_comma prm then filter (\<lambda>s. s \<noteq> []) (concat (map (split_on CHR '','') values)) else values)
        in case decode_all (bp_decode prm) parts of Inl e \<Rightarrow> Inl e | Inr xs \<Rightarrow> Inr (BVSlice (Some xs)))"

text \<open>What a parameter gets: nothing when it is absent without a default, else a value or a message.\<close>

definition param_result :: "source \<Rightarrow> bind_param \<Rightarrow> (string, bval) result option" where
  "param_result src prm =
     (let values = source_values src prm in
      if values \<noteq> [] then Some (assign_param prm values)
      else case bp_default prm of None \<Rightarrow> None | Some d \<Rightarrow> Some (assign_param prm [d]))"

text \<open>The text that is decoded into a field that is not a slice.\<close>

definition param_text :: "source \<Rightarrow> bind_param \<Rightarrow> string" where
  "param_text src prm =
     (case source_values src prm of v # _ \<Rightarrow> v | [] \<Rightarrow> (case bp_default prm of None \<Rightarrow> [] | Some d \<Rightarrow> d))"

type_synonym dest = "nat list \<Rightarrow> bval"

definition param_error :: "bind_param \<Rightarrow> string \<Rightarrow> field_error" where
  "param_error prm msg = \<lparr>fe_field = loc_name (bp_in prm) @ ''.'' @ bp_name prm, fe_rule = ''type'', fe_param = [], fe_message = msg\<rparr>"

definition bind_step :: "source \<Rightarrow> bind_param \<Rightarrow> dest \<times> field_error list \<Rightarrow> dest \<times> field_error list" where
  "bind_step src prm acc =
     (let dst = (fst acc)(bp_index prm := zero_value (bp_type prm)) in
      case param_result src prm of
        None \<Rightarrow> (dst, snd acc)
      | Some (Inl msg) \<Rightarrow> (dst(bp_index prm := bp_left prm (param_text src prm)), snd acc @ [param_error prm msg])
      | Some (Inr x) \<Rightarrow> (dst(bp_index prm := x), snd acc))"

definition unknown_error :: "bind_lib \<Rightarrow> string \<Rightarrow> field_error" where
  "unknown_error L name =
     \<lparr>fe_field = ''query.'' @ name, fe_rule = ''unknown'', fe_param = [],
      fe_message = ''unknown query parameter '' @ bl_quote L name\<rparr>"

definition query_names :: "bind_plan \<Rightarrow> string list" where
  "query_names p = map bp_name (filter (\<lambda>prm. bp_in prm = InQuery) (pl_params p))"

definition unknown_errors :: "bind_lib \<Rightarrow> bind_plan \<Rightarrow> source \<Rightarrow> field_error list" where
  "unknown_errors L p src =
     (if pl_strict p
      then map (unknown_error L) (sort (filter (\<lambda>n. n \<notin> set (query_names p)) (map fst (so_query src)))) else [])"

text \<open>\<open>Plan.Bind\<close>: the filled value, and the errors, empty when it succeeds.\<close>

definition bind_params :: "bind_lib \<Rightarrow> bind_plan \<Rightarrow> dest \<Rightarrow> source \<Rightarrow> dest \<times> field_error list" where
  "bind_params L p dst src =
     (case fold (bind_step src) (pl_params p) (dst, []) of (dst', errs) \<Rightarrow> (dst', errs @ unknown_errors L p src))"

section \<open>Parameters are bound exactly\<close>

text \<open>The index paths of a compiled plan are distinct.\<close>

lemma make_param_index: "make_param L f index l name = Inr prm \<Longrightarrow> bp_index prm = index"
  by (auto simp: make_param_def Let_def split: sum.splits option.splits)

lemma make_param_fields:
  "make_param L f index l name = Inr prm \<Longrightarrow>
     bp_type prm = bf_type f \<and> bp_in prm = l \<and> bp_name prm = (if l = InHeader then canonical_key name else name)"
  by (auto simp: make_param_def Let_def split: sum.splits option.splits)

text \<open>Below a position: the index path continues the path of the struct with an index from \<open>i\<close> on.\<close>

definition below :: "nat list \<Rightarrow> nat \<Rightarrow> nat list \<Rightarrow> bool" where
  "below pre i idx \<longleftrightarrow> (\<exists>j rest. i \<le> j \<and> idx = pre @ j # rest)"

lemma below_later: "below pre (i + 1) idx \<Longrightarrow> below pre i idx"
  unfolding below_def by (metis Suc_eq_plus1 Suc_leD)

lemma below_inner: "below (pre @ [i]) 0 idx \<Longrightarrow> below pre i idx \<and> \<not> below pre (i + 1) idx"
  unfolding below_def by auto

lemma below_here: "below pre i (pre @ [i]) \<and> \<not> below pre (i + 1) (pre @ [i])"
  unfolding below_def by auto

lemma collect_indices:
  "collect L pre i fs p = Inr p' \<Longrightarrow>
     \<exists>new. pl_params p' = pl_params p @ new \<and> distinct (map bp_index new) \<and> (\<forall>prm \<in> set new. below pre i (bp_index prm))"
proof (induction L pre i fs p arbitrary: p' rule: collect.induct)
  case (2 L pre i f fs p)
  have later: ?case if "\<exists>new. pl_params p' = pl_params p @ new \<and> distinct (map bp_index new) \<and>
      (\<forall>prm \<in> set new. below pre (i + 1) (bp_index prm))"
    using that below_later by blast
  show ?case
  proof (cases "is_strict_marker f")
    case True
    with "2.prems" "2.IH"(1) [OF refl True, of p'] show ?thesis by (intro later) simp
  next
    case ns: False
    show ?thesis
    proof (cases "param_tag f")
      case None
      show ?thesis
      proof (cases "if bf_anonymous f then (case bf_type f of BStruct gs \<Rightarrow> Some gs | _ \<Rightarrow> None) else None")
        case (Some gs)
        with "2.prems" ns None obtain p1 where p1: "collect L (pre @ [i]) 0 gs p = Inr p1" "collect L pre (i + 1) fs p1 = Inr p'"
          by (auto simp: Let_def split: sum.splits)
        from "2.IH"(3) [OF refl ns None Some p1(1)] obtain new1 where n1: "pl_params p1 = pl_params p @ new1"
          "distinct (map bp_index new1)" "\<forall>prm \<in> set new1. below (pre @ [i]) 0 (bp_index prm)" by blast
        from "2.IH"(4) [OF refl ns None Some p1] obtain new2 where n2: "pl_params p' = pl_params p1 @ new2"
          "distinct (map bp_index new2)" "\<forall>prm \<in> set new2. below pre (i + 1) (bp_index prm)" by blast
        have in1: "below pre i (bp_index q) \<and> \<not> below pre (i + 1) (bp_index q)" if "q \<in> set new1" for q
          using below_inner n1(3) that by blast
        have in2: "below pre i (bp_index q) \<and> below pre (i + 1) (bp_index q)" if "q \<in> set new2" for q
          using below_later n2(3) that by blast
        have disj: "bp_index ` set new1 \<inter> bp_index ` set new2 = {}"
        proof (rule ccontr)
          assume "bp_index ` set new1 \<inter> bp_index ` set new2 \<noteq> {}"
          then obtain a b where "a \<in> set new1" "b \<in> set new2" "bp_index a = bp_index b" by blast
          with in1 [of a] in2 [of b] show False by simp
        qed
        have "pl_params p' = pl_params p @ (new1 @ new2)" using n1(1) n2(1) by simp
        moreover have "distinct (map bp_index (new1 @ new2))" using n1(2) n2(2) disj by simp
        moreover have "\<forall>q \<in> set (new1 @ new2). below pre i (bp_index q)" using in1 in2 by (simp add: ball_Un)
        ultimately show ?thesis by blast
      next
        case nn: None
        let ?q = "if \<not> bf_exported f then p
          else if bf_name f = ''Body'' \<and> pre = [] then p\<lparr>pl_body := Some (pre @ [i])\<rparr>
          else if tag_get (bf_tags f) ''json'' \<noteq> ''-'' then p\<lparr>pl_body_fields := True\<rparr> else p"
        have "collect L pre (i + 1) fs ?q = Inr p'" using "2.prems" ns None nn by (simp add: Let_def)
        from "2.IH"(2) [OF refl ns None nn this] show ?thesis by (intro later) (auto split: if_splits)
      qed
    next
      case (Some ln)
      obtain l name where ln: "ln = (l, name)" by (cases ln)
      show ?thesis
      proof (cases "bf_exported f")
        case False
        with "2.prems" ns Some ln have "collect L pre (i + 1) fs p = Inr p'" by (simp add: Let_def)
        from "2.IH"(5) [OF refl ns Some ln [symmetric] _ this] False show ?thesis by (intro later) simp
      next
        case True
        with "2.prems" ns Some ln obtain prm where prm: "make_param L f (pre @ [i]) l name = Inr prm"
          "collect L pre (i + 1) fs (p\<lparr>pl_params := pl_params p @ [prm]\<rparr>) = Inr p'"
          by (auto simp: Let_def split: sum.splits)
        from "2.IH"(6) [OF refl ns Some ln [symmetric] _ prm] True obtain new where new: "pl_params p' = pl_params p @ prm # new"
          "distinct (map bp_index new)" "\<forall>q \<in> set new. below pre (i + 1) (bp_index q)" by auto
        have "bp_index prm = pre @ [i]" using prm(1) by (rule make_param_index)
        then have here: "below pre i (bp_index prm)" "\<not> below pre (i + 1) (bp_index prm)" using below_here [of pre i] by simp_all
        have "distinct (map bp_index (prm # new))" using new(2,3) here(2) by force
        moreover have "\<forall>q \<in> set (prm # new). below pre i (bp_index q)" using new(3) here(1) below_later by auto
        ultimately show ?thesis using new(1) by blast
      qed
    qed
  qed
qed simp

lemma compiled_distinct: "binding_compile L t = Inr p \<Longrightarrow> distinct (map bp_index (pl_params p))"
  by (auto simp: binding_compile_def split: btype.splits dest!: collect_indices)

text \<open>The value a field ends with, whatever it held before, and the error it is reported with.\<close>

definition bound_value :: "source \<Rightarrow> bind_param \<Rightarrow> bval" where
  "bound_value src prm =
     (case param_result src prm of
        Some (Inr x) \<Rightarrow> x
      | Some (Inl _) \<Rightarrow> bp_left prm (param_text src prm)
      | None \<Rightarrow> zero_value (bp_type prm))"

definition bind_failure :: "source \<Rightarrow> bind_param \<Rightarrow> field_error option" where
  "bind_failure src prm = (case param_result src prm of Some (Inl msg) \<Rightarrow> Some (param_error prm msg) | _ \<Rightarrow> None)"

lemma bind_step_effect:
  "bind_step src prm (dst, errs) =
     (dst(bp_index prm := bound_value src prm), errs @ (case bind_failure src prm of None \<Rightarrow> [] | Some e \<Rightarrow> [e]))"
  by (auto simp: bind_step_def bound_value_def bind_failure_def Let_def split: option.splits sum.splits)

lemma fold_bind_steps:
  assumes "distinct (map bp_index ps)"
  shows "\<exists>dst'. fold (bind_step src) ps (dst, errs) = (dst', errs @ List.map_filter (bind_failure src) ps) \<and>
     (\<forall>prm \<in> set ps. dst' (bp_index prm) = bound_value src prm) \<and> (\<forall>idx. idx \<notin> bp_index ` set ps \<longrightarrow> dst' idx = dst idx)"
  using assms
proof (induction ps arbitrary: dst errs)
  case (Cons q ps)
  let ?dst = "dst(bp_index q := bound_value src q)"
  let ?errs = "errs @ (case bind_failure src q of None \<Rightarrow> [] | Some e \<Rightarrow> [e])"
  have "distinct (map bp_index ps)" using Cons.prems by simp
  from Cons.IH [OF this, of ?dst ?errs] obtain dst' where
    d: "fold (bind_step src) ps (?dst, ?errs) = (dst', ?errs @ List.map_filter (bind_failure src) ps)"
    "\<forall>prm \<in> set ps. dst' (bp_index prm) = bound_value src prm" "\<forall>idx. idx \<notin> bp_index ` set ps \<longrightarrow> dst' idx = ?dst idx" by blast
  have "bp_index q \<notin> bp_index ` set ps" using Cons.prems by simp
  then have "dst' (bp_index q) = bound_value src q" using d(3) by simp
  then show ?case using d
    by (intro exI [of _ dst']) (auto simp: bind_step_effect List.map_filter_simps split: option.splits)
qed (simp add: List.map_filter_simps)

text \<open>C31: Binding parameters is exact. Every parameter field ends with the value its own source determines: the decoded
  parameter, else the decoded default, else zero, or what the decoder leaves when it fails. What it held before has no influence, so a request body can never
  smuggle in a path, query, header or cookie parameter; no other field is touched. The errors are those of
  the parameters that do not decode, in order, then, for strict inputs, the undeclared query parameters in
  alphabetical order.\<close>

theorem binding_exact:
  assumes "binding_compile L t = Inr p" and "bind_params L p dst src = (dst', errs)"
  shows "(\<forall>prm \<in> set (pl_params p). dst' (bp_index prm) = bound_value src prm) \<and>
    (\<forall>idx. idx \<notin> bp_index ` set (pl_params p) \<longrightarrow> dst' idx = dst idx) \<and>
    errs = List.map_filter (bind_failure src) (pl_params p) @ unknown_errors L p src"
  using fold_bind_steps [OF compiled_distinct [OF assms(1)], of src dst "[]"] assms(2) by (auto simp: bind_params_def)

definition sample_bind_lib :: bind_lib where
  "sample_bind_lib = \<lparr>bl_float = (\<lambda>_ _. None), bl_duration = (\<lambda>_. None), bl_time = (\<lambda>_ _. None), bl_text = (\<lambda>_ _. None),
     bl_text_left = (\<lambda>_ _. BVZero), bl_quote = id\<rparr>"

definition sample_input :: btype where
  "sample_input = BStruct [BField ''ID'' (BInt 64) True False [(''path'', ''id'')],
     BField ''Tags'' (BSlice BString) True False [(''query'', ''tag,comma'')], BField ''Name'' BString True False []]"

definition sample_source :: source where
  "sample_source = \<lparr>so_path = [''id'' \<mapsto> ''7''], so_query = [(''tag'', [''a,b''])], so_header = (\<lambda>_. []), so_cookie = Map.empty\<rparr>"

definition sample_plan :: bind_plan where
  "sample_plan = \<lparr>pl_params =
     [\<lparr>bp_name = ''id'', bp_in = InPath, bp_index = [0], bp_type = BInt 64, bp_default = None, bp_multi = False, bp_comma = False,
       bp_decode = (\<lambda>s. or_message ''must be an integer'' BVInt (parse_int 64 s)), bp_left = (\<lambda>_. BVInt 0)\<rparr>,
      \<lparr>bp_name = ''tag'', bp_in = InQuery, bp_index = [1], bp_type = BSlice BString, bp_default = None, bp_multi = True, bp_comma = True,
       bp_decode = (\<lambda>s. Inr (BVString s)), bp_left = (\<lambda>_. BVSlice None)\<rparr>],
     pl_body = None, pl_strict = False, pl_body_fields = True\<rparr>"

lemma sample_compiles: "binding_compile sample_bind_lib sample_input = Inr sample_plan"
  by (simp add: binding_compile_def sample_input_def sample_plan_def is_strict_marker_def param_tag_def make_param_def tag_options_def
      is_multi_def element_of_def field_decoder_def tag_get_def left_by_def Let_def fun_eq_iff)

theorem binding_exact_witness:
  "fst (bind_params sample_bind_lib sample_plan (\<lambda>_. BVString ''forged'') sample_source) [0] = BVInt 7"
proof -
  have n: "atoi ''7'' = Some 7" by code_simp
  let ?p = "hd (pl_params sample_plan)"
  have "?p \<in> set (pl_params sample_plan)" "bp_index ?p = [0]" by (simp_all add: sample_plan_def)
  with binding_exact [OF sample_compiles, of "\<lambda>_. BVString ''forged''" sample_source, OF surjective_pairing]
  have "fst (bind_params sample_bind_lib sample_plan (\<lambda>_. BVString ''forged'') sample_source) [0] = bound_value sample_source ?p" by metis
  also have "\<dots> = BVInt 7"
    by (simp add: bound_value_def param_result_def source_values_def sample_plan_def sample_source_def assign_param_def
        or_message_def parse_int_def n)
  finally show ?thesis .
qed

text \<open>An integer of the field's width is read back from its decimal form.\<close>

lemma parse_int_range: "parse_int bits s = Some n \<Longrightarrow> - (2 ^ (bits - 1)) \<le> n \<and> n < 2 ^ (bits - 1)"
  by (auto simp: parse_int_def split: option.splits if_splits)

text \<open>A default for a field that splits at commas is checked unsplit at compile time, so a list of integers cannot have one
  although binding would split it.\<close>

lemma comma_default_rejected:
  "make_param L (BField ''IDs'' (BSlice (BInt 64)) True False [(''query'', ''id,comma''), (''default'', ''1,2'')]) [0] InQuery ''id'' =
     Inl (BadDefault ''IDs'' ''1,2'')"
proof -
  have "atoi ''1,2'' = None" by code_simp
  then show ?thesis
    by (simp add: make_param_def tag_options_def is_multi_def field_decoder_def element_of_def Let_def parse_int_def or_message_def)
qed

end
