(* ===== verification/BindRequest.thy ===== *)
theory BindRequest
  imports Complex_Main Binding Errors
begin

text \<open>
  \<open>bind.go\<close>: \<open>Bind\<close>, \<open>BindJSON\<close> and \<open>BindFormValues\<close> of the context: the body, then the parameters, then the validator.
  What decoding a body does to the value, the classification of its errors, \<open>mime.ParseMediaType\<close> and the
  validator are parameters; an error of the validator that is not a list of field errors is passed on.
\<close>

section \<open>Media types\<close>

definition token_byte :: "char \<Rightarrow> bool" where
  "token_byte c \<longleftrightarrow> 33 \<le> char_code c \<and> char_code c \<le> 126 \<and> c \<notin> set ''()<>@,;:/[]?={}'' \<and> char_code c \<noteq> 92 \<and> char_code c \<noteq> 34"

text \<open>The loop over the bytes of the media type: the position of the slash, or a refusal.\<close>

fun slash_scan :: "string \<Rightarrow> nat \<Rightarrow> nat option \<Rightarrow> nat option option" where
  "slash_scan [] i slash = Some slash"
| "slash_scan (c # cs) i slash =
     (if c = CHR ''/'' then (if slash \<noteq> None then None else slash_scan cs (i + 1) (Some i))
      else if \<not> token_byte c then None else slash_scan cs (i + 1) slash)"

definition simple_media_type :: "string \<Rightarrow> string option" where
  "simple_media_type ct =
     (case cut_at CHR '';'' ct of (mt0, params, has_params) \<Rightarrow>
        let mt = trim_space mt0 in
        if has_params \<and> \<not> equal_fold (trim_space params) ''charset=utf-8'' then None
        else case slash_scan mt 0 None of
          Some (Some slash) \<Rightarrow> if slash = 0 \<or> slash + 1 = length mt then None else Some mt
        | _ \<Rightarrow> None)"

definition base_media_type :: "(string \<Rightarrow> string option) \<Rightarrow> string \<Rightarrow> string" where
  "base_media_type mime ct =
     (case simple_media_type ct of Some mt \<Rightarrow> mt | None \<Rightarrow> (case mime ct of None \<Rightarrow> ct | Some mt \<Rightarrow> mt))"

definition content_type_matches :: "(string \<Rightarrow> string option) \<Rightarrow> string \<Rightarrow> string \<Rightarrow> bool" where
  "content_type_matches mime got want \<longleftrightarrow>
     (let g = base_media_type mime got; w = base_media_type mime want in
      equal_fold g w \<or>
      (equal_fold w ''application/json'' \<and> length g \<ge> 5 \<and> equal_fold (drop (length g - 5) g) ''+json''))"

section \<open>Decoding a body\<close>

datatype bind_details = FieldErrors "field_error list" | UnknownField string

type_synonym bind_go_error = "bind_details go_error"

datatype decode_failure =
    TooLarge int | WrongType string gtype | BadSyntax | UnexpectedEnd | TrailingData | UnknownJSONField string | OtherFailure

datatype decode_outcome = Decoded | EndOfInput | Failed decode_failure

text \<open>\<open>name\<close> is the name reflection gives a type.\<close>

definition json_type_name :: "(gtype \<Rightarrow> string) \<Rightarrow> gtype \<Rightarrow> string" where
  "json_type_name name t =
     (case t of
        TString \<Rightarrow> ''a string''
      | TBool \<Rightarrow> ''a boolean''
      | TInt \<Rightarrow> ''an integer''
      | TDuration \<Rightarrow> ''an integer''
      | TUint \<Rightarrow> ''an integer''
      | TFloat \<Rightarrow> ''a number''
      | TSlice _ \<Rightarrow> ''an array''
      | TArray _ \<Rightarrow> ''an array''
      | TMap _ \<Rightarrow> ''an object''
      | TStruct _ \<Rightarrow> ''an object''
      | _ \<Rightarrow> ''a '' @ name t)"

definition invalid_json :: "string \<Rightarrow> bind_go_error" where
  "invalid_json msg = new_error 400 ''INVALID_JSON'' msg"

definition decode_error :: "(int \<Rightarrow> string) \<Rightarrow> (gtype \<Rightarrow> string) \<Rightarrow> decode_failure \<Rightarrow> bind_go_error" where
  "decode_error num name f =
     (case f of
        TooLarge n \<Rightarrow> as_error num (MaxBytesError n)
      | WrongType field t \<Rightarrow>
          as_error num (ValidationErrors (FieldErrors
            [\<lparr>fe_field = (if field = [] then ''body'' else field), fe_rule = ''type'', fe_param = [],
              fe_message = ''must be '' @ json_type_name name t\<rparr>]))
      | BadSyntax \<Rightarrow> with_cause (invalid_json ''Request body is not valid JSON'') (Opaque ''syntax'')
      | UnexpectedEnd \<Rightarrow> with_cause (invalid_json ''Request body is not valid JSON'') (Opaque ''unexpected EOF'')
      | TrailingData \<Rightarrow> with_cause (invalid_json ''Request body is not valid JSON'') (Opaque ''trailing data'')
      | UnknownJSONField field \<Rightarrow>
          with_cause (with_details (invalid_json ''Request body contains an unknown field'') (UnknownField field)) (Opaque field)
      | OtherFailure \<Rightarrow> with_cause (invalid_json ''Request body could not be decoded'') (Opaque ''decode''))"

record body_lib =
  by_json :: bool
  by_type :: string
  by_mime :: "string \<Rightarrow> string option"
  by_num :: "int \<Rightarrow> string"
  by_name :: "gtype \<Rightarrow> string"
  by_quote :: "string \<Rightarrow> string"

text \<open>A request body: whether there is one, its content type, how decoding ends (given whether unknown fields are refused),
  and what decoding writes, even when it fails.\<close>

record body_request =
  br_present :: bool
  br_type :: string
  br_outcome :: "bool \<Rightarrow> decode_outcome"
  br_fill :: "dest \<Rightarrow> dest"

definition decode_body :: "body_lib \<Rightarrow> bool \<Rightarrow> body_request \<Rightarrow> dest \<Rightarrow> bool \<times> bind_go_error option \<times> dest" where
  "decode_body Y strict rq dst =
     (if \<not> br_present rq then (False, None, dst)
      else if br_type rq \<noteq> [] \<and> \<not> content_type_matches (by_mime Y) (br_type rq) (by_type Y) then
        (False, Some (new_error 415 ''UNSUPPORTED_MEDIA_TYPE''
           (''Content-Type '' @ by_quote Y (br_type rq) @ '' is not supported; send '' @ base_media_type (by_mime Y) (by_type Y))), dst)
      else case br_outcome rq (strict \<and> by_json Y) of
        Decoded \<Rightarrow> (True, None, br_fill rq dst)
      | EndOfInput \<Rightarrow> (False, None, br_fill rq dst)
      | Failed f \<Rightarrow> (True, Some (decode_error (by_num Y) (by_name Y) f), br_fill rq dst))"

section \<open>Bind\<close>

text \<open>The verdict of the application's validator on the filled value.\<close>

datatype validator_verdict = Accepted | FieldFailures "field_error list" | OtherFailureOf bind_go_error

definition context_validate :: "(int \<Rightarrow> string) \<Rightarrow> (dest \<Rightarrow> validator_verdict) \<Rightarrow> dest \<Rightarrow> bind_go_error option" where
  "context_validate num val dst =
     (case val dst of
        Accepted \<Rightarrow> None
      | FieldFailures es \<Rightarrow> Some (as_error num (ValidationErrors (FieldErrors es)))
      | OtherFailureOf e \<Rightarrow> Some e)"

text \<open>\<open>bindPlan\<close>. Where the body goes is decided by the plan; the fill of the request is into that target.\<close>

definition context_bind_plan ::
  "bind_lib \<Rightarrow> body_lib \<Rightarrow> bind_plan \<Rightarrow> body_request \<Rightarrow> source \<Rightarrow> dest \<Rightarrow> bind_go_error option \<times> dest" where
  "context_bind_plan L Y p rq src dst =
     (case (if body_target p \<noteq> NoBody then snd (decode_body Y (pl_strict p) rq dst) else (None, dst)) of
        (Some e, dst1) \<Rightarrow> (Some e, dst1)
      | (None, dst1) \<Rightarrow>
          if pl_params p \<noteq> [] \<or> pl_strict p then
            (case bind_params L p dst1 src of
               (dst2, errs) \<Rightarrow>
                 (if errs \<noteq> [] then Some (as_error (by_num Y) (ValidationErrors (FieldErrors errs))) else None, dst2))
          else (None, dst1))"

definition context_bind ::
  "bind_lib \<Rightarrow> body_lib \<Rightarrow> (dest \<Rightarrow> validator_verdict) \<Rightarrow> bind_plan \<Rightarrow> body_request \<Rightarrow> source \<Rightarrow> dest \<Rightarrow> bind_go_error option \<times> dest" where
  "context_bind L Y val p rq src dst =
     (case context_bind_plan L Y p rq src dst of
        (Some e, dst1) \<Rightarrow> (Some e, dst1)
      | (None, dst1) \<Rightarrow> (context_validate (by_num Y) val dst1, dst1))"

text \<open>\<open>BindJSON\<close>; \<open>strict\<close> is whether the target embeds the marker.\<close>

definition bind_json :: "body_lib \<Rightarrow> (dest \<Rightarrow> validator_verdict) \<Rightarrow> bool \<Rightarrow> body_request \<Rightarrow> dest \<Rightarrow> bind_go_error option \<times> dest" where
  "bind_json Y val strict rq dst =
     (case decode_body Y (strict \<and> by_json Y) rq dst of
        (_, Some e, dst1) \<Rightarrow> (Some e, dst1)
      | (present, None, dst1) \<Rightarrow>
          if \<not> present then (Some (new_error 400 ''BAD_REQUEST'' ''Request body is required''), dst1)
          else (context_validate (by_num Y) val dst1, dst1))"

definition form_source :: "(string \<times> string list) list \<Rightarrow> source" where
  "form_source values = \<lparr>so_path = Map.empty, so_query = values, so_header = (\<lambda>_. []), so_cookie = Map.empty\<rparr>"

definition bind_form_values ::
  "bind_lib \<Rightarrow> body_lib \<Rightarrow> (dest \<Rightarrow> validator_verdict) \<Rightarrow> bind_plan \<Rightarrow> (string \<times> string list) list \<Rightarrow> dest \<Rightarrow> bind_go_error option \<times> dest" where
  "bind_form_values L Y val p values dst =
     (case bind_params L p dst (form_source values) of
        (dst1, errs) \<Rightarrow>
          if errs \<noteq> [] then (Some (as_error (by_num Y) (ValidationErrors (FieldErrors errs))), dst1)
          else (context_validate (by_num Y) val dst1, dst1))"

text \<open>\<open>contextSource.PathValue\<close>: the first parameter of the route with the name.\<close>

fun path_value :: "string list \<Rightarrow> string list \<Rightarrow> string \<Rightarrow> string option" where
  "path_value (n # ns) (v # vs) name = (if n = name then Some v else path_value ns vs name)"
| "path_value _ _ name = None"

section \<open>Outcomes\<close>

lemma decode_error_status:
  "\<exists>s c m d mt cause. decode_error num name f = AppError s c m d mt cause \<and> s \<in> {400, 413, 422}"
  by (cases f) (auto simp: decode_error_def invalid_json_def new_error_def as_error_def is_validation_def is_max_bytes_def)

lemma validation_error_status:
  "\<exists>c m d mt cause. as_error num (ValidationErrors es) = AppError 422 c m d mt cause"
  by (simp add: as_error_def is_validation_def)

definition client_error :: "bind_go_error \<Rightarrow> bool" where
  "client_error e \<longleftrightarrow> is_app e \<and> ae_status e \<in> {400, 413, 415, 422}"

lemma decode_body_error:
  "decode_body Y strict rq dst = (present, Some e, dst') \<Longrightarrow> client_error e"
  using decode_error_status [of "by_num Y" "by_name Y"]
  by (auto simp: decode_body_def client_error_def new_error_def split: if_splits decode_outcome.splits) (metis go_error.sel(1) is_app_simps(1))+

lemma validation_client_error: "client_error (as_error num (ValidationErrors es))"
  using validation_error_status [of num es] by (auto simp: client_error_def)

lemma bind_plan_outcome:
  assumes "binding_compile L t = Inr p" "context_bind_plan L Y p rq src dst = (r, dst')"
  shows "(case r of
      Some e \<Rightarrow> client_error e
    | None \<Rightarrow> (\<forall>prm \<in> set (pl_params p). dst' (bp_index prm) = bound_value src prm \<and> bind_failure src prm = None) \<and>
        (pl_strict p \<longrightarrow> fst ` set (so_query src) \<subseteq> set (query_names p)))"
proof -
  obtain r1 dst1 where b: "(if body_target p \<noteq> NoBody then snd (decode_body Y (pl_strict p) rq dst) else (None, dst)) = (r1, dst1)"
    by (cases "if body_target p \<noteq> NoBody then snd (decode_body Y (pl_strict p) rq dst) else (None, dst)")
  have "client_error e" if "r1 = Some e" for e
    using b that decode_body_error [of Y "pl_strict p" rq dst] by (auto split: if_splits) (metis prod.collapse)
  moreover have ?thesis if r1: "r1 = None"
  proof (cases "pl_params p \<noteq> [] \<or> pl_strict p")
    case True
    obtain dst2 errs where d: "bind_params L p dst1 src = (dst2, errs)" by (cases "bind_params L p dst1 src")
    from assms(2) b r1 True d have r: "r = (if errs \<noteq> [] then Some (as_error (by_num Y) (ValidationErrors (FieldErrors errs))) else None)" "dst' = dst2"
      by (auto simp: context_bind_plan_def)
    obtain dst3 where s: "fold (bind_step src) (pl_params p) (dst1, []) = (dst3, List.map_filter (bind_failure src) (pl_params p))"
      "\<forall>prm \<in> set (pl_params p). dst3 (bp_index prm) = bound_value src prm"
      using fold_bind_steps [OF compiled_distinct [OF assms(1)], of src dst1 "[]"] by auto
    with d have e: "dst2 = dst3" "errs = List.map_filter (bind_failure src) (pl_params p) @ unknown_errors L p src"
      by (simp_all add: bind_params_def)
    show ?thesis
    proof (cases "errs = []")
      case True
      then have none: "List.map_filter (bind_failure src) (pl_params p) = []" "unknown_errors L p src = []" using e(2) by simp_all
      have "bind_failure src prm = None" if "prm \<in> set (pl_params p)" for prm
        using none(1) that by (auto simp: List.map_filter_def filter_empty_conv)
      moreover have "pl_strict p \<longrightarrow> fst ` set (so_query src) \<subseteq> set (query_names p)"
      proof
        assume "pl_strict p"
        with none(2) have "set (sort (filter (\<lambda>n. n \<notin> set (query_names p)) (map fst (so_query src)))) = {}"
          by (simp add: unknown_errors_def)
        then show "fst ` set (so_query src) \<subseteq> set (query_names p)" unfolding set_sort by auto
      qed
      ultimately show ?thesis using True r e(1) s(2) by simp
    next
      case False
      then show ?thesis using r validation_client_error by simp
    qed
  next
    case False
    with assms(2) b r1 show ?thesis by (simp add: context_bind_plan_def)
  qed
  ultimately show ?thesis using assms(2) b by (cases r1) (auto simp: context_bind_plan_def)
qed

text \<open>C32: The outcome of Bind. When it succeeds, the validator has accepted the final value, every parameter field holds what
  its own source determines whatever the body contained, every parameter decoded, and a strict input had
  no undeclared query parameter. When it fails, the error is a structured one with status 400, 413, 415 or
  422, or the validator's own.\<close>

theorem bind_outcome:
  assumes "binding_compile L t = Inr p" "context_bind L Y val p rq src dst = (r, dst')"
  shows "case r of
      None \<Rightarrow> val dst' = Accepted \<and>
        (\<forall>prm \<in> set (pl_params p). dst' (bp_index prm) = bound_value src prm \<and> bind_failure src prm = None) \<and>
        (pl_strict p \<longrightarrow> fst ` set (so_query src) \<subseteq> set (query_names p))
    | Some e \<Rightarrow> client_error e \<or> val dst' = OtherFailureOf e"
proof -
  obtain r1 dst1 where b: "context_bind_plan L Y p rq src dst = (r1, dst1)" by (cases "context_bind_plan L Y p rq src dst")
  note o1 = bind_plan_outcome [OF assms(1) b]
  show ?thesis
  proof (cases r1)
    case (Some e)
    with assms(2) b have "r = Some e" by (simp add: context_bind_def)
    with Some o1 show ?thesis by simp
  next
    case None
    with assms(2) b have "r = context_validate (by_num Y) val dst1" "dst' = dst1" by (auto simp: context_bind_def)
    then show ?thesis using None o1 validation_client_error
      by (cases "val dst1") (simp_all add: context_validate_def)
  qed
qed

definition sample_body_lib :: body_lib where
  "sample_body_lib = \<lparr>by_json = True, by_type = ''application/json; charset=utf-8'', by_mime = (\<lambda>_. None), by_num = dec_int, by_name = (\<lambda>_. []), by_quote = id\<rparr>"

text \<open>The body names the path parameter and sets it to another value; the path wins.\<close>

theorem bind_outcome_witness:
  "\<exists>dst'. context_bind sample_bind_lib sample_body_lib (\<lambda>_. Accepted) sample_plan
      \<lparr>br_present = True, br_type = [], br_outcome = (\<lambda>_. Decoded), br_fill = (\<lambda>d. d([0] := BVInt 666))\<rparr> sample_source (\<lambda>_. BVZero) =
      (None, dst') \<and> dst' [0] = BVInt 7"
proof -
  let ?rq = "\<lparr>br_present = True, br_type = [], br_outcome = (\<lambda>_. Decoded), br_fill = (\<lambda>d. d([0] := BVInt 666))\<rparr>"
  have n: "atoi ''7'' = Some 7" by code_simp
  have v: "bound_value sample_source (hd (pl_params sample_plan)) = BVInt 7"
    by (simp add: bound_value_def param_result_def source_values_def sample_plan_def sample_source_def assign_param_def
        or_message_def parse_int_def n)
  let ?res = "context_bind sample_bind_lib sample_body_lib (\<lambda>_. Accepted) sample_plan ?rq sample_source (\<lambda>_. BVZero)"
  have ok: "fst ?res = None"
    by (simp add: context_bind_def context_bind_plan_def decode_body_def bind_params_def sample_plan_def sample_source_def bind_step_def
        param_result_def source_values_def assign_param_def or_message_def parse_int_def n query_get_def unknown_errors_def
        context_validate_def Let_def)
  obtain dst' where res: "?res = (None, dst')" using ok by (cases ?res) simp
  from bind_outcome [OF sample_compiles this] have "dst' (bp_index (hd (pl_params sample_plan))) = bound_value sample_source (hd (pl_params sample_plan))"
    by (simp add: sample_plan_def)
  then have "dst' [0] = BVInt 7" unfolding v by (simp add: sample_plan_def)
  with res show ?thesis by blast
qed

text \<open>The shortcut for media types: a type and a subtype, both non-empty and made of token bytes, around one slash.\<close>

lemma slash_scan_second: "slash_scan cs i (Some a) = Some r \<longleftrightarrow> r = Some a \<and> list_all token_byte cs"
  by (induction cs arbitrary: i) (auto simp: token_byte_def)

lemma simple_media_type_sound:
  "slash_scan mt i None = Some (Some j) \<Longrightarrow>
     \<exists>a b. mt = a @ CHR ''/'' # b \<and> list_all token_byte a \<and> list_all token_byte b \<and> j = i + length a"
proof (induction mt arbitrary: i)
  case (Cons c cs)
  show ?case
  proof (cases "c = CHR ''/''")
    case True
    with Cons.prems have "j = i" "list_all token_byte cs" by (auto simp: slash_scan_second)
    with True show ?thesis by (intro exI [of _ "[]"] exI [of _ cs]) simp
  next
    case False
    with Cons.prems have "token_byte c" "slash_scan cs (i + 1) None = Some (Some j)" by (auto split: if_splits)
    with Cons.IH [of "i + 1"] obtain a b where "cs = a @ CHR ''/'' # b" "list_all token_byte a" "list_all token_byte b" "j = i + 1 + length a"
      by blast
    with \<open>token_byte c\<close> show ?thesis by (intro exI [of _ "c # a"] exI [of _ b]) simp
  qed
qed simp

end
