(* ===== verification/Health.thy ===== *)
theory Health
  imports Lifecycle
begin

text \<open>
  \<open>health.go\<close>: registration and evaluation of health checks and the endpoints, and \<open>module.go\<close> with the registry of
  services of \<open>infra.go\<close>. How long a check runs and how it ends is a parameter; \<open>None\<close> is a check that never returns. When a
  check ends exactly at its timeout, Go's \<open>select\<close> may take either branch; the model takes the timeout.
\<close>

section \<open>Configuration\<close>

record health_config =
  hc_live :: string
  hc_ready :: string
  hc_health :: string
  hc_timeout :: duration

definition health_defaults :: "health_config option \<Rightarrow> health_config" where
  "health_defaults c0 =
     (let c = (case c0 of None \<Rightarrow> \<lparr>hc_live = [], hc_ready = [], hc_health = [], hc_timeout = 0\<rparr> | Some c \<Rightarrow> c) in
      \<lparr>hc_live = (if hc_live c = [] then ''/live'' else hc_live c),
       hc_ready = (if hc_ready c = [] then ''/ready'' else hc_ready c),
       hc_health = (if hc_health c = [] then ''/health'' else hc_health c),
       hc_timeout = (if hc_timeout c = 0 then 5 * 1000000000 else hc_timeout c)\<rparr>)"

definition health_paths :: "health_config \<Rightarrow> string list" where
  "health_paths c = filter (\<lambda>p. p \<noteq> ''-'') [hc_live c, hc_ready c, hc_health c]"

section \<open>Checks\<close>

datatype probe_end = ProbeError "string option" | ProbePanic string

record health_check =
  chk_name :: string
  chk_probe :: "(duration \<times> probe_end) option"
  chk_timeout :: duration
  chk_liveness :: bool
  chk_optional :: bool

datatype health_option = CheckTimeout duration | Liveness | Optional

fun apply_health_option :: "health_option \<Rightarrow> health_check \<Rightarrow> health_check" where
  "apply_health_option (CheckTimeout d) c = c\<lparr>chk_timeout := d\<rparr>"
| "apply_health_option Liveness c = c\<lparr>chk_liveness := True\<rparr>"
| "apply_health_option Optional c = c\<lparr>chk_optional := True\<rparr>"

text \<open>\<open>HealthCheck\<close>: the registered checks and whether a diagnostic was added.\<close>

definition register_check ::
  "string \<Rightarrow> (duration \<times> probe_end) option \<Rightarrow> health_option list \<Rightarrow> health_check list \<Rightarrow> health_check list \<times> bool" where
  "register_check name probe opts checks =
     (if name \<in> chk_name ` set checks then (checks, True)
      else (checks @ [fold apply_health_option opts
              \<lparr>chk_name = name, chk_probe = probe, chk_timeout = 0, chk_liveness = False, chk_optional = False\<rparr>], False))"

record check_result =
  hr_status :: string
  hr_optional :: bool
  hr_error :: "string option"

text \<open>\<open>runCheck\<close>; the error is kept also when it is not rendered.\<close>

definition check_failure :: "health_check \<Rightarrow> duration \<Rightarrow> string option" where
  "check_failure c def_timeout =
     (let timeout = (if chk_timeout c \<le> 0 then def_timeout else chk_timeout c) in
      case chk_probe c of
        Some (d, e) \<Rightarrow>
          if d < timeout then (case e of ProbeError err \<Rightarrow> err | ProbePanic msg \<Rightarrow> Some (''health check panicked: '' @ msg))
          else Some ''health check timed out''
      | None \<Rightarrow> Some ''health check timed out'')"

definition run_check :: "health_check \<Rightarrow> duration \<Rightarrow> check_result" where
  "run_check c def_timeout =
     (let err = check_failure c def_timeout in
      \<lparr>hr_status = (if err \<noteq> None then ''down'' else ''up''), hr_optional = chk_optional c, hr_error = err\<rparr>)"

section \<open>Evaluation\<close>

datatype probe_kind = LivenessProbe | ReadinessProbe | FullReport

record health_report =
  hp_status :: string
  hp_checks :: "(string \<times> check_result) list"

text \<open>\<open>evaluate\<close>: the report and the HTTP status.\<close>

definition evaluate_health :: "health_config \<Rightarrow> bool \<Rightarrow> app_state \<Rightarrow> health_check list \<Rightarrow> probe_kind \<Rightarrow> health_report \<times> nat" where
  "evaluate_health cfg expose st checks kind =
     (if kind \<noteq> LivenessProbe \<and> (st = Starting \<or> st = Building) then (\<lparr>hp_status = ''starting'', hp_checks = []\<rparr>, 503)
      else if kind \<noteq> LivenessProbe \<and> st \<in> {Stopping, Stopped, Failed} then (\<lparr>hp_status = ''stopping'', hp_checks = []\<rparr>, 503)
      else
        let cs = filter (\<lambda>c. kind \<noteq> LivenessProbe \<or> chk_liveness c) checks;
            results = map (\<lambda>c. (c, run_check c (hc_timeout cfg))) cs;
            down = list_ex (\<lambda>(c, r). hr_status r = ''down'' \<and> \<not> chk_optional c) results
        in (\<lparr>hp_status = (if down then ''down'' else ''up''),
             hp_checks = map (\<lambda>(c, r). (chk_name c, if expose then r else r\<lparr>hr_error := None\<rparr>)) results\<rparr>,
            if down then 503 else 200))"

definition health_kind :: "health_config \<Rightarrow> string \<Rightarrow> string \<Rightarrow> probe_kind option" where
  "health_kind cfg meth path =
     (if meth \<noteq> ''GET'' \<and> meth \<noteq> ''HEAD'' then None
      else if path = hc_live cfg then Some LivenessProbe
      else if path = hc_ready cfg then Some ReadinessProbe
      else if path = hc_health cfg then Some FullReport else None)"

text \<open>The middleware: \<open>None\<close> passes the request on. Only the full report has the single checks.\<close>

definition health_middleware ::
  "health_config \<Rightarrow> bool \<Rightarrow> app_state \<Rightarrow> health_check list \<Rightarrow> string \<Rightarrow> string \<Rightarrow> (health_report \<times> nat) option" where
  "health_middleware cfg expose st checks meth path =
     (case health_kind cfg meth path of
        None \<Rightarrow> None
      | Some kind \<Rightarrow>
          (case evaluate_health cfg expose st checks kind of
             (report, status) \<Rightarrow> Some (if kind \<noteq> FullReport then report\<lparr>hp_checks := []\<rparr> else report, status)))"

section \<open>Modules and services\<close>

text \<open>What a module's \<open>Register\<close> does to the parts of the application that depend on modules: it adds routes, which are attributed to
  the current module, and registers further modules. The flag says whether it returns an error.\<close>

datatype app_module = Module (mod_name: string) (mod_acts: "module_act list") (mod_fails: bool)
  and module_act = AddsRoute string | Registers "app_module list"

datatype module_problem = DuplicateModule string | ModuleFailed string

record module_state =
  ms_names :: "string list"
  ms_current :: string
  ms_routes :: "(string \<times> string) list"
  ms_problems :: "module_problem list"

fun register_modules :: "app_module list \<Rightarrow> module_state \<Rightarrow> module_state"
  and register_module :: "app_module \<Rightarrow> module_state \<Rightarrow> module_state"
  and module_acts :: "module_act list \<Rightarrow> module_state \<Rightarrow> module_state" where
  "register_modules [] s = s"
| "register_modules (m # ms) s = register_modules ms (register_module m s)"
| "register_module (Module name acts fails) s =
     (if name \<in> set (ms_names s) then s\<lparr>ms_problems := ms_problems s @ [DuplicateModule name]\<rparr>
      else
        let s1 = module_acts acts (s\<lparr>ms_names := name # ms_names s, ms_current := name\<rparr>);
            s2 = s1\<lparr>ms_current := ms_current s\<rparr>
        in if fails then s2\<lparr>ms_problems := ms_problems s2 @ [ModuleFailed name]\<rparr> else s2)"
| "module_acts [] s = s"
| "module_acts (AddsRoute r # as) s = module_acts as (s\<lparr>ms_routes := ms_routes s @ [(r, ms_current s)]\<rparr>)"
| "module_acts (Registers ms # as) s = module_acts as (register_modules ms s)"

text \<open>\<open>Service\<close>: the registry by name; \<open>None\<close> is a nil service. The flag is a diagnostic.\<close>

definition add_service :: "string \<Rightarrow> 'v option \<Rightarrow> (string \<times> 'v) list \<Rightarrow> (string \<times> 'v) list \<times> bool" where
  "add_service name svc services =
     (case svc of
        None \<Rightarrow> (services, True)
      | Some v \<Rightarrow> if map_of services name \<noteq> None then (services, True) else (services @ [(name, v)], False))"

definition service_names :: "(string \<times> 'v) list \<Rightarrow> string list" where
  "service_names services = sort (map fst services)"

section \<open>Readiness\<close>

definition healthy :: "health_config \<Rightarrow> health_check \<Rightarrow> bool" where
  "healthy cfg c \<longleftrightarrow> chk_optional c \<or>
     (\<exists>d. chk_probe c = Some (d, ProbeError None) \<and> d < (if chk_timeout c \<le> 0 then hc_timeout cfg else chk_timeout c))"

lemma run_check_down: "hr_status (run_check c (hc_timeout cfg)) = ''down'' \<and> \<not> chk_optional c \<longleftrightarrow> \<not> healthy cfg c"
  by (auto simp: run_check_def check_failure_def healthy_def Let_def split: option.splits prod.splits probe_end.splits)

lemma down_iff:
  "list_ex (\<lambda>(c, r). hr_status r = ''down'' \<and> \<not> chk_optional c) (map (\<lambda>c. (c, run_check c (hc_timeout cfg))) cs) \<longleftrightarrow>
     \<not> list_all (healthy cfg) cs"
  by (induction cs) (auto simp: run_check_down)

text \<open>The probes. Readiness is 200 exactly when the application is running and every check that is not optional ends
  without error, panic or timeout; liveness does not depend on the state of the application and only on the
  checks registered for it; every other answer is 503.\<close>

lemma probes_exact:
  "snd (evaluate_health cfg expose st checks ReadinessProbe) = (if st = Running \<and> list_all (healthy cfg) checks then 200 else 503) \<and>
   snd (evaluate_health cfg expose st checks LivenessProbe) = (if list_all (healthy cfg) (filter chk_liveness checks) then 200 else 503)"
proof
  show "snd (evaluate_health cfg expose st checks ReadinessProbe) = (if st = Running \<and> list_all (healthy cfg) checks then 200 else 503)"
    by (cases st) (simp_all only: evaluate_health_def Let_def down_iff, simp_all)
  show "snd (evaluate_health cfg expose st checks LivenessProbe) = (if list_all (healthy cfg) (filter chk_liveness checks) then 200 else 503)"
    by (simp only: evaluate_health_def Let_def down_iff) simp
qed

text \<open>A liveness check takes part in readiness too, although the comment on \<open>HealthCheck\<close> excludes it.\<close>

lemma liveness_check_unready:
  "chk_liveness c \<Longrightarrow> \<not> healthy cfg c \<Longrightarrow> snd (evaluate_health cfg expose Running [c] ReadinessProbe) = 503"
  by (simp only: evaluate_health_def Let_def down_iff) simp

lemma register_check_distinct:
  "distinct (map chk_name checks) \<Longrightarrow> register_check name probe opts checks = (checks', dup) \<Longrightarrow> distinct (map chk_name checks')"
proof -
  have "chk_name (fold apply_health_option opts c) = chk_name c" for c
  proof (induction opts arbitrary: c)
    case (Cons o' opts)
    then show ?case by (cases o') simp_all
  qed simp
  then show "distinct (map chk_name checks) \<Longrightarrow> register_check name probe opts checks = (checks', dup) \<Longrightarrow> distinct (map chk_name checks')"
    by (auto simp: register_check_def split: if_splits)
qed

text \<open>Errors of checks are rendered only when exposed, and the probes show no checks at all.\<close>

lemma check_errors_hidden: "(n, r) \<in> set (hp_checks (fst (evaluate_health cfg False st checks kind))) \<Longrightarrow> hr_error r = None"
  by (auto simp: evaluate_health_def Let_def split: if_splits)

text \<open>Registering modules keeps the current module, and names stay distinct however modules nest.\<close>

lemma modules_balanced:
  "ms_current (register_modules ms s) = ms_current s \<and> (distinct (ms_names s) \<longrightarrow> distinct (ms_names (register_modules ms s)))"
  "ms_current (register_module m s) = ms_current s \<and> (distinct (ms_names s) \<longrightarrow> distinct (ms_names (register_module m s)))"
  "ms_current (module_acts acts s) = ms_current s \<and> (distinct (ms_names s) \<longrightarrow> distinct (ms_names (module_acts acts s)))"
  by (induction ms s and m s and acts s rule: register_modules_register_module_module_acts.induct) (auto simp: Let_def)

end
