(* ===== verification/Sse.thy ===== *)
theory Sse
  imports Response
begin

text \<open>
  \<open>stream.go\<close>: streaming responses and Server-Sent Events. The other end is modelled too: \<open>es_feed\<close> is the parser that the
  HTML standard prescribes for event streams, the reference that what \<open>Send\<close> writes is measured against.
\<close>

section \<open>Starting a stream\<close>

definition del_header :: "string \<Rightarrow> rw \<Rightarrow> rw" where
  "del_header k w = w\<lparr>rw_header := (rw_header w)(k := None)\<rparr>"

text \<open>\<open>Stream\<close> up to the call of its function: \<open>AlreadyWritten\<close>, or the response is committed.\<close>

definition begin_stream :: "nat \<Rightarrow> string \<Rightarrow> rw \<Rightarrow> respond_error option \<times> rw" where
  "begin_stream status content_type w =
     (if rw_written w then (Some AlreadyWritten, w)
      else
        let w1 = (if content_type \<noteq> [] then set_header ''Content-Type'' content_type w else w)
        in (None, rw_write_header status (del_header ''Content-Length'' w1)))"

text \<open>\<open>flushWriter.Write\<close>: nothing is written once the context is done.\<close>

definition stream_write :: "bool \<Rightarrow> bytes \<Rightarrow> rw \<Rightarrow> bool \<times> rw" where
  "stream_write done b w = (if done then (False, w) else (True, rw_flush (rw_write b w)))"

definition begin_sse :: "rw \<Rightarrow> respond_error option \<times> rw" where
  "begin_sse w =
     (if rw_written w then (Some AlreadyWritten, w)
      else
        let w1 = set_header ''X-Accel-Buffering'' ''no'' (set_header ''Cache-Control'' ''no-cache''
                   (set_header ''Content-Type'' ''text/event-stream'' w))
        in (None, rw_flush (rw_write_header 200 (del_header ''Content-Length'' w1))))"

section \<open>Events\<close>

record sse_event =
  sv_id :: string
  sv_event :: string
  sv_data :: string
  sv_retry :: duration

datatype sse_error = ContextDone | InvalidField

definition line_break :: "string \<Rightarrow> bool" where
  "line_break s \<longleftrightarrow> CHR 0x0D \<in> set s \<or> CHR 0x0A \<in> set s"

text \<open>\<open>strings.ReplaceAll\<close> of carriage return and line feed by line feed.\<close>

fun unify_breaks :: "string \<Rightarrow> string" where
  "unify_breaks (c # d # cs) = (if c = CHR 0x0D \<and> d = CHR 0x0A then CHR 0x0A # unify_breaks cs else c # unify_breaks (d # cs))"
| "unify_breaks cs = cs"

definition sse_lines_of :: "sse_event \<Rightarrow> string list" where
  "sse_lines_of e =
     (if sv_id e \<noteq> [] then [''id: '' @ sv_id e] else []) @
     (if sv_event e \<noteq> [] then [''event: '' @ sv_event e] else []) @
     (if sv_retry e > 0 then [''retry: '' @ dec_int (go_div (sv_retry e) 1000000)] else []) @
     map (\<lambda>l. ''data: '' @ l) (split_on CHR 0x0A (unify_breaks (sv_data e))) @ [[]]"

definition unlines :: "string list \<Rightarrow> bytes" where
  "unlines ls = concat (map (\<lambda>l. l @ [CHR 0x0A]) ls)"

definition sse_encode :: "sse_event \<Rightarrow> bytes option" where
  "sse_encode e = (if line_break (sv_id e) \<or> line_break (sv_event e) then None else Some (unlines (sse_lines_of e)))"

text \<open>\<open>Send\<close>; \<open>done\<close> is whether the context is done.\<close>

definition sse_send :: "bool \<Rightarrow> sse_event \<Rightarrow> rw \<Rightarrow> sse_error option \<times> rw" where
  "sse_send done e w =
     (if done then (Some ContextDone, w)
      else case sse_encode e of
        None \<Rightarrow> (Some InvalidField, w)
      | Some b \<Rightarrow> (None, rw_flush (rw_write b w)))"

definition sse_comment :: "bool \<Rightarrow> string \<Rightarrow> rw \<Rightarrow> sse_error option \<times> rw" where
  "sse_comment done text w =
     (if done then (Some ContextDone, w)
      else (None, rw_flush (rw_write ('': '' @ map (\<lambda>c. if c = CHR 0x0D \<or> c = CHR 0x0A then CHR '' '' else c) text @
              [CHR 0x0A, CHR 0x0A]) w)))"

section \<open>The client\<close>

text \<open>
  Lines end at a line feed, a carriage return, or both; what follows the last end is not yet a line. The first argument says
  whether the byte before was a carriage return, the second is the line so far, reversed.
\<close>

fun es_lines :: "bool \<Rightarrow> string \<Rightarrow> bytes \<Rightarrow> string list" where
  "es_lines cr acc [] = []"
| "es_lines cr acc (c # cs) =
     (if c = CHR 0x0A then (if cr then es_lines False [] cs else rev acc # es_lines False [] cs)
      else if c = CHR 0x0D then rev acc # es_lines True [] cs
      else es_lines False (c # acc) cs)"

record received =
  re_type :: string
  re_data :: string
  re_id :: string

record es_state =
  es_type :: string
  es_data :: string
  es_id :: string
  es_out :: "received list"

definition es_field :: "string \<Rightarrow> string \<Rightarrow> es_state \<Rightarrow> es_state" where
  "es_field name value s =
     (if name = ''event'' then s\<lparr>es_type := value\<rparr>
      else if name = ''data'' then s\<lparr>es_data := es_data s @ value @ [CHR 0x0A]\<rparr>
      else if name = ''id'' \<and> CHR 0x00 \<notin> set value then s\<lparr>es_id := value\<rparr>
      else s)"

definition es_dispatch :: "es_state \<Rightarrow> es_state" where
  "es_dispatch s =
     (if es_data s = [] then s\<lparr>es_type := []\<rparr>
      else s\<lparr>es_type := [], es_data := [], es_out := es_out s @
        [\<lparr>re_type = (if es_type s = [] then ''message'' else es_type s), re_data = butlast (es_data s), re_id = es_id s\<rparr>]\<rparr>)"

definition es_line :: "string \<Rightarrow> es_state \<Rightarrow> es_state" where
  "es_line l s =
     (if l = [] then es_dispatch s
      else if hd l = CHR '':'' then s
      else case cut_at CHR '':'' l of (name, rest, found) \<Rightarrow>
        es_field name (if rest \<noteq> [] \<and> hd rest = CHR '' '' then tl rest else rest) s)"

definition es_feed :: "bytes \<Rightarrow> es_state \<Rightarrow> es_state" where
  "es_feed b s = fold es_line (es_lines False [] b) s"

definition new_client :: es_state where
  "new_client = \<lparr>es_type = [], es_data = [], es_id = [], es_out = []\<rparr>"

section \<open>What the client receives\<close>

lemma es_lines_one: "\<not> line_break l \<Longrightarrow> es_lines False acc (l @ CHR 0x0A # b) = (rev acc @ l) # es_lines False [] b"
  by (induction l arbitrary: acc) (auto simp: line_break_def)

lemma es_lines_unlines: "list_all (\<lambda>l. \<not> line_break l) ls \<Longrightarrow> es_lines False [] (unlines ls @ b) = ls @ es_lines False [] b"
  by (induction ls) (simp_all add: unlines_def es_lines_one)

lemma es_line_field:
  "CHR '':'' \<notin> set name \<Longrightarrow> name \<noteq> [] \<Longrightarrow> es_line (name @ CHR '':'' # CHR '' '' # value) s = es_field name value s"
  using cut_at_append [of "CHR '':''" name "CHR '' '' # value"] by (cases name) (auto simp: es_line_def)

lemma es_line_data: "es_line (''data: '' @ l) s = s\<lparr>es_data := es_data s @ l @ [CHR 0x0A]\<rparr>"
  using es_line_field [of "''data''" l s] by (simp add: es_field_def)

lemma es_line_event: "es_line (''event: '' @ l) s = s\<lparr>es_type := l\<rparr>"
  using es_line_field [of "''event''" l s] by (simp add: es_field_def)

lemma es_line_id: "CHR 0x00 \<notin> set l \<Longrightarrow> es_line (''id: '' @ l) s = s\<lparr>es_id := l\<rparr>"
  using es_line_field [of "''id''" l s] by (simp add: es_field_def)

lemma es_line_retry: "es_line (''retry: '' @ l) s = s"
  using es_line_field [of "''retry''" l s] by (simp add: es_field_def)

lemma fold_data: "fold es_line (map (\<lambda>l. ''data: '' @ l) ls) s = s\<lparr>es_data := es_data s @ unlines ls\<rparr>"
proof (induction ls arbitrary: s)
  case (Cons l ls)
  show ?case by (simp only: list.simps fold_simps es_line_data Cons.IH) (simp add: unlines_def)
qed (simp add: unlines_def)

lemma unlines_split: "unlines (split_on CHR 0x0A s) = s @ [CHR 0x0A]"
proof (induction s)
  case (Cons c s)
  then show ?case by (cases "split_on CHR 0x0A s") (auto simp: unlines_def)
qed (simp add: unlines_def)

text \<open>What an event is for a client that has the last identifier \<open>i\<close>.\<close>

definition received_as :: "string \<Rightarrow> sse_event \<Rightarrow> received" where
  "received_as i e = \<lparr>re_type = (if sv_event e = [] then ''message'' else sv_event e), re_data = unify_breaks (sv_data e),
     re_id = (if sv_id e = [] then i else sv_id e)\<rparr>"

definition clean_event :: "sse_event \<Rightarrow> bool" where
  "clean_event e \<longleftrightarrow> \<not> line_break (sv_id e) \<and> \<not> line_break (sv_event e) \<and> CHR 0x00 \<notin> set (sv_id e) \<and>
     CHR 0x0D \<notin> set (unify_breaks (sv_data e))"

lemma dec_int_no_break: "\<not> line_break (dec_int i)"
proof -
  have "CHR 0x0D \<notin> set (dec_nat n) \<and> CHR 0x0A \<notin> set (dec_nat n)" for n
  proof -
    have "\<forall>c \<in> set (dec_nat n). is_dec_digit c" using dec_nat_digits [of n] by (simp add: list_all_iff)
    moreover have "\<not> is_dec_digit CHR 0x0D" "\<not> is_dec_digit CHR 0x0A" by (simp_all add: is_dec_digit_def char_code_def)
    ultimately show ?thesis by blast
  qed
  then show ?thesis by (simp add: dec_int_def line_break_def)
qed

lemma clean_lines: "clean_event e \<Longrightarrow> list_all (\<lambda>l. \<not> line_break l) (sse_lines_of e)"
proof -
  assume e: "clean_event e"
  have "\<not> line_break l" if l: "l \<in> set (split_on CHR 0x0A (unify_breaks (sv_data e)))" for l
  proof -
    have "CHR 0x0A \<notin> set l" using split_on_no_sep l by blast
    moreover have "set l \<subseteq> set (unlines (split_on CHR 0x0A (unify_breaks (sv_data e))))" using l by (auto simp: unlines_def)
    then have "set l \<subseteq> set (unify_breaks (sv_data e)) \<union> {CHR 0x0A}" unfolding unlines_split by simp
    ultimately show ?thesis using e by (auto simp: clean_event_def line_break_def)
  qed
  then show ?thesis using e dec_int_no_break
    by (auto simp: sse_lines_of_def clean_event_def line_break_def list_all_iff)
qed

lemma feed_event:
  assumes "clean_event e" "es_type s = []" "es_data s = []"
  shows "fold es_line (sse_lines_of e) s =
    s\<lparr>es_id := (if sv_id e = [] then es_id s else sv_id e), es_out := es_out s @ [received_as (es_id s) e]\<rparr>"
proof -
  let ?s1 = "if sv_id e \<noteq> [] then s\<lparr>es_id := sv_id e\<rparr> else s"
  let ?s2 = "if sv_event e \<noteq> [] then ?s1\<lparr>es_type := sv_event e\<rparr> else ?s1"
  let ?s3 = "?s2\<lparr>es_data := unify_breaks (sv_data e) @ [CHR 0x0A]\<rparr>"
  have id: "fold es_line (if sv_id e \<noteq> [] then [''id: '' @ sv_id e] else []) s = ?s1"
    using assms(1) by (simp only: clean_event_def es_line_id fold_simps list.simps if_distrib) (simp add: es_line_id [simplified])
  have ev: "fold es_line (if sv_event e \<noteq> [] then [''event: '' @ sv_event e] else []) u =
      (if sv_event e \<noteq> [] then u\<lparr>es_type := sv_event e\<rparr> else u)" for u
    using es_line_event [of "sv_event e" u] by (cases "sv_event e = []") (simp_all del: append_Cons append_Nil)
  have re: "fold es_line (if sv_retry e > 0 then [''retry: '' @ dec_int (go_div (sv_retry e) 1000000)] else []) u = u" for u
    using es_line_retry [of _ u] by (cases "sv_retry e > 0") (simp_all del: append_Cons append_Nil)
  have "fold es_line (sse_lines_of e) s = es_line [] ?s3"
    unfolding sse_lines_of_def fold_append o_apply id ev re fold_data unlines_split
    using assms(3) by (simp add: fold_simps)
  also have "\<dots> = s\<lparr>es_id := (if sv_id e = [] then es_id s else sv_id e), es_out := es_out s @ [received_as (es_id s) e]\<rparr>"
    using assms(2,3) by (simp add: es_line_def es_dispatch_def received_as_def)
  finally show ?thesis .
qed

definition identifier_after :: "string \<Rightarrow> sse_event \<Rightarrow> string" where
  "identifier_after i e = (if sv_id e = [] then i else sv_id e)"

text \<open>A session: the events and comments a handler sends, and what a client gets of them.\<close>

datatype sse_op = SendEvent sse_event | SendComment string

definition sse_step :: "sse_op \<Rightarrow> rw \<Rightarrow> rw" where
  "sse_step x w = (case x of SendEvent e \<Rightarrow> snd (sse_send False e w) | SendComment t \<Rightarrow> snd (sse_comment False t w))"

definition clean_op :: "sse_op \<Rightarrow> bool" where
  "clean_op x = (case x of SendEvent e \<Rightarrow> clean_event e | SendComment t \<Rightarrow> True)"

fun received_all :: "string \<Rightarrow> sse_op list \<Rightarrow> received list" where
  "received_all i [] = []"
| "received_all i (SendEvent e # xs) = received_as i e # received_all (identifier_after i e) xs"
| "received_all i (SendComment t # xs) = received_all i xs"

definition wire_bytes :: "wire list \<Rightarrow> bytes" where
  "wire_bytes ws = concat (map (\<lambda>x. case x of Body b \<Rightarrow> b | _ \<Rightarrow> []) ws)"

definition op_lines :: "sse_op \<Rightarrow> string list" where
  "op_lines x = (case x of SendEvent e \<Rightarrow> sse_lines_of e
     | SendComment t \<Rightarrow> ['': '' @ map (\<lambda>c. if c = CHR 0x0D \<or> c = CHR 0x0A then CHR '' '' else c) t, []])"

lemma op_lines_clean: "clean_op x \<Longrightarrow> list_all (\<lambda>l. \<not> line_break l) (op_lines x)"
  using clean_lines by (cases x) (auto simp: clean_op_def op_lines_def line_break_def)

lemma step_wire:
  assumes "clean_op x" "rw_written w"
  shows "rw_written (sse_step x w)"
    and "wire_bytes (rw_wire (sse_step x w)) = wire_bytes (rw_wire w) @ unlines (op_lines x)"
  using assms
  by (cases x; simp add: sse_step_def sse_send_def sse_comment_def sse_encode_def clean_op_def clean_event_def rw_write_def
        rw_flush_def commit_ok_def wire_bytes_def op_lines_def unlines_def)+

lemma run_wire:
  "list_all clean_op xs \<Longrightarrow> rw_written w \<Longrightarrow>
     wire_bytes (rw_wire (fold sse_step xs w)) = wire_bytes (rw_wire w) @ unlines (concat (map op_lines xs))"
proof (induction xs arbitrary: w)
  case (Cons x xs)
  then show ?case using step_wire [of x w] by (simp add: unlines_def)
qed (simp add: unlines_def)

lemma feed_op:
  assumes "clean_op x" "es_type s = []" "es_data s = []"
  shows "fold es_line (op_lines x) s = (case x of
      SendEvent e \<Rightarrow> s\<lparr>es_id := identifier_after (es_id s) e, es_out := es_out s @ [received_as (es_id s) e]\<rparr>
    | SendComment t \<Rightarrow> s)"
  using assms feed_event
  by (cases x) (auto simp: clean_op_def op_lines_def identifier_after_def es_line_def es_dispatch_def)

lemma feed_ops:
  "list_all clean_op xs \<Longrightarrow> es_type s = [] \<Longrightarrow> es_data s = [] \<Longrightarrow>
     es_out (fold es_line (concat (map op_lines xs)) s) = es_out s @ received_all (es_id s) xs"
proof (induction xs arbitrary: s)
  case (Cons x xs)
  then show ?case by (cases x) (simp_all add: feed_op)
qed simp

lemma begin_sse_wire:
  assumes "\<not> rw_written w" "rw_wire w = []"
  shows "rw_written (snd (begin_sse w))" and "wire_bytes (rw_wire (snd (begin_sse w))) = []"
  using assms unfolding begin_sse_def Let_def
  by (simp_all add: rw_write_header_def Let_def rw_flush_def commit_ok_def wire_bytes_def del_header_def set_header_def run_before_def)

section \<open>Properties\<close>

text \<open>C33: Server-Sent Events round trip for clean events. When the data of no event contains a carriage return that is not
  part of a CRLF, no identifier contains NUL or a line break and no event name contains a line break (\<open>clean_op\<close>), a client that
  parses the bytes of a fresh response as the HTML standard says receives exactly the events that the handler sent, in
  order: the same type, the same data (with line ends normalised), the same identifiers, and nothing from the comments. Without
  the condition this fails: a bare carriage return in the data injects fields, see \<open>bare_return_injects\<close>.\<close>

theorem sse_roundtrip:
  assumes "\<not> rw_written w" "rw_wire w = []" "list_all clean_op xs"
  shows "es_out (es_feed (wire_bytes (rw_wire (fold sse_step xs (snd (begin_sse w))))) new_client) = received_all [] xs"
proof -
  have l: "list_all (\<lambda>l. \<not> line_break l) (concat (map op_lines xs))"
    using assms(3) op_lines_clean by (fastforce simp: list_all_iff)
  show ?thesis
    using es_lines_unlines [OF l, of "[]"] feed_ops [OF assms(3), of new_client]
    by (simp add: es_feed_def run_wire assms begin_sse_wire new_client_def)
qed

definition sse_example :: "sse_op list" where
  "sse_example = [SendEvent \<lparr>sv_id = ''7'', sv_event = ''tick'', sv_data = ''a'' @ [CHR 0x0A] @ ''b'', sv_retry = 1500000000\<rparr>,
     SendComment ''hi'', SendEvent \<lparr>sv_id = [], sv_event = [], sv_data = ''c'', sv_retry = 0\<rparr>]"

theorem sse_roundtrip_witness:
  "es_out (es_feed (wire_bytes (rw_wire (fold sse_step sse_example (snd (begin_sse new_rw))))) new_client) =
     [\<lparr>re_type = ''tick'', re_data = ''a'' @ [CHR 0x0A] @ ''b'', re_id = ''7''\<rparr>,
      \<lparr>re_type = ''message'', re_data = ''c'', re_id = ''7''\<rparr>]"
proof -
  have "list_all clean_op sse_example" by code_simp
  moreover have "received_all [] sse_example =
     [\<lparr>re_type = ''tick'', re_data = ''a'' @ [CHR 0x0A] @ ''b'', re_id = ''7''\<rparr>,
      \<lparr>re_type = ''message'', re_data = ''c'', re_id = ''7''\<rparr>]" by code_simp
  moreover have "\<not> rw_written new_rw" "rw_wire new_rw = []" by (simp_all add: new_rw_def)
  ultimately show ?thesis using sse_roundtrip [of new_rw sse_example] by simp
qed

text \<open>A carriage return that no line feed follows ends a line too, but \<open>Send\<close> does not split the data there: data from outside
  can thus add fields to an event, and events to the stream.\<close>

lemma bare_return_injects:
  assumes "e = \<lparr>sv_id = [], sv_event = [], sv_data = ''x'' @ [CHR 0x0D, CHR 0x0D] @ ''event: admin'' @ [CHR 0x0D] @ ''data: y'', sv_retry = 0\<rparr>"
  shows "map_option (\<lambda>b. es_out (es_feed b new_client)) (sse_encode e) =
    Some [\<lparr>re_type = ''message'', re_data = ''x'', re_id = []\<rparr>, \<lparr>re_type = ''admin'', re_data = ''y'', re_id = []\<rparr>]"
  unfolding assms by code_simp

end
