(* ===== verification/Config.thy ===== *)
theory Config
  imports Complex_Main Binding
begin

text \<open>
  \<open>config/config.go\<close>: loading a typed configuration from environment variables, validating it, and listing it with its
  secrets masked. Struct types are trees of fields with tags; \<open>load_fields\<close> is \<open>loadStruct\<close> with its loader as state.
  Parsers of floats, durations, URLs and of types with \<open>UnmarshalText\<close>, the quoting of strings, the validator and what \<open>fmt\<close>
  prints for a value are parameters.
\<close>

section \<open>Environments and secrets\<close>

datatype deploy_env = Development | Test | Production

definition parse_env :: "string \<Rightarrow> deploy_env option" where
  "parse_env s =
     (let t = to_lower (trim_space s) in
      if t = ''development'' \<or> t = ''dev'' \<or> t = ''local'' then Some Development
      else if t = ''test'' \<or> t = ''testing'' then Some Test
      else if t = ''production'' \<or> t = ''prod'' then Some Production
      else None)"

text \<open>The loop of \<open>CurrentEnv\<close>; the second component is the variable with an invalid value.\<close>

fun env_from :: "(string \<Rightarrow> string option) \<Rightarrow> string list \<Rightarrow> deploy_env \<times> string option" where
  "env_from lookup [] = (Production, None)"
| "env_from lookup (name # names) =
     (case lookup name of
        None \<Rightarrow> env_from lookup names
      | Some v \<Rightarrow>
          if v = [] then env_from lookup names
          else case parse_env v of None \<Rightarrow> (Production, Some name) | Some e \<Rightarrow> (e, None))"

definition current_env :: "(string \<Rightarrow> string option) \<Rightarrow> deploy_env \<times> string option" where
  "current_env lookup = env_from lookup [''TORGE_ENV'', ''APP_ENV'']"

definition redacted_text :: string where
  "redacted_text = ''[REDACTED]''"

section \<open>Types and values\<close>

datatype ctype =
    CString | CSecret | CBool | CInt nat | CUint nat | CFloat nat | CDuration | CUrl | CText string | CPtr ctype | CSlice ctype
  | CStruct "cfield list" | COther string
  and cfield = CField (cf_name: string) (cf_type: ctype) (cf_exported: bool) (cf_tags: "(string \<times> string) list")

datatype cval =
    CVString string | CVSecret string | CVBool bool | CVInt int | CVUint nat | CVFloat fnum | CVUrl string | CVText string
  | CVPtr "cval option" | CVSlice "cval list option" | CVStruct "cval list" | CVZero

fun czero :: "ctype \<Rightarrow> cval" and fzero :: "cfield \<Rightarrow> cval" where
  "czero CString = CVString []"
| "czero CSecret = CVSecret []"
| "czero CBool = CVBool False"
| "czero (CInt _) = CVInt 0"
| "czero (CUint _) = CVUint 0"
| "czero (CFloat _) = CVFloat (Fin 0)"
| "czero CDuration = CVInt 0"
| "czero CUrl = CVZero"
| "czero (CText _) = CVZero"
| "czero (CPtr _) = CVPtr None"
| "czero (CSlice _) = CVSlice None"
| "czero (CStruct fs) = CVStruct (map fzero fs)"
| "czero (COther _) = CVZero"
| "fzero (CField _ t _ _) = czero t"

text \<open>\<open>IsZero\<close>.\<close>

fun is_czero :: "cval \<Rightarrow> bool" where
  "is_czero (CVString s) \<longleftrightarrow> s = []"
| "is_czero (CVSecret s) \<longleftrightarrow> s = []"
| "is_czero (CVBool b) \<longleftrightarrow> \<not> b"
| "is_czero (CVInt i) \<longleftrightarrow> i = 0"
| "is_czero (CVUint n) \<longleftrightarrow> n = 0"
| "is_czero (CVFloat x) \<longleftrightarrow> x = Fin 0"
| "is_czero (CVUrl _) \<longleftrightarrow> False"
| "is_czero (CVText _) \<longleftrightarrow> False"
| "is_czero (CVPtr p) \<longleftrightarrow> p = None"
| "is_czero (CVSlice s) \<longleftrightarrow> s = None"
| "is_czero (CVStruct vs) \<longleftrightarrow> list_all is_czero vs"
| "is_czero CVZero \<longleftrightarrow> True"

record config_lib =
  cl_float :: "nat \<Rightarrow> string \<Rightarrow> fnum option"
  cl_duration :: "string \<Rightarrow> int option"
  cl_url :: "string \<Rightarrow> string option"
  cl_text :: "string \<Rightarrow> string \<Rightarrow> (string, string) result"
  cl_quote :: "string \<Rightarrow> string"

section \<open>Setting a value\<close>

text \<open>\<open>strings.Split\<close> by a separator that is not empty.\<close>

function split_str :: "string \<Rightarrow> string \<Rightarrow> string list" where
  "split_str sep s =
     (if sep = [] then [s]
      else case index_of s sep of None \<Rightarrow> [s] | Some i \<Rightarrow> take i s # split_str sep (drop (i + length sep) s))"
  by auto
termination
proof (relation "measure (length \<circ> snd)")
  fix sep s i
  assume "sep \<noteq> []" "index_of s sep = Some i"
  moreover from this have "s \<noteq> []" by (cases s) auto
  ultimately show "((sep, drop (i + length sep) s), sep, s) \<in> measure (length \<circ> snd)" by simp
qed simp

declare split_str.simps [simp del]

definition or_error :: "string \<Rightarrow> ('a \<Rightarrow> cval) \<Rightarrow> 'a option \<Rightarrow> (string, cval) result" where
  "or_error msg f r = (case r of None \<Rightarrow> Inl msg | Some x \<Rightarrow> Inr (f x))"

text \<open>The loop over the parts of a slice stops at the first part that does not parse.\<close>

fun sequence_results :: "('e, 'a) result list \<Rightarrow> ('e, 'a list) result" where
  "sequence_results [] = Inr []"
| "sequence_results (Inl e # rs) = Inl e"
| "sequence_results (Inr x # rs) = map_sum id ((#) x) (sequence_results rs)"

definition list_sep :: "string \<Rightarrow> string" where
  "list_sep sep = (if sep = [] then '','' else sep)"

definition slice_parts :: "string \<Rightarrow> string \<Rightarrow> string list" where
  "slice_parts sep raw = filter (\<lambda>p. p \<noteq> []) (map trim_space (split_str (list_sep sep) raw))"

fun set_value :: "config_lib \<Rightarrow> ctype \<Rightarrow> string \<Rightarrow> string \<Rightarrow> (string, cval) result" where
  "set_value L (CPtr t) raw sep = map_sum id (\<lambda>v. CVPtr (Some v)) (set_value L t raw sep)"
| "set_value L CUrl raw sep = or_error ''invalid URL'' CVUrl (cl_url L raw)"
| "set_value L CSecret raw sep = Inr (CVSecret raw)"
| "set_value L (CText name) raw sep = map_sum (\<lambda>e. ''invalid value: '' @ e) CVText (cl_text L name raw)"
| "set_value L CDuration raw sep =
     or_error (''invalid duration '' @ cl_quote L raw @ '' (examples: 30s, 5m, 1h)'') CVInt (cl_duration L raw)"
| "set_value L CString raw sep = Inr (CVString raw)"
| "set_value L CBool raw sep =
     or_error (''invalid boolean '' @ cl_quote L raw @ '' (use true or false)'') CVBool (parse_bool raw)"
| "set_value L (CInt bits) raw sep = or_error (''invalid integer '' @ cl_quote L raw) CVInt (parse_int bits raw)"
| "set_value L (CUint bits) raw sep =
     or_error (''invalid unsigned integer '' @ cl_quote L raw) CVUint (parse_uint_bits bits raw)"
| "set_value L (CFloat bits) raw sep = or_error (''invalid number '' @ cl_quote L raw) CVFloat (cl_float L bits raw)"
| "set_value L (CSlice t) raw sep =
     map_sum id (\<lambda>vs. CVSlice (Some vs))
       (sequence_results (map (\<lambda>p. set_value L t p (list_sep sep)) (slice_parts sep raw)))"
| "set_value L (CStruct fs) raw sep = Inl ''unsupported type struct''"
| "set_value L (COther name) raw sep = Inl (''unsupported type '' @ name)"

section \<open>Loading\<close>

record problem =
  pb_var :: string
  pb_field :: string
  pb_message :: string

record loader =
  ld_problems :: "problem list"
  ld_found :: nat
  ld_vars :: "string \<rightharpoonup> string"

definition has_flag :: "string \<Rightarrow> string \<Rightarrow> bool" where
  "has_flag flags want \<longleftrightarrow> list_ex (\<lambda>f. trim_space f = want) (split_on CHR '','' flags)"

definition path_join :: "string \<Rightarrow> string \<Rightarrow> string" where
  "path_join base name = (if base = [] then name else base @ ''.'' @ name)"

text \<open>The variable and the flags of a field with an env tag; \<open>None\<close>: the field has no variable.\<close>

definition env_var :: "string \<Rightarrow> (string \<times> string) list \<Rightarrow> (string \<times> string) option" where
  "env_var pre tags =
     (case map_of tags ''env'' of
        None \<Rightarrow> None
      | Some tag \<Rightarrow> (case cut_at CHR '','' tag of (name, flags, _) \<Rightarrow>
          if name = [] \<or> name = ''-'' then None else Some (pre @ name, flags)))"

text \<open>\<open>ok && raw != ""\<close> after the lookup, and the value after the default is applied.\<close>

definition var_set :: "(string \<Rightarrow> string option) \<Rightarrow> string \<Rightarrow> bool" where
  "var_set env name \<longleftrightarrow> (case env name of None \<Rightarrow> False | Some raw \<Rightarrow> raw \<noteq> [])"

definition effective :: "(string \<Rightarrow> string option) \<Rightarrow> string \<Rightarrow> (string \<times> string) list \<Rightarrow> string option" where
  "effective env name tags =
     (let r = (if var_set env name then env name
               else case map_of tags ''default'' of Some def \<Rightarrow> Some def | None \<Rightarrow> env name)
      in case r of None \<Rightarrow> None | Some raw \<Rightarrow> if raw = [] then None else Some raw)"

definition add_problem :: "string \<Rightarrow> string \<Rightarrow> string \<Rightarrow> loader \<Rightarrow> loader" where
  "add_problem name field msg st = st\<lparr>ld_problems := ld_problems st @ [\<lparr>pb_var = name, pb_field = field, pb_message = msg\<rparr>]\<rparr>"

text \<open>What \<open>loadStruct\<close> does with a field that has a variable.\<close>

definition load_var ::
  "config_lib \<Rightarrow> (string \<Rightarrow> string option) \<Rightarrow> string \<Rightarrow> string \<Rightarrow> string \<Rightarrow> string \<Rightarrow> ctype \<Rightarrow> (string \<times> string) list \<Rightarrow> cval \<Rightarrow> loader
   \<Rightarrow> cval \<times> loader" where
  "load_var L env name flags gpath vpath t tags v st =
     (let st1 = st\<lparr>ld_vars := (ld_vars st)(vpath \<mapsto> name), ld_found := ld_found st + (if var_set env name then 1 else 0)\<rparr> in
      case effective env name tags of
        None \<Rightarrow> (v, if has_flag flags ''required'' then add_problem name gpath ''required but not set'' st1 else st1)
      | Some raw \<Rightarrow>
          (case set_value L t raw (tag_get tags ''sep'') of
             Inl e \<Rightarrow> (v, add_problem name gpath e st1)
           | Inr w \<Rightarrow> (w, st1)))"

definition section_loader :: "loader \<Rightarrow> loader" where
  "section_loader st = \<lparr>ld_problems = [], ld_found = 0, ld_vars = ld_vars st\<rparr>"

text \<open>An optional section is kept only if one of its variables was set.\<close>

definition end_section :: "cval \<Rightarrow> cval list \<Rightarrow> loader \<Rightarrow> loader \<Rightarrow> cval \<times> loader" where
  "end_section v vs sub st =
     (if ld_found sub > 0
      then (CVPtr (Some (CVStruct vs)),
            st\<lparr>ld_vars := ld_vars sub, ld_found := ld_found st + ld_found sub, ld_problems := ld_problems st @ ld_problems sub\<rparr>)
      else (v, st\<lparr>ld_vars := ld_vars sub\<rparr>))"

function load_fields ::
  "config_lib \<Rightarrow> (string \<Rightarrow> string option) \<Rightarrow> string \<Rightarrow> string \<Rightarrow> string \<Rightarrow> cfield list \<Rightarrow> cval list \<Rightarrow> loader \<Rightarrow> cval list \<times> loader"
  and load_field ::
  "config_lib \<Rightarrow> (string \<Rightarrow> string option) \<Rightarrow> string \<Rightarrow> string \<Rightarrow> string \<Rightarrow> cfield \<Rightarrow> cval \<Rightarrow> loader \<Rightarrow> cval \<times> loader"
  and load_section ::
  "config_lib \<Rightarrow> (string \<Rightarrow> string option) \<Rightarrow> string \<Rightarrow> string \<Rightarrow> string \<Rightarrow> ctype \<Rightarrow> cval \<Rightarrow> loader \<Rightarrow> cval \<times> loader"
where
  "load_fields L env pre gp vp (f # fs) (v # vs) st =
     (case load_field L env pre gp vp f v st of
        (w, st1) \<Rightarrow> (case load_fields L env pre gp vp fs vs st1 of (ws, st2) \<Rightarrow> (w # ws, st2)))"
| "load_fields L env pre gp vp [] vs st = (vs, st)"
| "load_fields L env pre gp vp (f # fs) [] st = ([], st)"
| "load_field L env pre gp vp (CField name t exported tags) v st =
     (if \<not> exported then (v, st)
      else if map_of tags ''env'' = None
      then load_section L env (pre @ tag_get tags ''envPrefix'') (path_join gp name) (path_join vp (field_name tags name)) t v st
      else case env_var pre tags of
             None \<Rightarrow> (v, st)
           | Some (var, flags) \<Rightarrow>
               load_var L env var flags (path_join gp name) (path_join vp (field_name tags name)) t tags v st)"
| "load_section L env pre gp vp t v st =
     (case t of
        CStruct fs \<Rightarrow>
          (case v of
             CVStruct vs \<Rightarrow> (case load_fields L env pre gp vp fs vs st of (ws, st1) \<Rightarrow> (CVStruct ws, st1))
           | _ \<Rightarrow> (v, st))
      | CPtr (CStruct fs) \<Rightarrow>
          (case load_fields L env pre gp vp fs (map fzero fs) (section_loader st) of (ws, sub) \<Rightarrow> end_section v ws sub st)
      | _ \<Rightarrow> (v, st))"
  by pat_completeness auto
termination
  by (relation "measure (case_sum (\<lambda>(L, env, pre, gp, vp, fs, vs, st). size_list size fs)
        (case_sum (\<lambda>(L, env, pre, gp, vp, f, v, st). size f) (\<lambda>(L, env, pre, gp, vp, t, v, st). size t)))") auto

text \<open>\<open>Load\<close>; \<open>val\<close> is the verdict of the validator on the filled struct.\<close>

datatype config_verdict = ConfigValid | FieldsInvalid "field_error list" | CannotValidate string

datatype load_result = Loaded | Problems "problem list" | LoadFailed string

definition field_problems :: "(string \<rightharpoonup> string) \<Rightarrow> string list \<Rightarrow> field_error list \<Rightarrow> problem list" where
  "field_problems vars reported es =
     concat (map (\<lambda>fe. let name = (case vars (fe_field fe) of None \<Rightarrow> [] | Some n \<Rightarrow> n) in
       if name \<noteq> [] \<and> name \<in> set reported then []
       else [\<lparr>pb_var = name, pb_field = fe_field fe, pb_message = fe_message fe\<rparr>]) es)"

definition new_loader :: loader where
  "new_loader = \<lparr>ld_problems = [], ld_found = 0, ld_vars = Map.empty\<rparr>"

definition load_config ::
  "config_lib \<Rightarrow> (string \<Rightarrow> string option) \<Rightarrow> string \<Rightarrow> (cval list \<Rightarrow> config_verdict) \<Rightarrow> cfield list \<Rightarrow> cval list \<Rightarrow> load_result \<times> cval list" where
  "load_config L env pre val fs vs =
     (case load_fields L env pre [] [] fs vs new_loader of
        (ws, st) \<Rightarrow>
          (let more_problems = (case val ws of
                 ConfigValid \<Rightarrow> Inr []
               | FieldsInvalid es \<Rightarrow> Inr (field_problems (ld_vars st) (map pb_var (ld_problems st)) es)
               | CannotValidate e \<Rightarrow> Inl e)
           in case more_problems of
                Inl e \<Rightarrow> (LoadFailed (''config: '' @ e), ws)
              | Inr ps \<Rightarrow> (if ld_problems st @ ps = [] then Loaded else Problems (ld_problems st @ ps), ws)))"

definition problem_text :: "problem \<Rightarrow> string" where
  "problem_text p = [CHR 0x0A] @ ''  - '' @
     (if pb_var p \<noteq> [] then pb_var p @ '' ('' @ pb_field p @ ''): '' else pb_field p @ '': '') @ pb_message p"

definition config_error_text :: "problem list \<Rightarrow> string" where
  "config_error_text ps = ''config: '' @ dec_nat (length ps) @ '' problem(s):'' @ concat (map problem_text ps)"

section \<open>Listing a configuration\<close>

record config_entry =
  en_var :: string
  en_field :: string
  en_value :: string

text \<open>\<open>sprint\<close> is what \<open>fmt.Sprint\<close> prints for a value of a type.\<close>

definition entry_value :: "(ctype \<Rightarrow> cval \<Rightarrow> string) \<Rightarrow> ctype \<Rightarrow> string \<Rightarrow> cval \<Rightarrow> string" where
  "entry_value sprint t flags v =
     (if t = CSecret \<or> has_flag flags ''secret'' then (if is_czero v then [] else redacted_text) else sprint t v)"

fun collect_entries :: "(ctype \<Rightarrow> cval \<Rightarrow> string) \<Rightarrow> string \<Rightarrow> string \<Rightarrow> cfield list \<Rightarrow> cval list \<Rightarrow> config_entry list"
  and field_entries :: "(ctype \<Rightarrow> cval \<Rightarrow> string) \<Rightarrow> string \<Rightarrow> string \<Rightarrow> cfield \<Rightarrow> cval \<Rightarrow> config_entry list"
  and section_entries :: "(ctype \<Rightarrow> cval \<Rightarrow> string) \<Rightarrow> string \<Rightarrow> string \<Rightarrow> ctype \<Rightarrow> cval \<Rightarrow> config_entry list"
where
  "collect_entries sprint pre gp (f # fs) (v # vs) = field_entries sprint pre gp f v @ collect_entries sprint pre gp fs vs"
| "collect_entries sprint pre gp _ _ = []"
| "field_entries sprint pre gp (CField name t exported tags) v =
     (if \<not> exported then []
      else if map_of tags ''env'' = None then section_entries sprint (pre @ tag_get tags ''envPrefix'') (path_join gp name) t v
      else case env_var pre tags of
             None \<Rightarrow> []
           | Some (var, flags) \<Rightarrow>
               [\<lparr>en_var = var, en_field = path_join gp name, en_value = entry_value sprint t flags v\<rparr>])"
| "section_entries sprint pre gp t v =
     (case t of
        CStruct fs \<Rightarrow> (case v of CVStruct vs \<Rightarrow> collect_entries sprint pre gp fs vs | _ \<Rightarrow> [])
      | CPtr (CStruct fs) \<Rightarrow> (case v of CVPtr (Some (CVStruct vs)) \<Rightarrow> collect_entries sprint pre gp fs vs | _ \<Rightarrow> [])
      | _ \<Rightarrow> [])"

text \<open>The order of entries with the same variable is not determined by \<open>sort.Slice\<close>; the model keeps the order of the fields.\<close>

definition redacted_entries :: "(ctype \<Rightarrow> cval \<Rightarrow> string) \<Rightarrow> cfield list \<Rightarrow> cval list \<Rightarrow> config_entry list" where
  "redacted_entries sprint fs vs = sort_key en_var (collect_entries sprint [] [] fs vs)"

section \<open>Loading without a loader\<close>

lemma size_cf_type: "size (cf_type f) < Suc (size f)"
  by (cases f) simp

lemma size_cf_type_list: "size (cf_type f) < Suc (size f + n)"
  using size_cf_type [of f] by simp

text \<open>A value of the shape of its type, as every Go value is.\<close>

function fits_fields :: "cfield list \<Rightarrow> cval list \<Rightarrow> bool" and fits :: "ctype \<Rightarrow> cval \<Rightarrow> bool" where
  "fits_fields [] vs \<longleftrightarrow> vs = []"
| "fits_fields (f # fs) vs \<longleftrightarrow> (case vs of [] \<Rightarrow> False | v # vs' \<Rightarrow> fits (cf_type f) v \<and> fits_fields fs vs')"
| "fits t v \<longleftrightarrow> (case t of CStruct fs \<Rightarrow> (case v of CVStruct vs \<Rightarrow> fits_fields fs vs | _ \<Rightarrow> False) | _ \<Rightarrow> True)"
  by pat_completeness auto
termination
  by (relation "measure (case_sum (\<lambda>(fs, vs). size_list size fs) (\<lambda>(t, v). size t))") (auto simp: size_cf_type_list)

text \<open>The variables a struct type declares, optional sections included, with the paths of validation errors.\<close>

function declared :: "string \<Rightarrow> string \<Rightarrow> cfield list \<Rightarrow> (string \<times> string) list"
  and declared_in :: "string \<Rightarrow> string \<Rightarrow> ctype \<Rightarrow> (string \<times> string) list" where
  "declared pre vp [] = []"
| "declared pre vp (CField name t exported tags # fs) =
     (if \<not> exported then []
      else if map_of tags ''env'' = None then declared_in (pre @ tag_get tags ''envPrefix'') (path_join vp (field_name tags name)) t
      else case env_var pre tags of None \<Rightarrow> [] | Some (var, flags) \<Rightarrow> [(path_join vp (field_name tags name), var)]) @
     declared pre vp fs"
| "declared_in pre vp t =
     (case t of CStruct fs \<Rightarrow> declared pre vp fs | CPtr (CStruct fs) \<Rightarrow> declared pre vp fs | _ \<Rightarrow> [])"
  by pat_completeness auto
termination
  by (relation "measure (case_sum (\<lambda>(pre, vp, fs). size_list size fs) (\<lambda>(pre, vp, t). size t))") auto

definition any_set :: "(string \<Rightarrow> string option) \<Rightarrow> (string \<times> string) list \<Rightarrow> bool" where
  "any_set env ds \<longleftrightarrow> list_ex (\<lambda>(p, var). var_set env var) ds"

text \<open>The fields that have a variable and are not in an optional section without variables, in the order of the fields.\<close>

record site =
  si_var :: string
  si_flags :: string
  si_path :: string
  si_type :: ctype
  si_tags :: "(string \<times> string) list"

function sites :: "(string \<Rightarrow> string option) \<Rightarrow> string \<Rightarrow> string \<Rightarrow> cfield list \<Rightarrow> site list"
  and sites_in :: "(string \<Rightarrow> string option) \<Rightarrow> string \<Rightarrow> string \<Rightarrow> ctype \<Rightarrow> site list" where
  "sites env pre gp [] = []"
| "sites env pre gp (CField name t exported tags # fs) =
     (if \<not> exported then []
      else if map_of tags ''env'' = None then sites_in env (pre @ tag_get tags ''envPrefix'') (path_join gp name) t
      else case env_var pre tags of
             None \<Rightarrow> []
           | Some (var, flags) \<Rightarrow>
               [\<lparr>si_var = var, si_flags = flags, si_path = path_join gp name, si_type = t, si_tags = tags\<rparr>]) @
     sites env pre gp fs"
| "sites_in env pre gp t =
     (case t of
        CStruct fs \<Rightarrow> sites env pre gp fs
      | CPtr (CStruct fs) \<Rightarrow> if any_set env (declared pre [] fs) then sites env pre gp fs else []
      | _ \<Rightarrow> [])"
  by pat_completeness auto
termination
  by (relation "measure (case_sum (\<lambda>(env, pre, gp, fs). size_list size fs) (\<lambda>(env, pre, gp, t). size t))") auto

definition var_value :: "config_lib \<Rightarrow> (string \<Rightarrow> string option) \<Rightarrow> string \<Rightarrow> (string \<times> string) list \<Rightarrow> ctype \<Rightarrow> cval \<Rightarrow> cval" where
  "var_value L env var tags t v =
     (case effective env var tags of
        None \<Rightarrow> v
      | Some raw \<Rightarrow> (case set_value L t raw (tag_get tags ''sep'') of Inl e \<Rightarrow> v | Inr w \<Rightarrow> w))"

text \<open>The values a struct has afterwards.\<close>

function filled :: "config_lib \<Rightarrow> (string \<Rightarrow> string option) \<Rightarrow> string \<Rightarrow> cfield list \<Rightarrow> cval list \<Rightarrow> cval list"
  and filled_in :: "config_lib \<Rightarrow> (string \<Rightarrow> string option) \<Rightarrow> string \<Rightarrow> ctype \<Rightarrow> cval \<Rightarrow> cval" where
  "filled L env pre [] vs = []"
| "filled L env pre (CField name t exported tags # fs) vs =
     (if \<not> exported then hd vs
      else if map_of tags ''env'' = None then filled_in L env (pre @ tag_get tags ''envPrefix'') t (hd vs)
      else case env_var pre tags of None \<Rightarrow> hd vs | Some (var, flags) \<Rightarrow> var_value L env var tags t (hd vs)) #
     filled L env pre fs (tl vs)"
| "filled_in L env pre t v =
     (case t of
        CStruct fs \<Rightarrow> (case v of CVStruct vs \<Rightarrow> CVStruct (filled L env pre fs vs) | _ \<Rightarrow> v)
      | CPtr (CStruct fs) \<Rightarrow>
          if any_set env (declared pre [] fs) then CVPtr (Some (CVStruct (filled L env pre fs (map fzero fs)))) else v
      | _ \<Rightarrow> v)"
  by pat_completeness auto
termination
  by (relation "measure (case_sum (\<lambda>(L, env, pre, fs, vs). size_list size fs) (\<lambda>(L, env, pre, t, v). size t))") auto

definition site_problem :: "config_lib \<Rightarrow> (string \<Rightarrow> string option) \<Rightarrow> site \<Rightarrow> problem list" where
  "site_problem L env s =
     (case effective env (si_var s) (si_tags s) of
        None \<Rightarrow> (if has_flag (si_flags s) ''required''
                then [\<lparr>pb_var = si_var s, pb_field = si_path s, pb_message = ''required but not set''\<rparr>] else [])
      | Some raw \<Rightarrow>
          (case set_value L (si_type s) raw (tag_get (si_tags s) ''sep'') of
             Inl e \<Rightarrow> [\<lparr>pb_var = si_var s, pb_field = si_path s, pb_message = e\<rparr>]
           | Inr w \<Rightarrow> []))"

definition site_problems :: "config_lib \<Rightarrow> (string \<Rightarrow> string option) \<Rightarrow> site list \<Rightarrow> problem list" where
  "site_problems L env ss = concat (map (site_problem L env) ss)"

lemma site_problems_simps [simp]:
  "site_problems L env [] = []"
  "site_problems L env (xs @ ys) = site_problems L env xs @ site_problems L env ys"
  by (simp_all add: site_problems_def)

lemma section_cases:
  obtains fs where "t = CStruct fs" | fs where "t = CPtr (CStruct fs)"
  | "\<forall>fs. t \<noteq> CStruct fs" "\<forall>fs. t \<noteq> CPtr (CStruct fs)"
  by blast

declare fits.simps [simp del] declared_in.simps [simp del] sites_in.simps [simp del] filled_in.simps [simp del]
  load_section.simps [simp del]

lemma section_struct [simp]:
  "fits (CStruct fs) v \<longleftrightarrow> (\<exists>vs. v = CVStruct vs \<and> fits_fields fs vs)"
  "declared_in pre vp (CStruct fs) = declared pre vp fs"
  "sites_in env pre gp (CStruct fs) = sites env pre gp fs"
  "filled_in L env pre (CStruct fs) (CVStruct vs) = CVStruct (filled L env pre fs vs)"
  by (simp_all add: fits.simps declared_in.simps sites_in.simps filled_in.simps split: cval.split)

lemma section_pointer [simp]:
  "fits (CPtr (CStruct fs)) v"
  "declared_in pre vp (CPtr (CStruct fs)) = declared pre vp fs"
  "sites_in env pre gp (CPtr (CStruct fs)) = (if any_set env (declared pre [] fs) then sites env pre gp fs else [])"
  "filled_in L env pre (CPtr (CStruct fs)) v =
     (if any_set env (declared pre [] fs) then CVPtr (Some (CVStruct (filled L env pre fs (map fzero fs)))) else v)"
  by (simp_all add: fits.simps declared_in.simps sites_in.simps filled_in.simps)

lemma no_section:
  assumes "\<forall>fs. t \<noteq> CStruct fs" "\<forall>fs. t \<noteq> CPtr (CStruct fs)"
  shows "fits t v" "declared_in pre vp t = []" "sites_in env pre gp t = []" "filled_in L env pre t v = v"
    "load_section L env pre gp vp t v st = (v, st)"
  using assms
  by (simp_all add: fits.simps declared_in.simps sites_in.simps filled_in.simps load_section.simps split: ctype.split)

lemma declared_paths:
  "map snd (declared pre vp fs) = map snd (declared pre vp' fs)"
  "map snd (declared_in pre vp t) = map snd (declared_in pre vp' t)"
proof (induction pre vp fs and pre vp t arbitrary: vp' and vp' rule: declared_declared_in.induct)
  case (2 pre vp name t exported tags fs)
  show ?case
    using 2(1) [of "path_join vp' (field_name tags name)"] 2(2) [of vp']
    by (auto split: option.splits)
next
  case (3 pre vp t)
  show ?case
  proof (cases t rule: section_cases)
    case (1 fs)
    then show ?thesis using 3(2) [OF 1, of vp'] by (simp only: section_struct)
  next
    case (2 fs)
    then show ?thesis using 3(1) [OF 2 refl, of vp'] by (simp only: section_pointer)
  qed (simp add: no_section)
qed simp

lemma any_set_snd: "any_set env ds \<longleftrightarrow> list_ex (var_set env) (map snd ds)"
  by (force simp: any_set_def list_ex_iff)

lemma any_set_declared: "any_set env (declared pre vp fs) \<longleftrightarrow> any_set env (declared pre [] fs)"
  by (simp only: any_set_snd declared_paths(1) [of pre vp fs "[]"])

definition count_set :: "(string \<Rightarrow> string option) \<Rightarrow> (string \<times> string) list \<Rightarrow> nat" where
  "count_set env ds = length (filter (\<lambda>(p, var). var_set env var) ds)"

lemma count_set_simps [simp]:
  "count_set env [] = 0"
  "count_set env (xs @ ys) = count_set env xs + count_set env ys"
  by (simp_all add: count_set_def)

lemma count_set_pos: "count_set env ds > 0 \<longleftrightarrow> any_set env ds"
  by (auto simp: count_set_def any_set_def list_ex_iff filter_empty_conv)

text \<open>The loader after a struct: what it was before, and what the struct adds.\<close>

definition loader_after :: "loader \<Rightarrow> problem list \<Rightarrow> nat \<Rightarrow> (string \<times> string) list \<Rightarrow> loader" where
  "loader_after st ps n ds =
     \<lparr>ld_problems = ld_problems st @ ps, ld_found = ld_found st + n, ld_vars = ld_vars st ++ map_of (rev ds)\<rparr>"

lemma loader_after_nothing [simp]: "loader_after st [] 0 [] = st"
  by (simp add: loader_after_def)

lemma loader_after_twice:
  "loader_after (loader_after st ps n ds) ps' n' ds' = loader_after st (ps @ ps') (n + n') (ds @ ds')"
  by (simp add: loader_after_def)

lemma load_var_is:
  "load_var L env var flags gp vp t tags v st =
     (var_value L env var tags t v,
      loader_after st (site_problem L env \<lparr>si_var = var, si_flags = flags, si_path = gp, si_type = t, si_tags = tags\<rparr>)
        (count_set env [(vp, var)]) [(vp, var)])"
  by (simp add: load_var_def var_value_def site_problem_def loader_after_def add_problem_def count_set_def Let_def
      split: option.splits sum.splits)

lemma end_section_is:
  "end_section v ws (loader_after (section_loader st) ps n ds) st =
     (if n > 0 then (CVPtr (Some (CVStruct ws)), loader_after st ps n ds) else (v, loader_after st [] 0 ds))"
  by (simp add: end_section_def loader_after_def section_loader_def)

lemma fields_cons:
  "declared pre vp (f # fs) = declared pre vp [f] @ declared pre vp fs"
  "sites env pre gp (f # fs) = sites env pre gp [f] @ sites env pre gp fs"
  "filled L env pre (f # fs) (v # vs) = hd (filled L env pre [f] [v]) # filled L env pre fs vs"
  by (cases f; simp split: option.split)+

lemma fits_fields_all2: "fits_fields fs vs \<longleftrightarrow> list_all2 (\<lambda>f v. fits (cf_type f) v) fs vs"
  by (induction fs arbitrary: vs) (auto split: list.split)

lemma zero_fits_each: "fits t (czero t)" "fits (cf_type f) (fzero f)"
proof (induction t and f)
  case (CStruct fs)
  then show ?case by (auto simp: fits_fields_all2 list_all2_map2 list_all2_same)
qed (simp_all add: fits.simps split: ctype.split)

lemma zero_fits: "fits_fields fs (map fzero fs)"
  by (simp add: fits_fields_all2 list_all2_map2 list_all2_same zero_fits_each)

lemma count_cases:
  "any_set env (declared pre [] fs) \<Longrightarrow> count_set env (declared pre vp fs) > 0"
  "\<not> any_set env (declared pre [] fs) \<Longrightarrow> count_set env (declared pre vp fs) = 0"
  using count_set_pos [of env "declared pre vp fs"] any_set_declared [of env pre vp fs] by auto

text \<open>The loop over the fields and its recursion, without the loader.\<close>

lemma load_fields_is:
  "fits_fields fs vs \<Longrightarrow> load_fields L env pre gp vp fs vs st =
     (filled L env pre fs vs,
      loader_after st (site_problems L env (sites env pre gp fs)) (count_set env (declared pre vp fs)) (declared pre vp fs))"
  "fits (cf_type f) v \<Longrightarrow> load_field L env pre gp vp f v st =
     (hd (filled L env pre [f] [v]),
      loader_after st (site_problems L env (sites env pre gp [f])) (count_set env (declared pre vp [f])) (declared pre vp [f]))"
  "fits t v \<Longrightarrow> load_section L env pre gp vp t v st =
     (filled_in L env pre t v,
      loader_after st (site_problems L env (sites_in env pre gp t)) 
        (count_set env (declared_in pre vp t)) (declared_in pre vp t))"
proof (induction L env pre gp vp fs vs st and L env pre gp vp f v st and L env pre gp vp t v st
    rule: load_fields_load_field_load_section.induct)
  case (1 L env pre gp vp f fs v vs st)
  have ok: "fits (cf_type f) v" "fits_fields fs vs" using 1(3) by simp_all
  show ?case
    unfolding load_fields.simps(1) 1(1) [OF ok(1)] prod.case fields_cons(1) [of pre vp f fs] fields_cons(2) [of env pre gp f fs] fields_cons(3) [of L env pre f fs v vs]
    by (simp only: 1(2) [OF 1(1) [OF ok(1), symmetric] ok(2)] prod.case loader_after_twice count_set_simps site_problems_simps)
next
  case (4 L env pre gp vp name t exported tags v st)
  show ?case
  proof (cases "exported")
    case e: True
    show ?thesis
    proof (cases "map_of tags ''env'' = None")
      case True
      then show ?thesis using 4 e by simp
    next
      case False
      then show ?thesis using e
        by (cases "env_var pre tags") (auto simp: load_var_is site_problems_def)
    qed
  qed simp
next
  case (5 L env pre gp vp t v st)
  show ?case
  proof (cases t rule: section_cases)
    case (1 fs)
    then obtain vs where "v = CVStruct vs" "fits_fields fs vs" using 5(3) by auto
    then show ?thesis using 5 1 by (simp add: load_section.simps)
  next
    case (2 fs)
    then show ?thesis using 5(1) [OF 2 refl] zero_fits [of fs] count_cases [of env pre fs vp]
      by (cases "any_set env (declared pre [] fs)") (simp_all add: load_section.simps end_section_is)
  qed (simp add: no_section)
qed simp_all

section \<open>Loading reports every problem\<close>

definition site_ok :: "config_lib \<Rightarrow> (string \<Rightarrow> string option) \<Rightarrow> site \<Rightarrow> bool" where
  "site_ok L env s \<longleftrightarrow>
     (case effective env (si_var s) (si_tags s) of
        None \<Rightarrow> \<not> has_flag (si_flags s) ''required''
      | Some raw \<Rightarrow> \<exists>w. set_value L (si_type s) raw (tag_get (si_tags s) ''sep'') = Inr w)"

lemma missing_not_ok:
  "filter (\<lambda>s. has_flag (si_flags s) ''required'' \<and> effective env (si_var s) (si_tags s) = None) ss \<noteq> [] \<Longrightarrow>
     \<not> list_all (site_ok L env) ss"
  by (induction ss) (auto simp: site_ok_def split: if_splits)

lemma new_loader_after [simp]:
  "ld_problems (loader_after new_loader ps n ds) = ps"
  "ld_vars (loader_after new_loader ps n ds) = map_of (rev ds)"
  by (simp_all add: loader_after_def new_loader_def)

lemma site_problem_ok: "site_problem L env s = [] \<longleftrightarrow> site_ok L env s"
  by (auto simp: site_problem_def site_ok_def split: option.split sum.split)

lemma site_problem_place:
  "p \<in> set (site_problem L env s) \<Longrightarrow> \<not> site_ok L env s \<and> pb_var p = si_var s \<and> pb_field p = si_path s"
  by (auto simp: site_problem_def site_ok_def split: option.splits sum.splits if_splits)

lemma map_problem_places:
  "map (\<lambda>p. (pb_var p, pb_field p)) (site_problems L env ss) = map (\<lambda>s. (si_var s, si_path s)) (filter (\<lambda>s. \<not> site_ok L env s) ss)"
proof (induction ss)
  case (Cons s ss)
  have "map (\<lambda>p. (pb_var p, pb_field p)) (site_problem L env s) = (if site_ok L env s then [] else [(si_var s, si_path s)])"
    by (auto simp: site_problem_def site_ok_def split: option.splits sum.splits)
  then show ?case using Cons.IH by (simp add: site_problems_def)
qed simp

lemma site_problems_none: "site_problems L env ss = [] \<longleftrightarrow> list_all (site_ok L env) ss"
  by (auto simp: site_problems_def site_problem_ok list_all_iff)

lemma field_problems_new: "p \<in> set (field_problems vars reported es) \<Longrightarrow> pb_var p = [] \<or> pb_var p \<notin> set reported"
  by (auto simp: field_problems_def Let_def split: if_splits option.splits)

lemma field_problems_none: "field_problems vars [] es = [] \<longleftrightarrow> es = []"
  by (cases es) (auto simp: field_problems_def Let_def)

text \<open>What a failed load reports: the failing fields in order, then problems of other variables.\<close>

definition reports :: "config_lib \<Rightarrow> (string \<Rightarrow> string option) \<Rightarrow> site list \<Rightarrow> problem list \<Rightarrow> bool" where
  "reports L env ss ps \<longleftrightarrow>
     (\<exists>more. map (\<lambda>p. (pb_var p, pb_field p)) ps = map (\<lambda>s. (si_var s, si_path s)) (filter (\<lambda>s. \<not> site_ok L env s) ss) @ more \<and>
        (\<forall>(x, f) \<in> set more. x = [] \<or> (\<forall>s \<in> set ss. site_ok L env s \<or> si_var s \<noteq> x)))"

lemma failing_reported:
  "s \<in> set ss \<Longrightarrow> \<not> site_ok L env s \<Longrightarrow> si_var s \<in> set (map pb_var (site_problems L env ss))"
proof -
  assume s: "s \<in> set ss" "\<not> site_ok L env s"
  then have "(si_var s, si_path s) \<in> set (map (\<lambda>p. (pb_var p, pb_field p)) (site_problems L env ss))"
    unfolding map_problem_places by auto
  then show ?thesis by auto
qed

lemma reports_problems:
  "reports L env ss (site_problems L env ss @ field_problems vars (map pb_var (site_problems L env ss)) es)"
  "reports L env ss (site_problems L env ss)"
proof -
  have "x = [] \<or> (\<forall>s \<in> set ss. site_ok L env s \<or> si_var s \<noteq> x)"
    if "(x, f) \<in> set (map (\<lambda>p. (pb_var p, pb_field p)) (field_problems vars (map pb_var (site_problems L env ss)) es))" for x f
  proof -
    have "x = [] \<or> x \<notin> set (map pb_var (site_problems L env ss))"
    proof -
      obtain p where "p \<in> set (field_problems vars (map pb_var (site_problems L env ss)) es)" "x = pb_var p"
        using \<open>(x, f) \<in> _\<close> by (metis (no_types, lifting) fst_conv image_iff image_set)
      then show ?thesis using field_problems_new by blast
    qed
    then show ?thesis using failing_reported by metis
  qed
  then show "reports L env ss (site_problems L env ss @ field_problems vars (map pb_var (site_problems L env ss)) es)"
    unfolding reports_def map_append map_problem_places by blast
  show "reports L env ss (site_problems L env ss)"
    unfolding reports_def map_problem_places by (rule exI [of _ "[]"]) simp
qed

text \<open>C34: Loading a configuration. Whatever the struct type, its earlier values and the environment: the values afterwards are
  those the variables and defaults determine, optional sections being filled exactly when one of their variables is set; loading
  succeeds exactly when every required variable in force is set, every value parses and the validator accepts the result; and a
  failed load names every missing or unparsable variable, in order, before the findings of the validator on other variables.\<close>

theorem load_config_exact:
  assumes "fits_fields fs vs" "load_config L env pre val fs vs = (r, ws)"
  shows "ws = filled L env pre fs vs \<and>
    (r = Loaded \<longleftrightarrow> list_all (site_ok L env) (sites env pre [] fs) \<and> val ws \<in> {ConfigValid, FieldsInvalid []}) \<and>
    (\<forall>ps. r = Problems ps \<longrightarrow> ps \<noteq> [] \<and> reports L env (sites env pre [] fs) ps)"
proof -
  let ?ss = "sites env pre [] fs"
  note load = load_fields_is(1) [OF assms(1), of L env pre "[]" "[]" new_loader]
  have ws: "ws = filled L env pre fs vs"
    using assms(2) unfolding load_config_def load prod.case by (simp add: Let_def split: sum.splits)
  show ?thesis
  proof (cases "val ws")
    case ConfigValid
    then have "r = (if site_problems L env ?ss = [] then Loaded else Problems (site_problems L env ?ss))"
      using assms(2) ws unfolding load_config_def load prod.case by (auto simp add: Let_def)
    then show ?thesis using ws ConfigValid reports_problems(2) by (simp add: site_problems_none)
  next
    case (FieldsInvalid es)
    let ?all = "site_problems L env ?ss @ field_problems (map_of (rev (declared pre [] fs))) (map pb_var (site_problems L env ?ss)) es"
    have r: "r = (if ?all = [] then Loaded else Problems ?all)"
      using assms(2) ws FieldsInvalid unfolding load_config_def load prod.case
      by (auto simp add: Let_def)
    have "?all = [] \<longleftrightarrow> list_all (site_ok L env) ?ss \<and> es = []"
      using field_problems_none by (auto simp: site_problems_none [symmetric])
    then show ?thesis using ws FieldsInvalid r reports_problems(1) by (metis insert_iff config_verdict.distinct(1)
          config_verdict.inject(1) empty_iff load_result.distinct(1) load_result.inject(1))
  next
    case (CannotValidate e)
    then have "r = LoadFailed (''config: '' @ e)"
      using assms(2) ws unfolding load_config_def load prod.case by (simp add: Let_def)
    then show ?thesis using ws CannotValidate by simp
  qed
qed

definition plain_lib :: config_lib where
  "plain_lib = \<lparr>cl_float = (\<lambda>b s. None), cl_duration = (\<lambda>s. None), cl_url = Some, cl_text = (\<lambda>n s. Inr s), cl_quote = (\<lambda>s. s)\<rparr>"

definition server_fields :: "cfield list" where
  "server_fields =
     [CField ''Port'' (CInt 64) True [(''env'', ''PORT''), (''default'', ''8080'')],
      CField ''Token'' CSecret True [(''env'', ''TOKEN,required'')],
      CField ''Redis'' (CPtr (CStruct [CField ''Host'' CString True [(''env'', ''HOST,required'')],
         CField ''DB'' (CInt 64) True [(''env'', ''DB'')]])) True [(''envPrefix'', ''REDIS_'')]]"

theorem load_config_exact_witness:
  "\<exists>r ws. load_config plain_lib (map_of [(''TOKEN'', ''t''), (''REDIS_DB'', ''x'')]) [] (\<lambda>_. ConfigValid) server_fields
        (map fzero server_fields) = (r, ws) \<and>
      ws = [CVInt 8080, CVSecret ''t'', CVPtr (Some (CVStruct [CVString [], CVInt 0]))] \<and> r \<noteq> Loaded"
proof -
  let ?env = "map_of [(''TOKEN'', ''t''), (''REDIS_DB'', ''x'')]"
  obtain r ws where l: "load_config plain_lib ?env [] (\<lambda>_. ConfigValid) server_fields (map fzero server_fields) = (r, ws)"
    by (cases "load_config plain_lib ?env [] (\<lambda>_. ConfigValid) server_fields (map fzero server_fields)")
  have "filled plain_lib ?env [] server_fields (map fzero server_fields) =
      [CVInt 8080, CVSecret ''t'', CVPtr (Some (CVStruct [CVString [], CVInt 0]))]" by code_simp
  moreover have "filter (\<lambda>s. has_flag (si_flags s) ''required'' \<and> effective ?env (si_var s) (si_tags s) = None)
      (sites ?env [] [] server_fields) \<noteq> []" by code_simp
  then have "\<not> list_all (site_ok plain_lib ?env) (sites ?env [] [] server_fields)"
    by (rule missing_not_ok)
  ultimately show ?thesis using load_config_exact [OF zero_fits l] l by auto
qed

section \<open>Secrets stay secret\<close>

text \<open>What is left of a value when every \<open>Secret\<close> in it is replaced by the same placeholder.\<close>

fun masked :: "cval \<Rightarrow> cval" where
  "masked (CVSecret s) = CVSecret []"
| "masked (CVPtr p) = CVPtr (map_option masked p)"
| "masked (CVSlice s) = CVSlice (map_option (map masked) s)"
| "masked (CVStruct vs) = CVStruct (map masked vs)"
| "masked v = v"

text \<open>Whether a field with a variable is a secret.\<close>

definition secret_field :: "ctype \<Rightarrow> (string \<times> string) list \<Rightarrow> bool" where
  "secret_field t tags \<longleftrightarrow> t = CSecret \<or> (case env_var [] tags of None \<Rightarrow> False | Some (var, flags) \<Rightarrow> has_flag flags ''secret'')"

text \<open>Two values of a type that differ in their secrets only: fields that are secrets need only agree on being empty, the others on
  what is left when the secrets inside are masked, and fields without variables on nothing.\<close>

function alike :: "cfield list \<Rightarrow> cval list \<Rightarrow> cval list \<Rightarrow> bool" and alike_in :: "ctype \<Rightarrow> cval \<Rightarrow> cval \<Rightarrow> bool" where
  "alike [] vs ws \<longleftrightarrow> vs = [] \<and> ws = []"
| "alike (CField name t exported tags # fs) vs ws \<longleftrightarrow>
     (case (vs, ws) of
        (v # vs', w # ws') \<Rightarrow>
          alike fs vs' ws' \<and>
          (if \<not> exported then True
           else if map_of tags ''env'' = None then alike_in t v w
           else if secret_field t tags then is_czero v = is_czero w
           else masked v = masked w)
      | _ \<Rightarrow> False)"
| "alike_in t v w \<longleftrightarrow>
     (case t of
        CStruct fs \<Rightarrow> (case (v, w) of (CVStruct vs, CVStruct ws) \<Rightarrow> alike fs vs ws | _ \<Rightarrow> False)
      | CPtr (CStruct fs) \<Rightarrow>
          (case (v, w) of
             (CVPtr (Some (CVStruct vs)), CVPtr (Some (CVStruct ws))) \<Rightarrow> alike fs vs ws
           | (CVPtr None, CVPtr None) \<Rightarrow> True
           | _ \<Rightarrow> False)
      | _ \<Rightarrow> True)"
  by pat_completeness auto
termination
  by (relation "measure (case_sum (\<lambda>(fs, vs, ws). size_list size fs) (\<lambda>(t, v, w). size t))") auto

declare alike_in.simps [simp del] section_entries.simps [simp del]

lemma alike_struct [simp]:
  "alike_in (CStruct fs) v w \<longleftrightarrow> (\<exists>vs ws. v = CVStruct vs \<and> w = CVStruct ws \<and> alike fs vs ws)"
  by (auto simp: alike_in.simps split: cval.split)

lemma alike_pointer:
  "alike_in (CPtr (CStruct fs)) v w \<Longrightarrow>
     (\<exists>vs ws. v = CVPtr (Some (CVStruct vs)) \<and> w = CVPtr (Some (CVStruct ws)) \<and> alike fs vs ws) \<or> v = CVPtr None \<and> w = CVPtr None"
  by (simp add: alike_in.simps split: cval.splits option.splits)

lemma section_entries_simps [simp]:
  "section_entries sprint pre gp (CStruct fs) (CVStruct vs) = collect_entries sprint pre gp fs vs"
  "section_entries sprint pre gp (CPtr (CStruct fs)) (CVPtr (Some (CVStruct vs))) = collect_entries sprint pre gp fs vs"
  "section_entries sprint pre gp (CPtr (CStruct fs)) (CVPtr None) = []"
  by (simp_all add: section_entries.simps)

lemma env_var_prefix: "env_var pre tags = map_option (\<lambda>(var, flags). (pre @ var, flags)) (env_var [] tags)"
  by (simp add: env_var_def split: option.split prod.split)

lemma entries_alike:
  assumes "\<And>t v w. masked v = masked w \<Longrightarrow> sprint t v = sprint t w"
  shows "alike fs vs ws \<Longrightarrow> collect_entries sprint pre gp fs vs = collect_entries sprint pre gp fs ws"
    and "alike_in t v w \<Longrightarrow> section_entries sprint pre gp t v = section_entries sprint pre gp t w"
proof (induction fs vs ws and t v w arbitrary: pre gp and pre gp rule: alike_alike_in.induct)
  case (2 name t exported tags fs vs ws)
  then obtain v vs' w ws' where e: "vs = v # vs'" "ws = w # ws'" by (auto split: list.splits)
  have "field_entries sprint pre gp (CField name t exported tags) v = field_entries sprint pre gp (CField name t exported tags) w"
  proof (cases "exported \<and> map_of tags ''env'' \<noteq> None")
    case True
    then obtain tag where x: "exported" "map_of tags ''env'' = Some tag" by auto
    show ?thesis
    proof (cases "env_var [] tags")
      case None
      then show ?thesis using x env_var_prefix [of pre tags] by simp
    next
      case (Some p)
      obtain var flags where p: "p = (var, flags)" by (cases p)
      have "if secret_field t tags then is_czero v = is_czero w else masked v = masked w"
        using 2(3) e x by simp
      then have "entry_value sprint t flags v = entry_value sprint t flags w"
        using Some p assms [of v w t] by (simp add: entry_value_def secret_field_def split: if_splits)
      then show ?thesis using Some p x env_var_prefix [of pre tags] by simp
    qed
  next
    case False
    then show ?thesis using 2(3) 2(2) [OF refl e] e by auto
  qed
  then show ?case using 2(3) 2(1) [OF refl e, of pre gp] e by simp
next
  case (3 t v w)
  show ?case
  proof (cases t rule: section_cases)
    case (1 fs)
    then obtain vs ws where "v = CVStruct vs" "w = CVStruct ws" "alike fs vs ws" using 3(3) by auto
    then show ?thesis using 3(1,2) 1 by simp
  next
    case (2 fs)
    with 3(3) consider vs ws where "v = CVPtr (Some (CVStruct vs))" "w = CVPtr (Some (CVStruct ws))" "alike fs vs ws"
      | "v = CVPtr None" "w = CVPtr None" using alike_pointer [of fs v w] by blast
    then show ?thesis using 3(1,2) 2 by cases simp_all
  qed (auto simp: section_entries.simps split: ctype.split)
qed simp

text \<open>C35: \<open>Redacted\<close> keeps secrets secret. Two configurations that differ only in their secrets, and in which the same secrets are
  empty, are listed alike: nothing in the list depends on a secret but whether it is set. What is assumed is that \<open>fmt\<close> prints
  every \<open>Secret\<close> by its method \<open>String\<close>, wherever it is in a value.\<close>

theorem redacted_hides_secrets:
  assumes "\<And>t v w. masked v = masked w \<Longrightarrow> sprint t v = sprint t w"
    and "alike fs vs ws"
  shows "redacted_entries sprint fs vs = redacted_entries sprint fs ws"
proof -
  have "collect_entries sprint [] [] fs vs = collect_entries sprint [] [] fs ws" using assms by (rule entries_alike(1))
  then show ?thesis by (simp add: redacted_entries_def)
qed

fun show_value :: "cval \<Rightarrow> string" where
  "show_value (CVString s) = s"
| "show_value (CVSecret s) = redacted_text"
| "show_value (CVInt i) = dec_int i"
| "show_value (CVSlice (Some vs)) = ''['' @ join_with '' '' (map show_value vs) @ '']''"
| "show_value v = []"

lemma show_masked: "show_value (masked v) = show_value v"
proof (induction v rule: show_value.induct)
  case (4 vs)
  then have m: "map (\<lambda>x. show_value (masked x)) vs = map show_value vs" by simp
  show ?case by (simp only: masked.simps option.map show_value.simps map_map comp_def m)
qed simp_all

definition keyed_fields :: "cfield list" where
  "keyed_fields = [CField ''Port'' (CInt 64) True [(''env'', ''PORT'')], CField ''Token'' CSecret True [(''env'', ''TOKEN'')],
     CField ''Keys'' (CSlice CSecret) True [(''env'', ''KEYS'')], CField ''Dsn'' CString True [(''env'', ''DSN,secret'')]]"

theorem redacted_hides_secrets_witness:
  "redacted_entries (\<lambda>t. show_value) keyed_fields
      [CVInt 80, CVSecret ''a'', CVSlice (Some [CVSecret ''k'']), CVString ''x''] =
   redacted_entries (\<lambda>t. show_value) keyed_fields
      [CVInt 80, CVSecret ''bb'', CVSlice (Some [CVSecret ''l'']), CVString ''y'']"
proof (rule redacted_hides_secrets)
  show "show_value v = show_value w" if "masked v = masked w" for v w
    using that show_masked by metis
  show "alike keyed_fields [CVInt 80, CVSecret ''a'', CVSlice (Some [CVSecret ''k'']), CVString ''x'']
    [CVInt 80, CVSecret ''bb'', CVSlice (Some [CVSecret ''l'']), CVString ''y'']"
    by code_simp
qed

text \<open>The environment is never taken for development unless a variable says so.\<close>

lemma current_env_default:
  "fst (current_env lookup) = Production \<or> (\<exists>name \<in> {''TORGE_ENV'', ''APP_ENV''}. \<exists>v. lookup name = Some v \<and> parse_env v = Some (fst (current_env lookup)))"
  by (auto simp: current_env_def split: option.splits)

end
