(* ===== verification/Settings.thy ===== *)
theory Settings
  imports Complex_Main Config
begin

text \<open>
  \<open>config/database.go\<close> and \<open>config/redis.go\<close>: connection settings given as a URL or as parts, their validation and the
  connection strings built from them. Parsing and printing of URLs and of query strings are parameters; how a host and a port
  are joined and split is modelled.
\<close>

section \<open>Hosts and ports\<close>

text \<open>\<open>net.JoinHostPort\<close>.\<close>

definition join_host_port :: "string \<Rightarrow> string \<Rightarrow> string" where
  "join_host_port host port = (if CHR '':'' \<in> set host then ''['' @ host @ '']:'' @ port else host @ '':'' @ port)"

definition host_port :: "string \<Rightarrow> int \<Rightarrow> string" where
  "host_port host port =
     (let h = (if host = [] then ''localhost'' else host) in
      if port = 0 then (if CHR '':'' \<in> set h \<and> \<not> has_prefix h ''['' then ''['' @ h @ '']'' else h)
      else join_host_port h (dec_int port))"

text \<open>\<open>URL.Hostname\<close> and \<open>URL.Port\<close>: the port is what follows the last colon, if that is only digits.\<close>

definition url_last_colon :: "string \<Rightarrow> (string \<times> string) option" where
  "url_last_colon s =
     (case cut_at CHR '':'' (rev s) of (p, h, found) \<Rightarrow> if found then Some (rev h, rev p) else None)"

definition url_host_port :: "string \<Rightarrow> string \<times> string" where
  "url_host_port s =
     (let (h, p) = (case url_last_colon s of Some (h, p) \<Rightarrow> if list_all is_dec_digit p then (h, p) else (s, []) | None \<Rightarrow> (s, []))
      in (if has_prefix h ''['' \<and> has_suffix h '']'' then butlast (tl h) else h, p))"

record url_parts =
  up_scheme :: string
  up_user :: "(string \<times> string option) option"
  up_host :: string
  up_path :: string
  up_query :: string

text \<open>\<open>url.Parse\<close>, \<open>URL.String\<close>, whether \<open>url.ParseQuery\<close> succeeds, and the query with \<open>parseTime\<close> set if it was not.\<close>

record url_lib =
  ul_parse :: "string \<Rightarrow> url_parts option"
  ul_string :: "url_parts \<Rightarrow> string"
  ul_query_ok :: "string \<Rightarrow> bool"
  ul_parse_time :: "string \<Rightarrow> string"

section \<open>Databases\<close>

record database =
  db_url :: string
  db_host :: string
  db_port :: int
  db_user :: string
  db_password :: string
  db_name :: string
  db_params :: string

definition db_field_error :: "string \<Rightarrow> string \<Rightarrow> string \<Rightarrow> field_error" where
  "db_field_error field rule msg = \<lparr>fe_field = field, fe_rule = rule, fe_param = [], fe_message = msg\<rparr>"

definition db_validate :: "url_lib \<Rightarrow> database \<Rightarrow> field_error list" where
  "db_validate L d =
     (if db_url d \<noteq> []
      then (if contains_str (db_url d) ''://'' \<and> ul_parse L (db_url d) = None
            then [db_field_error ''URL'' ''url'' ''is not a valid URL''] else [])
      else if db_host d = [] \<and> db_name d = []
      then [db_field_error ''URL'' ''required'' ''is required: set the URL, or the host and database name'']
      else []) @
     (if ul_query_ok L (db_params d) then []
      else [db_field_error ''Params'' ''query'' ''must be in key=value&key=value form''])"

definition db_database :: "url_lib \<Rightarrow> database \<Rightarrow> string" where
  "db_database L d =
     (if db_url d = [] then db_name d
      else case ul_parse L (db_url d) of None \<Rightarrow> db_name d | Some u \<Rightarrow> trim_prefix (up_path u) ''/'')"

definition user_info :: "string \<Rightarrow> string \<Rightarrow> (string \<times> string option) option" where
  "user_info user password =
     (if user \<noteq> [] \<and> password \<noteq> [] then Some (user, Some password) else if user \<noteq> [] then Some (user, None) else None)"

definition db_url_parts :: "string \<Rightarrow> database \<Rightarrow> url_parts" where
  "db_url_parts scheme d =
     \<lparr>up_scheme = scheme, up_user = user_info (db_user d) (db_password d), up_host = host_port (db_host d) (db_port d),
      up_path = [], up_query = db_params d\<rparr>"

definition db_build_url :: "url_lib \<Rightarrow> string \<Rightarrow> database \<Rightarrow> string" where
  "db_build_url L scheme d = ul_string L ((db_url_parts scheme d)\<lparr>up_path := ''/'' @ db_name d\<rparr>)"

definition postgres_dsn :: "url_lib \<Rightarrow> database \<Rightarrow> string" where
  "postgres_dsn L d = (if db_url d \<noteq> [] then db_url d else db_build_url L ''postgres'' d)"

definition mongo_uri :: "url_lib \<Rightarrow> database \<Rightarrow> string" where
  "mongo_uri L d =
     (if db_url d \<noteq> [] then db_url d else ul_string L ((db_url_parts ''mongodb'' d)\<lparr>up_path := ''/''\<rparr>))"

text \<open>The parts of a \<open>mysql://\<close> URL; an unreadable port counts as none.\<close>

definition parts_of_url :: "url_parts \<Rightarrow> database" where
  "parts_of_url u =
     \<lparr>db_url = [], db_host = fst (url_host_port (up_host u)),
      db_port = (case atoi (snd (url_host_port (up_host u))) of None \<Rightarrow> 0 | Some n \<Rightarrow> n),
      db_user = (case up_user u of None \<Rightarrow> [] | Some (n, p) \<Rightarrow> n),
      db_password = (case up_user u of Some (n, Some p) \<Rightarrow> p | _ \<Rightarrow> []),
      db_name = trim_prefix (up_path u) ''/'', db_params = up_query u\<rparr>"

definition mysql_from_parts :: "url_lib \<Rightarrow> database \<Rightarrow> string" where
  "mysql_from_parts L d =
     (if db_user d \<noteq> [] then db_user d @ (if db_password d \<noteq> [] then '':'' @ db_password d else []) @ ''@'' else []) @
     ''tcp('' @ host_port (db_host d) (db_port d) @ '')/'' @ db_name d @ ''?'' @ ul_parse_time L (db_params d)"

definition mysql_dsn :: "url_lib \<Rightarrow> database \<Rightarrow> string" where
  "mysql_dsn L d =
     (if db_url d \<noteq> []
      then (if \<not> has_prefix (db_url d) ''mysql://'' then db_url d
            else case ul_parse L (db_url d) of None \<Rightarrow> db_url d | Some u \<Rightarrow> mysql_from_parts L (parts_of_url u))
      else mysql_from_parts L d)"

definition sqlite_dsn :: "database \<Rightarrow> string" where
  "sqlite_dsn d =
     (let dsn = (if db_url d \<noteq> [] then trim_prefix (trim_prefix (db_url d) ''sqlite3://'') ''sqlite://'' else db_name d)
      in if db_params d \<noteq> [] then dsn @ (if contains_str dsn ''?'' then ''&'' else ''?'') @ db_params d else dsn)"

section \<open>Redis\<close>

record redis_settings =
  rd_url :: string
  rd_host :: string
  rd_port :: int
  rd_username :: string
  rd_password :: string
  rd_db :: int
  rd_tls :: bool

definition redis_validate :: "url_lib \<Rightarrow> redis_settings \<Rightarrow> field_error list" where
  "redis_validate L r =
     (if rd_url r \<noteq> []
      then (case ul_parse L (rd_url r) of
              Some u \<Rightarrow> if up_scheme u \<in> {''redis'', ''rediss'', ''unix''} then []
                        else [db_field_error ''URL'' ''url'' ''must be a redis://, rediss:// or unix:// URL'']
            | None \<Rightarrow> [db_field_error ''URL'' ''url'' ''must be a redis://, rediss:// or unix:// URL''])
      else if rd_host r = [] then [db_field_error ''URL'' ''required'' ''is required: set the URL, or the host''] else [])"

definition redis_port :: "redis_settings \<Rightarrow> int" where
  "redis_port r = (if rd_port r = 0 then 6379 else rd_port r)"

definition connection_url :: "url_lib \<Rightarrow> redis_settings \<Rightarrow> string" where
  "connection_url L r =
     (if rd_url r \<noteq> [] then rd_url r
      else ul_string L \<lparr>up_scheme = (if rd_tls r then ''rediss'' else ''redis''),
        up_user = (if rd_password r \<noteq> [] then Some (rd_username r, Some (rd_password r))
                   else if rd_username r \<noteq> [] then Some (rd_username r, None) else None),
        up_host = host_port (rd_host r) (redis_port r), up_path = ''/'' @ dec_int (rd_db r), up_query = []\<rparr>)"

definition redis_addr :: "url_lib \<Rightarrow> redis_settings \<Rightarrow> string" where
  "redis_addr L r =
     (if rd_url r \<noteq> []
      then (case ul_parse L (rd_url r) of
              Some u \<Rightarrow>
                (if up_scheme u \<noteq> ''unix''
                 then (if snd (url_host_port (up_host u)) = [] then host_port (fst (url_host_port (up_host u))) 6379
                       else up_host u)
                 else trim_prefix (rd_url r) ''unix://'')
            | None \<Rightarrow> trim_prefix (rd_url r) ''unix://'')
      else host_port (rd_host r) (redis_port r))"

section \<open>Hosts survive\<close>

lemma url_last_colon_append: "CHR '':'' \<notin> set p \<Longrightarrow> url_last_colon (h @ CHR '':'' # p) = Some (h, p)"
  using cut_at_append [of "CHR '':''" "rev p" "rev h"] by (simp add: url_last_colon_def)

lemma url_last_colon_none: "CHR '':'' \<notin> set h \<Longrightarrow> url_last_colon h = None"
  using cut_at_none [of "CHR '':''" "rev h"] by (simp add: url_last_colon_def)

lemma dec_int_digits:
  assumes "0 < n"
  shows "list_all is_dec_digit (dec_int n)" "CHR '':'' \<notin> set (dec_int n)"
proof -
  show d: "list_all is_dec_digit (dec_int n)" using assms dec_nat_digits by (simp add: dec_int_def)
  have "\<not> is_dec_digit CHR '':''" by (simp add: is_dec_digit_def char_code_def)
  with d show "CHR '':'' \<notin> set (dec_int n)" by (auto simp: list_all_iff)
qed

lemma atoi_dec_int:
  assumes "0 < n" "n < 65536"
  shows "atoi (dec_int n) = Some n"
proof -
  have d: "dec_int n = dec_nat (nat n)" "list_all is_dec_digit (dec_nat (nat n))" "dec_nat (nat n) \<noteq> []"
    using assms dec_nat_digits by (simp_all add: dec_int_def)
  have "\<not> is_dec_digit CHR ''-''" "\<not> is_dec_digit CHR ''+''" by (simp_all add: is_dec_digit_def char_code_def)
  with d have "hd (dec_nat (nat n)) \<noteq> CHR ''-''" "hd (dec_nat (nat n)) \<noteq> CHR ''+''"
    by (metis list.pred_inject(2) list.collapse)+
  with d show ?thesis using assms by (simp add: atoi_def dec_nat_value Let_def fits_i64_small)
qed

text \<open>A host name without colon or a bare IPv6 address, and a port of a server.\<close>

definition plain_host :: "string \<Rightarrow> bool" where
  "plain_host h \<longleftrightarrow> h \<noteq> [] \<and> \<not> has_prefix h ''['' \<and> (CHR '':'' \<in> set h \<or> \<not> has_suffix h '']'')"

lemma url_host_port_join:
  assumes "plain_host h" "0 \<le> n" "n < 65536"
  shows "url_host_port (host_port h n) = (h, if n = 0 then [] else dec_int n)"
proof (cases "n = 0")
  case True
  show ?thesis
  proof (cases "CHR '':'' \<in> set h")
    case c: True
    then obtain a b where h: "h = a @ CHR '':'' # b" "CHR '':'' \<notin> set b"
      using split_list_last by metis
    have "url_last_colon (''['' @ h @ '']'') = Some (CHR ''['' # a, b @ '']'')"
      using url_last_colon_append [of "b @ '']''" "CHR ''['' # a"] h by simp
    moreover have "\<not> is_dec_digit CHR '']''" by (simp add: is_dec_digit_def char_code_def)
    moreover have "host_port h n = ''['' @ h @ '']''" using assms c True by (simp add: host_port_def plain_host_def Let_def)
    ultimately show ?thesis using True
      by (simp add: url_host_port_def Let_def has_prefix_iff has_suffix_iff)
  next
    case c: False
    have "host_port h n = h" using assms c True by (simp add: host_port_def plain_host_def)
    moreover have "url_host_port h = (h, [])"
      using assms(1) c by (auto simp: url_host_port_def url_last_colon_none Let_def plain_host_def)
    ultimately show ?thesis using True by simp
  qed
next
  case False
  then have n: "0 < n" using assms(2) by simp
  note d = dec_int_digits [OF n]
  have hn: "host_port h n = join_host_port h (dec_int n)" using assms n by (simp add: host_port_def plain_host_def)
  show ?thesis
  proof (cases "CHR '':'' \<in> set h")
    case True
    have "url_last_colon (join_host_port h (dec_int n)) = Some (''['' @ h @ '']'', dec_int n)"
      using True url_last_colon_append [OF d(2), of "''['' @ h @ '']''"] by (simp add: join_host_port_def)
    then show ?thesis using d n by (simp add: hn url_host_port_def Let_def has_prefix_iff has_suffix_iff)
  next
    case c: False
    have "url_last_colon (join_host_port h (dec_int n)) = Some (h, dec_int n)"
      using c url_last_colon_append [OF d(2), of h] by (simp add: join_host_port_def)
    then show ?thesis using d n assms(1) c by (auto simp: hn url_host_port_def Let_def plain_host_def)
  qed
qed

text \<open>A \<open>mysql://\<close> URL that was printed from parts gives the connection string of the parts.\<close>

lemma mysql_url_is_parts:
  assumes "ul_parse L (ul_string L u) = Some u" "u = (db_url_parts ''mysql'' d)\<lparr>up_path := ''/'' @ db_name d\<rparr>"
    and "has_prefix (ul_string L u) ''mysql://''" "ul_string L u \<noteq> []"
    and "db_url d = []" "plain_host (db_host d)" "0 \<le> db_port d" "db_port d < 65536" "db_user d = [] \<Longrightarrow> db_password d = []"
  shows "mysql_dsn L (d\<lparr>db_url := ul_string L u\<rparr>) = mysql_dsn L d"
proof -
  have atoi: "db_port d \<noteq> 0 \<Longrightarrow> atoi (dec_int (db_port d)) = Some (db_port d)"
    using atoi_dec_int [of "db_port d"] assms(7,8) by simp
  have slash: "trim_prefix (CHR ''/'' # x) ''/'' = x" for x by (simp add: trim_prefix_def has_prefix_iff)
  have "atoi [] = None" by (simp add: atoi_def)
  then have port: "(case atoi (if db_port d = 0 then [] else dec_int (db_port d)) of None \<Rightarrow> 0 | Some n \<Rightarrow> n) = db_port d"
    using atoi by simp
  have "parts_of_url u = d"
    using assms(5,9) url_host_port_join [OF assms(6-8)] port unfolding assms(2)
    by (cases d) (auto simp: parts_of_url_def db_url_parts_def user_info_def slash)
  then show ?thesis using assms by (simp add: mysql_dsn_def)
qed

text \<open>A bracketed IPv6 address is bracketed again when there is a port: the result is no address.\<close>

lemma bracketed_host_twice: "p \<noteq> 0 \<Longrightarrow> host_port ''[::1]'' p = ''[[::1]]:'' @ dec_int p" "host_port ''[::1]'' 0 = ''[::1]''"
  by (simp_all add: host_port_def join_host_port_def has_prefix_iff)

end
