(* ===== verification/Upload.thy ===== *)
theory Upload
  imports Complex_Main Rules Errors
begin

text \<open>
  \<open>upload/upload.go\<close>: multipart uploads that are processed while they arrive, the names of uploaded files, and the
  storage of objects on disk. The multipart reader is a list of parts with an end; the data of a part arrives in chunks, one
  for each read. Content sniffing, media types and quoting are parameters, and so is the handler of a file, which gets
  what reading the file to its end yields and may have a state.
\<close>

section \<open>Options\<close>

record upload_options =
  uo_file_size :: int
  uo_files :: int
  uo_field_size :: int
  uo_fields :: int
  uo_types :: "string list"

definition upload_defaults :: "upload_options \<Rightarrow> upload_options" where
  "upload_defaults o' =
     o'\<lparr>uo_file_size := (if uo_file_size o' \<le> 0 then 10485760 else uo_file_size o'),
       uo_files := (if uo_files o' \<le> 0 then 10 else uo_files o'),
       uo_field_size := (if uo_field_size o' \<le> 0 then 65536 else uo_field_size o'),
       uo_fields := (if uo_fields o' \<le> 0 then 100 else uo_fields o')\<rparr>"

section \<open>File names\<close>

definition forbidden_rune :: "nat \<Rightarrow> bool" where
  "forbidden_rune r \<longleftrightarrow> r < 32 \<or> r = 127 \<or> r \<in> {60, 62, 58, 34, 124, 63, 42}"

text \<open>\<open>strings.Map\<close> with the function that drops runes: what is no UTF-8 becomes the replacement character.\<close>

function drop_runes :: "nat list \<Rightarrow> nat list" where
  "drop_runes [] = []"
| "drop_runes (b # bs) =
     (case decode_rune (b # bs) of
        (r, n) \<Rightarrow>
          (if forbidden_rune r then [] else if r = 65533 \<and> n = 1 then [239, 191, 189] else take n (b # bs)) @
          drop_runes (drop n (b # bs)))"
  by pat_completeness auto
termination
proof (relation "measure length")
  fix b r n :: nat and bs :: "nat list"
  assume "(r, n) = decode_rune (b # bs)"
  then show "(drop n (b # bs), b # bs) \<in> measure length"
    using decode_rune_size [of b bs] by (cases n) (simp_all add: prod_eq_iff del: decode_rune.simps)
qed simp

text \<open>\<open>path.Base\<close>.\<close>

definition path_base :: "string \<Rightarrow> string" where
  "path_base s =
     (if s = [] then ''.''
      else let t = rev (takeWhile (\<lambda>c. c \<noteq> CHR ''/'') (dropWhile (\<lambda>c. c = CHR ''/'') (rev s)))
           in if t = [] then ''/'' else t)"

text \<open>\<open>path.Ext\<close> of a name without slashes.\<close>

definition path_ext :: "string \<Rightarrow> string" where
  "path_ext s = (if CHR ''.'' \<in> set s then CHR ''.'' # rev (takeWhile (\<lambda>c. c \<noteq> CHR ''.'') (rev s)) else [])"

definition cut_name :: "string \<Rightarrow> string" where
  "cut_name name =
     (if length name > 255
      then (let e = path_ext name; ext = (if length e > 16 then [] else e) in take (255 - length ext) name @ ext)
      else name)"

definition sanitize_filename :: "string \<Rightarrow> string" where
  "sanitize_filename name =
     (let slashed = map (\<lambda>c. if c = CHR 0x5C then CHR ''/'' else c) name;
          base = path_base (CHR ''/'' # slashed);
          kept = map char_of (drop_runes (map char_code base));
          t = dropWhile (\<lambda>c. c = CHR ''.'') kept
      in if t = [] \<or> t = ''/'' then ''file'' else cut_name t)"

section \<open>Reading a file\<close>

record upload_file =
  uf_field :: string
  uf_name :: string
  uf_declared :: string
  uf_type :: string

datatype file_end = FileEnd | FileTooLarge | FileBroken

text \<open>
  The reads of \<open>limitedReader\<close> up to the first error: what they deliver and how they end. \<open>n\<close> bytes were read before;
  \<open>broken\<close> is whether the part ends with an error of the multipart reader.
\<close>

fun file_content :: "int \<Rightarrow> int \<Rightarrow> bytes list \<Rightarrow> bool \<Rightarrow> bytes \<times> file_end" where
  "file_content limit n [] broken = ([], if n > limit then FileTooLarge else if broken then FileBroken else FileEnd)"
| "file_content limit n (c # cs) broken =
     (let n' = n + int (length c) in
      if n' > limit then (c, FileTooLarge)
      else case file_content limit n' cs broken of (b, e) \<Rightarrow> (c @ b, e))"

section \<open>Streaming\<close>

record part =
  pt_form :: string
  pt_file :: string
  pt_declared :: string
  pt_chunks :: "bytes list"
  pt_broken :: bool

text \<open>How the parts end: with the final boundary; cut off where a boundary was to come, which \<open>NextPart\<close> reports as a wrapped
  \<open>io.EOF\<close>; over the server's limit for the body; or in another error of the multipart reader.\<close>

datatype body_end = BodyEnd | BodyCut | BodyTooLarge int | BodyMalformed string

record upload_lib =
  ub_sniff :: "bytes \<Rightarrow> string"
  ub_media :: "string \<Rightarrow> string option"
  ub_quote :: "string \<Rightarrow> string"

type_synonym 'd upload_error = "'d go_error"

definition part_data :: "part \<Rightarrow> bytes" where
  "part_data p = concat (pt_chunks p)"

definition base_type :: "upload_lib \<Rightarrow> string \<Rightarrow> string" where
  "base_type L ct = (case ub_media L ct of None \<Rightarrow> ct | Some mt \<Rightarrow> mt)"

definition malformed :: "string \<Rightarrow> 'd go_error" where
  "malformed msg = with_cause (new_error 400 ''UPLOAD_MALFORMED'' ''Malformed multipart body'') (Opaque msg)"

definition too_large :: "upload_lib \<Rightarrow> string \<Rightarrow> int \<Rightarrow> 'd go_error" where
  "too_large L field limit =
     new_error 413 ''UPLOAD_FILE_TOO_LARGE''
       (''File '' @ ub_quote L field @ '' exceeds the limit of '' @ dec_int limit @ '' bytes'')"

definition sniffed_type :: "upload_lib \<Rightarrow> part \<Rightarrow> string" where
  "sniffed_type L p = ub_sniff L (take 512 (part_data p))"

definition type_allowed :: "upload_lib \<Rightarrow> upload_options \<Rightarrow> part \<Rightarrow> bool" where
  "type_allowed L opts p \<longleftrightarrow> uo_types opts = [] \<or> base_type L (sniffed_type L p) \<in> set (uo_types opts)"

text \<open>The handler gets a file, what reading it yields, and its state.\<close>

type_synonym ('d, 's) file_handler = "upload_file \<Rightarrow> bytes \<Rightarrow> file_end \<Rightarrow> 's \<Rightarrow> 'd go_error option \<times> 's"

definition file_of :: "upload_lib \<Rightarrow> part \<Rightarrow> upload_file" where
  "file_of L p = \<lparr>uf_field = pt_form p, uf_name = sanitize_filename (pt_file p), uf_declared = pt_declared p, uf_type = sniffed_type L p\<rparr>"

definition call_handler :: "upload_lib \<Rightarrow> upload_options \<Rightarrow> ('d, 's) file_handler \<Rightarrow> part \<Rightarrow> 's \<Rightarrow> 'd go_error option \<times> 's" where
  "call_handler L opts fn p st =
     (case file_content (uo_file_size opts) 0 (pt_chunks p) (pt_broken p) of (b, e) \<Rightarrow> fn (file_of L p) b e st)"

text \<open>\<open>handlePart\<close>: after the handler the rest is read, which fails on a file over the limit or a broken part.\<close>

definition handle_part :: "upload_lib \<Rightarrow> upload_options \<Rightarrow> ('d, 's) file_handler \<Rightarrow> part \<Rightarrow> 's \<Rightarrow> 'd go_error option \<times> 's" where
  "handle_part L opts fn p st =
     (if pt_broken p \<and> length (part_data p) < 512 then (Some (malformed ''unexpected EOF''), st)
      else if \<not> type_allowed L opts p
      then (Some (new_error 415 ''UPLOAD_TYPE_NOT_ALLOWED''
              (''File type '' @ base_type L (sniffed_type L p) @ '' is not allowed'')), st)
      else case call_handler L opts fn p st of
             (Some e, st1) \<Rightarrow> (Some e, st1)
           | (None, st1) \<Rightarrow>
               (case snd (file_content (uo_file_size opts) 0 (pt_chunks p) (pt_broken p)) of
                  FileEnd \<Rightarrow> (None, st1)
                | FileTooLarge \<Rightarrow> (Some (too_large L (pt_form p) (uo_file_size opts)), st1)
                | FileBroken \<Rightarrow> (Some (Opaque ''unexpected EOF''), st1)))"

text \<open>A form field: at most one byte more than allowed is read. The sum is one of 64-bit integers, and a \<open>LimitReader\<close> for a negative
  count is at its end at once.\<close>

definition read_field :: "upload_lib \<Rightarrow> upload_options \<Rightarrow> part \<Rightarrow> ('d go_error, bytes) result" where
  "read_field L opts p =
     (let most = nat (i64 (uo_field_size opts + 1)); b = take most (part_data p) in
      if pt_broken p \<and> length (part_data p) < most then Inl (malformed ''unexpected EOF'')
      else if int (length b) > uo_field_size opts
      then Inl (new_error 413 ''UPLOAD_FIELD_TOO_LARGE'' (''Field '' @ ub_quote L (pt_form p) @ '' is too large''))
      else Inr b)"

fun stream_parts ::
  "upload_lib \<Rightarrow> upload_options \<Rightarrow> ('d, 's) file_handler \<Rightarrow> part list \<Rightarrow> body_end \<Rightarrow> int \<Rightarrow> int \<Rightarrow> (string \<times> bytes) list \<Rightarrow> 's
   \<Rightarrow> ('d go_error, (string \<times> bytes) list) result \<times> 's" where
  "stream_parts L opts fn [] end' files nfields vs st =
     (case end' of
        BodyEnd \<Rightarrow> (Inr vs, st)
      | BodyCut \<Rightarrow> (Inr vs, st)
      | BodyTooLarge n \<Rightarrow> (Inl (as_error dec_int (MaxBytesError n)), st)
      | BodyMalformed msg \<Rightarrow> (Inl (malformed msg), st))"
| "stream_parts L opts fn (p # ps) end' files nfields vs st =
     (if pt_file p = []
      then (if nfields + 1 > uo_fields opts then (Inl (new_error 400 ''UPLOAD_FIELD_TOO_LARGE'' ''Too many form fields''), st)
            else case read_field L opts p of
                   Inl e \<Rightarrow> (Inl e, st)
                 | Inr b \<Rightarrow> stream_parts L opts fn ps end' files (nfields + 1) (vs @ [(pt_form p, b)]) st)
      else if files + 1 > uo_files opts
      then (Inl (new_error 400 ''UPLOAD_TOO_MANY_FILES'' (''At most '' @ dec_int (uo_files opts) @ '' files are allowed'')), st)
      else case handle_part L opts fn p st of
             (Some e, st1) \<Rightarrow> (Inl e, st1)
           | (None, st1) \<Rightarrow> stream_parts L opts fn ps end' (files + 1) nfields vs st1)"

text \<open>\<open>Stream\<close>; \<open>boundary\<close> is what the Content-Type of a multipart request announces.\<close>

definition upload_stream ::
  "upload_lib \<Rightarrow> upload_options \<Rightarrow> ('d, 's) file_handler \<Rightarrow> (string \<times> string) option \<Rightarrow> part list \<Rightarrow> body_end \<Rightarrow> 's
   \<Rightarrow> ('d go_error, (string \<times> bytes) list) result \<times> 's" where
  "upload_stream L opts fn media ps end' st =
     (case media of
        Some (mt, boundary) \<Rightarrow>
          if mt = ''multipart/form-data'' \<and> boundary \<noteq> [] then stream_parts L (upload_defaults opts) fn ps end' 0 0 [] st
          else (Inl (new_error 415 ''UPLOAD_NOT_MULTIPART'' ''Expected a multipart/form-data request''), st)
      | None \<Rightarrow> (Inl (new_error 415 ''UPLOAD_NOT_MULTIPART'' ''Expected a multipart/form-data request''), st))"

section \<open>Sanitized names\<close>

lemma cont_byte_ge: "cont_byte c \<Longrightarrow> 128 \<le> c"
  by (simp add: cont_byte_def)

lemma decode_rune_bytes:
  assumes "decode_rune (b # bs) = (r, n)"
  shows "(n = 1 \<and> r = b \<and> b < 128) \<or> (n = 1 \<and> r = 65533) \<or> list_all (\<lambda>x. 128 \<le> x) (take n (b # bs))"
proof (cases "n = 1")
  case True
  then show ?thesis using assms by (simp split: if_split_asm list.split_asm)
next
  case False
  then have "list_all (\<lambda>x. 128 \<le> x) (take n (b # bs))"
    using assms by (simp split: if_split_asm list.split_asm) (clarsimp dest!: cont_byte_ge)+
  then show ?thesis by simp
qed

lemma drop_runes_bytes:
  "set (drop_runes bs) \<subseteq> set bs \<union> {239, 191, 189}" "list_all (\<lambda>b. \<not> forbidden_rune b) (drop_runes bs)"
proof (induction bs rule: drop_runes.induct)
  case (2 b bs)
  obtain r n where d: "decode_rune (b # bs) = (r, n)" by (cases "decode_rune (b # bs)")
  have kept: "list_all (\<lambda>b. \<not> forbidden_rune b) (take n (b # bs))" if "\<not> forbidden_rune r" "\<not> (r = 65533 \<and> n = 1)"
    using decode_rune_bytes [OF d] that by (auto simp: forbidden_rune_def list_all_iff)
  note ih = 2 [OF d [symmetric]]
  {
    case 1
    have "set (take n (b # bs)) \<subseteq> set (b # bs)" "set (drop n (b # bs)) \<subseteq> set (b # bs)"
      by (rule set_take_subset, rule set_drop_subset)
    then show ?case using ih(1) d by (auto simp del: decode_rune.simps)
  next
    case 2
    show ?case using ih(2) d kept
      by (auto simp del: decode_rune.simps) (auto simp: forbidden_rune_def)
  }
qed simp_all

lemma set_takeWhile_sub: "set (takeWhile P xs) \<subseteq> set xs"
  by (auto dest: set_takeWhileD)

lemma path_base_no_slash: "path_base (CHR ''/'' # s) = ''/'' \<or> CHR ''/'' \<notin> set (path_base (CHR ''/'' # s))"
proof -
  have "CHR ''/'' \<notin> set (takeWhile (\<lambda>c. c \<noteq> CHR ''/'') xs)" for xs by (auto dest: set_takeWhileD)
  then show ?thesis by (simp add: path_base_def Let_def)
qed

lemma path_base_subset: "set (path_base (CHR ''/'' # s)) \<subseteq> insert (CHR ''/'') (set s)"
proof -
  let ?r = "rev s @ ''/''"
  have "set (takeWhile (\<lambda>c. c \<noteq> CHR ''/'') (dropWhile (\<lambda>c. c = CHR ''/'') ?r)) \<subseteq> set ?r"
    using set_takeWhile_sub set_dropWhileD by (meson subset_code(1) subset_iff)
  then show ?thesis unfolding path_base_def by (simp add: Let_def)
qed

lemma char_code_less: "char_code c < 256"
  unfolding char_code_def by (metis char_of_char mod_less_divisor of_char_of zero_less_numeral)

text \<open>No separator, no control character, none of the characters that file systems reserve.\<close>

definition safe_char :: "char \<Rightarrow> bool" where
  "safe_char c \<longleftrightarrow> c \<noteq> CHR ''/'' \<and> c \<noteq> CHR 0x5C \<and> \<not> forbidden_rune (char_code c)"

lemma path_ext_subset: "set (path_ext s) \<subseteq> set s"
  using set_takeWhile_sub [of _ "rev s"] by (auto simp: path_ext_def)

lemma cut_name_props:
  assumes "name \<noteq> []"
  shows "cut_name name \<noteq> []" "hd (cut_name name) = hd name" "set (cut_name name) \<subseteq> set name" "length (cut_name name) \<le> 255"
proof -
  define ext where "ext = (if length (path_ext name) > 16 then [] else path_ext name)"
  have e: "length ext \<le> 16" "set ext \<subseteq> set name" using path_ext_subset by (auto simp: ext_def)
  have c: "cut_name name = (if length name > 255 then take (255 - length ext) name @ ext else name)"
    by (simp add: cut_name_def ext_def Let_def)
  have "take (255 - length ext) name \<noteq> []" "hd (take (255 - length ext) name) = hd name" using assms e by (auto simp: hd_take)
  then show "cut_name name \<noteq> []" "hd (cut_name name) = hd name" using assms by (simp_all add: c)
  show "set (cut_name name) \<subseteq> set name" using e set_take_subset [of "255 - length ext" name] by (auto simp: c)
  show "length (cut_name name) \<le> 255" using e by (simp add: c)
qed

text \<open>C37: Sanitized file names. Whatever bytes a client sends as a file name, the result is a non-empty base name of at most 255
  bytes that does not start with a dot and contains no slash, no backslash, no control character and none of the characters
  that file systems reserve.\<close>

theorem sanitize_safe:
  "sanitize_filename name \<noteq> [] \<and> length (sanitize_filename name) \<le> 255 \<and> hd (sanitize_filename name) \<noteq> CHR ''.'' \<and>
   list_all safe_char (sanitize_filename name)"
proof -
  define base where "base = path_base (CHR ''/'' # map (\<lambda>c. if c = CHR 0x5C then CHR ''/'' else c) name)"
  define kept where "kept = (map char_of (drop_runes (map char_code base)) :: string)"
  define t where "t = dropWhile (\<lambda>c. c = CHR ''.'') kept"
  have s: "sanitize_filename name = (if t = [] \<or> t = ''/'' then ''file'' else cut_name t)"
    by (simp add: sanitize_filename_def t_def kept_def base_def Let_def)
  show ?thesis
  proof (cases "t = [] \<or> t = ''/''")
    case True
    then show ?thesis by (simp add: s safe_char_def forbidden_rune_def char_code_def)
  next
    case False
    then have t: "t \<noteq> []" "t \<noteq> ''/''" by simp_all
    have sub: "set (drop_runes (map char_code base)) \<subseteq> char_code ` set base \<union> {239, 191, 189}"
      using drop_runes_bytes(1) [of "map char_code base"] by simp
    have code: "char_code (char_of n) = n" if "n \<in> set (drop_runes (map char_code base))" for n
    proof -
      have "n < 256" using that sub char_code_less by auto
      then show ?thesis by (simp add: char_code_def)
    qed
    have "base \<noteq> ''/''"
    proof
      assume "base = ''/''"
      then have "kept = [char_of (char_code CHR ''/'')]" by (simp add: kept_def char_code_def forbidden_rune_def)
      then have "kept = ''/''" by (simp only: char_code_def char_of_char)
      then show False using t by (simp add: t_def)
    qed
    then have noslash: "CHR ''/'' \<notin> set base" using path_base_no_slash base_def by blast
    have noback: "CHR 0x5C \<notin> set base"
      using path_base_subset [of "map (\<lambda>c. if c = CHR 0x5C then CHR ''/'' else c) name"] by (auto simp: base_def)
    have "safe_char c" if "c \<in> set kept" for c
    proof -
      have "set kept = char_of ` set (drop_runes (map char_code base))" unfolding kept_def by (rule list.set_map)
      then have "\<exists>n \<in> set (drop_runes (map char_code base)). c = char_of n" using that by (simp only: image_iff)
      then obtain n where n: "n \<in> set (drop_runes (map char_code base))" "c = char_of n" by (elim bexE)
      then have cc: "char_code c = n" using code by simp
      have "\<not> forbidden_rune n" using drop_runes_bytes(2) n(1) by (auto simp: list_all_iff)
      moreover have "c \<noteq> CHR ''/''" "c \<noteq> CHR 0x5C"
      proof -
        consider c' where "c' \<in> set base" "n = char_code c'" | "n \<in> {239, 191, 189}" using n(1) sub by blast
        then have "c \<in> set base \<or> char_code c \<in> {239, 191, 189}"
        proof cases
          case (1 c')
          then have "char_code c = char_code c'" using cc by simp
          then have "c = c'" by (simp add: char_code_def)
          then show ?thesis using 1 by simp
        qed (use cc in simp)
        then show "c \<noteq> CHR ''/''" "c \<noteq> CHR 0x5C" using noslash noback by (auto simp: char_code_def)
      qed
      ultimately show ?thesis using cc by (simp add: safe_char_def)
    qed
    moreover have "set t \<subseteq> set kept" using set_dropWhileD by (fastforce simp: t_def)
    moreover have "hd t \<noteq> CHR ''.''" using hd_dropWhile [of "\<lambda>c. c = CHR ''.''" kept, folded t_def] t(1) by blast
    ultimately show ?thesis using cut_name_props [OF t(1)] t by (auto simp: s list_all_iff)
  qed
qed

section \<open>Limits\<close>

lemma file_content_end:
  "snd (file_content limit n cs broken) = FileEnd \<longleftrightarrow> n + int (length (concat cs)) \<le> limit \<and> \<not> broken"
  "snd (file_content limit n cs broken) = FileEnd \<Longrightarrow> fst (file_content limit n cs broken) = concat cs"
proof (induction cs arbitrary: n)
  case (Cons c cs)
  {
    case 1
    obtain b e where f: "file_content limit (n + int (length c)) cs broken = (b, e)"
      by (cases "file_content limit (n + int (length c)) cs broken")
    show ?case using Cons(1) [of "n + int (length c)"] by (simp add: Let_def f add.assoc)
  next
    case 2
    obtain b e where f: "file_content limit (n + int (length c)) cs broken = (b, e)"
      by (cases "file_content limit (n + int (length c)) cs broken")
    show ?case using 2 Cons(2) [of "n + int (length c)"] by (simp add: Let_def f split: if_splits)
  }
qed simp_all

definition field_ok :: "upload_options \<Rightarrow> part \<Rightarrow> bool" where
  "field_ok opts p \<longleftrightarrow> \<not> pt_broken p \<and> int (length (part_data p)) \<le> uo_field_size opts"

definition file_ok :: "upload_lib \<Rightarrow> upload_options \<Rightarrow> part \<Rightarrow> bool" where
  "file_ok L opts p \<longleftrightarrow> \<not> pt_broken p \<and> type_allowed L opts p \<and> int (length (part_data p)) \<le> uo_file_size opts"

lemma most_plus_one: "0 \<le> uo_field_size opts \<Longrightarrow> uo_field_size opts < max_i64 \<Longrightarrow> i64 (uo_field_size opts + 1) = uo_field_size opts + 1"
  by (intro i64_id) (simp add: fits_i64_def min_i64_def)

lemma read_field_ok:
  assumes "0 \<le> uo_field_size opts" "uo_field_size opts < max_i64"
  shows "field_ok opts p \<Longrightarrow> read_field L opts p = Inr (part_data p)"
    and "\<not> field_ok opts p \<Longrightarrow> \<exists>e. read_field L opts p = Inl e"
  using assms by (auto simp: read_field_def most_plus_one field_ok_def Let_def nat_less_iff zless_nat_conj split: if_splits)

text \<open>With the largest field size the sum wraps: every field is read as empty.\<close>

lemma largest_field_size: "read_field L \<lparr>uo_file_size = a, uo_files = b, uo_field_size = max_i64, uo_fields = c, uo_types = d\<rparr> p = Inr []"
  by (simp add: read_field_def i64_def max_i64_def)

text \<open>The handler over a list of files, up to its first error.\<close>

fun run_files :: "upload_lib \<Rightarrow> upload_options \<Rightarrow> ('d, 's) file_handler \<Rightarrow> part list \<Rightarrow> 's \<Rightarrow> 'd go_error option \<times> 's" where
  "run_files L opts fn [] st = (None, st)"
| "run_files L opts fn (p # ps) st =
     (case call_handler L opts fn p st of (Some e, st1) \<Rightarrow> (Some e, st1) | (None, st1) \<Rightarrow> run_files L opts fn ps st1)"

lemma handle_part_ok:
  "fst (handle_part L opts fn p st) = None \<longleftrightarrow> file_ok L opts p \<and> fst (call_handler L opts fn p st) = None"
  "fst (handle_part L opts fn p st) = None \<Longrightarrow> snd (handle_part L opts fn p st) = snd (call_handler L opts fn p st)"
  using file_content_end(1) [of "uo_file_size opts" 0 "pt_chunks p" "pt_broken p"]
  by (auto simp: handle_part_def file_ok_def part_data_def split: prod.splits option.splits file_end.splits)

lemma handle_part_state:
  "snd (handle_part L opts fn p st) = st \<or>
   type_allowed L opts p \<and> snd (handle_part L opts fn p st) = snd (call_handler L opts fn p st)"
  by (auto simp: handle_part_def split: prod.splits option.splits file_end.splits)

text \<open>Within its limits the handler gets the whole data.\<close>

lemma call_handler_data:
  "file_ok L opts p \<Longrightarrow> call_handler L opts fn p st = fn (file_of L p) (part_data p) FileEnd st"
  using file_content_end [of "uo_file_size opts" 0 "pt_chunks p" "pt_broken p"]
  by (auto simp: call_handler_def file_ok_def part_data_def split: prod.splits)

definition is_field :: "part \<Rightarrow> bool" where
  "is_field p \<longleftrightarrow> pt_file p = []"

lemma stream_parts_ok:
  fixes fn :: "('d, 's) file_handler"
  assumes "0 \<le> uo_field_size opts" "uo_field_size opts < max_i64"
  shows "nf \<le> uo_fields opts \<Longrightarrow> f \<le> uo_files opts \<Longrightarrow>
    fst (stream_parts L opts fn ps end' f nf vs st) = Inr ws \<longleftrightarrow>
      end' \<in> {BodyEnd, BodyCut} \<and> nf + int (length (filter is_field ps)) \<le> uo_fields opts \<and>
      f + int (length (filter (\<lambda>p. \<not> is_field p) ps)) \<le> uo_files opts \<and>
      list_all (field_ok opts) (filter is_field ps) \<and> list_all (file_ok L opts) (filter (\<lambda>p. \<not> is_field p) ps) \<and>
      fst (run_files L opts fn (filter (\<lambda>p. \<not> is_field p) ps) st) = None \<and>
      ws = vs @ map (\<lambda>p. (pt_form p, part_data p)) (filter is_field ps)"
proof (induction ps arbitrary: f nf vs st)
  case Nil
  then show ?case by (auto split: body_end.split)
next
  case (Cons p ps)
  show ?case
  proof (cases "is_field p")
    case True
    then have p: "pt_file p = []" by (simp add: is_field_def)
    show ?thesis
    proof (cases "nf + 1 > uo_fields opts \<or> \<not> field_ok opts p")
      case bad: True
      show ?thesis
      proof (cases "nf + 1 > uo_fields opts")
        case False
        then obtain e :: "'d go_error" where "read_field L opts p = Inl e" using bad read_field_ok(2) [OF assms, of p L] by auto
        then show ?thesis using True p bad False by simp
      qed (use True p in simp)
    next
      case False
      then have "read_field L opts p = (Inr (part_data p) :: ('d go_error, bytes) result)"
        using read_field_ok(1) [OF assms, of p L] by simp
      then show ?thesis using False True p Cons.prems
          Cons.IH [of "nf + 1" f "vs @ [(pt_form p, part_data p)]" st] by (simp add: add.assoc)
    qed
  next
    case False
    then have p: "pt_file p \<noteq> []" by (simp add: is_field_def)
    show ?thesis
    proof (cases "f + 1 > uo_files opts \<or> fst (handle_part L opts fn p st) \<noteq> None")
      case bad: True
      then show ?thesis using False p handle_part_ok(1) [of L opts fn p st]
        by (auto split: prod.splits option.splits)
    next
      case good: False
      obtain st1 where h: "handle_part L opts fn p st = (None, st1)" using good by (cases "handle_part L opts fn p st") auto
      have c: "file_ok L opts p" "call_handler L opts fn p st = (None, st1)"
        using handle_part_ok [of L opts fn p st] h by (auto simp: prod_eq_iff)
      show ?thesis using False p good h c Cons.prems Cons.IH [of nf "f + 1" vs st1] by (simp add: add.assoc)
    qed
  qed
qed

lemma stream_parts_state:
  "f \<le> uo_files opts \<Longrightarrow> \<exists>k. f + int k \<le> uo_files opts \<and>
    list_all (type_allowed L opts) (take k (filter (\<lambda>p. \<not> is_field p) ps)) \<and>
    snd (stream_parts L opts fn ps end' f nf vs st) = snd (run_files L opts fn (take k (filter (\<lambda>p. \<not> is_field p) ps)) st) \<and>
    (\<forall>ws. fst (stream_parts L opts fn ps end' f nf vs st) = Inr ws \<longrightarrow> k = length (filter (\<lambda>p. \<not> is_field p) ps))"
proof (induction ps arbitrary: f nf vs st)
  case Nil
  then show ?case by (intro exI [of _ 0]) (auto split: body_end.split)
next
  case (Cons p ps)
  show ?case
  proof (cases "is_field p")
    case True
    then show ?thesis
      using Cons.IH [of f "nf + 1" "vs @ [(pt_form p, b)]" st for b] Cons.prems
      by (auto simp: is_field_def split: sum.split intro!: exI [of _ 0])
  next
    case False
    then have p: "pt_file p \<noteq> []" by (simp add: is_field_def)
    show ?thesis
    proof (cases "f + 1 > uo_files opts")
      case True
      then show ?thesis using False p Cons.prems by (intro exI [of _ 0]) auto
    next
      case room: False
      show ?thesis
      proof (cases "fst (handle_part L opts fn p st)")
        case None
        then obtain st1 where h: "handle_part L opts fn p st = (None, st1)" by (cases "handle_part L opts fn p st") auto
        have c: "type_allowed L opts p" "call_handler L opts fn p st = (None, st1)"
          using handle_part_ok [of L opts fn p st] h by (auto simp: prod_eq_iff file_ok_def)
        obtain k where "f + 1 + int k \<le> uo_files opts" "list_all (type_allowed L opts) (take k (filter (\<lambda>p. \<not> is_field p) ps))"
          "snd (stream_parts L opts fn ps end' (f + 1) nf vs st1) = snd (run_files L opts fn (take k (filter (\<lambda>p. \<not> is_field p) ps)) st1)"
          "\<forall>ws. fst (stream_parts L opts fn ps end' (f + 1) nf vs st1) = Inr ws \<longrightarrow> k = length (filter (\<lambda>p. \<not> is_field p) ps)"
          using Cons.IH [of "f + 1" nf vs st1] room by auto
        then show ?thesis using False p room h c by (intro exI [of _ "Suc k"]) auto
      next
        case (Some e)
        then obtain st1 where h: "handle_part L opts fn p st = (Some e, st1)" by (cases "handle_part L opts fn p st") auto
        show ?thesis
        proof (cases "st1 = st")
          case True
          then show ?thesis using False p h room Cons.prems by (intro exI [of _ 0]) auto
        next
          case moved: False
          then have "type_allowed L opts p" "st1 = snd (call_handler L opts fn p st)"
            using handle_part_state [of L opts fn p st] h by auto
          then show ?thesis using False p h room
            by (intro exI [of _ "Suc 0"]) (auto split: prod.splits option.splits)
        qed
      qed
    qed
  qed
qed

text \<open>C36: Uploads stay within their limits. When the field size is below the largest 64-bit number, a multipart upload succeeds
  exactly when the parts end with the final boundary or are cut off between two parts, there are at most as many
  fields and files as allowed, every field is complete and within its size, every file is complete, within its size and of
  an allowed type, and the handler accepts every file; then the fields are those of the request, in order, with their
  data. In every case, also when the upload is refused, the handler ran on nothing but the first files of the request, in
  order, at most as many as allowed and all of an allowed type.\<close>

theorem upload_exact:
  fixes fn :: "('d, 's) file_handler"
  assumes "boundary \<noteq> []" "o' = upload_defaults opts" "fs = filter is_field ps" "files = filter (\<lambda>p. \<not> is_field p) ps"
    and "upload_stream L opts fn (Some (''multipart/form-data'', boundary)) ps end' st = (r, st')"
    and "uo_field_size opts < max_i64"
  shows "(r = Inr vs \<longleftrightarrow>
      end' \<in> {BodyEnd, BodyCut} \<and> int (length fs) \<le> uo_fields o' \<and> int (length files) \<le> uo_files o' \<and>
      list_all (field_ok o') fs \<and> list_all (file_ok L o') files \<and> fst (run_files L o' fn files st) = None \<and>
      vs = map (\<lambda>p. (pt_form p, part_data p)) fs) \<and>
    (\<exists>k. int k \<le> uo_files o' \<and> list_all (type_allowed L o') (take k files) \<and>
      st' = snd (run_files L o' fn (take k files) st) \<and> ((\<exists>vs. r = Inr vs) \<longrightarrow> k = length files))"
proof -
  have pos: "0 \<le> uo_field_size o'" "uo_field_size o' < max_i64" "0 \<le> uo_fields o'" "0 \<le> uo_files o'"
    using assms(2,6) by (simp_all add: upload_defaults_def max_i64_def)
  have run: "stream_parts L o' fn ps end' 0 0 [] st = (r, st')" using assms(1,2,5) by (simp add: upload_stream_def)
  show ?thesis
    using stream_parts_ok [OF pos, of L fn ps end' "[]" st vs] stream_parts_state [OF pos(4), of L ps fn end' 0 "[]" st]
    unfolding run assms(3,4) by auto
qed

definition text_part :: "string \<Rightarrow> string \<Rightarrow> string \<Rightarrow> part" where
  "text_part form file data = \<lparr>pt_form = form, pt_file = file, pt_declared = [], pt_chunks = [data], pt_broken = False\<rparr>"

definition text_lib :: upload_lib where
  "text_lib = \<lparr>ub_sniff = (\<lambda>_. ''text/plain''), ub_media = Some, ub_quote = id\<rparr>"

definition text_options :: upload_options where
  "text_options = \<lparr>uo_file_size = 4, uo_files = 1, uo_field_size = 0, uo_fields = 0, uo_types = [''text/plain'']\<rparr>"

definition keep_file :: "(unit, (string \<times> bytes) list) file_handler" where
  "keep_file f b e st = (None, st @ [(uf_field f, b)])"

theorem upload_exact_witness:
  "upload_stream text_lib text_options keep_file (Some (''multipart/form-data'', ''x''))
      [text_part ''a'' [] ''1'', text_part ''f'' ''../n'' ''data''] BodyEnd [] = (Inr [(''a'', ''1'')], [(''f'', ''data'')])"
proof -
  let ?ps = "[text_part ''a'' [] ''1'', text_part ''f'' ''../n'' ''data'']"
  let ?files = "[text_part ''f'' ''../n'' ''data'']" and ?o = "upload_defaults text_options"
  obtain r st' where u: "upload_stream text_lib text_options keep_file (Some (''multipart/form-data'', ''x'')) ?ps BodyEnd [] = (r, st')"
    by (cases "upload_stream text_lib text_options keep_file (Some (''multipart/form-data'', ''x'')) ?ps BodyEnd []")
  have f: "filter is_field ?ps = [text_part ''a'' [] ''1'']" "filter (\<lambda>p. \<not> is_field p) ?ps = ?files"
    by (simp_all add: is_field_def text_part_def)
  have run: "run_files text_lib ?o keep_file ?files [] = (None, [(''f'', ''data'')])"
    by (simp add: call_handler_def text_part_def file_of_def keep_file_def upload_defaults_def text_options_def Let_def)
  have ok: "int (length [text_part ''a'' [] ''1'']) \<le> uo_fields ?o" "int (length ?files) \<le> uo_files ?o"
    "list_all (field_ok ?o) [text_part ''a'' [] ''1'']" "list_all (file_ok text_lib ?o) ?files"
    by code_simp+
  have small: "uo_field_size text_options < max_i64" by (simp add: text_options_def max_i64_def)
  note main = upload_exact [OF _ refl refl refl u small, where vs = "[(''a'', ''1'')]", unfolded f]
  have r: "r = Inr [(''a'', ''1'')]"
    using main ok run by (simp only: fst_conv) (simp add: text_part_def part_data_def)
  moreover have "st' = [(''f'', ''data'')]"
    using main run r by auto
  ultimately show ?thesis using u by simp
qed

text \<open>A body that is cut off between two parts is taken for a whole one: what was to follow is lost without an error.\<close>

lemma truncated_body_accepted:
  "stream_parts L opts fn ps BodyCut files nfields vs st = stream_parts L opts fn ps BodyEnd files nfields vs st"
  by (induction ps arbitrary: files nfields vs st) (auto split: sum.split prod.split option.split)

text \<open>A file whose part breaks off after the bytes that are sniffed is no client error: the error of the reader is passed on as it is.\<close>

lemma broken_file_unstructured:
  assumes "fn (file_of L p) (part_data p) FileBroken st = (None, st1)" "pt_broken p" "type_allowed L opts p"
    and "pt_chunks p = [data]" "512 \<le> length data" "int (length data) \<le> uo_file_size opts"
  shows "fst (handle_part L opts fn p st) = Some (Opaque ''unexpected EOF'')"
  using assms by (simp add: handle_part_def call_handler_def part_data_def Let_def)

section \<open>Storage on disk\<close>

text \<open>
  \<open>Disk.Put\<close>: the files under the directory are a map from cleaned names to contents. Whether the directories can be made, the
  copy succeeds and the file can be renamed are arguments.
\<close>

type_synonym disk = "string \<rightharpoonup> bytes"

definition disk_put :: "bool \<Rightarrow> bool \<Rightarrow> bool \<Rightarrow> string \<Rightarrow> bytes \<Rightarrow> disk \<Rightarrow> nat option \<times> disk" where
  "disk_put dirs_ok copy_ok rename_ok clean data d =
     (let tmp = clean @ ''.partial'' in
      if \<not> dirs_ok then (None, d)
      else if d tmp \<noteq> None then (None, d)
      else if \<not> copy_ok then (None, (d(tmp \<mapsto> []))(tmp := None))
      else
        let d1 = d(tmp \<mapsto> data) in
        if rename_ok then (Some (length data), (d1(tmp := None))(clean \<mapsto> data)) else (None, d1(tmp := None)))"

lemma disk_put_all_or_nothing:
  "disk_put dirs_ok copy_ok rename_ok clean data d =
     (if dirs_ok \<and> copy_ok \<and> rename_ok \<and> d (clean @ ''.partial'') = None then (Some (length data), d(clean \<mapsto> data)) else (None, d))"
  by (auto simp: disk_put_def Let_def fun_eq_iff)

text \<open>A file left by an interrupted copy, or an object that is stored under such a name, blocks the key for good.\<close>

lemma partial_name_blocks:
  "d (clean @ ''.partial'') \<noteq> None \<Longrightarrow> fst (disk_put dirs_ok copy_ok rename_ok clean data d) = None"
  by (auto simp: disk_put_def Let_def)

end
