(* ===== verification/Schema.thy ===== *)
theory Schema
  imports Complex_Main Rules
begin

text \<open>
  Package \<open>openapi\<close> (\<open>schema.go\<close> and the schemas of \<open>types.go\<close>): JSON Schemas derived from Go types, their tags and their
  validation rules. A schema is its own keywords and its subschemas; the generator's maps are its state, passed along.
  Declared struct types are an association list from a type to its name, package and fields. Parsers of floats and durations
  come from the library of the rules, and what the JSON decoder reads is a parameter. \<open>None\<close> is a call that does not return.
\<close>

section \<open>Schemas\<close>

text \<open>A value of type \<open>any\<close> in a schema; \<open>JRaw\<close> is what the JSON decoder made of a text.\<close>

datatype jval = JStr string | JBool bool | JInt int | JUint nat | JNum fnum | JRaw string

record kwords =
  kw_ref :: string
  kw_type :: string
  kw_format :: string
  kw_description :: string
  kw_required :: "string list"
  kw_enum :: "jval list"
  kw_const :: "jval option"
  kw_default :: "jval option"
  kw_examples :: "jval list"
  kw_minimum :: "fnum option"
  kw_maximum :: "fnum option"
  kw_ex_minimum :: "fnum option"
  kw_ex_maximum :: "fnum option"
  kw_min_length :: "int option"
  kw_max_length :: "int option"
  kw_pattern :: string
  kw_min_items :: "int option"
  kw_max_items :: "int option"
  kw_min_props :: "int option"
  kw_max_props :: "int option"
  kw_read_only :: bool
  kw_write_only :: bool
  kw_deprecated :: bool

definition no_kwords :: kwords where
  "no_kwords =
     \<lparr>kw_ref = [], kw_type = [], kw_format = [], kw_description = [], kw_required = [], kw_enum = [], kw_const = None,
      kw_default = None, kw_examples = [], kw_minimum = None, kw_maximum = None, kw_ex_minimum = None, kw_ex_maximum = None,
      kw_min_length = None, kw_max_length = None, kw_pattern = [], kw_min_items = None, kw_max_items = None,
      kw_min_props = None, kw_max_props = None, kw_read_only = False, kw_write_only = False, kw_deprecated = False\<rparr>"

datatype schema =
  Schema (sc_kw: kwords) (sc_props: "(string \<times> schema) list") (sc_items: "schema option") (sc_addl: "schema option")

definition plain_schema :: "string \<Rightarrow> string \<Rightarrow> schema" where
  "plain_schema ty fmt = Schema (no_kwords\<lparr>kw_type := ty, kw_format := fmt\<rparr>) [] None None"

definition any_schema :: schema where
  "any_schema = Schema no_kwords [] None None"

definition ref_prefix :: string where
  "ref_prefix = ''#/components/schemas/''"

definition ref_schema :: "string \<Rightarrow> schema" where
  "ref_schema name = Schema (no_kwords\<lparr>kw_ref := ref_prefix @ name\<rparr>) [] None None"

text \<open>\<open>RefName\<close>.\<close>

definition ref_name :: "schema option \<Rightarrow> string" where
  "ref_name s = (case s of None \<Rightarrow> [] | Some sc \<Rightarrow> trim_prefix (kw_ref (sc_kw sc)) ref_prefix)"

section \<open>Rules as keywords\<close>

record schema_lib =
  sl_rules :: val_lib
  sl_json :: "string \<Rightarrow> string option"
  sl_trunc :: "fnum \<Rightarrow> int"

text \<open>\<open>int(num)\<close>: toward zero; what it gives for a float without an integer value is up to the machine.\<close>

definition int_of_float :: "schema_lib \<Rightarrow> fnum \<Rightarrow> int" where
  "int_of_float L x =
     (case x of
        Fin q \<Rightarrow> if \<bar>q\<bar> < 2 ^ 63 then (if q \<ge> 0 then \<lfloor>q\<rfloor> else \<lceil>q\<rceil>) else sl_trunc L x
      | NegZero \<Rightarrow> 0
      | _ \<Rightarrow> sl_trunc L x)"

text \<open>\<open>ParseValue\<close>.\<close>

definition tag_value :: "schema_lib \<Rightarrow> string \<Rightarrow> gtype \<Rightarrow> jval" where
  "tag_value L v t =
     (case t of
        TString \<Rightarrow> JStr v
      | TBool \<Rightarrow> (case parse_bool v of Some b \<Rightarrow> JBool b | None \<Rightarrow> JStr v)
      | TInt \<Rightarrow> (case atoi v of Some n \<Rightarrow> JInt n | None \<Rightarrow> JStr v)
      | TDuration \<Rightarrow> (case atoi v of Some n \<Rightarrow> JInt n | None \<Rightarrow> JStr v)
      | TUint \<Rightarrow> (case parse_uint v of Some n \<Rightarrow> JUint n | None \<Rightarrow> JStr v)
      | TFloat \<Rightarrow> (case vl_float (sl_rules L) v of Some x \<Rightarrow> JNum x | None \<Rightarrow> JStr v)
      | _ \<Rightarrow> (case sl_json L v of Some j \<Rightarrow> JRaw j | None \<Rightarrow> JStr v))"

definition is_sized :: "gtype \<Rightarrow> bool" where
  "is_sized t \<longleftrightarrow> (case t of TSlice _ \<Rightarrow> True | TArray _ \<Rightarrow> True | _ \<Rightarrow> False)"

definition is_map_type :: "gtype \<Rightarrow> bool" where
  "is_map_type t \<longleftrightarrow> (case t of TMap _ \<Rightarrow> True | _ \<Rightarrow> False)"

text \<open>The number of a rule's parameter: a duration type accepts a duration too.\<close>

definition rule_number :: "schema_lib \<Rightarrow> string \<Rightarrow> gtype \<Rightarrow> fnum option" where
  "rule_number L param t =
     (case (if t = TDuration then vl_duration (sl_rules L) param else None) of
        Some d \<Rightarrow> Some (f64_of_int d)
      | None \<Rightarrow> vl_float (sl_rules L) param)"

definition bound_keywords :: "bool \<Rightarrow> bool \<Rightarrow> gtype \<Rightarrow> fnum \<Rightarrow> int \<Rightarrow> kwords \<Rightarrow> kwords" where
  "bound_keywords lower upper t num n k =
     (if t = TString then
        k\<lparr>kw_min_length := (if lower then Some n else kw_min_length k), kw_max_length := (if upper then Some n else kw_max_length k)\<rparr>
      else if is_sized t then
        k\<lparr>kw_min_items := (if lower then Some n else kw_min_items k), kw_max_items := (if upper then Some n else kw_max_items k)\<rparr>
      else if is_map_type t then
        k\<lparr>kw_min_props := (if lower then Some n else kw_min_props k), kw_max_props := (if upper then Some n else kw_max_props k)\<rparr>
      else
        k\<lparr>kw_minimum := (if lower then Some num else kw_minimum k), kw_maximum := (if upper then Some num else kw_maximum k)\<rparr>)"

text \<open>\<open>ApplyRule\<close>.\<close>

definition rule_keywords :: "schema_lib \<Rightarrow> gtype \<Rightarrow> string \<times> string \<Rightarrow> kwords \<Rightarrow> kwords" where
  "rule_keywords L t r k =
     (let name = fst r; param = snd r; numeric = (t \<noteq> TString \<and> \<not> is_sized t \<and> \<not> is_map_type t) in
      if name \<in> {''min'', ''gte'', ''max'', ''lte'', ''len''} then
        (case rule_number L param t of
           None \<Rightarrow> k
         | Some num \<Rightarrow> bound_keywords (name \<in> {''min'', ''gte'', ''len''}) (name \<in> {''max'', ''lte'', ''len''}) t num (int_of_float L num) k)
      else if name = ''gt'' then
        (case rule_number L param t of Some num \<Rightarrow> if numeric then k\<lparr>kw_ex_minimum := Some num\<rparr> else k | None \<Rightarrow> k)
      else if name = ''lt'' then
        (case rule_number L param t of Some num \<Rightarrow> if numeric then k\<lparr>kw_ex_maximum := Some num\<rparr> else k | None \<Rightarrow> k)
      else if name = ''oneof'' then k\<lparr>kw_enum := kw_enum k @ map (\<lambda>w. tag_value L w t) (words_of param)\<rparr>
      else if name = ''eq'' then k\<lparr>kw_const := Some (tag_value L param t)\<rparr>
      else if name = ''email'' then k\<lparr>kw_format := ''email''\<rparr>
      else if name = ''url'' then k\<lparr>kw_format := ''uri''\<rparr>
      else if name = ''uuid'' then k\<lparr>kw_format := ''uuid''\<rparr>
      else if name = ''ipv4'' then k\<lparr>kw_format := ''ipv4''\<rparr>
      else if name = ''ipv6'' then k\<lparr>kw_format := ''ipv6''\<rparr>
      else if name = ''alpha'' then k\<lparr>kw_pattern := ''^'' @ [CHR 0x5C] @ ''p{L}*$''\<rparr>
      else if name = ''alphanum'' then k\<lparr>kw_pattern := ''^['' @ [CHR 0x5C] @ ''p{L}'' @ [CHR 0x5C] @ ''p{N}]*$''\<rparr>
      else k)"

definition apply_rule :: "schema_lib \<Rightarrow> gtype \<Rightarrow> string \<times> string \<Rightarrow> schema \<Rightarrow> schema" where
  "apply_rule L t r s =
     (if kw_ref (sc_kw s) \<noteq> [] then s
      else Schema (rule_keywords L t r (sc_kw s)) (sc_props s) (sc_items s) (sc_addl s))"

section \<open>Types\<close>

text \<open>
  A type with a method of its own for JSON or text is \<open>OCoded\<close> (whether it is text) with the type that reflection sees; one with
  a hand-written schema is \<open>OProvided\<close>. The slice of bytes is \<open>OBytes\<close>.
\<close>

datatype otype =
    OBool | OInt nat | OUint nat | OUintptr | OFloat nat | OString | OTime | ODuration | ORawMessage | OBytes
  | OCoded bool gtype | OProvided schema gtype | OPtr otype | OSlice otype | OArray nat otype | OMap otype
  | OStruct "ofield list" | ONamed string | OAny
  and ofield =
    OField (of_name: string) (of_type: otype) (of_exported: bool) (of_anonymous: bool) (of_tags: "(string \<times> string) list")

record odecl =
  od_package :: string
  od_name :: string
  od_fields :: "ofield list"

type_synonym odecls = "(string \<times> odecl) list"

fun strip_otype :: "otype \<Rightarrow> otype" where
  "strip_otype (OPtr t) = strip_otype t"
| "strip_otype t = t"

text \<open>What \<open>Kind\<close> and \<open>Elem\<close> see of a type that is no pointer.\<close>

fun kind_of :: "otype \<Rightarrow> gtype" where
  "kind_of OBool = TBool"
| "kind_of (OInt _) = TInt"
| "kind_of (OUint _) = TUint"
| "kind_of OUintptr = TUintptr"
| "kind_of (OFloat _) = TFloat"
| "kind_of OString = TString"
| "kind_of OTime = TStruct ''Time''"
| "kind_of ODuration = TDuration"
| "kind_of ORawMessage = TSlice TUint"
| "kind_of OBytes = TSlice TUint"
| "kind_of (OCoded _ t) = t"
| "kind_of (OProvided _ t) = t"
| "kind_of (OPtr t) = TPtr (kind_of t)"
| "kind_of (OSlice t) = TSlice (kind_of t)"
| "kind_of (OArray _ t) = TArray (kind_of t)"
| "kind_of (OMap t) = TMap (kind_of t)"
| "kind_of (OStruct _) = TStruct []"
| "kind_of (ONamed n) = TStruct n"
| "kind_of OAny = TIface"

fun strip_gtype :: "gtype \<Rightarrow> gtype" where
  "strip_gtype (TPtr t) = strip_gtype t"
| "strip_gtype t = t"

definition elem_of :: "gtype \<Rightarrow> gtype option" where
  "elem_of t = (case t of TSlice e \<Rightarrow> Some e | TArray e \<Rightarrow> Some e | TMap e \<Rightarrow> Some e | TPtr e \<Rightarrow> Some e | _ \<Rightarrow> None)"

section \<open>Tags of a field\<close>

text \<open>\<open>FieldDoc\<close>.\<close>

definition field_doc :: "schema_lib \<Rightarrow> gtype \<Rightarrow> (string \<times> string) list \<Rightarrow> kwords \<Rightarrow> kwords" where
  "field_doc L base tags k =
     (let k1 = (if tag_get tags ''doc'' \<noteq> [] then k\<lparr>kw_description := tag_get tags ''doc''\<rparr> else k);
          k2 = (if tag_get tags ''format'' \<noteq> [] then k1\<lparr>kw_format := tag_get tags ''format''\<rparr> else k1);
          k3 = (case map_of tags ''example'' of Some ex \<Rightarrow> k2\<lparr>kw_examples := [tag_value L ex base]\<rparr> | None \<Rightarrow> k2);
          k4 = (case map_of tags ''default'' of Some d \<Rightarrow> k3\<lparr>kw_default := Some (tag_value L d base)\<rparr> | None \<Rightarrow> k3);
          k5 = (if tag_get tags ''deprecated'' = ''true'' then k4\<lparr>kw_deprecated := True\<rparr> else k4);
          k6 = (if tag_get tags ''readonly'' = ''true'' then k5\<lparr>kw_read_only := True\<rparr> else k5)
      in if tag_get tags ''writeonly'' = ''true'' then k6\<lparr>kw_write_only := True\<rparr> else k6)"

text \<open>The loop of \<open>applyTags\<close>; the flag says whether the field is required. \<open>Elem\<close> panics on a type without elements.\<close>

fun apply_rules :: "schema_lib \<Rightarrow> gtype \<Rightarrow> (string \<times> string) list \<Rightarrow> schema \<Rightarrow> (bool \<times> schema) option" where
  "apply_rules L base [] s = Some (False, s)"
| "apply_rules L base (r # rs) s =
     (if fst r = ''required'' then map_option (\<lambda>(_, s'). (True, s')) (apply_rules L base rs s)
      else if fst r = ''dive'' then
        (case sc_items s of
           Some it \<Rightarrow>
             (case elem_of base of
                None \<Rightarrow> None
              | Some e \<Rightarrow> map_option (\<lambda>(q, it'). (q, Schema (sc_kw s) (sc_props s) (Some it') (sc_addl s)))
                            (apply_rules L (strip_gtype e) rs it))
         | None \<Rightarrow>
             (case sc_addl s of
                Some ad \<Rightarrow>
                  (case elem_of base of
                     None \<Rightarrow> None
                   | Some e \<Rightarrow> map_option (\<lambda>(q, ad'). (q, Schema (sc_kw s) (sc_props s) (sc_items s) (Some ad')))
                                 (apply_rules L (strip_gtype e) rs ad))
              | None \<Rightarrow> Some (False, s)))
      else apply_rules L base rs (apply_rule L base r s))"

definition map_kw :: "(kwords \<Rightarrow> kwords) \<Rightarrow> schema \<Rightarrow> schema" where
  "map_kw f s = Schema (f (sc_kw s)) (sc_props s) (sc_items s) (sc_addl s)"

definition tag_rules :: "(string \<times> string) list \<Rightarrow> (string \<times> string) list" where
  "tag_rules tags = (case parse_tag (tag_get tags ''validate'') of None \<Rightarrow> [] | Some rs \<Rightarrow> rs)"

definition apply_tags :: "schema_lib \<Rightarrow> ofield \<Rightarrow> schema \<Rightarrow> (bool \<times> schema) option" where
  "apply_tags L f s =
     (let tags = of_tags f; base = kind_of (strip_otype (of_type f)) in
      case apply_rules L base (tag_rules tags) (map_kw (field_doc L base tags) s) of
        None \<Rightarrow> None
      | Some (req, s1) \<Rightarrow>
          Some (req, case map_of tags ''pattern'' of
            Some p \<Rightarrow> if kw_ref (sc_kw s1) = [] then map_kw (\<lambda>k. k\<lparr>kw_pattern := p\<rparr>) s1 else s1
          | None \<Rightarrow> s1))"

section \<open>Names of components\<close>

record generator =
  ge_schemas :: "(string \<times> schema) list"
  ge_names :: "(string \<times> string) list"
  ge_owners :: "(string \<times> string) list"

definition new_generator :: generator where
  "new_generator = \<lparr>ge_schemas = [], ge_names = [], ge_owners = []\<rparr>"

definition name_char :: "char \<Rightarrow> bool" where
  "name_char c \<longleftrightarrow> is_dec_digit c \<or> (65 \<le> char_code c \<and> char_code c \<le> 90) \<or> (97 \<le> char_code c \<and> char_code c \<le> 122) \<or>
     c \<in> {CHR ''.'', CHR ''_'', CHR ''-''}"

text \<open>Runs of other characters become one underscore; \<open>run\<close> is whether one is under way.\<close>

fun squeeze_name :: "bool \<Rightarrow> string \<Rightarrow> string" where
  "squeeze_name run [] = []"
| "squeeze_name run (c # cs) =
     (if name_char c then c # squeeze_name False cs
      else if run then squeeze_name True cs else CHR ''_'' # squeeze_name True cs)"

definition sanitize_name :: "string \<Rightarrow> string" where
  "sanitize_name name =
     (let n = concat (map (\<lambda>c. if c = CHR ''['' then ''_'' else if c \<in> {CHR '']'', CHR ''*'', CHR '' ''} then [] else [c]) name);
          u = (\<lambda>c. c = CHR ''_'')
      in rev (dropWhile u (rev (dropWhile u (squeeze_name False n)))))"

definition name_free :: "generator \<Rightarrow> string \<Rightarrow> string \<Rightarrow> bool" where
  "name_free g t name \<longleftrightarrow> (case map_of (ge_owners g) name of None \<Rightarrow> True | Some owner \<Rightarrow> owner = t)"

text \<open>The loop of \<open>componentName\<close>: the qualified name, then the same with 2, 3 and so on. It needs at most one round more than there
  are owners (\<open>component_name_found\<close>).\<close>

definition qualified_name :: "string \<Rightarrow> nat \<Rightarrow> string" where
  "qualified_name q i = (if i = 0 then q else q @ dec_nat (i + 1))"

definition component_name :: "odecls \<Rightarrow> string \<Rightarrow> generator \<Rightarrow> string option" where
  "component_name D t g =
     (case map_of D t of
        None \<Rightarrow> None
      | Some d \<Rightarrow>
          (let name = sanitize_name (od_name d) in
           if name_free g t name then Some name
           else map_option (qualified_name (sanitize_name (od_package d @ ''.'' @ od_name d)))
                  (find (\<lambda>i. name_free g t (qualified_name (sanitize_name (od_package d @ ''.'' @ od_name d)) i)) [0..<length (ge_owners g) + 1])))"

section \<open>Generation\<close>

definition object_schema :: schema where
  "object_schema = plain_schema ''object'' []"

text \<open>\<open>s.Properties[name] = fs\<close> and the list of required properties.\<close>

definition add_property :: "string \<Rightarrow> bool \<Rightarrow> schema \<Rightarrow> schema \<Rightarrow> schema" where
  "add_property name req fs s =
     Schema (if req then (sc_kw s)\<lparr>kw_required := kw_required (sc_kw s) @ [name]\<rparr> else sc_kw s)
       (AList.update name fs (sc_props s)) (sc_items s) (sc_addl s)"

definition json_name :: "ofield \<Rightarrow> string" where
  "json_name f = fst (cut_at CHR '','' (tag_get (of_tags f) ''json''))"

text \<open>The fields of an embedded struct, if the field embeds one.\<close>

definition embedded_fields :: "odecls \<Rightarrow> ofield \<Rightarrow> ofield list option" where
  "embedded_fields D f =
     (if of_anonymous f \<and> json_name f = [] then
        (case strip_otype (of_type f) of
           OStruct fs \<Rightarrow> Some fs
         | ONamed t \<Rightarrow> map_option od_fields (map_of D t)
         | _ \<Rightarrow> None)
      else None)"

definition non_negative :: "schema \<Rightarrow> schema" where
  "non_negative s = map_kw (\<lambda>k. k\<lparr>kw_minimum := Some (Fin 0)\<rparr>) s"

text \<open>The cases of \<open>schema\<close> without recursion.\<close>

definition base_schema :: "otype \<Rightarrow> schema" where
  "base_schema t =
     (case t of
        OProvided s _ \<Rightarrow> s
      | OTime \<Rightarrow> plain_schema ''string'' ''date-time''
      | ODuration \<Rightarrow> map_kw (\<lambda>k. k\<lparr>kw_description := ''Duration in nanoseconds''\<rparr>) (plain_schema ''integer'' ''int64'')
      | OBytes \<Rightarrow> plain_schema ''string'' ''byte''
      | OCoded txt _ \<Rightarrow> if txt then plain_schema ''string'' [] else any_schema
      | OBool \<Rightarrow> plain_schema ''boolean'' []
      | OInt bits \<Rightarrow> plain_schema ''integer'' (if bits = 64 then ''int64'' else ''int32'')
      | OUint bits \<Rightarrow> non_negative (plain_schema ''integer'' (if bits = 64 then ''int64'' else ''int32''))
      | OUintptr \<Rightarrow> non_negative (plain_schema ''integer'' ''int64'')
      | OFloat bits \<Rightarrow> plain_schema ''number'' (if bits = 32 then ''float'' else ''double'')
      | OString \<Rightarrow> plain_schema ''string'' []
      | _ \<Rightarrow> any_schema)"

definition array_schema :: "nat option \<Rightarrow> schema \<Rightarrow> schema" where
  "array_schema n s =
     Schema (no_kwords\<lparr>kw_type := ''array'', kw_min_items := map_option int n, kw_max_items := map_option int n\<rparr>) [] (Some s) None"

text \<open>\<open>schema\<close>, \<open>ref\<close>, \<open>structSchema\<close> and \<open>addFields\<close>; the first argument bounds the depth of the calls.\<close>

function schema_of :: "nat \<Rightarrow> schema_lib \<Rightarrow> odecls \<Rightarrow> otype \<Rightarrow> generator \<Rightarrow> (schema \<times> generator) option"
  and add_fields ::
    "nat \<Rightarrow> schema_lib \<Rightarrow> odecls \<Rightarrow> (ofield \<Rightarrow> bool) \<Rightarrow> ofield list \<Rightarrow> schema \<Rightarrow> generator \<Rightarrow> (schema \<times> generator) option"
where
  "schema_of n L D t g =
     (case n of
        0 \<Rightarrow> None
      | Suc m \<Rightarrow>
          (case strip_otype t of
             OSlice e \<Rightarrow> map_option (\<lambda>(s, g1). (array_schema None s, g1)) (schema_of m L D e g)
           | OArray k e \<Rightarrow> map_option (\<lambda>(s, g1). (array_schema (Some k) s, g1)) (schema_of m L D e g)
           | OMap e \<Rightarrow>
               map_option (\<lambda>(s, g1). (Schema (no_kwords\<lparr>kw_type := ''object''\<rparr>) [] None (Some s), g1)) (schema_of m L D e g)
           | OStruct fs \<Rightarrow> add_fields m L D (\<lambda>_. False) fs object_schema g
           | ONamed c \<Rightarrow>
               (case map_of (ge_names g) c of
                  Some name \<Rightarrow> Some (ref_schema name, g)
                | None \<Rightarrow>
                    (case (component_name D c g, map_of D c) of
                       (Some name, Some d) \<Rightarrow>
                         map_option
                           (\<lambda>(s, g1). (ref_schema name, g1\<lparr>ge_schemas := AList.update name s (ge_schemas g1)\<rparr>))
                           (add_fields m L D (\<lambda>_. False) (od_fields d) object_schema
                             (g\<lparr>ge_names := AList.update c name (ge_names g), ge_owners := AList.update name c (ge_owners g),
                               ge_schemas := AList.update name any_schema (ge_schemas g)\<rparr>))
                     | _ \<Rightarrow> None))
           | t' \<Rightarrow> Some (base_schema t', g)))"
| "add_fields n L D excl [] s g = Some (s, g)"
| "add_fields n L D excl (f # fs) s g =
     (if tag_get (of_tags f) ''json'' = ''-'' \<or> excl f then add_fields n L D excl fs s g
      else case embedded_fields D f of
             Some es \<Rightarrow>
               (case n of
                  0 \<Rightarrow> None
                | Suc m \<Rightarrow>
                    (case add_fields m L D excl es s g of
                       None \<Rightarrow> None
                     | Some (s1, g1) \<Rightarrow> add_fields n L D excl fs s1 g1))
           | None \<Rightarrow>
               (if \<not> of_exported f then add_fields n L D excl fs s g
                else case schema_of n L D (of_type f) g of
                       None \<Rightarrow> None
                     | Some (fs0, g1) \<Rightarrow>
                         (case apply_tags L f fs0 of
                            None \<Rightarrow> None
                          | Some (req, fs1) \<Rightarrow>
                              add_fields n L D excl fs
                                (add_property (if json_name f = [] then of_name f else json_name f) req fs1 s) g1)))"
  by pat_completeness auto
termination
  by (relation "measures [case_sum (\<lambda>(n, L, D, t, g). n) (\<lambda>(n, L, D, excl, fs, s, g). n),
        case_sum (\<lambda>(n, L, D, t, g). 0) (\<lambda>(n, L, D, excl, fs, s, g). Suc (length fs))]") auto

declare schema_of.simps [simp del] add_fields.simps(2) [simp del]

text \<open>\<open>InlineSchema\<close>; a time is a struct without exported fields. It is used on inputs, which have no schema or coding of their own.\<close>

definition inline_schema ::
  "nat \<Rightarrow> schema_lib \<Rightarrow> odecls \<Rightarrow> otype \<Rightarrow> (ofield \<Rightarrow> bool) \<Rightarrow> generator \<Rightarrow> (schema \<times> generator) option" where
  "inline_schema n L D t excl g =
     (case strip_otype t of
        OStruct fs \<Rightarrow> add_fields n L D excl fs object_schema g
      | ONamed c \<Rightarrow> (case map_of D c of Some d \<Rightarrow> add_fields n L D excl (od_fields d) object_schema g | None \<Rightarrow> None)
      | OTime \<Rightarrow> Some (object_schema, g)
      | t' \<Rightarrow> schema_of n L D t' g)"

text \<open>A sequence of calls of \<open>Schema\<close>, as the document of an application makes them.\<close>

fun schemas_of :: "nat \<Rightarrow> schema_lib \<Rightarrow> odecls \<Rightarrow> otype list \<Rightarrow> generator \<Rightarrow> (schema list \<times> generator) option" where
  "schemas_of n L D [] g = Some ([], g)"
| "schemas_of n L D (t # ts) g =
     (case schema_of n L D t g of
        None \<Rightarrow> None
      | Some (s, g1) \<Rightarrow> (case schemas_of n L D ts g1 of None \<Rightarrow> None | Some (ss, g2) \<Rightarrow> Some (s # ss, g2)))"

section \<open>References\<close>

text \<open>The references in a schema.\<close>

fun ref_list :: "schema \<Rightarrow> string list" where
  "ref_list (Schema k ps it ad) =
     (if kw_ref k = [] then [] else [kw_ref k]) @ concat (map (\<lambda>(n, s). ref_list s) ps) @
     (case it of None \<Rightarrow> [] | Some s \<Rightarrow> ref_list s) @ (case ad of None \<Rightarrow> [] | Some s \<Rightarrow> ref_list s)"

lemma rule_keywords_ref [simp]: "kw_ref (rule_keywords L t r k) = kw_ref k"
  by (simp add: rule_keywords_def bound_keywords_def Let_def split: option.split)

lemma apply_rule_refs: "ref_list (apply_rule L t r s) = ref_list s"
  by (cases s) (simp add: apply_rule_def)

lemma apply_rules_refs: "apply_rules L base rs s = Some (q, s') \<Longrightarrow> ref_list s' = ref_list s"
proof (induction L base rs s arbitrary: q s' rule: apply_rules.induct)
  case (2 L base r rs s)
  show ?case
  proof (cases "fst r = ''dive''")
    case True
    then show ?thesis using 2
      by (cases s) (auto split: option.splits)
  next
    case False
    then show ?thesis using 2 by (auto simp: apply_rule_refs split: if_splits)
  qed
qed simp

lemma field_doc_ref [simp]: "kw_ref (field_doc L base tags k) = kw_ref k"
  by (simp add: field_doc_def Let_def split: option.split)

lemma map_kw_refs: "kw_ref (f (sc_kw s)) = kw_ref (sc_kw s) \<Longrightarrow> ref_list (map_kw f s) = ref_list s"
  by (cases s) (simp add: map_kw_def)

lemma apply_tags_refs: "apply_tags L f s = Some (q, s') \<Longrightarrow> ref_list s' = ref_list s"
  by (auto simp: apply_tags_def Let_def map_kw_refs dest!: apply_rules_refs split: option.splits if_splits)

lemma AList_update_set: "set (AList.update k v xs) \<subseteq> insert (k, v) (set xs)"
  by (induction xs) auto

lemma add_property_refs: "set (ref_list (add_property name req fs s)) \<subseteq> set (ref_list fs) \<union> set (ref_list s)"
proof (cases s)
  case (Schema k ps it ad)
  have "set (concat (map (\<lambda>(n, s). ref_list s) (AList.update name fs ps))) \<subseteq> set (ref_list fs) \<union> set (concat (map (\<lambda>(n, s). ref_list s) ps))"
  proof
    fix x
    assume "x \<in> set (concat (map (\<lambda>(n, s). ref_list s) (AList.update name fs ps)))"
    then obtain n s' where "(n, s') \<in> set (AList.update name fs ps)" "x \<in> set (ref_list s')" by auto
    then show "x \<in> set (ref_list fs) \<union> set (concat (map (\<lambda>(n, s). ref_list s) ps))"
      using AList_update_set [of name fs ps] by auto
  qed
  moreover have "kw_ref (if req then k\<lparr>kw_required := kw_required k @ [name]\<rparr> else k) = kw_ref k" by simp
  ultimately show ?thesis unfolding Schema add_property_def schema.sel ref_list.simps set_append by (simp only:) blast
qed

lemma size_of_type: "f \<in> set fs \<Longrightarrow> size (of_type f) < Suc (size_list size fs)"
proof -
  assume "f \<in> set fs"
  moreover have "size (of_type f) \<le> size f" by (cases f) simp
  moreover have "size f \<le> size_list size fs" using \<open>f \<in> set fs\<close> by (rule size_list_estimation') simp
  ultimately show ?thesis by linarith
qed

text \<open>A schema has subschemas only where the type has elements.\<close>

fun shaped :: "gtype \<Rightarrow> schema \<Rightarrow> bool" where
  "shaped base (Schema k ps it ad) \<longleftrightarrow>
     (case it of None \<Rightarrow> True | Some s \<Rightarrow> (case elem_of base of None \<Rightarrow> False | Some e \<Rightarrow> shaped (strip_gtype e) s)) \<and>
     (case ad of None \<Rightarrow> True | Some s \<Rightarrow> (case elem_of base of None \<Rightarrow> False | Some e \<Rightarrow> shaped (strip_gtype e) s))"

text \<open>A type whose named types are declared and whose hand-written schemas have no references and the shape of the type.\<close>

function plain_type :: "odecls \<Rightarrow> otype \<Rightarrow> bool" where
  "plain_type D (OProvided s k) \<longleftrightarrow> ref_list s = [] \<and> shaped k s \<and> strip_gtype k = k"
| "plain_type D (OPtr t) \<longleftrightarrow> plain_type D t"
| "plain_type D (OSlice t) \<longleftrightarrow> plain_type D t"
| "plain_type D (OArray _ t) \<longleftrightarrow> plain_type D t"
| "plain_type D (OMap t) \<longleftrightarrow> plain_type D t"
| "plain_type D (OStruct fs) \<longleftrightarrow> list_all (\<lambda>f. plain_type D (of_type f)) fs"
| "plain_type D OBool \<longleftrightarrow> True"
| "plain_type D (OInt _) \<longleftrightarrow> True"
| "plain_type D (OUint _) \<longleftrightarrow> True"
| "plain_type D OUintptr \<longleftrightarrow> True"
| "plain_type D (OFloat _) \<longleftrightarrow> True"
| "plain_type D OString \<longleftrightarrow> True"
| "plain_type D OTime \<longleftrightarrow> True"
| "plain_type D ODuration \<longleftrightarrow> True"
| "plain_type D ORawMessage \<longleftrightarrow> True"
| "plain_type D OBytes \<longleftrightarrow> True"
| "plain_type D (OCoded _ k) \<longleftrightarrow> strip_gtype k = k"
| "plain_type D (ONamed c) \<longleftrightarrow> map_of D c \<noteq> None"
| "plain_type D OAny \<longleftrightarrow> True"
  by pat_completeness auto
termination
  by (relation "measure (size \<circ> snd)") (auto simp: size_of_type)

definition plain_fields :: "odecls \<Rightarrow> ofield list \<Rightarrow> bool" where
  "plain_fields D fs \<longleftrightarrow> list_all (\<lambda>f. plain_type D (of_type f)) fs"

definition plain_decls :: "odecls \<Rightarrow> bool" where
  "plain_decls D \<longleftrightarrow> list_all (\<lambda>(t, d). plain_fields D (od_fields d)) D"

lemma plain_strip: "plain_type D (strip_otype t) = plain_type D t"
  by (induction t) simp_all

lemma plain_embedded: "plain_decls D \<Longrightarrow> plain_type D (of_type f) \<Longrightarrow> embedded_fields D f = Some es \<Longrightarrow> plain_fields D es"
  using plain_strip [of D "of_type f"]
  by (auto simp: embedded_fields_def plain_decls_def plain_fields_def list_all_iff split: if_splits otype.splits dest!: map_of_SomeD)

lemma plain_named: "plain_decls D \<Longrightarrow> map_of D c = Some d \<Longrightarrow> plain_fields D (od_fields d)"
  by (auto simp: plain_decls_def list_all_iff dest!: map_of_SomeD)

text \<open>
  The state of a generator: each name has one owner and each type one name, the owner's, and there is a component for every name;
  and every reference in a component is to a component.
\<close>

definition resolves :: "(string \<times> schema) list \<Rightarrow> string \<Rightarrow> bool" where
  "resolves cs r \<longleftrightarrow> (\<exists>name. r = ref_prefix @ name \<and> map_of cs name \<noteq> None)"

definition gen_ok :: "generator \<Rightarrow> bool" where
  "gen_ok g \<longleftrightarrow>
     (\<forall>t name. map_of (ge_names g) t = Some name \<longleftrightarrow> map_of (ge_owners g) name = Some t) \<and>
     (\<forall>name. map_of (ge_schemas g) name \<noteq> None \<longleftrightarrow> map_of (ge_owners g) name \<noteq> None) \<and>
     (\<forall>name s r. map_of (ge_schemas g) name = Some s \<longrightarrow> r \<in> set (ref_list s) \<longrightarrow> resolves (ge_schemas g) r)"

text \<open>A generator never forgets a name or a component.\<close>

definition gen_grows :: "generator \<Rightarrow> generator \<Rightarrow> bool" where
  "gen_grows g g' \<longleftrightarrow> map_of (ge_names g) \<subseteq>\<^sub>m map_of (ge_names g') \<and>
     (\<forall>name. map_of (ge_schemas g) name \<noteq> None \<longrightarrow> map_of (ge_schemas g') name \<noteq> None)"

lemma gen_grows_refl: "gen_grows g g"
  by (simp add: gen_grows_def)

lemma gen_grows_trans: "gen_grows g g1 \<Longrightarrow> gen_grows g1 g2 \<Longrightarrow> gen_grows g g2"
  unfolding gen_grows_def by (meson map_le_trans)

lemma resolves_grows: "gen_grows g g' \<Longrightarrow> resolves (ge_schemas g) r \<Longrightarrow> resolves (ge_schemas g') r"
  unfolding gen_grows_def resolves_def by blast

lemma new_generator_ok: "gen_ok new_generator"
  by (simp add: gen_ok_def new_generator_def)

definition refs_ok :: "generator \<Rightarrow> schema \<Rightarrow> bool" where
  "refs_ok g s \<longleftrightarrow> (\<forall>r \<in> set (ref_list s). resolves (ge_schemas g) r)"

lemma refs_ok_grows: "gen_grows g g' \<Longrightarrow> refs_ok g s \<Longrightarrow> refs_ok g' s"
  using resolves_grows by (auto simp: refs_ok_def)

lemma base_refs: "plain_type D t \<Longrightarrow> ref_list (base_schema t) = []"
  by (cases t) (simp_all add: base_schema_def plain_schema_def any_schema_def non_negative_def map_kw_def no_kwords_def)

lemma component_name_free: "component_name D c g = Some name \<Longrightarrow> name_free g c name"
  by (auto simp: component_name_def Let_def find_Some_iff split: option.splits if_splits)

text \<open>The state in which the fields of a new component are read.\<close>

definition start_component :: "string \<Rightarrow> string \<Rightarrow> generator \<Rightarrow> generator" where
  "start_component c name g =
     g\<lparr>ge_names := AList.update c name (ge_names g), ge_owners := AList.update name c (ge_owners g),
       ge_schemas := AList.update name any_schema (ge_schemas g)\<rparr>"

definition end_component :: "string \<Rightarrow> schema \<Rightarrow> generator \<Rightarrow> generator" where
  "end_component name s g = g\<lparr>ge_schemas := AList.update name s (ge_schemas g)\<rparr>"

lemma any_schema_refs: "ref_list any_schema = []"
  by (simp add: any_schema_def no_kwords_def)

lemma start_component_ok:
  assumes "gen_ok g" "map_of (ge_names g) c = None" "name_free g c name"
  shows "gen_ok (start_component c name g)" "gen_grows g (start_component c name g)"
    "map_of (ge_names (start_component c name g)) c = Some name" "map_of (ge_schemas (start_component c name g)) name \<noteq> None"
proof -
  have pair: "map_of (ge_names g) t = Some n \<longleftrightarrow> map_of (ge_owners g) n = Some t"
    and both: "map_of (ge_schemas g) n \<noteq> None \<longleftrightarrow> map_of (ge_owners g) n \<noteq> None" for t n
    using assms(1) unfolding gen_ok_def by blast+
  have "map_of (ge_owners g) name = None"
  proof (cases "map_of (ge_owners g) name")
    case (Some owner)
    then show ?thesis using assms(2,3) pair [of c name] by (simp add: name_free_def)
  qed
  moreover from this have "map_of (ge_schemas g) name = None" using both [of name] by simp
  ultimately have free: "map_of (ge_owners g) name = None" "map_of (ge_schemas g) name = None" by simp_all
  have grow: "gen_grows g (start_component c name g)"
    using assms(2) free(2) by (auto simp: gen_grows_def start_component_def map_le_def update_conv')
  then show "gen_grows g (start_component c name g)" .
  show "map_of (ge_names (start_component c name g)) c = Some name" "map_of (ge_schemas (start_component c name g)) name \<noteq> None"
    by (simp_all add: start_component_def update_conv')
  have "resolves (ge_schemas (start_component c name g)) r"
    if "map_of (ge_schemas (start_component c name g)) n = Some s" "r \<in> set (ref_list s)" for n s r
  proof (cases "n = name")
    case True
    then show ?thesis using that any_schema_refs by (simp add: start_component_def update_conv')
  next
    case False
    then have "map_of (ge_schemas g) n = Some s" using that by (simp add: start_component_def update_conv')
    then show ?thesis using assms(1) that(2) resolves_grows [OF grow] by (simp add: gen_ok_def)
  qed
  moreover have "map_of (ge_names (start_component c name g)) t = Some n \<longleftrightarrow> map_of (ge_owners (start_component c name g)) n = Some t" for t n
    using assms(2) free(1) pair [of t n] pair [of c n] by (auto simp: start_component_def update_conv')
  moreover have "map_of (ge_schemas (start_component c name g)) n \<noteq> None \<longleftrightarrow> map_of (ge_owners (start_component c name g)) n \<noteq> None" for n
    using assms(1) by (auto simp: start_component_def update_conv' gen_ok_def)
  ultimately show "gen_ok (start_component c name g)" unfolding gen_ok_def by blast
qed

lemma end_component_ok:
  assumes "gen_ok g" "refs_ok g s" "map_of (ge_schemas g) name \<noteq> None"
  shows "gen_ok (end_component name s g)" "gen_grows g (end_component name s g)"
proof -
  show grow: "gen_grows g (end_component name s g)"
    by (auto simp: gen_grows_def end_component_def update_conv')
  have "resolves (ge_schemas (end_component name s g)) r"
    if "map_of (ge_schemas (end_component name s g)) n = Some s'" "r \<in> set (ref_list s')" for n s' r
  proof -
    have "resolves (ge_schemas g) r"
      using that assms by (cases "n = name") (auto simp: end_component_def update_conv' gen_ok_def refs_ok_def)
    then show ?thesis using resolves_grows [OF grow] by blast
  qed
  moreover have "map_of (ge_schemas (end_component name s g)) n \<noteq> None \<longleftrightarrow> map_of (ge_owners (end_component name s g)) n \<noteq> None" for n
    using assms(1,3) by (auto simp: end_component_def update_conv' gen_ok_def)
  ultimately show "gen_ok (end_component name s g)"
    using assms(1) by (simp add: gen_ok_def end_component_def)
qed


lemma array_schema_refs: "ref_list (array_schema k s) = ref_list s"
  by (simp add: array_schema_def no_kwords_def)

lemma ref_schema_refs: "ref_list (ref_schema name) = [ref_prefix @ name]"
  by (simp add: ref_schema_def ref_prefix_def)

lemma object_schema_refs: "ref_list object_schema = []"
  by (simp add: object_schema_def plain_schema_def no_kwords_def)

lemma refs_ok_sub: "set (ref_list s) \<subseteq> set (ref_list s') \<Longrightarrow> refs_ok g s' \<Longrightarrow> refs_ok g s"
  by (auto simp: refs_ok_def)

text \<open>What every call leaves behind.\<close>

definition gen_step :: "generator \<Rightarrow> schema \<Rightarrow> generator \<Rightarrow> bool" where
  "gen_step g s g' \<longleftrightarrow> gen_ok g' \<and> gen_grows g g' \<and> refs_ok g' s"

lemma gen_step_refs: "gen_step g s g' \<Longrightarrow> set (ref_list s') \<subseteq> set (ref_list s) \<Longrightarrow> gen_step g s' g'"
  using refs_ok_sub by (auto simp: gen_step_def)

lemma component_step:
  assumes ok: "gen_ok g" "map_of (ge_names g) c = None" "component_name D c g = Some name"
    and step: "gen_step (start_component c name g) s g1"
  shows "gen_step g (ref_schema name) (end_component name s g1)"
proof -
  note st = start_component_ok [OF ok(1,2) component_name_free [OF ok(3)]]
  have s: "gen_ok g1" "gen_grows (start_component c name g) g1" "refs_ok g1 s" using step by (simp_all add: gen_step_def)
  have "map_of (ge_schemas g1) name \<noteq> None" using st(4) s(2) by (simp add: gen_grows_def)
  note e = end_component_ok [OF s(1,3) this]
  have "resolves (ge_schemas (end_component name s g1)) (ref_prefix @ name)"
    by (auto simp: resolves_def end_component_def update_conv')
  then show ?thesis
    using e gen_grows_trans [OF st(2) gen_grows_trans [OF s(2) e(2)]] by (simp add: gen_step_def refs_ok_def ref_schema_refs)
qed

text \<open>The cases of \<open>schema\<close>: how a result comes about.\<close>

lemma schema_of_cases:
  assumes "schema_of n L D t g = Some (s, g')"
  obtains (sub) m e s1 where "n = Suc m" "strip_otype t = OSlice e \<or> (\<exists>k. strip_otype t = OArray k e) \<or> strip_otype t = OMap e"
      "schema_of m L D e g = Some (s1, g')" "ref_list s = ref_list s1"
  | (struct) m fs where "n = Suc m" "strip_otype t = OStruct fs" "add_fields m L D (\<lambda>_. False) fs object_schema g = Some (s, g')"
  | (known) c name where "strip_otype t = ONamed c" "map_of (ge_names g) c = Some name" "s = ref_schema name" "g' = g"
  | (fresh) m c name d s1 g1 where "n = Suc m" "strip_otype t = ONamed c" "map_of (ge_names g) c = None"
      "component_name D c g = Some name" "map_of D c = Some d"
      "add_fields m L D (\<lambda>_. False) (od_fields d) object_schema (start_component c name g) = Some (s1, g1)"
      "s = ref_schema name" "g' = end_component name s1 g1"
  | (base) "s = base_schema (strip_otype t)" "g' = g"
proof -
  obtain m where n: "n = Suc m" using assms by (cases n) (simp_all add: schema_of.simps)
  show thesis
  proof (cases "strip_otype t")
    case (ONamed c)
    show ?thesis
    proof (cases "map_of (ge_names g) c")
      case None
      with assms n ONamed obtain name d where e: "component_name D c g = Some name" "map_of D c = Some d"
        by (simp add: schema_of.simps split: option.split_asm)
      have "schema_of n L D t g = map_option (\<lambda>(s, g1). (ref_schema name, end_component name s g1))
          (add_fields m L D (\<lambda>_. False) (od_fields d) object_schema (start_component c name g))"
        unfolding n schema_of.simps [of "Suc m"] ONamed start_component_def end_component_def using None e by simp
      with assms obtain p where p: "add_fields m L D (\<lambda>_. False) (od_fields d) object_schema (start_component c name g) = Some p"
        "(\<lambda>(s, g1). (ref_schema name, end_component name s g1)) p = (s, g')"
        by (simp only: map_option_eq_Some) blast
      obtain s1 g1 where "p = (s1, g1)" by (cases p)
      with p have "add_fields m L D (\<lambda>_. False) (od_fields d) object_schema (start_component c name g) = Some (s1, g1)"
        "s = ref_schema name" "g' = end_component name s1 g1" by simp_all
      then show ?thesis by (rule fresh [OF n ONamed None e])
    next
      case (Some name)
      then have "s = ref_schema name" "g' = g" using assms unfolding n schema_of.simps [of "Suc m"] ONamed by simp_all
      then show ?thesis by (rule known [OF ONamed Some])
    qed
  next
    case (OSlice e)
    have "map_option (\<lambda>(s, g1). (array_schema None s, g1)) (schema_of m L D e g) = Some (s, g')"
      using assms unfolding n schema_of.simps [of "Suc m"] OSlice by simp
    then obtain p where p: "schema_of m L D e g = Some p" "(\<lambda>(s, g1). (array_schema None s, g1)) p = (s, g')"
      by (simp only: map_option_eq_Some) blast
    obtain s1 g1 where "p = (s1, g1)" by (cases p)
    with p have "schema_of m L D e g = Some (s1, g')" "ref_list s = ref_list s1"
      by (auto simp: array_schema_refs no_kwords_def)
    then show ?thesis using OSlice by (intro sub [OF n]) simp_all
  next
    case (OArray k e)
    have "map_option (\<lambda>(s, g1). (array_schema (Some k) s, g1)) (schema_of m L D e g) = Some (s, g')"
      using assms unfolding n schema_of.simps [of "Suc m"] OArray by simp
    then obtain p where p: "schema_of m L D e g = Some p" "(\<lambda>(s, g1). (array_schema (Some k) s, g1)) p = (s, g')"
      by (simp only: map_option_eq_Some) blast
    obtain s1 g1 where "p = (s1, g1)" by (cases p)
    with p have "schema_of m L D e g = Some (s1, g')" "ref_list s = ref_list s1"
      by (auto simp: array_schema_refs no_kwords_def)
    then show ?thesis using OArray by (intro sub [OF n]) simp_all
  next
    case (OMap e)
    have "map_option (\<lambda>(s, g1). (Schema (no_kwords\<lparr>kw_type := ''object''\<rparr>) [] None (Some s), g1)) (schema_of m L D e g) = Some (s, g')"
      using assms unfolding n schema_of.simps [of "Suc m"] OMap by simp
    then obtain p where p: "schema_of m L D e g = Some p" "(\<lambda>(s, g1). (Schema (no_kwords\<lparr>kw_type := ''object''\<rparr>) [] None (Some s), g1)) p = (s, g')"
      by (simp only: map_option_eq_Some) blast
    obtain s1 g1 where "p = (s1, g1)" by (cases p)
    with p have "schema_of m L D e g = Some (s1, g')" "ref_list s = ref_list s1"
      by (auto simp: array_schema_refs no_kwords_def)
    then show ?thesis using OMap by (intro sub [OF n]) simp_all
  next
    case (OStruct fs)
    have "add_fields m L D (\<lambda>_. False) fs object_schema g = Some (s, g')"
      using assms unfolding n schema_of.simps [of "Suc m"] OStruct by simp
    then show ?thesis by (rule struct [OF n OStruct])
  qed (use base assms n in \<open>simp_all add: schema_of.simps [of "Suc m"]\<close>)
qed

lemma add_fields_cases:
  assumes "add_fields n L D excl (f # fs) s0 g = Some (s, g')"
  obtains (skip) "add_fields n L D excl fs s0 g = Some (s, g')"
  | (embed) m es s1 g1 where "n = Suc m" "embedded_fields D f = Some es" "add_fields m L D excl es s0 g = Some (s1, g1)"
      "add_fields n L D excl fs s1 g1 = Some (s, g')"
  | (property) fs0 fs1 g1 req name where "schema_of n L D (of_type f) g = Some (fs0, g1)" "apply_tags L f fs0 = Some (req, fs1)"
      "add_fields n L D excl fs (add_property name req fs1 s0) g1 = Some (s, g')"
  using assms by (auto simp: add_fields.simps(2) split: if_splits option.splits nat.splits prod.splits)

lemma schema_of_step:
  assumes D: "plain_decls D"
  shows "(\<forall>t g s g'. gen_ok g \<longrightarrow> plain_type D t \<longrightarrow> schema_of n L D t g = Some (s, g') \<longrightarrow> gen_step g s g') \<and>
    (\<forall>excl fs g s0 s g'. gen_ok g \<longrightarrow> plain_fields D fs \<longrightarrow> refs_ok g s0 \<longrightarrow> add_fields n L D excl fs s0 g = Some (s, g') \<longrightarrow>
       gen_step g s g')"
proof (induction n rule: less_induct)
  case (less n)
  have schema: "gen_step g s g'" if ok: "gen_ok g" "plain_type D t" and r: "schema_of n L D t g = Some (s, g')" for t g s g'
    using r
  proof (cases rule: schema_of_cases)
    case (sub m e s1)
    have "plain_type D e" using ok(2) sub(2) plain_strip [of D t] by auto
    then have "gen_step g s1 g'" using less sub(1,3) ok(1) by blast
    then show ?thesis using sub(4) by (simp add: gen_step_refs)
  next
    case (struct m fs)
    have "plain_fields D fs" using ok(2) struct(2) plain_strip [of D t] by (simp add: plain_fields_def)
    moreover have "refs_ok g object_schema" by (simp add: refs_ok_def object_schema_refs)
    ultimately show ?thesis using less struct(1,3) ok(1) by blast
  next
    case (known c name)
    then have "resolves (ge_schemas g) (ref_prefix @ name)" using ok(1) by (auto simp: gen_ok_def resolves_def)
    then show ?thesis using known ok(1) by (simp add: gen_step_def gen_grows_refl refs_ok_def ref_schema_refs)
  next
    case (fresh m c name d s1 g1)
    note st = start_component_ok [OF ok(1) fresh(3) component_name_free [OF fresh(4)]]
    have "refs_ok (start_component c name g) object_schema" by (simp add: refs_ok_def object_schema_refs)
    then have "gen_step (start_component c name g) s1 g1"
      using less fresh(1,6) st(1) plain_named [OF D fresh(5)] by blast
    then show ?thesis using component_step [OF ok(1) fresh(3,4)] fresh(7,8) by simp
  next
    case base
    then show ?thesis using ok base_refs [of D "strip_otype t"] plain_strip [of D t] by (simp add: gen_step_def gen_grows_refl refs_ok_def)
  qed
  have "gen_step g s g'" if "gen_ok g" "plain_fields D fs" "refs_ok g s0" "add_fields n L D excl fs s0 g = Some (s, g')"
    for excl fs g s0 s g'
    using that
  proof (induction fs arbitrary: g s0)
    case Nil
    then show ?case by (simp add: gen_step_def gen_grows_refl)
  next
    case (Cons f fs)
    have p: "plain_type D (of_type f)" "plain_fields D fs" using Cons.prems(2) by (simp_all add: plain_fields_def)
    show ?case
      using Cons.prems(4)
    proof (cases rule: add_fields_cases)
      case skip
      then show ?thesis using Cons p(2) by blast
    next
      case (embed m es s1 g1)
      have "gen_step g s1 g1" using less embed(1,3) Cons.prems(1,3) plain_embedded [OF D p(1) embed(2)] by blast
      moreover from this have "gen_step g1 s g'" using Cons.IH p(2) embed(4) unfolding gen_step_def by blast
      ultimately show ?thesis using gen_grows_trans unfolding gen_step_def by blast
    next
      case (property fs0 fs1 g1 req name)
      have f: "gen_step g fs0 g1" using schema Cons.prems(1) p(1) property(1) by blast
      then have "refs_ok g1 s0" using refs_ok_grows Cons.prems(3) by (auto simp: gen_step_def)
      then have "refs_ok g1 (add_property name req fs1 s0)"
        using f add_property_refs [of name req fs1 s0] apply_tags_refs [OF property(2)] by (auto simp: gen_step_def refs_ok_def)
      then have "gen_step g1 s g'" using Cons.IH p(2) property(3) f unfolding gen_step_def by blast
      then show ?thesis using f gen_grows_trans unfolding gen_step_def by blast
    qed
  qed
  then show ?case using schema by blast
qed

section \<open>Names are found, generation ends\<close>

lemma dec_nat_inj: "dec_nat m = dec_nat n \<Longrightarrow> m = n"
  using dec_nat_value by metis

lemma qualified_name_inj: "inj (qualified_name q)"
  by (rule injI) (auto simp: qualified_name_def split: if_splits dest: dec_nat_inj)

lemma component_name_found:
  assumes "map_of D c = Some d"
  shows "component_name D c g \<noteq> None"
proof (rule ccontr)
  assume "\<not> component_name D c g \<noteq> None"
  define q where "q = sanitize_name (od_package d @ ''.'' @ od_name d)"
  have "find (\<lambda>i. name_free g c (qualified_name q i)) [0..<length (ge_owners g) + 1] = None"
    using \<open>\<not> component_name D c g \<noteq> None\<close> assms by (simp add: component_name_def Let_def q_def split: if_splits)
  then have taken: "\<not> name_free g c (qualified_name q i)" if "i < length (ge_owners g) + 1" for i
    using that by (auto simp: find_None_iff less_Suc_eq)
  have "qualified_name q ` {0..<length (ge_owners g) + 1} \<subseteq> fst ` set (ge_owners g)"
  proof
    fix x
    assume "x \<in> qualified_name q ` {0..<length (ge_owners g) + 1}"
    then obtain i where "i < length (ge_owners g) + 1" "x = qualified_name q i" by auto
    then have "\<not> name_free g c x" using taken by simp
    then show "x \<in> fst ` set (ge_owners g)" 
      using map_of_eq_None_iff [of "ge_owners g" x] by (auto simp: name_free_def split: option.splits)
  qed
  then have "card (qualified_name q ` {0..<length (ge_owners g) + 1}) \<le> card (fst ` set (ge_owners g))"
    by (intro card_mono) auto
  moreover have "card (qualified_name q ` {0..<length (ge_owners g) + 1}) = length (ge_owners g) + 1"
    using qualified_name_inj [of q] by (simp add: card_image inj_on_def inj_def)
  moreover have "card (fst ` set (ge_owners g)) \<le> length (ge_owners g)"
    using card_image_le [of "set (ge_owners g)" fst] card_length [of "ge_owners g"] by simp
  ultimately show False by simp
qed

lemma shaped_kw: "shaped base (Schema k ps it ad) \<longleftrightarrow> shaped base (Schema k' ps' it ad)"
  by simp

lemma apply_rule_shaped: "shaped base (apply_rule L t r s) = shaped base s"
  by (cases s) (simp add: apply_rule_def)

lemma apply_rules_return: "shaped base s \<Longrightarrow> apply_rules L base rs s \<noteq> None"
proof (induction L base rs s rule: apply_rules.induct)
  case (2 L base r rs s)
  obtain k ps it ad where s: "s = Schema k ps it ad" by (cases s)
  show ?case using 2 by (auto simp: s apply_rule_shaped split: option.splits)
qed simp

lemma apply_tags_return:
  assumes "shaped (kind_of (strip_otype (of_type f))) s"
  shows "apply_tags L f s \<noteq> None"
proof -
  have "shaped (kind_of (strip_otype (of_type f))) (map_kw F s)" for F using assms by (cases s) (simp add: map_kw_def)
  from apply_rules_return [OF this] show ?thesis by (auto simp: apply_tags_def Let_def split: option.splits)
qed

lemma strip_kind: "strip_gtype (kind_of t) = kind_of (strip_otype t)" if "plain_type D t"
  using that by (induction t) simp_all

lemma strip_otype_idem: "strip_otype (strip_otype t) = strip_otype t"
  by (induction t) simp_all

lemma no_subschemas: "shaped base (Schema k ps None None)"
  by simp

text \<open>What \<open>schema\<close> returns has the shape of the type.\<close>

lemma schema_of_shaped:
  "plain_type D t \<Longrightarrow> schema_of n L D t g = Some (s, g') \<Longrightarrow> shaped (kind_of (strip_otype t)) s"
proof (induction n arbitrary: t g s g')
  case 0
  then show ?case by (simp add: schema_of.simps)
next
  case (Suc m)
  have flat: "shaped b s" if "sc_items s = None" "sc_addl s = None" for b using that by (cases s) simp
  have fields: "sc_items s' = sc_items s0 \<and> sc_addl s' = sc_addl s0" if "add_fields k L D excl fs s0 g0 = Some (s', g1)" for k excl fs s0 g0 s' g1
    using that
  proof (induction k arbitrary: fs s0 g0 s' g1 rule: less_induct)
    case (less k)
    show ?case using less.prems
    proof (induction fs arbitrary: s0 g0 s' g1)
      case (Cons f fs)
      show ?case using Cons.prems
      proof (cases rule: add_fields_cases)
        case skip
        then show ?thesis using Cons.IH by blast
      next
        case (embed j es s1 g1)
        then show ?thesis using Cons.IH [OF embed(4)] less.IH [OF _ embed(3)] by simp
      next
        case (property fs0 fs1 g1 req name)
        then show ?thesis using Cons.IH [OF property(3)] by (simp add: add_property_def)
      qed
    qed simp
  qed
  have elem: "shaped (strip_gtype (kind_of e)) s1" if "plain_type D e" "schema_of m L D e g = Some (s1, g')" for e s1
    using Suc.IH that strip_kind by simp
  show ?case
  proof (cases "strip_otype t")
    case (OSlice e)
    then have "plain_type D e" using Suc.prems(1) plain_strip [of D t] by simp
    then show ?thesis using Suc.prems(2) OSlice elem [of e]
      by (auto simp: schema_of.simps [of "Suc m"] array_schema_def elem_of_def)
  next
    case (OArray k e)
    then have "plain_type D e" using Suc.prems(1) plain_strip [of D t] by simp
    then show ?thesis using Suc.prems(2) OArray elem [of e]
      by (auto simp: schema_of.simps [of "Suc m"] array_schema_def elem_of_def)
  next
    case (OMap e)
    then have "plain_type D e" using Suc.prems(1) plain_strip [of D t] by simp
    then show ?thesis using Suc.prems(2) OMap elem [of e]
      by (auto simp: schema_of.simps [of "Suc m"] elem_of_def)
  next
    case (OStruct fs)
    then have "add_fields m L D (\<lambda>_. False) fs object_schema g = Some (s, g')"
      using Suc.prems(2) by (simp add: schema_of.simps [of "Suc m"])
    then show ?thesis using fields flat by (auto simp: object_schema_def plain_schema_def)
  next
    case (ONamed c)
    then show ?thesis using Suc.prems(2) flat
      by (auto simp: schema_of.simps [of "Suc m"] ref_schema_def split: option.splits)
  next
    case (OProvided s' k)
    then show ?thesis using Suc.prems plain_strip [of D t] by (auto simp: schema_of.simps [of "Suc m"] base_schema_def)
  qed (use Suc.prems(2) flat in \<open>auto simp: schema_of.simps [of "Suc m"] base_schema_def plain_schema_def any_schema_def
        non_negative_def map_kw_def split: if_splits\<close>)
qed

text \<open>
  Termination. \<open>R\<close> ranks the declared types so that a struct type is above every struct type it embeds; references through
  fields, slices, maps and pointers are free to be recursive.
\<close>

function embed_rank :: "(string \<Rightarrow> nat) \<Rightarrow> otype \<Rightarrow> nat" where
  "embed_rank R (OPtr t) = embed_rank R t"
| "embed_rank R (OSlice t) = embed_rank R t"
| "embed_rank R (OArray _ t) = embed_rank R t"
| "embed_rank R (OMap t) = embed_rank R t"
| "embed_rank R (OStruct fs) =
     foldr (\<lambda>f m. max m (max (embed_rank R (of_type f))
        (case strip_otype (of_type f) of ONamed c \<Rightarrow> if of_anonymous f then Suc (R c) else 0 | _ \<Rightarrow> 0))) fs 0"
| "embed_rank R (ONamed c) = 0"
| "embed_rank R OBool = 0"
| "embed_rank R (OInt _) = 0"
| "embed_rank R (OUint _) = 0"
| "embed_rank R OUintptr = 0"
| "embed_rank R (OFloat _) = 0"
| "embed_rank R OString = 0"
| "embed_rank R OTime = 0"
| "embed_rank R ODuration = 0"
| "embed_rank R ORawMessage = 0"
| "embed_rank R OBytes = 0"
| "embed_rank R (OCoded _ _) = 0"
| "embed_rank R (OProvided _ _) = 0"
| "embed_rank R OAny = 0"
  by pat_completeness auto
termination
  by (relation "measure (size \<circ> snd)") (auto simp: size_of_type)

definition ranked :: "(string \<Rightarrow> nat) \<Rightarrow> odecls \<Rightarrow> bool" where
  "ranked R D \<longleftrightarrow> list_all (\<lambda>(c, d). embed_rank R (OStruct (od_fields d)) \<le> R c) D"

lemma rank_strip: "embed_rank R (strip_otype t) = embed_rank R t"
  by (induction t) simp_all

lemma size_strip: "size (strip_otype t) \<le> size t"
  by (induction t) simp_all

lemma rank_field: "embed_rank R (of_type f) \<le> embed_rank R (OStruct (f # fs))" "embed_rank R (OStruct fs) \<le> embed_rank R (OStruct (f # fs))"
  by simp_all

lemma rank_embedded:
  assumes "ranked R D" "embedded_fields D f = Some es"
  shows "embed_rank R (OStruct es) < embed_rank R (OStruct (f # fs)) \<or>
    embed_rank R (OStruct es) \<le> embed_rank R (OStruct (f # fs)) \<and> size_list size es < size_list size (f # fs)"
proof -
  have anon: "of_anonymous f" using assms(2) by (simp add: embedded_fields_def split: if_splits)
  show ?thesis
  proof (cases "strip_otype (of_type f)")
    case (OStruct gs)
    then have es: "es = gs" using assms(2) by (simp add: embedded_fields_def split: if_splits)
    have "embed_rank R (of_type f) = embed_rank R (OStruct gs)" using rank_strip [of R "of_type f"] OStruct by simp
    moreover have "size_list size gs < size (strip_otype (of_type f))" using OStruct by simp
    moreover have "size (of_type f) \<le> size f" by (cases f) simp
    ultimately show ?thesis using size_strip [of "of_type f"] rank_field(1) [of R f fs] by (simp add: es)
  next
    case (ONamed c)
    then obtain d where d: "map_of D c = Some d" "es = od_fields d" using assms(2) by (auto simp: embedded_fields_def split: if_splits)
    then have "embed_rank R (OStruct es) \<le> R c" using assms(1) by (auto simp: ranked_def list_all_iff dest!: map_of_SomeD)
    moreover have "Suc (R c) \<le> embed_rank R (OStruct (f # fs))" using ONamed anon by simp
    ultimately show ?thesis by linarith
  qed (use assms(2) in \<open>simp_all add: embedded_fields_def split: if_splits\<close>)
qed

text \<open>A call returns, with enough depth, and then always the same.\<close>

definition schema_ends :: "schema_lib \<Rightarrow> odecls \<Rightarrow> otype \<Rightarrow> generator \<Rightarrow> bool" where
  "schema_ends L D t g \<longleftrightarrow> (\<exists>n0 r. \<forall>n \<ge> n0. schema_of n L D t g = Some r)"

definition fields_end :: "schema_lib \<Rightarrow> odecls \<Rightarrow> (ofield \<Rightarrow> bool) \<Rightarrow> ofield list \<Rightarrow> schema \<Rightarrow> generator \<Rightarrow> bool" where
  "fields_end L D excl fs s g \<longleftrightarrow> (\<exists>n0 r. \<forall>n \<ge> n0. add_fields n L D excl fs s g = Some r)"

definition unnamed :: "odecls \<Rightarrow> generator \<Rightarrow> nat" where
  "unnamed D g = card (fst ` set D - dom (map_of (ge_names g)))"

lemma unnamed_grows: "gen_grows g g' \<Longrightarrow> unnamed D g' \<le> unnamed D g"
  unfolding unnamed_def gen_grows_def
  by (intro card_mono) (auto simp: map_le_def dom_def)

lemma unnamed_start:
  assumes "map_of D c = Some d" "map_of (ge_names g) c = None"
  shows "unnamed D (start_component c name g) < unnamed D g"
proof -
  have c: "c \<in> fst ` set D" using assms(1) map_of_eq_None_iff [of D c] by auto
  have "fst ` set D - dom (map_of (ge_names (start_component c name g))) = (fst ` set D - dom (map_of (ge_names g))) - {c}"
    by (auto simp: start_component_def update_conv' dom_def)
  moreover have "c \<in> fst ` set D - dom (map_of (ge_names g))" using c assms(2) by auto
  ultimately show ?thesis unfolding unnamed_def by (metis card_Diff1_less finite_Diff finite_imageI finite_set)
qed

lemma ends_map:
  assumes "schema_ends L D e g" "\<And>m. schema_of (Suc m) L D t g = map_option F (schema_of m L D e g)"
  shows "schema_ends L D t g"
proof -
  obtain n0 r where r: "\<And>n. n \<ge> n0 \<Longrightarrow> schema_of n L D e g = Some r" using assms(1) by (auto simp: schema_ends_def)
  have "schema_of n L D t g = Some (F r)" if "n \<ge> Suc n0" for n
    using that assms(2) [of "n - 1"] r [of "n - 1"] by simp
  then show ?thesis unfolding schema_ends_def by blast
qed

lemma ends_map_fields:
  assumes "fields_end L D excl fs s g1" "\<And>m. schema_of (Suc m) L D t g = map_option F (add_fields m L D excl fs s g1)"
  shows "schema_ends L D t g"
proof -
  obtain n0 r where r: "\<And>n. n \<ge> n0 \<Longrightarrow> add_fields n L D excl fs s g1 = Some r" using assms(1) by (auto simp: fields_end_def)
  have "schema_of n L D t g = Some (F r)" if "n \<ge> Suc n0" for n
    using that assms(2) [of "n - 1"] r [of "n - 1"] by simp
  then show ?thesis unfolding schema_ends_def by blast
qed

lemma schema_of_struct: "strip_otype t = OStruct fs \<Longrightarrow>
    schema_of (Suc m) L D t g = map_option id (add_fields m L D (\<lambda>_. False) fs object_schema g)"
  by (simp add: schema_of.simps [of "Suc m"] option.map_id)

lemma schema_of_fresh:
  "strip_otype t = ONamed c \<Longrightarrow> map_of (ge_names g) c = None \<Longrightarrow> component_name D c g = Some name \<Longrightarrow> map_of D c = Some d \<Longrightarrow>
    schema_of (Suc m) L D t g = map_option (\<lambda>(s, g1). (ref_schema name, end_component name s g1))
      (add_fields m L D (\<lambda>_. False) (od_fields d) object_schema (start_component c name g))"
  unfolding schema_of.simps [of "Suc m"] start_component_def end_component_def by simp

text \<open>The three-fold measure of a call: types without a name, embeddings, size.\<close>

definition call_measure :: "odecls \<Rightarrow> (string \<Rightarrow> nat) \<Rightarrow> (((otype \<times> generator) + (ofield list \<times> generator)) \<times>
    ((otype \<times> generator) + (ofield list \<times> generator))) set" where
  "call_measure D R = measures
     [case_sum (\<lambda>(t, g). unnamed D g) (\<lambda>(fs, g). unnamed D g),
      case_sum (\<lambda>(t, g). embed_rank R t) (\<lambda>(fs, g). embed_rank R (OStruct fs)),
      case_sum (\<lambda>(t, g). size t) (\<lambda>(fs, g). size_list size fs)]"

lemma generation_ends:
  assumes D: "plain_decls D" "ranked R D"
  shows "case x of
      Inl (t, g) \<Rightarrow> gen_ok g \<longrightarrow> plain_type D t \<longrightarrow> schema_ends L D t g
    | Inr (fs, g) \<Rightarrow> gen_ok g \<longrightarrow> plain_fields D fs \<longrightarrow> (\<forall>excl s. refs_ok g s \<longrightarrow> fields_end L D excl fs s g)"
proof (induction x rule: wf_induct [of "call_measure D R"])
  case 1
  show ?case by (simp add: call_measure_def)
next
  case (2 x)
  note ih = 2
  have obj: "refs_ok g object_schema" for g by (simp add: refs_ok_def object_schema_refs)
  show ?case
  proof (cases x)
    case (Inl tg)
    obtain t g where x: "x = Inl (t, g)" using Inl by (cases tg) auto
    have "schema_ends L D t g" if ok: "gen_ok g" "plain_type D t"
    proof -
      have p: "plain_type D (strip_otype t)" using ok(2) by (simp add: plain_strip)
      have elem: "schema_ends L D e g" if "embed_rank R e = embed_rank R (strip_otype t)" "size e < size (strip_otype t)" "plain_type D e" for e
        using ih [THEN spec, of "Inl (e, g)"] that ok(1) size_strip [of t] by (simp add: x call_measure_def rank_strip)
      show ?thesis
      proof (cases "strip_otype t")
        case (OSlice e)
        with p elem [of e] show ?thesis
          by (intro ends_map [of L D e g t "\<lambda>(s, g1). (array_schema None s, g1)"]) (simp_all add: schema_of.simps [of "Suc m" for m])
      next
        case (OArray k e)
        with p elem [of e] show ?thesis
          by (intro ends_map [of L D e g t "\<lambda>(s, g1). (array_schema (Some k) s, g1)"]) (simp_all add: schema_of.simps [of "Suc m" for m])
      next
        case (OMap e)
        with p elem [of e] show ?thesis
          by (intro ends_map [of L D e g t "\<lambda>(s, g1). (Schema (no_kwords\<lparr>kw_type := ''object''\<rparr>) [] None (Some s), g1)"])
            (simp_all add: schema_of.simps [of "Suc m" for m])
      next
        case (OStruct fs)
        have "size_list size fs < size t" using size_strip [of t] OStruct by simp
        moreover have "embed_rank R (OStruct fs) = embed_rank R t" using rank_strip [of R t] OStruct by simp
        ultimately have "fields_end L D (\<lambda>_. False) fs object_schema g"
          using ih [THEN spec, of "Inr (fs, g)"] p ok(1) obj OStruct by (simp add: x call_measure_def plain_fields_def)
        then show ?thesis by (rule ends_map_fields) (rule schema_of_struct [OF OStruct])
      next
        case (ONamed c)
        then obtain d where d: "map_of D c = Some d" using p by auto
        show ?thesis
        proof (cases "map_of (ge_names g) c")
          case (Some name)
          then have "schema_of n L D t g = Some (ref_schema name, g)" if "n \<ge> 1" for n
            using that ONamed by (cases n) (simp_all add: schema_of.simps [of "Suc m" for m])
          then show ?thesis unfolding schema_ends_def by blast
        next
          case None
          obtain name where name: "component_name D c g = Some name" using component_name_found [OF d] by blast
          note st = start_component_ok [OF ok(1) None component_name_free [OF name]]
          have "fields_end L D (\<lambda>_. False) (od_fields d) object_schema (start_component c name g)"
            using ih [THEN spec, of "Inr (od_fields d, start_component c name g)"] unnamed_start [OF d None] st(1)
              plain_named [OF D(1) d] obj by (simp add: x call_measure_def)
          then show ?thesis by (rule ends_map_fields) (rule schema_of_fresh [OF ONamed None name d])
        qed
      qed (unfold schema_ends_def, rule exI [of _ 1], rule exI [of _ "(base_schema (strip_otype t), g)"],
          auto simp: schema_of.simps split: nat.split)
    qed
    then show ?thesis by (simp add: x)
  next
    case (Inr fg)
    obtain fs g where x: "x = Inr (fs, g)" using Inr by (cases fg) auto
    have "fields_end L D excl fs s g" if ok: "gen_ok g" "plain_fields D fs" "refs_ok g s" for excl s
    proof (cases fs)
      case Nil
      then show ?thesis by (auto simp: fields_end_def)
    next
      case (Cons f fs')
      have p: "plain_type D (of_type f)" "plain_fields D fs'" using ok(2) Cons by (simp_all add: plain_fields_def)
      have rest: "fields_end L D excl fs' s' g'" if "gen_step g s1 g'" "refs_ok g' s'" for s' g' s1
        using ih [THEN spec, of "Inr (fs', g')"] that p(2) unnamed_grows [of g g' D] rank_field(2) [of R fs' f]
        by (auto simp: x Cons call_measure_def gen_step_def le_less simp del: embed_rank.simps)
      have same: "fields_end L D excl fs s g" if "\<And>n. add_fields n L D excl fs s g = add_fields n L D excl fs' s g"
        using that rest [of s g s] ok by (simp add: fields_end_def gen_step_def gen_grows_refl)
      show ?thesis
      proof (cases "tag_get (of_tags f) ''json'' = ''-'' \<or> excl f")
        case True
        then show ?thesis by (intro same) (simp add: Cons add_fields.simps(2))
      next
        case go: False
        show ?thesis
        proof (cases "embedded_fields D f")
          case (Some es)
          have "plain_fields D es" using plain_embedded [OF D(1) p(1) Some] .
          then have "fields_end L D excl es s g"
            using ih [THEN spec, of "Inr (es, g)"] rank_embedded [OF D(2) Some, of fs'] ok(1,3)
            by (auto simp: x Cons call_measure_def le_less simp del: embed_rank.simps)
          then obtain n0 s1 g1 where e: "\<And>n. n \<ge> n0 \<Longrightarrow> add_fields n L D excl es s g = Some (s1, g1)"
            by (auto simp: fields_end_def)
          have st: "gen_step g s1 g1"
            using schema_of_step [OF D(1), of n0 L] e [of n0] ok \<open>plain_fields D es\<close> by blast
          then obtain n1 r where r: "\<And>n. n \<ge> n1 \<Longrightarrow> add_fields n L D excl fs' s1 g1 = Some r"
            using rest [of s1 g1 s1] by (auto simp: fields_end_def gen_step_def)
          have "add_fields n L D excl fs s g = Some r" if "n \<ge> Suc n0 + n1" for n
            using that go Some e [of "n - 1"] r [of n] by (cases n) (simp_all add: Cons add_fields.simps(2))
          then show ?thesis unfolding fields_end_def by blast
        next
          case None
          show ?thesis
          proof (cases "of_exported f")
            case False
            then show ?thesis using go None by (intro same) (simp add: Cons add_fields.simps(2))
          next
            case exp: True
            have "size (of_type f) < size_list size fs" using size_of_type [of f "[f]"] by (cases f) (simp add: Cons)
            then have "schema_ends L D (of_type f) g"
              using ih [THEN spec, of "Inl (of_type f, g)"] rank_field(1) [of R f fs'] ok(1) p(1)
              by (auto simp: x Cons call_measure_def le_less simp del: embed_rank.simps)
            then obtain n0 fs0 g1 where e: "\<And>n. n \<ge> n0 \<Longrightarrow> schema_of n L D (of_type f) g = Some (fs0, g1)"
              by (auto simp: schema_ends_def)
            have st: "gen_step g fs0 g1" using schema_of_step [OF D(1), of n0 L] e [of n0] ok(1) p(1) by blast
            obtain req fs1 where t: "apply_tags L f fs0 = Some (req, fs1)"
              using apply_tags_return [OF schema_of_shaped [OF p(1) e [of n0]], of L] by auto
            let ?s = "add_property (if json_name f = [] then of_name f else json_name f) req fs1 s"
            have "refs_ok g1 ?s"
              using st add_property_refs [of _ req fs1 s] apply_tags_refs [OF t] refs_ok_grows [of g g1 s] ok(3)
              by (fastforce simp: gen_step_def refs_ok_def)
            then have "fields_end L D excl fs' ?s g1" by (rule rest [OF st])
            then obtain n1 r where r: "\<And>n. n \<ge> n1 \<Longrightarrow> add_fields n L D excl fs' ?s g1 = Some r"
              unfolding fields_end_def by blast
            have "add_fields n L D excl fs s g = Some r" if "n \<ge> n0 + n1" for n
              using that go None exp e [of n] r [of n] t by (simp add: Cons add_fields.simps(2))
            then show ?thesis unfolding fields_end_def by blast
          qed
        qed
      qed
    qed
    then show ?thesis by (simp add: x)
  qed
qed


section \<open>The schema of a value that is valid\<close>

text \<open>The keywords of JSON Schema on numbers, lengths and constants, for a value of a field.\<close>

definition num_of :: "gval \<Rightarrow> fnum option" where
  "num_of v = (case v of VInt i \<Rightarrow> Some (Fin (of_int i)) | VUint n \<Rightarrow> Some (Fin (of_nat n)) | VFloat x \<Rightarrow> Some x | _ \<Rightarrow> None)"

definition items_of :: "gval \<Rightarrow> nat option" where
  "items_of v = (case v of VSlice (Some xs) \<Rightarrow> Some (length xs) | VArray xs \<Rightarrow> Some (length xs) | _ \<Rightarrow> None)"

definition props_of :: "gval \<Rightarrow> nat option" where
  "props_of v = (case v of VMap (Some kvs) \<Rightarrow> Some (length kvs) | _ \<Rightarrow> None)"

definition chars_of :: "gval \<Rightarrow> nat option" where
  "chars_of v = (case v of VString s \<Rightarrow> Some (length (runes s)) | _ \<Rightarrow> None)"

definition json_value :: "gval \<Rightarrow> jval option" where
  "json_value v = (case v of VString s \<Rightarrow> Some (JStr s) | VBool b \<Rightarrow> Some (JBool b) | VInt i \<Rightarrow> Some (JInt i) | VUint n \<Rightarrow> Some (JUint n) | _ \<Rightarrow> None)"

definition size_ok :: "int option \<Rightarrow> int option \<Rightarrow> nat option \<Rightarrow> bool" where
  "size_ok lo hi sz =
     (case sz of
        None \<Rightarrow> True
      | Some n \<Rightarrow> (case lo of None \<Rightarrow> True | Some a \<Rightarrow> a \<le> int n) \<and> (case hi of None \<Rightarrow> True | Some b \<Rightarrow> int n \<le> b))"

definition num_ok :: "fcmp \<Rightarrow> fnum option \<Rightarrow> gval \<Rightarrow> bool" where
  "num_ok cmp bound v = (case bound of None \<Rightarrow> True | Some m \<Rightarrow> (case num_of v of None \<Rightarrow> True | Some x \<Rightarrow> f_compare cmp x m))"

definition admits :: "kwords \<Rightarrow> gval \<Rightarrow> bool" where
  "admits k v \<longleftrightarrow>
     num_ok FGe (kw_minimum k) v \<and> num_ok FLe (kw_maximum k) v \<and> num_ok FGt (kw_ex_minimum k) v \<and> num_ok FLt (kw_ex_maximum k) v \<and>
     size_ok (kw_min_length k) (kw_max_length k) (chars_of v) \<and> size_ok (kw_min_items k) (kw_max_items k) (items_of v) \<and>
     size_ok (kw_min_props k) (kw_max_props k) (props_of v) \<and>
     (case kw_const k of None \<Rightarrow> True | Some c \<Rightarrow> json_value v = Some c) \<and>
     (kw_enum k = [] \<or> json_value v \<in> Some ` set (kw_enum k))"

text \<open>A value that the validator accepts under a rule.\<close>

definition passes :: "val_lib \<Rightarrow> gtype \<Rightarrow> string \<times> string \<Rightarrow> gval \<Rightarrow> bool" where
  "passes L t r v \<longleftrightarrow>
     (case map_of (builtin_rules L) (fst r) of
        None \<Rightarrow> False
      | Some (fac, msg) \<Rightarrow> (case fac (snd r) t of Inl e \<Rightarrow> False | Inr f \<Rightarrow> f v))"

text \<open>Integers that a float represents, and sizes of that order.\<close>

definition small_value :: "gval \<Rightarrow> bool" where
  "small_value v \<longleftrightarrow> (case v of VInt i \<Rightarrow> \<bar>i\<bar> < 2 ^ 53 | VUint n \<Rightarrow> n < 2 ^ 53 | VString s \<Rightarrow> length (runes s) < 2 ^ 53 | _ \<Rightarrow> value_len v < 2 ^ 53)"

text \<open>A size has a parameter that is a number in the range of \<open>int\<close>; \<open>eq\<close> is on strings and Booleans.\<close>

definition rule_fits :: "schema_lib \<Rightarrow> gtype \<Rightarrow> string \<times> string \<Rightarrow> bool" where
  "rule_fits L t r \<longleftrightarrow>
     (fst r = ''eq'' \<longrightarrow> t = TString \<or> t = TBool) \<and>
     (t = TString \<or> is_sized t \<or> is_map_type t \<longrightarrow>
       (case rule_number L (snd r) t of Some (Fin q) \<Rightarrow> \<bar>q\<bar> < 2 ^ 63 | Some NegZero \<Rightarrow> True | None \<Rightarrow> True | _ \<Rightarrow> False))"

lemma small_measure:
  assumes "small_value v" "measure_of t = Some m"
  shows "num_of v = Some x \<Longrightarrow> \<not> (t = TString \<or> is_sized t \<or> is_map_type t) \<Longrightarrow> m v \<noteq> NaN \<Longrightarrow> m v = x"
    and "t = TString \<Longrightarrow> chars_of v = Some n \<Longrightarrow> m v = Fin (of_nat n)"
    and "is_sized t \<Longrightarrow> items_of v = Some n \<Longrightarrow> m v = Fin (of_nat n)"
    and "is_map_type t \<Longrightarrow> props_of v = Some n \<Longrightarrow> m v = Fin (of_nat n)"
  using assms f64_small
  by (auto simp: measure_of_def num_of_def chars_of_def items_of_def props_of_def small_value_def is_sized_def is_map_type_def
      value_len_def abs_less_iff split: gtype.splits gval.splits option.splits)

lemma int_of_float_bounds:
  assumes "case x of Fin q \<Rightarrow> \<bar>q\<bar> < 2 ^ 63 | NegZero \<Rightarrow> True | _ \<Rightarrow> False"
  shows "f_compare FGe (Fin (of_nat n)) x \<Longrightarrow> int_of_float L x \<le> int n"
    and "f_compare FLe (Fin (of_nat n)) x \<Longrightarrow> int n \<le> int_of_float L x"
proof -
  show "int_of_float L x \<le> int n" if "f_compare FGe (Fin (of_nat n)) x"
  proof (cases x)
    case (Fin q)
    then have "q \<le> of_nat n" using that by (auto simp: f_eq_def split: if_splits)
    moreover from this have "\<lceil>q\<rceil> \<le> int n" by (simp add: ceiling_le_iff)
    ultimately show ?thesis using assms Fin by (auto simp: int_of_float_def floor_le_iff split: if_splits)
  qed (use assms in \<open>auto simp: int_of_float_def\<close>)
  show "int n \<le> int_of_float L x" if "f_compare FLe (Fin (of_nat n)) x"
  proof (cases x)
    case (Fin q)
    then have "of_nat n \<le> q" using that by (auto simp: f_eq_def split: if_splits)
    then have "0 \<le> q" "int n \<le> \<lfloor>q\<rfloor>" using order_trans [of 0 "of_nat n" q] by (auto simp: le_floor_iff)
    then show ?thesis using assms Fin by (simp add: int_of_float_def)
  next
    case NegZero
    then have "n = 0" using that by (auto simp: f_eq_def split: if_splits)
    then show ?thesis using NegZero by (simp add: int_of_float_def)
  qed (use assms in auto)
qed

text \<open>What a bound found by the validator means for the number of the rule.\<close>

lemma passes_compare:
  assumes "passes (sl_rules L) t r v" "fst r \<in> {''min'', ''gte'', ''max'', ''lte'', ''len'', ''gt'', ''lt''}"
  obtains num m where "rule_number L (snd r) t = Some num" "measure_of t = Some m"
    "fst r \<in> {''min'', ''gte'', ''len''} \<longrightarrow> f_compare FGe (m v) num" "fst r \<in> {''max'', ''lte'', ''len''} \<longrightarrow> f_compare FLe (m v) num"
    "fst r = ''gt'' \<longrightarrow> f_compare FGt (m v) num" "fst r = ''lt'' \<longrightarrow> f_compare FLt (m v) num"
proof -
  obtain cmp where fac: "map_option fst (map_of (builtin_rules (sl_rules L)) (fst r)) = Some (compare_factory (sl_rules L) cmp)"
    and cmp: "cmp = (if fst r \<in> {''min'', ''gte''} then FGe else if fst r \<in> {''max'', ''lte''} then FLe
      else if fst r = ''len'' then FEq else if fst r = ''gt'' then FGt else FLt)"
    using assms(2) by (auto simp: builtin_rules_def)
  then obtain num m where n: "parse_number (sl_rules L) (snd r) t = Inr num" "measure_of t = Some m" "f_compare cmp (m v) num"
    using assms(1) by (auto simp: passes_def compare_factory_def split: option.splits sum.splits)
  have "rule_number L (snd r) t = Some num"
    using n(1) by (auto simp: parse_number_def rule_number_def split: if_splits option.splits)
  moreover have "f_compare FEq a b \<Longrightarrow> f_compare FGe a b \<and> f_compare FLe a b" for a b by simp
  ultimately show thesis using n(2,3) cmp assms(2) by (intro that [of num m]) (auto split: if_splits)
qed

lemma num_ok_measure:
  assumes "small_value v" "measure_of t = Some m" "\<not> (t = TString \<or> is_sized t \<or> is_map_type t)" "f_compare cmp (m v) num"
  shows "num_ok cmp (Some num) v"
proof (cases "num_of v")
  case (Some x)
  have "m v \<noteq> NaN" using assms(4) by (cases cmp) (auto simp: f_eq_def elim: f_less.elims)
  then have "m v = x" using small_measure(1) [OF assms(1,2) Some assms(3)] by simp
  then show ?thesis using Some assms(4) by (simp add: num_ok_def)
qed (simp add: num_ok_def)

lemma size_bounds:
  assumes "case num of Fin q \<Rightarrow> \<bar>q\<bar> < 2 ^ 63 | NegZero \<Rightarrow> True | _ \<Rightarrow> False" "\<And>n. sz = Some n \<Longrightarrow> x = Fin (of_nat n)"
  shows "f_compare FGe x num \<Longrightarrow> size_ok (Some (int_of_float L num)) None sz"
    and "f_compare FLe x num \<Longrightarrow> size_ok None (Some (int_of_float L num)) sz"
  using int_of_float_bounds [OF assms(1)] assms(2) by (cases sz; simp add: size_ok_def)+

lemma size_ok_split: "size_ok lo hi sz \<longleftrightarrow> size_ok lo None sz \<and> size_ok None hi sz"
  by (auto simp: size_ok_def split: option.splits)

lemma parse_options_mem: "parse_options p ws = Inr xs \<Longrightarrow> x \<in> set xs \<Longrightarrow> \<exists>w \<in> set ws. p w = Some x"
  by (induction ws arbitrary: xs) (auto split: option.splits sum.splits)

lemma oneof_value:
  assumes "passes L t (''oneof'', param) v"
  shows "json_value v \<in> Some ` set (map (\<lambda>w. tag_value SL w t) (words_of param))"
proof -
  obtain f where f: "oneof_factory param t = Inr f" "f v"
    using assms by (auto simp: passes_def builtin_rules_def split: sum.splits)
  consider (str) "t = TString" | (num) "t = TInt \<or> t = TDuration" | (nat) "t = TUint"
    using f(1) by (auto simp: oneof_factory_def Let_def split: if_splits)
  then show ?thesis
  proof cases
    case str
    with f show ?thesis by (auto simp: oneof_factory_def Let_def on_string_def json_value_def tag_value_def split: if_splits gval.splits)
  next
    case num
    then obtain ns i where "parse_options atoi (words_of param) = Inr ns" "v = VInt i" "i \<in> set ns"
      using f by (auto simp: oneof_factory_def Let_def on_int_def split: if_splits gval.splits sum.splits)
    with parse_options_mem [of atoi "words_of param" ns i] num show ?thesis by (force simp: json_value_def tag_value_def)
  next
    case nat
    then obtain ns i where "parse_options parse_uint (words_of param) = Inr ns" "v = VUint i" "i \<in> set ns"
      using f by (auto simp: oneof_factory_def Let_def on_uint_def split: if_splits gval.splits sum.splits)
    with parse_options_mem [of parse_uint "words_of param" ns i] nat show ?thesis by (force simp: json_value_def tag_value_def)
  qed
qed

lemma eq_value:
  assumes "passes L t (''eq'', param) v" "t = TString \<or> t = TBool"
  shows "json_value v = Some (tag_value SL param t)"
proof -
  obtain f where f: "equal_factory L True param t = Inr f" "f v"
    using assms(1) by (auto simp: passes_def builtin_rules_def split: sum.splits)
  from assms(2) show ?thesis
  proof
    assume "t = TString"
    with f show ?thesis by (auto simp: equal_factory_def on_string_def json_value_def tag_value_def split: gval.splits)
  next
    assume "t = TBool"
    with f show ?thesis by (auto simp: equal_factory_def json_value_def tag_value_def split: gval.splits option.splits)
  qed
qed

lemma size_ok_update:
  "size_ok lo hi sz \<Longrightarrow> (lower \<Longrightarrow> size_ok (Some a) None sz) \<Longrightarrow> (upper \<Longrightarrow> size_ok None (Some b) sz) \<Longrightarrow>
     size_ok (if lower then Some a else lo) (if upper then Some b else hi) sz"
  by (auto simp: size_ok_def split: option.splits)

lemma bound_admits:
  assumes a: "admits k v" and v: "small_value v" "measure_of t = Some m"
    and lower: "lower \<Longrightarrow> f_compare FGe (m v) num" and upper: "upper \<Longrightarrow> f_compare FLe (m v) num"
    and range: "t = TString \<or> is_sized t \<or> is_map_type t \<Longrightarrow> case num of Fin q \<Rightarrow> \<bar>q\<bar> < 2 ^ 63 | NegZero \<Rightarrow> True | _ \<Rightarrow> False"
  shows "admits (bound_keywords lower upper t num (int_of_float L num) k) v"
proof -
  have sizes: "size_ok (if lower then Some (int_of_float L num) else lo) (if upper then Some (int_of_float L num) else hi) sz"
    if "size_ok lo hi sz" "\<And>n. sz = Some n \<Longrightarrow> m v = Fin (of_nat n)" "t = TString \<or> is_sized t \<or> is_map_type t" for lo hi sz
    using that(1) by (rule size_ok_update) (use size_bounds [OF range [OF that(3)] that(2)] lower upper in blast)+
  show ?thesis
  proof (cases "t = TString \<or> is_sized t \<or> is_map_type t")
    case True
    then consider "t = TString" | "t \<noteq> TString" "is_sized t" | "t \<noteq> TString" "\<not> is_sized t" "is_map_type t" by blast
    then show ?thesis
    proof cases
      case 1
      then show ?thesis using a sizes [OF _ small_measure(2) [OF v 1]] by (simp add: admits_def bound_keywords_def)
    next
      case 2
      then show ?thesis using a sizes [OF _ small_measure(3) [OF v 2(2)]] by (simp add: admits_def bound_keywords_def)
    next
      case 3
      then show ?thesis using a sizes [OF _ small_measure(4) [OF v 3(3)]] by (simp add: admits_def bound_keywords_def)
    qed
  next
    case False
    have "lower \<Longrightarrow> num_ok FGe (Some num) v" "upper \<Longrightarrow> num_ok FLe (Some num) v"
      using num_ok_measure [OF v False] lower upper by blast+
    then show ?thesis using a False by (simp add: admits_def bound_keywords_def)
  qed
qed

lemma rule_keeps_admitting:
  assumes a: "admits k v" and v: "small_value v" and p: "passes (sl_rules L) t r v" and fit: "rule_fits L t r"
  shows "admits (rule_keywords L t r k) v"
proof -
  obtain name param where r: "r = (name, param)" by (cases r)
  show ?thesis
  proof (cases "name \<in> {''min'', ''gte'', ''max'', ''lte'', ''len'', ''gt'', ''lt''}")
    case True
    then obtain num m where n: "rule_number L param t = Some num" "measure_of t = Some m"
      "name \<in> {''min'', ''gte'', ''len''} \<longrightarrow> f_compare FGe (m v) num" "name \<in> {''max'', ''lte'', ''len''} \<longrightarrow> f_compare FLe (m v) num"
      "name = ''gt'' \<longrightarrow> f_compare FGt (m v) num" "name = ''lt'' \<longrightarrow> f_compare FLt (m v) num"
      using passes_compare [OF p] by (auto simp: r)
    have range: "case num of Fin q \<Rightarrow> \<bar>q\<bar> < 2 ^ 63 | NegZero \<Rightarrow> True | _ \<Rightarrow> False" if "t = TString \<or> is_sized t \<or> is_map_type t"
      using fit that n(1) by (simp add: rule_fits_def r split: fnum.splits)
    show ?thesis
    proof (cases "name \<in> {''gt'', ''lt''}")
      case gl: True
      show ?thesis
      proof (cases "t = TString \<or> is_sized t \<or> is_map_type t")
        case True
        then have sized: "(t \<noteq> TString \<and> \<not> is_sized t \<and> \<not> is_map_type t) = False" by blast
        have "name = ''gt'' \<or> name = ''lt''" using gl by blast
        then have "rule_keywords L t r k = k"
          by (elim disjE) (simp_all only: rule_keywords_def r Let_def fst_conv snd_conv n(1) option.case sized, simp_all)
        then show ?thesis using a by simp
      next
        case False
        have "name = ''gt'' \<Longrightarrow> num_ok FGt (Some num) v" "name = ''lt'' \<Longrightarrow> num_ok FLt (Some num) v"
          using num_ok_measure [OF v n(2) False] n(5,6) by blast+
        moreover have "rule_keywords L t r k =
            (if name = ''gt'' then k\<lparr>kw_ex_minimum := Some num\<rparr> else k\<lparr>kw_ex_maximum := Some num\<rparr>)"
        proof -
          have number: "(t \<noteq> TString \<and> \<not> is_sized t \<and> \<not> is_map_type t) = True" using False by blast
          have "name = ''gt'' \<or> name = ''lt''" using gl by blast
          then show ?thesis
            by (elim disjE) (simp_all only: rule_keywords_def r Let_def fst_conv snd_conv n(1) option.case number, simp_all)
        qed
        moreover have "name = ''gt'' \<or> name = ''lt''" using gl by blast
        ultimately show ?thesis using a by (elim disjE) (simp_all add: admits_def)
      qed
    next
      case False
      then have "name \<in> {''min'', ''gte'', ''max'', ''lte'', ''len''}" using True by simp
      then have "rule_keywords L t r k =
          bound_keywords (name \<in> {''min'', ''gte'', ''len''}) (name \<in> {''max'', ''lte'', ''len''}) t num (int_of_float L num) k"
        using n(1) by (simp add: rule_keywords_def r)
      moreover have "admits (bound_keywords (name \<in> {''min'', ''gte'', ''len''}) (name \<in> {''max'', ''lte'', ''len''}) t num (int_of_float L num) k) v"
        using n(3,4) by (intro bound_admits [OF a v n(2)] range) blast+
      ultimately show ?thesis by simp
    qed
  next
    case False
    consider "name = ''oneof''" | "name = ''eq''" | "name \<noteq> ''oneof''" "name \<noteq> ''eq''" by blast
    then show ?thesis
    proof cases
      case 1
      then have "json_value v \<in> Some ` set (map (\<lambda>w. tag_value L w t) (words_of param))" using oneof_value p by (simp add: r)
      then show ?thesis using a 1 by (auto simp: rule_keywords_def r admits_def)
    next
      case 2
      then have "json_value v = Some (tag_value L param t)" using eq_value p fit by (simp add: r rule_fits_def)
      then show ?thesis using a 2 by (simp add: rule_keywords_def r admits_def)
    next
      case 3
      then show ?thesis using a False by (simp add: rule_keywords_def r Let_def) (simp add: admits_def)
    qed
  qed
qed

lemma apply_rules_admits:
  assumes "apply_rules L t rs s = Some (req, s')" "kw_ref (sc_kw s) = []" "admits (sc_kw s) v" "small_value v"
    "list_all (\<lambda>r. fst r \<in> {''required'', ''omitempty''} \<or> passes (sl_rules L) t r v \<and> rule_fits L t r) rs"
  shows "admits (sc_kw s') v"
  using assms
proof (induction rs arbitrary: s req)
  case (Cons r rs)
  have dive: "fst r \<noteq> ''dive''" if "passes (sl_rules L) t r v" using that by (auto simp: passes_def builtin_rules_def)
  have omit: "rule_keywords L t r k = k" if "fst r = ''omitempty''" for k
    using that by (simp add: rule_keywords_def Let_def)
  show ?case
  proof (cases "fst r = ''required''")
    case True
    then obtain q where "apply_rules L t rs s = Some (q, s')" using Cons.prems(1) by (auto simp: map_option_case split: option.splits)
    then show ?thesis using Cons.IH Cons.prems by simp
  next
    case False
    then have r: "fst r = ''omitempty'' \<or> passes (sl_rules L) t r v \<and> rule_fits L t r" and nd: "fst r \<noteq> ''dive''"
      using Cons.prems(5) dive by auto
    have step: "apply_rules L t rs (apply_rule L t r s) = Some (req, s')" using Cons.prems(1) False nd by simp
    have "admits (rule_keywords L t r (sc_kw s)) v"
    proof (cases "fst r = ''omitempty''")
      case True
      then show ?thesis using omit Cons.prems(3) by simp
    next
      case False
      then show ?thesis using r rule_keeps_admitting [OF Cons.prems(3,4)] by simp
    qed
    then have "admits (sc_kw (apply_rule L t r s)) v" using Cons.prems(2) by (simp add: apply_rule_def)
    moreover have "kw_ref (sc_kw (apply_rule L t r s)) = []" using Cons.prems(2) by (simp add: apply_rule_def)
    ultimately show ?thesis using Cons.IH [OF step] Cons.prems(4,5) by simp
  qed
qed simp

section \<open>Sequences of calls\<close>

lemma schemas_of_step:
  assumes D: "plain_decls D"
  shows "gen_ok g \<Longrightarrow> list_all (plain_type D) ts \<Longrightarrow> schemas_of n L D ts g = Some (ss, g') \<Longrightarrow>
    gen_ok g' \<and> gen_grows g g' \<and> list_all (refs_ok g') ss"
proof (induction ts arbitrary: g ss)
  case Nil
  then show ?case by (simp add: gen_grows_refl)
next
  case (Cons t ts)
  obtain s g1 ss1 where e: "schema_of n L D t g = Some (s, g1)" "schemas_of n L D ts g1 = Some (ss1, g')" "ss = s # ss1"
    using Cons.prems(3) by (auto split: option.splits)
  have one: "gen_ok g1 \<and> gen_grows g g1 \<and> refs_ok g1 s"
    using schema_of_step [OF D, of n L, THEN conjunct1, rule_format, OF Cons.prems(1) _ e(1)] Cons.prems(2) unfolding gen_step_def by simp
  then have two: "gen_ok g' \<and> gen_grows g1 g' \<and> list_all (refs_ok g') ss1"
    using Cons.IH [of g1 ss1] Cons.prems(2) e(2) by simp
  then show ?case using one gen_grows_trans refs_ok_grows e(3) by (auto simp: list_all_iff)
qed

lemma schemas_end:
  assumes D: "plain_decls D" "ranked R D"
  shows "gen_ok g \<Longrightarrow> list_all (plain_type D) ts \<Longrightarrow> \<exists>n0 r. \<forall>n \<ge> n0. schemas_of n L D ts g = Some r"
proof (induction ts arbitrary: g)
  case (Cons t ts)
  have "schema_ends L D t g" using generation_ends [OF D, of L "Inl (t, g)"] Cons.prems by simp
  then obtain n0 s g1 where one: "\<And>n. n \<ge> n0 \<Longrightarrow> schema_of n L D t g = Some (s, g1)" by (auto simp: schema_ends_def)
  have "gen_ok g1" using schema_of_step [OF D(1), of n0 L, THEN conjunct1, rule_format, OF Cons.prems(1) _ one [OF order_refl]] Cons.prems(2)
    unfolding gen_step_def by simp
  then obtain n1 ss g2 where two: "\<And>n. n \<ge> n1 \<Longrightarrow> schemas_of n L D ts g1 = Some (ss, g2)"
    using Cons.IH [of g1] Cons.prems(2) by auto
  have "schemas_of n L D (t # ts) g = Some (s # ss, g2)" if "n \<ge> max n0 n1" for n
    using that one [of n] two [of n] by simp
  then show ?case by blast
qed simp

section \<open>Examples\<close>

definition digit_lib :: schema_lib where
  "digit_lib = \<lparr>sl_rules = \<lparr>vl_float = (\<lambda>s. if s = ''2'' then Some (Fin 2) else if s = ''5'' then Some (Fin 5) else None),
     vl_duration = (\<lambda>_. None), vl_mail = (\<lambda>_. None), vl_url = (\<lambda>_. None), vl_ip = (\<lambda>_. None), vl_letter = (\<lambda>_. False),
     vl_digit = (\<lambda>_. False), vl_lower = id, vl_upper = id, vl_regexp = (\<lambda>_. None)\<rparr>, sl_json = Some, sl_trunc = (\<lambda>_. 0)\<rparr>"

text \<open>A list, a tree of lists, and a type that embeds a pointer to itself.\<close>

definition plain_field :: "string \<Rightarrow> otype \<Rightarrow> ofield" where
  "plain_field name t = OField name t True False []"

definition list_decls :: odecls where
  "list_decls =
     [(''a.List'', \<lparr>od_package = ''a'', od_name = ''List'', od_fields = [plain_field ''V'' (OInt 64), plain_field ''Next'' (OPtr (ONamed ''a.List''))]\<rparr>),
      (''b.List'', \<lparr>od_package = ''b'', od_name = ''List'', od_fields = [plain_field ''Subs'' (OSlice (ONamed ''b.List'')), plain_field ''L'' (ONamed ''a.List'')]\<rparr>)]"

definition self_decls :: odecls where
  "self_decls = [(''T'', \<lparr>od_package = ''p'', od_name = ''T'', od_fields = [OField ''T'' (OPtr (ONamed ''T'')) True True []]\<rparr>)]"

text \<open>A type that embeds itself: every depth is exceeded, so that the generator never returns.\<close>

lemma self_embedding_diverges: "schema_of n L self_decls (ONamed ''T'') new_generator = None"
proof -
  have loop: "add_fields m L self_decls excl [OField ''T'' (OPtr (ONamed ''T'')) True True []] s g = None" if "\<not> excl (OField ''T'' (OPtr (ONamed ''T'')) True True [])" for m excl s g
    using that
  proof (induction m)
    case 0
    then show ?case by (simp add: add_fields.simps(2) tag_get_def embedded_fields_def json_name_def self_decls_def)
  next
    case (Suc m)
    then show ?case by (simp add: add_fields.simps(2) tag_get_def embedded_fields_def json_name_def self_decls_def)
  qed
  show ?thesis
  proof (cases n)
    case (Suc m)
    then show ?thesis
      by (simp add: schema_of.simps [of "Suc m"] new_generator_def loop self_decls_def [symmetric] split: option.split)
         (simp add: self_decls_def loop [unfolded self_decls_def])
  qed (simp add: schema_of.simps)
qed

text \<open>Of a property that the outer struct declares and an embedded one too, the name is required twice and the schema is that of
  the later field: here the embedded one's, which \<open>encoding/json\<close> hides.\<close>

definition shadow_fields :: "ofield list" where
  "shadow_fields =
     [OField ''Id'' (OInt 64) True False [(''validate'', ''required'')],
      OField ''Base'' (OStruct [OField ''Id'' OString True False [(''validate'', ''required'')]]) True True []]"

lemma shadowed_field_wins:
  "\<exists>s. schema_of (Suc (Suc (Suc n))) L [] (OStruct shadow_fields) g = Some (s, g) \<and> kw_required (sc_kw s) = [''Id'', ''Id''] \<and>
     map_option (\<lambda>p. kw_type (sc_kw p)) (map_of (sc_props s) ''Id'') = Some ''string''"
proof -
  have req: "tag_rules [(''validate'', ''required'')] = [(''required'', [])]" by (simp add: tag_rules_def tag_get_def parse_tag_def; code_simp)
  show ?thesis
    by (simp add: schema_of.simps [of "Suc _"] shadow_fields_def add_fields.simps(2) tag_get_def embedded_fields_def json_name_def
        apply_tags_def req field_doc_def add_property_def base_schema_def plain_schema_def object_schema_def map_kw_def Let_def no_kwords_def)
qed

text \<open>\<open>eq\<close> on a slice compares its length, but the schema's constant is the parameter as a JSON value; on a duration it is a text.\<close>

lemma eq_on_slices:
  "passes (sl_rules digit_lib) (TSlice TInt) (''eq'', ''2'') (VSlice (Some [VInt 7, VInt 8]))"
  "kw_const (rule_keywords digit_lib (TSlice TInt) (''eq'', ''2'') k) = Some (JRaw ''2'')"
proof -
  show "passes (sl_rules digit_lib) (TSlice TInt) (''eq'', ''2'') (VSlice (Some [VInt 7, VInt 8]))"
    by (simp add: passes_def builtin_rules_def equal_factory_def compare_factory_def parse_number_def measure_of_def digit_lib_def
        value_len_def f64_small f_eq_def)
  show "kw_const (rule_keywords digit_lib (TSlice TInt) (''eq'', ''2'') k) = Some (JRaw ''2'')"
    by (simp add: rule_keywords_def tag_value_def digit_lib_def)
qed

text \<open>Bytes are a text for JSON, so the bounds of their length are keywords that say nothing of it.\<close>

lemma bytes_bounds_are_items:
  "kw_type (sc_kw (apply_rule digit_lib (kind_of OBytes) (''min'', ''2'') (base_schema OBytes))) = ''string'' \<and>
   kw_min_items (sc_kw (apply_rule digit_lib (kind_of OBytes) (''min'', ''2'') (base_schema OBytes))) = Some 2 \<and>
   kw_min_length (sc_kw (apply_rule digit_lib (kind_of OBytes) (''min'', ''2'') (base_schema OBytes))) = None"
  by (simp add: apply_rule_def rule_keywords_def bound_keywords_def rule_number_def digit_lib_def base_schema_def plain_schema_def
      no_kwords_def is_sized_def int_of_float_def)

text \<open>A generic or foreign name without a character that is kept gives the empty component.\<close>

lemma empty_component: "sanitize_name ''[]*'' = []" "sanitize_name [CHR 0xC3, CHR 0x89] = []"
  by code_simp+

lemma list_decls_plain: "plain_decls list_decls" "ranked (\<lambda>_. 0) list_decls"
    "list_all (plain_type list_decls) [OPtr (ONamed ''b.List''), OSlice (ONamed ''a.List'')]"
  by (simp_all add: plain_decls_def plain_fields_def ranked_def list_decls_def plain_field_def)

section \<open>Properties\<close>

text \<open>C38: The bound, size, \<open>enum\<close> and \<open>const\<close> keywords that \<open>ApplyRule\<close> derives from a sequence of rules, in whatever order, admit
  every value that passes those rules and that the schema admitted before. The conditions: the schema is inline (it has no
  reference); each rule is \<open>required\<close>, \<open>omitempty\<close> or a built-in rule of the validator; numbers and sizes are below 2^53 in
  magnitude, where a float represents them; parameters of sizes are below 2^63; and \<open>eq\<close> is on strings and Booleans only, since
  on other types the document demands more than the validator (\<open>eq_on_slices\<close>). The keywords \<open>format\<close> and \<open>pattern\<close> are
  not part of \<open>admits\<close>.\<close>

theorem schema_admits_valid:
  assumes "apply_rules L t rs s = Some (req, s')" "kw_ref (sc_kw s) = []" "admits (sc_kw s) v" "small_value v"
    "list_all (\<lambda>r. fst r \<in> {''required'', ''omitempty''} \<or> passes (sl_rules L) t r v \<and> rule_fits L t r) rs"
  shows "admits (sc_kw s') v"
  using assms by (rule apply_rules_admits)

theorem schema_admits_valid_witness:
  "\<exists>req s'. apply_rules digit_lib TInt [(''required'', []), (''min'', ''2''), (''max'', ''5'')] (plain_schema ''integer'' ''int64'') = Some (req, s') \<and>
     kw_minimum (sc_kw s') = Some (Fin 2) \<and> kw_maximum (sc_kw s') = Some (Fin 5) \<and> admits (sc_kw s') (VInt 3)"
proof -
  obtain req s' where r: "apply_rules digit_lib TInt [(''required'', []), (''min'', ''2''), (''max'', ''5'')] (plain_schema ''integer'' ''int64'') = Some (req, s')"
      "kw_minimum (sc_kw s') = Some (Fin 2) \<and> kw_maximum (sc_kw s') = Some (Fin 5)"
    by (simp add: apply_rule_def plain_schema_def rule_keywords_def bound_keywords_def rule_number_def digit_lib_def is_sized_def is_map_type_def no_kwords_def)
  have "admits (sc_kw s') (VInt 3)"
    by (rule schema_admits_valid [OF r(1)])
       (simp_all add: plain_schema_def no_kwords_def admits_def num_ok_def size_ok_def num_of_def chars_of_def items_of_def props_of_def
          small_value_def passes_def builtin_rules_def compare_factory_def parse_number_def measure_of_def digit_lib_def f64_small
          rule_fits_def is_sized_def is_map_type_def)
  then show ?thesis using r by blast
qed

text \<open>C39: whatever types are asked for, in whatever order, every reference in a returned schema and in a component names a
  component that exists, and two types never share a component's name: also for recursive types, and for types of one name in two
  packages.\<close>

theorem schema_refs_resolve:
  assumes "plain_decls D" "list_all (plain_type D) ts" "schemas_of n L D ts new_generator = Some (ss, g)"
  shows "list_all (\<lambda>s. list_all (resolves (ge_schemas g)) (ref_list s)) ss \<and>
    list_all (\<lambda>(name, s). list_all (resolves (ge_schemas g)) (ref_list s)) (filter (\<lambda>(name, s). map_of (ge_schemas g) name = Some s) (ge_schemas g)) \<and>
    inj_on (map_of (ge_names g)) (dom (map_of (ge_names g)))"
proof -
  have ok: "gen_ok g" "list_all (refs_ok g) ss" using schemas_of_step [OF assms(1) new_generator_ok assms(2,3)] by simp_all
  have "inj_on (map_of (ge_names g)) (dom (map_of (ge_names g)))"
  proof (rule inj_onI)
    fix t u assume t: "t \<in> dom (map_of (ge_names g))" and eq: "map_of (ge_names g) t = map_of (ge_names g) u"
    obtain name where "map_of (ge_names g) t = Some name" using t by blast
    with eq have "map_of (ge_names g) t = Some name" "map_of (ge_names g) u = Some name" by simp_all
    then have "map_of (ge_owners g) name = Some t" "map_of (ge_owners g) name = Some u" using ok(1) unfolding gen_ok_def by blast+
    then show "t = u" by simp
  qed
  then show ?thesis using ok unfolding gen_ok_def refs_ok_def list_all_iff by auto
qed

theorem schema_refs_resolve_witness:
  "\<exists>n ss g. schemas_of n digit_lib list_decls [OPtr (ONamed ''b.List''), OSlice (ONamed ''a.List'')] new_generator = Some (ss, g) \<and>
     list_all (\<lambda>s. list_all (resolves (ge_schemas g)) (ref_list s)) ss"
proof -
  obtain n r where r: "schemas_of n digit_lib list_decls [OPtr (ONamed ''b.List''), OSlice (ONamed ''a.List'')] new_generator = Some r"
    using schemas_end [OF list_decls_plain(1,2) new_generator_ok list_decls_plain(3)] by blast
  obtain ss g where "r = (ss, g)" by (cases r)
  then show ?thesis using r schema_refs_resolve [OF list_decls_plain(1,3), of n digit_lib ss g] by blast
qed

text \<open>C40: generation returns for every sequence of types, recursive and mutually recursive ones too, as long as no type embeds
  itself: there is a depth from which on the result is the same. \<open>self_embedding_diverges\<close> shows that the condition is needed.\<close>

theorem schema_generation_ends:
  assumes "plain_decls D" "ranked R D" "list_all (plain_type D) ts"
  shows "\<exists>n0 r. \<forall>n \<ge> n0. schemas_of n L D ts new_generator = Some r"
  using schemas_end [OF assms(1,2) new_generator_ok assms(3)] .

theorem schema_generation_ends_witness:
  "\<exists>n0 r. \<forall>n \<ge> n0. schemas_of n digit_lib list_decls [OPtr (ONamed ''b.List''), OSlice (ONamed ''a.List'')] new_generator = Some r"
  by (rule schema_generation_ends [OF list_decls_plain])

end
