(* ===== verification/OpenApi.thy ===== *)
theory OpenApi
  imports Complex_Main Routes Binding Schema
begin

text \<open>
  The document of an application (\<open>openapi_gen.go\<close> with the records of \<open>openapi/types.go\<close>): its operations, parameters, bodies
  and responses from the frozen routes. A route has the plan of its typed input (\<open>PlanFor\<close>, theory \<open>Binding\<close>); type names in the
  route's options stand for types by a function. Status texts and the JSON encoder are parameters. The calls of the generator are
  chained with the generator as state, within a depth of calls.
\<close>

section \<open>Records of the document\<close>

record media_type =
  mt_schema :: "schema option"
  mt_example :: "string option"

record api_param =
  ap_name :: string
  ap_in :: string
  ap_required :: bool
  ap_description :: string
  ap_schema :: schema

record request_body =
  rb_required :: bool
  rb_content :: "(string \<times> media_type) list"

record api_response =
  ar_description :: string
  ar_content :: "(string \<times> media_type) list"

record operation =
  op_id :: string
  op_summary :: string
  op_description :: string
  op_tags :: "string list"
  op_deprecated :: bool
  op_security :: "(string \<times> string list) list list option"
  op_params :: "api_param list"
  op_body :: "request_body option"
  op_responses :: "(string \<times> api_response) list"

record api_document =
  do_title :: string
  do_version :: string
  do_security :: "(string \<times> string list) list list"
  do_tags :: "(string \<times> string) list"
  do_paths :: "(string \<times> (string \<times> operation) list) list"
  do_components :: "(string \<times> schema) list"
  do_schemes :: "(string \<times> string) list"

section \<open>Routes\<close>

text \<open>The plan of an input: its parameters, the type of a \<open>Body\<close> field, and whether the input itself is the body.\<close>

record doc_param =
  dp_name :: string
  dp_in :: location
  dp_field :: ofield

record input_plan =
  ip_params :: "doc_param list"
  ip_body :: "otype option"
  ip_whole :: bool

record doc_route =
  dr_method :: string
  dr_path :: string
  dr_config :: route_config
  dr_input :: "otype option"
  dr_plan :: "input_plan option"
  dr_output :: "otype option"

definition is_documented_method :: "string \<Rightarrow> bool" where
  "is_documented_method m \<longleftrightarrow> m \<in> {''GET'', ''POST'', ''PUT'', ''PATCH'', ''DELETE'', ''OPTIONS'', ''TRACE''}"

definition has_body :: "string \<Rightarrow> bool" where
  "has_body m \<longleftrightarrow> m \<in> {''POST'', ''PUT'', ''PATCH''}"

text \<open>The routes that \<open>buildOpenAPI\<close> does not skip.\<close>

definition documented :: "doc_route \<Rightarrow> bool" where
  "documented r \<longleftrightarrow>
     \<not> (od_hidden (rc_doc (dr_config r)) \<or> dr_method r = ''HEAD'' \<or> dr_method r = ''OPTIONS'' \<and> dr_input r = None \<or>
        \<not> is_documented_method (dr_method r))"

definition doc_param_name :: "string \<Rightarrow> string" where
  "doc_param_name name = (if name = ''*'' then ''wildcard'' else name)"

definition path_name :: "string \<Rightarrow> string option" where
  "path_name s =
     (case s of
        [] \<Rightarrow> None
      | c # cs \<Rightarrow> if c = CHR '':'' \<or> c = CHR ''*'' then Some (if cs = [] then ''*'' else cs) else None)"

definition doc_segment :: "string \<Rightarrow> string" where
  "doc_segment s = (case path_name s of None \<Rightarrow> s | Some n \<Rightarrow> CHR ''{'' # doc_param_name n @ [CHR ''}''])"

text \<open>\<open>openAPIPath\<close>.\<close>

definition openapi_path :: "string \<Rightarrow> string \<times> string list" where
  "openapi_path p =
     (if p = ''/'' then (p, [])
      else let segs = split_on CHR ''/'' (tl p) in
        (CHR ''/'' # join_with ''/'' (map doc_segment segs), List.map_filter path_name segs))"

definition id_char :: "nat \<Rightarrow> char" where
  "id_char r = (if 97 \<le> r \<and> r \<le> 122 \<or> 65 \<le> r \<and> r \<le> 90 \<or> 48 \<le> r \<and> r \<le> 57 then char_of r else CHR ''_'')"

text \<open>\<open>deriveOperationID\<close>.\<close>

definition derive_operation_id :: "string \<Rightarrow> string \<Rightarrow> string" where
  "derive_operation_id m path =
     to_lower m @
     concat (map (\<lambda>seg. let s = dropWhile (\<lambda>c. c = CHR '':'' \<or> c = CHR ''*'') seg in
         if s = [] then [] else CHR ''_'' # map id_char (runes s))
       (split_on CHR ''/'' path))"

text \<open>\<open>uniqueID\<close>: the counts of the identifiers asked for.\<close>

definition unique_id :: "(string \<Rightarrow> nat) \<Rightarrow> string \<Rightarrow> string \<times> (string \<Rightarrow> nat)" where
  "unique_id used i =
     (let n = used i + 1 in (if n > 1 then i @ ''_'' @ dec_nat n else i, used(i := n)))"

definition first_non_empty :: "string list \<Rightarrow> string" where
  "first_non_empty vs = (case find (\<lambda>v. v \<noteq> []) vs of Some v \<Rightarrow> v | None \<Rightarrow> [])"

text \<open>\<open>IsParamField\<close>.\<close>

definition is_param_field :: "ofield \<Rightarrow> bool" where
  "is_param_field f \<longleftrightarrow> list_ex (\<lambda>l. map_of (of_tags f) (loc_name l) \<noteq> None) [InPath, InQuery, InHeader, InCookie]"

section \<open>Calls of the generator\<close>

type_synonym 'a gen = "nat \<Rightarrow> generator \<Rightarrow> ('a \<times> generator) option"

definition gen_ret :: "'a \<Rightarrow> 'a gen" where
  "gen_ret a = (\<lambda>n g. Some (a, g))"

definition gen_bind :: "'a gen \<Rightarrow> ('a \<Rightarrow> 'b gen) \<Rightarrow> 'b gen" where
  "gen_bind F K = (\<lambda>n g. case F n g of None \<Rightarrow> None | Some (a, g1) \<Rightarrow> K a n g1)"

fun gen_fold :: "('x \<Rightarrow> 'a \<Rightarrow> 'a gen) \<Rightarrow> 'x list \<Rightarrow> 'a \<Rightarrow> 'a gen" where
  "gen_fold F [] a = gen_ret a"
| "gen_fold F (x # xs) a = gen_bind (F x a) (gen_fold F xs)"

definition gen_schema :: "schema_lib \<Rightarrow> odecls \<Rightarrow> otype \<Rightarrow> schema gen" where
  "gen_schema L D t = (\<lambda>n g. schema_of n L D t g)"

definition gen_inline :: "schema_lib \<Rightarrow> odecls \<Rightarrow> otype \<Rightarrow> (ofield \<Rightarrow> bool) \<Rightarrow> schema gen" where
  "gen_inline L D t excl = (\<lambda>n g. inline_schema n L D t excl g)"

section \<open>Operations\<close>

text \<open>The rules of a parameter, up to \<open>dive\<close>.\<close>

fun param_rules :: "schema_lib \<Rightarrow> gtype \<Rightarrow> (string \<times> string) list \<Rightarrow> bool \<times> schema \<Rightarrow> bool \<times> schema" where
  "param_rules L base [] st = st"
| "param_rules L base (r # rs) (req, s) =
     (if fst r = ''required'' then param_rules L base rs (True, s)
      else if fst r = ''dive'' then (req, s)
      else param_rules L base rs (req, apply_rule L base r s))"

text \<open>\<open>paramDoc\<close>, after the schema of the type.\<close>

definition param_of :: "schema_lib \<Rightarrow> doc_param \<Rightarrow> schema \<Rightarrow> api_param" where
  "param_of L p s0 =
     (let f = dp_field p; base = kind_of (strip_otype (of_type f));
          (req, s1) = param_rules L base (tag_rules (of_tags f)) (dp_in p = InPath, map_kw (field_doc L base (of_tags f)) s0);
          s2 = (case map_of (of_tags f) ''pattern'' of Some pat \<Rightarrow> map_kw (\<lambda>k. k\<lparr>kw_pattern := pat\<rparr>) s1 | None \<Rightarrow> s1)
      in \<lparr>ap_name = dp_name p, ap_in = loc_name (dp_in p), ap_required = req, ap_description = kw_description (sc_kw s2),
          ap_schema = map_kw (\<lambda>k. k\<lparr>kw_description := []\<rparr>) s2\<rparr>)"

definition add_param :: "schema_lib \<Rightarrow> odecls \<Rightarrow> doc_param \<Rightarrow> api_param list \<Rightarrow> api_param list gen" where
  "add_param L D p ps = gen_bind (gen_schema L D (of_type (dp_field p))) (\<lambda>s. gen_ret (ps @ [param_of L p s]))"

definition is_struct :: "otype \<Rightarrow> bool" where
  "is_struct t \<longleftrightarrow> (case kind_of t of TStruct _ \<Rightarrow> True | _ \<Rightarrow> False)"

definition input_plan_of :: "doc_route \<Rightarrow> input_plan option" where
  "input_plan_of r = (case dr_input r of Some t \<Rightarrow> if is_struct t then dr_plan r else None | None \<Rightarrow> None)"

text \<open>The type and schema of the body, from the plan or else from the \<open>Body\<close> option.\<close>

definition plan_body :: "schema_lib \<Rightarrow> odecls \<Rightarrow> doc_route \<Rightarrow> (otype \<times> schema) option gen" where
  "plan_body L D r =
     (case (input_plan_of r, dr_input r) of
        (Some pl, Some t) \<Rightarrow>
          (case ip_body pl of
             Some b \<Rightarrow> gen_bind (gen_schema L D b) (\<lambda>s. gen_ret (Some (b, s)))
           | None \<Rightarrow>
               if ip_whole pl \<and> has_body (dr_method r) then
                 gen_bind (if ip_params pl \<noteq> [] then gen_inline L D t is_param_field else gen_schema L D t)
                   (\<lambda>s. gen_ret (Some (t, s)))
               else gen_ret None)
      | _ \<Rightarrow> gen_ret None)"

definition body_schema :: "schema_lib \<Rightarrow> odecls \<Rightarrow> (string \<Rightarrow> otype) \<Rightarrow> doc_route \<Rightarrow> (otype \<times> schema) option gen" where
  "body_schema L D ty r =
     gen_bind (plan_body L D r)
       (\<lambda>b. case (b, od_body (rc_doc (dr_config r))) of
              (None, Some t) \<Rightarrow> gen_bind (gen_schema L D (ty t)) (\<lambda>s. gen_ret (Some (ty t, s)))
            | _ \<Rightarrow> gen_ret b)"

definition is_pointer :: "otype \<Rightarrow> bool" where
  "is_pointer t \<longleftrightarrow> (case t of OPtr _ \<Rightarrow> True | _ \<Rightarrow> False)"

definition json_media :: "schema option \<Rightarrow> string option \<Rightarrow> (string \<times> media_type) list" where
  "json_media s ex = [(''application/json'', \<lparr>mt_schema = s, mt_example = ex\<rparr>)]"

definition request_body_of :: "operation_doc \<Rightarrow> (otype \<times> schema) option \<Rightarrow> request_body option" where
  "request_body_of d b =
     (case b of
        None \<Rightarrow> None
      | Some (t, s) \<Rightarrow>
          Some \<lparr>rb_required = \<not> is_pointer t,
            rb_content = [(first_non_empty [od_body_content_type d, ''application/json''],
              \<lparr>mt_schema = Some s, mt_example = od_body_example d\<rparr>)]\<rparr>)"

text \<open>The path parameters that the input does not declare.\<close>

definition documented_names :: "doc_route \<Rightarrow> string list" where
  "documented_names r =
     (case input_plan_of r of None \<Rightarrow> [] | Some pl \<Rightarrow> map dp_name (filter (\<lambda>p. dp_in p = InPath) (ip_params pl)))"

definition plain_params :: "doc_route \<Rightarrow> api_param list" where
  "plain_params r =
     map (\<lambda>n. \<lparr>ap_name = doc_param_name n, ap_in = ''path'', ap_required = True, ap_description = [],
                ap_schema = plain_schema ''string'' []\<rparr>)
       (filter (\<lambda>n. n \<notin> set (documented_names r)) (snd (openapi_path (dr_path r))))"

section \<open>Responses\<close>

definition with_example :: "string option \<Rightarrow> (string \<times> media_type) list \<Rightarrow> (string \<times> media_type) list" where
  "with_example ex content =
     (case ex of
        None \<Rightarrow> content
      | Some e \<Rightarrow>
          AList.update ''application/json''
            (case map_of content ''application/json'' of
               None \<Rightarrow> \<lparr>mt_schema = None, mt_example = Some e\<rparr>
             | Some m \<Rightarrow> m\<lparr>mt_example := Some e\<rparr>) content)"

text \<open>The entry of a documented status: it enriches one that is there when it has no type of its own.\<close>

definition put_response ::
  "nat \<times> response_doc \<Rightarrow> (string \<times> media_type) list \<Rightarrow> (nat \<Rightarrow> string) \<Rightarrow> (string \<times> api_response) list \<Rightarrow> (string \<times> api_response) list" where
  "put_response e content text rs =
     (let key = dec_nat (fst e); d = snd e in
      case map_of rs key of
        Some old \<Rightarrow>
          if rd_type d = None then
            AList.update key (old\<lparr>ar_description := (if rd_description d \<noteq> [] then rd_description d else ar_description old),
              ar_content := with_example (rd_example d) (ar_content old)\<rparr>) rs
          else AList.update key \<lparr>ar_description = first_non_empty [rd_description d, text (fst e)],
                 ar_content = with_example (rd_example d) content\<rparr> rs
      | None \<Rightarrow>
          AList.update key \<lparr>ar_description = first_non_empty [rd_description d, text (fst e)],
            ar_content = with_example (rd_example d) content\<rparr> rs)"

definition add_response ::
  "schema_lib \<Rightarrow> odecls \<Rightarrow> (string \<Rightarrow> otype) \<Rightarrow> (nat \<Rightarrow> string) \<Rightarrow> schema \<Rightarrow> nat \<times> response_doc \<Rightarrow>
    (string \<times> api_response) list \<Rightarrow> (string \<times> api_response) list gen" where
  "add_response L D ty text err e rs =
     (if fst e = 0 then gen_ret rs
      else case rd_type (snd e) of
        Some t \<Rightarrow> gen_bind (gen_schema L D (ty t)) (\<lambda>s. gen_ret (put_response e (json_media (Some s) None) text rs))
      | None \<Rightarrow> gen_ret (put_response e (if fst e \<ge> 400 then json_media (Some err) None else []) text rs))"

definition success_of :: "operation_doc \<Rightarrow> nat" where
  "success_of d = (if od_success_status d = 0 then 200 else od_success_status d)"

text \<open>The response of a typed handler: its output, or no content.\<close>

definition typed_response ::
  "schema_lib \<Rightarrow> odecls \<Rightarrow> (nat \<Rightarrow> string) \<Rightarrow> doc_route \<Rightarrow> (string \<times> api_response) list gen" where
  "typed_response L D text r =
     (let st = success_of (rc_doc (dr_config r)) in
      case dr_output r of
        Some t \<Rightarrow>
          gen_bind (gen_schema L D t)
            (\<lambda>s. gen_ret [(dec_nat st, \<lparr>ar_description = text st, ar_content = json_media (Some s) None\<rparr>)])
      | None \<Rightarrow>
          gen_ret (if dr_input r \<noteq> None then [(''204'', \<lparr>ar_description = text 204, ar_content = []\<rparr>)] else []))"

text \<open>The entries that every operation has.\<close>

definition common_responses ::
  "schema \<Rightarrow> (nat \<Rightarrow> string) \<Rightarrow> operation_doc \<Rightarrow> bool \<Rightarrow> (string \<times> api_response) list \<Rightarrow> (string \<times> api_response) list" where
  "common_responses err text d input rs =
     (let rs1 = (if rs = [] then [(dec_nat (success_of d), \<lparr>ar_description = text (success_of d), ar_content = []\<rparr>)] else rs);
          rs2 = (if input \<and> map_of rs1 ''422'' = None
                 then AList.update ''422'' \<lparr>ar_description = ''Validation failed'', ar_content = json_media (Some err) None\<rparr> rs1
                 else rs1)
      in AList.update ''default'' \<lparr>ar_description = ''Error'', ar_content = json_media (Some err) None\<rparr> rs2)"

text \<open>An operation, all but its identifier. The responses are in the order in which the map is walked.\<close>

definition operation_of ::
  "schema_lib \<Rightarrow> odecls \<Rightarrow> (string \<Rightarrow> otype) \<Rightarrow> (nat \<Rightarrow> string) \<Rightarrow> schema \<Rightarrow> string \<Rightarrow> doc_route \<Rightarrow> operation gen" where
  "operation_of L D ty text err i r =
     (let d = rc_doc (dr_config r) in
      gen_bind (case input_plan_of r of None \<Rightarrow> gen_ret [] | Some pl \<Rightarrow> gen_fold (add_param L D) (ip_params pl) []) (\<lambda>ps.
      gen_bind (body_schema L D ty r) (\<lambda>b.
      gen_bind (typed_response L D text r) (\<lambda>rs0.
      gen_bind (gen_fold (add_response L D ty text err) (od_responses d) rs0) (\<lambda>rs.
        let params = ps @ plain_params r; body = request_body_of d b in
        gen_ret \<lparr>op_id = i, op_summary = od_summary d, op_description = od_description d, op_tags = od_tags d,
          op_deprecated = od_deprecated d, op_security = od_security d, op_params = params, op_body = body,
          op_responses = common_responses err text d (params \<noteq> [] \<or> body \<noteq> None) rs\<rparr>)))))"

section \<open>The document\<close>

definition route_id :: "doc_route \<Rightarrow> string" where
  "route_id r =
     first_non_empty [od_operation_id (rc_doc (dr_config r)), rc_name (dr_config r), derive_operation_id (dr_method r) (dr_path r)]"

text \<open>\<open>item[method] = op\<close> on the item of the path.\<close>

definition put_operation ::
  "string \<Rightarrow> string \<Rightarrow> operation \<Rightarrow> (string \<times> (string \<times> operation) list) list \<Rightarrow> (string \<times> (string \<times> operation) list) list" where
  "put_operation path m oper ps =
     AList.update path (AList.update m oper (case map_of ps path of None \<Rightarrow> [] | Some item \<Rightarrow> item)) ps"

definition add_doc_route ::
  "schema_lib \<Rightarrow> odecls \<Rightarrow> (string \<Rightarrow> otype) \<Rightarrow> (nat \<Rightarrow> string) \<Rightarrow> schema \<Rightarrow> doc_route \<Rightarrow>
    (string \<Rightarrow> nat) \<times> (string \<times> (string \<times> operation) list) list \<Rightarrow>
    ((string \<Rightarrow> nat) \<times> (string \<times> (string \<times> operation) list) list) gen" where
  "add_doc_route L D ty text err r st =
     (if \<not> documented r then gen_ret st
      else case unique_id (fst st) (route_id r) of (i, used) \<Rightarrow>
        gen_bind (operation_of L D ty text err i r)
          (\<lambda>oper. gen_ret (used, put_operation (fst (openapi_path (dr_path r))) (to_lower (dr_method r)) oper (snd st))))"

record openapi_config =
  oc_title :: string
  oc_version :: string
  oc_security :: "(string \<times> string list) list list"
  oc_spec_path :: string
  oc_docs_path :: string
  oc_ui :: string

record openapi_state =
  os_enabled :: bool
  os_config :: openapi_config
  os_schemes :: "(string \<times> string) list"
  os_tags :: "(string \<times> string) list"
  os_doc :: "api_document option"
  os_json :: "string option"

text \<open>\<open>buildOpenAPI\<close>: the paths and components, then the document. \<open>err\<close> is the type of error bodies.\<close>

definition build_paths ::
  "schema_lib \<Rightarrow> odecls \<Rightarrow> (string \<Rightarrow> otype) \<Rightarrow> (nat \<Rightarrow> string) \<Rightarrow> otype \<Rightarrow> doc_route list \<Rightarrow>
    (string \<times> (string \<times> operation) list) list gen" where
  "build_paths L D ty text err rs =
     gen_bind (gen_schema L D err) (\<lambda>e.
     gen_bind (gen_fold (add_doc_route L D ty text e) rs (\<lambda>_. 0, [])) (\<lambda>st. gen_ret (snd st)))"

definition build_document ::
  "nat \<Rightarrow> schema_lib \<Rightarrow> odecls \<Rightarrow> (string \<Rightarrow> otype) \<Rightarrow> (nat \<Rightarrow> string) \<Rightarrow> otype \<Rightarrow> openapi_state \<Rightarrow> doc_route list \<Rightarrow> api_document option" where
  "build_document n L D ty text err st rs =
     map_option (\<lambda>(paths, g).
         \<lparr>do_title = oc_title (os_config st), do_version = oc_version (os_config st), do_security = oc_security (os_config st),
          do_tags = sort_key fst (os_tags st), do_paths = paths, do_components = ge_schemas g, do_schemes = os_schemes st\<rparr>)
       (build_paths L D ty text err rs n new_generator)"

section \<open>The application's calls\<close>

definition new_openapi_state :: openapi_state where
  "new_openapi_state =
     \<lparr>os_enabled = False,
      os_config = \<lparr>oc_title = [], oc_version = [], oc_security = [], oc_spec_path = [], oc_docs_path = [], oc_ui = []\<rparr>,
      os_schemes = [], os_tags = [], os_doc = None, os_json = None\<rparr>"

definition or_default :: "string \<Rightarrow> string \<Rightarrow> string" where
  "or_default v d = (if v = [] then d else v)"

definition config_defaults :: "openapi_config \<Rightarrow> openapi_config" where
  "config_defaults c =
     c\<lparr>oc_spec_path := or_default (oc_spec_path c) ''/openapi.json'', oc_docs_path := or_default (oc_docs_path c) ''/docs'',
       oc_ui := or_default (oc_ui c) ''swagger'', oc_title := or_default (oc_title c) ''API'', oc_version := or_default (oc_version c) ''1.0.0''\<rparr>"

text \<open>\<open>App.OpenAPI\<close>, before the application starts; \<open>AddSecurityScheme\<close>; \<open>AddTag\<close>.\<close>

definition enable_openapi ::
  "openapi_config \<Rightarrow> (string \<times> string) list \<Rightarrow> (string \<times> string) list \<Rightarrow> openapi_state \<Rightarrow> openapi_state" where
  "enable_openapi c schemes tags st =
     st\<lparr>os_enabled := True, os_config := config_defaults c,
        os_schemes := fold (\<lambda>(k, v). AList.update k v) schemes (os_schemes st), os_tags := os_tags st @ tags\<rparr>"

definition add_security_scheme :: "string \<Rightarrow> string \<Rightarrow> openapi_state \<Rightarrow> openapi_state" where
  "add_security_scheme name sc st = st\<lparr>os_schemes := AList.update name sc (os_schemes st)\<rparr>"

definition add_tag :: "string \<times> string \<Rightarrow> openapi_state \<Rightarrow> openapi_state" where
  "add_tag tag st = st\<lparr>os_tags := os_tags st @ [tag]\<rparr>"

datatype doc_error = NotEnabled | NotStarted

definition openapi_document :: "openapi_state option \<Rightarrow> (doc_error, api_document) result" where
  "openapi_document st =
     (case st of
        None \<Rightarrow> Inl NotEnabled
      | Some s \<Rightarrow> if \<not> os_enabled s then Inl NotEnabled else (case os_doc s of None \<Rightarrow> Inl NotStarted | Some d \<Rightarrow> Inr d))"

text \<open>The routes that \<open>registerOpenAPIRoutes\<close> adds: the document and the page. They are hidden.\<close>

definition openapi_routes :: "openapi_state option \<Rightarrow> string list" where
  "openapi_routes st =
     (case st of
        None \<Rightarrow> []
      | Some s \<Rightarrow>
          if \<not> os_enabled s then []
          else (if oc_spec_path (os_config s) \<noteq> ''-'' then [oc_spec_path (os_config s)] else []) @
               (if oc_docs_path (os_config s) \<noteq> ''-'' \<and> oc_spec_path (os_config s) \<noteq> ''-'' then [oc_docs_path (os_config s)] else []))"

text \<open>The call at \<open>Start\<close>: the state after it and whether there is a diagnostic; the document is kept also if it cannot be encoded.\<close>

definition build_openapi ::
  "nat \<Rightarrow> schema_lib \<Rightarrow> odecls \<Rightarrow> (string \<Rightarrow> otype) \<Rightarrow> (nat \<Rightarrow> string) \<Rightarrow> otype \<Rightarrow> (api_document \<Rightarrow> string option) \<Rightarrow> doc_route list \<Rightarrow>
    openapi_state \<Rightarrow> (openapi_state \<times> bool) option" where
  "build_openapi n L D ty text err enc rs st =
     (if \<not> os_enabled st then Some (st, False)
      else case build_document n L D ty text err st rs of
        None \<Rightarrow> None
      | Some d \<Rightarrow>
          let st1 = st\<lparr>os_doc := Some d, os_tags := do_tags d\<rparr> in
          (case enc d of None \<Rightarrow> Some (st1, True) | Some j \<Rightarrow> Some (st1\<lparr>os_json := Some j\<rparr>, False)))"

section \<open>Chains of calls\<close>

text \<open>
  A chain is sound for a predicate on its result if from every state of a generator it returns at some depth and then always
  the same, keeps the state well-formed, forgets no component, and the result satisfies the predicate in the new state.
\<close>

definition gen_sound :: "(generator \<Rightarrow> 'a \<Rightarrow> bool) \<Rightarrow> generator \<Rightarrow> 'a gen \<Rightarrow> bool" where
  "gen_sound P g F \<longleftrightarrow>
     gen_ok g \<longrightarrow> (\<exists>n0 a g'. (\<forall>n \<ge> n0. F n g = Some (a, g')) \<and> gen_ok g' \<and> gen_grows g g' \<and> P g' a)"

lemma gen_sound_ret: "P g a \<Longrightarrow> gen_sound P g (gen_ret a)"
  using gen_grows_refl by (auto simp: gen_sound_def gen_ret_def)

lemma gen_sound_bind:
  assumes "gen_sound P g F" "\<And>a g'. gen_grows g g' \<Longrightarrow> P g' a \<Longrightarrow> gen_sound Q g' (K a)"
  shows "gen_sound Q g (gen_bind F K)"
  unfolding gen_sound_def
proof
  assume "gen_ok g"
  then obtain n0 a g1 where f: "\<And>n. n \<ge> n0 \<Longrightarrow> F n g = Some (a, g1)" "gen_ok g1" "gen_grows g g1" "P g1 a"
    using assms(1) unfolding gen_sound_def by blast
  obtain n1 b g2 where k: "\<And>n. n \<ge> n1 \<Longrightarrow> K a n g1 = Some (b, g2)" "gen_ok g2" "gen_grows g1 g2" "Q g2 b"
    using assms(2) [OF f(3,4)] f(2) unfolding gen_sound_def by blast
  have "gen_bind F K n g = Some (b, g2)" if "n \<ge> max n0 n1" for n
    using f(1) [of n] k(1) [of n] that by (simp add: gen_bind_def)
  then show "\<exists>n0 a g'. (\<forall>n \<ge> n0. gen_bind F K n g = Some (a, g')) \<and> gen_ok g' \<and> gen_grows g g' \<and> Q g' a"
    using k(2,4) gen_grows_trans [OF f(3) k(3)] by blast
qed

lemma gen_sound_fold:
  assumes step: "\<And>x a g'. x \<in> set xs \<Longrightarrow> gen_grows g g' \<Longrightarrow> P g' a \<Longrightarrow> gen_sound P g' (F x a)"
    and init: "P g a"
  shows "gen_sound P g (gen_fold F xs a)"
  using assms
proof (induction xs arbitrary: g a)
  case Nil
  then show ?case by (simp add: gen_sound_ret)
next
  case (Cons x xs)
  have "gen_sound P g (F x a)" using Cons.prems gen_grows_refl by simp
  moreover have "gen_sound P g' (gen_fold F xs b)" if "gen_grows g g'" "P g' b" for g' b
    using Cons.IH [of g' b] Cons.prems(1) that gen_grows_trans by (metis list.set_intros(2))
  ultimately show ?case by (simp add: gen_sound_bind [where P = P])
qed

lemma gen_sound_schema:
  assumes D: "plain_decls D" "ranked R D" and t: "plain_type D t"
  shows "gen_sound refs_ok g (gen_schema L D t)"
  unfolding gen_sound_def
proof
  assume ok: "gen_ok g"
  then have "schema_ends L D t g" using generation_ends [OF D, of L "Inl (t, g)"] t by simp
  then obtain n0 s g1 where r: "\<And>n. n \<ge> n0 \<Longrightarrow> schema_of n L D t g = Some (s, g1)" by (auto simp: schema_ends_def)
  have "gen_step g s g1" using schema_of_step [OF D(1), of n0 L, THEN conjunct1, rule_format, OF ok t r [OF order_refl]] .
  then show "\<exists>n0 a g'. (\<forall>n \<ge> n0. gen_schema L D t n g = Some (a, g')) \<and> gen_ok g' \<and> gen_grows g g' \<and> refs_ok g' a"
    using r unfolding gen_step_def gen_schema_def by blast
qed

lemma gen_sound_fields:
  assumes D: "plain_decls D" "ranked R D" and fs: "plain_fields D fs"
  shows "gen_sound refs_ok g (\<lambda>n g. add_fields n L D excl fs object_schema g)"
  unfolding gen_sound_def
proof
  assume ok: "gen_ok g"
  have obj: "refs_ok g object_schema" by (simp add: refs_ok_def object_schema_refs)
  then have "fields_end L D excl fs object_schema g" using generation_ends [OF D, of L "Inr (fs, g)"] ok fs by simp
  then obtain n0 s g1 where r: "\<And>n. n \<ge> n0 \<Longrightarrow> add_fields n L D excl fs object_schema g = Some (s, g1)"
    by (auto simp: fields_end_def)
  have "gen_step g s g1" using schema_of_step [OF D(1), of n0 L, THEN conjunct2, rule_format, OF ok fs obj r [OF order_refl]] .
  then show "\<exists>n0 a g'. (\<forall>n \<ge> n0. add_fields n L D excl fs object_schema g = Some (a, g')) \<and> gen_ok g' \<and> gen_grows g g' \<and> refs_ok g' a"
    using r unfolding gen_step_def by blast
qed

lemma gen_sound_inline:
  assumes D: "plain_decls D" "ranked R D" and t: "plain_type D t"
  shows "gen_sound refs_ok g (gen_inline L D t excl)"
proof -
  have p: "plain_type D (strip_otype t)" using t by (simp add: plain_strip)
  have other: "gen_sound refs_ok g (\<lambda>n g. schema_of n L D (strip_otype t) g)"
    using gen_sound_schema [OF D p, of g L] by (simp add: gen_schema_def)
  show ?thesis
  proof (cases "strip_otype t")
    case (OStruct fs)
    then have "plain_fields D fs" using p by (simp add: plain_fields_def)
    then show ?thesis using gen_sound_fields [OF D, of fs g L excl] OStruct by (simp add: gen_inline_def inline_schema_def)
  next
    case (ONamed c)
    then obtain d where "map_of D c = Some d" using p by auto
    then show ?thesis using gen_sound_fields [OF D plain_named [OF D(1)], of c d g L excl] ONamed
      by (simp add: gen_inline_def inline_schema_def)
  next
    case OTime
    have "refs_ok g object_schema" by (simp add: refs_ok_def object_schema_refs)
    then show ?thesis using gen_sound_ret [of refs_ok g object_schema] OTime by (simp add: gen_inline_def inline_schema_def gen_ret_def)
  qed (use other in \<open>simp_all add: gen_inline_def inline_schema_def\<close>)
qed

section \<open>References of the document\<close>

definition content_refs :: "(string \<times> media_type) list \<Rightarrow> string list" where
  "content_refs c = concat (map (\<lambda>(k, m). case mt_schema m of None \<Rightarrow> [] | Some s \<Rightarrow> ref_list s) c)"

definition response_refs :: "(string \<times> api_response) list \<Rightarrow> string list" where
  "response_refs rs = concat (map (\<lambda>(k, r). content_refs (ar_content r)) rs)"

definition operation_refs :: "operation \<Rightarrow> string list" where
  "operation_refs oper =
     concat (map (\<lambda>p. ref_list (ap_schema p)) (op_params oper)) @
     (case op_body oper of None \<Rightarrow> [] | Some b \<Rightarrow> content_refs (rb_content b)) @ response_refs (op_responses oper)"

definition path_refs :: "(string \<times> (string \<times> operation) list) list \<Rightarrow> string list" where
  "path_refs ps = concat (map (\<lambda>(k, item). concat (map (\<lambda>(m, oper). operation_refs oper) item)) ps)"

definition refs_in :: "generator \<Rightarrow> string list \<Rightarrow> bool" where
  "refs_in g xs \<longleftrightarrow> list_all (resolves (ge_schemas g)) xs"

lemma refs_in_grows: "gen_grows g g' \<Longrightarrow> refs_in g xs \<Longrightarrow> refs_in g' xs"
  using resolves_grows by (auto simp: refs_in_def list_all_iff)

lemma refs_in_ref_list: "refs_in g (ref_list s) = refs_ok g s"
  by (auto simp: refs_in_def refs_ok_def list_all_iff)

lemma refs_in_append [simp]: "refs_in g (xs @ ys) \<longleftrightarrow> refs_in g xs \<and> refs_in g ys"
  by (simp add: refs_in_def)

lemma refs_in_Nil [simp]: "refs_in g []"
  by (simp add: refs_in_def)

lemma refs_in_concat: "refs_in g (concat xs) \<longleftrightarrow> (\<forall>x \<in> set xs. refs_in g x)"
  by (induction xs) (simp_all add: refs_in_def)

lemma json_media_refs: "content_refs (json_media (Some s) ex) = ref_list s"
  by (simp add: content_refs_def json_media_def)

lemma content_refs_update:
  assumes "refs_in g (content_refs c)" "case mt_schema m of None \<Rightarrow> True | Some s \<Rightarrow> refs_ok g s"
  shows "refs_in g (content_refs (AList.update k m c))"
  using assms AList_update_set [of k m c]
  by (force simp: content_refs_def refs_in_concat refs_in_ref_list [symmetric] split: option.splits)

lemma with_example_refs: "refs_in g (content_refs c) \<Longrightarrow> refs_in g (content_refs (with_example ex c))"
  unfolding with_example_def
  by (auto intro!: content_refs_update dest!: map_of_SomeD
      simp: refs_in_ref_list [symmetric] split: option.split)
     (force simp: content_refs_def refs_in_concat split: option.splits)

lemma response_refs_update:
  assumes "refs_in g (response_refs rs)" "refs_in g (content_refs (ar_content r))"
  shows "refs_in g (response_refs (AList.update k r rs))"
  using assms AList_update_set [of k r rs] by (force simp: response_refs_def refs_in_concat)

lemma response_refs_member: "refs_in g (response_refs rs) \<Longrightarrow> map_of rs k = Some r \<Longrightarrow> refs_in g (content_refs (ar_content r))"
  by (auto simp: response_refs_def refs_in_concat dest!: map_of_SomeD)

lemma put_response_refs:
  assumes "refs_in g (response_refs rs)" "refs_in g (content_refs c)"
  shows "refs_in g (response_refs (put_response e c text rs))"
  using assms response_refs_member [OF assms(1)]
  by (auto simp: put_response_def Let_def split: option.split intro!: response_refs_update with_example_refs)

lemma common_responses_refs:
  assumes "refs_in g (response_refs rs)" "refs_ok g err"
  shows "refs_in g (response_refs (common_responses err text d b rs))"
proof -
  have err: "refs_in g (content_refs (json_media (Some err) None))" using assms(2) by (simp add: json_media_refs refs_in_ref_list)
  define rs1 where "rs1 = (if rs = [] then [(dec_nat (success_of d), \<lparr>ar_description = text (success_of d), ar_content = []\<rparr>)] else rs)"
  have 1: "refs_in g (response_refs rs1)" using assms(1) by (simp add: rs1_def response_refs_def content_refs_def)
  have 2: "refs_in g (response_refs (if c then AList.update k \<lparr>ar_description = t, ar_content = json_media (Some err) None\<rparr> rs1 else rs1))"
    for c k t using response_refs_update [OF 1, of "\<lparr>ar_description = t, ar_content = json_media (Some err) None\<rparr>" k] 1 err by simp
  show ?thesis unfolding common_responses_def Let_def rs1_def [symmetric]
    by (rule response_refs_update [OF 2]) (simp add: err)
qed

lemma path_refs_update:
  assumes "refs_in g (path_refs ps)" "refs_in g (operation_refs oper)"
  shows "refs_in g (path_refs (put_operation path m oper ps))"
proof -
  let ?item = "AList.update m oper (case map_of ps path of None \<Rightarrow> [] | Some item \<Rightarrow> item)"
  have old: "refs_in g (operation_refs q)" if "(k, item) \<in> set ps" "(m', q) \<in> set item" for k item m' q
  proof -
    have "refs_in g (concat (map (\<lambda>(m, oper). operation_refs oper) item))"
      using assms(1) that(1) by (force simp: path_refs_def refs_in_concat)
    then show ?thesis using that(2) by (force simp: refs_in_concat)
  qed
  have "refs_in g (operation_refs q)" if "(m', q) \<in> set ?item" for m' q
    using that AList_update_set [of m oper] assms(2) old by (force split: option.splits dest!: map_of_SomeD)
  then show ?thesis using old AList_update_set [of path ?item ps]
    by (fastforce simp: put_operation_def path_refs_def refs_in_concat)
qed

lemma param_rules_refs: "ref_list (snd (param_rules L base rs (q, s))) = ref_list s"
  by (induction rs arbitrary: q s) (simp_all add: apply_rule_refs)

lemma param_of_refs: "ref_list (ap_schema (param_of L p s)) = ref_list s"
proof -
  let ?base = "kind_of (strip_otype (of_type (dp_field p)))"
  obtain q s1 where r: "param_rules L ?base (tag_rules (of_tags (dp_field p)))
      (dp_in p = InPath, map_kw (field_doc L ?base (of_tags (dp_field p))) s) = (q, s1)" by fastforce
  have "ref_list s1 = ref_list s"
    using param_rules_refs [of L ?base "tag_rules (of_tags (dp_field p))" "dp_in p = InPath" "map_kw (field_doc L ?base (of_tags (dp_field p))) s"] r
    by (simp add: map_kw_refs)
  moreover have "ref_list (map_kw (\<lambda>k. k\<lparr>kw_description := []\<rparr>) s') = ref_list s'" "ref_list (map_kw (\<lambda>k. k\<lparr>kw_pattern := x\<rparr>) s') = ref_list s'"
    for s' x by (simp_all add: map_kw_refs)
  ultimately show ?thesis by (simp add: param_of_def Let_def r split: option.split)
qed

text \<open>The types of a route, all of which are to be well-formed.\<close>

definition route_types :: "(string \<Rightarrow> otype) \<Rightarrow> doc_route \<Rightarrow> otype list" where
  "route_types ty r =
     (case dr_input r of None \<Rightarrow> [] | Some t \<Rightarrow> [t]) @ (case dr_output r of None \<Rightarrow> [] | Some t \<Rightarrow> [t]) @
     (case dr_plan r of None \<Rightarrow> []
      | Some pl \<Rightarrow> map (\<lambda>p. of_type (dp_field p)) (ip_params pl) @ (case ip_body pl of None \<Rightarrow> [] | Some t \<Rightarrow> [t])) @
     (case od_body (rc_doc (dr_config r)) of None \<Rightarrow> [] | Some t \<Rightarrow> [ty t]) @
     concat (map (\<lambda>(st, d). case rd_type d of None \<Rightarrow> [] | Some t \<Rightarrow> [ty t]) (od_responses (rc_doc (dr_config r))))"

definition params_ok :: "generator \<Rightarrow> api_param list \<Rightarrow> bool" where
  "params_ok g ps \<longleftrightarrow> refs_in g (concat (map (\<lambda>p. ref_list (ap_schema p)) ps))"

definition body_ok :: "generator \<Rightarrow> (otype \<times> schema) option \<Rightarrow> bool" where
  "body_ok g b \<longleftrightarrow> (case b of None \<Rightarrow> True | Some (t, s) \<Rightarrow> refs_ok g s)"

lemma sound_params:
  assumes D: "plain_decls D" "ranked R D" and t: "list_all (plain_type D) (map (\<lambda>p. of_type (dp_field p)) ps)"
  shows "gen_sound params_ok g (gen_fold (add_param L D) ps [])"
proof (rule gen_sound_fold)
  fix p qs g' assume p: "p \<in> set ps" and qs: "params_ok g' qs"
  have "plain_type D (of_type (dp_field p))" using t p by (auto simp: list_all_iff)
  from gen_sound_schema [OF D this]
  show "gen_sound params_ok g' (add_param L D p qs)" unfolding add_param_def
  proof (rule gen_sound_bind)
    fix s g2 assume "gen_grows g' g2" "refs_ok g2 s"
    then show "gen_sound params_ok g2 (gen_ret (qs @ [param_of L p s]))"
      using qs refs_in_grows by (auto intro!: gen_sound_ret simp: params_ok_def param_of_refs refs_in_ref_list)
  qed
qed (simp add: params_ok_def)

lemma sound_body:
  assumes D: "plain_decls D" "ranked R D" and t: "list_all (plain_type D) (route_types ty r)"
  shows "gen_sound body_ok g (body_schema L D ty r)"
proof -
  have some: "gen_sound body_ok g (gen_bind F (\<lambda>s. gen_ret (Some (u, s))))" if "gen_sound refs_ok g F" for F g u
    by (rule gen_sound_bind [OF that]) (simp add: gen_sound_ret body_ok_def)
  have none: "gen_sound body_ok g (gen_ret None)" for g by (simp add: gen_sound_ret body_ok_def)
  have in_plan: "input_plan_of r = Some pl \<Longrightarrow> dr_plan r = Some pl" for pl by (simp add: input_plan_of_def split: option.splits if_splits)
  have types: "input_plan_of r = Some pl \<Longrightarrow> ip_body pl = Some b \<Longrightarrow> plain_type D b" "dr_input r = Some u \<Longrightarrow> plain_type D u"
      "od_body (rc_doc (dr_config r)) = Some c \<Longrightarrow> plain_type D (ty c)" for pl b u c
    using t in_plan by (auto simp: route_types_def)
  have plan: "gen_sound body_ok g (plan_body L D r)" for g
  proof (cases "input_plan_of r = None \<or> dr_input r = None")
    case True
    then show ?thesis by (auto simp: plan_body_def none split: option.split)
  next
    case False
    then obtain pl u where pu: "input_plan_of r = Some pl" "dr_input r = Some u" by auto
    have u: "plain_type D u" using types(2) pu(2) .
    show ?thesis
    proof (cases "ip_body pl")
      case None
      then show ?thesis using some [OF gen_sound_schema [OF D u]] some [OF gen_sound_inline [OF D u]] none
        by (simp add: plan_body_def pu)
    next
      case (Some c)
      then show ?thesis using some [OF gen_sound_schema [OF D types(1) [OF pu(1) Some]]] by (simp add: plan_body_def pu)
    qed
  qed
  show ?thesis unfolding body_schema_def
  proof (rule gen_sound_bind [OF plan])
    fix b g' assume b: "body_ok g' b"
    show "gen_sound body_ok g' (case (b, od_body (rc_doc (dr_config r))) of
        (None, Some c) \<Rightarrow> gen_bind (gen_schema L D (ty c)) (\<lambda>s. gen_ret (Some (ty c, s))) | _ \<Rightarrow> gen_ret b)"
      using b by (auto split: option.split intro!: some gen_sound_schema [OF D] types gen_sound_ret)
  qed
qed

definition responses_ok :: "schema \<Rightarrow> generator \<Rightarrow> (string \<times> api_response) list \<Rightarrow> bool" where
  "responses_ok err g rs \<longleftrightarrow> refs_in g (response_refs rs)"

lemma responses_ok_grows: "gen_grows g g' \<Longrightarrow> responses_ok err g rs \<Longrightarrow> responses_ok err g' rs"
  using refs_in_grows by (auto simp: responses_ok_def)

lemma sound_typed_response:
  assumes D: "plain_decls D" "ranked R D" and t: "list_all (plain_type D) (route_types ty r)"
  shows "gen_sound (responses_ok err) g (typed_response L D text r)"
proof (cases "dr_output r")
  case None
  then show ?thesis by (auto simp: typed_response_def Let_def responses_ok_def response_refs_def content_refs_def intro!: gen_sound_ret)
next
  case (Some u)
  then have "plain_type D u" using t by (simp add: route_types_def)
  from gen_sound_schema [OF D this, of g L] show ?thesis
    unfolding typed_response_def Let_def Some option.case
    by (rule gen_sound_bind) (simp add: gen_sound_ret responses_ok_def response_refs_def json_media_refs refs_in_ref_list)
qed

lemma response_type_listed:
  "e \<in> set ods \<Longrightarrow> rd_type (snd e) = Some c \<Longrightarrow>
    ty c \<in> set (concat (map (\<lambda>(st, d). case rd_type d of None \<Rightarrow> [] | Some t \<Rightarrow> [ty t]) ods))"
  by (induction ods) auto

lemma sound_responses:
  assumes D: "plain_decls D" "ranked R D" and t: "list_all (plain_type D) (route_types ty r)"
    and err: "refs_ok g err" and rs: "responses_ok err g rs"
  shows "gen_sound (responses_ok err) g (gen_fold (add_response L D ty text err) (od_responses (rc_doc (dr_config r))) rs)"
proof (rule gen_sound_fold)
  fix e qs g' assume e: "e \<in> set (od_responses (rc_doc (dr_config r)))" and gr: "gen_grows g g'" and qs: "responses_ok err g' qs"
  have err': "refs_ok g' err" using refs_ok_grows [OF gr err] .
  have put: "responses_ok err g2 (put_response e c text qs)" if "gen_grows g' g2" "refs_in g2 (content_refs c)" for g2 c
    using put_response_refs [OF _ that(2), of qs e "text"] responses_ok_grows [OF that(1) qs] by (simp add: responses_ok_def)
  show "gen_sound (responses_ok err) g' (add_response L D ty text err e qs)"
  proof (cases "rd_type (snd e)")
    case None
    have "refs_in g' (content_refs (if fst e \<ge> 400 then json_media (Some err) None else []))"
      using err' by (simp add: json_media_refs refs_in_ref_list content_refs_def [of "[]"])
    with put [OF gen_grows_refl this] show ?thesis using None qs by (simp add: add_response_def gen_sound_ret)
  next
    case (Some c)
    then have "ty c \<in> set (route_types ty r)" using response_type_listed [OF e] unfolding route_types_def set_append by blast
    then have "plain_type D (ty c)" using t by (simp add: list_all_iff)
    from gen_sound_schema [OF D this, of g' L]
    have "gen_sound (responses_ok err) g'
        (gen_bind (gen_schema L D (ty c)) (\<lambda>s. gen_ret (put_response e (json_media (Some s) None) text qs)))"
      by (rule gen_sound_bind) (simp add: gen_sound_ret put json_media_refs refs_in_ref_list)
    then show ?thesis using Some qs by (simp add: add_response_def gen_sound_ret)
  qed
qed (fact rs)

definition operation_ok :: "generator \<Rightarrow> operation \<Rightarrow> bool" where
  "operation_ok g oper \<longleftrightarrow> refs_in g (operation_refs oper)"

lemma content_of_body: "body_ok g b \<Longrightarrow> refs_in g (case request_body_of d b of None \<Rightarrow> [] | Some rb \<Rightarrow> content_refs (rb_content rb))"
  by (auto simp: body_ok_def request_body_of_def content_refs_def refs_in_ref_list split: option.split)

lemma plain_params_refs: "concat (map (\<lambda>p. ref_list (ap_schema p)) (plain_params r)) = []"
  by (simp add: plain_params_def plain_schema_def no_kwords_def)

lemma sound_operation:
  assumes D: "plain_decls D" "ranked R D" and t: "list_all (plain_type D) (route_types ty r)" and err: "refs_ok g err"
  shows "gen_sound operation_ok g (operation_of L D ty text err i r)"
proof -
  let ?d = "rc_doc (dr_config r)"
  let ?final = "\<lambda>ps b rs. \<lparr>op_id = i, op_summary = od_summary ?d, op_description = od_description ?d, op_tags = od_tags ?d,
          op_deprecated = od_deprecated ?d, op_security = od_security ?d, op_params = ps @ plain_params r, op_body = request_body_of ?d b,
          op_responses = common_responses err text ?d (ps @ plain_params r \<noteq> [] \<or> request_body_of ?d b \<noteq> None) rs\<rparr>"
  have in_plan: "input_plan_of r = Some pl \<Longrightarrow> dr_plan r = Some pl" for pl by (simp add: input_plan_of_def split: option.splits if_splits)
  have params: "gen_sound params_ok g (case input_plan_of r of None \<Rightarrow> gen_ret [] | Some pl \<Rightarrow> gen_fold (add_param L D) (ip_params pl) [])"
  proof (cases "input_plan_of r")
    case None
    then show ?thesis by (simp add: gen_sound_ret params_ok_def)
  next
    case (Some pl)
    then have "list_all (plain_type D) (map (\<lambda>p. of_type (dp_field p)) (ip_params pl))"
      using t in_plan by (simp add: route_types_def)
    then show ?thesis using sound_params [OF D] Some by simp
  qed
  have final: "gen_sound operation_ok g4 (gen_ret (?final ps b rs))"
    if "params_ok g4 ps" "body_ok g4 b" "responses_ok err g4 rs" "refs_ok g4 err" for g4 ps b rs
    using that common_responses_refs [of g4 rs err] content_of_body [of g4 b ?d]
    by (intro gen_sound_ret)
       (simp add: operation_ok_def operation_refs_def params_ok_def plain_params_refs responses_ok_def)
  show ?thesis unfolding operation_of_def Let_def
  proof (rule gen_sound_bind [OF params])
    fix ps g1 assume 1: "gen_grows g g1" "params_ok g1 ps"
    show "gen_sound operation_ok g1 (gen_bind (body_schema L D ty r) (\<lambda>b. gen_bind (typed_response L D text r)
        (\<lambda>rs0. gen_bind (gen_fold (add_response L D ty text err) (od_responses ?d) rs0) (\<lambda>rs. gen_ret (?final ps b rs)))))"
    proof (rule gen_sound_bind [OF sound_body [OF D t]])
      fix b g2 assume 2: "gen_grows g1 g2" "body_ok g2 b"
      show "gen_sound operation_ok g2 (gen_bind (typed_response L D text r)
          (\<lambda>rs0. gen_bind (gen_fold (add_response L D ty text err) (od_responses ?d) rs0) (\<lambda>rs. gen_ret (?final ps b rs))))"
      proof (rule gen_sound_bind [OF sound_typed_response [OF D t, where err = err]])
        fix rs0 g3 assume 3: "gen_grows g2 g3" "responses_ok err g3 rs0"
        have g3: "gen_grows g g3" using 1(1) 2(1) 3(1) gen_grows_trans by blast
        show "gen_sound operation_ok g3 (gen_bind (gen_fold (add_response L D ty text err) (od_responses ?d) rs0) (\<lambda>rs. gen_ret (?final ps b rs)))"
        proof (rule gen_sound_bind [OF sound_responses [OF D t refs_ok_grows [OF g3 err] 3(2)]])
          fix rs g4 assume 4: "gen_grows g3 g4" "responses_ok err g4 rs"
          have g4: "gen_grows g1 g4" "gen_grows g2 g4" "gen_grows g g4" using 2(1) 3(1) 4(1) g3 gen_grows_trans by blast+
          show "gen_sound operation_ok g4 (gen_ret (?final ps b rs))"
            using refs_in_grows [OF g4(1)] 1(2) refs_ok_grows [OF g4(2)] 2(2) refs_ok_grows [OF g4(3) err]
            by (intro final) (auto simp: params_ok_def body_ok_def 4(2) split: option.splits)
        qed
      qed
    qed
  qed
qed

definition paths_ok :: "generator \<Rightarrow> 'u \<times> (string \<times> (string \<times> operation) list) list \<Rightarrow> bool" where
  "paths_ok g st \<longleftrightarrow> refs_in g (path_refs (snd st))"

lemma sound_routes:
  assumes D: "plain_decls D" "ranked R D" and t: "list_all (\<lambda>r. list_all (plain_type D) (route_types ty r)) rs" and err: "refs_ok g err"
  shows "gen_sound paths_ok g (gen_fold (add_doc_route L D ty text err) rs (\<lambda>_. 0, []))"
proof (rule gen_sound_fold)
  fix r and st :: "(string \<Rightarrow> nat) \<times> (string \<times> (string \<times> operation) list) list" and g'
  assume r: "r \<in> set rs" and gr: "gen_grows g g'" and st: "paths_ok g' st"
  have rt: "list_all (plain_type D) (route_types ty r)" using t r by (simp add: list_all_iff)
  show "gen_sound paths_ok g' (add_doc_route L D ty text err r st)"
  proof (cases "documented r")
    case True
    obtain i used where u: "unique_id (fst st) (route_id r) = (i, used)" by fastforce
    have "gen_sound paths_ok g' (gen_bind (operation_of L D ty text err i r)
        (\<lambda>oper. gen_ret (used, put_operation (fst (openapi_path (dr_path r))) (to_lower (dr_method r)) oper (snd st))))"
    proof (rule gen_sound_bind [OF sound_operation [OF D rt refs_ok_grows [OF gr err]]])
      fix oper g2 assume "gen_grows g' g2" "operation_ok g2 oper"
      then show "gen_sound paths_ok g2 (gen_ret (used, put_operation (fst (openapi_path (dr_path r))) (to_lower (dr_method r)) oper (snd st)))"
        using refs_in_grows [of g' g2] st by (intro gen_sound_ret) (simp add: paths_ok_def operation_ok_def path_refs_update)
    qed
    then show ?thesis using True u by (simp add: add_doc_route_def)
  next
    case False
    then show ?thesis using st by (simp add: add_doc_route_def gen_sound_ret)
  qed
qed (simp add: paths_ok_def path_refs_def)

lemma sound_paths:
  assumes D: "plain_decls D" "ranked R D" and t: "list_all (\<lambda>r. list_all (plain_type D) (route_types ty r)) rs" and err: "plain_type D err"
  shows "gen_sound (\<lambda>g ps. refs_in g (path_refs ps)) g (build_paths L D ty text err rs)"
  unfolding build_paths_def
proof (rule gen_sound_bind [OF gen_sound_schema [OF D err]])
  fix e g1 assume "refs_ok g1 e"
  from sound_routes [OF D t this]
  show "gen_sound (\<lambda>g ps. refs_in g (path_refs ps)) g1
      (gen_bind (gen_fold (add_doc_route L D ty text e) rs (\<lambda>_. 0, [])) (\<lambda>st. gen_ret (snd st)))"
    by (rule gen_sound_bind) (simp add: gen_sound_ret paths_ok_def)
qed

section \<open>Operations of the document\<close>

definition lookup_operation :: "(string \<times> (string \<times> operation) list) list \<Rightarrow> string \<times> string \<Rightarrow> operation option" where
  "lookup_operation ps k = (case map_of ps (fst k) of None \<Rightarrow> None | Some item \<Rightarrow> map_of item (snd k))"

definition route_key :: "doc_route \<Rightarrow> string \<times> string" where
  "route_key r = (fst (openapi_path (dr_path r)), to_lower (dr_method r))"

definition path_param_names :: "operation \<Rightarrow> string list" where
  "path_param_names oper = map ap_name (filter (\<lambda>p. ap_in p = ''path'') (op_params oper))"

text \<open>
  What an operation says of its route: the texts of the options; as path parameters those that the input declares and then the
  other names of the path; a response for failed input if there is any input, and one for errors.
\<close>

definition describes :: "doc_route \<Rightarrow> operation \<Rightarrow> bool" where
  "describes r oper \<longleftrightarrow>
     op_summary oper = od_summary (rc_doc (dr_config r)) \<and> op_tags oper = od_tags (rc_doc (dr_config r)) \<and>
     op_security oper = od_security (rc_doc (dr_config r)) \<and>
     path_param_names oper = documented_names r @ map doc_param_name (filter (\<lambda>n. n \<notin> set (documented_names r)) (snd (openapi_path (dr_path r)))) \<and>
     (op_params oper \<noteq> [] \<or> op_body oper \<noteq> None \<longrightarrow> map_of (op_responses oper) ''422'' \<noteq> None) \<and>
     map_of (op_responses oper) ''default'' \<noteq> None"

lemma lookup_put:
  "lookup_operation (put_operation p m oper ps) k = (if k = (p, m) then Some oper else lookup_operation ps k)"
  by (cases k) (auto simp: lookup_operation_def put_operation_def update_conv' split: option.split)

lemma gen_bind_cases:
  assumes "gen_bind F K n g = Some (b, g2)"
  obtains a g1 where "F n g = Some (a, g1)" "K a n g1 = Some (b, g2)"
  using assms by (auto simp: gen_bind_def split: option.splits)

lemma param_fields: "ap_name (param_of L p s) = dp_name p" "ap_in (param_of L p s) = loc_name (dp_in p)"
  by (simp_all add: param_of_def Let_def split: prod.split)

lemma loc_name_path: "(loc_name l = ''path'') = (l = InPath)"
  by (cases l) simp_all

lemma params_in_order:
  "gen_fold (add_param L D) ps qs n g = Some (qs', g') \<Longrightarrow>
    map (\<lambda>p. (ap_name p, ap_in p)) qs' = map (\<lambda>p. (ap_name p, ap_in p)) qs @ map (\<lambda>p. (dp_name p, loc_name (dp_in p))) ps"
proof (induction ps arbitrary: qs g)
  case Nil
  then show ?case by (simp add: gen_ret_def)
next
  case (Cons p ps)
  from Cons.prems have "gen_bind (add_param L D p qs) (gen_fold (add_param L D) ps) n g = Some (qs', g')" by simp
  then obtain a g1 where a: "add_param L D p qs n g = Some (a, g1)" "gen_fold (add_param L D) ps a n g1 = Some (qs', g')"
    by (rule gen_bind_cases)
  from a(1) obtain s where "a = qs @ [param_of L p s]" unfolding add_param_def
    by (elim gen_bind_cases) (auto simp: gen_ret_def)
  then show ?case using Cons.IH [OF a(2)] by (simp add: param_fields)
qed

lemma path_names_of: "map ap_name (filter (\<lambda>p. ap_in p = ''path'') qs) = map fst (filter (\<lambda>(n, i). i = ''path'') (map (\<lambda>p. (ap_name p, ap_in p)) qs))"
  by (induction qs) simp_all

lemma declared_names_of:
  "map fst (filter (\<lambda>(n, i). i = ''path'') (map (\<lambda>p. (dp_name p, loc_name (dp_in p))) ps)) = map dp_name (filter (\<lambda>p. dp_in p = InPath) ps)"
  by (induction ps) (simp_all add: loc_name_path)

lemma plain_params_names:
  "map ap_name (filter (\<lambda>p. ap_in p = ''path'') (plain_params r)) =
    map doc_param_name (filter (\<lambda>n. n \<notin> set (documented_names r)) (snd (openapi_path (dr_path r))))"
  by (simp add: plain_params_def filter_map o_def)

lemma common_responses_keys:
  "map_of (common_responses err text d b rs) ''default'' \<noteq> None" "b \<Longrightarrow> map_of (common_responses err text d b rs) ''422'' \<noteq> None"
  by (simp_all add: common_responses_def Let_def update_conv' del: map_of.simps)

lemma operation_describes:
  assumes "operation_of L D ty text err i r n g = Some (oper, g')"
  shows "describes r oper \<and> op_id oper = i"
proof -
  from assms obtain ps g1 b rs where
    ps: "(case input_plan_of r of None \<Rightarrow> gen_ret [] | Some pl \<Rightarrow> gen_fold (add_param L D) (ip_params pl) []) n g = Some (ps, g1)"
    and op: "oper = \<lparr>op_id = i, op_summary = od_summary (rc_doc (dr_config r)), op_description = od_description (rc_doc (dr_config r)),
        op_tags = od_tags (rc_doc (dr_config r)), op_deprecated = od_deprecated (rc_doc (dr_config r)),
        op_security = od_security (rc_doc (dr_config r)), op_params = ps @ plain_params r,
        op_body = request_body_of (rc_doc (dr_config r)) b,
        op_responses = common_responses err text (rc_doc (dr_config r))
          (ps @ plain_params r \<noteq> [] \<or> request_body_of (rc_doc (dr_config r)) b \<noteq> None) rs\<rparr>"
    unfolding operation_of_def Let_def by (elim gen_bind_cases) (auto simp: gen_ret_def)
  have "map ap_name (filter (\<lambda>p. ap_in p = ''path'') ps) = documented_names r"
  proof (cases "input_plan_of r")
    case None
    then show ?thesis using ps by (simp add: gen_ret_def documented_names_def)
  next
    case (Some pl)
    then have "map (\<lambda>p. (ap_name p, ap_in p)) ps = map (\<lambda>p. (dp_name p, loc_name (dp_in p))) (ip_params pl)"
      using params_in_order [of L D "ip_params pl" "[]" n g ps g1] ps by simp
    then show ?thesis using Some by (simp add: path_names_of declared_names_of documented_names_def)
  qed
  then show ?thesis unfolding op describes_def path_param_names_def
    using common_responses_keys by (simp add: plain_params_names)
qed

text \<open>The operation under a key is that of the last route with it.\<close>

definition last_route :: "doc_route list \<Rightarrow> string \<times> string \<Rightarrow> doc_route option" where
  "last_route rs k = find (\<lambda>r. documented r \<and> route_key r = k) (rev rs)"

definition paths_describe :: "doc_route list \<Rightarrow> (string \<times> (string \<times> operation) list) list \<Rightarrow> bool" where
  "paths_describe rs ps \<longleftrightarrow>
     (\<forall>k. case last_route rs k of
            None \<Rightarrow> lookup_operation ps k = None
          | Some r \<Rightarrow> (\<exists>oper. lookup_operation ps k = Some oper \<and> describes r oper))"

lemma last_route_snoc: "last_route (rs @ [r]) k = (if documented r \<and> route_key r = k then Some r else last_route rs k)"
  by (simp add: last_route_def)

lemma routes_describe:
  "gen_fold (add_doc_route L D ty text err) rs st n g = Some (st', g') \<Longrightarrow> paths_describe qs (snd st) \<Longrightarrow> paths_describe (qs @ rs) (snd st')"
proof (induction rs arbitrary: st g qs)
  case Nil
  then show ?case by (simp add: gen_ret_def)
next
  case (Cons r rs)
  from Cons.prems(1) have "gen_bind (add_doc_route L D ty text err r st) (gen_fold (add_doc_route L D ty text err) rs) n g = Some (st', g')" by simp
  then obtain st1 g1 where a: "add_doc_route L D ty text err r st n g = Some (st1, g1)" "gen_fold (add_doc_route L D ty text err) rs st1 n g1 = Some (st', g')"
    by (rule gen_bind_cases)
  have "paths_describe (qs @ [r]) (snd st1)"
  proof (cases "documented r")
    case True
    obtain i used where u: "unique_id (fst st) (route_id r) = (i, used)" by fastforce
    from a(1) True u obtain oper g2 where o': "operation_of L D ty text err i r n g = Some (oper, g2)"
        "snd st1 = put_operation (fst (openapi_path (dr_path r))) (to_lower (dr_method r)) oper (snd st)"
      by (auto simp: add_doc_route_def gen_ret_def elim!: gen_bind_cases)
    have lk: "lookup_operation (snd st1) k = (if route_key r = k then Some oper else lookup_operation (snd st) k)" for k
      unfolding o'(2) lookup_put route_key_def by auto
    show ?thesis unfolding paths_describe_def
    proof
      fix k
      have "case last_route qs k of None \<Rightarrow> lookup_operation (snd st) k = None
          | Some r \<Rightarrow> (\<exists>oper. lookup_operation (snd st) k = Some oper \<and> describes r oper)"
        using Cons.prems(2) unfolding paths_describe_def by (rule spec)
      then show "case last_route (qs @ [r]) k of None \<Rightarrow> lookup_operation (snd st1) k = None
          | Some r \<Rightarrow> (\<exists>oper. lookup_operation (snd st1) k = Some oper \<and> describes r oper)"
        using operation_describes [OF o'(1)] True unfolding lk last_route_snoc by (cases "route_key r = k") simp_all
    qed
  next
    case False
    then have "st1 = st" using a(1) by (simp add: add_doc_route_def gen_ret_def)
    then show ?thesis using Cons.prems(2) False by (simp add: paths_describe_def last_route_snoc)
  qed
  from Cons.IH [OF a(2) this] show ?case by simp
qed

section \<open>Examples\<close>

text \<open>Two routes that the router keeps apart share a path of the document, so that the operation of the first is lost.\<close>

lemma wildcard_shares_path:
  "openapi_path ''/a/:id'' = (''/a/{id}'', [''id''])" "openapi_path ''/a/*id'' = (''/a/{id}'', [''id''])"
  by (simp_all add: openapi_path_def doc_segment_def path_name_def doc_param_name_def List.map_filter_def)

text \<open>Identifiers made unique collide with one that was given.\<close>

lemma unique_ids_collide:
  "(let (a, u1) = unique_id (\<lambda>_. 0) ''list''; (b, u2) = unique_id u1 ''list''; (c, u3) = unique_id u2 ''list_2'' in (a, b, c)) =
    (''list'', ''list_2'', ''list_2'')"
proof -
  have "dec_nat 2 = ''2''" by code_simp
  then show ?thesis by (simp add: unique_id_def numeral_2_eq_2 [symmetric] del: dec_nat.simps)
qed

text \<open>The unnamed wildcard, declared by the input: the parameter has another name than the path's.\<close>

definition star_route :: doc_route where
  "star_route =
     \<lparr>dr_method = ''GET'', dr_path = ''/files/*'', dr_config = new_config, dr_input = Some (OStruct []),
      dr_plan = Some \<lparr>ip_params = [\<lparr>dp_name = ''*'', dp_in = InPath, dp_field = OField ''P'' OString True False [(''path'', ''*'')]\<rparr>],
        ip_body = None, ip_whole = False\<rparr>, dr_output = None\<rparr>"

lemma star_undocumented: "describes star_route oper \<Longrightarrow> path_param_names oper = [''*''] \<and> fst (openapi_path ''/files/*'') = ''/files/{wildcard}''"
  by (simp add: describes_def star_route_def documented_names_def input_plan_of_def is_struct_def openapi_path_def path_name_def
      List.map_filter_def doc_segment_def doc_param_name_def)

definition user_route :: doc_route where
  "user_route =
     \<lparr>dr_method = ''PUT'', dr_path = ''/users/:id'', dr_config = new_config, dr_input = Some (OStruct [plain_field ''Next'' (ONamed ''a.List'')]),
      dr_plan = Some \<lparr>ip_params = [], ip_body = None, ip_whole = True\<rparr>, dr_output = Some (ONamed ''b.List'')\<rparr>"

section \<open>Properties\<close>

text \<open>the document is closed: for all routes whose types are well-formed and embed no cycle, building returns, with every
  depth from some on the same document, and every reference in a parameter, body or response of an operation, on success or
  error, names a component of the document.\<close>

lemma document_closed:
  assumes "plain_decls D" "ranked R D" "plain_type D err" "list_all (\<lambda>r. list_all (plain_type D) (route_types ty r)) rs"
  shows "\<exists>n0 d. (\<forall>n \<ge> n0. build_document n L D ty text err st rs = Some d) \<and> list_all (resolves (do_components d)) (path_refs (do_paths d))"
proof -
  obtain n0 ps g where r: "\<And>n. n \<ge> n0 \<Longrightarrow> build_paths L D ty text err rs n new_generator = Some (ps, g)" "refs_in g (path_refs ps)"
    using sound_paths [OF assms(1,2,4,3), of new_generator L "text"] new_generator_ok unfolding gen_sound_def by blast
  then show ?thesis by (auto simp: build_document_def refs_in_def intro!: exI [of _ n0])
qed

lemma document_closed_witness:
  "\<exists>n0 d. (\<forall>n \<ge> n0. build_document n digit_lib list_decls (\<lambda>_. OAny) (\<lambda>_. []) (OStruct []) new_openapi_state [user_route] = Some d) \<and>
     list_all (resolves (do_components d)) (path_refs (do_paths d))"
  by (rule document_closed [where R = "\<lambda>_. 0"])
     (simp_all add: list_decls_plain, simp add: route_types_def user_route_def new_config_def new_doc_def list_decls_def plain_field_def)

text \<open>every documented route is an operation of the document under its path and method, and nothing else is: where several
  routes have the same key, the last one. The operation has the route's texts and exactly the path parameters of the route, those
  the input declares with their schema and the rest as strings, and documents how input is rejected whenever there is input.\<close>

lemma routes_documented:
  assumes "build_document n L D ty text err st rs = Some d"
  shows "case last_route rs k of
      None \<Rightarrow> lookup_operation (do_paths d) k = None
    | Some r \<Rightarrow> (\<exists>oper. lookup_operation (do_paths d) k = Some oper \<and> describes r oper)"
proof -
  obtain g where p: "build_paths L D ty text err rs n new_generator = Some (do_paths d, g)"
    using assms by (auto simp: build_document_def)
  then obtain e g1 st' g2 where f: "gen_fold (add_doc_route L D ty text e) rs (\<lambda>_. 0, []) n g1 = Some (st', g2)" "do_paths d = snd st'"
    unfolding build_paths_def by (elim gen_bind_cases) (auto simp: gen_ret_def)
  have "paths_describe [] (snd (\<lambda>_. 0 :: nat, [] :: (string \<times> (string \<times> operation) list) list))"
    by (simp add: paths_describe_def last_route_def lookup_operation_def)
  from routes_describe [OF f(1) this] show ?thesis unfolding paths_describe_def f(2) append_Nil by (rule spec)
qed

lemma routes_documented_witness:
  "\<exists>n d oper. build_document n digit_lib list_decls (\<lambda>_. OAny) (\<lambda>_. []) (OStruct []) new_openapi_state [user_route] = Some d \<and>
     lookup_operation (do_paths d) (''/users/{id}'', ''put'') = Some oper \<and> path_param_names oper = [''id'']"
proof -
  have err: "plain_type list_decls (OStruct [])" by simp
  have types: "list_all (\<lambda>r. list_all (plain_type list_decls) (route_types (\<lambda>_. OAny) r)) [user_route]"
    by (simp add: route_types_def user_route_def new_config_def new_doc_def list_decls_def plain_field_def)
  obtain n ps g where "build_paths digit_lib list_decls (\<lambda>_. OAny) (\<lambda>_. []) (OStruct []) [user_route] n new_generator = Some (ps, g)"
    using sound_paths [OF list_decls_plain(1,2) types err, of new_generator digit_lib "\<lambda>_. []"] new_generator_ok
    unfolding gen_sound_def by blast
  then obtain d where d: "build_document n digit_lib list_decls (\<lambda>_. OAny) (\<lambda>_. []) (OStruct []) new_openapi_state [user_route] = Some d"
    by (simp add: build_document_def)
  have path: "openapi_path ''/users/:id'' = (''/users/{id}'', [''id''])"
    by (simp add: openapi_path_def doc_segment_def path_name_def doc_param_name_def List.map_filter_def)
  have put: "to_lower ''PUT'' = ''put''" by code_simp
  have "last_route [user_route] (''/users/{id}'', ''put'') = Some user_route"
    by (simp add: last_route_def documented_def route_key_def user_route_def path new_config_def new_doc_def is_documented_method_def put)
  then obtain oper where "lookup_operation (do_paths d) (''/users/{id}'', ''put'') = Some oper" "describes user_route oper"
    using routes_documented [OF d, of "(''/users/{id}'', ''put'')"] by auto
  moreover have "path_param_names oper = [''id'']"
    using \<open>describes user_route oper\<close>
    by (simp add: describes_def documented_names_def input_plan_of_def user_route_def is_struct_def path doc_param_name_def)
  ultimately show ?thesis using d by blast
qed

end
