(* ===== verification/Spec2Isabelle.thy ===== *)
theory Spec2Isabelle
  imports Prelude Router Url Ratelimit Cache CacheMemory Capture Codec Idempotency Jobs Page Dotenv ContainerResolve Errors Response Routes Dispatch Lifecycle Hub Session Auth HttpClient Webhook Network Middlewares Negotiate Rules Validate Binding BindRequest Health Sse Config Settings Upload Schema OpenApi
begin

text \<open>
  A verification library for torge, a web framework in Go (\<open>app.go\<close> and its packages). This theory imports the whole library.
  Every theory opens with what it holds; this text says how the parts fit together.

  \<^bold>\<open>The program.\<close> An application (\<open>app.go\<close>) registers routes, hooks and constructors, starts once, serves and shuts down. A request
  is routed by a trie per method (\<open>router.go\<close>), runs through the middleware of the application, its groups and its route
  (\<open>group.go\<close>, \<open>route.go\<close>, \<open>handler.go\<close>), is bound and validated (\<open>bind.go\<close>, \<open>internal/binding\<close>, \<open>validate\<close>), and answered through a
  response writer (\<open>response.go\<close>, \<open>context.go\<close>, \<open>stream.go\<close>) or the error handler (\<open>errors.go\<close>). Services come from a dependency
  container (\<open>container.go\<close>). Around this core are packages that a program chooses from: caches, rate limits, idempotency keys,
  sessions, authentication, background jobs, a publish/subscribe hub, an HTTP client, webhooks, uploads, configuration and
  an OpenAPI document.

  \<^bold>\<open>Theories and sources.\<close>
  \<^item> \<open>Prelude\<close>: results of fallible functions (\<open>Inl\<close> is the error), 64-bit signed arithmetic (\<open>i64\<close>), instants and durations in
    nanoseconds, the functions of Go's \<open>strings\<close> and \<open>strconv\<close> that the code calls, and the collections \<open>state_simps\<close>, \<open>inv_intros\<close>
    and \<open>str_simps\<close>. \<open>Codec\<close>: an encoding that meets the assumptions made on encoders.
  \<^item> \<open>Router\<close> (\<open>router.go\<close>), \<open>Url\<close> (\<open>joinPaths\<close>, \<open>buildURL\<close>), \<open>Routes\<close> (\<open>route.go\<close>, \<open>group.go\<close>), \<open>Dispatch\<close> (registration and routing in
    \<open>app.go\<close>), \<open>Lifecycle\<close> (pipeline, start and shutdown in \<open>app.go\<close>), \<open>Health\<close> (\<open>health.go\<close>, \<open>module.go\<close>, the registry of \<open>infra.go\<close>).
  \<^item> \<open>Response\<close> (\<open>response.go\<close>, the helpers of \<open>context.go\<close>), \<open>Sse\<close> (\<open>stream.go\<close>), \<open>Errors\<close> (\<open>errors.go\<close>), \<open>Capture\<close>
    (\<open>internal/capture\<close>), \<open>Negotiate\<close> (\<open>negotiate.go\<close>), \<open>Page\<close> (\<open>page.go\<close>), \<open>Network\<close> (\<open>net.go\<close>, \<open>middleware.go\<close>), \<open>Middlewares\<close> (package
    \<open>middleware\<close>).
  \<^item> \<open>Rules\<close>, \<open>Validate\<close> (package \<open>validate\<close>), \<open>Binding\<close> (\<open>internal/binding\<close>), \<open>BindRequest\<close> (\<open>bind.go\<close>), \<open>Upload\<close> (\<open>upload/upload.go\<close>),
    \<open>Schema\<close> (\<open>openapi/schema.go\<close>), \<open>OpenApi\<close> (\<open>openapi_gen.go\<close>).
  \<^item> \<open>Container\<close>, \<open>ContainerGraph\<close>, \<open>ContainerBuild\<close>, \<open>ContainerResolve\<close> (\<open>container.go\<close>): the operations, the cycle search against the
    graph, construction, resolution in a request.
  \<^item> \<open>Cache\<close>, \<open>CacheMemory\<close> (package \<open>cache\<close>), \<open>Ratelimit\<close> (package \<open>ratelimit\<close>, the Redis script of \<open>contrib/redis/limiter.go\<close>),
    \<open>Idempotency\<close>, \<open>Session\<close>, \<open>Auth\<close> (package \<open>auth\<close>, \<open>contrib/jwt\<close>), \<open>HttpClient\<close>, \<open>Webhook\<close>, \<open>Jobs\<close> (package \<open>jobs\<close>), \<open>Hub\<close>
    (\<open>realtime/hub.go\<close>), \<open>Dotenv\<close>, \<open>Config\<close>, \<open>Settings\<close> (package \<open>config\<close>).

  \<^bold>\<open>How state and operations are modelled.\<close> A Go struct is a record, an operation a function from the state to the state, with
  errors, panics and early returns as values. What runs under a mutex is one step; concurrent behaviour is any sequence of steps
  (\<open>hub_step\<close>, \<open>job_step\<close>, the arrivals and completions of \<open>Idempotency\<close>, the steps of \<open>CacheMemory\<close> and \<open>Ratelimit\<close>). Blocked
  goroutines and timers are part of the state. The clock, random numbers, user callbacks and third-party code (JSON, hashes,
  parsers of addresses and URLs, token libraries, Redis) are arguments; what is assumed of them is written as a hypothesis.

  \<^bold>\<open>Interfaces.\<close> \<open>lossy_store\<close> (\<open>Cache\<close>) is what the users of a cache rely on: a store that may forget but never returns anything
  but the last fresh write. \<open>namespaced_store\<close> extends it and is again a \<open>lossy_store\<close>, for the keys of one prefix. The LRU store is an
  interpretation of both, through which \<open>Idempotency\<close>, \<open>Session\<close>, \<open>Webhook\<close> and the response cache get their properties.
  \<open>job_queue\<close> (\<open>Jobs\<close>) is what the manager needs of a queue; the in-process queue is an interpretation.

  \<^bold>\<open>What the lemmas show.\<close> Routing: the lookup finds the preferred of the registered routes that match; registration reports conflicts;
  dispatch answers each request in exactly one way; built URLs route back. Life cycle: the history of hook callbacks for every
  sequence of calls. Container: registration, the cycle search, construction and resolution are correct and end. Responses: recording and
  compression change nothing for the client; internal errors stay hidden; body limits are exact. Input: validation agrees with a
  declarative meaning of the tags; each parameter comes from its own source; uploads obey their limits; the document admits what
  the validator accepts, refers to existing components only and is generated in finite time. State: bounds and freshness of the cache, limits
  of request rates, executions per idempotency key, conservation of jobs, gapless delivery of events, session fixation, access
  decisions, signatures of webhooks, retries of the client.

  \<^bold>\<open>Fuel and depth.\<close> \<open>find_cycle\<close> has as much fuel as there are providers and is proved never to run out; \<open>resolve\<close> has one unit more,
  which in a started application is never used up (\<open>request_resolution\<close>); \<open>group_chain\<close> has the index of the group, since a parent is always created
  before its children; plans are compiled with one unit for each declared type, which is proved to be enough. \<open>schema_of\<close> and the chains of
  \<open>OpenApi\<close> have a depth of calls: there is one from which on the result is the same (\<open>schema_generation_ends\<close>), unless a type embeds
  itself (\<open>self_embedding_diverges\<close>). Everything else is structural or has a measure.

  \<^bold>\<open>Machine integers.\<close> Sums and products that can leave the 64 bits are wrapped: page counts and offsets, backoffs, \<open>Retry-After\<close>,
  rate intervals, Unix times, and the limit plus one of the body readers. Where a wrap breaks a promise the property excludes it
  and a lemma shows it (\<open>largest_limit_panics\<close>, \<open>largest_webhook_limit\<close>, \<open>largest_field_size\<close>, \<open>parse_retry_after_wraps\<close>).

  \<^bold>\<open>Not modelled.\<close> Sockets, TLS, signals and the serving loop; goroutine scheduling inside a step and deadlines of contexts; logging and its
  attributes; the rendering of HTML pages and tables; the typed handlers of \<open>typed.go\<close>, which combine modelled parts by generics; SQL,
  MongoDB and the other Redis clients, tracing, the command line tool, test helpers and examples. A field of a struct that only passes
  through to such code is left out.
\<close>

end
